(* ===== verification/Kernel_Prelude.thy ===== *)
theory Kernel_Prelude
  imports Main "HOL-Library.Word"
begin

text \<open>
  Shared ground of the development: the machine integer types of the kernel, the ways a kernel
  operation can fail to return, sequencing of fallible operations, page arithmetic
  (\<^verbatim>\<open>pageConstants.h\<close>) and the generic lemmas on lists and words that the component theories use.
\<close>

unbundle bit_operations_syntax

section \<open>Machine integers and pointers\<close>

type_synonym u8 = "8 word"
type_synonym u16 = "16 word"
type_synonym u32 = "32 word"
type_synonym u64 = "64 word"
type_synonym ptr = "64 word"

abbreviation nullptr :: ptr where
  "nullptr \<equiv> 0"

abbreviation SIZE_MAX :: u64 where
  "SIZE_MAX \<equiv> - 1"

section \<open>Ways not to return\<close>

text \<open>
  A kernel routine that does not return normally ends in one of these: \<^verbatim>\<open>kpanic\<close> with its message,
  a spinlock that is never released (the CPU spins with interrupts off), an access through a null
  or otherwise unmapped pointer, an array access past its end, a loop that never exits, an access to an
  object that was freed, or signed arithmetic whose overflow C++ leaves undefined.
\<close>

datatype fault =
    Panic string
  | Deadlock
  | NullDereference
  | OutOfBounds
  | Diverges
  | UseAfterFree
  | Undefined

type_synonym 'a result = "fault + 'a"

definition rbind :: "'a result \<Rightarrow> ('a \<Rightarrow> 'b result) \<Rightarrow> 'b result" where
  "rbind m f = (case m of Inl e \<Rightarrow> Inl e | Inr x \<Rightarrow> f x)"

lemma rbind_simps [simp]:
  "rbind (Inl e) f = Inl e"
  "rbind (Inr x) f = f x"
  by (simp_all add: rbind_def)

lemma rbind_eq_Inr [simp]:
  "(rbind m f = Inr y) \<longleftrightarrow> (\<exists>x. m = Inr x \<and> f x = Inr y)"
  by (cases m) auto

text \<open>A loop whose body may fail, over the values its counter takes.\<close>

fun for_each :: "('a \<Rightarrow> 's \<Rightarrow> 's result) \<Rightarrow> 'a list \<Rightarrow> 's \<Rightarrow> 's result" where
  "for_each f [] s = Inr s"
| "for_each f (x # xs) s = rbind (f x s) (for_each f xs)"

lemma for_each_append: "for_each f (xs @ ys) s = rbind (for_each f xs s) (for_each f ys)"
proof (induction xs arbitrary: s)
  case (Cons x xs)
  then show ?case by (cases "f x s") simp_all
qed simp

lemma for_each_concat: "for_each f (concat xss) s = for_each (for_each f) xss s"
proof (induction xss arbitrary: s)
  case (Cons xs xss)
  then show ?case by (simp add: for_each_append) (cases "for_each f xs s"; simp)
qed simp

lemma for_each_map: "for_each f (map g xs) s = for_each (\<lambda>x. f (g x)) xs s"
proof (induction xs arbitrary: s)
  case (Cons x xs)
  then show ?case by (cases "f (g x) s") simp_all
qed simp

lemma for_each_filter: "(\<And>x s. \<not> P x \<Longrightarrow> f x s = Inr s) \<Longrightarrow> for_each f (filter P xs) s = for_each f xs s"
proof (induction xs arbitrary: s)
  case (Cons x xs)
  show ?case
  proof (cases "P x")
    case True
    then show ?thesis using Cons by (cases "f x s") simp_all
  qed (use Cons in simp)
qed simp

text \<open>Two loops whose bodies agree as long as an invariant holds, which the second keeps.\<close>

lemma for_each_cong_inv:
  assumes "I s" "\<And>x s. x \<in> set xs \<Longrightarrow> I s \<Longrightarrow> f x s = g x s" "\<And>x s s'. x \<in> set xs \<Longrightarrow> I s \<Longrightarrow> g x s = Inr s' \<Longrightarrow> I s'"
  shows "for_each f xs s = for_each g xs s"
  using assms
proof (induction xs arbitrary: s)
  case (Cons x xs)
  show ?case
  proof (cases "g x s")
    case (Inr s1)
    have "I s1" by (rule Cons.prems(3) [OF _ Cons.prems(1) Inr]) simp
    then have "for_each f xs s1 = for_each g xs s1"
    proof (rule Cons.IH)
      show "f y t = g y t" if "y \<in> set xs" "I t" for y t by (rule Cons.prems(2)) (use that in simp_all)
      show "I t'" if "y \<in> set xs" "I t" "g y t = Inr t'" for y t t' by (rule Cons.prems(3) [OF _ that(2,3)]) (use that(1) in simp)
    qed
    with Cons.prems(1,2) Inr show ?thesis by simp
  qed (use Cons.prems in simp)
qed simp

lemma for_each_inv:
  assumes "for_each g xs s = Inr s'" "I s" "\<And>x s s'. x \<in> set xs \<Longrightarrow> I s \<Longrightarrow> g x s = Inr s' \<Longrightarrow> I s'"
  shows "I s'"
  using assms
proof (induction xs arbitrary: s)
  case (Cons x xs)
  then obtain s1 where "g x s = Inr s1" "for_each g xs s1 = Inr s'" by auto
  moreover have "I s1" by (rule Cons.prems(3) [OF _ Cons.prems(2) calculation(1)]) simp
  ultimately show ?case using Cons.IH [of s1] Cons.prems(3) by (meson list.set_intros(2))
qed simp

named_theorems kernel_defs \<open>definitions of straight-line kernel operations\<close>
named_theorems cover_simps \<open>counting rules for the bytes a list of memory blocks covers\<close>
named_theorems inv_intros \<open>preservation of component invariants\<close>

section \<open>Page arithmetic (\<^verbatim>\<open>pageConstants.h\<close>)\<close>

definition PAGE_SIZE :: u64 where
  "PAGE_SIZE = 4096"

definition PAGE_ALIGN_UP :: "u64 \<Rightarrow> u64" where
  "PAGE_ALIGN_UP x = (x + 4095) div 4096 * 4096"

definition PAGE_ALIGN_DOWN :: "u64 \<Rightarrow> u64" where
  "PAGE_ALIGN_DOWN x = x div 4096 * 4096"

definition page_aligned :: "u64 \<Rightarrow> bool" where
  "page_aligned x \<longleftrightarrow> unat x mod 4096 = 0"

lemma unat_u64_bound [simp]: "unat (x :: u64) < 18446744073709551616"
  using unsigned_less [of x, where 'a = nat] by simp

lemma unat_of_nat_small: "n < 2 ^ LENGTH('a) \<Longrightarrow> unat (of_nat n :: 'a :: len word) = n"
  by (simp add: unsigned_of_nat take_bit_nat_eq_self)

lemma unat_add_u64: "unat a + unat b < 2 ^ 64 \<Longrightarrow> unat (a + b :: u64) = unat a + unat b"
  by (simp add: unat_word_ariths)

lemma unat_PAGE_ALIGN_DOWN: "unat (PAGE_ALIGN_DOWN x) = unat x div 4096 * 4096"
proof -
  have "unat x div 4096 * 4096 \<le> unat x" by simp
  also have "unat x < 2 ^ 64" by simp
  finally show ?thesis
    by (simp add: PAGE_ALIGN_DOWN_def unat_word_ariths unat_div)
qed

lemma unat_PAGE_ALIGN_UP:
  assumes "unat x + 4095 < 2 ^ 64"
  shows "unat (PAGE_ALIGN_UP x) = (unat x + 4095) div 4096 * 4096"
proof -
  have *: "unat (x + 4095) = unat x + 4095"
    using assms by (simp add: unat_word_ariths)
  have "(unat x + 4095) div 4096 * 4096 \<le> unat x + 4095" by simp
  with assms have "(unat x + 4095) div 4096 * 4096 < 2 ^ 64" by linarith
  then show ?thesis
    by (simp add: PAGE_ALIGN_UP_def unat_word_ariths unat_div *)
qed

lemma aligned_add: "unat (x :: u64) mod 4096 = 0 \<Longrightarrow> unat y mod 4096 = 0 \<Longrightarrow> unat (x + y) mod 4096 = 0"
  using dvd_add [of 4096 "unat x" "unat y"] by (simp add: unat_word_ariths mod_mod_cancel mod_eq_0_iff_dvd)

section \<open>Lists\<close>

lemma sum_list_update_nat:
  fixes f :: "'a \<Rightarrow> nat"
  assumes "k < length xs"
  shows "sum_list (map f (xs[k := y])) + f (xs ! k) = sum_list (map f xs) + f y"
  using assms
proof (induction xs arbitrary: k)
  case Nil
  then show ?case by simp
next
  case (Cons x xs)
  then show ?case by (cases k) auto
qed

lemma take_Suc_update [simp]:
  "n < length xs \<Longrightarrow> take (Suc n) (xs[n := y]) = take n xs @ [y]"
  by (simp add: take_Suc_conv_app_nth)

lemma nth_mem_take: "k < n \<Longrightarrow> n \<le> length xs \<Longrightarrow> xs ! k \<in> set (take n xs)"
  using nth_mem [of k "take n xs"] by simp

end
