(* ===== verification/Spin_Lock.thy ===== *)
theory Spin_Lock
  imports Kernel_Prelude
begin

text \<open>
  The spinlock of \<^verbatim>\<open>include/mykonos/spinlock.h\<close> with the local interrupt flag of
  \<^verbatim>\<open>arch/x86_64/include/mykonos/cpu.h\<close> that it saves and restores. The first part gives the
  operations as one CPU sees them when nobody else competes for the lock; they are what the other
  theories call. The second part splits the same code into the atomic actions that other CPUs can
  observe, as a step relation over any number of CPUs, and proves mutual exclusion, the restoring
  of the interrupt flag and the absence of deadlock.
\<close>

section \<open>The lock object\<close>

record spinlock =
  sl_lock :: u8
  sl_enableIrqs :: bool

definition spinlock_init :: spinlock where
  "spinlock_init = \<lparr>sl_lock = 0, sl_enableIrqs = False\<rparr>"

text \<open>Moving a lock leaves the source locked, so a stale user of it spins instead of racing.\<close>

definition spinlock_move :: "spinlock \<Rightarrow> spinlock \<times> spinlock" where
  "spinlock_move other =
     (\<lparr>sl_lock = sl_lock other, sl_enableIrqs = sl_enableIrqs other\<rparr>,
      other\<lparr>sl_lock := 1, sl_enableIrqs := False\<rparr>)"

definition locked :: "spinlock \<Rightarrow> bool" where
  "locked l \<longleftrightarrow> sl_lock l \<noteq> 0"

text \<open>
  \<open>irq\<close> is the CPU's interrupt flag. With no other CPU to release it, a lock that is already taken
  keeps the loop of \<^verbatim>\<open>acquire\<close> spinning with interrupts disabled.
\<close>

definition acquire :: "bool \<times> spinlock \<Rightarrow> (bool \<times> spinlock) result" where
  "acquire = (\<lambda>(irq, l).
     if locked l then Inl Deadlock
     else Inr (False, l\<lparr>sl_lock := 1, sl_enableIrqs := irq\<rparr>))"

definition release :: "bool \<times> spinlock \<Rightarrow> bool \<times> spinlock" where
  "release = (\<lambda>(irq, l).
     (let shouldReenableIrqs = sl_enableIrqs l
      in (if shouldReenableIrqs then True else irq, l\<lparr>sl_lock := 0\<rparr>)))"

lemma acquire_locked [simp]: "locked l \<Longrightarrow> acquire (irq, l) = Inl Deadlock"
  by (simp add: acquire_def)

lemma acquire_release [simp]:
  "\<not> locked l \<Longrightarrow>
     acquire (irq, l) = Inr (False, l\<lparr>sl_lock := 1, sl_enableIrqs := irq\<rparr>)"
  "release (False, l\<lparr>sl_lock := 1, sl_enableIrqs := irq\<rparr>)
     = (irq, l\<lparr>sl_lock := 0, sl_enableIrqs := irq\<rparr>)"
  by (auto simp: acquire_def release_def)

lemma locked_simps [simp]:
  "locked (l\<lparr>sl_lock := 1\<rparr>)"
  "\<not> locked (l\<lparr>sl_lock := 0\<rparr>)"
  "locked (l\<lparr>sl_enableIrqs := b\<rparr>) = locked l"
  "\<not> locked (l\<lparr>sl_lock := 0, sl_enableIrqs := b\<rparr>)"
  "\<not> locked spinlock_init"
  by (simp_all add: locked_def spinlock_init_def)

section \<open>Operations under a lock\<close>

text \<open>
  The kernel's objects hold their own spinlock and most operations have the form acquire, work,
  release. \<open>under_lock\<close> is that form for an object whose lock field is read by \<open>get_lock\<close> and written
  by \<open>set_lock\<close>.
\<close>

definition under_lock ::
  "('s \<Rightarrow> spinlock) \<Rightarrow> (spinlock \<Rightarrow> 's \<Rightarrow> 's) \<Rightarrow> ('s \<Rightarrow> 'r \<times> 's) \<Rightarrow>
   bool \<times> 's \<Rightarrow> ('r \<times> bool \<times> 's) result" where
  "under_lock get_lock set_lock body = (\<lambda>(irq, s).
     rbind (acquire (irq, get_lock s)) (\<lambda>(irq1, l1).
       (let (r, s1) = body (set_lock l1 s);
            (irq2, l2) = release (irq1, get_lock s1)
        in Inr (r, irq2, set_lock l2 s1))))"

text \<open>The lock fields of the kernel's objects all satisfy these laws.\<close>

locale lock_owner =
  fixes get_lock :: "'s \<Rightarrow> spinlock"
    and set_lock :: "spinlock \<Rightarrow> 's \<Rightarrow> 's"
  assumes get_set: "get_lock (set_lock l s) = l"
    and set_get: "set_lock (get_lock s) s = s"
    and set_set: "set_lock l (set_lock l' s) = set_lock l s"
begin

lemma under_lock_deadlock:
  "locked (get_lock s) \<Longrightarrow> under_lock get_lock set_lock body (irq, s) = Inl Deadlock"
  by (simp add: under_lock_def)

text \<open>A body that leaves the lock field alone runs to its end, and the interrupt flag is what it was.\<close>

lemma under_lock_run:
  assumes "\<not> locked (get_lock s)"
    and "body (set_lock ((get_lock s)\<lparr>sl_lock := 1, sl_enableIrqs := irq\<rparr>) s) = (r, s1)"
    and "get_lock s1 = (get_lock s)\<lparr>sl_lock := 1, sl_enableIrqs := irq\<rparr>"
  shows "under_lock get_lock set_lock body (irq, s)
           = Inr (r, irq, set_lock ((get_lock s)\<lparr>sl_lock := 0, sl_enableIrqs := irq\<rparr>) s1)"
  using assms by (simp add: under_lock_def)

lemma under_lock_leaves_free:
  "under_lock get_lock set_lock body (irq, s) = Inr (r, irq', s') \<Longrightarrow> \<not> locked (get_lock s')"
  by (auto simp: under_lock_def release_def get_set Let_def case_prod_beta)

end

section \<open>Competing CPUs\<close>

text \<open>
  The program counter of a CPU inside \<^verbatim>\<open>acquire\<close> and \<^verbatim>\<open>release\<close>. \<open>Spinning\<close> is the loop on
  \<^verbatim>\<open>locked()\<close>, \<open>Swapping\<close> the compare-and-swap, \<open>Saving\<close> the store of \<^verbatim>\<open>enableIrqs\<close>; \<open>Releasing\<close>
  has read \<^verbatim>\<open>enableIrqs\<close> and is about to store 0, \<open>Restoring\<close> has stored it and is about to execute
  \<^verbatim>\<open>sti\<close>. The first boolean is the interrupt flag the CPU entered \<^verbatim>\<open>acquire\<close> with (in the code a
  local of \<^verbatim>\<open>acquire\<close> until \<open>Holding\<close>, from there on a history value); the second is the local
  \<^verbatim>\<open>shouldReenableIrqs\<close> of \<^verbatim>\<open>release\<close>.
\<close>

datatype spin_pc =
    Outside
  | Spinning bool
  | Swapping bool
  | Saving bool
  | Holding bool
  | Releasing bool bool
  | Restoring bool bool

record spin_sys =
  sys_lock :: spinlock
  sys_pc :: "nat \<Rightarrow> spin_pc"
  sys_irq :: "nat \<Rightarrow> bool"

definition spin_init :: "(nat \<Rightarrow> bool) \<Rightarrow> spin_sys" where
  "spin_init irq = \<lparr>sys_lock = spinlock_init, sys_pc = (\<lambda>_. Outside), sys_irq = irq\<rparr>"

definition spin_goto :: "nat \<Rightarrow> spin_pc \<Rightarrow> spin_sys \<Rightarrow> spin_sys" where
  "spin_goto i p s = s\<lparr>sys_pc := (sys_pc s)(i := p)\<rparr>"

inductive spin_step :: "spin_sys \<Rightarrow> spin_sys \<Rightarrow> bool" where
  enter: "sys_pc s i = Outside \<Longrightarrow>
     spin_step s (spin_goto i (Spinning (sys_irq s i)) (s\<lparr>sys_irq := (sys_irq s)(i := False)\<rparr>))"
| spin: "sys_pc s i = Spinning old \<Longrightarrow> locked (sys_lock s) \<Longrightarrow> spin_step s s"
| seen_free: "sys_pc s i = Spinning old \<Longrightarrow> \<not> locked (sys_lock s) \<Longrightarrow>
     spin_step s (spin_goto i (Swapping old) s)"
| swap_ok: "sys_pc s i = Swapping old \<Longrightarrow> sl_lock (sys_lock s) = 0 \<Longrightarrow>
     spin_step s (spin_goto i (Saving old) (s\<lparr>sys_lock := (sys_lock s)\<lparr>sl_lock := 1\<rparr>\<rparr>))"
| swap_lost: "sys_pc s i = Swapping old \<Longrightarrow> sl_lock (sys_lock s) \<noteq> 0 \<Longrightarrow>
     spin_step s (spin_goto i (Spinning old) s)"
| save: "sys_pc s i = Saving old \<Longrightarrow>
     spin_step s (spin_goto i (Holding old) (s\<lparr>sys_lock := (sys_lock s)\<lparr>sl_enableIrqs := old\<rparr>\<rparr>))"
| read_saved: "sys_pc s i = Holding old \<Longrightarrow>
     spin_step s (spin_goto i (Releasing old (sl_enableIrqs (sys_lock s))) s)"
| unlock: "sys_pc s i = Releasing old b \<Longrightarrow>
     spin_step s (spin_goto i (Restoring old b) (s\<lparr>sys_lock := (sys_lock s)\<lparr>sl_lock := 0\<rparr>\<rparr>))"
| restore: "sys_pc s i = Restoring old b \<Longrightarrow>
     spin_step s (spin_goto i Outside
       (s\<lparr>sys_irq := (sys_irq s)(i := (if b then True else sys_irq s i))\<rparr>))"

inductive spin_reachable :: "spin_sys \<Rightarrow> bool" where
  start: "spin_reachable (spin_init irq)"
| step: "spin_reachable s \<Longrightarrow> spin_step s t \<Longrightarrow> spin_reachable t"

fun spin_owns :: "spin_pc \<Rightarrow> bool" where
  "spin_owns (Saving old) = True"
| "spin_owns (Holding old) = True"
| "spin_owns (Releasing old b) = True"
| "spin_owns _ = False"

text \<open>What a CPU at each point may rely on, given the lock object and its own interrupt flag.\<close>

fun spin_local :: "spin_pc \<Rightarrow> spinlock \<Rightarrow> bool \<Rightarrow> bool" where
  "spin_local Outside l irq = True"
| "spin_local (Holding old) l irq = (\<not> irq \<and> sl_enableIrqs l = old)"
| "spin_local (Releasing old b) l irq = (\<not> irq \<and> b = old)"
| "spin_local (Restoring old b) l irq = (\<not> irq \<and> b = old)"
| "spin_local _ l irq = (\<not> irq)"

definition spin_inv :: "spin_sys \<Rightarrow> bool" where
  "spin_inv s \<longleftrightarrow>
     (locked (sys_lock s) \<longleftrightarrow> (\<exists>i. spin_owns (sys_pc s i))) \<and>
     (\<forall>i j. spin_owns (sys_pc s i) \<longrightarrow> spin_owns (sys_pc s j) \<longrightarrow> i = j) \<and>
     (\<forall>i. spin_local (sys_pc s i) (sys_lock s) (sys_irq s i))"

lemma spin_goto_simps [simp]:
  "sys_lock (spin_goto i p s) = sys_lock s"
  "sys_irq (spin_goto i p s) = sys_irq s"
  "sys_pc (spin_goto i p s) = (sys_pc s)(i := p)"
  by (simp_all add: spin_goto_def)

lemma spin_inv_init: "spin_inv (spin_init irq)"
  by (simp add: spin_inv_def spin_init_def)

text \<open>Writing the saved flag or the lock byte disturbs no CPU that does not own the lock.\<close>

lemma spin_local_not_owner:
  "\<not> spin_owns p \<Longrightarrow> spin_local p l irq = spin_local p l' irq"
  by (cases p) auto

lemma spin_local_lock_byte [simp]:
  "spin_local p (l\<lparr>sl_lock := v\<rparr>) irq = spin_local p l irq"
  by (cases p) auto

lemma spin_step_inv:
  assumes "spin_step s t" and "spin_inv s"
  shows "spin_inv t"
  using assms
proof (cases rule: spin_step.cases)
  case (save i old)
  have "spin_local (sys_pc s j) ((sys_lock s)\<lparr>sl_enableIrqs := old\<rparr>) (sys_irq s j)" if "j \<noteq> i" for j
  proof -
    from that save assms(2) have "\<not> spin_owns (sys_pc s j)"
      by (auto simp: spin_inv_def dest: spec [of _ i])
    moreover have "spin_local (sys_pc s j) (sys_lock s) (sys_irq s j)"
      using assms(2) by (simp add: spin_inv_def)
    ultimately show ?thesis using spin_local_not_owner by blast
  qed
  with save assms(2) show ?thesis
    unfolding spin_inv_def by (auto; metis spin_local.simps spin_owns.simps)
next
  case (swap_ok i old)
  then have "\<not> locked (sys_lock s)" by (simp add: locked_def)
  with swap_ok assms(2) show ?thesis
    unfolding spin_inv_def by (auto; metis spin_local.simps spin_owns.simps)
qed (use assms(2) in \<open>auto simp: spin_inv_def; metis spin_local.simps spin_owns.simps\<close>)+

lemma spin_reachable_inv: "spin_reachable s \<Longrightarrow> spin_inv s"
  by (induction rule: spin_reachable.induct) (auto intro: spin_inv_init spin_step_inv)

lemma spin_reachable_local:
  "spin_reachable s \<Longrightarrow> spin_local (sys_pc s i) (sys_lock s) (sys_irq s i)"
  by (auto dest!: spin_reachable_inv simp: spin_inv_def)

lemma spin_movesI:
  "spin_step s t \<Longrightarrow> sys_pc t j \<noteq> p \<Longrightarrow> \<exists>t. spin_step s t \<and> sys_pc t j \<noteq> p"
  by blast

text \<open>Only a CPU that spins on a taken lock has to wait.\<close>

lemma spin_can_move:
  assumes "sys_pc s j \<noteq> Outside"
    and "(\<exists>old. sys_pc s j = Spinning old) \<longrightarrow> \<not> locked (sys_lock s)"
  shows "\<exists>t. spin_step s t \<and> sys_pc t j \<noteq> sys_pc s j"
proof (cases "sys_pc s j")
  case (Spinning old)
  with assms(2) have "\<not> locked (sys_lock s)" by blast
  from spin_step.seen_free [OF Spinning this] show ?thesis
    by (rule spin_movesI) (simp add: Spinning)
next
  case (Swapping old)
  show ?thesis
  proof (cases "sl_lock (sys_lock s) = 0")
    case True
    from spin_step.swap_ok [OF Swapping this] show ?thesis
      by (rule spin_movesI) (simp add: Swapping)
  next
    case False
    from spin_step.swap_lost [OF Swapping this] show ?thesis
      by (rule spin_movesI) (simp add: Swapping)
  qed
next
  case (Saving old)
  from spin_step.save [OF Saving] show ?thesis by (rule spin_movesI) (simp add: Saving)
next
  case (Holding old)
  from spin_step.read_saved [OF Holding] show ?thesis by (rule spin_movesI) (simp add: Holding)
next
  case (Releasing old b)
  from spin_step.unlock [OF Releasing] show ?thesis by (rule spin_movesI) (simp add: Releasing)
next
  case (Restoring old b)
  from spin_step.restore [OF Restoring] show ?thesis by (rule spin_movesI) (simp add: Restoring)
qed (use assms(1) in simp)

section \<open>What the lock guarantees\<close>

text \<open>A run in which CPU 0 takes the lock: used to show that the hypotheses below can hold.\<close>

definition spin_example_holding :: spin_sys where
  "spin_example_holding =
     \<lparr>sys_lock = \<lparr>sl_lock = 1, sl_enableIrqs = True\<rparr>,
      sys_pc = (\<lambda>_. Outside)(0 := Holding True), sys_irq = (\<lambda>_. True)(0 := False)\<rparr>"

definition spin_example_restoring :: spin_sys where
  "spin_example_restoring =
     \<lparr>sys_lock = \<lparr>sl_lock = 0, sl_enableIrqs = True\<rparr>,
      sys_pc = (\<lambda>_. Outside)(0 := Restoring True True), sys_irq = (\<lambda>_. True)(0 := False)\<rparr>"

lemma spin_example_holding_reachable: "spin_reachable spin_example_holding"
proof -
  let ?s0 = "spin_init (\<lambda>_. True)"
  have 1: "spin_reachable (spin_goto 0 (Spinning True) (?s0\<lparr>sys_irq := (sys_irq ?s0)(0 := False)\<rparr>))"
    (is "spin_reachable ?s1")
    using spin_reachable.step [OF spin_reachable.start spin_step.enter [of ?s0 0]]
    by (simp add: spin_init_def)
  have 2: "spin_reachable (spin_goto 0 (Swapping True) ?s1)" (is "spin_reachable ?s2")
    by (rule spin_reachable.step [OF 1 spin_step.seen_free]) (simp_all add: spin_init_def)
  have 3: "spin_reachable (spin_goto 0 (Saving True) (?s2\<lparr>sys_lock := (sys_lock ?s2)\<lparr>sl_lock := 1\<rparr>\<rparr>))"
    (is "spin_reachable ?s3")
    by (rule spin_reachable.step [OF 2 spin_step.swap_ok])
       (simp_all add: spin_init_def spinlock_init_def)
  have "spin_reachable (spin_goto 0 (Holding True)
          (?s3\<lparr>sys_lock := (sys_lock ?s3)\<lparr>sl_enableIrqs := True\<rparr>\<rparr>))"
    by (rule spin_reachable.step [OF 3 spin_step.save]) simp
  then show ?thesis
    by (simp add: spin_example_holding_def spin_goto_def spin_init_def spinlock_init_def)
qed

lemma spin_example_restoring_reachable: "spin_reachable spin_example_restoring"
proof -
  have 1: "spin_reachable (spin_goto 0 (Releasing True True) spin_example_holding)"
    (is "spin_reachable ?s1")
    using spin_reachable.step [OF spin_example_holding_reachable
        spin_step.read_saved [of spin_example_holding 0 True]]
    by (simp add: spin_example_holding_def)
  have "spin_reachable (spin_goto 0 (Restoring True True)
          (?s1\<lparr>sys_lock := (sys_lock ?s1)\<lparr>sl_lock := 0\<rparr>\<rparr>))"
    by (rule spin_reachable.step [OF 1 spin_step.unlock]) simp
  then show ?thesis
    by (simp add: spin_example_restoring_def spin_example_holding_def spin_goto_def)
qed

text \<open>
  (C1) Mutual exclusion: in every reachable state of any number of CPUs running the spinlock code,
  at most one CPU is between its successful compare-and-swap and the store that unlocks, and that
  CPU runs with its interrupts disabled, so no interrupt handler on it can spin on the same lock.
\<close>

theorem spin_mutual_exclusion:
  assumes "spin_reachable s" and "spin_owns (sys_pc s i)" and "spin_owns (sys_pc s j)"
  shows "i = j \<and> \<not> sys_irq s i"
proof -
  from spin_reachable_local [OF assms(1), of i] assms(2) have "\<not> sys_irq s i"
    by (cases "sys_pc s i") auto
  with spin_reachable_inv [OF assms(1)] assms(2,3) show ?thesis by (auto simp: spin_inv_def)
qed

theorem spin_mutual_exclusion_witness: "(0 :: nat) = 0 \<and> \<not> sys_irq spin_example_holding 0"
  by (rule spin_mutual_exclusion [OF spin_example_holding_reachable])
     (simp_all add: spin_example_holding_def)

text \<open>
  The interrupt flag is restored: when a CPU leaves \<^verbatim>\<open>release\<close>, its interrupt flag is what it was
  when it entered \<^verbatim>\<open>acquire\<close>, although the flag is kept in the shared lock object.
\<close>

theorem spin_irq_restored:
  assumes "spin_reachable s" and "spin_step s t"
    and "sys_pc s i = Restoring old b" and "sys_pc t i = Outside"
  shows "sys_irq t i = old"
proof -
  from spin_reachable_local [OF assms(1), of i] have "\<not> sys_irq s i \<and> b = old"
    by (simp add: assms(3))
  with assms(2-4) show ?thesis
    by (auto elim!: spin_step.cases split: if_splits)
qed

theorem spin_irq_restored_witness:
  "sys_irq (spin_goto 0 Outside
     (spin_example_restoring\<lparr>sys_irq := (sys_irq spin_example_restoring)(0 := True)\<rparr>)) 0 = True"
proof (rule spin_irq_restored [OF spin_example_restoring_reachable])
  show "spin_step spin_example_restoring
     (spin_goto 0 Outside (spin_example_restoring\<lparr>sys_irq := (sys_irq spin_example_restoring)(0 := True)\<rparr>))"
    using spin_step.restore [of spin_example_restoring 0 True True]
    by (simp add: spin_example_restoring_def)
  show "sys_pc spin_example_restoring 0 = Restoring True True"
    by (simp add: spin_example_restoring_def)
qed simp

text \<open>
  (C2) No deadlock: whenever some CPU is inside \<^verbatim>\<open>acquire\<close> or \<^verbatim>\<open>release\<close> or holds the lock, some CPU
  that is not outside can take a step that changes the state, so the CPUs never all spin for ever
  on a lock that nobody is going to release.
\<close>

theorem spin_no_deadlock:
  assumes "spin_reachable s" and "sys_pc s i \<noteq> Outside"
  shows "\<exists>j t. sys_pc s j \<noteq> Outside \<and> spin_step s t \<and> sys_pc t j \<noteq> sys_pc s j"
proof (cases "\<exists>j. spin_owns (sys_pc s j)")
  case True
  then obtain j where j: "spin_owns (sys_pc s j)" by blast
  then have "sys_pc s j \<noteq> Outside" and "\<forall>old. sys_pc s j \<noteq> Spinning old" by auto
  then show ?thesis using spin_can_move [of s j] by blast
next
  case False
  with assms(1) have "\<not> locked (sys_lock s)"
    by (auto dest!: spin_reachable_inv simp: spin_inv_def)
  with assms(2) show ?thesis using spin_can_move [of s i] by blast
qed

theorem spin_no_deadlock_witness:
  "\<exists>j t. sys_pc spin_example_holding j \<noteq> Outside \<and> spin_step spin_example_holding t \<and>
         sys_pc t j \<noteq> sys_pc spin_example_holding j"
  by (rule spin_no_deadlock [OF spin_example_holding_reachable, of 0])
     (simp add: spin_example_holding_def)

end
