(* ===== verification/Task_Queue.thy ===== *)
theory Task_Queue
  imports Spin_Lock
begin

text \<open>
  Tasks (\<^verbatim>\<open>task/registers.h\<close>, \<^verbatim>\<open>task/controlBlock.h\<close>) and the intrusive task queue
  (\<^verbatim>\<open>task/taskQueue.h\<close>), whose links are the \<^verbatim>\<open>next\<close> fields of the queued control blocks. Control
  blocks live in a heap, a function from their addresses. The queue never resets \<^verbatim>\<open>next\<close>, neither when
  a task is pushed nor when it is popped; \<open>tq_rep\<close> says which list of tasks a queue stands for in spite
  of that, and the operations are proved to be the list operations.
\<close>

section \<open>Control blocks\<close>

record registers =
  rax :: u64
  rcx :: u64
  rdx :: u64
  rbx :: u64
  rsp :: u64
  rbp :: u64
  rsi :: u64
  rdi :: u64
  r8 :: u64
  r9 :: u64
  r10 :: u64
  r11 :: u64
  r12 :: u64
  r13 :: u64
  r14 :: u64
  r15 :: u64
  cr3 :: ptr
  rip :: ptr
  rflags :: u64

datatype task_state = RUNNING | RUNNABLE | BLOCKING

record control_block =
  cb_registers :: registers
  cb_originalStackPointer :: ptr
  cb_runLock :: spinlock
  cb_state :: task_state
  cb_timeSlice :: u32
  cb_priority :: u32
  cb_next :: ptr

type_synonym task_heap = "ptr \<Rightarrow> control_block"

text \<open>\<^verbatim>\<open>new task::ControlBlock()\<close>: value initialisation zeroes what has no initialiser of its own.\<close>

definition zero_registers :: registers where
  "zero_registers =
     \<lparr>rax = 0, rcx = 0, rdx = 0, rbx = 0, rsp = 0, rbp = 0, rsi = 0, rdi = 0, r8 = 0, r9 = 0, r10 = 0,
      r11 = 0, r12 = 0, r13 = 0, r14 = 0, r15 = 0, cr3 = 0, rip = 0, rflags = 0\<rparr>"

definition new_control_block :: control_block where
  "new_control_block =
     \<lparr>cb_registers = zero_registers, cb_originalStackPointer = nullptr, cb_runLock = spinlock_init,
      cb_state = RUNNING, cb_timeSlice = 0, cb_priority = 0, cb_next = nullptr\<rparr>"

section \<open>The queue\<close>

record task_queue =
  tq_lock :: spinlock
  tq_head :: ptr
  tq_tail :: ptr
  tq_size :: u32

definition task_queue_init :: task_queue where
  "task_queue_init = \<lparr>tq_lock = spinlock_init, tq_head = nullptr, tq_tail = nullptr, tq_size = 0\<rparr>"

text \<open>The move constructor: the new queue and what is left of the old one.\<close>

definition task_queue_move :: "task_queue \<Rightarrow> task_queue \<times> task_queue" where
  "task_queue_move other =
     (let (lock, otherLock) = spinlock_move (tq_lock other)
      in (\<lparr>tq_lock = lock, tq_head = tq_head other, tq_tail = tq_tail other, tq_size = tq_size other\<rparr>,
          other\<lparr>tq_lock := otherLock, tq_head := nullptr, tq_tail := nullptr, tq_size := 0\<rparr>))"

definition set_next :: "ptr \<Rightarrow> ptr \<Rightarrow> task_heap \<Rightarrow> task_heap" where
  "set_next t v h = h(t := (h t)\<lparr>cb_next := v\<rparr>)"

definition pushBody :: "ptr \<Rightarrow> task_queue \<times> task_heap \<Rightarrow> task_queue \<times> task_heap" where
  "pushBody value = (\<lambda>(q, h).
     (let (q1, h1) =
        (if tq_head q = nullptr then (q\<lparr>tq_head := value, tq_tail := value\<rparr>, h)
         else (q\<lparr>tq_tail := value\<rparr>, set_next (tq_tail q) value h))
      in (q1\<lparr>tq_size := tq_size q1 + 1\<rparr>, h1)))"

definition push_frontBody :: "ptr \<Rightarrow> task_queue \<times> task_heap \<Rightarrow> task_queue \<times> task_heap" where
  "push_frontBody value = (\<lambda>(q, h).
     (let (q1, h1) =
        (if tq_head q = nullptr then (q\<lparr>tq_head := value, tq_tail := value\<rparr>, h)
         else (q\<lparr>tq_head := value\<rparr>, set_next value (tq_head q) h))
      in (q1\<lparr>tq_size := tq_size q1 + 1\<rparr>, h1)))"

definition popBody :: "task_queue \<times> task_heap \<Rightarrow> ptr \<times> task_queue \<times> task_heap" where
  "popBody = (\<lambda>(q, h).
     (let result = tq_head q;
          q1 = (if tq_head q \<noteq> nullptr then
                  (let q2 = (if tq_head q = tq_tail q then q\<lparr>tq_head := nullptr, tq_tail := nullptr\<rparr>
                             else q\<lparr>tq_head := cb_next (h (tq_head q))\<rparr>)
                   in q2\<lparr>tq_size := tq_size q2 - 1\<rparr>)
                else q)
      in (result, q1, h)))"

abbreviation tq_section ::
  "(task_queue \<times> task_heap \<Rightarrow> 'r \<times> task_queue \<times> task_heap) \<Rightarrow>
   bool \<times> task_queue \<times> task_heap \<Rightarrow> ('r \<times> bool \<times> task_queue \<times> task_heap) result" where
  "tq_section \<equiv> under_lock (\<lambda>(q, h). tq_lock q) (\<lambda>l (q, h). (q\<lparr>tq_lock := l\<rparr>, h))"

definition tq_push :: "ptr \<Rightarrow> bool \<times> task_queue \<times> task_heap \<Rightarrow> (unit \<times> bool \<times> task_queue \<times> task_heap) result" where
  "tq_push value = tq_section (\<lambda>s. ((), pushBody value s))"

definition tq_push_front :: "ptr \<Rightarrow> bool \<times> task_queue \<times> task_heap \<Rightarrow> (unit \<times> bool \<times> task_queue \<times> task_heap) result" where
  "tq_push_front value = tq_section (\<lambda>s. ((), push_frontBody value s))"

definition tq_pop :: "bool \<times> task_queue \<times> task_heap \<Rightarrow> (ptr \<times> bool \<times> task_queue \<times> task_heap) result" where
  "tq_pop = tq_section popBody"

definition getSize :: "task_queue \<Rightarrow> u32" where
  "getSize q = tq_size q"

section \<open>The list a queue stands for\<close>

fun chain :: "task_heap \<Rightarrow> ptr list \<Rightarrow> bool" where
  "chain h [] = True"
| "chain h [x] = True"
| "chain h (x # y # xs) = (cb_next (h x) = y \<and> chain h (y # xs))"

definition tq_rep :: "task_queue \<Rightarrow> task_heap \<Rightarrow> ptr list \<Rightarrow> bool" where
  "tq_rep q h xs \<longleftrightarrow>
     chain h xs \<and> distinct xs \<and> nullptr \<notin> set xs \<and> tq_size q = of_nat (length xs) \<and>
     (if xs = [] then tq_head q = nullptr \<and> tq_tail q = nullptr
      else tq_head q = hd xs \<and> tq_tail q = last xs)"

lemma chain_Cons: "chain h (x # xs) \<longleftrightarrow> (xs = [] \<or> cb_next (h x) = hd xs) \<and> chain h xs"
  by (cases xs) auto

lemma chain_set_next_other: "t \<notin> set xs \<Longrightarrow> chain (set_next t v h) xs = chain h xs"
  by (induction xs) (auto simp: chain_Cons set_next_def)

lemma chain_snoc:
  "distinct xs \<Longrightarrow> xs \<noteq> [] \<Longrightarrow> chain h xs \<Longrightarrow> chain (set_next (last xs) v h) (xs @ [v])"
proof (induction xs)
  case (Cons x xs)
  then show ?case
    by (cases "xs = []") (auto simp: chain_Cons set_next_def)
qed simp

text \<open>Only the links matter: a change of other fields of control blocks leaves every queue alone.\<close>

lemma chain_cong: "(\<And>x. x \<in> set xs \<Longrightarrow> cb_next (h x) = cb_next (h' x)) \<Longrightarrow> chain h xs = chain h' xs"
  by (induction xs) (auto simp: chain_Cons)

lemma tq_rep_cong:
  "tq_rep q h xs \<Longrightarrow> (\<And>x. x \<in> set xs \<Longrightarrow> cb_next (h x) = cb_next (h' x)) \<Longrightarrow> tq_rep q h' xs"
  using chain_cong [of xs h h'] by (simp add: tq_rep_def)

lemma tq_rep_head: "tq_rep q h xs \<Longrightarrow> tq_head q = nullptr \<longleftrightarrow> xs = []"
  by (cases xs) (auto simp: tq_rep_def)

lemma tq_rep_init [simp]: "tq_rep task_queue_init h []"
  by (simp add: tq_rep_def task_queue_init_def)

lemma pushBody_rep:
  assumes "tq_rep q h xs" and "v \<noteq> nullptr" and "v \<notin> set xs" and "pushBody v (q, h) = (q', h')"
  shows "tq_rep q' h' (xs @ [v])"
proof (cases "xs = []")
  case True
  with assms show ?thesis by (auto simp: tq_rep_def pushBody_def)
next
  case False
  with tq_rep_head [OF assms(1)] have "tq_head q \<noteq> nullptr" by simp
  with False assms chain_snoc [of xs h v] show ?thesis
    by (auto simp: tq_rep_def pushBody_def)
qed

lemma push_frontBody_rep:
  assumes "tq_rep q h xs" and "v \<noteq> nullptr" and "v \<notin> set xs" and "push_frontBody v (q, h) = (q', h')"
  shows "tq_rep q' h' (v # xs)"
proof (cases "xs = []")
  case True
  with assms show ?thesis by (auto simp: tq_rep_def push_frontBody_def)
next
  case False
  with tq_rep_head [OF assms(1)] have "tq_head q \<noteq> nullptr" by simp
  moreover have "cb_next (set_next v w h v) = w" for w by (simp add: set_next_def)
  ultimately show ?thesis using False assms
    by (auto simp: tq_rep_def push_frontBody_def chain_Cons chain_set_next_other)
qed

lemma popBody_rep:
  assumes "tq_rep q h xs" and "popBody (q, h) = (r, q', h')"
  shows "r = (case xs of [] \<Rightarrow> nullptr | x # _ \<Rightarrow> x) \<and> tq_rep q' h (tl xs) \<and> h' = h"
proof (cases xs)
  case Nil
  with assms show ?thesis by (auto simp: tq_rep_def popBody_def)
next
  case (Cons x ys)
  have "x = last (x # ys) \<longleftrightarrow> ys = []" if "x \<notin> set ys"
    using that last_in_set [of ys] by auto
  with Cons assms show ?thesis
    by (auto simp: tq_rep_def popBody_def chain_Cons Let_def split: if_splits)
qed

section \<open>The operations as callers see them\<close>

interpretation tql: lock_owner "\<lambda>(q, h). tq_lock q" "\<lambda>l (q :: task_queue, h :: task_heap). (q\<lparr>tq_lock := l\<rparr>, h)"
  by unfold_locales auto

definition links_only :: "task_heap \<Rightarrow> task_heap \<Rightarrow> bool" where
  "links_only h h' \<longleftrightarrow> (\<forall>x. h' x = (h x)\<lparr>cb_next := cb_next (h' x)\<rparr>)"

lemma links_only_simps:
  assumes "links_only h h'"
  shows "cb_state (h' x) = cb_state (h x)" "cb_runLock (h' x) = cb_runLock (h x)"
    "cb_priority (h' x) = cb_priority (h x)" "cb_timeSlice (h' x) = cb_timeSlice (h x)"
    "cb_registers (h' x) = cb_registers (h x)" "cb_originalStackPointer (h' x) = cb_originalStackPointer (h x)"
  using assms by (metis (no_types) links_only_def control_block.select_convs control_block.update_convs(7)
      control_block.surjective)+

lemma links_only_set_next: "links_only h (set_next t v h)"
  by (simp add: links_only_def set_next_def)

lemma links_only_refl: "links_only h h"
  by (simp add: links_only_def)

definition tq_ok :: "task_queue \<Rightarrow> task_heap \<Rightarrow> ptr list \<Rightarrow> bool" where
  "tq_ok q h xs \<longleftrightarrow> tq_rep q h xs \<and> \<not> locked (tq_lock q)"

lemma tq_ok_cong:
  "tq_ok q h xs \<Longrightarrow> (\<And>x. x \<in> set xs \<Longrightarrow> cb_next (h x) = cb_next (h' x)) \<Longrightarrow> tq_ok q h' xs"
  using tq_rep_cong [of q h xs h'] by (simp add: tq_ok_def)

lemma tq_rep_lock [simp]: "tq_rep (q\<lparr>tq_lock := l\<rparr>) h xs = tq_rep q h xs"
  by (simp add: tq_rep_def)

lemma tq_okI: "tq_rep q h xs \<Longrightarrow> tq_ok (q\<lparr>tq_lock := l\<lparr>sl_lock := 0, sl_enableIrqs := b\<rparr>\<rparr>) h xs"
  by (simp add: tq_ok_def)

lemma tq_bodies_lock:
  "pushBody v (q, h) = (q', h') \<Longrightarrow> tq_lock q' = tq_lock q"
  "push_frontBody v (q, h) = (q', h') \<Longrightarrow> tq_lock q' = tq_lock q"
  "popBody (q, h) = (r, q', h'') \<Longrightarrow> tq_lock q' = tq_lock q"
  by (auto simp: pushBody_def push_frontBody_def popBody_def Let_def split: if_splits prod.splits)

lemma tq_push_ok:
  assumes "tq_ok q h xs" and "v \<noteq> nullptr" and "v \<notin> set xs"
  shows "\<exists>q' h'. tq_push v (irq, q, h) = Inr ((), irq, q', h') \<and> tq_ok q' h' (xs @ [v]) \<and>
           links_only h h' \<and> (\<forall>x. x \<notin> set xs \<longrightarrow> h' x = h x)"
proof -
  let ?l = "(tq_lock q)\<lparr>sl_lock := 1, sl_enableIrqs := irq\<rparr>"
  obtain q1 h1 where run: "pushBody v (q\<lparr>tq_lock := ?l\<rparr>, h) = (q1, h1)" by fastforce
  have rep: "tq_rep (q\<lparr>tq_lock := ?l\<rparr>) h xs" using assms(1) by (simp add: tq_ok_def)
  from pushBody_rep [OF rep assms(2,3) run] have r1: "tq_rep q1 h1 (xs @ [v])" .
  from run rep have "h1 = h \<or> xs \<noteq> [] \<and> h1 = set_next (last xs) v h"
    using tq_rep_head [OF rep] by (auto simp: pushBody_def tq_rep_def split: if_splits)
  then have frame: "links_only h h1 \<and> (\<forall>x. x \<notin> set xs \<longrightarrow> h1 x = h x)"
    by (auto simp: links_only_refl links_only_set_next) (auto simp: set_next_def)
  have "\<not> locked (tq_lock q)" using assms(1) by (simp add: tq_ok_def)
  from tql.under_lock_run [of "(q, h)" "\<lambda>s. ((), pushBody v s)" irq "()" "(q1, h1)"] this run tq_bodies_lock(1) [OF run]
  have "tq_push v (irq, q, h) = Inr ((), irq, q1\<lparr>tq_lock := (tq_lock q)\<lparr>sl_lock := 0, sl_enableIrqs := irq\<rparr>\<rparr>, h1)"
    by (simp add: tq_push_def)
  with frame tq_okI [OF r1] show ?thesis by blast
qed

lemma tq_push_front_ok:
  assumes "tq_ok q h xs" and "v \<noteq> nullptr" and "v \<notin> set xs"
  shows "\<exists>q' h'. tq_push_front v (irq, q, h) = Inr ((), irq, q', h') \<and> tq_ok q' h' (v # xs) \<and>
           links_only h h' \<and> (\<forall>x. x \<noteq> v \<longrightarrow> h' x = h x)"
proof -
  let ?l = "(tq_lock q)\<lparr>sl_lock := 1, sl_enableIrqs := irq\<rparr>"
  obtain q1 h1 where run: "push_frontBody v (q\<lparr>tq_lock := ?l\<rparr>, h) = (q1, h1)" by fastforce
  have rep: "tq_rep (q\<lparr>tq_lock := ?l\<rparr>) h xs" using assms(1) by (simp add: tq_ok_def)
  from push_frontBody_rep [OF rep assms(2,3) run] have r1: "tq_rep q1 h1 (v # xs)" .
  from run have "h1 = h \<or> h1 = set_next v (tq_head q) h"
    by (auto simp: push_frontBody_def split: if_splits)
  then have frame: "links_only h h1 \<and> (\<forall>x. x \<noteq> v \<longrightarrow> h1 x = h x)"
    by (auto simp: links_only_refl links_only_set_next) (auto simp: set_next_def)
  have "\<not> locked (tq_lock q)" using assms(1) by (simp add: tq_ok_def)
  from tql.under_lock_run [of "(q, h)" "\<lambda>s. ((), push_frontBody v s)" irq "()" "(q1, h1)"] this run tq_bodies_lock(2) [OF run]
  have "tq_push_front v (irq, q, h) = Inr ((), irq, q1\<lparr>tq_lock := (tq_lock q)\<lparr>sl_lock := 0, sl_enableIrqs := irq\<rparr>\<rparr>, h1)"
    by (simp add: tq_push_front_def)
  with frame tq_okI [OF r1] show ?thesis by blast
qed

lemma tq_pop_ok:
  assumes "tq_ok q h xs"
  shows "\<exists>q'. tq_pop (irq, q, h) = Inr (case xs of [] \<Rightarrow> nullptr | x # _ \<Rightarrow> x, irq, q', h) \<and> tq_ok q' h (tl xs)"
proof -
  let ?l = "(tq_lock q)\<lparr>sl_lock := 1, sl_enableIrqs := irq\<rparr>"
  obtain r q1 h1 where run: "popBody (q\<lparr>tq_lock := ?l\<rparr>, h) = (r, q1, h1)" by (metis prod_cases3)
  have rep: "tq_rep (q\<lparr>tq_lock := ?l\<rparr>) h xs" using assms(1) by (simp add: tq_ok_def)
  note pop = popBody_rep [OF rep run]
  have "\<not> locked (tq_lock q)" using assms(1) by (simp add: tq_ok_def)
  from tql.under_lock_run [of "(q, h)" popBody irq r "(q1, h1)"] this run tq_bodies_lock(3) [OF run]
  have "tq_pop (irq, q, h) = Inr (r, irq, q1\<lparr>tq_lock := (tq_lock q)\<lparr>sl_lock := 0, sl_enableIrqs := irq\<rparr>\<rparr>, h1)"
    by (simp add: tq_pop_def)
  with pop tq_okI show ?thesis by blast
qed

section \<open>The queue interface\<close>

text \<open>
  What the scheduler, mutexes, completions and blocking queues rely on: the queue is a list with
  insertion at the end and removal at the front.
\<close>

fun run_pushes :: "('v \<Rightarrow> 's \<Rightarrow> (unit \<times> 's) result) \<Rightarrow> 'v list \<Rightarrow> 's \<Rightarrow> 's result" where
  "run_pushes push [] s = Inr s"
| "run_pushes push (v # vs) s = rbind (push v s) (\<lambda>(u, s1). run_pushes push vs s1)"

fun run_pops :: "('s \<Rightarrow> ('v \<times> 's) result) \<Rightarrow> nat \<Rightarrow> 's \<Rightarrow> ('v list \<times> 's) result" where
  "run_pops pop 0 s = Inr ([], s)"
| "run_pops pop (Suc n) s =
     rbind (pop s) (\<lambda>(v, s1). rbind (run_pops pop n s1) (\<lambda>(vs, s2). Inr (v # vs, s2)))"

locale task_fifo =
  fixes push :: "ptr \<Rightarrow> bool \<times> 's \<Rightarrow> (unit \<times> bool \<times> 's) result"
    and pop :: "bool \<times> 's \<Rightarrow> (ptr \<times> bool \<times> 's) result"
    and rep :: "'s \<Rightarrow> ptr list \<Rightarrow> bool"
  assumes push_snoc: "rep s xs \<Longrightarrow> v \<noteq> nullptr \<Longrightarrow> v \<notin> set xs \<Longrightarrow>
      \<exists>s'. push v (irq, s) = Inr ((), irq, s') \<and> rep s' (xs @ [v])"
    and pop_hd: "rep s xs \<Longrightarrow>
      \<exists>s'. pop (irq, s) = Inr (case xs of [] \<Rightarrow> nullptr | x # _ \<Rightarrow> x, irq, s') \<and> rep s' (tl xs)"
begin

lemma pushes:
  "rep s xs \<Longrightarrow> distinct (xs @ vs) \<Longrightarrow> nullptr \<notin> set vs \<Longrightarrow>
     \<exists>s'. run_pushes push vs (irq, s) = Inr (irq, s') \<and> rep s' (xs @ vs)"
proof (induction vs arbitrary: s xs)
  case (Cons v vs)
  then obtain s1 where s1: "push v (irq, s) = Inr ((), irq, s1)" "rep s1 (xs @ [v])"
    using push_snoc [of s xs v irq] by auto
  from Cons.prems have "distinct ((xs @ [v]) @ vs)" and "nullptr \<notin> set vs" by auto
  from Cons.IH [OF s1(2) this] s1(1) show ?case by auto
qed auto

lemma pops:
  "rep s (xs @ ys) \<Longrightarrow> \<exists>s'. run_pops pop (length xs) (irq, s) = Inr (xs, irq, s') \<and> rep s' ys"
proof (induction xs arbitrary: s)
  case (Cons x xs)
  from pop_hd [OF Cons.prems, of irq] obtain s1
    where "pop (irq, s) = Inr (x, irq, s1)" "rep s1 (xs @ ys)" by auto
  with Cons.IH [of s1] show ?case by auto
qed auto

lemma first_in_first_out:
  assumes "rep s []" and "distinct vs" and "nullptr \<notin> set vs"
  shows "\<exists>s1 s2 s3. run_pushes push vs (irq, s) = Inr (irq, s1) \<and>
           run_pops pop (length vs) (irq, s1) = Inr (vs, irq, s2) \<and> pop (irq, s2) = Inr (nullptr, irq, s3)"
proof -
  from pushes [OF assms(1), of vs irq] assms(2,3) obtain s1
    where s1: "run_pushes push vs (irq, s) = Inr (irq, s1)" "rep s1 vs" by auto
  from pops [of s1 vs "[]" irq] s1(2) obtain s2
    where "run_pops pop (length vs) (irq, s1) = Inr (vs, irq, s2)" "rep s2 []" by auto
  with s1(1) pop_hd [of s2 "[]" irq] show ?thesis by auto
qed

end

interpretation tqf: task_fifo tq_push tq_pop "\<lambda>(q, h). tq_ok q h"
proof (unfold_locales, goal_cases)
  case (1 s xs v irq)
  then show ?case using tq_push_ok [of "fst s" "snd s" xs v irq] by (auto simp: case_prod_beta)
next
  case (2 s xs irq)
  then show ?case using tq_pop_ok [of "fst s" "snd s" xs irq] by (auto simp: case_prod_beta)
qed

section \<open>Properties\<close>

text \<open>
  The intrusive queue of \<^verbatim>\<open>taskQueue.h\<close> is first in, first out: tasks pushed onto a fresh queue come
  out in the same order and then the queue is empty (\<^verbatim>\<open>pop\<close> returns null), whatever stale \<^verbatim>\<open>next\<close>
  pointers the control blocks hold.
\<close>

theorem task_queue_fifo:
  assumes "distinct vs" and "nullptr \<notin> set vs"
  shows "\<exists>s1 s2 s3. run_pushes tq_push vs (irq, task_queue_init, h) = Inr (irq, s1) \<and>
           run_pops tq_pop (length vs) (irq, s1) = Inr (vs, irq, s2) \<and> tq_pop (irq, s2) = Inr (nullptr, irq, s3)"
  by (rule tqf.first_in_first_out [OF _ assms]) (simp add: tq_ok_def task_queue_init_def [symmetric],
      simp add: task_queue_init_def)

theorem task_queue_fifo_witness:
  "\<exists>s1 s2 s3. run_pushes tq_push [0x10, 0x20, 0x30] (True, task_queue_init, \<lambda>_. new_control_block) = Inr (True, s1) \<and>
     run_pops tq_pop (length [0x10, 0x20, 0x30 :: ptr]) (True, s1) = Inr ([0x10, 0x20, 0x30], True, s2) \<and>
     tq_pop (True, s2) = Inr (nullptr, True, s3)"
  by (rule task_queue_fifo) simp_all

text \<open>
  Refinement: on a queue that stands for the list \<open>xs\<close>, \<^verbatim>\<open>push\<close> appends, \<^verbatim>\<open>push_front\<close> prepends, and
  only link fields of control blocks change, those of queued tasks or of the pushed task itself, so
  every other queue is left as it was.
\<close>

theorem task_queue_push_refines:
  assumes "tq_ok q h xs" and "v \<noteq> nullptr" and "v \<notin> set xs" and "tq_ok q2 h ys" and "set ys \<inter> set (v # xs) = {}"
  shows "(\<exists>q' h'. tq_push v (irq, q, h) = Inr ((), irq, q', h') \<and> tq_ok q' h' (xs @ [v]) \<and>
            tq_ok q2 h' ys \<and> links_only h h') \<and>
         (\<exists>q' h'. tq_push_front v (irq, q, h) = Inr ((), irq, q', h') \<and> tq_ok q' h' (v # xs) \<and>
            tq_ok q2 h' ys \<and> links_only h h')"
proof -
  have other: "tq_ok q2 h' ys" if "\<forall>x. x \<notin> set (v # xs) \<longrightarrow> h' x = h x" for h'
  proof (rule tq_ok_cong [OF assms(4)])
    fix x assume "x \<in> set ys"
    with assms(5) have "x \<notin> set (v # xs)" by blast
    with that show "cb_next (h x) = cb_next (h' x)" by simp
  qed
  from tq_push_ok [OF assms(1-3), of irq] obtain q' h'
    where "tq_push v (irq, q, h) = Inr ((), irq, q', h')" "tq_ok q' h' (xs @ [v])" "links_only h h'"
      "\<forall>x. x \<notin> set xs \<longrightarrow> h' x = h x" by blast
  moreover from tq_push_front_ok [OF assms(1-3), of irq] obtain q'' h''
    where "tq_push_front v (irq, q, h) = Inr ((), irq, q'', h'')" "tq_ok q'' h'' (v # xs)" "links_only h h''"
      "\<forall>x. x \<noteq> v \<longrightarrow> h'' x = h x" by blast
  ultimately show ?thesis using other [of h'] other [of h''] by simp
qed

lemma tq_ok_init [simp]: "tq_ok task_queue_init h []"
  by (simp add: tq_ok_def) (simp add: task_queue_init_def)

theorem task_queue_push_refines_witness:
  "(\<exists>q' h'. tq_push 0x10 (True, task_queue_init, \<lambda>_. new_control_block) = Inr ((), True, q', h') \<and>
      tq_ok q' h' ([] @ [0x10]) \<and> tq_ok task_queue_init h' [] \<and> links_only (\<lambda>_. new_control_block) h') \<and>
   (\<exists>q' h'. tq_push_front 0x10 (True, task_queue_init, \<lambda>_. new_control_block) = Inr ((), True, q', h') \<and>
      tq_ok q' h' [0x10] \<and> tq_ok task_queue_init h' [] \<and> links_only (\<lambda>_. new_control_block) h')"
  by (rule task_queue_push_refines) simp_all

end
