(* ===== verification/Scheduler.thy ===== *)
theory Scheduler
  imports Task_Queue
begin

text \<open>
  The scheduler: \<^verbatim>\<open>scheduler/scheduler.cpp\<close>, the register switch of
  \<^verbatim>\<open>arch/x86_64/kernel/scheduler/registers.S\<close>, the CPU primitives of \<^verbatim>\<open>cpu.h\<close> it uses and the
  cross-CPU calls of \<^verbatim>\<open>arch/x86_64/kernel/processors/processors.cpp\<close>. The state is the heap of control
  blocks, one scheduler, one mailbox and one register file per CPU. An operation takes the CPU that
  executes it; \<open>control\<close> says whether it came back to its caller, switched to another task (the
  caller continues only when it is scheduled again) or halted the CPU until the next interrupt.
\<close>

section \<open>State\<close>

record scheduler =
  sc_cpuNumber :: nat
  sc_tasks :: task_queue
  sc_schedulerStack :: ptr
  sc_currentTask :: ptr
  sc_addTaskLock :: spinlock
  sc_yieldLocked :: bool
  sc_yieldPostponed :: bool

record mailbox =
  mb_lock :: spinlock
  mb_callback :: bool  \<comment> \<open>whether a callback is posted (the pointer is not null)\<close>
  mb_callerCanReturn :: bool

record kernel =
  k_tcb :: task_heap
  k_sched :: "nat \<Rightarrow> scheduler"
  k_cpuCount :: nat
  k_mail :: "nat \<Rightarrow> mailbox"
  k_regs :: "nat \<Rightarrow> registers"
  k_halted :: "nat \<Rightarrow> bool"
  k_stacks :: "ptr list"  \<comment> \<open>what the next calls of \<^verbatim>\<open>stacks::allocateStack\<close> return\<close>

datatype control = Returned | Switched | Halted

definition INITIAL_TIME_SLICE :: u32 where
  "INITIAL_TIME_SLICE = 5"

definition MAX_CPUS :: nat where
  "MAX_CPUS = 64"

definition scheduler_init :: scheduler where
  "scheduler_init =
     \<lparr>sc_cpuNumber = 0, sc_tasks = task_queue_init, sc_schedulerStack = nullptr, sc_currentTask = nullptr,
      sc_addTaskLock = spinlock_init, sc_yieldLocked = False, sc_yieldPostponed = False\<rparr>"

definition upd_task :: "ptr \<Rightarrow> (control_block \<Rightarrow> control_block) \<Rightarrow> kernel \<Rightarrow> kernel" where
  "upd_task t f k = k\<lparr>k_tcb := (k_tcb k)(t := f (k_tcb k t))\<rparr>"

definition upd_sched :: "nat \<Rightarrow> (scheduler \<Rightarrow> scheduler) \<Rightarrow> kernel \<Rightarrow> kernel" where
  "upd_sched n f k = k\<lparr>k_sched := (k_sched k)(n := f (k_sched k n))\<rparr>"

definition upd_mail :: "nat \<Rightarrow> (mailbox \<Rightarrow> mailbox) \<Rightarrow> kernel \<Rightarrow> kernel" where
  "upd_mail n f k = k\<lparr>k_mail := (k_mail k)(n := f (k_mail k n))\<rparr>"

section \<open>CPU primitives\<close>

definition localIrqState :: "nat \<Rightarrow> kernel \<Rightarrow> bool" where
  "localIrqState c k \<longleftrightarrow> bit (rflags (k_regs k c)) 9"

definition set_irq :: "nat \<Rightarrow> bool \<Rightarrow> kernel \<Rightarrow> kernel" where
  "set_irq c b k =
     k\<lparr>k_regs := (k_regs k)(c := (k_regs k c)
        \<lparr>rflags := (if b then set_bit 9 (rflags (k_regs k c)) else unset_bit 9 (rflags (k_regs k c)))\<rparr>)\<rparr>"

definition enableLocalIrqs :: "nat \<Rightarrow> kernel \<Rightarrow> kernel" where
  "enableLocalIrqs c = set_irq c True"

definition disableLocalIrqs :: "nat \<Rightarrow> kernel \<Rightarrow> kernel" where
  "disableLocalIrqs c = set_irq c False"

definition haultWithIrqs :: "nat \<Rightarrow> kernel \<Rightarrow> kernel" where
  "haultWithIrqs c k = (enableLocalIrqs c k)\<lparr>k_halted := (k_halted k)(c := True)\<rparr>"

section \<open>Register switch\<close>

definition unlockTask :: "nat \<Rightarrow> ptr \<Rightarrow> kernel \<Rightarrow> kernel" where
  "unlockTask c t k =
     (let (irq, l) = release (localIrqState c k, cb_runLock (k_tcb k t))
      in set_irq c irq (upd_task t (\<lambda>b. b\<lparr>cb_runLock := l\<rparr>) k))"

definition lockTask :: "nat \<Rightarrow> ptr \<Rightarrow> kernel \<Rightarrow> kernel result" where
  "lockTask c t k =
     rbind (acquire (localIrqState c k, cb_runLock (k_tcb k t))) (\<lambda>(irq, l).
       Inr (set_irq c irq (upd_task t (\<lambda>b. b\<lparr>cb_runLock := l\<rparr>) k)))"

text \<open>Lock the task and load its registers, flags and page table.\<close>

definition restoreRegisters :: "nat \<Rightarrow> ptr \<Rightarrow> kernel \<Rightarrow> kernel result" where
  "restoreRegisters c to k =
     rbind (lockTask c to k) (\<lambda>k1.
       Inr (k1\<lparr>k_regs := (k_regs k1)(c := cb_registers (k_tcb k1 to)), k_halted := (k_halted k1)(c := False)\<rparr>))"

text \<open>Save the CPU's registers into the old task, unlock it, lock the new task and load its registers.\<close>

definition swapRegisters :: "nat \<Rightarrow> ptr \<Rightarrow> ptr \<Rightarrow> kernel \<Rightarrow> kernel result" where
  "swapRegisters c from to k =
     (let k1 = upd_task from (\<lambda>b. b\<lparr>cb_registers := k_regs k c\<rparr>) k
      in restoreRegisters c to (unlockTask c from k1))"

section \<open>The run queue of a scheduler\<close>

definition on_tasks ::
  "nat \<Rightarrow> nat \<Rightarrow> (bool \<times> task_queue \<times> task_heap \<Rightarrow> ('r \<times> bool \<times> task_queue \<times> task_heap) result) \<Rightarrow>
   kernel \<Rightarrow> ('r \<times> kernel) result" where
  "on_tasks c n f k =
     rbind (f (localIrqState c k, sc_tasks (k_sched k n), k_tcb k)) (\<lambda>(r, irq, q, h).
       Inr (r, set_irq c irq (upd_sched n (\<lambda>s. s\<lparr>sc_tasks := q\<rparr>) (k\<lparr>k_tcb := h\<rparr>))))"

section \<open>The scheduler class\<close>

definition removeCurrent :: "nat \<Rightarrow> kernel \<Rightarrow> ptr \<times> kernel" where
  "removeCurrent n k =
     (let result = sc_currentTask (k_sched k n)
      in (result, upd_sched n (\<lambda>s. s\<lparr>sc_currentTask := nullptr\<rparr>) k))"

definition allocateSchedulerStack :: "nat \<Rightarrow> kernel \<Rightarrow> kernel result" where
  "allocateSchedulerStack n k =
     (if sc_schedulerStack (k_sched k n) = nullptr then
        (case k_stacks k of
           [] \<Rightarrow> Inl (Panic ''Out of memory'')
         | p # ps \<Rightarrow> Inr (upd_sched n (\<lambda>s. s\<lparr>sc_schedulerStack := p\<rparr>) (k\<lparr>k_stacks := ps\<rparr>)))
      else Inr k)"

text \<open>
  \<^verbatim>\<open>switchToSchedulerStack(haultCode, task)\<close>: the CPU leaves the task's stack for its own, unlocks the
  task and waits for interrupts.
\<close>

definition haultOnSchedulerStack :: "nat \<Rightarrow> nat \<Rightarrow> ptr \<Rightarrow> kernel \<Rightarrow> (control \<times> kernel) result" where
  "haultOnSchedulerStack c n t k =
     rbind (allocateSchedulerStack n k) (\<lambda>k1. Inr (Halted, haultWithIrqs c (unlockTask c t k1)))"

definition switchTo :: "nat \<Rightarrow> nat \<Rightarrow> ptr \<Rightarrow> ptr \<Rightarrow> kernel \<Rightarrow> (control \<times> kernel) result" where
  "switchTo c n from to k =
     (let k1 = upd_task to (\<lambda>b. b\<lparr>cb_state := RUNNING, cb_timeSlice := INITIAL_TIME_SLICE\<rparr>) k;
          k2 = upd_sched n (\<lambda>s. s\<lparr>sc_currentTask := to\<rparr>) k1
      in if from \<noteq> nullptr then
           rbind (if cb_state (k_tcb k2 from) = RUNNING
                  then on_tasks c n (tq_push from) (upd_task from (\<lambda>b. b\<lparr>cb_state := RUNNABLE\<rparr>) k2)
                  else Inr ((), k2)) (\<lambda>(u, k3).
           rbind (swapRegisters c from to k3) (\<lambda>k4. Inr (Switched, k4)))
         else rbind (restoreRegisters c to k2) (\<lambda>k3. Inr (Switched, k3)))"

text \<open>\<^verbatim>\<open>Scheduler::yield\<close> of scheduler \<open>n\<close>, executed by CPU \<open>c\<close>.\<close>

definition sched_yield :: "nat \<Rightarrow> nat \<Rightarrow> kernel \<Rightarrow> (control \<times> kernel) result" where
  "sched_yield c n k =
     (if \<not> sc_yieldLocked (k_sched k n) then
        (let enableIrqs = localIrqState c k;
             finish = (\<lambda>k'. Inr (Returned, if enableIrqs then enableLocalIrqs c k' else k'));
             k1 = disableLocalIrqs c k;
             from = sc_currentTask (k_sched k1 n)
         in rbind (on_tasks c n tq_pop k1) (\<lambda>(to, k2).
              if to \<noteq> nullptr then switchTo c n from to k2
              else if sc_currentTask (k_sched k2 n) = nullptr then Inr (Halted, haultWithIrqs c k2)
              else if cb_state (k_tcb k2 from) \<noteq> RUNNING then
                rbind (swapRegisters c from from k2) (\<lambda>k3.
                  if cb_state (k_tcb k3 from) \<noteq> RUNNING then
                    (let (t, k4) = removeCurrent n k3 in haultOnSchedulerStack c n t k4)
                  else finish k3)
              else finish k2))
      else Inr (Returned, upd_sched n (\<lambda>s. s\<lparr>sc_yieldPostponed := True\<rparr>) k))"

definition sched_tick :: "nat \<Rightarrow> nat \<Rightarrow> kernel \<Rightarrow> (control \<times> kernel) result" where
  "sched_tick c n k =
     (let s = k_sched k n; t = sc_currentTask s
      in if \<not> sc_yieldLocked s \<and> t \<noteq> nullptr \<and> cb_state (k_tcb k t) = RUNNING then
           (let slice = cb_timeSlice (k_tcb k t) - 1;
                k1 = upd_task t (\<lambda>b. b\<lparr>cb_timeSlice := slice\<rparr>) k
            in if slice = 0 then sched_yield c n k1 else Inr (Returned, k1))
         else Inr (Returned, k))"

definition sched_lock :: "nat \<Rightarrow> kernel \<Rightarrow> kernel" where
  "sched_lock n = upd_sched n (\<lambda>s. s\<lparr>sc_yieldLocked := True, sc_yieldPostponed := False\<rparr>)"

definition sched_unlock :: "nat \<Rightarrow> nat \<Rightarrow> kernel \<Rightarrow> (control \<times> kernel) result" where
  "sched_unlock c n k =
     (let k1 = upd_sched n (\<lambda>s. s\<lparr>sc_yieldLocked := False\<rparr>) k
      in if sc_yieldPostponed (k_sched k1 n)
         then sched_yield c n (upd_sched n (\<lambda>s. s\<lparr>sc_yieldPostponed := False\<rparr>) k1)
         else Inr (Returned, k1))"

definition sched_block :: "nat \<Rightarrow> kernel \<Rightarrow> (ptr \<times> kernel) result" where
  "sched_block n k =
     (let t = sc_currentTask (k_sched k n)
      in if t = nullptr then Inl NullDereference
         else Inr (t, upd_task t (\<lambda>b. b\<lparr>cb_state := BLOCKING\<rparr>) k))"

definition taskCount :: "nat \<Rightarrow> kernel \<Rightarrow> u32" where
  "taskCount n k =
     (let s = k_sched k n; t = sc_currentTask s
      in if t = nullptr \<or> cb_state (k_tcb k t) \<noteq> RUNNING then getSize (sc_tasks s)
         else getSize (sc_tasks s) + 1)"

text \<open>\<^verbatim>\<open>Scheduler::init\<close> and \<^verbatim>\<open>scheduler::init\<close>: CPU \<open>c\<close> sets up scheduler \<open>cpuNumber\<close>.\<close>

definition sched_init :: "nat \<Rightarrow> nat \<Rightarrow> ptr \<Rightarrow> kernel \<Rightarrow> kernel result" where
  "sched_init c cpuNumber task k =
     rbind (lockTask c task (upd_sched cpuNumber (\<lambda>s. s\<lparr>sc_cpuNumber := cpuNumber\<rparr>) k)) (\<lambda>k1.
       (let k2 = upd_sched cpuNumber (\<lambda>s. s\<lparr>sc_currentTask := task\<rparr>) k1
        in Inr (k2\<lparr>k_cpuCount := k_cpuCount k2 + 1\<rparr>)))"

section \<open>Calling another CPU\<close>

definition letCallerReturn :: "nat \<Rightarrow> kernel \<Rightarrow> kernel" where
  "letCallerReturn c = upd_mail c (\<lambda>m. m\<lparr>mb_callerCanReturn := True\<rparr>)"

text \<open>
  The interrupt that delivers the call: taken only with interrupts enabled, runs the callback with
  interrupts disabled and returns to the interrupted code unless the callback switched away.
\<close>

definition receiveCall ::
  "nat \<Rightarrow> (kernel \<Rightarrow> (control \<times> kernel) result) \<Rightarrow> kernel \<Rightarrow> (control \<times> kernel) result" where
  "receiveCall n callback k = (if mb_callback (k_mail k n) then callback k else Inr (Returned, k))"

definition take_interrupt ::
  "nat \<Rightarrow> (kernel \<Rightarrow> (control \<times> kernel) result) \<Rightarrow> kernel \<Rightarrow> kernel result" where
  "take_interrupt n handler k =
     (if localIrqState n k then
        rbind (handler (disableLocalIrqs n k)) (\<lambda>(ctl, k1).
          Inr (if ctl = Returned then enableLocalIrqs n k1 else k1))
      else Inl Deadlock)"

definition runOn ::
  "nat \<Rightarrow> nat \<Rightarrow> (kernel \<Rightarrow> (control \<times> kernel) result) \<Rightarrow> kernel \<Rightarrow> kernel result" where
  "runOn c cpuNumber callback k =
     (if cpuNumber < MAX_CPUS then
        rbind (acquire (localIrqState c k, mb_lock (k_mail k cpuNumber))) (\<lambda>(irq, l).
          (let k1 = set_irq c irq (upd_mail cpuNumber
                      (\<lambda>m. m\<lparr>mb_lock := l, mb_callback := True, mb_callerCanReturn := False\<rparr>) k)
           in rbind (take_interrupt cpuNumber (receiveCall cpuNumber callback) k1) (\<lambda>k2.
                if mb_callerCanReturn (k_mail k2 cpuNumber) then
                  (let (irq2, l2) = release (localIrqState c k2, mb_lock (k_mail k2 cpuNumber))
                   in Inr (set_irq c irq2 (upd_mail cpuNumber
                        (\<lambda>m. m\<lparr>mb_lock := l2, mb_callback := False\<rparr>) k2)))
                else Inl Deadlock)))
      else Inr k)"

section \<open>Adding tasks\<close>

text \<open>\<^verbatim>\<open>Scheduler::addTask\<close> of scheduler \<open>n\<close>, executed by CPU \<open>c\<close>.\<close>

definition sched_addTask :: "nat \<Rightarrow> nat \<Rightarrow> ptr \<Rightarrow> kernel \<Rightarrow> (control \<times> kernel) result" where
  "sched_addTask c n task k =
     (let k1 = upd_task task (\<lambda>b. b\<lparr>cb_state := RUNNABLE\<rparr>) k
      in rbind (acquire (localIrqState c k1, sc_addTaskLock (k_sched k1 n))) (\<lambda>(irq, l).
           (let k2 = set_irq c irq (upd_sched n (\<lambda>s. s\<lparr>sc_addTaskLock := l\<rparr>) k1);
                current = sc_currentTask (k_sched k2 n);
                unlocked = (\<lambda>k'. (let (irq', l') = release (localIrqState c k', sc_addTaskLock (k_sched k' n))
                                  in set_irq c irq' (upd_sched n (\<lambda>s. s\<lparr>sc_addTaskLock := l'\<rparr>) k')))
            in if current = nullptr \<or> cb_state (k_tcb k2 current) \<noteq> RUNNING \<or>
                  cb_priority (k_tcb k2 current) < cb_priority (k_tcb k2 task) then
                 rbind (on_tasks c n (tq_push_front task) k2) (\<lambda>(u, k3).
                   if sc_cpuNumber (k_sched k3 n) = c then sched_yield c n (unlocked k3)
                   else rbind (runOn c (sc_cpuNumber (k_sched k3 n))
                                 (\<lambda>k'. (let r = sc_cpuNumber (k_sched k3 n)
                                        in sched_yield r r (letCallerReturn r k'))) (unlocked k3))
                          (\<lambda>k4. Inr (Returned, k4)))
               else rbind (on_tasks c n (tq_push task) k2) (\<lambda>(u, k3). Inr (Returned, unlocked k3)))))"

function getLeastBusyLoop :: "nat \<Rightarrow> nat \<Rightarrow> u32 \<Rightarrow> kernel \<Rightarrow> nat" where
  "getLeastBusyLoop i best bestCount k =
     (if i < k_cpuCount k then
        if bestCount = 0 then best
        else if taskCount i k < bestCount then getLeastBusyLoop (Suc i) i (taskCount i k) k
        else getLeastBusyLoop (Suc i) best bestCount k
      else best)"
  by pat_completeness auto
termination
  by (relation "measure (\<lambda>(i, best, bestCount, k). k_cpuCount k - i)") auto

declare getLeastBusyLoop.simps [simp del]

definition getLeastBusy :: "nat \<Rightarrow> kernel \<Rightarrow> nat" where
  "getLeastBusy c k = getLeastBusyLoop 0 c (taskCount c k) k"

definition addTask :: "nat \<Rightarrow> ptr \<Rightarrow> kernel \<Rightarrow> (control \<times> kernel) result" where
  "addTask c task k = sched_addTask c (getLeastBusy c k) task k"

definition tick :: "nat \<Rightarrow> kernel \<Rightarrow> (control \<times> kernel) result" where
  "tick c = sched_tick c c"

definition yield :: "nat \<Rightarrow> kernel \<Rightarrow> (control \<times> kernel) result" where
  "yield c = sched_yield c c"

definition currentTask :: "nat \<Rightarrow> kernel \<Rightarrow> ptr" where
  "currentTask c k = sc_currentTask (k_sched k c)"

definition removeSelf :: "nat \<Rightarrow> kernel \<Rightarrow> ptr \<times> kernel" where
  "removeSelf c = removeCurrent c"

definition block_current :: "nat \<Rightarrow> kernel \<Rightarrow> (ptr \<times> kernel) result" where
  "block_current c = sched_block c"

definition lock_scheduler :: "nat \<Rightarrow> kernel \<Rightarrow> kernel" where
  "lock_scheduler c = sched_lock c"

definition unlock_scheduler :: "nat \<Rightarrow> kernel \<Rightarrow> (control \<times> kernel) result" where
  "unlock_scheduler c = sched_unlock c c"

section \<open>State updates\<close>

lemma upd_task_simps [simp]:
  "k_tcb (upd_task t f k) = (k_tcb k)(t := f (k_tcb k t))"
  "k_sched (upd_task t f k) = k_sched k"
  "k_cpuCount (upd_task t f k) = k_cpuCount k"
  "k_mail (upd_task t f k) = k_mail k"
  "k_regs (upd_task t f k) = k_regs k"
  "k_halted (upd_task t f k) = k_halted k"
  "k_stacks (upd_task t f k) = k_stacks k"
  by (simp_all add: upd_task_def)

lemma upd_sched_simps [simp]:
  "k_tcb (upd_sched n g k) = k_tcb k"
  "k_sched (upd_sched n g k) = (k_sched k)(n := g (k_sched k n))"
  "k_cpuCount (upd_sched n g k) = k_cpuCount k"
  "k_mail (upd_sched n g k) = k_mail k"
  "k_regs (upd_sched n g k) = k_regs k"
  "k_halted (upd_sched n g k) = k_halted k"
  "k_stacks (upd_sched n g k) = k_stacks k"
  by (simp_all add: upd_sched_def)

lemma upd_mail_simps [simp]:
  "k_tcb (upd_mail n m k) = k_tcb k"
  "k_sched (upd_mail n m k) = k_sched k"
  "k_cpuCount (upd_mail n m k) = k_cpuCount k"
  "k_mail (upd_mail n m k) = (k_mail k)(n := m (k_mail k n))"
  "k_regs (upd_mail n m k) = k_regs k"
  "k_halted (upd_mail n m k) = k_halted k"
  "k_stacks (upd_mail n m k) = k_stacks k"
  by (simp_all add: upd_mail_def)

lemma set_irq_simps [simp]:
  "k_tcb (set_irq c b k) = k_tcb k"
  "k_sched (set_irq c b k) = k_sched k"
  "k_cpuCount (set_irq c b k) = k_cpuCount k"
  "k_mail (set_irq c b k) = k_mail k"
  "k_halted (set_irq c b k) = k_halted k"
  "k_stacks (set_irq c b k) = k_stacks k"
  "d \<noteq> c \<Longrightarrow> k_regs (set_irq c b k) d = k_regs k d"
  by (simp_all add: set_irq_def)

lemma localIrqState_set_irq [simp]: "localIrqState c (set_irq c b k) = b"
  by (simp add: localIrqState_def set_irq_def bit_set_bit_iff bit_unset_bit_iff possible_bit_def)

lemma localIrqState_upd [simp]:
  "localIrqState c (upd_task t f k) = localIrqState c k"
  "localIrqState c (upd_sched n g k) = localIrqState c k"
  "localIrqState c (upd_mail n m k) = localIrqState c k"
  "localIrqState c (k\<lparr>k_tcb := h\<rparr>) = localIrqState c k"
  by (simp_all add: localIrqState_def)

lemma set_unset_bit_word:
  fixes w :: u64
  shows "bit w 9 \<Longrightarrow> set_bit 9 w = w" "\<not> bit w 9 \<Longrightarrow> unset_bit 9 w = w"
  by (auto intro!: bit_eqI simp: bit_simps)

lemma set_irq_same: "set_irq c (localIrqState c k) k = k"
proof -
  have "(k_regs k)(c := (k_regs k c)\<lparr>rflags := rflags (k_regs k c)\<rparr>) = k_regs k" by auto
  then show ?thesis by (simp add: set_irq_def localIrqState_def set_unset_bit_word)
qed

lemma set_irq_set_irq [simp]: "set_irq c b (set_irq c d k) = set_irq c b k"
proof -
  have "set_bit 9 (unset_bit 9 w) = set_bit 9 w" "unset_bit 9 (set_bit 9 w) = unset_bit 9 w" for w :: u64
    by (auto intro!: bit_eqI simp: bit_simps)
  moreover have "set_bit 9 (set_bit 9 w) = set_bit 9 w" "unset_bit 9 (unset_bit 9 w) = unset_bit 9 w" for w :: u64
    by (auto intro!: bit_eqI simp: bit_simps)
  ultimately show ?thesis by (simp add: set_irq_def)
qed

lemma set_irq_upd_sched: "set_irq c b (upd_sched n g k) = upd_sched n g (set_irq c b k)"
  by (simp add: set_irq_def upd_sched_def)

lemma set_irq_regs_cong: "k_regs k1 = k_regs k2 \<Longrightarrow> k_regs (set_irq c b k1) = k_regs (set_irq c b k2)"
  by (simp add: set_irq_def)

section \<open>Register switch: what it does\<close>

lemma restoreRegisters_ok:
  assumes "\<not> locked (cb_runLock (k_tcb k to))"
  shows "restoreRegisters c to k = Inr (k
    \<lparr>k_tcb := (k_tcb k)(to := (k_tcb k to)\<lparr>cb_runLock :=
        (cb_runLock (k_tcb k to))\<lparr>sl_lock := 1, sl_enableIrqs := localIrqState c k\<rparr>\<rparr>),
     k_regs := (k_regs k)(c := cb_registers (k_tcb k to)),
     k_halted := (k_halted k)(c := False)\<rparr>)"
  using assms by (simp add: restoreRegisters_def lockTask_def upd_task_def set_irq_def)

lemma swapRegisters_ok:
  assumes "from \<noteq> to" and "\<not> locked (cb_runLock (k_tcb k to))"
  shows "\<exists>b. swapRegisters c from to k = Inr (k
    \<lparr>k_tcb := (k_tcb k)
       (from := (k_tcb k from)\<lparr>cb_registers := k_regs k c, cb_runLock := (cb_runLock (k_tcb k from))\<lparr>sl_lock := 0\<rparr>\<rparr>,
        to := (k_tcb k to)\<lparr>cb_runLock := (cb_runLock (k_tcb k to))\<lparr>sl_lock := 1, sl_enableIrqs := b\<rparr>\<rparr>),
     k_regs := (k_regs k)(c := cb_registers (k_tcb k to)),
     k_halted := (k_halted k)(c := False)\<rparr>)"
  using assms
  by (auto simp: swapRegisters_def restoreRegisters_def unlockTask_def lockTask_def upd_task_def set_irq_def
      Let_def release_def)

lemma swapRegisters_self:
  "\<exists>b. swapRegisters c t t k = Inr (k
    \<lparr>k_tcb := (k_tcb k)(t := (k_tcb k t)\<lparr>cb_registers := k_regs k c,
        cb_runLock := (cb_runLock (k_tcb k t))\<lparr>sl_lock := 1, sl_enableIrqs := b\<rparr>\<rparr>),
     k_halted := (k_halted k)(c := False)\<rparr>)"
  by (auto simp: swapRegisters_def restoreRegisters_def unlockTask_def lockTask_def upd_task_def set_irq_def
      Let_def release_def)

lemma on_tasks_push_ok:
  assumes "tq_ok (sc_tasks (k_sched k n)) (k_tcb k) xs" and "v \<noteq> nullptr" and "v \<notin> set xs"
  shows "\<exists>q h. on_tasks c n (tq_push v) k = Inr ((), upd_sched n (\<lambda>s. s\<lparr>sc_tasks := q\<rparr>) (k\<lparr>k_tcb := h\<rparr>)) \<and>
           tq_ok q h (xs @ [v]) \<and> links_only (k_tcb k) h \<and> (\<forall>x. x \<notin> set xs \<longrightarrow> h x = k_tcb k x)"
proof -
  from tq_push_ok [OF assms, of "localIrqState c k"] obtain q h
    where "tq_push v (localIrqState c k, sc_tasks (k_sched k n), k_tcb k) = Inr ((), localIrqState c k, q, h)"
      "tq_ok q h (xs @ [v])" "links_only (k_tcb k) h" "\<forall>x. x \<notin> set xs \<longrightarrow> h x = k_tcb k x" by blast
  moreover have "set_irq c (localIrqState c k) (upd_sched n g (k\<lparr>k_tcb := h\<rparr>)) = upd_sched n g (k\<lparr>k_tcb := h\<rparr>)"
    for g using set_irq_same [of c "upd_sched n g (k\<lparr>k_tcb := h\<rparr>)"] by simp
  ultimately show ?thesis by (auto simp: on_tasks_def)
qed

lemma on_tasks_push_front_ok:
  assumes "tq_ok (sc_tasks (k_sched k n)) (k_tcb k) xs" and "v \<noteq> nullptr" and "v \<notin> set xs"
  shows "\<exists>q h. on_tasks c n (tq_push_front v) k = Inr ((), upd_sched n (\<lambda>s. s\<lparr>sc_tasks := q\<rparr>) (k\<lparr>k_tcb := h\<rparr>)) \<and>
           tq_ok q h (v # xs) \<and> links_only (k_tcb k) h \<and> (\<forall>x. x \<noteq> v \<longrightarrow> h x = k_tcb k x)"
proof -
  from tq_push_front_ok [OF assms, of "localIrqState c k"] obtain q h
    where "tq_push_front v (localIrqState c k, sc_tasks (k_sched k n), k_tcb k) = Inr ((), localIrqState c k, q, h)"
      "tq_ok q h (v # xs)" "links_only (k_tcb k) h" "\<forall>x. x \<noteq> v \<longrightarrow> h x = k_tcb k x" by blast
  moreover have "set_irq c (localIrqState c k) (upd_sched n g (k\<lparr>k_tcb := h\<rparr>)) = upd_sched n g (k\<lparr>k_tcb := h\<rparr>)"
    for g using set_irq_same [of c "upd_sched n g (k\<lparr>k_tcb := h\<rparr>)"] by simp
  ultimately show ?thesis by (auto simp: on_tasks_def)
qed

lemma on_tasks_pop_ok:
  assumes "tq_ok (sc_tasks (k_sched k n)) (k_tcb k) xs"
  shows "\<exists>q. on_tasks c n tq_pop k
             = Inr (case xs of [] \<Rightarrow> nullptr | x # _ \<Rightarrow> x, upd_sched n (\<lambda>s. s\<lparr>sc_tasks := q\<rparr>) k) \<and>
           tq_ok q (k_tcb k) (tl xs)"
proof -
  from tq_pop_ok [OF assms, of "localIrqState c k"] obtain q
    where "tq_pop (localIrqState c k, sc_tasks (k_sched k n), k_tcb k)
             = Inr (case xs of [] \<Rightarrow> nullptr | x # _ \<Rightarrow> x, localIrqState c k, q, k_tcb k)"
      "tq_ok q (k_tcb k) (tl xs)" by blast
  moreover have "set_irq c (localIrqState c k) (upd_sched n g k) = upd_sched n g k" for g
    using set_irq_same [of c "upd_sched n g k"] by simp
  ultimately show ?thesis by (auto simp: on_tasks_def)
qed

section \<open>The scheduler as a list\<close>

text \<open>
  What one CPU's scheduler promises: the run queue is the list \<open>xs\<close>, everything on it is runnable and
  not running anywhere (its run lock is free), and the current task, if there is one, is not queued and
  holds its run lock.
\<close>

definition cpu_ok :: "nat \<Rightarrow> kernel \<Rightarrow> ptr list \<Rightarrow> bool" where
  "cpu_ok c k xs \<longleftrightarrow>
     tq_ok (sc_tasks (k_sched k c)) (k_tcb k) xs \<and>
     (\<forall>t \<in> set xs. cb_state (k_tcb k t) = RUNNABLE \<and> \<not> locked (cb_runLock (k_tcb k t))) \<and>
     (currentTask c k \<noteq> nullptr \<longrightarrow>
        currentTask c k \<notin> set xs \<and> locked (cb_runLock (k_tcb k (currentTask c k))))"

text \<open>The abstract scheduler: the current task (null for none), whether it may go on, the ready list.\<close>

fun abs_yield :: "ptr \<times> bool \<times> ptr list \<Rightarrow> ptr \<times> bool \<times> ptr list" where
  "abs_yield (cur, run, []) = (if run then cur else nullptr, run, [])"
| "abs_yield (cur, run, t # ts) = (t, True, if cur \<noteq> nullptr \<and> run then ts @ [cur] else ts)"

definition cpu_running :: "nat \<Rightarrow> kernel \<Rightarrow> bool" where
  "cpu_running c k \<longleftrightarrow> currentTask c k \<noteq> nullptr \<and> cb_state (k_tcb k (currentTask c k)) = RUNNING"

text \<open>What an operation of CPU \<open>c\<close> may touch: its own scheduler and registers, and the tasks named.\<close>

definition cpu_frame :: "nat \<Rightarrow> ptr set \<Rightarrow> kernel \<Rightarrow> kernel \<Rightarrow> bool" where
  "cpu_frame c T k k' \<longleftrightarrow>
     (\<forall>d. d \<noteq> c \<longrightarrow> k_sched k' d = k_sched k d \<and> k_regs k' d = k_regs k d \<and> k_halted k' d = k_halted k d) \<and>
     sc_yieldLocked (k_sched k' c) = sc_yieldLocked (k_sched k c) \<and>
     sc_yieldPostponed (k_sched k' c) = sc_yieldPostponed (k_sched k c) \<and>
     locked (sc_addTaskLock (k_sched k' c)) = locked (sc_addTaskLock (k_sched k c)) \<and>
     sc_cpuNumber (k_sched k' c) = sc_cpuNumber (k_sched k c) \<and>
     k_mail k' = k_mail k \<and> k_cpuCount k' = k_cpuCount k \<and> (\<forall>t. t \<notin> T \<longrightarrow> k_tcb k' t = k_tcb k t)"

lemma cpu_frameD:
  assumes "cpu_frame c T k k'"
  shows "t \<notin> T \<Longrightarrow> k_tcb k' t = k_tcb k t" "sc_yieldLocked (k_sched k' c) = sc_yieldLocked (k_sched k c)"
    "sc_yieldPostponed (k_sched k' c) = sc_yieldPostponed (k_sched k c)" "sc_cpuNumber (k_sched k' c) = sc_cpuNumber (k_sched k c)"
    "locked (sc_addTaskLock (k_sched k' c)) = locked (sc_addTaskLock (k_sched k c))" "k_cpuCount k' = k_cpuCount k"
  using assms by (simp_all add: cpu_frame_def)

lemma cpu_okD:
  assumes "cpu_ok c k xs"
  shows "tq_ok (sc_tasks (k_sched k c)) (k_tcb k) xs"
    and "t \<in> set xs \<Longrightarrow> cb_state (k_tcb k t) = RUNNABLE"
    and "t \<in> set xs \<Longrightarrow> \<not> locked (cb_runLock (k_tcb k t))"
    and "nullptr \<notin> set xs" and "distinct xs"
    and "currentTask c k \<notin> set xs"
    and "currentTask c k \<noteq> nullptr \<Longrightarrow> locked (cb_runLock (k_tcb k (currentTask c k)))"
  using assms by (auto simp: cpu_ok_def tq_ok_def tq_rep_def)

lemma cpu_ok_cong:
  assumes "cpu_ok c k xs" and "k_sched k' c = k_sched k c" and "k_tcb k' = k_tcb k"
  shows "cpu_ok c k' xs"
  using assms by (simp add: cpu_ok_def currentTask_def)

text \<open>What a switch leaves alone in a task that blocks: its state and its place in a waiting list.\<close>

definition same_links_state :: "ptr \<Rightarrow> kernel \<Rightarrow> kernel \<Rightarrow> bool" where
  "same_links_state t k k' \<longleftrightarrow>
     cb_state (k_tcb k' t) = cb_state (k_tcb k t) \<and> cb_next (k_tcb k' t) = cb_next (k_tcb k t) \<and>
     cb_priority (k_tcb k' t) = cb_priority (k_tcb k t)"

subsection \<open>Yield with a ready task\<close>

text \<open>The switch itself, on a state in which \<open>to\<close> has been popped.\<close>

lemma switchTo_resume:
  assumes "tq_ok (sc_tasks (k_sched k c)) (k_tcb k) xs" and "\<not> locked (cb_runLock (k_tcb k to))"
    and "to \<noteq> nullptr" and "to \<notin> set xs"
    and ready: "\<And>t. t \<in> set xs \<Longrightarrow> cb_state (k_tcb k t) = RUNNABLE \<and> \<not> locked (cb_runLock (k_tcb k t))"
  shows "\<exists>k'. switchTo c c nullptr to k = Inr (Switched, k') \<and> cpu_ok c k' xs \<and> currentTask c k' = to \<and>
           cb_state (k_tcb k' to) = RUNNING \<and> cb_timeSlice (k_tcb k' to) = INITIAL_TIME_SLICE \<and>
           k_regs k' c = cb_registers (k_tcb k to) \<and> \<not> k_halted k' c \<and> cpu_frame c {to} k k'"
proof -
  let ?k2 = "upd_sched c (\<lambda>s. s\<lparr>sc_currentTask := to\<rparr>)
    (upd_task to (\<lambda>b. b\<lparr>cb_state := RUNNING, cb_timeSlice := INITIAL_TIME_SLICE\<rparr>) k)"
  have "\<not> locked (cb_runLock (k_tcb ?k2 to))" using assms(2) by simp
  from restoreRegisters_ok [OF this, of c] obtain k3 where k3: "restoreRegisters c to ?k2 = Inr k3" and
    f: "k_tcb k3 = (k_tcb k)(to := (k_tcb k to)\<lparr>cb_state := RUNNING, cb_timeSlice := INITIAL_TIME_SLICE,
          cb_runLock := (cb_runLock (k_tcb k to))\<lparr>sl_lock := 1, sl_enableIrqs := localIrqState c k\<rparr>\<rparr>)"
      "k_sched k3 = k_sched ?k2" "k_regs k3 = (k_regs k)(c := cb_registers (k_tcb k to))"
      "k_halted k3 = (k_halted k)(c := False)" "k_mail k3 = k_mail k" "k_cpuCount k3 = k_cpuCount k"
    by simp
  have "tq_ok (sc_tasks (k_sched k3 c)) (k_tcb k3) xs"
    using tq_ok_cong [OF assms(1), of "k_tcb k3"] by (simp add: f)
  then have "cpu_ok c k3 xs"
    using assms(4) ready by (auto simp: cpu_ok_def f currentTask_def)
  moreover have "switchTo c c nullptr to k = Inr (Switched, k3)"
    by (simp add: switchTo_def k3)
  ultimately show ?thesis
    by (intro exI [of _ k3]) (simp add: f currentTask_def cpu_frame_def)
qed

lemma requeue_ok:
  assumes "tq_ok (sc_tasks (k_sched k c)) (k_tcb k) xs" and "v \<noteq> nullptr" and "v \<notin> set xs"
  shows "\<exists>k3. (if r then on_tasks c c (tq_push v) (upd_task v (\<lambda>b. b\<lparr>cb_state := RUNNABLE\<rparr>) k) else Inr ((), k))
             = Inr ((), k3) \<and>
           tq_ok (sc_tasks (k_sched k3 c)) (k_tcb k3) (if r then xs @ [v] else xs) \<and>
           (\<forall>x. k_tcb k3 x = (k_tcb k x)
              \<lparr>cb_state := (if r \<and> x = v then RUNNABLE else cb_state (k_tcb k x)), cb_next := cb_next (k_tcb k3 x)\<rparr>) \<and>
           (\<forall>x. x \<notin> insert v (set xs) \<longrightarrow> k_tcb k3 x = k_tcb k x) \<and> (\<not> r \<longrightarrow> k_tcb k3 = k_tcb k) \<and>
           (\<exists>q. k_sched k3 = (k_sched k)(c := (k_sched k c)\<lparr>sc_tasks := q\<rparr>)) \<and>
           k_regs k3 = k_regs k \<and> k_halted k3 = k_halted k \<and> k_mail k3 = k_mail k \<and> k_cpuCount k3 = k_cpuCount k"
proof (cases r)
  case True
  let ?k1 = "upd_task v (\<lambda>b. b\<lparr>cb_state := RUNNABLE\<rparr>) k"
  have "tq_ok (sc_tasks (k_sched ?k1 c)) (k_tcb ?k1) xs"
    using tq_ok_cong [OF assms(1), of "k_tcb ?k1"] by simp
  from on_tasks_push_ok [OF this assms(2,3), of c] obtain q h where
    "on_tasks c c (tq_push v) ?k1 = Inr ((), upd_sched c (\<lambda>s. s\<lparr>sc_tasks := q\<rparr>) (?k1\<lparr>k_tcb := h\<rparr>))"
    "tq_ok q h (xs @ [v])" "links_only (k_tcb ?k1) h" "\<forall>x. x \<notin> set xs \<longrightarrow> h x = k_tcb ?k1 x" by blast
  with True show ?thesis by (auto simp: links_only_def split: if_splits)
next
  case False
  have "k_sched k = (k_sched k)(c := (k_sched k c)\<lparr>sc_tasks := sc_tasks (k_sched k c)\<rparr>)" by simp
  then have "\<exists>q. k_sched k = (k_sched k)(c := (k_sched k c)\<lparr>sc_tasks := q\<rparr>)" by blast
  with False assms(1) show ?thesis by simp
qed

text \<open>A current task that is running goes to the end of the queue, a blocked one is left out.\<close>

lemma switchTo_swap:
  assumes "tq_ok (sc_tasks (k_sched k c)) (k_tcb k) xs" and "\<not> locked (cb_runLock (k_tcb k to))"
    and "to \<noteq> nullptr" and "to \<notin> set xs" and "from \<noteq> nullptr" and "from \<noteq> to" and "from \<notin> set xs"
    and ready: "\<And>t. t \<in> set xs \<Longrightarrow> cb_state (k_tcb k t) = RUNNABLE \<and> \<not> locked (cb_runLock (k_tcb k t))"
  shows "\<exists>k'. switchTo c c from to k = Inr (Switched, k') \<and>
           cpu_ok c k' (if cb_state (k_tcb k from) = RUNNING then xs @ [from] else xs) \<and> currentTask c k' = to \<and>
           cb_state (k_tcb k' to) = RUNNING \<and> cb_timeSlice (k_tcb k' to) = INITIAL_TIME_SLICE \<and>
           k_regs k' c = cb_registers (k_tcb k to) \<and> \<not> k_halted k' c \<and>
           cb_registers (k_tcb k' from) = k_regs k c \<and> \<not> locked (cb_runLock (k_tcb k' from)) \<and>
           (cb_state (k_tcb k from) \<noteq> RUNNING \<longrightarrow> same_links_state from k k') \<and>
           cpu_frame c (insert from (insert to (set xs))) k k'"
proof -
  let ?k2 = "upd_sched c (\<lambda>s. s\<lparr>sc_currentTask := to\<rparr>)
    (upd_task to (\<lambda>b. b\<lparr>cb_state := RUNNING, cb_timeSlice := INITIAL_TIME_SLICE\<rparr>) k)"
  let ?run = "cb_state (k_tcb k from) = RUNNING"
  let ?push = "if ?run then on_tasks c c (tq_push from) (upd_task from (\<lambda>b. b\<lparr>cb_state := RUNNABLE\<rparr>) ?k2)
    else Inr ((), ?k2)"
  have "tq_ok (sc_tasks (k_sched ?k2 c)) (k_tcb ?k2) xs"
    using tq_ok_cong [OF assms(1), of "k_tcb ?k2"] by simp
  from requeue_ok [OF this assms(5,7), of ?run] obtain k3 q where
    push: "?push = Inr ((), k3)" and q3: "tq_ok (sc_tasks (k_sched k3 c)) (k_tcb k3) (if ?run then xs @ [from] else xs)" and
    f3: "\<And>x. k_tcb k3 x = (k_tcb ?k2 x)\<lparr>cb_state := (if ?run \<and> x = from then RUNNABLE else cb_state (k_tcb ?k2 x)),
            cb_next := cb_next (k_tcb k3 x)\<rparr>"
      "\<And>x. x \<notin> insert from (set xs) \<Longrightarrow> k_tcb k3 x = k_tcb ?k2 x" and f3': "\<not> ?run \<Longrightarrow> k_tcb k3 = k_tcb ?k2" and
    f4: "k_sched k3 = (k_sched ?k2)(c := (k_sched ?k2 c)\<lparr>sc_tasks := q\<rparr>)"
      "k_regs k3 = k_regs k" "k_halted k3 = k_halted k" "k_mail k3 = k_mail k" "k_cpuCount k3 = k_cpuCount k"
    by force
  have fld: "cb_runLock (k_tcb k3 x) = cb_runLock (k_tcb k x)" "cb_registers (k_tcb k3 x) = cb_registers (k_tcb k x)"
    "cb_state (k_tcb k3 x) = (if ?run \<and> x = from then RUNNABLE else cb_state (k_tcb ?k2 x))" for x
    by (subst f3(1), simp)+
  have "\<not> locked (cb_runLock (k_tcb k3 to))" using assms(2) by (simp add: fld)
  from swapRegisters_ok [OF assms(6) this, of c] obtain b k4 where
    swap: "swapRegisters c from to k3 = Inr k4" and f5:
      "k_tcb k4 = (k_tcb k3)
       (from := (k_tcb k3 from)\<lparr>cb_registers := k_regs k c, cb_runLock := (cb_runLock (k_tcb k3 from))\<lparr>sl_lock := 0\<rparr>\<rparr>,
        to := (k_tcb k3 to)\<lparr>cb_runLock := (cb_runLock (k_tcb k3 to))\<lparr>sl_lock := 1, sl_enableIrqs := b\<rparr>\<rparr>)"
      "k_sched k4 = k_sched k3" "k_regs k4 = (k_regs k)(c := cb_registers (k_tcb k to))"
      "k_halted k4 = (k_halted k)(c := False)" "k_mail k4 = k_mail k" "k_cpuCount k4 = k_cpuCount k"
    by (auto simp: f4(2-) fld)
  have run: "switchTo c c from to k = Inr (Switched, k4)"
    using push swap assms(5,6) by (simp add: switchTo_def)
  have q4: "tq_ok (sc_tasks (k_sched k4 c)) (k_tcb k4) (if ?run then xs @ [from] else xs)"
    unfolding f5(2) by (rule tq_ok_cong [OF q3]) (simp add: f5(1))
  have "cpu_ok c k4 (if ?run then xs @ [from] else xs)"
    using q4 assms(4,6) ready by (auto simp: cpu_ok_def f5 f4(1) fld currentTask_def)
  moreover have "\<not> ?run \<Longrightarrow> same_links_state from k k4"
    using assms(6) by (simp add: same_links_state_def f5 f3')
  ultimately show ?thesis
    using run assms(4,6) by (intro exI [of _ k4]) (simp add: f5 f3(2) f4(1) fld currentTask_def cpu_frame_def)
qed

subsection \<open>Yield, branch by branch\<close>

text \<open>Before the switch, \<^verbatim>\<open>yield\<close> has disabled interrupts and popped the head of the queue.\<close>

lemma yield_pop:
  assumes "cpu_ok c k xs" and "\<not> sc_yieldLocked (k_sched k c)"
  obtains k1 q where "on_tasks c c tq_pop (disableLocalIrqs c k) = Inr (case xs of [] \<Rightarrow> nullptr | x # _ \<Rightarrow> x, k1)"
    and "k1 = upd_sched c (\<lambda>s. s\<lparr>sc_tasks := q\<rparr>) (set_irq c False k)"
    and "tq_ok (sc_tasks (k_sched k1 c)) (k_tcb k1) (tl xs)"
proof -
  have "tq_ok (sc_tasks (k_sched (set_irq c False k) c)) (k_tcb (set_irq c False k)) xs"
    using assms(1) by (simp add: cpu_ok_def)
  from on_tasks_pop_ok [OF this, of c] obtain q where
    "on_tasks c c tq_pop (set_irq c False k)
       = Inr (case xs of [] \<Rightarrow> nullptr | x # _ \<Rightarrow> x, upd_sched c (\<lambda>s. s\<lparr>sc_tasks := q\<rparr>) (set_irq c False k))"
    "tq_ok q (k_tcb k) (tl xs)" by auto
  with that [of "upd_sched c (\<lambda>s. s\<lparr>sc_tasks := q\<rparr>) (set_irq c False k)" q] show thesis
    by (simp add: disableLocalIrqs_def)
qed

lemma cpu_frame_pop:
  "cpu_frame c T (upd_sched c (\<lambda>s. s\<lparr>sc_tasks := q\<rparr>) (set_irq c b k)) k' \<Longrightarrow> cpu_frame c T k k'"
  by (simp add: cpu_frame_def)

lemma yield_from_idle:
  assumes ok: "cpu_ok c k (to # xs)" and unl: "\<not> sc_yieldLocked (k_sched k c)" and idle: "currentTask c k = nullptr"
  shows "\<exists>k'. yield c k = Inr (Switched, k') \<and> cpu_ok c k' xs \<and> currentTask c k' = to \<and>
           cb_state (k_tcb k' to) = RUNNING \<and> cb_timeSlice (k_tcb k' to) = INITIAL_TIME_SLICE \<and>
           k_regs k' c = cb_registers (k_tcb k to) \<and> \<not> k_halted k' c \<and> cpu_frame c {to} k k'"
proof -
  from yield_pop [OF ok unl] obtain k1 q where
    pop: "on_tasks c c tq_pop (disableLocalIrqs c k) = Inr (to, k1)" and
    k1: "k1 = upd_sched c (\<lambda>s. s\<lparr>sc_tasks := q\<rparr>) (set_irq c False k)" and
    q: "tq_ok (sc_tasks (k_sched k1 c)) (k_tcb k1) xs" by auto
  have "\<exists>k'. switchTo c c nullptr to k1 = Inr (Switched, k') \<and> cpu_ok c k' xs \<and> currentTask c k' = to \<and>
           cb_state (k_tcb k' to) = RUNNING \<and> cb_timeSlice (k_tcb k' to) = INITIAL_TIME_SLICE \<and>
           k_regs k' c = cb_registers (k_tcb k1 to) \<and> \<not> k_halted k' c \<and> cpu_frame c {to} k1 k'"
    by (rule switchTo_resume [OF q]) (use cpu_okD [OF ok] in \<open>auto simp: k1\<close>)
  then obtain k' where k': "switchTo c c nullptr to k1 = Inr (Switched, k')" "cpu_ok c k' xs" "currentTask c k' = to"
    "cb_state (k_tcb k' to) = RUNNING" "cb_timeSlice (k_tcb k' to) = INITIAL_TIME_SLICE"
    "k_regs k' c = cb_registers (k_tcb k to)" "\<not> k_halted k' c" "cpu_frame c {to} k k'"
    by (auto simp: k1 dest: cpu_frame_pop)
  have "yield c k = switchTo c c nullptr to k1"
    using pop cpu_okD(4) [OF ok] idle unl
    by (simp add: yield_def sched_yield_def currentTask_def disableLocalIrqs_def)
  with k' show ?thesis by auto
qed

lemma yield_switch:
  assumes ok: "cpu_ok c k (to # xs)" and unl: "\<not> sc_yieldLocked (k_sched k c)" and cur: "currentTask c k = from" "from \<noteq> nullptr"
  shows "\<exists>k'. yield c k = Inr (Switched, k') \<and>
           cpu_ok c k' (if cb_state (k_tcb k from) = RUNNING then xs @ [from] else xs) \<and> currentTask c k' = to \<and>
           cb_state (k_tcb k' to) = RUNNING \<and> cb_timeSlice (k_tcb k' to) = INITIAL_TIME_SLICE \<and>
           k_regs k' c = cb_registers (k_tcb k to) \<and> \<not> k_halted k' c \<and>
           cb_registers (k_tcb k' from) = (k_regs k c)\<lparr>rflags := unset_bit 9 (rflags (k_regs k c))\<rparr> \<and>
           \<not> locked (cb_runLock (k_tcb k' from)) \<and>
           (cb_state (k_tcb k from) \<noteq> RUNNING \<longrightarrow> same_links_state from k k') \<and>
           cpu_frame c (insert from (insert to (set xs))) k k'"
proof -
  from yield_pop [OF ok unl] obtain k1 q where
    pop: "on_tasks c c tq_pop (disableLocalIrqs c k) = Inr (to, k1)" and
    k1: "k1 = upd_sched c (\<lambda>s. s\<lparr>sc_tasks := q\<rparr>) (set_irq c False k)" and
    q: "tq_ok (sc_tasks (k_sched k1 c)) (k_tcb k1) xs" by auto
  have "\<exists>k'. switchTo c c from to k1 = Inr (Switched, k') \<and>
           cpu_ok c k' (if cb_state (k_tcb k1 from) = RUNNING then xs @ [from] else xs) \<and> currentTask c k' = to \<and>
           cb_state (k_tcb k' to) = RUNNING \<and> cb_timeSlice (k_tcb k' to) = INITIAL_TIME_SLICE \<and>
           k_regs k' c = cb_registers (k_tcb k1 to) \<and> \<not> k_halted k' c \<and>
           cb_registers (k_tcb k' from) = k_regs k1 c \<and> \<not> locked (cb_runLock (k_tcb k' from)) \<and>
           (cb_state (k_tcb k1 from) \<noteq> RUNNING \<longrightarrow> same_links_state from k1 k') \<and>
           cpu_frame c (insert from (insert to (set xs))) k1 k'"
    by (rule switchTo_swap [OF q]) (use cpu_okD [OF ok] cur in \<open>auto simp: k1\<close>)
  then obtain k' where k': "switchTo c c from to k1 = Inr (Switched, k')"
    "cpu_ok c k' (if cb_state (k_tcb k from) = RUNNING then xs @ [from] else xs)" "currentTask c k' = to"
    "cb_state (k_tcb k' to) = RUNNING" "cb_timeSlice (k_tcb k' to) = INITIAL_TIME_SLICE"
    "k_regs k' c = cb_registers (k_tcb k to)" "\<not> k_halted k' c" "cb_registers (k_tcb k' from) = k_regs (set_irq c False k) c"
    "\<not> locked (cb_runLock (k_tcb k' from))" "cb_state (k_tcb k from) \<noteq> RUNNING \<longrightarrow> same_links_state from k k'" "cpu_frame c (insert from (insert to (set xs))) k k'"
    by (auto simp: k1 same_links_state_def dest: cpu_frame_pop)
  have "yield c k = switchTo c c from to k1"
    using pop cpu_okD(4) [OF ok] cur unl
    by (simp add: yield_def sched_yield_def currentTask_def disableLocalIrqs_def)
  with k' show ?thesis by (intro exI [of _ k']) (simp add: set_irq_def)
qed

text \<open>With nothing ready: a running task goes on, a CPU without a task halts, a blocked task leaves the CPU.\<close>

lemma yield_alone:
  assumes ok: "cpu_ok c k []" and unl: "\<not> sc_yieldLocked (k_sched k c)" and run: "cpu_running c k"
  shows "\<exists>q. yield c k = Inr (Returned, upd_sched c (\<lambda>s. s\<lparr>sc_tasks := q\<rparr>) k) \<and>
           cpu_ok c (upd_sched c (\<lambda>s. s\<lparr>sc_tasks := q\<rparr>) k) []"
proof -
  from yield_pop [OF ok unl] obtain k1 q where
    pop: "on_tasks c c tq_pop (disableLocalIrqs c k) = Inr (nullptr, k1)" and
    k1: "k1 = upd_sched c (\<lambda>s. s\<lparr>sc_tasks := q\<rparr>) (set_irq c False k)" and
    q: "tq_ok (sc_tasks (k_sched k1 c)) (k_tcb k1) []" by auto
  let ?k2 = "upd_sched c (\<lambda>s. s\<lparr>sc_tasks := q\<rparr>) k"
  have "(if localIrqState c k then enableLocalIrqs c k1 else k1) = ?k2"
    using set_irq_same [of c k] by (auto simp: k1 enableLocalIrqs_def set_irq_upd_sched)
  from this [unfolded k1] have "yield c k = Inr (Returned, ?k2)"
    using pop run unl
    by (simp add: yield_def sched_yield_def currentTask_def cpu_running_def k1 disableLocalIrqs_def)
  moreover have "cpu_ok c ?k2 []"
    using q cpu_okD(7) [OF ok] by (simp add: cpu_ok_def k1 currentTask_def)
  ultimately show ?thesis by blast
qed

lemma yield_idle:
  assumes ok: "cpu_ok c k []" and unl: "\<not> sc_yieldLocked (k_sched k c)" and idle: "currentTask c k = nullptr"
  shows "\<exists>k'. yield c k = Inr (Halted, k') \<and> cpu_ok c k' [] \<and> currentTask c k' = nullptr \<and>
           k_halted k' c \<and> localIrqState c k' \<and> cpu_frame c {} k k'"
proof -
  from yield_pop [OF ok unl] obtain k1 q where
    pop: "on_tasks c c tq_pop (disableLocalIrqs c k) = Inr (nullptr, k1)" and
    k1: "k1 = upd_sched c (\<lambda>s. s\<lparr>sc_tasks := q\<rparr>) (set_irq c False k)" and
    q: "tq_ok (sc_tasks (k_sched k1 c)) (k_tcb k1) []" by auto
  have "yield c k = Inr (Halted, haultWithIrqs c k1)"
    using pop idle unl
    by (simp add: yield_def sched_yield_def currentTask_def disableLocalIrqs_def k1)
  moreover have "cpu_ok c (haultWithIrqs c k1) []"
    using q idle by (simp add: cpu_ok_def currentTask_def haultWithIrqs_def enableLocalIrqs_def k1)
  moreover have "localIrqState c (haultWithIrqs c k1)"
    by (simp add: haultWithIrqs_def enableLocalIrqs_def localIrqState_def set_irq_def bit_simps)
  ultimately show ?thesis
    using idle by (intro exI [of _ "haultWithIrqs c k1"])
      (simp add: haultWithIrqs_def enableLocalIrqs_def k1 currentTask_def cpu_frame_def)
qed

lemma haultOnSchedulerStack_ok:
  assumes "sc_schedulerStack (k_sched k n) \<noteq> nullptr \<or> k_stacks k \<noteq> []"
  shows "\<exists>k'. haultOnSchedulerStack c n t k = Inr (Halted, k') \<and> k_halted k' = (k_halted k)(c := True) \<and>
           localIrqState c k' \<and>
           k_tcb k' = (k_tcb k)(t := (k_tcb k t)\<lparr>cb_runLock := (cb_runLock (k_tcb k t))\<lparr>sl_lock := 0\<rparr>\<rparr>) \<and>
           (\<exists>p. k_sched k' = (k_sched k)(n := (k_sched k n)\<lparr>sc_schedulerStack := p\<rparr>)) \<and>
           k_mail k' = k_mail k \<and> k_cpuCount k' = k_cpuCount k \<and> (\<forall>d. d \<noteq> c \<longrightarrow> k_regs k' d = k_regs k d)"
proof -
  obtain k1 p where alloc: "allocateSchedulerStack n k = Inr k1" and f:
    "k_sched k1 = (k_sched k)(n := (k_sched k n)\<lparr>sc_schedulerStack := p\<rparr>)" "k_halted k1 = k_halted k" "k_regs k1 = k_regs k"
    "k_tcb k1 = k_tcb k" "k_mail k1 = k_mail k" "k_cpuCount k1 = k_cpuCount k"
  proof (cases "sc_schedulerStack (k_sched k n) = nullptr")
    case True
    with assms obtain p ps where "k_stacks k = p # ps" by (cases "k_stacks k") auto
    with True show thesis
      by (intro that [of "upd_sched n (\<lambda>s. s\<lparr>sc_schedulerStack := p\<rparr>) (k\<lparr>k_stacks := ps\<rparr>)" p])
         (simp_all add: allocateSchedulerStack_def)
  next
    case False
    then show thesis by (intro that [of k "sc_schedulerStack (k_sched k n)"]) (simp_all add: allocateSchedulerStack_def)
  qed
  show ?thesis
    by (intro exI [of _ "haultWithIrqs c (unlockTask c t k1)"] conjI)
       (auto simp: haultOnSchedulerStack_def alloc f unlockTask_def haultWithIrqs_def release_def Let_def
        enableLocalIrqs_def localIrqState_def set_irq_def bit_simps)
qed

lemma yield_blocked:
  assumes ok: "cpu_ok c k []" and unl: "\<not> sc_yieldLocked (k_sched k c)"
    and cur: "currentTask c k = from" "from \<noteq> nullptr" "cb_state (k_tcb k from) \<noteq> RUNNING"
    and stack: "sc_schedulerStack (k_sched k c) \<noteq> nullptr \<or> k_stacks k \<noteq> []"
  shows "\<exists>k'. yield c k = Inr (Halted, k') \<and> cpu_ok c k' [] \<and> currentTask c k' = nullptr \<and>
           k_halted k' c \<and> localIrqState c k' \<and>
           cb_registers (k_tcb k' from) = (k_regs k c)\<lparr>rflags := unset_bit 9 (rflags (k_regs k c))\<rparr> \<and>
           same_links_state from k k' \<and>
           \<not> locked (cb_runLock (k_tcb k' from)) \<and> cpu_frame c {from} k k'"
proof -
  from yield_pop [OF ok unl] obtain k1 q where
    pop: "on_tasks c c tq_pop (disableLocalIrqs c k) = Inr (nullptr, k1)" and
    k1: "k1 = upd_sched c (\<lambda>s. s\<lparr>sc_tasks := q\<rparr>) (set_irq c False k)" and
    q: "tq_ok (sc_tasks (k_sched k1 c)) (k_tcb k1) []" by auto
  from swapRegisters_self [of c "from" k1] obtain b k2 where swap: "swapRegisters c from from k1 = Inr k2" and f2:
    "k_tcb k2 = (k_tcb k)(from := (k_tcb k from)\<lparr>cb_registers := k_regs k1 c,
        cb_runLock := (cb_runLock (k_tcb k from))\<lparr>sl_lock := 1, sl_enableIrqs := b\<rparr>\<rparr>)"
    "k_sched k2 = k_sched k1" "k_regs k2 = k_regs k1" "k_halted k2 = (k_halted k)(c := False)"
    "k_mail k2 = k_mail k" "k_cpuCount k2 = k_cpuCount k" "k_stacks k2 = k_stacks k"
    by (auto simp: k1)
  let ?k3 = "upd_sched c (\<lambda>s. s\<lparr>sc_currentTask := nullptr\<rparr>) k2"
  have "sc_schedulerStack (k_sched ?k3 c) \<noteq> nullptr \<or> k_stacks ?k3 \<noteq> []" using stack by (simp add: f2 k1)
  from haultOnSchedulerStack_ok [OF this, of c "from"] obtain k' p where
    h: "haultOnSchedulerStack c c from ?k3 = Inr (Halted, k')" and f:
    "k_halted k' = (k_halted ?k3)(c := True)" "localIrqState c k'"
    "k_tcb k' = (k_tcb ?k3)(from := (k_tcb ?k3 from)\<lparr>cb_runLock := (cb_runLock (k_tcb ?k3 from))\<lparr>sl_lock := 0\<rparr>\<rparr>)"
    "k_sched k' = (k_sched ?k3)(c := (k_sched ?k3 c)\<lparr>sc_schedulerStack := p\<rparr>)"
    "k_mail k' = k_mail ?k3" "k_cpuCount k' = k_cpuCount ?k3" "\<And>d. d \<noteq> c \<Longrightarrow> k_regs k' d = k_regs ?k3 d"
    by blast
  have "yield c k = Inr (Halted, k')"
    using pop cur unl swap h
    by (simp add: yield_def sched_yield_def currentTask_def disableLocalIrqs_def k1 f2 removeCurrent_def)
  moreover have "cpu_ok c k' []"
    using tq_ok_cong [OF q, of "k_tcb k'"] by (simp add: cpu_ok_def currentTask_def f f2)
  ultimately show ?thesis
    using f(2) by (intro exI [of _ k']) (simp add: f f2 k1 currentTask_def cpu_frame_def set_irq_def same_links_state_def)
qed

subsection \<open>Yield as a whole\<close>

definition stack_available :: "nat \<Rightarrow> kernel \<Rightarrow> bool" where
  "stack_available c k \<longleftrightarrow> sc_schedulerStack (k_sched k c) \<noteq> nullptr \<or> k_stacks k \<noteq> []"

definition yield_outcome :: "bool \<Rightarrow> ptr list \<Rightarrow> control" where
  "yield_outcome run xs = (if xs \<noteq> [] then Switched else if run then Returned else Halted)"

lemma cpu_frame_mono: "cpu_frame c T k k' \<Longrightarrow> T \<subseteq> T' \<Longrightarrow> cpu_frame c T' k k'"
  by (auto simp: cpu_frame_def)

lemma yield_abs:
  assumes ok: "cpu_ok c k xs" and unl: "\<not> sc_yieldLocked (k_sched k c)" and st: "xs = [] \<Longrightarrow> stack_available c k"
    and abs: "abs_yield (currentTask c k, cpu_running c k, xs) = (cur', run', ready')"
  shows "\<exists>k'. yield c k = Inr (yield_outcome (cpu_running c k) xs, k') \<and> cpu_ok c k' ready' \<and>
           currentTask c k' = cur' \<and> cpu_running c k' = run' \<and> cpu_frame c (insert (currentTask c k) (set xs)) k k' \<and>
           (currentTask c k \<noteq> nullptr \<and> \<not> cpu_running c k \<longrightarrow>
              same_links_state (currentTask c k) k k' \<and> \<not> locked (cb_runLock (k_tcb k' (currentTask c k))))"
proof (cases xs)
  case Nil
  consider "cpu_running c k" | "currentTask c k = nullptr"
    | "currentTask c k \<noteq> nullptr" "cb_state (k_tcb k (currentTask c k)) \<noteq> RUNNING"
    by (auto simp: cpu_running_def)
  then show ?thesis
  proof cases
    case 1
    from yield_alone [OF _ unl 1] ok Nil abs 1 show ?thesis
      by (auto simp: yield_outcome_def cpu_running_def currentTask_def cpu_frame_def)
  next
    case 2
    from yield_idle [OF _ unl 2] ok Nil abs 2 show ?thesis
      by (auto simp: yield_outcome_def cpu_running_def intro: cpu_frame_mono)
  next
    case 3
    from yield_blocked [OF _ unl refl 3] ok Nil abs 3 st show ?thesis
      by (auto simp: yield_outcome_def cpu_running_def stack_available_def)
  qed
next
  case (Cons to ts)
  have "to \<noteq> nullptr" using cpu_okD(4) [OF ok] Cons by auto
  show ?thesis
  proof (cases "currentTask c k = nullptr")
    case True
    from yield_from_idle [OF _ unl True, of to ts] ok Cons abs True \<open>to \<noteq> nullptr\<close> show ?thesis
      by (auto simp: yield_outcome_def cpu_running_def intro: cpu_frame_mono)
  next
    case False
    from yield_switch [OF _ unl refl False, of to ts] ok Cons abs False \<open>to \<noteq> nullptr\<close> show ?thesis
      by (auto simp: yield_outcome_def cpu_running_def split: if_splits)
  qed
qed

text \<open>Repeated yields of a CPU whose tasks never block.\<close>

fun yields :: "nat \<Rightarrow> nat \<Rightarrow> kernel \<Rightarrow> kernel result" where
  "yields c 0 k = Inr k"
| "yields c (Suc n) k = rbind (yield c k) (\<lambda>(ctl, k1). yields c n k1)"

lemma yield_running:
  assumes "cpu_ok c k xs" "\<not> sc_yieldLocked (k_sched k c)" "cpu_running c k"
  shows "\<exists>ctl k'. yield c k = Inr (ctl, k') \<and> cpu_ok c k' (tl (rotate1 (currentTask c k # xs))) \<and>
           currentTask c k' = hd (rotate1 (currentTask c k # xs)) \<and> cpu_running c k' \<and>
           \<not> sc_yieldLocked (k_sched k' c)"
proof (cases xs)
  case Nil
  with yield_alone [of c k] assms show ?thesis
    by (auto simp: cpu_running_def currentTask_def)
next
  case (Cons to ts)
  have "to \<noteq> nullptr" using cpu_okD(4) [OF assms(1)] Cons by auto
  moreover have "currentTask c k \<noteq> nullptr" using assms(3) by (simp add: cpu_running_def)
  from yield_switch [OF _ assms(2) refl this, of to ts] assms Cons obtain k' where
    "yield c k = Inr (Switched, k')" "cpu_ok c k' (ts @ [currentTask c k])" "currentTask c k' = to"
    "cb_state (k_tcb k' to) = RUNNING" "\<not> sc_yieldLocked (k_sched k' c)"
    by (auto simp: cpu_running_def cpu_frame_def)
  ultimately show ?thesis using Cons by (auto simp: cpu_running_def)
qed

lemma yields_rotate:
  assumes "cpu_ok c k xs" "\<not> sc_yieldLocked (k_sched k c)" "cpu_running c k"
  shows "\<exists>k'. yields c n k = Inr k' \<and> cpu_ok c k' (tl (rotate n (currentTask c k # xs))) \<and>
           currentTask c k' = hd (rotate n (currentTask c k # xs)) \<and> cpu_running c k' \<and>
           \<not> sc_yieldLocked (k_sched k' c)"
  using assms
proof (induction n arbitrary: k xs)
  case (Suc n)
  let ?l = "rotate1 (currentTask c k # xs)"
  from yield_running [OF Suc.prems] obtain ctl k1 where k1:
    "yield c k = Inr (ctl, k1)" "cpu_ok c k1 (tl ?l)" "currentTask c k1 = hd ?l" "cpu_running c k1"
    "\<not> sc_yieldLocked (k_sched k1 c)" by blast
  have "hd ?l # tl ?l = ?l" by (cases xs) auto
  with Suc.IH [OF k1(2,5,4)] k1(1,3) show ?case
    by (simp add: rotate_def funpow_swap1)
qed simp

section \<open>Time slices\<close>

fun ticks :: "nat \<Rightarrow> nat \<Rightarrow> kernel \<Rightarrow> (control \<times> kernel) result" where
  "ticks c 0 k = Inr (Returned, k)"
| "ticks c (Suc n) k = rbind (ticks c n k) (\<lambda>(ctl, k1). tick c k1)"

lemma ticks_count:
  assumes "\<not> sc_yieldLocked (k_sched k c)" "cpu_running c k" "currentTask c k = t"
    and "n \<le> unat (cb_timeSlice (k_tcb k t) - 1)"
  shows "ticks c n k = Inr (Returned, upd_task t (\<lambda>b. b\<lparr>cb_timeSlice := cb_timeSlice b - of_nat n\<rparr>) k)"
  using assms(4)
proof (induction n)
  case 0
  then show ?case by (simp add: upd_task_def)
next
  case (Suc n)
  let ?s = "cb_timeSlice (k_tcb k t)"
  have "?s - of_nat n - 1 \<noteq> 0"
  proof
    assume "?s - of_nat n - 1 = 0"
    then have "?s - 1 = of_nat n" by (simp add: algebra_simps)
    then have "unat (?s - 1) \<le> n" by (metis unat_of_nat mod_le_divisor mod_less_eq_dividend unsigned_of_nat take_bit_nat_less_eq_self)
    with Suc.prems show False by simp
  qed
  then show ?case
    using Suc assms(1-3)
    by (simp add: tick_def sched_tick_def cpu_running_def currentTask_def upd_task_def diff_diff_eq Let_def
        add.commute [of 1 "of_nat n"])
qed

section \<open>Choosing a CPU\<close>

text \<open>The loop keeps the best scheduler seen; stopping early is sound because no count is below 0.\<close>

lemma getLeastBusyLoop_min:
  assumes "bestCount = taskCount best k" and "best < N"  and "k_cpuCount k \<le> N"
    and "\<And>j. j < i \<Longrightarrow> bestCount \<le> taskCount j k"
  shows "getLeastBusyLoop i best bestCount k < N \<and>
         (\<forall>j < k_cpuCount k. taskCount (getLeastBusyLoop i best bestCount k) k \<le> taskCount j k) \<and>
         taskCount (getLeastBusyLoop i best bestCount k) k \<le> taskCount best k"
  using assms
proof (induction i best bestCount k rule: getLeastBusyLoop.induct)
  case (1 i best bestCount k)
  show ?case
  proof (cases "i < k_cpuCount k \<and> bestCount \<noteq> 0")
    case False
    then have "getLeastBusyLoop i best bestCount k = best"
      by (subst getLeastBusyLoop.simps) auto
    with False "1.prems" show ?thesis by (auto simp: not_less)
  next
    case True
    show ?thesis
    proof (cases "taskCount i k < bestCount")
      case less: True
      have "\<And>j. j < Suc i \<Longrightarrow> taskCount i k \<le> taskCount j k"
        using "1.prems"(4) less by (metis less_Suc_eq order.refl order.strict_trans2 less_imp_le)
      with "1.IH"(1) True less "1.prems" show ?thesis
        by (subst (1 2 3) getLeastBusyLoop.simps) (auto dest: less_imp_le)
    next
      case False
      then have "\<And>j. j < Suc i \<Longrightarrow> bestCount \<le> taskCount j k"
        using "1.prems"(4) by (metis less_Suc_eq not_less)
      with "1.IH"(2) True False "1.prems" show ?thesis
        by (subst (1 2 3) getLeastBusyLoop.simps) auto
    qed
  qed
qed

section \<open>Adding a task\<close>

lemma sched_addTask_queue:
  assumes "tq_ok (sc_tasks (k_sched k c)) (k_tcb k) xs" and "task \<noteq> nullptr" and "task \<notin> set xs"
    and "\<not> locked (sc_addTaskLock (k_sched k c))"
    and cur: "sc_currentTask (k_sched k c) = cur" "cur \<noteq> nullptr" "cur \<noteq> task" "cb_state (k_tcb k cur) = RUNNING"
    and prio: "cb_priority (k_tcb k task) \<le> cb_priority (k_tcb k cur)"
  shows "\<exists>k4 q h. sched_addTask c c task k = Inr (Returned, k4) \<and>
           k_tcb k4 = h \<and> tq_ok q h (xs @ [task]) \<and>
           links_only ((k_tcb k)(task := (k_tcb k task)\<lparr>cb_state := RUNNABLE\<rparr>)) h \<and>
           (\<forall>x. x \<notin> insert task (set xs) \<longrightarrow> h x = k_tcb k x) \<and>
           (\<exists>l. \<not> locked l \<and> k_sched k4 = (k_sched k)(c := (k_sched k c)\<lparr>sc_tasks := q, sc_addTaskLock := l\<rparr>)) \<and>
           k_regs k4 = k_regs k \<and> k_mail k4 = k_mail k \<and> k_cpuCount k4 = k_cpuCount k \<and>
           k_halted k4 = k_halted k \<and> k_stacks k4 = k_stacks k"
proof -
  let ?l = "(sc_addTaskLock (k_sched k c))\<lparr>sl_lock := 1, sl_enableIrqs := localIrqState c k\<rparr>"
  let ?k2 = "set_irq c False (upd_sched c (\<lambda>s. s\<lparr>sc_addTaskLock := ?l\<rparr>)
    (upd_task task (\<lambda>b. b\<lparr>cb_state := RUNNABLE\<rparr>) k))"
  have "tq_ok (sc_tasks (k_sched ?k2 c)) (k_tcb ?k2) xs"
    using tq_ok_cong [OF assms(1), of "k_tcb ?k2"] by simp
  from on_tasks_push_ok [OF this assms(2,3), of c] obtain q1 h where
    push: "on_tasks c c (tq_push task) ?k2 = Inr ((), upd_sched c (\<lambda>s. s\<lparr>sc_tasks := q1\<rparr>) (?k2\<lparr>k_tcb := h\<rparr>))" and
    q1: "tq_ok q1 h (xs @ [task])" and h: "links_only (k_tcb ?k2) h" "\<forall>x. x \<notin> set xs \<longrightarrow> h x = k_tcb ?k2 x" by blast
  let ?k3 = "upd_sched c (\<lambda>s. s\<lparr>sc_tasks := q1\<rparr>) (?k2\<lparr>k_tcb := h\<rparr>)"
  let ?k4 = "set_irq c (localIrqState c k) (upd_sched c (\<lambda>s. s\<lparr>sc_addTaskLock := ?l\<lparr>sl_lock := 0\<rparr>\<rparr>) ?k3)"
  have "sched_addTask c c task k = Inr (Returned, ?k4)"
    using assms(4) cur push
    by (simp add: sched_addTask_def Let_def release_def case_prod_beta leD [OF prio] del: rbind_eq_Inr)
  moreover have "k_regs ?k4 = k_regs k"
  proof -
    have "k_regs ?k4 = k_regs (set_irq c (localIrqState c k) (set_irq c False k))"
      by (rule set_irq_regs_cong) (simp add: set_irq_def)
    then show ?thesis by (simp add: set_irq_same)
  qed
  moreover have "\<exists>l. \<not> locked l \<and> k_sched ?k4 = (k_sched k)(c := (k_sched k c)\<lparr>sc_tasks := q1, sc_addTaskLock := l\<rparr>)"
    by (rule exI [of _ "?l\<lparr>sl_lock := 0\<rparr>"]) simp
  ultimately show ?thesis
    using q1 h by (intro exI [of _ ?k4] exI [of _ q1] exI [of _ h] conjI) (assumption | simp)+
qed

text \<open>A CPU that has nothing running, or something less important, gets the task in front and yields to it.\<close>

lemma sched_addTask_front:
  assumes q: "tq_ok (sc_tasks (k_sched k c)) (k_tcb k) xs" and "task \<noteq> nullptr" and "task \<notin> set xs"
    and "\<not> locked (sc_addTaskLock (k_sched k c))" and "sc_cpuNumber (k_sched k c) = c"
    and pre: "sc_currentTask (k_sched k c) = nullptr \<or> sc_currentTask (k_sched k c) = task \<or>
      cb_state (k_tcb k (sc_currentTask (k_sched k c))) \<noteq> RUNNING \<or>
      cb_priority (k_tcb k (sc_currentTask (k_sched k c))) < cb_priority (k_tcb k task)"
  shows "\<exists>k4 q h. sched_addTask c c task k = sched_yield c c k4 \<and>
           k_tcb k4 = h \<and> tq_ok q h (task # xs) \<and>
           links_only ((k_tcb k)(task := (k_tcb k task)\<lparr>cb_state := RUNNABLE\<rparr>)) h \<and> (\<forall>x. x \<noteq> task \<longrightarrow> h x = k_tcb k x) \<and>
           (\<exists>l. \<not> locked l \<and> k_sched k4 = (k_sched k)(c := (k_sched k c)\<lparr>sc_tasks := q, sc_addTaskLock := l\<rparr>)) \<and>
           k_regs k4 = k_regs k \<and> k_mail k4 = k_mail k \<and> k_cpuCount k4 = k_cpuCount k \<and>
           k_halted k4 = k_halted k \<and> k_stacks k4 = k_stacks k"
proof -
  let ?l = "(sc_addTaskLock (k_sched k c))\<lparr>sl_lock := 1, sl_enableIrqs := localIrqState c k\<rparr>"
  let ?k2 = "set_irq c False (upd_sched c (\<lambda>s. s\<lparr>sc_addTaskLock := ?l\<rparr>)
    (upd_task task (\<lambda>b. b\<lparr>cb_state := RUNNABLE\<rparr>) k))"
  have "tq_ok (sc_tasks (k_sched ?k2 c)) (k_tcb ?k2) xs"
    using tq_ok_cong [OF q, of "k_tcb ?k2"] by simp
  from on_tasks_push_front_ok [OF this assms(2,3), of c] obtain q1 h where
    push: "on_tasks c c (tq_push_front task) ?k2 = Inr ((), upd_sched c (\<lambda>s. s\<lparr>sc_tasks := q1\<rparr>) (?k2\<lparr>k_tcb := h\<rparr>))" and
    q1: "tq_ok q1 h (task # xs)" and h: "links_only (k_tcb ?k2) h" "\<forall>x. x \<noteq> task \<longrightarrow> h x = k_tcb ?k2 x" by blast
  let ?k3 = "upd_sched c (\<lambda>s. s\<lparr>sc_tasks := q1\<rparr>) (?k2\<lparr>k_tcb := h\<rparr>)"
  let ?k4 = "set_irq c (localIrqState c k) (upd_sched c (\<lambda>s. s\<lparr>sc_addTaskLock := ?l\<lparr>sl_lock := 0\<rparr>\<rparr>) ?k3)"
  let ?cur = "sc_currentTask (k_sched k c)"
  have "?cur = nullptr \<or> cb_state (k_tcb ?k2 ?cur) \<noteq> RUNNING \<or> cb_priority (k_tcb ?k2 ?cur) < cb_priority (k_tcb ?k2 task)"
    using pre by auto
  then have "sched_addTask c c task k = sched_yield c c ?k4"
    using assms(4,5) push
    by (simp add: sched_addTask_def Let_def release_def case_prod_beta del: upd_task_simps(1) rbind_eq_Inr)
  moreover have "k_regs ?k4 = k_regs k"
  proof -
    have "k_regs ?k4 = k_regs (set_irq c (localIrqState c k) (set_irq c False k))"
      by (rule set_irq_regs_cong) (simp add: set_irq_def)
    then show ?thesis by (simp add: set_irq_same)
  qed
  moreover have "\<exists>l. \<not> locked l \<and> k_sched ?k4 = (k_sched k)(c := (k_sched k c)\<lparr>sc_tasks := q1, sc_addTaskLock := l\<rparr>)"
    by (rule exI [of _ "?l\<lparr>sl_lock := 0\<rparr>"]) simp
  ultimately show ?thesis
    using q1 h by (intro exI [of _ ?k4] exI [of _ q1] exI [of _ h] conjI) (assumption | simp)+
qed

text \<open>Adding a task on the own CPU, as an operation on the ready list.\<close>

definition goes_first :: "nat \<Rightarrow> ptr \<Rightarrow> kernel \<Rightarrow> bool" where
  "goes_first c task k \<longleftrightarrow> \<not> cpu_running c k \<or> cb_priority (k_tcb k (currentTask c k)) < cb_priority (k_tcb k task)"

definition abs_add :: "bool \<Rightarrow> ptr list \<Rightarrow> ptr \<Rightarrow> ptr list" where
  "abs_add first xs t = (if first then t # xs else xs @ [t])"

lemma sched_addTask_local:
  assumes ok: "cpu_ok c k xs" and task: "task \<noteq> nullptr" "task \<notin> set xs" "task \<noteq> currentTask c k"
    and free: "\<not> locked (cb_runLock (k_tcb k task))"
    and lk: "\<not> locked (sc_addTaskLock (k_sched k c))" and n: "sc_cpuNumber (k_sched k c) = c"
  shows "\<exists>k'. sched_addTask c c task k = (if goes_first c task k then sched_yield c c k' else Inr (Returned, k')) \<and>
           cpu_ok c k' (abs_add (goes_first c task k) xs task) \<and> currentTask c k' = currentTask c k \<and>
           cpu_running c k' = cpu_running c k \<and> cpu_frame c (insert task (set xs)) k k' \<and>
           (\<forall>x. cb_priority (k_tcb k' x) = cb_priority (k_tcb k x)) \<and> k_regs k' = k_regs k \<and>
           k_stacks k' = k_stacks k \<and> sc_schedulerStack (k_sched k' c) = sc_schedulerStack (k_sched k c)"
proof -
  let ?r = "\<lambda>k'. if goes_first c task k then sched_yield c c k' else Inr (Returned, k')"
  let ?ys = "abs_add (goes_first c task k) xs task"
  have "\<exists>k4 q h. sched_addTask c c task k = ?r k4 \<and> k_tcb k4 = h \<and> tq_ok q h ?ys \<and>
      links_only ((k_tcb k)(task := (k_tcb k task)\<lparr>cb_state := RUNNABLE\<rparr>)) h \<and>
      (\<forall>x. x \<notin> insert task (set xs) \<longrightarrow> h x = k_tcb k x) \<and>
      (\<exists>l. \<not> locked l \<and> k_sched k4 = (k_sched k)(c := (k_sched k c)\<lparr>sc_tasks := q, sc_addTaskLock := l\<rparr>)) \<and>
      k_regs k4 = k_regs k \<and> k_mail k4 = k_mail k \<and> k_cpuCount k4 = k_cpuCount k \<and>
      k_halted k4 = k_halted k \<and> k_stacks k4 = k_stacks k"
  proof (cases "goes_first c task k")
    case True
    then have "sc_currentTask (k_sched k c) = nullptr \<or> sc_currentTask (k_sched k c) = task \<or>
      cb_state (k_tcb k (sc_currentTask (k_sched k c))) \<noteq> RUNNING \<or>
      cb_priority (k_tcb k (sc_currentTask (k_sched k c))) < cb_priority (k_tcb k task)"
      by (auto simp: goes_first_def cpu_running_def currentTask_def)
    from sched_addTask_front [OF cpu_okD(1) [OF ok] task(1,2) lk n this] True show ?thesis
      by (simp add: abs_add_def) blast
  next
    case False
    then have "sc_currentTask (k_sched k c) \<noteq> nullptr" "sc_currentTask (k_sched k c) \<noteq> task"
      "cb_state (k_tcb k (sc_currentTask (k_sched k c))) = RUNNING"
      "cb_priority (k_tcb k task) \<le> cb_priority (k_tcb k (sc_currentTask (k_sched k c)))"
      using task(3) by (auto simp: goes_first_def cpu_running_def currentTask_def not_less)
    from sched_addTask_queue [OF cpu_okD(1) [OF ok] task(1,2) lk refl this] False show ?thesis
      by (simp add: abs_add_def)
  qed
  then obtain k4 q l where run: "sched_addTask c c task k = ?r k4" and q: "tq_ok q (k_tcb k4) ?ys" and
    h: "links_only ((k_tcb k)(task := (k_tcb k task)\<lparr>cb_state := RUNNABLE\<rparr>)) (k_tcb k4)"
       "\<And>x. x \<notin> insert task (set xs) \<Longrightarrow> k_tcb k4 x = k_tcb k x" and
    f: "\<not> locked l" "k_sched k4 = (k_sched k)(c := (k_sched k c)\<lparr>sc_tasks := q, sc_addTaskLock := l\<rparr>)"
      "k_regs k4 = k_regs k" "k_mail k4 = k_mail k" "k_cpuCount k4 = k_cpuCount k" "k_halted k4 = k_halted k"
      "k_stacks k4 = k_stacks k"
    by blast
  note fld = links_only_simps(1-3) [OF h(1)]
  have ready: "cb_state (k_tcb k4 t) = RUNNABLE \<and> \<not> locked (cb_runLock (k_tcb k4 t))" if "t \<in> set ?ys" for t
    using that fld [of t] free cpu_okD(2,3) [OF ok, of t] by (auto simp: abs_add_def split: if_splits)
  have cur4: "currentTask c k4 = currentTask c k" by (simp add: currentTask_def f)
  have "currentTask c k \<notin> insert task (set xs)" using cpu_okD(6) [OF ok] task(3) by auto
  note same = h(2) [OF this]
  have "set ?ys = insert task (set xs)" by (auto simp: abs_add_def)
  then have "cpu_ok c k4 ?ys"
    using q ready cpu_okD(6,7) [OF ok] task(3) unfolding cpu_ok_def cur4 by (auto simp: f same)
  moreover have "cpu_running c k4 = cpu_running c k" by (simp add: cpu_running_def cur4 same)
  moreover have "cpu_frame c (insert task (set xs)) k k4"
    using h(2) lk by (simp add: cpu_frame_def f)
  ultimately show ?thesis using run cur4 fld(3) by (intro exI [of _ k4]) (simp add: f)
qed

lemma sched_addTask_preempts:
  assumes ok: "cpu_ok c k xs" and task: "task \<noteq> nullptr" "task \<notin> set xs" "task \<noteq> currentTask c k"
    and free: "\<not> locked (cb_runLock (k_tcb k task))"
    and lk: "\<not> locked (sc_addTaskLock (k_sched k c))" and n: "sc_cpuNumber (k_sched k c) = c"
    and unl: "\<not> sc_yieldLocked (k_sched k c)" and pre: "goes_first c task k"
  shows "\<exists>k'. sched_addTask c c task k = Inr (Switched, k') \<and> currentTask c k' = task \<and> cpu_running c k' \<and>
           cpu_ok c k' (if cpu_running c k then xs @ [currentTask c k] else xs) \<and>
           cpu_frame c (insert (currentTask c k) (insert task (set xs))) k k' \<and>
           (currentTask c k \<noteq> nullptr \<and> \<not> cpu_running c k \<longrightarrow> \<not> locked (cb_runLock (k_tcb k' (currentTask c k))))"
proof -
  from sched_addTask_local [OF ok task free lk n] pre obtain k4 where
    run: "sched_addTask c c task k = sched_yield c c k4" and k4: "cpu_ok c k4 (task # xs)"
    "currentTask c k4 = currentTask c k" "cpu_running c k4 = cpu_running c k" "cpu_frame c (insert task (set xs)) k k4"
    by (auto simp: abs_add_def)
  have "\<not> sc_yieldLocked (k_sched k4 c)" using unl k4(4) by (simp add: cpu_frame_def)
  moreover have "cpu_running c k \<Longrightarrow> currentTask c k \<noteq> nullptr" by (simp add: cpu_running_def)
  then have "abs_yield (currentTask c k4, cpu_running c k4, task # xs)
      = (task, True, if cpu_running c k then xs @ [currentTask c k] else xs)" by (simp add: k4)
  ultimately obtain k' where "yield c k4 = Inr (Switched, k')" "currentTask c k' = task" "cpu_running c k'"
    "cpu_ok c k' (if cpu_running c k then xs @ [currentTask c k] else xs)"
    "cpu_frame c (insert (currentTask c k) (set (task # xs))) k4 k'"
    "currentTask c k \<noteq> nullptr \<and> \<not> cpu_running c k \<longrightarrow> \<not> locked (cb_runLock (k_tcb k' (currentTask c k)))"
    using yield_abs [OF k4(1)] by (fastforce simp: yield_outcome_def k4(2,3))
  moreover from this(5) k4(4) have "cpu_frame c (insert (currentTask c k) (insert task (set xs))) k k'"
    by (auto simp: cpu_frame_def)
  ultimately show ?thesis by (intro exI [of _ k']) (simp add: run yield_def)
qed

subsection \<open>A task that is woken before it has yielded\<close>

text \<open>
  \<^verbatim>\<open>yield\<close> assumes that the popped task is not the current one. When it is, the task is marked runnable
  and queued although it goes on running.
\<close>

lemma yield_self:
  assumes q: "tq_ok (sc_tasks (k_sched k c)) (k_tcb k) (t # xs)" and unl: "\<not> sc_yieldLocked (k_sched k c)"
    and cur: "currentTask c k = t"
  shows "\<exists>k'. yield c k = Inr (Switched, k') \<and> currentTask c k' = t \<and> cb_state (k_tcb k' t) = RUNNABLE \<and>
           tq_ok (sc_tasks (k_sched k' c)) (k_tcb k') (xs @ [t]) \<and> \<not> sc_yieldLocked (k_sched k' c) \<and>
           k_regs k' c = (k_regs k c)\<lparr>rflags := unset_bit 9 (rflags (k_regs k c))\<rparr>"
proof -
  from q have t: "t \<noteq> nullptr" "t \<notin> set xs" by (auto simp: tq_ok_def tq_rep_def)
  have "tq_ok (sc_tasks (k_sched (set_irq c False k) c)) (k_tcb (set_irq c False k)) (t # xs)" using q by simp
  from on_tasks_pop_ok [OF this, of c] obtain q1 where
    pop: "on_tasks c c tq_pop (set_irq c False k) = Inr (t, upd_sched c (\<lambda>s. s\<lparr>sc_tasks := q1\<rparr>) (set_irq c False k))" and
    q1: "tq_ok q1 (k_tcb k) xs" by auto
  let ?k1 = "upd_sched c (\<lambda>s. s\<lparr>sc_tasks := q1\<rparr>) (set_irq c False k)"
  let ?k2 = "upd_sched c (\<lambda>s. s\<lparr>sc_currentTask := t\<rparr>)
    (upd_task t (\<lambda>b. b\<lparr>cb_state := RUNNING, cb_timeSlice := INITIAL_TIME_SLICE\<rparr>) ?k1)"
  have "tq_ok (sc_tasks (k_sched ?k2 c)) (k_tcb ?k2) xs"
    using tq_ok_cong [OF q1, of "k_tcb ?k2"] by simp
  from requeue_ok [OF this t, where r = True, unfolded if_True simp_thms] obtain k3 q3 where
    push: "on_tasks c c (tq_push t) (upd_task t (\<lambda>b. b\<lparr>cb_state := RUNNABLE\<rparr>) ?k2) = Inr ((), k3)" and
    q3: "tq_ok (sc_tasks (k_sched k3 c)) (k_tcb k3) (xs @ [t])" and
    f3: "\<forall>x. k_tcb k3 x = (k_tcb ?k2 x)
        \<lparr>cb_state := (if x = t then RUNNABLE else cb_state (k_tcb ?k2 x)), cb_next := cb_next (k_tcb k3 x)\<rparr>"
      "k_sched k3 = (k_sched ?k2)(c := (k_sched ?k2 c)\<lparr>sc_tasks := q3\<rparr>)" "k_regs k3 = k_regs ?k2"
    by blast
  from swapRegisters_self [of c t k3] obtain k4 where
    swap: "swapRegisters c t t k3 = Inr k4" and f4: "k_sched k4 = k_sched k3" "k_regs k4 = k_regs k3"
      "\<And>x. cb_next (k_tcb k4 x) = cb_next (k_tcb k3 x)" "cb_state (k_tcb k4 t) = cb_state (k_tcb k3 t)"
    by auto
  have "yield c k = Inr (Switched, k4)"
    using pop push swap cur unl t
    by (simp add: yield_def sched_yield_def switchTo_def currentTask_def disableLocalIrqs_def del: rbind_eq_Inr)
  moreover have "tq_ok (sc_tasks (k_sched k4 c)) (k_tcb k4) (xs @ [t])"
    unfolding f4(1) by (rule tq_ok_cong [OF q3]) (simp add: f4)
  moreover have "cb_state (k_tcb k3 t) = RUNNABLE" by (subst f3(1) [rule_format]) simp
  ultimately show ?thesis
    using unl by (intro exI [of _ k4]) (simp add: f3(2,3) f4 currentTask_def set_irq_def)
qed

section \<open>An example system\<close>

text \<open>One CPU that runs the task at 0x1000 with two more tasks ready: used to show that hypotheses can hold.\<close>

definition example_tcb :: task_heap where
  "example_tcb = (\<lambda>_. new_control_block)
     (0x1000 := new_control_block\<lparr>cb_runLock := \<lparr>sl_lock = 1, sl_enableIrqs = False\<rparr>, cb_timeSlice := 5, cb_priority := 2\<rparr>,
      0x2000 := new_control_block\<lparr>cb_state := RUNNABLE, cb_next := 0x3000\<rparr>,
      0x3000 := new_control_block\<lparr>cb_state := RUNNABLE\<rparr>)"

definition example_kernel :: "ptr \<Rightarrow> ptr list \<Rightarrow> kernel" where
  "example_kernel cur ready =
     \<lparr>k_tcb = example_tcb,
      k_sched = (\<lambda>_. scheduler_init
        \<lparr>sc_tasks := \<lparr>tq_lock = spinlock_init, tq_head = (if ready = [] then 0 else hd ready),
            tq_tail = (if ready = [] then 0 else last ready), tq_size = of_nat (length ready)\<rparr>,
         sc_currentTask := cur\<rparr>),
      k_cpuCount = 1, k_mail = (\<lambda>_. \<lparr>mb_lock = spinlock_init, mb_callback = False, mb_callerCanReturn = False\<rparr>),
      k_regs = (\<lambda>_. zero_registers\<lparr>rflags := 0x200\<rparr>), k_halted = (\<lambda>_. False), k_stacks = [0x9000]\<rparr>"

lemma example_tcb_simps [simp]:
  "example_tcb 0x1000 = new_control_block\<lparr>cb_runLock := \<lparr>sl_lock = 1, sl_enableIrqs = False\<rparr>, cb_timeSlice := 5, cb_priority := 2\<rparr>"
  "example_tcb 0x2000 = new_control_block\<lparr>cb_state := RUNNABLE, cb_next := 0x3000\<rparr>"
  "example_tcb 0x3000 = new_control_block\<lparr>cb_state := RUNNABLE\<rparr>"
  "example_tcb 0x4000 = new_control_block"
  by (simp_all add: example_tcb_def)

lemma example_kernel_simps [simp]:
  "k_tcb (example_kernel cur ready) = example_tcb"
  "sc_yieldLocked (k_sched (example_kernel cur ready) c) = False"
  "currentTask c (example_kernel cur ready) = cur"
  "k_stacks (example_kernel cur ready) = [0x9000]"
  "sc_cpuNumber (k_sched (example_kernel cur ready) c) = 0"
  "\<not> locked (sc_addTaskLock (k_sched (example_kernel cur ready) c))"
  "k_cpuCount (example_kernel cur ready) = 1"
  "sc_currentTask (k_sched (example_kernel cur ready) c) = cur"
  by (simp_all add: example_kernel_def scheduler_init_def currentTask_def)

lemma example_kernel_ok [simp]:
  "cpu_ok 0 (example_kernel 0x1000 [0x2000, 0x3000]) [0x2000, 0x3000]"
  "cpu_ok 0 (example_kernel 0x1000 [0x2000]) [0x2000]"
  "cpu_ok 0 (example_kernel 0x1000 []) []"
  "cpu_running 0 (example_kernel 0x1000 ready)"
  by (simp_all add: cpu_ok_def cpu_running_def)
     (simp_all add: example_kernel_def scheduler_init_def tq_ok_def tq_rep_def new_control_block_def locked_def spinlock_init_def)

section \<open>Properties\<close>



text \<open>
  (C7) Round robin: on a CPU whose tasks do not block, the tasks take turns in the order of the run
  queue. After \<open>n\<close> yields the current task is the \<open>n\<close>-th of the list that starts with the task that was
  running (counted around), so every ready task runs after at most as many yields as there are tasks.
\<close>

theorem yield_round_robin:
  assumes "cpu_ok c k xs" and "\<not> sc_yieldLocked (k_sched k c)" and "cpu_running c k"
  shows "\<exists>k'. yields c n k = Inr k' \<and>
           currentTask c k' = (currentTask c k # xs) ! (n mod Suc (length xs)) \<and>
           cpu_ok c k' (tl (rotate n (currentTask c k # xs)))"
  using yields_rotate [OF assms, of n] hd_rotate_conv_nth [of "currentTask c k # xs" n] by auto

theorem yield_round_robin_witness:
  "\<exists>k'. yields 0 4 (example_kernel 0x1000 [0x2000, 0x3000]) = Inr k' \<and>
     currentTask 0 k' = (currentTask 0 (example_kernel 0x1000 [0x2000, 0x3000]) # [0x2000, 0x3000]) ! (4 mod Suc (length [0x2000, 0x3000 :: ptr])) \<and>
     cpu_ok 0 k' (tl (rotate 4 (currentTask 0 (example_kernel 0x1000 [0x2000, 0x3000]) # [0x2000, 0x3000])))"
  by (rule yield_round_robin) simp_all

text \<open>
  Context switch: when a running task yields to another one, which then yields back, the CPU gets
  every register of the first task back as it was (with interrupts off, as \<^verbatim>\<open>yield\<close> had turned them off),
  whatever the second task left in the registers.
\<close>

theorem context_switch_roundtrip:
  assumes "cpu_ok c k [b]" and "\<not> sc_yieldLocked (k_sched k c)" and "cpu_running c k"
    and "yield c k = Inr (ctl1, k1)" and "k2 = k1\<lparr>k_regs := (k_regs k1)(c := r)\<rparr>" and "yield c k2 = Inr (ctl2, k3)"
  shows "currentTask c k1 = b \<and> k_regs k1 c = cb_registers (k_tcb k b) \<and> currentTask c k3 = currentTask c k \<and>
         k_regs k3 c = (k_regs k c)\<lparr>rflags := unset_bit 9 (rflags (k_regs k c))\<rparr>"
proof -
  let ?a = "currentTask c k"
  from assms(3) have a: "?a \<noteq> nullptr" "cb_state (k_tcb k ?a) = RUNNING" by (auto simp: cpu_running_def)
  from yield_switch [OF assms(1,2) refl a(1)] a(2) assms(4) have k1:
    "cpu_ok c k1 [?a]" "currentTask c k1 = b" "k_regs k1 c = cb_registers (k_tcb k b)"
    "cb_registers (k_tcb k1 ?a) = (k_regs k c)\<lparr>rflags := unset_bit 9 (rflags (k_regs k c))\<rparr>"
    "cpu_frame c (insert ?a (insert b (set []))) k k1" by auto
  have "cpu_ok c k2 [?a]" by (rule cpu_ok_cong [OF k1(1)]) (simp_all add: assms(5))
  moreover have "\<not> sc_yieldLocked (k_sched k2 c)" using k1(5) assms(2) by (simp add: assms(5) cpu_frame_def)
  moreover have "b \<noteq> nullptr" using cpu_okD(4) [OF assms(1)] by auto
  ultimately have "currentTask c k3 = ?a" "k_regs k3 c = cb_registers (k_tcb k2 ?a)"
    using yield_switch [of c k2 ?a "[]" b] k1(2) assms(6) by (auto simp: assms(5) currentTask_def)
  with k1(2-4) show ?thesis by (simp add: assms(5))
qed

theorem context_switch_roundtrip_witness:
  "\<exists>k1 k3. currentTask 0 k1 = 0x2000 \<and> k_regs k1 0 = cb_registers (example_tcb 0x2000) \<and> currentTask 0 k3 = 0x1000 \<and>
     yield 0 (k1\<lparr>k_regs := (k_regs k1)(0 := zero_registers\<lparr>rbx := 7\<rparr>)\<rparr>) = Inr (Switched, k3) \<and>
     k_regs k3 0 = (zero_registers\<lparr>rflags := 0x200\<rparr>)\<lparr>rflags := unset_bit 9 0x200\<rparr>"
proof -
  let ?k = "example_kernel 0x1000 [0x2000]"
  obtain k1 where k1: "yield 0 ?k = Inr (Switched, k1)" "cpu_ok 0 k1 [0x1000]" "currentTask 0 k1 = 0x2000"
    "\<not> sc_yieldLocked (k_sched k1 0)"
    using yield_switch [of 0 ?k "0x2000" "[]" "0x1000"] by (auto simp: cpu_frame_def new_control_block_def)
  let ?k2 = "k1\<lparr>k_regs := (k_regs k1)(0 := zero_registers\<lparr>rbx := 7\<rparr>)\<rparr>"
  have "cpu_ok 0 ?k2 [0x1000]" by (rule cpu_ok_cong [OF k1(2)]) simp_all
  moreover have "currentTask 0 ?k2 = 0x2000" using k1(3) by (simp add: currentTask_def)
  ultimately obtain k3 where k3: "yield 0 ?k2 = Inr (Switched, k3)"
    using yield_switch [of 0 ?k2 "0x1000" "[]" "0x2000"] k1(4) by auto
  have "currentTask 0 k1 = 0x2000 \<and> k_regs k1 0 = cb_registers (k_tcb ?k 0x2000) \<and> currentTask 0 k3 = currentTask 0 ?k \<and>
     k_regs k3 0 = (k_regs ?k 0)\<lparr>rflags := unset_bit 9 (rflags (k_regs ?k 0))\<rparr>"
    by (rule context_switch_roundtrip [OF _ _ _ k1(1) refl k3]) simp_all
  moreover have "k_regs ?k 0 = zero_registers\<lparr>rflags := 0x200\<rparr>" by (simp add: example_kernel_def)
  ultimately show ?thesis using k3 by (intro exI [of _ k1] exI [of _ k3]) simp
qed

text \<open>
  Time slices: ticks only count down until the slice is used up, and the tick that makes it zero
  yields. The count is modulo 2^32: a slice of \<open>s\<close> lasts \<open>s\<close> ticks, and the slice 0 of the first task of a
  CPU (\<^verbatim>\<open>new ControlBlock()\<close> zeroes it and \<^verbatim>\<open>Scheduler::init\<close> does not set it) lasts 2^32 ticks.
\<close>

theorem tick_preempts:
  assumes "\<not> sc_yieldLocked (k_sched k c)" and "cpu_running c k" and "currentTask c k = t"
    and "n = unat (cb_timeSlice (k_tcb k t) - 1)"
  shows "(\<forall>m \<le> n. \<exists>k'. ticks c m k = Inr (Returned, k') \<and> currentTask c k' = t) \<and>
         ticks c (Suc n) k = yield c (upd_task t (\<lambda>b. b\<lparr>cb_timeSlice := 0\<rparr>) k)"
proof (intro conjI allI impI)
  fix m assume "m \<le> n"
  with ticks_count [OF assms(1-3), of m] assms(3,4)
  show "\<exists>k'. ticks c m k = Inr (Returned, k') \<and> currentTask c k' = t" by (simp add: currentTask_def)
next
  have "cb_timeSlice (k_tcb k t) - of_nat n = 1" by (simp add: assms(4))
  then show "ticks c (Suc n) k = yield c (upd_task t (\<lambda>b. b\<lparr>cb_timeSlice := 0\<rparr>) k)"
    using ticks_count [OF assms(1-3), of n] assms(1-4)
    by (simp add: tick_def sched_tick_def yield_def cpu_running_def currentTask_def upd_task_def)
qed

theorem tick_preempts_witness:
  "ticks 0 (Suc 4) (example_kernel 0x1000 [0x2000]) =
     yield 0 (upd_task 0x1000 (\<lambda>b. b\<lparr>cb_timeSlice := 0\<rparr>) (example_kernel 0x1000 [0x2000]))"
  by (rule tick_preempts [THEN conjunct2]) simp_all

text \<open>
  Load balancing: \<^verbatim>\<open>getLeastBusy\<close> returns a scheduler whose task count is minimal among all
  started CPUs (breaking off at a count of 0 loses nothing).
\<close>

theorem getLeastBusy_minimal:
  assumes "c < k_cpuCount k" and "j < k_cpuCount k"
  shows "getLeastBusy c k < k_cpuCount k \<and> taskCount (getLeastBusy c k) k \<le> taskCount j k"
  using getLeastBusyLoop_min [of "taskCount c k" c k "k_cpuCount k" 0] assms by (simp add: getLeastBusy_def)

theorem getLeastBusy_minimal_witness:
  "getLeastBusy 0 (example_kernel 0x1000 [0x2000]) < k_cpuCount (example_kernel 0x1000 [0x2000]) \<and>
   taskCount (getLeastBusy 0 (example_kernel 0x1000 [0x2000])) (example_kernel 0x1000 [0x2000])
     \<le> taskCount 0 (example_kernel 0x1000 [0x2000])"
  by (rule getLeastBusy_minimal) simp_all

text \<open>
  Preemption by priority: a task added on a CPU that idles, whose task is blocked, or that runs a
  task of lower priority runs there at once, the preempted task goes to the end of the queue and the
  invariant is kept; on a CPU that runs a task of the same or a higher priority it is queued last and the
  running task is not disturbed.
\<close>

theorem addTask_preempts_by_priority:
  assumes "cpu_ok c k xs" and "task \<noteq> nullptr" and "task \<notin> set xs" and "task \<noteq> currentTask c k"
    and "\<not> locked (cb_runLock (k_tcb k task))" and "\<not> locked (sc_addTaskLock (k_sched k c))"
    and "sc_cpuNumber (k_sched k c) = c" and "\<not> sc_yieldLocked (k_sched k c)"
  shows "if \<not> cpu_running c k \<or> cb_priority (k_tcb k (currentTask c k)) < cb_priority (k_tcb k task)
         then \<exists>k'. sched_addTask c c task k = Inr (Switched, k') \<and> currentTask c k' = task \<and> cpu_running c k' \<and>
                cpu_ok c k' (if cpu_running c k then xs @ [currentTask c k] else xs)
         else \<exists>k'. sched_addTask c c task k = Inr (Returned, k') \<and> currentTask c k' = currentTask c k \<and>
                tq_ok (sc_tasks (k_sched k' c)) (k_tcb k') (xs @ [task]) \<and> k_regs k' = k_regs k"
proof (cases "goes_first c task k")
  case True
  with sched_addTask_preempts [OF assms True] show ?thesis by (auto simp: goes_first_def)
next
  case False
  with sched_addTask_local [OF assms(1-7)] cpu_okD(1) show ?thesis
    by (auto simp: goes_first_def abs_add_def)
qed

theorem addTask_preempts_by_priority_witness:
  "\<exists>k'. sched_addTask 0 0 0x4000 (example_kernel 0x1000 [0x2000]) = Inr (Returned, k') \<and> currentTask 0 k' = 0x1000 \<and>
     tq_ok (sc_tasks (k_sched k' 0)) (k_tcb k') ([0x2000] @ [0x4000]) \<and> k_regs k' = k_regs (example_kernel 0x1000 [0x2000])"
  using addTask_preempts_by_priority [of 0 "example_kernel 0x1000 [0x2000]" "[0x2000]" "0x4000"]
  by (simp add: new_control_block_def)

text \<open>
  A lost block (a defect of the code): when a task that has marked itself blocking is woken on its
  own CPU before it reaches \<^verbatim>\<open>yield\<close>, it is left running, marked runnable and still queued. The next
  time it blocks, \<^verbatim>\<open>yield\<close> pops the task itself from the queue and returns to it at once, although nobody
  has woken it.
\<close>

theorem wakeup_before_yield_loses_next_block:
  assumes "cpu_ok c k []" and "currentTask c k = t" and "t \<noteq> nullptr" and "cb_state (k_tcb k t) = BLOCKING"
    and "\<not> locked (sc_addTaskLock (k_sched k c))" and "sc_cpuNumber (k_sched k c) = c"
    and "\<not> sc_yieldLocked (k_sched k c)"
  shows "\<exists>k1 k2 k3. sched_addTask c c t k = Inr (Switched, k1) \<and> currentTask c k1 = t \<and>
           cb_state (k_tcb k1 t) = RUNNABLE \<and> tq_ok (sc_tasks (k_sched k1 c)) (k_tcb k1) [t] \<and>
           block_current c k1 = Inr (t, k2) \<and> cb_state (k_tcb k2 t) = BLOCKING \<and>
           yield c k2 = Inr (Switched, k3) \<and> currentTask c k3 = t \<and>
           k_regs k3 c = (k_regs k2 c)\<lparr>rflags := unset_bit 9 (rflags (k_regs k2 c))\<rparr>"
proof -
  from assms(2,4) have "sc_currentTask (k_sched k c) = nullptr \<or> sc_currentTask (k_sched k c) = t \<or>
      cb_state (k_tcb k (sc_currentTask (k_sched k c))) \<noteq> RUNNING \<or>
      cb_priority (k_tcb k (sc_currentTask (k_sched k c))) < cb_priority (k_tcb k t)"
    by (simp add: currentTask_def)
  from sched_addTask_front [OF cpu_okD(1) [OF assms(1)] assms(3) _ assms(5,6) this] obtain k0 q l where
    run: "sched_addTask c c t k = sched_yield c c k0" and q: "tq_ok q (k_tcb k0) [t]" and
    f: "k_sched k0 = (k_sched k)(c := (k_sched k c)\<lparr>sc_tasks := q, sc_addTaskLock := l\<rparr>)" by auto
  have "tq_ok (sc_tasks (k_sched k0 c)) (k_tcb k0) [t]" using q by (simp add: f)
  from yield_self [OF this] obtain k1 where k1: "yield c k0 = Inr (Switched, k1)" "currentTask c k1 = t"
    "cb_state (k_tcb k1 t) = RUNNABLE" "tq_ok (sc_tasks (k_sched k1 c)) (k_tcb k1) [t]" "\<not> sc_yieldLocked (k_sched k1 c)"
    using assms(2,7) by (auto simp: currentTask_def f)
  let ?k2 = "upd_task t (\<lambda>b. b\<lparr>cb_state := BLOCKING\<rparr>) k1"
  have "block_current c k1 = Inr (t, ?k2)"
    using k1(2) assms(3) by (simp add: block_current_def sched_block_def currentTask_def)
  moreover have "tq_ok (sc_tasks (k_sched ?k2 c)) (k_tcb ?k2) [t]"
    using tq_ok_cong [OF k1(4), of "k_tcb ?k2"] by simp
  from yield_self [OF this] k1(2,5) obtain k3 where "yield c ?k2 = Inr (Switched, k3)" "currentTask c k3 = t"
    "k_regs k3 c = (k_regs ?k2 c)\<lparr>rflags := unset_bit 9 (rflags (k_regs ?k2 c))\<rparr>"
    by (auto simp: currentTask_def)
  ultimately show ?thesis using run k1 by (intro exI [of _ k1] exI [of _ ?k2] exI [of _ k3]) (simp add: yield_def)
qed

definition example_blocking :: kernel where
  "example_blocking = upd_task 0x1000 (\<lambda>b. b\<lparr>cb_state := BLOCKING\<rparr>) (example_kernel 0x1000 [])"

theorem wakeup_before_yield_loses_next_block_witness:
  "\<exists>k1 k2 k3. sched_addTask 0 0 0x1000 example_blocking = Inr (Switched, k1) \<and> currentTask 0 k1 = 0x1000 \<and>
     cb_state (k_tcb k1 0x1000) = RUNNABLE \<and> tq_ok (sc_tasks (k_sched k1 0)) (k_tcb k1) [0x1000] \<and>
     block_current 0 k1 = Inr (0x1000, k2) \<and> cb_state (k_tcb k2 0x1000) = BLOCKING \<and>
     yield 0 k2 = Inr (Switched, k3) \<and> currentTask 0 k3 = 0x1000 \<and>
     k_regs k3 0 = (k_regs k2 0)\<lparr>rflags := unset_bit 9 (rflags (k_regs k2 0))\<rparr>"
proof (rule wakeup_before_yield_loses_next_block)
  show "cpu_ok 0 example_blocking []"
    using example_kernel_ok(3) tq_ok_cong [of _ _ "[]"]
    by (auto simp: cpu_ok_def example_blocking_def currentTask_def)
qed (simp_all add: example_blocking_def currentTask_def)

end
