(* ===== verification/Blocking.thy ===== *)
theory Blocking
  imports Scheduler
begin

text \<open>
  The blocking primitives built on the scheduler: \<^verbatim>\<open>Mutex\<close> (\<^verbatim>\<open>mutex.h\<close>, \<^verbatim>\<open>scheduler/mutex.cpp\<close>) and
  \<^verbatim>\<open>Completion\<close> (\<^verbatim>\<open>async/completion.h\<close>, \<^verbatim>\<open>scheduler/completion.cpp\<close>). An operation takes the CPU that runs it,
  the object and the kernel state. When the calling task blocks, the operation ends with the switch to
  another task; what the caller does after it is scheduled again is only to return.
\<close>

section \<open>Locks and waiting lists of kernel objects\<close>

definition lock_spin :: "nat \<Rightarrow> spinlock \<Rightarrow> kernel \<Rightarrow> (spinlock \<times> kernel) result" where
  "lock_spin c l k = rbind (acquire (localIrqState c k, l)) (\<lambda>(irq, l'). Inr (l', set_irq c irq k))"

definition unlock_spin :: "nat \<Rightarrow> spinlock \<Rightarrow> kernel \<Rightarrow> spinlock \<times> kernel" where
  "unlock_spin c l k = (let (irq, l') = release (localIrqState c k, l) in (l', set_irq c irq k))"

definition on_queue ::
  "nat \<Rightarrow> (bool \<times> task_queue \<times> task_heap \<Rightarrow> ('r \<times> bool \<times> task_queue \<times> task_heap) result) \<Rightarrow>
   task_queue \<Rightarrow> kernel \<Rightarrow> ('r \<times> task_queue \<times> kernel) result" where
  "on_queue c f q k =
     rbind (f (localIrqState c k, q, k_tcb k)) (\<lambda>(r, irq, q', h). Inr (r, q', set_irq c irq (k\<lparr>k_tcb := h\<rparr>)))"

text \<open>\<^verbatim>\<open>waiting.push(scheduler::block())\<close>\<close>

definition wait_on :: "nat \<Rightarrow> task_queue \<Rightarrow> kernel \<Rightarrow> (task_queue \<times> kernel) result" where
  "wait_on c q k =
     rbind (block_current c k) (\<lambda>(t, k1).
     rbind (on_queue c (tq_push t) q k1) (\<lambda>(u, q1, k2). Inr (q1, k2)))"

section \<open>Mutex\<close>

record mutex =
  mx_spinlock :: spinlock
  mx_lock :: bool
  mx_blockedTasks :: task_queue

definition mutex_init :: mutex where
  "mutex_init = \<lparr>mx_spinlock = spinlock_init, mx_lock = False, mx_blockedTasks = task_queue_init\<rparr>"

definition mutex_acquire :: "nat \<Rightarrow> mutex \<times> kernel \<Rightarrow> (control \<times> mutex \<times> kernel) result" where
  "mutex_acquire c = (\<lambda>(m, k).
     rbind (lock_spin c (mx_spinlock m) k) (\<lambda>(l1, k1).
       if \<not> mx_lock m then
         (let (l2, k2) = unlock_spin c l1 k1 in Inr (Returned, m\<lparr>mx_spinlock := l2, mx_lock := True\<rparr>, k2))
       else
         rbind (wait_on c (mx_blockedTasks m) k1) (\<lambda>(q, k2).
           (let (l2, k3) = unlock_spin c l1 k2
            in rbind (yield c k3) (\<lambda>(ctl, k4). Inr (ctl, m\<lparr>mx_spinlock := l2, mx_blockedTasks := q\<rparr>, k4))))))"

definition mutex_release :: "nat \<Rightarrow> mutex \<times> kernel \<Rightarrow> (control \<times> mutex \<times> kernel) result" where
  "mutex_release c = (\<lambda>(m, k).
     rbind (lock_spin c (mx_spinlock m) k) (\<lambda>(l1, k1).
     rbind (on_queue c tq_pop (mx_blockedTasks m) k1) (\<lambda>(nextTask, q, k2).
       (let (l2, k3) = unlock_spin c l1 k2
        in if nextTask = nullptr then
             Inr (Returned, m\<lparr>mx_spinlock := l2, mx_lock := False, mx_blockedTasks := q\<rparr>, k3)
           else rbind (addTask c nextTask k3) (\<lambda>(ctl, k4).
                  Inr (ctl, m\<lparr>mx_spinlock := l2, mx_blockedTasks := q\<rparr>, k4))))))"

section \<open>Completion\<close>

record completion =
  cp_lock :: spinlock
  cp_waitingTasks :: task_queue
  cp_completed :: bool

definition completion_init :: completion where
  "completion_init = \<lparr>cp_lock = spinlock_init, cp_waitingTasks = task_queue_init, cp_completed = False\<rparr>"

definition await :: "nat \<Rightarrow> completion \<times> kernel \<Rightarrow> (control \<times> completion \<times> kernel) result" where
  "await c = (\<lambda>(p, k).
     rbind (lock_spin c (cp_lock p) k) (\<lambda>(l1, k1).
       if cp_completed p then
         (let (l2, k2) = unlock_spin c l1 k1 in Inr (Returned, p\<lparr>cp_lock := l2\<rparr>, k2))
       else
         rbind (wait_on c (cp_waitingTasks p) k1) (\<lambda>(q, k2).
           (let (l2, k3) = unlock_spin c l1 k2
            in rbind (yield c k3) (\<lambda>(ctl, k4). Inr (ctl, p\<lparr>cp_lock := l2, cp_waitingTasks := q\<rparr>, k4))))))"

text \<open>The loop that wakes the waiting tasks; \<open>fuel\<close> bounds the number of pops.\<close>

fun signalLoop :: "nat \<Rightarrow> nat \<Rightarrow> ptr \<Rightarrow> task_queue \<times> kernel \<Rightarrow> (task_queue \<times> kernel) result" where
  "signalLoop fuel c nextTask (q, k) =
     (if nextTask = nullptr then Inr (q, k)
      else case fuel of
        0 \<Rightarrow> Inl Diverges
      | Suc fuel' \<Rightarrow>
          rbind (addTask c nextTask k) (\<lambda>(ctl, k1).
          rbind (on_queue c tq_pop q k1) (\<lambda>(nextTask', q', k2). signalLoop fuel' c nextTask' (q', k2))))"

declare signalLoop.simps [simp del]

text \<open>
  When \<^verbatim>\<open>scheduler::unlock\<close> switches away, \<^verbatim>\<open>lock.release()\<close> is only executed once the signalling task
  runs again: the completion is left locked.
\<close>

definition signalComplete :: "nat \<Rightarrow> completion \<times> kernel \<Rightarrow> (control \<times> completion \<times> kernel) result" where
  "signalComplete c = (\<lambda>(p, k).
     rbind (lock_spin c (cp_lock p) k) (\<lambda>(l1, k1).
     rbind (on_queue c tq_pop (cp_waitingTasks p) k1) (\<lambda>(nextTask, q, k2).
     rbind (signalLoop (Suc (unat (tq_size q))) c nextTask (q, lock_scheduler c k2)) (\<lambda>(q', k3).
     rbind (unlock_scheduler c k3) (\<lambda>(ctl, k4).
       (let p1 = p\<lparr>cp_lock := l1, cp_waitingTasks := q', cp_completed := True\<rparr>
        in if ctl = Returned then
             (let (l2, k5) = unlock_spin c l1 k4 in Inr (Returned, p1\<lparr>cp_lock := l2\<rparr>, k5))
           else Inr (ctl, p1, k4)))))))"

section \<open>Lemmas on locks and waiting lists\<close>

lemma lock_spin_ok:
  "\<not> locked l \<Longrightarrow> lock_spin c l k = Inr (l\<lparr>sl_lock := 1, sl_enableIrqs := localIrqState c k\<rparr>, set_irq c False k)"
  by (simp add: lock_spin_def)

lemma lock_spin_taken: "locked l \<Longrightarrow> lock_spin c l k = Inl Deadlock"
  by (simp add: lock_spin_def)

lemma unlock_spin_ok:
  "\<not> localIrqState c k \<Longrightarrow>
   unlock_spin c (l\<lparr>sl_lock := 1, sl_enableIrqs := b\<rparr>) k = (l\<lparr>sl_lock := 0, sl_enableIrqs := b\<rparr>, set_irq c b k)"
  by (simp add: unlock_spin_def)

lemma taskCount_cong:
  "k_sched k' = k_sched k \<Longrightarrow> k_tcb k' = k_tcb k \<Longrightarrow> taskCount n k' = taskCount n k"
  by (simp add: taskCount_def Let_def)

lemma set_irq_views [simp]:
  "cpu_ok c (set_irq d b k) xs = cpu_ok c k xs"
  "cpu_running c (set_irq d b k) = cpu_running c k"
  "currentTask c (set_irq d b k) = currentTask c k"
  "stack_available c (set_irq d b k) = stack_available c k"
  by (simp_all add: cpu_ok_def cpu_running_def currentTask_def stack_available_def)

lemma getLeastBusy_uniprocessor: "k_cpuCount k \<le> 1 \<Longrightarrow> getLeastBusy 0 k = 0"
  by (simp add: getLeastBusy_def getLeastBusyLoop.simps [of 0] getLeastBusyLoop.simps [of "Suc 0"])

text \<open>A waiting list: every task on it is blocked and has been switched out.\<close>

definition waiting :: "task_queue \<Rightarrow> kernel \<Rightarrow> ptr list \<Rightarrow> bool" where
  "waiting q k ws \<longleftrightarrow>
     tq_ok q (k_tcb k) ws \<and> (\<forall>t \<in> set ws. cb_state (k_tcb k t) = BLOCKING \<and> \<not> locked (cb_runLock (k_tcb k t)))"

lemma waiting_init [simp]: "waiting task_queue_init k []"
  by (simp add: waiting_def)

lemma waiting_cong:
  assumes "waiting q k ws" and "\<And>x. x \<in> set ws \<Longrightarrow> k_tcb k' x = k_tcb k x"
  shows "waiting q k' ws"
  using assms tq_ok_cong [of q "k_tcb k" ws "k_tcb k'"] by (simp add: waiting_def)

lemma waiting_set_irq [simp]: "waiting q (set_irq c b k) ws = waiting q k ws"
  by (simp add: waiting_def)

lemma on_queue_pop:
  assumes "waiting q k ws"
  shows "\<exists>q'. on_queue c tq_pop q k = Inr (case ws of [] \<Rightarrow> nullptr | w # _ \<Rightarrow> w, q', k) \<and> waiting q' k (tl ws)"
proof -
  from assms have "tq_ok q (k_tcb k) ws" by (simp add: waiting_def)
  from tq_pop_ok [OF this, of "localIrqState c k"] obtain q' where
    "tq_pop (localIrqState c k, q, k_tcb k) = Inr (case ws of [] \<Rightarrow> nullptr | x # _ \<Rightarrow> x, localIrqState c k, q', k_tcb k)"
    "tq_ok q' (k_tcb k) (tl ws)" by blast
  then show ?thesis using assms set_irq_same [of c k] list.set_sel(2) [of ws]
    by (cases ws) (auto simp: on_queue_def waiting_def)
qed

lemma wait_on_ok:
  assumes "waiting q k ws" and "currentTask c k = t" and "t \<noteq> nullptr" and "t \<notin> set ws"
  shows "\<exists>q' h. wait_on c q k = Inr (q', k\<lparr>k_tcb := h\<rparr>) \<and> tq_ok q' h (ws @ [t]) \<and>
           links_only ((k_tcb k)(t := (k_tcb k t)\<lparr>cb_state := BLOCKING\<rparr>)) h \<and>
           (\<forall>x. x \<notin> insert t (set ws) \<longrightarrow> h x = k_tcb k x)"
proof -
  let ?k1 = "upd_task t (\<lambda>b. b\<lparr>cb_state := BLOCKING\<rparr>) k"
  have "tq_ok q (k_tcb ?k1) ws"
    using tq_ok_cong [of q "k_tcb k" ws "k_tcb ?k1"] assms(1) by (simp add: waiting_def)
  from tq_push_ok [OF this assms(3,4), of "localIrqState c k"] obtain q' h where
    push: "tq_push t (localIrqState c k, q, k_tcb ?k1) = Inr ((), localIrqState c k, q', h)" and
    r: "tq_ok q' h (ws @ [t])" "links_only (k_tcb ?k1) h" "\<forall>x. x \<notin> set ws \<longrightarrow> h x = k_tcb ?k1 x" by blast
  have "set_irq c (localIrqState c k) (k\<lparr>k_tcb := h\<rparr>) = k\<lparr>k_tcb := h\<rparr>"
    using set_irq_same [of c "k\<lparr>k_tcb := h\<rparr>"] by simp
  then have "wait_on c q k = Inr (q', k\<lparr>k_tcb := h\<rparr>)"
    using push assms(2,3)
    by (simp add: wait_on_def block_current_def sched_block_def on_queue_def currentTask_def upd_task_def)
  with r show ?thesis by auto
qed

text \<open>A running task that joins a waiting list and yields: shared by all blocking primitives.\<close>

lemma block_and_yield:
  assumes ok: "cpu_ok c k xs" and run: "cpu_running c k" and w: "waiting q k ws"
    and dj: "set ws \<inter> set (currentTask c k # xs) = {}"
    and unl: "\<not> sc_yieldLocked (k_sched k c)" and st: "xs = [] \<Longrightarrow> stack_available c k"
  shows "\<exists>q' k2 k'. wait_on c q k = Inr (q', k2) \<and> localIrqState c k2 = localIrqState c k \<and>
           yield c (set_irq c b k2) = Inr (yield_outcome False xs, k') \<and>
           waiting q' k' (ws @ [currentTask c k]) \<and> cpu_ok c k' (tl xs) \<and>
           currentTask c k' = (case xs of [] \<Rightarrow> nullptr | x # _ \<Rightarrow> x) \<and> cpu_running c k' = (xs \<noteq> []) \<and>
           cpu_frame c (insert (currentTask c k) (set (ws @ xs))) k k'"
proof -
  let ?t = "currentTask c k"
  have t: "?t \<noteq> nullptr" using run by (simp add: cpu_running_def)
  from dj have "?t \<notin> set ws" by auto
  from wait_on_ok [OF w refl t this] obtain q' h where
    wait: "wait_on c q k = Inr (q', k\<lparr>k_tcb := h\<rparr>)" and q': "tq_ok q' h (ws @ [?t])" and
    h: "links_only ((k_tcb k)(?t := (k_tcb k ?t)\<lparr>cb_state := BLOCKING\<rparr>)) h" "\<And>x. x \<notin> insert ?t (set ws) \<Longrightarrow> h x = k_tcb k x"
    by blast
  note fld = links_only_simps(1,2) [OF h(1)]
  let ?k3 = "set_irq c b (k\<lparr>k_tcb := h\<rparr>)"
  have v: "currentTask c ?k3 = ?t" "\<not> cpu_running c ?k3" "sc_yieldLocked (k_sched ?k3 c) = sc_yieldLocked (k_sched k c)"
    using fld(1) [of ?t] by (simp_all add: currentTask_def cpu_running_def)
  have xs: "h x = k_tcb k x" if "x \<in> set xs" for x
    using that dj cpu_okD(6) [OF ok] by (intro h(2)) auto
  have "cpu_ok c ?k3 xs"
    using ok xs tq_ok_cong [OF cpu_okD(1) [OF ok], of h] fld(2) [of ?t]
    unfolding cpu_ok_def v(1) by simp
  moreover have "xs = [] \<Longrightarrow> stack_available c ?k3" using st by (simp add: stack_available_def)
  moreover have "abs_yield (?t, False, xs) = (case xs of [] \<Rightarrow> nullptr | x # _ \<Rightarrow> x, xs \<noteq> [], tl xs)"
    by (cases xs) auto
  ultimately obtain k' where k': "yield c ?k3 = Inr (yield_outcome False xs, k')" "cpu_ok c k' (tl xs)"
    "currentTask c k' = (case xs of [] \<Rightarrow> nullptr | x # _ \<Rightarrow> x)" "cpu_running c k' = (xs \<noteq> [])"
    "cpu_frame c (insert ?t (set xs)) ?k3 k'" "same_links_state ?t ?k3 k'" "\<not> locked (cb_runLock (k_tcb k' ?t))"
    using yield_abs [of c ?k3 xs] v unl t by auto
  have same: "k_tcb k' x = h x" if "x \<in> set ws" for x
    using that dj cpu_frameD(1) [OF k'(5), of x] by auto
  have "waiting q' k' (ws @ [?t])"
    unfolding waiting_def
  proof
    show "tq_ok q' (k_tcb k') (ws @ [?t])"
      by (rule tq_ok_cong [OF q']) (use same k'(6) in \<open>auto simp: same_links_state_def\<close>)
    show "\<forall>x \<in> set (ws @ [?t]). cb_state (k_tcb k' x) = BLOCKING \<and> \<not> locked (cb_runLock (k_tcb k' x))"
      using w same fld k'(6,7) \<open>?t \<notin> set ws\<close> by (auto simp: waiting_def same_links_state_def)
  qed
  moreover have "cpu_frame c (insert ?t (set (ws @ xs))) k k'"
    using k'(5) h(2) by (simp add: cpu_frame_def)
  ultimately show ?thesis using wait k'(1-4) by auto
qed

section \<open>Mutex: lemmas\<close>

definition mutex_ok :: "mutex \<Rightarrow> kernel \<Rightarrow> ptr list \<Rightarrow> bool" where
  "mutex_ok m k ws \<longleftrightarrow>
     \<not> locked (mx_spinlock m) \<and> waiting (mx_blockedTasks m) k ws \<and> (ws \<noteq> [] \<longrightarrow> mx_lock m)"

text \<open>The state of a CPU on which a task may call the blocking primitives.\<close>

definition cpu_ready :: "nat \<Rightarrow> kernel \<Rightarrow> ptr list \<Rightarrow> bool" where
  "cpu_ready c k xs \<longleftrightarrow>
     cpu_ok c k xs \<and> cpu_running c k \<and> \<not> sc_yieldLocked (k_sched k c) \<and> stack_available c k \<and>
     \<not> locked (sc_addTaskLock (k_sched k c)) \<and> sc_cpuNumber (k_sched k c) = c"

lemma mutex_acquire_contended:
  assumes m: "mutex_ok m k ws" "mx_lock m" and k: "cpu_ready c k xs" and dj: "set ws \<inter> set (currentTask c k # xs) = {}"
  shows "\<exists>m' k'. mutex_acquire c (m, k) = Inr (yield_outcome False xs, m', k') \<and> mx_lock m' \<and>
           mutex_ok m' k' (ws @ [currentTask c k]) \<and> cpu_ok c k' (tl xs) \<and>
           currentTask c k' = (case xs of [] \<Rightarrow> nullptr | x # _ \<Rightarrow> x)"
proof -
  let ?b = "localIrqState c k"
  let ?k1 = "set_irq c False k"
  have "waiting (mx_blockedTasks m) ?k1 ws"
    using m(1) by (simp add: mutex_ok_def)
  then obtain q' k2 k' where
    w: "wait_on c (mx_blockedTasks m) ?k1 = Inr (q', k2)" "localIrqState c k2 = localIrqState c ?k1"
    and y: "yield c (set_irq c ?b k2) = Inr (yield_outcome False xs, k')"
    and r: "waiting q' k' (ws @ [currentTask c k])" "cpu_ok c k' (tl xs)"
      "currentTask c k' = (case xs of [] \<Rightarrow> nullptr | x # _ \<Rightarrow> x)"
    using block_and_yield [of c ?k1 xs "mx_blockedTasks m" ws ?b] k dj by (auto simp: cpu_ready_def)
  have "mutex_acquire c (m, k) = Inr (yield_outcome False xs,
      m\<lparr>mx_spinlock := (mx_spinlock m)\<lparr>sl_lock := 0, sl_enableIrqs := ?b\<rparr>, mx_blockedTasks := q'\<rparr>, k')"
    using m w y by (simp add: mutex_acquire_def mutex_ok_def lock_spin_ok unlock_spin_ok)
  with r m(2) show ?thesis by (auto simp: mutex_ok_def)
qed

lemma addTask_uniprocessor: "k_cpuCount k \<le> 1 \<Longrightarrow> addTask 0 t k = sched_addTask 0 0 t k"
  by (simp add: addTask_def getLeastBusy_uniprocessor)

lemma mutex_release_handoff:
  assumes m: "mutex_ok m k (w # ws)" and k: "cpu_ready 0 k xs" "k_cpuCount k \<le> 1"
    and dj: "set (w # ws) \<inter> set (currentTask 0 k # xs) = {}"
  shows "\<exists>m' k'. mutex_release 0 (m, k) = Inr (if goes_first 0 w k then Switched else Returned, m', k') \<and>
           mx_lock m' \<and> mutex_ok m' k' ws \<and>
           currentTask 0 k' = (if goes_first 0 w k then w else currentTask 0 k) \<and>
           cpu_ok 0 k' (xs @ [if goes_first 0 w k then currentTask 0 k else w])"
proof -
  let ?b = "localIrqState 0 k"
  let ?k1 = "set_irq 0 False k"
  have "waiting (mx_blockedTasks m) ?k1 (w # ws)"
    using m by (simp add: mutex_ok_def)
  from on_queue_pop [OF this, of 0] obtain q' where
    q': "on_queue 0 tq_pop (mx_blockedTasks m) ?k1 = Inr (w, q', ?k1)" "waiting q' ?k1 ws" by auto
  then have w: "waiting q' k ws" by simp
  have w0: "w \<noteq> nullptr" "w \<notin> set ws" "\<not> locked (cb_runLock (k_tcb k w))"
    using m by (auto simp: mutex_ok_def waiting_def tq_ok_def tq_rep_def)
  let ?m' = "m\<lparr>mx_spinlock := (mx_spinlock m)\<lparr>sl_lock := 0, sl_enableIrqs := ?b\<rparr>, mx_blockedTasks := q'\<rparr>"
  have run: "mutex_release 0 (m, k) = rbind (sched_addTask 0 0 w k) (\<lambda>(ctl, k4). Inr (ctl, ?m', k4))"
    using m q'(1) w0(1) k(2)
    by (simp add: mutex_release_def mutex_ok_def lock_spin_ok unlock_spin_ok set_irq_same addTask_uniprocessor)
  have wx: "w \<notin> set xs" "w \<noteq> currentTask 0 k" using dj by auto
  obtain ctl k' where
    add: "sched_addTask 0 0 w k = Inr (if goes_first 0 w k then Switched else Returned, k')" and r:
      "currentTask 0 k' = (if goes_first 0 w k then w else currentTask 0 k)"
      "cpu_ok 0 k' (xs @ [if goes_first 0 w k then currentTask 0 k else w])"
      "cpu_frame 0 (insert (currentTask 0 k) (insert w (set xs))) k k'"
  proof (cases "goes_first 0 w k")
    case True
    from sched_addTask_preempts [OF _ w0(1) wx w0(3) _ _ _ True] True k show thesis
      by (auto simp: cpu_ready_def intro: that)
  next
    case False
    from sched_addTask_local [OF _ w0(1) wx w0(3)] False k show thesis
      by (auto simp: cpu_ready_def abs_add_def intro!: that elim: cpu_frame_mono)
  qed
  have "waiting q' k' ws"
    by (rule waiting_cong [OF w]) (use dj w0(2) in \<open>auto intro!: cpu_frameD(1) [OF r(3)]\<close>)
  with run add r m show ?thesis by (auto simp: mutex_ok_def)
qed

section \<open>Mutex: properties\<close>

text \<open>
  \<^verbatim>\<open>Mutex::acquire\<close>: a free mutex is taken at once and nothing else changes; on a taken mutex the
  calling task stops running, is blocked at the end of the mutex's waiting list, and the CPU goes to the
  next ready task or halts. In both cases the mutex is held afterwards and its invariant is kept.
\<close>

theorem mutex_acquire_correct:
  assumes "mutex_ok m k ws" and "cpu_ready c k xs" and "set ws \<inter> set (currentTask c k # xs) = {}"
  shows "if mx_lock m
         then \<exists>m' k'. mutex_acquire c (m, k) = Inr (yield_outcome False xs, m', k') \<and> mx_lock m' \<and>
                mutex_ok m' k' (ws @ [currentTask c k]) \<and> cpu_ok c k' (tl xs) \<and>
                currentTask c k' = (case xs of [] \<Rightarrow> nullptr | x # _ \<Rightarrow> x)
         else \<exists>m'. mutex_acquire c (m, k) = Inr (Returned, m', k) \<and> mx_lock m' \<and> mutex_ok m' k ws"
proof (cases "mx_lock m")
  case True
  then show ?thesis using mutex_acquire_contended [OF assms(1) True assms(2,3)] by simp
next
  case False
  then show ?thesis using assms(1)
    by (auto simp: mutex_acquire_def mutex_ok_def lock_spin_ok unlock_spin_ok set_irq_same)
qed

theorem mutex_acquire_correct_witness:
  "\<exists>m' k'. mutex_acquire 0 (mutex_init\<lparr>mx_lock := True\<rparr>, example_kernel 0x1000 [0x2000, 0x3000])
       = Inr (yield_outcome False [0x2000, 0x3000], m', k') \<and>
     mx_lock m' \<and> mutex_ok m' k' ([] @ [currentTask 0 (example_kernel 0x1000 [0x2000, 0x3000])]) \<and>
     cpu_ok 0 k' (tl [0x2000, 0x3000]) \<and> currentTask 0 k' = 0x2000"
  using mutex_acquire_correct [of "mutex_init\<lparr>mx_lock := True\<rparr>" "example_kernel 0x1000 [0x2000, 0x3000]" "[]" 0 "[0x2000, 0x3000]"]
  by (simp add: mutex_ok_def cpu_ready_def mutex_init_def stack_available_def)


text \<open>An example: task 0x4000 waits for a mutex that task 0x1000 holds.\<close>

definition example_waiting :: kernel where
  "example_waiting = upd_task 0x4000 (\<lambda>b. b\<lparr>cb_state := BLOCKING, cb_priority := 4\<rparr>) (example_kernel 0x1000 [0x2000])"

definition example_wait_list :: task_queue where
  "example_wait_list = \<lparr>tq_lock = spinlock_init, tq_head = 0x4000, tq_tail = 0x4000, tq_size = 1\<rparr>"

lemma example_waiting_ok:
  "cpu_ready 0 example_waiting [0x2000]" "waiting example_wait_list example_waiting [0x4000]"
  "k_cpuCount example_waiting = 1" "currentTask 0 example_waiting = 0x1000" "goes_first 0 0x4000 example_waiting"
proof -
  have "tq_ok (sc_tasks (k_sched (example_kernel 0x1000 [0x2000]) 0)) (k_tcb example_waiting) [0x2000]"
    using example_kernel_ok(2) tq_ok_cong [of _ example_tcb "[0x2000]" "k_tcb example_waiting"]
    by (simp add: cpu_ok_def example_waiting_def)
  then show "cpu_ready 0 example_waiting [0x2000]"
    using example_kernel_ok(2,4) by (simp add: cpu_ready_def cpu_ok_def example_waiting_def currentTask_def
        cpu_running_def stack_available_def)
  show "waiting example_wait_list example_waiting [0x4000]"
    by (simp add: waiting_def tq_ok_def tq_rep_def example_wait_list_def example_waiting_def new_control_block_def)
  show "k_cpuCount example_waiting = 1" "currentTask 0 example_waiting = 0x1000" "goes_first 0 0x4000 example_waiting"
    by (simp_all add: example_waiting_def goes_first_def currentTask_def)
qed


section \<open>Completion: lemmas\<close>

definition completion_ok :: "completion \<Rightarrow> kernel \<Rightarrow> ptr list \<Rightarrow> bool" where
  "completion_ok p k ws \<longleftrightarrow>
     \<not> locked (cp_lock p) \<and> waiting (cp_waitingTasks p) k ws \<and> (ws \<noteq> [] \<longrightarrow> \<not> cp_completed p)"

text \<open>The ready list after the tasks \<open>vs\<close> have been added one by one.\<close>

definition woken :: "kernel \<Rightarrow> ptr list \<Rightarrow> ptr list \<Rightarrow> ptr list" where
  "woken k xs vs = foldl (\<lambda>ys v. abs_add (goes_first 0 v k) ys v) xs vs"

lemma set_woken: "set (woken k xs vs) = set xs \<union> set vs"
  unfolding woken_def by (induction vs arbitrary: xs) (auto simp: abs_add_def)

lemma addTask_postponed:
  assumes ok: "cpu_ok 0 k xs" and v: "v \<noteq> nullptr" "v \<notin> set xs" "v \<noteq> currentTask 0 k" "\<not> locked (cb_runLock (k_tcb k v))"
    and lk: "\<not> locked (sc_addTaskLock (k_sched k 0))" "sc_cpuNumber (k_sched k 0) = 0"
    and n: "k_cpuCount k \<le> 1" and l: "sc_yieldLocked (k_sched k 0)"
  shows "\<exists>k'. addTask 0 v k = Inr (Returned, k') \<and> cpu_ok 0 k' (abs_add (goes_first 0 v k) xs v) \<and>
           currentTask 0 k' = currentTask 0 k \<and> cpu_running 0 k' = cpu_running 0 k \<and>
           (\<forall>x. cb_priority (k_tcb k' x) = cb_priority (k_tcb k x)) \<and> (\<forall>x. x \<notin> insert v (set xs) \<longrightarrow> k_tcb k' x = k_tcb k x) \<and>
           \<not> locked (sc_addTaskLock (k_sched k' 0)) \<and> sc_cpuNumber (k_sched k' 0) = 0 \<and> k_cpuCount k' \<le> 1 \<and>
           sc_yieldLocked (k_sched k' 0) \<and> sc_yieldPostponed (k_sched k' 0) = (sc_yieldPostponed (k_sched k 0) \<or> goes_first 0 v k) \<and>
           k_regs k' = k_regs k"
proof -
  from sched_addTask_local [OF ok v lk] obtain k1 where
    run: "sched_addTask 0 0 v k = (if goes_first 0 v k then sched_yield 0 0 k1 else Inr (Returned, k1))" and k1:
    "cpu_ok 0 k1 (abs_add (goes_first 0 v k) xs v)" "currentTask 0 k1 = currentTask 0 k" "cpu_running 0 k1 = cpu_running 0 k"
    "\<forall>x. cb_priority (k_tcb k1 x) = cb_priority (k_tcb k x)" "k_regs k1 = k_regs k" and fr: "cpu_frame 0 (insert v (set xs)) k k1" by blast
  let ?k' = "if goes_first 0 v k then upd_sched 0 (\<lambda>s. s\<lparr>sc_yieldPostponed := True\<rparr>) k1 else k1"
  have "addTask 0 v k = Inr (Returned, ?k')"
    using run cpu_frameD(2) [OF fr] l n by (simp add: addTask_uniprocessor sched_yield_def)
  moreover have "cpu_ok 0 ?k' (abs_add (goes_first 0 v k) xs v)"
    using k1(1) by (cases "goes_first 0 v k") (simp_all add: cpu_ok_def currentTask_def)
  ultimately show ?thesis
    using k1 cpu_frameD [OF fr] lk n l by (intro exI [of _ ?k']) (simp add: currentTask_def cpu_running_def)
qed

lemma signalLoop_ok:
  assumes "cpu_ok 0 k xs" and "\<not> locked (sc_addTaskLock (k_sched k 0))" "sc_cpuNumber (k_sched k 0) = 0"
    and "k_cpuCount k \<le> 1" and "sc_yieldLocked (k_sched k 0)"
    and "waiting q k (tl vs)" and "distinct vs" and "set vs \<inter> set (nullptr # currentTask 0 k # xs) = {}"
    and "\<forall>v \<in> set vs. \<not> locked (cb_runLock (k_tcb k v))" and "length vs \<le> fuel"
  shows "\<exists>q' k'. signalLoop fuel 0 (case vs of [] \<Rightarrow> nullptr | v # _ \<Rightarrow> v) (q, k) = Inr (q', k') \<and> waiting q' k' [] \<and>
           cpu_ok 0 k' (woken k xs vs) \<and> currentTask 0 k' = currentTask 0 k \<and> cpu_running 0 k' = cpu_running 0 k \<and>
           sc_yieldPostponed (k_sched k' 0) = (sc_yieldPostponed (k_sched k 0) \<or> (\<exists>v \<in> set vs. goes_first 0 v k)) \<and>
           k_regs k' = k_regs k"
  using assms
proof (induction vs arbitrary: k xs q fuel)
  case Nil
  then show ?case by (simp add: signalLoop.simps woken_def)
next
  case (Cons v vs)
  from Cons.prems(10) obtain f where f: "fuel = Suc f" "length vs \<le> f" by (cases fuel) auto
  from Cons.prems(8,9) have v: "v \<noteq> nullptr" "v \<notin> set xs" "v \<noteq> currentTask 0 k" "\<not> locked (cb_runLock (k_tcb k v))" by auto
  from addTask_postponed [OF Cons.prems(1) v Cons.prems(2-5)] obtain k1 where
    add: "addTask 0 v k = Inr (Returned, k1)" and ok1: "cpu_ok 0 k1 (abs_add (goes_first 0 v k) xs v)" and
    cur: "currentTask 0 k1 = currentTask 0 k" "cpu_running 0 k1 = cpu_running 0 k" and
    prio: "\<And>x. cb_priority (k_tcb k1 x) = cb_priority (k_tcb k x)" and
    fr: "\<And>x. x \<notin> insert v (set xs) \<Longrightarrow> k_tcb k1 x = k_tcb k x" and
    s1: "\<not> locked (sc_addTaskLock (k_sched k1 0))" "sc_cpuNumber (k_sched k1 0) = 0" "k_cpuCount k1 \<le> 1" "sc_yieldLocked (k_sched k1 0)"
    and p1: "sc_yieldPostponed (k_sched k1 0) = (sc_yieldPostponed (k_sched k 0) \<or> goes_first 0 v k)" "k_regs k1 = k_regs k" by blast
  have vs: "x \<notin> insert v (set xs)" if "x \<in> set vs" for x using that Cons.prems(7,8) by auto
  have "waiting q k1 vs" using Cons.prems(6) by (intro waiting_cong [of q k vs k1]) (use fr vs in auto)
  from on_queue_pop [OF this, of 0] obtain q1 where
    pop: "on_queue 0 tq_pop q k1 = Inr (case vs of [] \<Rightarrow> nullptr | w # _ \<Rightarrow> w, q1, k1)" and w1: "waiting q1 k1 (tl vs)" by blast
  have gf: "goes_first 0 x k1 = goes_first 0 x k" for x by (simp add: goes_first_def cur prio)
  have dj: "set vs \<inter> set (nullptr # currentTask 0 k1 # abs_add (goes_first 0 v k) xs v) = {}"
    using Cons.prems(7,8) by (auto simp: cur abs_add_def)
  have rl: "\<forall>x \<in> set vs. \<not> locked (cb_runLock (k_tcb k1 x))" using Cons.prems(9) fr vs by auto
  have "distinct vs" using Cons.prems(7) by simp
  from Cons.IH [OF ok1 s1 w1 this dj rl f(2)] obtain q' k' where
    "signalLoop f 0 (case vs of [] \<Rightarrow> nullptr | v # _ \<Rightarrow> v) (q1, k1) = Inr (q', k')" "waiting q' k' []"
    "cpu_ok 0 k' (woken k xs (v # vs))" "currentTask 0 k' = currentTask 0 k" "cpu_running 0 k' = cpu_running 0 k"
    "sc_yieldPostponed (k_sched k' 0) = (sc_yieldPostponed (k_sched k 0) \<or> (\<exists>x \<in> set (v # vs). goes_first 0 x k))"
    "k_regs k' = k_regs k"
    by (auto simp: gf cur p1 woken_def)
  moreover from this(1) add pop v(1) f(1) have "signalLoop fuel 0 v (q, k) = Inr (q', k')"
    by (simp add: signalLoop.simps [of "Suc f"])
  ultimately show ?case by simp
qed

lemma cpu_ok_upd_flags [simp]:
  "cpu_ok c (upd_sched c (\<lambda>s. s\<lparr>sc_yieldLocked := a, sc_yieldPostponed := b\<rparr>) k) xs = cpu_ok c k xs"
  "cpu_ok c (upd_sched c (\<lambda>s. s\<lparr>sc_yieldLocked := a\<rparr>) k) xs = cpu_ok c k xs"
  "cpu_ok c (upd_sched c (\<lambda>s. s\<lparr>sc_yieldPostponed := b\<rparr>) k) xs = cpu_ok c k xs"
  by (simp_all add: cpu_ok_def currentTask_def)

lemma unlock_scheduler_ok:
  assumes ok: "cpu_ok c k ys" and run: "cpu_running c k" and ne: "sc_yieldPostponed (k_sched k c) \<Longrightarrow> ys \<noteq> []"
  shows "\<exists>k'. unlock_scheduler c k = Inr (if sc_yieldPostponed (k_sched k c) then Switched else Returned, k') \<and>
           (if sc_yieldPostponed (k_sched k c)
            then currentTask c k' = hd ys \<and> cpu_ok c k' (tl ys @ [currentTask c k])
            else currentTask c k' = currentTask c k \<and> cpu_ok c k' ys \<and> k_regs k' = k_regs k)"
proof (cases "sc_yieldPostponed (k_sched k c)")
  case True
  let ?k2 = "upd_sched c (\<lambda>s. s\<lparr>sc_yieldPostponed := False\<rparr>) (upd_sched c (\<lambda>s. s\<lparr>sc_yieldLocked := False\<rparr>) k)"
  from ne [OF True] obtain y ys' where ys: "ys = y # ys'" by (cases ys) auto
  have "cpu_ok c ?k2 ys" using ok by simp
  moreover have "\<not> sc_yieldLocked (k_sched ?k2 c)" by simp
  moreover have v: "currentTask c ?k2 = currentTask c k" "cpu_running c ?k2"
    using run by (simp_all add: currentTask_def cpu_running_def)
  moreover have "currentTask c k \<noteq> nullptr" using run by (simp add: cpu_running_def)
  ultimately obtain k' where "yield c ?k2 = Inr (Switched, k')" "cpu_ok c k' (ys' @ [currentTask c k])" "currentTask c k' = y"
    using yield_abs [of c ?k2 ys y True "ys' @ [currentTask c k]"] ys by (auto simp: yield_outcome_def)
  with True ys show ?thesis by (auto simp: unlock_scheduler_def sched_unlock_def yield_def)
next
  case False
  then show ?thesis using ok by (simp add: unlock_scheduler_def sched_unlock_def currentTask_def)
qed

lemma waiting_nil_tcb: "waiting q k [] \<Longrightarrow> waiting q k' []"
  using waiting_cong [of q k "[]" k'] by simp

lemma signalComplete_ok:
  assumes p: "completion_ok p k ws" and k: "cpu_ready 0 k xs" "k_cpuCount k \<le> 1"
    and dj: "set ws \<inter> set (currentTask 0 k # xs) = {}" and len: "length ws < 2 ^ 32"
  shows "\<exists>p' k'. signalComplete 0 (p, k) = Inr (if \<exists>w \<in> set ws. goes_first 0 w k then Switched else Returned, p', k') \<and>
           cp_completed p' \<and> waiting (cp_waitingTasks p') k' [] \<and>
           (if \<exists>w \<in> set ws. goes_first 0 w k
            then locked (cp_lock p') \<and> currentTask 0 k' = hd (woken k xs ws) \<and> cpu_ok 0 k' (tl (woken k xs ws) @ [currentTask 0 k])
            else \<not> locked (cp_lock p') \<and> currentTask 0 k' = currentTask 0 k \<and> cpu_ok 0 k' (woken k xs ws))"
proof -
  let ?b = "localIrqState 0 k"
  let ?k1 = "set_irq 0 False k"
  let ?l1 = "(cp_lock p)\<lparr>sl_lock := 1, sl_enableIrqs := ?b\<rparr>"
  have w: "waiting (cp_waitingTasks p) k ws" using p by (simp add: completion_ok_def)
  then have "waiting (cp_waitingTasks p) ?k1 ws" by simp
  from on_queue_pop [OF this, of 0] obtain q where
    pop: "on_queue 0 tq_pop (cp_waitingTasks p) ?k1 = Inr (case ws of [] \<Rightarrow> nullptr | w # _ \<Rightarrow> w, q, ?k1)" and q: "waiting q k (tl ws)"
    by auto
  let ?k2 = "lock_scheduler 0 ?k1"
  have k2: "k_tcb ?k2 = k_tcb k" "currentTask 0 ?k2 = currentTask 0 k" "cpu_ok 0 ?k2 xs" "cpu_running 0 ?k2"
    "\<not> locked (sc_addTaskLock (k_sched ?k2 0))" "sc_cpuNumber (k_sched ?k2 0) = 0" "k_cpuCount ?k2 \<le> 1"
    "sc_yieldLocked (k_sched ?k2 0)" "\<not> sc_yieldPostponed (k_sched ?k2 0)" "k_regs ?k2 = k_regs ?k1"
    using k by (simp_all add: lock_scheduler_def sched_lock_def cpu_ready_def currentTask_def cpu_running_def)
  have gf: "goes_first 0 x ?k2 = goes_first 0 x k" for x
    using k(1) k2(1,2,4) by (simp add: goes_first_def cpu_ready_def)
  have "tq_size q = of_nat (length (tl ws))" using q by (simp add: waiting_def tq_ok_def tq_rep_def)
  then have fuel: "length ws \<le> Suc (unat (tq_size q))"
    using len by (simp add: unat_of_nat_small)
  have ws: "distinct ws" "nullptr \<notin> set ws" "\<forall>v \<in> set ws. \<not> locked (cb_runLock (k_tcb ?k2 v))"
    using w by (auto simp: waiting_def tq_ok_def tq_rep_def k2(1))
  have dj2: "set ws \<inter> set (nullptr # currentTask 0 ?k2 # xs) = {}" using dj ws(2) by (auto simp: k2(2))
  have "waiting q ?k2 (tl ws)" by (rule waiting_cong [OF q]) (simp add: k2(1))
  from signalLoop_ok [OF k2(3,5-8) this ws(1) dj2 ws(3) fuel] obtain q' k3 where
    loop: "signalLoop (Suc (unat (tq_size q))) 0 (case ws of [] \<Rightarrow> nullptr | w # _ \<Rightarrow> w) (q, ?k2) = Inr (q', k3)" and
    k3: "waiting q' k3 []" "cpu_ok 0 k3 (woken k xs ws)" "currentTask 0 k3 = currentTask 0 k" "cpu_running 0 k3"
      "sc_yieldPostponed (k_sched k3 0) = (\<exists>v \<in> set ws. goes_first 0 v k)" "k_regs k3 = k_regs ?k1"
    using k2(2,4,9,10) by (auto simp: gf woken_def)
  let ?f = "\<exists>w \<in> set ws. goes_first 0 w k"
  have "sc_yieldPostponed (k_sched k3 0) \<Longrightarrow> woken k xs ws \<noteq> []"
    using set_woken [of k xs ws] k3(5) by auto
  from unlock_scheduler_ok [OF k3(2,4) this] obtain k4 where
    unl: "unlock_scheduler 0 k3 = Inr (if ?f then Switched else Returned, k4)" and
    k4: "if ?f then currentTask 0 k4 = hd (woken k xs ws) \<and> cpu_ok 0 k4 (tl (woken k xs ws) @ [currentTask 0 k])
         else currentTask 0 k4 = currentTask 0 k \<and> cpu_ok 0 k4 (woken k xs ws) \<and> k_regs k4 = k_regs ?k1"
    unfolding k3(3,5,6) by blast
  let ?p1 = "p\<lparr>cp_lock := ?l1, cp_waitingTasks := q', cp_completed := True\<rparr>"
  have run: "signalComplete 0 (p, k) = (if ?f then Inr (Switched, ?p1, k4)
      else (let (l2, k5) = unlock_spin 0 ?l1 k4 in Inr (Returned, ?p1\<lparr>cp_lock := l2\<rparr>, k5)))"
    using p pop loop unl by (simp add: signalComplete_def completion_ok_def lock_spin_ok del: rbind_eq_Inr)
  have "waiting q' k4 []" by (rule waiting_nil_tcb [OF k3(1)])
  moreover have "\<not> localIrqState 0 k4" if "\<not> ?f"
    using that k4 localIrqState_set_irq [of 0 False k] by (simp add: localIrqState_def)
  ultimately show ?thesis
    using run k4 by (cases ?f) (simp_all add: unlock_spin_ok)
qed

section \<open>Completion: properties\<close>


definition example_completion :: completion where
  "example_completion = \<lparr>cp_lock = spinlock_init, cp_waitingTasks = example_wait_list, cp_completed = False\<rparr>"


text \<open>
  A completion left locked (a defect of the code): when \<^verbatim>\<open>signalComplete\<close> wakes a task more important
  than the signalling one, it switches to that task inside \<^verbatim>\<open>scheduler::unlock()\<close>, before
  \<^verbatim>\<open>lock.release()\<close>, although \<^verbatim>\<open>yield\<close> must not be called with a spinlock held. If the woken task then
  calls \<^verbatim>\<open>await\<close> on the same completion, it spins for ever with interrupts disabled instead of returning.
\<close>

theorem signalComplete_switches_with_lock_held:
  assumes "completion_ok p k ws" and "cpu_ready 0 k xs" and "k_cpuCount k \<le> 1"
    and "set ws \<inter> set (currentTask 0 k # xs) = {}" and "length ws < 2 ^ 32" and "w \<in> set ws" and "goes_first 0 w k"
  shows "\<exists>p' k'. signalComplete 0 (p, k) = Inr (Switched, p', k') \<and> currentTask 0 k' = hd (woken k xs ws) \<and>
           locked (cp_lock p') \<and> await 0 (p', k') = Inl Deadlock"
proof -
  have f: "\<exists>w \<in> set ws. goes_first 0 w k" using assms(6,7) by blast
  from signalComplete_ok [OF assms(1-5)] f show ?thesis
    by (fastforce simp: await_def lock_spin_taken)
qed

theorem signalComplete_switches_with_lock_held_witness:
  "\<exists>p' k'. signalComplete 0 (example_completion, example_waiting) = Inr (Switched, p', k') \<and> currentTask 0 k' = 0x4000 \<and>
     locked (cp_lock p') \<and> await 0 (p', k') = Inl Deadlock"
  using signalComplete_switches_with_lock_held [of example_completion example_waiting "[0x4000]" "[0x2000]" "0x4000"] example_waiting_ok
  by (simp add: completion_ok_def example_completion_def woken_def abs_add_def)

text \<open>
  \<^verbatim>\<open>Completion::await\<close>: a completed completion lets the caller go on at once and changes nothing; on an
  incomplete one the caller is blocked at the end of the waiting list and another task runs.
\<close>

theorem await_correct:
  assumes "completion_ok p k ws" and "cpu_ready c k xs" and "set ws \<inter> set (currentTask c k # xs) = {}"
  shows "if cp_completed p
         then \<exists>p'. await c (p, k) = Inr (Returned, p', k) \<and> completion_ok p' k ws \<and> cp_completed p'
         else \<exists>p' k'. await c (p, k) = Inr (yield_outcome False xs, p', k') \<and>
                completion_ok p' k' (ws @ [currentTask c k]) \<and> cpu_ok c k' (tl xs) \<and>
                currentTask c k' = (case xs of [] \<Rightarrow> nullptr | x # _ \<Rightarrow> x)"
proof (cases "cp_completed p")
  case True
  then show ?thesis using assms(1)
    by (auto simp: await_def completion_ok_def lock_spin_ok unlock_spin_ok set_irq_same)
next
  case False
  let ?b = "localIrqState c k"
  let ?k1 = "set_irq c False k"
  have "waiting (cp_waitingTasks p) ?k1 ws" using assms(1) by (simp add: completion_ok_def)
  then obtain q' k2 k' where
    w: "wait_on c (cp_waitingTasks p) ?k1 = Inr (q', k2)" "localIrqState c k2 = localIrqState c ?k1"
    and y: "yield c (set_irq c ?b k2) = Inr (yield_outcome False xs, k')"
    and r: "waiting q' k' (ws @ [currentTask c k])" "cpu_ok c k' (tl xs)"
      "currentTask c k' = (case xs of [] \<Rightarrow> nullptr | x # _ \<Rightarrow> x)"
    using block_and_yield [of c ?k1 xs "cp_waitingTasks p" ws ?b] assms(2,3) by (auto simp: cpu_ready_def)
  have "await c (p, k) = Inr (yield_outcome False xs,
      p\<lparr>cp_lock := (cp_lock p)\<lparr>sl_lock := 0, sl_enableIrqs := ?b\<rparr>, cp_waitingTasks := q'\<rparr>, k')"
    using assms(1) False w y by (simp add: await_def completion_ok_def lock_spin_ok unlock_spin_ok)
  with r False show ?thesis by (simp add: completion_ok_def)
qed

theorem await_correct_witness:
  "\<exists>p' k'. await 0 (completion_init, example_kernel 0x1000 [0x2000]) = Inr (yield_outcome False [0x2000], p', k') \<and>
     completion_ok p' k' ([] @ [0x1000]) \<and> cpu_ok 0 k' [] \<and> currentTask 0 k' = 0x2000"
  using await_correct [of completion_init "example_kernel 0x1000 [0x2000]" "[]" 0 "[0x2000]"]
  by (simp add: completion_ok_def completion_init_def cpu_ready_def stack_available_def)

end
