(* ===== verification/Blocking_Queue.thy ===== *)
theory Blocking_Queue
  imports Blocking
begin

text \<open>
  The blocking queue \<^verbatim>\<open>util::Queue\<close> (\<^verbatim>\<open>queue.h\<close>), the cleaner thread that consumes one
  (\<^verbatim>\<open>memory/cleaner.cpp\<close>), and the creation and destruction of threads
  (\<^verbatim>\<open>arch/x86_64/kernel/scheduler/threadCreator.cpp\<close>, \<^verbatim>\<open>threadDestroyer.cpp\<close>), which use them. Queue elements
  live in a heap of their own; the address that \<^verbatim>\<open>operator new\<close> returns is an argument of the operations
  that allocate.
\<close>

section \<open>The queue\<close>

record 'a element =
  el_value :: 'a
  el_next :: ptr

type_synonym 'a element_heap = "ptr \<Rightarrow> 'a element"

record blocking_queue =
  bq_lock :: spinlock
  bq_waitingTasks :: task_queue
  bq_head :: ptr
  bq_tail :: ptr

type_synonym 'a queue_state = "blocking_queue \<times> 'a element_heap \<times> kernel"

definition bq_init :: blocking_queue where
  "bq_init = \<lparr>bq_lock = spinlock_init, bq_waitingTasks = task_queue_init, bq_head = nullptr, bq_tail = nullptr\<rparr>"

text \<open>\<open>e\<close> is what \<^verbatim>\<open>new QueueElement<T>()\<close> returns.\<close>

definition bq_push :: "nat \<Rightarrow> ptr \<Rightarrow> 'a \<Rightarrow> 'a queue_state \<Rightarrow> (control \<times> 'a queue_state) result" where
  "bq_push c e v = (\<lambda>(q, eh, k).
     if e = nullptr then Inl NullDereference
     else
       (let eh1 = eh(e := \<lparr>el_value = v, el_next = nullptr\<rparr>)
        in rbind (lock_spin c (bq_lock q) k) (\<lambda>(l1, k1).
             if bq_tail q \<noteq> nullptr then
               (let eh2 = eh1(bq_tail q := (eh1 (bq_tail q))\<lparr>el_next := e\<rparr>);
                    (l2, k2) = unlock_spin c l1 k1
                in Inr (Returned, q\<lparr>bq_tail := e, bq_lock := l2\<rparr>, eh2, k2))
             else
               rbind (on_queue c tq_pop (bq_waitingTasks q) k1) (\<lambda>(wokenUpTask, w, k2).
                 (let (l2, k3) = unlock_spin c l1 k2;
                      q' = q\<lparr>bq_head := e, bq_tail := e, bq_waitingTasks := w, bq_lock := l2\<rparr>
                  in if wokenUpTask \<noteq> nullptr
                     then rbind (addTask c wokenUpTask k3) (\<lambda>(ctl, k4). Inr (ctl, q', eh1, k4))
                     else Inr (Returned, q', eh1, k3))))))"

text \<open>The second half of \<^verbatim>\<open>pop\<close>, with the lock held: take the head, unlock, read the element.\<close>

definition bq_take :: "nat \<Rightarrow> 'a queue_state \<Rightarrow> ('a \<times> 'a queue_state) result" where
  "bq_take c = (\<lambda>(q, eh, k).
     (let headElement = bq_head q;
          q1 = (if bq_head q = bq_tail q then q\<lparr>bq_head := nullptr, bq_tail := nullptr\<rparr>
                else q\<lparr>bq_head := el_next (eh (bq_head q))\<rparr>);
          (l2, k2) = unlock_spin c (bq_lock q1) k
      in if headElement = nullptr then Inl NullDereference
         else Inr (el_value (eh headElement), q1\<lparr>bq_lock := l2\<rparr>, eh, k2)))"

datatype 'a popped = Blocked control | Got 'a

text \<open>\<^verbatim>\<open>pop\<close> up to its return or up to the switch to another task.\<close>

definition bq_pop :: "nat \<Rightarrow> 'a queue_state \<Rightarrow> ('a popped \<times> 'a queue_state) result" where
  "bq_pop c = (\<lambda>(q, eh, k).
     rbind (lock_spin c (bq_lock q) k) (\<lambda>(l1, k1).
       if bq_head q = nullptr then
         rbind (wait_on c (bq_waitingTasks q) k1) (\<lambda>(w, k2).
           (let (l2, k3) = unlock_spin c l1 k2
            in rbind (yield c k3) (\<lambda>(ctl, k4).
                 Inr (Blocked ctl, q\<lparr>bq_lock := l2, bq_waitingTasks := w\<rparr>, eh, k4))))
       else rbind (bq_take c (q\<lparr>bq_lock := l1\<rparr>, eh, k1)) (\<lambda>(v, s). Inr (Got v, s))))"

text \<open>\<^verbatim>\<open>pop\<close> after its \<^verbatim>\<open>yield\<close> has returned: the lock is taken again, the head is not tested again.\<close>

definition bq_pop_resume :: "nat \<Rightarrow> 'a queue_state \<Rightarrow> ('a \<times> 'a queue_state) result" where
  "bq_pop_resume c = (\<lambda>(q, eh, k).
     rbind (lock_spin c (bq_lock q) k) (\<lambda>(l1, k1). bq_take c (q\<lparr>bq_lock := l1\<rparr>, eh, k1)))"

section \<open>The cleaner\<close>

text \<open>An object to clean and the handler that does it; handlers are numbered.\<close>

record cleaner_object =
  co_object :: ptr
  co_handler :: ptr

definition addObject ::
  "nat \<Rightarrow> ptr \<Rightarrow> ptr \<Rightarrow> ptr \<Rightarrow> cleaner_object queue_state \<Rightarrow> (control \<times> cleaner_object queue_state) result" where
  "addObject c e object handler = bq_push c e \<lparr>co_object = object, co_handler = handler\<rparr>"

text \<open>One round of \<^verbatim>\<open>cleanerThread\<close>, given what the handlers do; blocked if there is nothing to clean.\<close>

definition cleanerRound ::
  "nat \<Rightarrow> (ptr \<Rightarrow> ptr \<Rightarrow> kernel \<Rightarrow> kernel result) \<Rightarrow> cleaner_object queue_state \<Rightarrow>
   (unit popped \<times> cleaner_object queue_state) result" where
  "cleanerRound c handle s =
     rbind (bq_pop c s) (\<lambda>(r, q, eh, k).
       case r of
         Blocked ctl \<Rightarrow> Inr (Blocked ctl, q, eh, k)
       | Got x \<Rightarrow> rbind (handle (co_handler x) (co_object x) k) (\<lambda>k1. Inr (Got (), q, eh, k1)))"

section \<open>Threads\<close>

definition thread_block :: "ptr \<Rightarrow> ptr \<Rightarrow> u32 \<Rightarrow> ptr \<Rightarrow> ptr \<Rightarrow> control_block" where
  "thread_block entrypoint ctx priority stack pageTable =
     new_control_block\<lparr>cb_originalStackPointer := stack, cb_priority := priority,
       cb_registers := zero_registers\<lparr>rip := entrypoint, rdi := ctx, rflags := 0x200, rsp := stack, cr3 := pageTable\<rparr>\<rparr>"

text \<open>\<open>task\<close> is what \<^verbatim>\<open>new task::ControlBlock()\<close> returns.\<close>

definition thread_create :: "nat \<Rightarrow> ptr \<Rightarrow> ptr \<Rightarrow> u32 \<Rightarrow> ptr \<Rightarrow> kernel \<Rightarrow> (control \<times> kernel) result" where
  "thread_create c entrypoint ctx priority task k =
     (case k_stacks k of
        [] \<Rightarrow> Inl (Panic ''Out of memory'')
      | stack # ss \<Rightarrow>
          if task = nullptr then Inl NullDereference
          else addTask c task (k\<lparr>k_stacks := ss,
                 k_tcb := (k_tcb k)(task := thread_block entrypoint ctx priority stack (cr3 (k_regs k c)))\<rparr>))"

definition cleaner_init :: "nat \<Rightarrow> ptr \<Rightarrow> ptr \<Rightarrow> kernel \<Rightarrow> (control \<times> kernel) result" where
  "cleaner_init c cleanerThread task k = thread_create c cleanerThread nullptr 1 task k"

text \<open>The handler of a destroyed thread: wait for its run lock, then the stack that is freed (null for none).\<close>

definition destructionCode :: "nat \<Rightarrow> ptr \<Rightarrow> kernel \<Rightarrow> (ptr \<times> kernel) result" where
  "destructionCode c t k =
     rbind (lockTask c t k) (\<lambda>k1.
       (let k2 = unlockTask c t k1 in Inr (cb_originalStackPointer (k_tcb k2 t), k2)))"

text \<open>
  \<^verbatim>\<open>thread::destroy\<close>. If \<^verbatim>\<open>cleaner::addObject\<close> switches to the woken cleaner thread the rest is never run.
\<close>

definition thread_destroy ::
  "nat \<Rightarrow> ptr \<Rightarrow> ptr \<Rightarrow> cleaner_object queue_state \<Rightarrow> (control \<times> cleaner_object queue_state) result" where
  "thread_destroy c e handler = (\<lambda>(q, eh, k).
     rbind (block_current c (disableLocalIrqs c k)) (\<lambda>(t, k1).
     rbind (addObject c e t handler (q, eh, k1)) (\<lambda>(ctl, q2, eh2, k2).
       if ctl \<noteq> Returned then Inr (ctl, q2, eh2, k2)
       else rbind (yield c k2) (\<lambda>(ctl', k3).
              if ctl' = Returned then Inl (Panic ''thread::destroy somehow returned!?'') else Inr (ctl', q2, eh2, k3)))))"

section \<open>The list a queue stands for\<close>

fun echain :: "'a element_heap \<Rightarrow> ptr list \<Rightarrow> bool" where
  "echain eh [] = True"
| "echain eh (x # es) = ((es = [] \<or> el_next (eh x) = hd es) \<and> echain eh es)"

definition bq_rep :: "blocking_queue \<Rightarrow> 'a element_heap \<Rightarrow> ptr list \<Rightarrow> bool" where
  "bq_rep q eh es \<longleftrightarrow>
     echain eh es \<and> distinct es \<and> nullptr \<notin> set es \<and>
     (if es = [] then bq_head q = nullptr \<and> bq_tail q = nullptr else bq_head q = hd es \<and> bq_tail q = last es)"

definition bq_ok :: "'a queue_state \<Rightarrow> ptr list \<Rightarrow> ptr list \<Rightarrow> bool" where
  "bq_ok = (\<lambda>(q, eh, k) es ws. \<not> locked (bq_lock q) \<and> waiting (bq_waitingTasks q) k ws \<and> bq_rep q eh es)"

definition contents :: "'a element_heap \<Rightarrow> ptr list \<Rightarrow> 'a list" where
  "contents eh es = map (\<lambda>e. el_value (eh e)) es"

lemma echain_snoc:
  "echain eh es \<Longrightarrow> distinct es \<Longrightarrow> e \<notin> set es \<Longrightarrow> es \<noteq> [] \<Longrightarrow>
     echain (eh(e := x, last es := y\<lparr>el_next := e\<rparr>)) (es @ [e])"
  by (induction es) auto

lemma echain_cong: "(\<And>x. x \<in> set es \<Longrightarrow> eh x = eh' x) \<Longrightarrow> echain eh es = echain eh' es"
  by (induction es) auto

lemma bq_rep_ends:
  assumes "bq_rep q eh es"
  shows "bq_tail q = nullptr \<longleftrightarrow> es = []" "bq_head q = nullptr \<longleftrightarrow> es = []"
  using assms by (auto simp: bq_rep_def split: if_splits) (metis last_in_set hd_in_set)+

lemma bq_rep_lock [simp]:
  "bq_rep (q\<lparr>bq_lock := l\<rparr>) eh es = bq_rep q eh es"
  "bq_rep (q\<lparr>bq_waitingTasks := w\<rparr>) eh es = bq_rep q eh es"
  by (simp_all add: bq_rep_def)

lemma bq_push_nonempty:
  assumes ok: "bq_ok (q, eh, k) es ws" and "es \<noteq> []" and e: "e \<noteq> nullptr" "e \<notin> set es"
  shows "\<exists>q' eh'. bq_push c e v (q, eh, k) = Inr (Returned, q', eh', k) \<and> bq_ok (q', eh', k) (es @ [e]) ws \<and>
           contents eh' (es @ [e]) = contents eh es @ [v]"
proof -
  from ok have r: "\<not> locked (bq_lock q)" "bq_rep q eh es" by (simp_all add: bq_ok_def)
  from bq_rep_ends(1) [OF r(2)] assms(2) have t: "bq_tail q \<noteq> nullptr" by simp
  from r(2) assms(2) have last: "bq_tail q = last es" "last es \<noteq> e" "last es \<in> set es"
    using e(2) by (auto simp: bq_rep_def)
  let ?eh1 = "eh(e := \<lparr>el_value = v, el_next = nullptr\<rparr>)"
  let ?eh2 = "?eh1(last es := (?eh1 (last es))\<lparr>el_next := e\<rparr>)"
  let ?q' = "q\<lparr>bq_tail := e, bq_lock := (bq_lock q)\<lparr>sl_lock := 0, sl_enableIrqs := localIrqState c k\<rparr>\<rparr>"
  have "bq_push c e v (q, eh, k) = Inr (Returned, ?q', ?eh2, k)"
    using e(1) t r(1) last(1) by (simp add: bq_push_def lock_spin_ok unlock_spin_ok set_irq_same)
  moreover have "bq_rep ?q' ?eh2 (es @ [e])"
    using r(2) e assms(2) echain_snoc [of eh es e] by (auto simp: bq_rep_def)
  moreover have "contents ?eh2 (es @ [e]) = contents eh es @ [v]"
    using e(2) last(2) by (auto simp: contents_def)
  ultimately show ?thesis using ok by (intro exI [of _ ?q'] exI [of _ ?eh2]) (simp add: bq_ok_def)
qed

lemma bq_push_empty:
  assumes ok: "bq_ok (q, eh, k) [] ws" and e: "e \<noteq> nullptr"
  shows "\<exists>q' eh'. bq_push c e v (q, eh, k) =
             (case ws of [] \<Rightarrow> Inr (Returned, q', eh', k)
              | w # _ \<Rightarrow> rbind (addTask c w k) (\<lambda>(ctl, k4). Inr (ctl, q', eh', k4))) \<and>
           bq_ok (q', eh', k) [e] (tl ws) \<and> contents eh' [e] = [v]"
proof -
  from ok have r: "\<not> locked (bq_lock q)" "bq_rep q eh []" "waiting (bq_waitingTasks q) k ws" by (simp_all add: bq_ok_def)
  from r(3) have "waiting (bq_waitingTasks q) (set_irq c False k) ws" by simp
  from on_queue_pop [OF this, of c] obtain w' where
    pop: "on_queue c tq_pop (bq_waitingTasks q) (set_irq c False k) = Inr (case ws of [] \<Rightarrow> nullptr | w # _ \<Rightarrow> w, w', set_irq c False k)"
    and w': "waiting w' k (tl ws)" by auto
  have nn: "nullptr \<notin> set ws" using r(3) by (simp add: waiting_def tq_ok_def tq_rep_def)
  let ?eh1 = "eh(e := \<lparr>el_value = v, el_next = nullptr\<rparr>)"
  let ?q' = "q\<lparr>bq_head := e, bq_tail := e, bq_waitingTasks := w',
    bq_lock := (bq_lock q)\<lparr>sl_lock := 0, sl_enableIrqs := localIrqState c k\<rparr>\<rparr>"
  have "bq_push c e v (q, eh, k) = (case ws of [] \<Rightarrow> Inr (Returned, ?q', ?eh1, k)
      | w # _ \<Rightarrow> rbind (addTask c w k) (\<lambda>(ctl, k4). Inr (ctl, ?q', ?eh1, k4)))"
    using e r(1) pop bq_rep_ends(1) [OF r(2)] nn
    by (cases ws) (simp_all add: bq_push_def lock_spin_ok unlock_spin_ok set_irq_same del: rbind_eq_Inr)
  moreover have "bq_ok (?q', ?eh1, k) [e] (tl ws)" using w' e by (simp add: bq_ok_def bq_rep_def)
  ultimately show ?thesis by (intro exI [of _ ?q'] exI [of _ ?eh1]) (simp add: contents_def)
qed

lemma bq_take_ok:
  assumes "bq_rep q eh (x # es)" and "\<not> localIrqState c k" and "bq_lock q = l\<lparr>sl_lock := 1, sl_enableIrqs := b\<rparr>"
  shows "\<exists>q'. bq_take c (q, eh, k) = Inr (el_value (eh x), q'\<lparr>bq_lock := l\<lparr>sl_lock := 0, sl_enableIrqs := b\<rparr>\<rparr>, eh, set_irq c b k) \<and>
           bq_rep q' eh es \<and> bq_waitingTasks q' = bq_waitingTasks q"
proof -
  let ?q' = "if bq_head q = bq_tail q then q\<lparr>bq_head := nullptr, bq_tail := nullptr\<rparr> else q\<lparr>bq_head := el_next (eh (bq_head q))\<rparr>"
  have hd: "bq_head q = x" "x \<noteq> nullptr" using assms(1) by (auto simp: bq_rep_def)
  have "x = last (x # es) \<longleftrightarrow> es = []" using assms(1) last_in_set [of es] by (auto simp: bq_rep_def)
  then have "bq_rep ?q' eh es" using assms(1) by (auto simp: bq_rep_def)
  moreover have "bq_lock ?q' = bq_lock q" by simp
  ultimately show ?thesis
    using hd assms(2,3) by (intro exI [of _ ?q']) (simp add: bq_take_def unlock_spin_ok Let_def)
qed

lemma bq_pop_nonempty:
  assumes ok: "bq_ok (q, eh, k) (x # es) ws"
  shows "\<exists>q'. bq_pop c (q, eh, k) = Inr (Got (el_value (eh x)), q', eh, k) \<and>
           bq_pop_resume c (q, eh, k) = Inr (el_value (eh x), q', eh, k) \<and> bq_ok (q', eh, k) es ws"
proof -
  from ok have r: "\<not> locked (bq_lock q)" "bq_rep q eh (x # es)" by (simp_all add: bq_ok_def)
  let ?l = "(bq_lock q)\<lparr>sl_lock := 1, sl_enableIrqs := localIrqState c k\<rparr>"
  have "bq_rep (q\<lparr>bq_lock := ?l\<rparr>) eh (x # es)" using r(2) by simp
  from bq_take_ok [OF this, where l = "bq_lock q" and b = "localIrqState c k" and c = c and k = "set_irq c False k"]
  obtain q' where take: "bq_take c (q\<lparr>bq_lock := ?l\<rparr>, eh, set_irq c False k)
      = Inr (el_value (eh x), q'\<lparr>bq_lock := (bq_lock q)\<lparr>sl_lock := 0, sl_enableIrqs := localIrqState c k\<rparr>\<rparr>, eh, k)"
    and q': "bq_rep q' eh es" "bq_waitingTasks q' = bq_waitingTasks q" by (auto simp: set_irq_same)
  with r ok bq_rep_ends(2) [OF r(2)] show ?thesis
    by (simp add: bq_pop_def bq_pop_resume_def lock_spin_ok bq_ok_def del: rbind_eq_Inr)
qed

section \<open>Threads: lemmas\<close>

text \<open>A running thread that marks itself blocked leaves the CPU for good at its next yield.\<close>

lemma block_current_ok:
  assumes ok: "cpu_ok c k xs" and run: "cpu_running c k" and w: "waiting q k ws" and dj: "set ws \<inter> set (currentTask c k # xs) = {}"
  shows "\<exists>k1. block_current c (disableLocalIrqs c k) = Inr (currentTask c k, k1) \<and> cpu_ok c k1 xs \<and> waiting q k1 ws \<and>
           \<not> cpu_running c k1 \<and> currentTask c k1 = currentTask c k \<and> \<not> localIrqState c k1 \<and> k_sched k1 = k_sched k \<and>
           k_stacks k1 = k_stacks k \<and> k_cpuCount k1 = k_cpuCount k"
proof -
  let ?t = "currentTask c k"
  let ?k1 = "upd_task ?t (\<lambda>b. b\<lparr>cb_state := BLOCKING\<rparr>) (set_irq c False k)"
  have t: "?t \<noteq> nullptr" using run by (simp add: cpu_running_def)
  have "block_current c (disableLocalIrqs c k) = Inr (?t, ?k1)"
    using t by (simp add: block_current_def sched_block_def disableLocalIrqs_def currentTask_def Let_def)
  moreover have "cpu_ok c ?k1 xs"
    using ok tq_ok_cong [OF cpu_okD(1) [OF ok], of "k_tcb ?k1"] cpu_okD(6) [OF ok]
    by (auto simp: cpu_ok_def currentTask_def)
  moreover have "waiting q ?k1 ws" by (rule waiting_cong [OF w]) (use dj in auto)
  ultimately show ?thesis by (intro exI [of _ ?k1]) (auto simp: cpu_running_def currentTask_def)
qed

lemma thread_destroy_leaves:
  assumes ok: "cpu_ready 0 k xs" and n: "k_cpuCount k \<le> 1" and q: "bq_ok (q, eh, k) es ws"
    and dj: "set ws \<inter> set (currentTask 0 k # xs) = {}" and e: "e \<noteq> nullptr" "e \<notin> set es" and wl: "length ws \<le> 1"
  shows "\<exists>ctl q' eh' k'. thread_destroy 0 e handler (q, eh, k) = Inr (ctl, q', eh', k') \<and> ctl \<noteq> Returned \<and>
           contents eh' (es @ [e]) = contents eh es @ [\<lparr>co_object = currentTask 0 k, co_handler = handler\<rparr>] \<and>
           (if es = [] \<and> ws \<noteq> [] then currentTask 0 k' = hd ws \<and> cpu_ok 0 k' xs
            else currentTask 0 k' = (case xs of [] \<Rightarrow> nullptr | x # _ \<Rightarrow> x) \<and> cpu_ok 0 k' (tl xs)) \<and>
           \<not> locked (cb_runLock (k_tcb k' (currentTask 0 k)))"
proof -
  let ?t = "currentTask 0 k"
  let ?v = "\<lparr>co_object = ?t, co_handler = handler\<rparr>"
  have w: "waiting (bq_waitingTasks q) k ws" using q by (simp add: bq_ok_def)
  from block_current_ok [OF _ _ w dj] ok obtain k1 where
    blk: "block_current 0 (disableLocalIrqs 0 k) = Inr (?t, k1)" and k1: "cpu_ok 0 k1 xs" "waiting (bq_waitingTasks q) k1 ws"
      "\<not> cpu_running 0 k1" "currentTask 0 k1 = ?t" "\<not> localIrqState 0 k1" "k_sched k1 = k_sched k" "k_stacks k1 = k_stacks k"
      "k_cpuCount k1 = k_cpuCount k"
    by (auto simp: cpu_ready_def)
  have t: "?t \<noteq> nullptr" using ok by (simp add: cpu_ready_def cpu_running_def)
  have unl: "\<not> sc_yieldLocked (k_sched k1 0)" and st: "stack_available 0 k1"
    using ok k1(6,7) by (simp_all add: cpu_ready_def stack_available_def)
  have q1: "bq_ok (q, eh, k1) es ws" using q k1(2) by (simp add: bq_ok_def)
  have alone: "\<exists>k'. yield 0 k1 = Inr (yield_outcome False xs, k') \<and> cpu_ok 0 k' (tl xs) \<and>
      currentTask 0 k' = (case xs of [] \<Rightarrow> nullptr | x # _ \<Rightarrow> x) \<and> \<not> locked (cb_runLock (k_tcb k' ?t))"
  proof -
    have "abs_yield (?t, False, xs) = (case xs of [] \<Rightarrow> nullptr | x # _ \<Rightarrow> x, xs \<noteq> [], tl xs)" by (cases xs) auto
    with yield_abs [OF k1(1) unl] st k1(3,4) t show ?thesis by auto
  qed
  have quiet: ?thesis
    if push: "bq_push 0 e ?v (q, eh, k1) = Inr (Returned, q', eh', k1)" and c: "contents eh' (es @ [e]) = contents eh es @ [?v]"
      and no: "\<not> (es = [] \<and> ws \<noteq> [])" for q' eh'
  proof -
    from alone obtain k' where k': "yield 0 k1 = Inr (yield_outcome False xs, k')" "cpu_ok 0 k' (tl xs)"
      "currentTask 0 k' = (case xs of [] \<Rightarrow> nullptr | x # _ \<Rightarrow> x)" "\<not> locked (cb_runLock (k_tcb k' ?t))" by blast
    have out: "yield_outcome False xs \<noteq> Returned" by (simp add: yield_outcome_def)
    then have "thread_destroy 0 e handler (q, eh, k) = Inr (yield_outcome False xs, q', eh', k')"
      using blk push k'(1) by (simp add: thread_destroy_def addObject_def del: rbind_eq_Inr)
    with out c no k'(2-4) show ?thesis
      by (intro exI [of _ "yield_outcome False xs"] exI [of _ q'] exI [of _ eh'] exI [of _ k']) auto
  qed
  consider "es \<noteq> []" | "es = []" "ws = []" | a where "es = []" "ws = [a]"
    using wl by (cases ws; cases "tl ws") auto
  then show ?thesis
  proof cases
    case 1
    with bq_push_nonempty [OF q1 1 e, of 0 ?v] quiet show ?thesis by blast
  next
    case 2
    with bq_push_empty [of q eh k1 ws e 0 ?v] q1 e(1) obtain q' eh' where
      "bq_push 0 e ?v (q, eh, k1) = Inr (Returned, q', eh', k1)" "contents eh' [e] = [?v]" by auto
    with 2 quiet show ?thesis by (simp add: contents_def)
  next
    case (3 a)
    have a: "a \<noteq> nullptr" "a \<notin> set xs" "a \<noteq> currentTask 0 k1" "\<not> locked (cb_runLock (k_tcb k1 a))"
      using 3 k1(2,4) dj by (auto simp: waiting_def tq_ok_def tq_rep_def)
    have "goes_first 0 a k1" using k1(3) by (simp add: goes_first_def)
    have lk: "\<not> locked (sc_addTaskLock (k_sched k1 0))" "sc_cpuNumber (k_sched k1 0) = 0"
      using ok k1(6) by (simp_all add: cpu_ready_def)
    from sched_addTask_preempts [OF k1(1) a lk unl \<open>goes_first 0 a k1\<close>] k1(3) obtain k' where
      k': "addTask 0 a k1 = Inr (Switched, k')" "currentTask 0 k' = a" "cpu_ok 0 k' xs"
        "\<not> locked (cb_runLock (k_tcb k' ?t))"
      using n t k1(4,8) by (auto simp: addTask_uniprocessor)
    from bq_push_empty [of q eh k1 ws e 0 ?v] q1 e(1) 3 obtain q' eh' where
      "bq_push 0 e ?v (q, eh, k1) = rbind (addTask 0 a k1) (\<lambda>(ctl, k4). Inr (ctl, q', eh', k4))" "contents eh' [e] = [?v]"
      by auto
    with k' blk 3 show ?thesis by (simp add: thread_destroy_def addObject_def contents_def)
  qed
qed

lemma thread_block_runLock [simp]:
  "cb_runLock (thread_block e x p s pt) = spinlock_init"
  "cb_priority (thread_block e x p s pt) = p"
  by (simp_all add: thread_block_def new_control_block_def)

section \<open>Properties\<close>



text \<open>
  A consumer can be woken to an empty queue (a defect of the code): \<^verbatim>\<open>pop\<close> tests the queue only
  once. If task \<open>a\<close> waits, the pushed value wakes it, but another task pops the value before \<open>a\<close> runs, then
  \<open>a\<close>, when it resumes, reads its element through a null pointer, whatever the rest of the system did.
\<close>

theorem pop_resume_null:
  assumes "bq_ok (q, eh, k) [] [a]" and "e \<noteq> nullptr" and "cpu_ready 0 k xs" and "k_cpuCount k \<le> 1"
    and "a \<notin> set (currentTask 0 k # xs)" and "\<not> goes_first 0 a k"
  shows "\<exists>s1 q2 eh2 k2. bq_push 0 e v (q, eh, k) = Inr (Returned, s1) \<and> bq_pop 0 s1 = Inr (Got v, q2, eh2, k2) \<and>
           cpu_ok 0 k2 (xs @ [a]) \<and> bq_pop_resume c (q2, eh2, k') = Inl NullDereference"
proof -
  from bq_push_empty [OF assms(1,2), of 0 v] obtain q1 eh1 where
    push: "bq_push 0 e v (q, eh, k) = rbind (addTask 0 a k) (\<lambda>(ctl, k4). Inr (ctl, q1, eh1, k4))" and
    q1: "bq_ok (q1, eh1, k) [e] []" "contents eh1 [e] = [v]" by auto
  have a: "a \<noteq> nullptr" "a \<notin> set xs" "a \<noteq> currentTask 0 k" "\<not> locked (cb_runLock (k_tcb k a))"
    using assms(1,5) by (auto simp: bq_ok_def waiting_def tq_ok_def tq_rep_def)
  from sched_addTask_local [OF _ a] assms(3,4,6) obtain k1 where
    k1: "addTask 0 a k = Inr (Returned, k1)" "cpu_ok 0 k1 (xs @ [a])"
    by (auto simp: cpu_ready_def addTask_uniprocessor abs_add_def)
  have "bq_ok (q1, eh1, k1) [e] []" using q1(1) waiting_nil_tcb by (auto simp: bq_ok_def)
  from bq_pop_nonempty [OF this, of 0] q1(2) obtain q2 where
    q2: "bq_pop 0 (q1, eh1, k1) = Inr (Got v, q2, eh1, k1)" "bq_ok (q2, eh1, k1) [] []" by (auto simp: contents_def)
  then have "\<not> locked (bq_lock q2)" "bq_head q2 = nullptr" by (simp_all add: bq_ok_def bq_rep_def)
  then have "bq_pop_resume c (q2, eh1, k') = Inl NullDereference"
    by (simp add: bq_pop_resume_def lock_spin_ok bq_take_def unlock_spin_ok Let_def)
  with push k1 q2(1) show ?thesis by (auto simp del: rbind_eq_Inr)
qed

text \<open>An example: task 0x4000 waits on a queue and is no more important than the running task.\<close>

definition example_consumer :: kernel where
  "example_consumer = upd_task 0x4000 (\<lambda>b. b\<lparr>cb_priority := 2\<rparr>) example_waiting"

definition example_consumer_queue :: blocking_queue where
  "example_consumer_queue = bq_init\<lparr>bq_waitingTasks := example_wait_list\<rparr>"

lemma example_consumer_ok:
  "cpu_ready 0 example_consumer [0x2000]" "k_cpuCount example_consumer = 1" "currentTask 0 example_consumer = 0x1000"
  "\<not> goes_first 0 0x4000 example_consumer" "waiting example_wait_list example_consumer [0x4000]"
proof -
  have tcb: "k_tcb example_consumer = (k_tcb example_waiting)(0x4000 := (k_tcb example_waiting 0x4000)\<lparr>cb_priority := 2\<rparr>)"
    and sc: "k_sched example_consumer = k_sched example_waiting" "k_stacks example_consumer = k_stacks example_waiting"
    by (simp_all add: example_consumer_def)
  have ok: "cpu_ok 0 example_waiting [0x2000]" using example_waiting_ok(1) by (simp add: cpu_ready_def)
  show "k_cpuCount example_consumer = 1" "currentTask 0 example_consumer = 0x1000"
    using example_waiting_ok(3,4) by (simp_all add: example_consumer_def currentTask_def)
  have "tq_ok (sc_tasks (k_sched example_waiting 0)) (k_tcb example_consumer) [0x2000]"
    by (rule tq_ok_cong [OF cpu_okD(1) [OF ok]]) (simp add: tcb)
  then have "cpu_ok 0 example_consumer [0x2000]"
    using ok example_waiting_ok(4) by (simp add: cpu_ok_def sc tcb currentTask_def)
  then show "cpu_ready 0 example_consumer [0x2000]"
    using example_waiting_ok(1,4) by (simp add: cpu_ready_def sc stack_available_def cpu_running_def currentTask_def tcb)
  show "\<not> goes_first 0 0x4000 example_consumer"
    using example_waiting_ok(1,4)
    by (simp add: goes_first_def cpu_ready_def cpu_running_def currentTask_def sc tcb)
      (simp add: example_waiting_def new_control_block_def)
  show "waiting example_wait_list example_consumer [0x4000]"
    using example_waiting_ok(2) tq_ok_cong [of example_wait_list "k_tcb example_waiting" "[0x4000]" "k_tcb example_consumer"]
    by (simp add: waiting_def tcb)
qed

theorem pop_resume_null_witness:
  "\<exists>s1 q2 eh2 k2. bq_push 0 0x50 True (example_consumer_queue, \<lambda>_. \<lparr>el_value = False, el_next = 0\<rparr>, example_consumer) = Inr (Returned, s1) \<and>
     bq_pop 0 s1 = Inr (Got True, q2, eh2, k2) \<and> cpu_ok 0 k2 ([0x2000] @ [0x4000]) \<and>
     bq_pop_resume 0 (q2, eh2, example_consumer) = Inl NullDereference"
  by (rule pop_resume_null)
     (use example_consumer_ok in \<open>simp_all add: bq_ok_def bq_rep_def example_consumer_queue_def bq_init_def\<close>)

text \<open>
  New threads: \<^verbatim>\<open>thread::create\<close> on a uniprocessor makes a task that starts at the entry point with the
  context as first argument, on its own stack, in the creator's address space and with interrupts
  enabled; it runs at once if it is more important than the creator and is queued last otherwise.
\<close>

theorem thread_create_correct:
  assumes "cpu_ready 0 k xs" and "k_cpuCount k \<le> 1" and "k_stacks k = stack # ss"
    and "t \<noteq> nullptr" and "t \<notin> set (currentTask 0 k # xs)"
  shows "\<exists>ctl k'. thread_create 0 entry ctx prio t k = Inr (ctl, k') \<and>
           (if cb_priority (k_tcb k (currentTask 0 k)) < prio
            then ctl = Switched \<and> currentTask 0 k' = t \<and> cpu_ok 0 k' (xs @ [currentTask 0 k])
            else ctl = Returned \<and> currentTask 0 k' = currentTask 0 k \<and> cpu_ok 0 k' (xs @ [t]) \<and>
                 (let r = cb_registers (k_tcb k' t) in rip r = entry \<and> rdi r = ctx \<and> rsp r = stack \<and>
                    cr3 r = cr3 (k_regs k 0) \<and> bit (rflags r) 9))"
proof -
  let ?b = "thread_block entry ctx prio stack (cr3 (k_regs k 0))"
  let ?k1 = "k\<lparr>k_stacks := ss, k_tcb := (k_tcb k)(t := ?b)\<rparr>"
  have run: "thread_create 0 entry ctx prio t k = sched_addTask 0 0 t ?k1"
    using assms(2-4) by (simp add: thread_create_def addTask_uniprocessor)
  have ok: "cpu_ok 0 k xs" using assms(1) by (simp add: cpu_ready_def)
  have v: "currentTask 0 ?k1 = currentTask 0 k" "cpu_running 0 ?k1"
    using assms(1,5) by (auto simp: cpu_ready_def cpu_running_def currentTask_def)
  have "tq_ok (sc_tasks (k_sched k 0)) (k_tcb ?k1) xs"
    by (rule tq_ok_cong [OF cpu_okD(1) [OF ok]]) (use assms(5) in auto)
  then have "tq_ok (sc_tasks (k_sched ?k1 0)) (k_tcb ?k1) xs" by simp
  then have ok1: "cpu_ok 0 ?k1 xs" using ok assms(5) unfolding cpu_ok_def v(1) by auto
  have t: "t \<noteq> nullptr" "t \<notin> set xs" "t \<noteq> currentTask 0 ?k1" "\<not> locked (cb_runLock (k_tcb ?k1 t))"
    using assms(4,5) by (simp_all add: v(1))
  have lk: "\<not> locked (sc_addTaskLock (k_sched ?k1 0))" "sc_cpuNumber (k_sched ?k1 0) = 0" "\<not> sc_yieldLocked (k_sched ?k1 0)"
    using assms(1) by (simp_all add: cpu_ready_def)
  have gf: "goes_first 0 t ?k1 \<longleftrightarrow> cb_priority (k_tcb k (currentTask 0 k)) < prio"
    using assms(5) v by (auto simp: goes_first_def)
  show ?thesis
  proof (cases "goes_first 0 t ?k1")
    case True
    from sched_addTask_preempts [OF ok1 t lk True] show ?thesis using True gf v by (auto simp: run)
  next
    case False
    then have "sc_currentTask (k_sched ?k1 0) \<noteq> nullptr" "sc_currentTask (k_sched ?k1 0) \<noteq> t"
      "cb_state (k_tcb ?k1 (sc_currentTask (k_sched ?k1 0))) = RUNNING"
      "cb_priority (k_tcb ?k1 t) \<le> cb_priority (k_tcb ?k1 (sc_currentTask (k_sched ?k1 0)))"
      using v(2) t(3) unfolding goes_first_def cpu_running_def currentTask_def by (simp_all add: not_less)
    from sched_addTask_queue [OF cpu_okD(1) [OF ok1] t(1,2) lk(1) refl this] obtain k4 h where
      r: "sched_addTask 0 0 t ?k1 = Inr (Returned, k4)" and h: "k_tcb k4 = h" and
      l: "links_only ((k_tcb ?k1)(t := (k_tcb ?k1 t)\<lparr>cb_state := RUNNABLE\<rparr>)) h"
      by (elim exE conjE) iprover
    have "cb_registers (k_tcb k4 t) = cb_registers ?b" using links_only_simps(5) [OF l, of t] by (simp add: h)
    moreover have "bit (0x200 :: u64) 9" by code_simp
    ultimately have regs: "let r = cb_registers (k_tcb k4 t) in rip r = entry \<and> rdi r = ctx \<and> rsp r = stack \<and>
        cr3 r = cr3 (k_regs k 0) \<and> bit (rflags r) 9" by (simp add: thread_block_def)
    from sched_addTask_local [OF ok1 t lk(1,2)] False r have "currentTask 0 k4 = currentTask 0 k" "cpu_ok 0 k4 (xs @ [t])"
      by (auto simp: v(1) abs_add_def)
    with r regs False gf show ?thesis by (simp add: run)
  qed
qed

theorem thread_create_correct_witness:
  "\<exists>ctl k'. thread_create 0 0x7000 9 1 0x4000 (example_kernel 0x1000 [0x2000]) = Inr (ctl, k') \<and>
     ctl = Returned \<and> currentTask 0 k' = 0x1000 \<and> cpu_ok 0 k' ([0x2000] @ [0x4000])"
  using thread_create_correct [of "example_kernel 0x1000 [0x2000]" "[0x2000]" "0x9000" "[]" "0x4000" "0x7000" 9 1]
  by (auto simp: cpu_ready_def stack_available_def)

text \<open>
  Thread destruction never returns to the dying thread: \<^verbatim>\<open>thread::destroy\<close> hands the thread to the
  cleaner and leaves the CPU for the cleaner thread or the next ready task (its panic is not reached), the
  dying thread is on no run queue, and its run lock is free, so that the cleaner's wait for it ends.
\<close>

theorem thread_destroy_correct:
  assumes "cpu_ready 0 k xs" and "k_cpuCount k \<le> 1" and "bq_ok (q, eh, k) es ws"
    and "set ws \<inter> set (currentTask 0 k # xs) = {}" and "e \<noteq> nullptr" and "e \<notin> set es" and "length ws \<le> 1"
  shows "\<exists>ctl q' eh' k' ready. thread_destroy 0 e handler (q, eh, k) = Inr (ctl, q', eh', k') \<and> ctl \<noteq> Returned \<and>
           contents eh' (es @ [e]) = contents eh es @ [\<lparr>co_object = currentTask 0 k, co_handler = handler\<rparr>] \<and>
           cpu_ok 0 k' ready \<and> currentTask 0 k \<notin> set (currentTask 0 k' # ready) \<and>
           (\<exists>k''. destructionCode 0 (currentTask 0 k) k' = Inr (cb_originalStackPointer (k_tcb k' (currentTask 0 k)), k''))"
proof -
  let ?t = "currentTask 0 k"
  have t: "?t \<noteq> nullptr" "?t \<notin> set xs" "?t \<notin> set ws"
    using assms(1,4) cpu_okD(6) by (auto simp: cpu_ready_def cpu_running_def)
  from thread_destroy_leaves [OF assms, of handler] obtain ctl q' eh' k' where
    d: "thread_destroy 0 e handler (q, eh, k) = Inr (ctl, q', eh', k')" "ctl \<noteq> Returned"
      "contents eh' (es @ [e]) = contents eh es @ [\<lparr>co_object = ?t, co_handler = handler\<rparr>]" and
    c: "if es = [] \<and> ws \<noteq> [] then currentTask 0 k' = hd ws \<and> cpu_ok 0 k' xs
        else currentTask 0 k' = (case xs of [] \<Rightarrow> nullptr | x # _ \<Rightarrow> x) \<and> cpu_ok 0 k' (tl xs)" and
    l: "\<not> locked (cb_runLock (k_tcb k' ?t))" by blast
  have "\<exists>ready. cpu_ok 0 k' ready \<and> ?t \<notin> set (currentTask 0 k' # ready)"
  proof (cases "es = [] \<and> ws \<noteq> []")
    case True
    then have "hd ws \<noteq> ?t" using t(3) hd_in_set by metis
    with True c t(2) show ?thesis by (intro exI [of _ xs]) auto
  next
    case False
    with c t(1,2) show ?thesis by (intro exI [of _ "tl xs"]) (cases xs; auto)
  qed
  moreover have "\<exists>k''. destructionCode 0 ?t k' = Inr (cb_originalStackPointer (k_tcb k' ?t), k'')"
    using l by (simp add: destructionCode_def lockTask_def unlockTask_def Let_def case_prod_beta)
  ultimately show ?thesis using d by blast
qed

theorem thread_destroy_correct_witness:
  "\<exists>ctl q' eh' k' ready. thread_destroy 0 0x50 0x60
       (example_consumer_queue, \<lambda>_. \<lparr>el_value = \<lparr>co_object = 0, co_handler = 0\<rparr>, el_next = 0\<rparr>, example_waiting) = Inr (ctl, q', eh', k') \<and>
     ctl \<noteq> Returned \<and> contents eh' ([] @ [0x50]) = contents (\<lambda>_. \<lparr>el_value = \<lparr>co_object = 0, co_handler = 0\<rparr>, el_next = 0\<rparr>) [] @
       [\<lparr>co_object = currentTask 0 example_waiting, co_handler = 0x60\<rparr>] \<and>
     cpu_ok 0 k' ready \<and> currentTask 0 example_waiting \<notin> set (currentTask 0 k' # ready) \<and>
     (\<exists>k''. destructionCode 0 (currentTask 0 example_waiting) k'
        = Inr (cb_originalStackPointer (k_tcb k' (currentTask 0 example_waiting)), k''))"
  by (rule thread_destroy_correct [where ws = "[0x4000]" and xs = "[0x2000]"])
     (use example_waiting_ok in \<open>simp_all add: bq_ok_def bq_rep_def example_consumer_queue_def bq_init_def\<close>)

end
