(* ===== verification/Vector.thy ===== *)
theory Vector
  imports Kernel_Prelude
begin

text \<open>
  \<^verbatim>\<open>util::Vector\<close> with its iterators and accessors (\<^verbatim>\<open>vector.h\<close>, \<^verbatim>\<open>iterator.h\<close>, \<^verbatim>\<open>util.h\<close>). The arrays that
  \<^verbatim>\<open>new T[n]\<close> returns are numbered blocks of a heap, so that an element has an address, a block and an index,
  and an address into a block that \<^verbatim>\<open>delete[]\<close> has taken away is recognised when it is used. The heap itself is
  taken to be large enough.
\<close>

section \<open>Arrays on the heap\<close>

record 'a heap =
  hp_blocks :: "nat \<Rightarrow> 'a list option"
  hp_next :: nat  \<comment> \<open>blocks from here on have never been used\<close>

type_synonym addr = "nat \<times> nat"

definition new_array :: "'a list \<Rightarrow> 'a heap \<Rightarrow> nat \<times> 'a heap" where
  "new_array xs h = (hp_next h, h\<lparr>hp_blocks := (hp_blocks h)(hp_next h := Some xs), hp_next := Suc (hp_next h)\<rparr>)"

definition delete_array :: "nat \<Rightarrow> 'a heap \<Rightarrow> 'a heap result" where
  "delete_array b h = (if hp_blocks h b = None then Inl UseAfterFree else Inr (h\<lparr>hp_blocks := (hp_blocks h)(b := None)\<rparr>))"

definition load :: "addr \<Rightarrow> 'a heap \<Rightarrow> 'a result" where
  "load p h = (case hp_blocks h (fst p) of None \<Rightarrow> Inl UseAfterFree
     | Some xs \<Rightarrow> if snd p < length xs then Inr (xs ! snd p) else Inl OutOfBounds)"

definition store :: "addr \<Rightarrow> 'a \<Rightarrow> 'a heap \<Rightarrow> 'a heap result" where
  "store p x h = (case hp_blocks h (fst p) of None \<Rightarrow> Inl UseAfterFree
     | Some xs \<Rightarrow> if snd p < length xs then Inr (h\<lparr>hp_blocks := (hp_blocks h)(fst p := Some (xs[snd p := x]))\<rparr>)
                  else Inl OutOfBounds)"

section \<open>Accessors and iterators\<close>

text \<open>An \<^verbatim>\<open>Accessor\<close> is a pointer that may be null: reading then gives \<^verbatim>\<open>T{}\<close>, writing does nothing.\<close>

definition Accessor_get :: "'a \<Rightarrow> addr option \<Rightarrow> 'a heap \<Rightarrow> 'a result" where
  "Accessor_get dflt value h = (case value of None \<Rightarrow> Inr dflt | Some p \<Rightarrow> load p h)"

definition Accessor_set :: "addr option \<Rightarrow> 'a \<Rightarrow> 'a heap \<Rightarrow> 'a heap result" where
  "Accessor_set value newValue h = (case value of None \<Rightarrow> Inr h | Some p \<Rightarrow> store p newValue h)"

text \<open>An iterator's three pointers, as positions in one array.\<close>

record iterator =
  it_array :: "nat option"
  it_begin :: int
  it_end :: int
  it_pointer :: int

definition it_at :: "iterator \<Rightarrow> int \<Rightarrow> addr option" where
  "it_at it index =
     (if it_pointer it + index < it_end it \<and> it_pointer it + index \<ge> it_begin it
      then map_option (\<lambda>b. (b, nat (it_pointer it + index))) (it_array it) else None)"

definition it_next :: "iterator \<Rightarrow> iterator" where
  "it_next it = it\<lparr>it_pointer := it_pointer it + 1\<rparr>"

definition it_post_next :: "iterator \<Rightarrow> iterator \<times> iterator" where
  "it_post_next it = (it, it\<lparr>it_pointer := it_pointer it + 1\<rparr>)"

definition it_prev :: "iterator \<Rightarrow> iterator" where
  "it_prev it = it\<lparr>it_pointer := it_pointer it - 1\<rparr>"

definition it_post_prev :: "iterator \<Rightarrow> iterator \<times> iterator" where
  "it_post_prev it = (it, it\<lparr>it_pointer := it_pointer it - 1\<rparr>)"

definition it_plus :: "iterator \<Rightarrow> int \<Rightarrow> iterator" where
  "it_plus it offset = it\<lparr>it_pointer := it_pointer it + offset\<rparr>"

definition it_minus :: "iterator \<Rightarrow> int \<Rightarrow> iterator" where
  "it_minus it offset = it\<lparr>it_pointer := it_pointer it - offset\<rparr>"

definition same_range :: "iterator \<Rightarrow> iterator \<Rightarrow> bool" where
  "same_range it other \<longleftrightarrow> it_array other = it_array it \<and> it_begin other = it_begin it \<and> it_end other = it_end it"

definition it_distance :: "iterator \<Rightarrow> iterator \<Rightarrow> int" where
  "it_distance it other = (if same_range it other then it_pointer it - it_pointer other else -1)"

definition it_eq :: "iterator \<Rightarrow> iterator \<Rightarrow> bool" where
  "it_eq it other \<longleftrightarrow> same_range it other \<and> it_pointer other = it_pointer it"

section \<open>The vector\<close>

definition MINIMUM_VECTOR_SIZE :: u64 where
  "MINIMUM_VECTOR_SIZE = 16"

record vec =
  v_capacity :: u64
  v_size :: u64
  v_data :: "nat option"

definition Vector_empty :: vec where
  "Vector_empty = \<lparr>v_capacity = 0, v_size = 0, v_data = None\<rparr>"

definition Vector_sized :: "'a \<Rightarrow> u64 \<Rightarrow> 'a heap \<Rightarrow> vec \<times> 'a heap" where
  "Vector_sized dflt initialCapacity h =
     (let (b, h1) = new_array (replicate (unat initialCapacity) dflt) h
      in (\<lparr>v_capacity = initialCapacity, v_size = 0, v_data = Some b\<rparr>, h1))"

text \<open>Moving gives the new vector and what is left of the old one.\<close>

definition Vector_move :: "vec \<Rightarrow> vec \<times> vec" where
  "Vector_move other = (other, other\<lparr>v_data := None, v_capacity := 0, v_size := 0\<rparr>)"

definition delete_data :: "vec \<Rightarrow> 'a heap \<Rightarrow> 'a heap result" where
  "delete_data v h = (case v_data v of None \<Rightarrow> Inr h | Some b \<Rightarrow> delete_array b h)"

definition Vector_assign :: "vec \<Rightarrow> vec \<Rightarrow> 'a heap \<Rightarrow> (vec \<times> vec \<times> 'a heap) result" where
  "Vector_assign this other h =
     rbind (delete_data this h) (\<lambda>h1.
       Inr (\<lparr>v_capacity = v_capacity other, v_size = v_size other, v_data = v_data other\<rparr>,
            other\<lparr>v_data := None, v_capacity := 0, v_size := 0\<rparr>, h1))"

definition Vector_destroy :: "vec \<Rightarrow> 'a heap \<Rightarrow> 'a heap result" where
  "Vector_destroy v h = delete_data v h"

definition Vector_begin :: "vec \<Rightarrow> iterator" where
  "Vector_begin v = \<lparr>it_array = v_data v, it_begin = 0, it_end = uint (v_size v), it_pointer = 0\<rparr>"

definition Vector_end :: "vec \<Rightarrow> iterator" where
  "Vector_end v = \<lparr>it_array = v_data v, it_begin = 0, it_end = uint (v_size v), it_pointer = uint (v_size v)\<rparr>"

text \<open>The offset is converted to the signed \<^verbatim>\<open>ptrdiff_t\<close>.\<close>

definition Vector_at :: "vec \<Rightarrow> u64 \<Rightarrow> addr option" where
  "Vector_at v offset = it_at (Vector_begin v) (sint offset)"

definition Vector_getSize :: "vec \<Rightarrow> u64" where
  "Vector_getSize v = v_size v"

text \<open>\<^verbatim>\<open>move(dst, src, n)\<close>: the loop that moves \<open>n\<close> elements.\<close>

fun move_elements :: "'a list \<Rightarrow> 'a list \<Rightarrow> nat \<Rightarrow> nat \<Rightarrow> 'a list result" where
  "move_elements dst src i 0 = Inr dst"
| "move_elements dst src i (Suc n) =
     (if i < length dst \<and> i < length src then move_elements (dst[i := src ! i]) src (Suc i) n else Inl OutOfBounds)"

definition resize :: "'a \<Rightarrow> u64 \<Rightarrow> vec \<Rightarrow> 'a heap \<Rightarrow> (vec \<times> 'a heap) result" where
  "resize dflt newCapacity v h =
     (let newData = replicate (unat newCapacity) dflt
      in rbind (case v_data v of None \<Rightarrow> Inr (newData, h)
                | Some b \<Rightarrow> (case hp_blocks h b of None \<Rightarrow> Inl UseAfterFree
                    | Some old \<Rightarrow> rbind (move_elements newData old 0 (unat (v_size v))) (\<lambda>xs.
                                  rbind (delete_array b h) (\<lambda>h1. Inr (xs, h1))))) (\<lambda>(xs, h1).
           (let (b, h2) = new_array xs h1 in Inr (v\<lparr>v_data := Some b, v_capacity := newCapacity\<rparr>, h2))))"

text \<open>A write through \<^verbatim>\<open>data\<close>.\<close>

definition put_data :: "vec \<Rightarrow> u64 \<Rightarrow> 'a \<Rightarrow> 'a heap \<Rightarrow> 'a heap result" where
  "put_data v index x h = (case v_data v of None \<Rightarrow> Inl NullDereference | Some b \<Rightarrow> store (b, unat index) x h)"

definition push_back :: "'a \<Rightarrow> 'a \<Rightarrow> vec \<Rightarrow> 'a heap \<Rightarrow> (vec \<times> 'a heap) result" where
  "push_back dflt value v h =
     (let index = v_size v
      in rbind (if index \<ge> v_capacity v then
                  if v_capacity v < MINIMUM_VECTOR_SIZE then resize dflt MINIMUM_VECTOR_SIZE v h
                  else resize dflt (v_capacity v * 2) v h
                else Inr (v, h)) (\<lambda>(v1, h1).
         rbind (put_data v1 index value h1) (\<lambda>h2. Inr (v1\<lparr>v_size := v_size v1 + 1\<rparr>, h2))))"

definition pop_back :: "'a \<Rightarrow> vec \<Rightarrow> 'a heap \<Rightarrow> ('a \<times> vec \<times> 'a heap) result" where
  "pop_back dflt v h =
     (let index = v_size v - 1; v1 = v\<lparr>v_size := index\<rparr>
      in rbind (case v_data v of None \<Rightarrow> Inl NullDereference | Some b \<Rightarrow> load (b, unat index) h) (\<lambda>result.
         if v_size v1 * 2 \<le> v_capacity v1 \<and> v_size v1 > MINIMUM_VECTOR_SIZE then
           rbind (resize dflt (v_size v1) v1 h) (\<lambda>(v2, h2). Inr (result, v2, h2))
         else if v_size v1 = 0 then
           rbind (delete_data v1 h) (\<lambda>h2. Inr (result, v1\<lparr>v_data := None, v_capacity := 0\<rparr>, h2))
         else Inr (result, v1, h)))"

section \<open>Meaning and invariant\<close>

definition elems :: "vec \<Rightarrow> 'a heap \<Rightarrow> 'a list" where
  "elems v h = (case v_data v of None \<Rightarrow> [] | Some b \<Rightarrow> take (unat (v_size v)) (the (hp_blocks h b)))"

definition arrays_ok :: "'a heap \<Rightarrow> bool" where
  "arrays_ok h \<longleftrightarrow> (\<forall>b \<ge> hp_next h. hp_blocks h b = None)"

definition vec_ok :: "vec \<Rightarrow> 'a heap \<Rightarrow> bool" where
  "vec_ok v h \<longleftrightarrow> arrays_ok h \<and> v_size v \<le> v_capacity v \<and> unat (v_capacity v) \<le> 2 ^ 62 \<and>
     (case v_data v of None \<Rightarrow> v_capacity v = 0
      | Some b \<Rightarrow> \<exists>xs. hp_blocks h b = Some xs \<and> length xs = unat (v_capacity v))"

text \<open>A limit far beyond any memory that keeps the doubling of the capacity from wrapping.\<close>

definition VECTOR_LIMIT :: nat where
  "VECTOR_LIMIT = 2 ^ 61"

lemma vec_okD:
  assumes "vec_ok v h"
  shows "arrays_ok h" and "unat (v_size v) \<le> unat (v_capacity v)" and "unat (v_capacity v) \<le> 2 ^ 62" and "length (elems v h) = unat (v_size v)"
proof -
  show "arrays_ok h" "unat (v_capacity v) \<le> 2 ^ 62" using assms by (simp_all add: vec_ok_def)
  show le: "unat (v_size v) \<le> unat (v_capacity v)" using assms by (simp add: vec_ok_def word_le_nat_alt)
  show "length (elems v h) = unat (v_size v)"
    using assms le by (auto simp: vec_ok_def elems_def split: option.splits)
qed

lemma move_elements_ok:
  assumes "i + n \<le> length dst" and "i + n \<le> length src"
  shows "move_elements dst src i n = Inr (take i dst @ take n (drop i src) @ drop (i + n) dst)"
  using assms
proof (induction n arbitrary: i dst)
  case (Suc n)
  have "take (Suc i) (dst[i := src ! i]) = take i dst @ [src ! i]" using Suc.prems by simp
  moreover have "take (Suc n) (drop i src) = src ! i # take n (drop (Suc i) src)"
    using Suc.prems(2) by (simp add: Cons_nth_drop_Suc [symmetric])
  ultimately show ?case using Suc.IH [of "Suc i" "dst[i := src ! i]"] Suc.prems by simp
qed simp

text \<open>What an operation on one vector may do to the heap: its own array only, and new ones.\<close>

definition heap_frame :: "vec \<Rightarrow> 'a heap \<Rightarrow> 'a heap \<Rightarrow> bool" where
  "heap_frame v h h' \<longleftrightarrow> hp_next h \<le> hp_next h' \<and> (\<forall>b < hp_next h. Some b \<noteq> v_data v \<longrightarrow> hp_blocks h' b = hp_blocks h b)"

lemma vec_array:
  assumes "vec_ok v h" and "v_data v = Some b"
  obtains xs where "hp_blocks h b = Some xs" and "length xs = unat (v_capacity v)" and "elems v h = take (unat (v_size v)) xs" and "b < hp_next h"
proof -
  from assms obtain xs where "hp_blocks h b = Some xs" "length xs = unat (v_capacity v)" by (auto simp: vec_ok_def)
  moreover from this(1) vec_okD(1) [OF assms(1)] have "b < hp_next h" by (force simp: arrays_ok_def not_less [symmetric])
  ultimately show thesis using that assms(2) by (simp add: elems_def)
qed

lemma resize_ok:
  assumes "vec_ok v h" and "v_size v \<le> n" and "unat n \<le> 2 ^ 62"
  shows "\<exists>v' h'. resize dflt n v h = Inr (v', h') \<and> vec_ok v' h' \<and> elems v' h' = elems v h \<and> v_size v' = v_size v \<and> v_capacity v' = n \<and>
           v_data v' = Some (hp_next h) \<and> heap_frame v h h' \<and> (\<forall>b. v_data v = Some b \<longrightarrow> hp_blocks h' b = None)"
proof (cases "v_data v")
  case None
  with assms(1) have z: "v_capacity v = 0" "v_size v = 0" by (auto simp: vec_ok_def)
  let ?h = "h\<lparr>hp_blocks := (hp_blocks h)(hp_next h := Some (replicate (unat n) dflt)), hp_next := Suc (hp_next h)\<rparr>"
  have "resize dflt n v h = Inr (v\<lparr>v_data := Some (hp_next h), v_capacity := n\<rparr>, ?h)"
    using None by (simp add: resize_def new_array_def)
  then show ?thesis using None z assms vec_okD(1) [OF assms(1)]
    by (auto simp: vec_ok_def elems_def heap_frame_def arrays_ok_def)
next
  case (Some b)
  obtain xs where xs: "hp_blocks h b = Some xs" "length xs = unat (v_capacity v)" "elems v h = take (unat (v_size v)) xs" "b < hp_next h"
    by (rule vec_array [OF assms(1) Some])
  let ?s = "unat (v_size v)"
  let ?ys = "take ?s xs @ drop ?s (replicate (unat n) dflt)"
  have s: "?s \<le> unat n" "?s \<le> length xs" using assms(2) vec_okD(2) [OF assms(1)] xs(2) by (simp_all add: word_le_nat_alt)
  have mv: "move_elements (replicate (unat n) dflt) xs 0 ?s = Inr ?ys"
    using move_elements_ok [of 0 ?s "replicate (unat n) dflt" xs] s by simp
  let ?h = "h\<lparr>hp_blocks := (hp_blocks h)(b := None, hp_next h := Some ?ys), hp_next := Suc (hp_next h)\<rparr>"
  have "resize dflt n v h = Inr (v\<lparr>v_data := Some (hp_next h), v_capacity := n\<rparr>, ?h)"
    using Some xs(1) mv by (simp add: resize_def delete_array_def new_array_def del: drop_replicate)
  moreover have "length ?ys = unat n" using s by simp
  ultimately show ?thesis using Some xs(3,4) s assms vec_okD(1) [OF assms(1)]
    by (auto simp: vec_ok_def elems_def heap_frame_def arrays_ok_def simp del: drop_replicate)
qed

lemma push_back_ok:
  assumes "vec_ok v h" and "length (elems v h) < VECTOR_LIMIT"
  shows "\<exists>v' h'. push_back dflt x v h = Inr (v', h') \<and> vec_ok v' h' \<and> elems v' h' = elems v h @ [x] \<and> heap_frame v h h' \<and>
           v_data v' \<noteq> None \<and>
           (if v_size v < v_capacity v then v_data v' = v_data v \<and> v_capacity v' = v_capacity v
            else v_data v' = Some (hp_next h) \<and> (\<forall>b. v_data v = Some b \<longrightarrow> hp_blocks h' b = None))"
proof -
  let ?s = "unat (v_size v)"
  have s: "?s < 2 ^ 61" using assms(2) vec_okD(4) [OF assms(1)] by (simp add: VECTOR_LIMIT_def)
  let ?grown = "if v_size v \<ge> v_capacity v then
                  if v_capacity v < MINIMUM_VECTOR_SIZE then resize dflt MINIMUM_VECTOR_SIZE v h
                  else resize dflt (v_capacity v * 2) v h
                else Inr (v, h)"
  obtain v1 h1 where g: "?grown = Inr (v1, h1)" "vec_ok v1 h1" "elems v1 h1 = elems v h" "v_size v1 = v_size v"
    "v_size v1 < v_capacity v1" "heap_frame v h h1" "v_data v1 \<noteq> None" "hp_next h \<le> hp_next h1"
    "if v_size v < v_capacity v then v1 = v \<and> h1 = h
     else v_data v1 = Some (hp_next h) \<and> (\<forall>b. v_data v = Some b \<longrightarrow> hp_blocks h1 b = None)"
  proof (cases "v_size v < v_capacity v")
    case True
    then have "v_capacity v \<noteq> 0" by auto
    then have "v_data v \<noteq> None" using assms(1) by (cases "v_data v") (auto simp: vec_ok_def)
    with True show thesis using assms(1) by (intro that [of v h]) (auto simp: heap_frame_def)
  next
    case False
    define n where "n = (if v_capacity v < MINIMUM_VECTOR_SIZE then MINIMUM_VECTOR_SIZE else v_capacity v * 2)"
    have c: "v_capacity v = v_size v" using False assms(1) by (simp add: vec_ok_def)
    have d: "unat (v_size v * 2) = unat (v_size v) * 2" using s by (simp add: unat_word_ariths)
    have n: "v_size v < n" "unat n \<le> 2 ^ 62"
      using s d by (auto simp: n_def c word_less_nat_alt MINIMUM_VECTOR_SIZE_def)
    from resize_ok [OF assms(1) less_imp_le [OF n(1)] n(2)] obtain v1 h1 where
      r: "resize dflt n v h = Inr (v1, h1)" "vec_ok v1 h1" "elems v1 h1 = elems v h" "v_size v1 = v_size v" "v_capacity v1 = n"
        "v_data v1 = Some (hp_next h)" "heap_frame v h h1" "\<forall>b. v_data v = Some b \<longrightarrow> hp_blocks h1 b = None" by blast
    show thesis using r n(1) False by (intro that [of v1 h1]) (auto simp: n_def heap_frame_def)
  qed
  from g(7) obtain b where b: "v_data v1 = Some b" by auto
  obtain xs where xs: "hp_blocks h1 b = Some xs" "length xs = unat (v_capacity v1)" "elems v1 h1 = take (unat (v_size v1)) xs" "b < hp_next h1"
    by (rule vec_array [OF g(2) b])
  have i: "?s < length xs" using g(4,5) xs(2) by (simp add: word_less_nat_alt)
  let ?h2 = "h1\<lparr>hp_blocks := (hp_blocks h1)(b := Some (xs[?s := x]))\<rparr>"
  let ?v2 = "v1\<lparr>v_size := v_size v1 + 1\<rparr>"
  have st: "put_data v1 (v_size v) x h1 = Inr ?h2" using b xs(1) i by (simp add: put_data_def store_def)
  have run: "push_back dflt x v h = Inr (?v2, ?h2)" unfolding push_back_def Let_def g(1) using st by simp
  have su: "unat (v_size v1 + 1) = Suc ?s" using g(4) s unat_add_u64 [of "v_size v" 1] by simp
  have "vec_ok ?v2 ?h2"
    using g(2,5) b xs(1,2) su g(4) by (auto simp: vec_ok_def arrays_ok_def word_le_nat_alt word_less_nat_alt)
  moreover have "elems ?v2 ?h2 = elems v h @ [x]"
    using b su i xs(3) g(3,4) by (simp add: elems_def)
  moreover have "heap_frame v h ?h2" using g(6,9) b by (auto simp: heap_frame_def split: if_splits)
  ultimately show ?thesis using run g(7,9) b xs(1) by (intro exI [of _ ?v2] exI [of _ ?h2]) (auto split: if_splits)
qed

lemma pop_back_ok:
  assumes "vec_ok v h" and "elems v h \<noteq> []"
  shows "\<exists>v' h'. pop_back dflt v h = Inr (last (elems v h), v', h') \<and> vec_ok v' h' \<and> elems v' h' = butlast (elems v h) \<and> heap_frame v h h'"
proof -
  from assms(2) obtain b where b: "v_data v = Some b" by (auto simp: elems_def split: option.splits)
  obtain xs where xs: "hp_blocks h b = Some xs" "length xs = unat (v_capacity v)" "elems v h = take (unat (v_size v)) xs" "b < hp_next h"
    by (rule vec_array [OF assms(1) b])
  have nz: "v_size v \<noteq> 0" using assms(2) xs(3) by auto
  let ?v = "v\<lparr>v_size := v_size v - 1\<rparr>"
  have s: "unat (v_size v) = Suc (unat (v_size v - 1))"
    using unat_minus_one [OF nz] nz by (metis Suc_pred' unat_gt_0)
  note c = vec_okD(2) [OF assms(1)]
  have ok: "vec_ok ?v h" using assms(1) s by (auto simp: vec_ok_def word_le_nat_alt split: option.splits)
  have el: "elems ?v h = butlast (elems v h)" using b xs(1,2) c s by (simp add: elems_def butlast_take)
  have la: "load (b, unat (v_size v - 1)) h = Inr (last (elems v h))"
    using xs c s by (simp add: load_def take_Suc_conv_app_nth)
  note eqs = pop_back_def Let_def b
  consider (shrink) "v_size ?v * 2 \<le> v_capacity ?v \<and> v_size ?v > MINIMUM_VECTOR_SIZE"
    | (free) "\<not> (v_size ?v * 2 \<le> v_capacity ?v \<and> v_size ?v > MINIMUM_VECTOR_SIZE)" "v_size ?v = 0"
    | (keep) "\<not> (v_size ?v * 2 \<le> v_capacity ?v \<and> v_size ?v > MINIMUM_VECTOR_SIZE)" "v_size ?v \<noteq> 0" by blast
  then show ?thesis
  proof cases
    case shrink
    have "unat (v_size ?v) \<le> 2 ^ 62" using vec_okD(2,3) [OF ok] by simp
    from resize_ok [OF ok order.refl this, of dflt] obtain v' h' where
      r: "resize dflt (v_size ?v) ?v h = Inr (v', h')" "vec_ok v' h'" "elems v' h' = elems ?v h" "heap_frame ?v h h'" by blast
    with shrink la el show ?thesis by (intro exI [of _ v'] exI [of _ h']) (simp add: eqs heap_frame_def)
  next
    case free
    let ?h = "h\<lparr>hp_blocks := (hp_blocks h)(b := None)\<rparr>"
    have "butlast (elems v h) = []" using free(2) el b by (simp add: elems_def)
    moreover have "vec_ok (?v\<lparr>v_data := None, v_capacity := 0\<rparr>) ?h" using ok free(2) by (simp add: vec_ok_def arrays_ok_def)
    ultimately show ?thesis
      using free la b xs(1) by (intro exI [of _ "?v\<lparr>v_data := None, v_capacity := 0\<rparr>"] exI [of _ ?h])
        (simp add: eqs delete_data_def delete_array_def elems_def heap_frame_def)
  next
    case keep
    then show ?thesis using la ok el by (intro exI [of _ ?v] exI [of _ h]) (auto simp: eqs heap_frame_def)
  qed
qed

section \<open>A sequence that grows at its end\<close>

text \<open>What the clients of a vector rely on: pushing appends, as long as there is room.\<close>

locale growing_sequence =
  fixes inv :: "'s \<Rightarrow> bool"
    and contents :: "'s \<Rightarrow> 'a list"
    and push :: "'a \<Rightarrow> 's \<Rightarrow> 's result"
    and limit :: nat
  assumes push_appends: "inv s \<Longrightarrow> length (contents s) < limit \<Longrightarrow>
            \<exists>s'. push x s = Inr s' \<and> inv s' \<and> contents s' = contents s @ [x]"
begin

lemma push_all:
  assumes "inv s" and "length (contents s) + length xs \<le> limit"
  shows "\<exists>s'. for_each push xs s = Inr s' \<and> inv s' \<and> contents s' = contents s @ xs"
  using assms
proof (induction xs arbitrary: s)
  case (Cons x xs)
  from push_appends [OF Cons.prems(1)] Cons.prems(2) obtain s1 where
    s1: "push x s = Inr s1" "inv s1" "contents s1 = contents s @ [x]" by fastforce
  with Cons.IH [OF s1(2)] Cons.prems(2) show ?case by (auto simp del: rbind_eq_Inr)
qed simp

lemma push_filtered:
  assumes "inv s" and "length (contents s) + length xs \<le> limit"
  shows "\<exists>s'. for_each (\<lambda>x s. case f x of None \<Rightarrow> Inr s | Some y \<Rightarrow> push y s) xs s = Inr s' \<and> inv s' \<and>
           contents s' = contents s @ List.map_filter f xs"
  using assms
proof (induction xs arbitrary: s)
  case (Cons x xs)
  show ?case
  proof (cases "f x")
    case None
    with Cons show ?thesis by (simp add: map_filter_simps)
  next
    case (Some y)
    from push_appends [OF Cons.prems(1), of y] Cons.prems(2) obtain s1 where
      s1: "push y s = Inr s1" "inv s1" "contents s1 = contents s @ [y]" by fastforce
    with Cons.IH [OF s1(2)] Cons.prems(2) Some show ?thesis by (auto simp: map_filter_simps simp del: rbind_eq_Inr)
  qed
qed (simp add: map_filter_simps)

end

definition vec_push :: "'a \<Rightarrow> 'a \<Rightarrow> vec \<times> 'a heap \<Rightarrow> (vec \<times> 'a heap) result" where
  "vec_push dflt x = (\<lambda>(v, h). push_back dflt x v h)"

interpretation vs: growing_sequence "\<lambda>(v, h). vec_ok v h" "\<lambda>(v, h). elems v h" "vec_push dflt" VECTOR_LIMIT
  for dflt :: 'a
  by unfold_locales (use push_back_ok in \<open>fastforce simp: vec_push_def\<close>)

section \<open>Properties\<close>

definition example_vector :: "vec \<times> nat heap" where
  "example_vector = Vector_sized 0 1 \<lparr>hp_blocks = (\<lambda>_. None), hp_next = 0\<rparr>"

text \<open>
  \<^verbatim>\<open>push_back\<close> appends, and the addresses of the elements already there stay valid exactly when the vector
  has spare capacity: otherwise all of them are freed by the move to a larger array.
\<close>

theorem vector_push_back_correct:
  assumes "vec_ok v h" and "length (elems v h) < VECTOR_LIMIT"
  shows "\<exists>v' h'. push_back dflt x v h = Inr (v', h') \<and> vec_ok v' h' \<and> elems v' h' = elems v h @ [x] \<and>
           (\<forall>b i. v_data v = Some b \<longrightarrow> i < length (elems v h) \<longrightarrow>
              load (b, i) h' = (if v_size v < v_capacity v then load (b, i) h else Inl UseAfterFree))"
proof -
  from push_back_ok [OF assms, of dflt x] obtain v' h' where
    r: "push_back dflt x v h = Inr (v', h')" "vec_ok v' h'" "elems v' h' = elems v h @ [x]"
      "if v_size v < v_capacity v then v_data v' = v_data v \<and> v_capacity v' = v_capacity v
       else v_data v' = Some (hp_next h) \<and> (\<forall>b. v_data v = Some b \<longrightarrow> hp_blocks h' b = None)" by blast
  have "load (b, i) h' = (if v_size v < v_capacity v then load (b, i) h else Inl UseAfterFree)"
    if b: "v_data v = Some b" and i: "i < length (elems v h)" for b i
  proof (cases "v_size v < v_capacity v")
    case True
    with r(4) b have b': "v_data v' = Some b" by simp
    obtain xs where xs: "hp_blocks h b = Some xs" "length xs = unat (v_capacity v)" "elems v h = take (unat (v_size v)) xs"
      by (rule vec_array [OF assms(1) b])
    obtain ys where ys: "hp_blocks h' b = Some ys" "length ys = unat (v_capacity v')" "elems v' h' = take (unat (v_size v')) ys"
      by (rule vec_array [OF r(2) b'])
    have "i < length xs" "i < unat (v_size v)" using i xs(3) by simp_all
    have "i < length (elems v' h')" using i r(3) by simp
    then have "i < length ys" "ys ! i = elems v' h' ! i" using ys(3) by simp_all
    then have "ys ! i = xs ! i" using r(3) i xs(3) by (simp add: nth_append)
    with True xs(1) ys(1) \<open>i < length xs\<close> \<open>i < length ys\<close> show ?thesis by (simp add: load_def)
  next
    case False
    with r(4) b show ?thesis by (simp add: load_def)
  qed
  with r(1-3) show ?thesis by blast
qed

lemma example_vector_ok: "example_vector = (\<lparr>v_capacity = 1, v_size = 0, v_data = Some 0\<rparr>, \<lparr>hp_blocks = [0 \<mapsto> [0]], hp_next = 1\<rparr>)"
  by (simp add: example_vector_def Vector_sized_def new_array_def)

theorem vector_push_back_correct_witness:
  "\<exists>v h v' h'. push_back 0 7 (fst example_vector) (snd example_vector) = Inr (v, h) \<and> push_back 0 8 v h = Inr (v', h') \<and>
     elems v' h' = [7, 8] \<and> load (0, 0) h' = Inl UseAfterFree"
proof -
  have r: "push_back 0 7 (fst example_vector) (snd example_vector) =
      Inr (\<lparr>v_capacity = 1, v_size = 1, v_data = Some 0\<rparr>, \<lparr>hp_blocks = [0 \<mapsto> [7]], hp_next = 1\<rparr>)"
    by (simp add: example_vector_ok push_back_def put_data_def store_def)
  have "vec_ok \<lparr>v_capacity = 1, v_size = 1, v_data = Some 0\<rparr> \<lparr>hp_blocks = [0 \<mapsto> [7 :: nat]], hp_next = 1\<rparr>"
    "elems \<lparr>v_capacity = 1, v_size = 1, v_data = Some 0\<rparr> \<lparr>hp_blocks = [0 \<mapsto> [7 :: nat]], hp_next = 1\<rparr> = [7]"
    by (simp_all add: vec_ok_def arrays_ok_def elems_def)
  with vector_push_back_correct [OF this(1), of 0 8] r show ?thesis by (fastforce simp: VECTOR_LIMIT_def)
qed

text \<open>
  \<^verbatim>\<open>pop_back\<close> undoes \<^verbatim>\<open>push_back\<close>: it returns the value pushed last and leaves the elements as they were
  before, whether or not either of them moved the array.
\<close>

theorem vector_push_pop_roundtrip:
  assumes "vec_ok v h" and "length (elems v h) < VECTOR_LIMIT" and "push_back dflt x v h = Inr (v1, h1)"
  shows "\<exists>v2 h2. pop_back dflt v1 h1 = Inr (x, v2, h2) \<and> vec_ok v2 h2 \<and> elems v2 h2 = elems v h"
proof -
  from push_back_ok [OF assms(1,2), of dflt x] assms(3) have r: "vec_ok v1 h1" "elems v1 h1 = elems v h @ [x]" by auto
  from pop_back_ok [OF r(1), of dflt] r(2) show ?thesis by fastforce
qed

theorem vector_push_pop_roundtrip_witness:
  "\<exists>v h v2 h2. push_back 0 7 (fst example_vector) (snd example_vector) = Inr (v, h) \<and> pop_back 0 v h = Inr (7, v2, h2) \<and> elems v2 h2 = []"
proof -
  have ok: "vec_ok (fst example_vector) (snd example_vector)" "elems (fst example_vector) (snd example_vector) = []"
    by (simp_all add: example_vector_ok vec_ok_def arrays_ok_def elems_def)
  then obtain v h where r: "push_back 0 7 (fst example_vector) (snd example_vector) = Inr (v, h)"
    using push_back_ok [OF ok(1), of 0 7] by (auto simp: VECTOR_LIMIT_def)
  from vector_push_pop_roundtrip [OF ok(1) _ r] ok(2) r show ?thesis by (auto simp: VECTOR_LIMIT_def)
qed

text \<open>Popping an empty vector, whose size wraps around, follows the null pointer.\<close>

lemma pop_back_empty: "pop_back dflt Vector_empty h = Inl NullDereference"
  by (simp add: pop_back_def Vector_empty_def)

lemma sint_u64:
  fixes i :: u64
  shows "uint i < 2 ^ 63 \<Longrightarrow> sint i = uint i" and "\<not> uint i < 2 ^ 63 \<Longrightarrow> sint i < 0"
proof -
  have e: "sint i = signed_take_bit 63 (uint i)" by (simp add: sint_uint)
  have z: "- (2 ^ 63) \<le> uint i" by (rule order_trans [of _ 0]) simp_all
  show "uint i < 2 ^ 63 \<Longrightarrow> sint i = uint i" unfolding e using z by (intro signed_take_bit_int_eq_self) simp_all
  have "uint i < 2 ^ 64" using uint_lt2p [of i] by simp
  moreover assume "\<not> uint i < 2 ^ 63"
  ultimately have "uint i div 2 ^ 63 = 1" by (intro int_div_pos_eq [of _ _ _ "uint i - 2 ^ 63"]) simp_all
  then have "bit (uint i) 63" by (simp add: bit_iff_odd)
  then show "sint i < 0" unfolding e by simp
qed

lemma Vector_at_iff:
  assumes "vec_ok v h"
  shows "Vector_at v i = (if i < v_size v then map_option (\<lambda>b. (b, unat i)) (v_data v) else None)"
proof -
  have "unat (v_size v) \<le> 2 ^ 62" using vec_okD(2,3) [OF assms] by simp
  then have s: "uint (v_size v) \<le> 2 ^ 62" by (metis of_nat_le_iff of_nat_numeral of_nat_power uint_nat)
  show ?thesis
  proof (cases "i < v_size v")
    case True
    then have "uint i < 2 ^ 63" using s by (simp add: word_less_def)
    with True sint_u64(1) show ?thesis by (simp add: Vector_at_def it_at_def Vector_begin_def word_less_def nat_uint_eq)
  next
    case False
    then have "sint i < 0 \<or> uint (v_size v) \<le> sint i" using sint_u64 [of i] by (cases "uint i < 2 ^ 63") (simp_all add: word_less_def not_less)
    with False show ?thesis by (auto simp: Vector_at_def it_at_def Vector_begin_def)
  qed
qed

end
