(* ===== verification/Byte_Strings.thy ===== *)
theory Byte_Strings
  imports Kernel_Prelude "HOL-Library.Sublist"
begin

text \<open>
  Byte memory and strings: \<^verbatim>\<open>arch/x86_64/kernel/memory/copying.cpp\<close>, \<^verbatim>\<open>memory/string.cpp\<close> and the class
  \<^verbatim>\<open>String\<close> of \<^verbatim>\<open>string.h\<close>. Memory is a function from addresses to bytes and address arithmetic wraps at
  2^64. A \<^verbatim>\<open>String\<close> is a pointer and a length; its meaning in a memory is a list of bytes (\<open>text_of\<close>), and the
  lemmas say which list operation each member function is.
\<close>

type_synonym byte_mem = "u64 \<Rightarrow> u8"

section \<open>Copying and setting\<close>

text \<open>One step of \<^verbatim>\<open>stosq\<close> and \<^verbatim>\<open>movsq\<close>: eight bytes at once, least significant first.\<close>

definition store_q :: "u64 \<Rightarrow> u64 \<Rightarrow> byte_mem \<Rightarrow> byte_mem" where
  "store_q p q m = (\<lambda>a. if unat (a - p) < 8 then ucast (drop_bit (8 * unat (a - p)) q) else m a)"

definition load_q :: "byte_mem \<Rightarrow> u64 \<Rightarrow> u64" where
  "load_q m p = foldr (\<lambda>b q. ucast b + 256 * q) (map (\<lambda>k. m (p + of_nat k)) [0..<8]) 0"

text \<open>The instructions \<^verbatim>\<open>rep stosq\<close>, \<^verbatim>\<open>rep stosb\<close>, \<^verbatim>\<open>rep movsq\<close> and \<^verbatim>\<open>rep movsb\<close>, with the count as an argument.\<close>

fun rep_stosq :: "nat \<Rightarrow> u64 \<Rightarrow> u64 \<Rightarrow> byte_mem \<Rightarrow> u64 \<times> byte_mem" where
  "rep_stosq 0 rax rdi m = (rdi, m)"
| "rep_stosq (Suc n) rax rdi m = rep_stosq n rax (rdi + 8) (store_q rdi rax m)"

fun rep_stosb :: "nat \<Rightarrow> u8 \<Rightarrow> u64 \<Rightarrow> byte_mem \<Rightarrow> u64 \<times> byte_mem" where
  "rep_stosb 0 al rdi m = (rdi, m)"
| "rep_stosb (Suc n) al rdi m = rep_stosb n al (rdi + 1) (m(rdi := al))"

fun rep_movsq :: "nat \<Rightarrow> u64 \<Rightarrow> u64 \<Rightarrow> byte_mem \<Rightarrow> u64 \<times> u64 \<times> byte_mem" where
  "rep_movsq 0 rdi rsi m = (rdi, rsi, m)"
| "rep_movsq (Suc n) rdi rsi m = rep_movsq n (rdi + 8) (rsi + 8) (store_q rdi (load_q m rsi) m)"

fun rep_movsb :: "nat \<Rightarrow> u64 \<Rightarrow> u64 \<Rightarrow> byte_mem \<Rightarrow> byte_mem" where
  "rep_movsb 0 rdi rsi m = m"
| "rep_movsb (Suc n) rdi rsi m = rep_movsb n (rdi + 1) (rsi + 1) (m(rdi := m rsi))"

definition memset :: "u64 \<Rightarrow> u32 \<Rightarrow> u64 \<Rightarrow> byte_mem \<Rightarrow> u64 \<times> byte_mem" where
  "memset str c n m =
     (let (tmpStr, m1) = rep_stosq (unat (n div 8)) (ucast (ucast c :: u8) * 0x0101010101010101) str m;
          (_, m2) = rep_stosb (unat (n AND 7)) (ucast c) tmpStr m1
      in (str, m2))"

definition memcpy :: "u64 \<Rightarrow> u64 \<Rightarrow> u64 \<Rightarrow> byte_mem \<Rightarrow> u64 \<times> byte_mem" where
  "memcpy dst src n m =
     (let (tmpDst, tmpSrc, m1) = rep_movsq (unat (n div 8)) dst src m
      in (dst, rep_movsb (unat (n AND 7)) tmpDst tmpSrc m1))"

section \<open>Comparing and searching\<close>

text \<open>The loops run over the bytes that are left; the argument is how many.\<close>

fun memcmp_loop :: "nat \<Rightarrow> u64 \<Rightarrow> u64 \<Rightarrow> byte_mem \<Rightarrow> int" where
  "memcmp_loop 0 a b m = 0"
| "memcmp_loop (Suc n) a b m = (if m a \<noteq> m b then uint (m a) - uint (m b) else memcmp_loop n (a + 1) (b + 1) m)"

definition memcmp :: "u64 \<Rightarrow> u64 \<Rightarrow> u64 \<Rightarrow> byte_mem \<Rightarrow> int" where
  "memcmp a b n m = memcmp_loop (unat n) a b m"

definition memeq :: "u64 \<Rightarrow> u64 \<Rightarrow> u64 \<Rightarrow> byte_mem \<Rightarrow> bool" where
  "memeq a b n m \<longleftrightarrow> memcmp a b n m = 0"

text \<open>The byte is compared, as an unsigned value, with the \<^verbatim>\<open>int\<close> argument as it is.\<close>

fun memchr_loop :: "nat \<Rightarrow> u64 \<Rightarrow> u32 \<Rightarrow> byte_mem \<Rightarrow> u64" where
  "memchr_loop 0 str c m = nullptr"
| "memchr_loop (Suc n) str c m = (if uint (m str) = sint c then str else memchr_loop n (str + 1) c m)"

definition memchr :: "u64 \<Rightarrow> u32 \<Rightarrow> u64 \<Rightarrow> byte_mem \<Rightarrow> u64" where
  "memchr str c n m = memchr_loop (unat n) str c m"

text \<open>The counter of \<^verbatim>\<open>strlen\<close> is an \<^verbatim>\<open>int\<close>; counting past 2^31 - 1 is undefined.\<close>

function strlen_loop :: "u64 \<Rightarrow> nat \<Rightarrow> byte_mem \<Rightarrow> nat result" where
  "strlen_loop str i m =
     (if m str \<noteq> 0 then if i < 2 ^ 31 - 1 then strlen_loop (str + 1) (i + 1) m else Inl Undefined
      else Inr i)"
  by pat_completeness auto
termination
  by (relation "measure (\<lambda>(str, i, m). 2 ^ 31 - i)") auto

declare strlen_loop.simps [simp del]

definition strlen :: "u64 \<Rightarrow> byte_mem \<Rightarrow> nat result" where
  "strlen str m = strlen_loop str 0 m"

definition strcpy :: "u64 \<Rightarrow> u64 \<Rightarrow> byte_mem \<Rightarrow> (u64 \<times> byte_mem) result" where
  "strcpy dst src m =
     rbind (strlen src m) (\<lambda>len.
       (let (_, m1) = memcpy dst src (of_nat len) m in Inr (dst, m1(dst + of_nat len := 0))))"

fun strchr_loop :: "nat \<Rightarrow> u64 \<Rightarrow> u8 \<Rightarrow> byte_mem \<Rightarrow> u64" where
  "strchr_loop 0 str chr m = nullptr"
| "strchr_loop (Suc n) str chr m = (if m str = chr then str else strchr_loop n (str + 1) chr m)"

definition strchr :: "u64 \<Rightarrow> u32 \<Rightarrow> byte_mem \<Rightarrow> u64 result" where
  "strchr str c m = rbind (strlen str m) (\<lambda>len. Inr (strchr_loop len str (ucast c) m))"

section \<open>The class \<^verbatim>\<open>String\<close>\<close>

record String =
  cString :: ptr
  s_length :: u64

definition String_empty :: String where
  "String_empty = \<lparr>cString = nullptr, s_length = 0\<rparr>"

definition String_of :: "ptr \<Rightarrow> u64 \<Rightarrow> String" where
  "String_of p n = \<lparr>cString = p, s_length = n\<rparr>"

definition String_cstr :: "ptr \<Rightarrow> byte_mem \<Rightarrow> String result" where
  "String_cstr p m = rbind (strlen p m) (\<lambda>n. Inr (String_of p (of_nat n)))"

definition len :: "String \<Rightarrow> u64" where
  "len s = s_length s"

definition String_at :: "String \<Rightarrow> u64 \<Rightarrow> byte_mem \<Rightarrow> u8" where
  "String_at s index m = (if index < s_length s then m (cString s + index) else 0)"

definition subString :: "String \<Rightarrow> u64 \<Rightarrow> u64 \<Rightarrow> String" where
  "subString s begin_at end_at =
     (if begin_at > s_length s \<or> begin_at > end_at then String_empty
      else (let e = (if end_at > s_length s then s_length s else end_at) in String_of (cString s + begin_at) (e - begin_at)))"

definition subString_from :: "String \<Rightarrow> u64 \<Rightarrow> String" where
  "subString_from s begin_at = subString s begin_at (s_length s)"

text \<open>The argument is a \<^verbatim>\<open>char\<close>, which is signed: it reaches \<^verbatim>\<open>memchr\<close> sign-extended.\<close>

definition findNext :: "String \<Rightarrow> u8 \<Rightarrow> byte_mem \<Rightarrow> String" where
  "findNext s c m =
     (if s_length s = 0 then String_empty
      else (let match = memchr (cString s + 1) (scast c) (s_length s - 1) m
            in if match = nullptr then String_empty else String_of match (cString s + s_length s - match)))"

definition findBefore :: "String \<Rightarrow> u8 \<Rightarrow> byte_mem \<Rightarrow> String" where
  "findBefore s delimiter m = subString s 0 (s_length s - s_length (findNext s delimiter m))"

definition startsWith :: "String \<Rightarrow> String \<Rightarrow> byte_mem \<Rightarrow> bool" where
  "startsWith s other m = (if s_length s \<ge> s_length other then memeq (cString s) (cString other) (s_length other) m else False)"

definition String_is_null :: "String \<Rightarrow> bool" where
  "String_is_null s \<longleftrightarrow> cString s = nullptr"

definition String_eq :: "String \<Rightarrow> String \<Rightarrow> byte_mem \<Rightarrow> bool" where
  "String_eq s other m =
     (if s_length other \<noteq> s_length s then False
      else if s_length s = 0 then True
      else memeq (cString s) (cString other) (s_length s) m)"

section \<open>Address ranges\<close>

lemma unat_sub_of_nat:
  fixes x :: u64
  assumes "k < 2 ^ 64"
  shows "unat (x - of_nat k) = (if k \<le> unat x then unat x - k else 2 ^ 64 + unat x - k)"
proof -
  define y where "y = x - of_nat k"
  then have "x = y + of_nat k" by simp
  then have "unat x = (unat y + k) mod 2 ^ 64" using assms by (simp add: unat_word_ariths unat_of_nat_small)
  moreover have "unat y + k - 2 ^ 64 < 2 ^ 64" by (rule le_less_trans [of _ "unat y"]) (use assms in simp_all)
  ultimately have "unat x = (if unat y + k < 2 ^ 64 then unat y + k else unat y + k - 2 ^ 64)"
    by (simp add: le_mod_geq)
  moreover have "u = (if k \<le> v then v - k else M + v - k)"
    if "v = (if u + k < M then u + k else u + k - M)" "u < M" "k < M" for u v M :: nat using that by auto
  moreover have "unat y < 2 ^ 64" by simp
  ultimately show ?thesis using assms unfolding y_def [symmetric] by blast
qed

text \<open>The first \<open>n\<close> addresses from \<open>p\<close>.\<close>

definition within :: "u64 \<Rightarrow> nat \<Rightarrow> u64 \<Rightarrow> bool" where
  "within p n a \<longleftrightarrow> unat (a - p) < n"

lemma within_0 [simp]: "\<not> within p 0 a"
  by (simp add: within_def)

lemma within_mono: "within p n a \<Longrightarrow> n \<le> k \<Longrightarrow> within p k a"
  by (simp add: within_def)

lemma within_apart:
  assumes "unat q + k \<le> unat p" and "unat p + n < 2 ^ 64" and "within p n a"
  shows "\<not> within q k a"
proof -
  have "unat (p + (a - p)) = unat p + unat (a - p)"
    by (rule unat_add_u64) (use assms(2,3) in \<open>simp add: within_def\<close>)
  then have u: "unat a = unat p + unat (a - p)" by simp
  then have "q \<le> a" using assms(1) by (simp add: word_le_nat_alt)
  then have "unat (a - q) = unat a - unat q" by (rule unat_sub)
  with u assms(1) show ?thesis by (simp add: within_def)
qed

lemma within_split:
  assumes "k + n \<le> 2 ^ 64" and "k < 2 ^ 64"
  shows "within p (k + n) a \<longleftrightarrow> within p k a \<or> within (p + of_nat k) n a"
    and "within (p + of_nat k) n a \<Longrightarrow> \<not> within p k a"
proof -
  have "unat (a - (p + of_nat k)) = (if k \<le> unat (a - p) then unat (a - p) - k else 2 ^ 64 + unat (a - p) - k)"
    using unat_sub_of_nat [OF assms(2), of "a - p"] by (simp add: diff_diff_eq)
  then show "within p (k + n) a \<longleftrightarrow> within p k a \<or> within (p + of_nat k) n a"
    "within (p + of_nat k) n a \<Longrightarrow> \<not> within p k a"
    using assms unat_u64_bound [of "a - p"] by (auto simp: within_def split: if_splits)
qed

lemma within_1 [simp]: "within p (Suc 0) a \<longleftrightarrow> a = p"
  by (auto simp: within_def unat_eq_zero)

section \<open>Eight bytes at a time\<close>

lemma byte_list_value:
  fixes bs :: "nat list"
  assumes "\<forall>b \<in> set bs. b < 256"
  shows "foldr (\<lambda>b q. b + 256 * q) bs 0 < 256 ^ length bs"
    and "k < length bs \<Longrightarrow> foldr (\<lambda>b q. b + 256 * q) bs 0 div 256 ^ k mod 256 = bs ! k"
proof -
  show "foldr (\<lambda>b q. b + 256 * q) bs 0 < 256 ^ length bs" using assms by (induction bs) auto
  show "k < length bs \<Longrightarrow> foldr (\<lambda>b q. b + 256 * q) bs 0 div 256 ^ k mod 256 = bs ! k"
    using assms
  proof (induction bs arbitrary: k)
    case (Cons b bs)
    then show ?case by (cases k) (auto simp: div_mult2_eq)
  qed simp
qed

lemma unat_byte_list:
  fixes bs :: "u8 list"
  assumes "length bs \<le> 8"
  shows "unat (foldr (\<lambda>b q. ucast b + 256 * q) bs 0 :: u64) = foldr (\<lambda>b q. b + 256 * q) (map unat bs) 0"
  using assms
proof (induction bs)
  case (Cons b bs)
  let ?r = "foldr (\<lambda>b q. b + 256 * q) (map unat bs) 0"
  have bound: "unat x < 256" for x :: u8 using unsigned_less [of x, where 'a = nat] by simp
  then have "?r < 256 ^ length bs" using byte_list_value(1) [of "map unat bs"] by simp
  moreover have "(256 :: nat) ^ length bs \<le> 256 ^ 7" using Cons.prems by (intro power_increasing) simp_all
  ultimately have "unat b + 256 * ?r < 2 ^ 64" using bound [of b] by simp
  with Cons bound [of b] show ?case by (simp add: unat_word_ariths unsigned_ucast_eq take_bit_eq_mod)
qed simp

lemma load_q_byte:
  assumes "k < 8"
  shows "(ucast (drop_bit (8 * k) (load_q m p)) :: u8) = m (p + of_nat k)"
proof -
  let ?bs = "map (\<lambda>k. m (p + of_nat k)) [0..<8]"
  have "unat (drop_bit (8 * k) (load_q m p)) = unat (load_q m p) div 256 ^ k"
    by (simp only: unsigned_drop_bit_eq) (simp add: drop_bit_eq_div power_mult take_bit_eq_mod)
  also have "unat (load_q m p) = foldr (\<lambda>b q. b + 256 * q) (map unat ?bs) 0"
    unfolding load_q_def by (rule unat_byte_list) simp
  finally have "unat (drop_bit (8 * k) (load_q m p)) mod 256 = map unat ?bs ! k"
    using byte_list_value(2) [of "map unat ?bs" k] assms unsigned_less [where 'a = nat and 'b = 8] by auto
  then show ?thesis using assms by (simp add: word_unat_eq_iff unsigned_ucast_eq take_bit_eq_mod)
qed

lemma repeated_byte:
  fixes c :: u8
  assumes "k < 8"
  shows "(ucast (drop_bit (8 * k) (ucast c * 0x0101010101010101 :: u64)) :: u8) = c"
proof -
  have r: "(ucast c * 0x0101010101010101 :: u64) = load_q (\<lambda>_. c) 0"
    by (simp add: load_q_def upt_conv_Cons algebra_simps)
  show ?thesis unfolding r using load_q_byte [OF assms] .
qed

lemma store_q_load [simp]: "store_q p (load_q m' q) m = (\<lambda>a. if within p 8 a then m' (q + (a - p)) else m a)"
  by (auto simp: store_q_def within_def load_q_byte fun_eq_iff)

lemma store_q_repeated [simp]: "store_q p (ucast c * 0x0101010101010101) m = (\<lambda>a. if within p 8 a then c else m a)"
  by (auto simp: store_q_def within_def repeated_byte fun_eq_iff)

lemma rep_stosq_eq:
  assumes "8 * n \<le> 2 ^ 64"
  shows "rep_stosq n (ucast c * 0x0101010101010101) rdi m = (rdi + of_nat (8 * n), \<lambda>a. if within rdi (8 * n) a then c else m a)"
  using assms
proof (induction n arbitrary: rdi m)
  case (Suc n)
  have s: "within rdi (8 * Suc n) a \<longleftrightarrow> within rdi 8 a \<or> within (rdi + 8) (8 * n) a" for a
    using within_split(1) [of 8 "8 * n" rdi a] Suc.prems by simp
  show ?case using Suc.IH [of "rdi + 8"] Suc.prems unfolding s by (auto simp: fun_eq_iff algebra_simps)
qed simp

lemma rep_stosb_eq:
  assumes "n \<le> 2 ^ 64"
  shows "rep_stosb n c rdi m = (rdi + of_nat n, \<lambda>a. if within rdi n a then c else m a)"
  using assms
proof (induction n arbitrary: rdi m)
  case (Suc n)
  have s: "within rdi (Suc n) a \<longleftrightarrow> a = rdi \<or> within (rdi + 1) n a" for a
    using within_split(1) [of 1 n rdi a] Suc.prems by simp
  show ?case using Suc.IH [of "rdi + 1"] Suc.prems unfolding s by (auto simp: fun_eq_iff algebra_simps)
qed simp

lemma rep_movsq_eq:
  assumes "8 * n \<le> 2 ^ 64" and "\<forall>a. within rdi (8 * n) a \<longrightarrow> \<not> within rsi (8 * n) a"
  shows "rep_movsq n rdi rsi m =
           (rdi + of_nat (8 * n), rsi + of_nat (8 * n), \<lambda>a. if within rdi (8 * n) a then m (rsi + (a - rdi)) else m a)"
  using assms
proof (induction n arbitrary: rdi rsi m)
  case (Suc n)
  have s: "within p (8 * Suc n) a \<longleftrightarrow> within p 8 a \<or> within (p + 8) (8 * n) a" for p a
    using within_split(1) [of 8 "8 * n" p a] Suc.prems(1) by simp
  have not: "within (p + 8) (8 * n) a \<Longrightarrow> \<not> within p 8 a" for p a
    using within_split(2) [of 8 "8 * n" p a] Suc.prems(1) by simp
  have sep: "\<not> within rdi 8 (rsi + (a - rdi))" if "within (rdi + 8) (8 * n) a" for a
  proof -
    have "within rsi (8 * Suc n) (rsi + (a - rdi))" using that s [of rdi a] by (simp add: within_def)
    then show ?thesis using Suc.prems(2) s by blast
  qed
  have "\<forall>a. within (rdi + 8) (8 * n) a \<longrightarrow> \<not> within (rsi + 8) (8 * n) a" using Suc.prems(2) unfolding s by blast
  from Suc.IH [OF _ this] Suc.prems(1) show ?case
    unfolding s using not sep by (auto simp: fun_eq_iff algebra_simps)
qed simp

lemma rep_movsb_eq:
  assumes "n \<le> 2 ^ 64" and "\<forall>a. within rdi n a \<longrightarrow> \<not> within rsi n a"
  shows "rep_movsb n rdi rsi m = (\<lambda>a. if within rdi n a then m (rsi + (a - rdi)) else m a)"
  using assms
proof (induction n arbitrary: rdi rsi m)
  case (Suc n)
  have s: "within p (Suc n) a \<longleftrightarrow> a = p \<or> within (p + 1) n a" for p a
    using within_split(1) [of 1 n p a] Suc.prems(1) by simp
  have not: "within (p + 1) n a \<Longrightarrow> a \<noteq> p" for p a
    using within_split(2) [of 1 n p a] Suc.prems(1) by simp
  have sep: "rsi + (a - rdi) \<noteq> rdi" if "within (rdi + 1) n a" for a
  proof -
    have "within rsi (Suc n) (rsi + (a - rdi))" using that s [of rdi a] by (simp add: within_def)
    then show ?thesis using Suc.prems(2) s by metis
  qed
  have "\<forall>a. within (rdi + 1) n a \<longrightarrow> \<not> within (rsi + 1) n a" using Suc.prems(2) unfolding s by blast
  from Suc.IH [OF _ this] Suc.prems(1) show ?case
    unfolding s using not sep by (auto simp: fun_eq_iff algebra_simps)
qed simp

lemma split_count: "unat n = 8 * unat (n div 8) + unat (n AND 7)" "unat (n AND 7) < 8" for n :: u64
proof -
  have "n AND 7 = take_bit 3 n" by (simp add: take_bit_eq_mask mask_eq_exp_minus_1)
  then have "unat (n AND 7) = unat n mod 8" by (simp only: unsigned_take_bit_eq) (simp add: take_bit_eq_mod)
  then show "unat n = 8 * unat (n div 8) + unat (n AND 7)" "unat (n AND 7) < 8" by (simp_all add: unat_div)
qed

lemma memset_eq: "memset str c n m = (str, \<lambda>a. if within str (unat n) a then ucast c else m a)"
proof -
  let ?q = "unat (n div 8)" let ?r = "unat (n AND 7)"
  have b: "8 * ?q + ?r \<le> 2 ^ 64" "8 * ?q < 2 ^ 64" using split_count [of n] unat_u64_bound [of n] by simp_all
  have s: "within str (unat n) a \<longleftrightarrow> within str (8 * ?q) a \<or> within (str + of_nat (8 * ?q)) ?r a" for a
    unfolding split_count(1) [of n] by (rule within_split(1) [OF b])
  have "8 * ?q \<le> 2 ^ 64" "?r \<le> 2 ^ 64" using b by simp_all
  with rep_stosq_eq [of ?q "ucast c"] rep_stosb_eq [of ?r "ucast c"] show ?thesis
    unfolding memset_def s by (auto simp: fun_eq_iff)
qed

lemma memcpy_eq:
  assumes "\<forall>a. within dst (unat n) a \<longrightarrow> \<not> within src (unat n) a"
  shows "memcpy dst src n m = (dst, \<lambda>a. if within dst (unat n) a then m (src + (a - dst)) else m a)"
proof -
  let ?q = "unat (n div 8)" let ?r = "unat (n AND 7)"
  have b: "8 * ?q + ?r \<le> 2 ^ 64" "8 * ?q < 2 ^ 64" using split_count [of n] unat_u64_bound [of n] by simp_all
  have s: "within p (unat n) a \<longleftrightarrow> within p (8 * ?q) a \<or> within (p + of_nat (8 * ?q)) ?r a" for p a
    unfolding split_count(1) [of n] by (rule within_split(1) [OF b])
  note not = within_split(2) [OF b]
  have d: "\<forall>a. within dst (8 * ?q) a \<longrightarrow> \<not> within src (8 * ?q) a"
    "\<forall>a. within (dst + of_nat (8 * ?q)) ?r a \<longrightarrow> \<not> within (src + of_nat (8 * ?q)) ?r a"
    using assms unfolding s by blast+
  have sep: "\<not> within dst (8 * ?q) (src + (a - dst))" if "within (dst + of_nat (8 * ?q)) ?r a" for a
  proof -
    have "within src (unat n) (src + (a - dst))" using that s [of dst a] by (simp add: within_def)
    then show ?thesis using assms s by blast
  qed
  have "8 * ?q \<le> 2 ^ 64" "?r \<le> 2 ^ 64" using b by simp_all
  with rep_movsq_eq [OF _ d(1)] rep_movsb_eq [OF _ d(2)] show ?thesis
    unfolding memcpy_def s using sep not by (auto simp: fun_eq_iff)
qed

section \<open>The meaning of a string\<close>

definition read_bytes :: "byte_mem \<Rightarrow> u64 \<Rightarrow> nat \<Rightarrow> u8 list" where
  "read_bytes m p n = map (\<lambda>k. m (p + of_nat k)) [0..<n]"

definition text_of :: "byte_mem \<Rightarrow> String \<Rightarrow> u8 list" where
  "text_of m s = read_bytes m (cString s) (unat (s_length s))"

lemma read_bytes_simps [simp]:
  "read_bytes m p 0 = []"
  "read_bytes m p (Suc n) = m p # read_bytes m (p + 1) n"
  "length (read_bytes m p n) = n"
proof -
  have "[0..<Suc n] = 0 # map Suc [0..<n]" by (simp add: map_Suc_upt upt_conv_Cons del: upt_Suc)
  then show "read_bytes m p (Suc n) = m p # read_bytes m (p + 1) n"
    unfolding read_bytes_def by (simp add: add.assoc comp_def del: upt_Suc)
qed (simp_all add: read_bytes_def)

lemma nth_read_bytes [simp]: "k < n \<Longrightarrow> read_bytes m p n ! k = m (p + of_nat k)"
  by (simp add: read_bytes_def)

lemma read_bytes_drop_take: "take k (drop j (read_bytes m p n)) = read_bytes m (p + of_nat j) (min k (n - j))"
  by (rule nth_equalityI) (auto simp: add.assoc)

lemma length_text_of [simp]: "length (text_of m s) = unat (s_length s)"
  by (simp add: text_of_def)

lemma text_of_empty [simp]: "text_of m String_empty = []" "s_length s = 0 \<Longrightarrow> text_of m s = []"
  by (simp_all add: text_of_def String_empty_def)

lemma text_of_String_of [simp]: "text_of m (String_of p n) = read_bytes m p (unat n)"
  by (simp add: text_of_def String_of_def)

section \<open>Comparison\<close>

lemma memcmp_loop_zero: "memcmp_loop n a b m = 0 \<longleftrightarrow> read_bytes m a n = read_bytes m b n"
  by (induction n arbitrary: a b) (auto simp: word_uint_eq_iff)

lemma memeq_iff: "memeq a b n m \<longleftrightarrow> read_bytes m a (unat n) = read_bytes m b (unat n)"
  by (simp add: memeq_def memcmp_def memcmp_loop_zero)

lemma startsWith_iff: "startsWith s other m \<longleftrightarrow> prefix (text_of m other) (text_of m s)"
proof -
  have "prefix (text_of m other) (text_of m s) \<longleftrightarrow>
    unat (s_length other) \<le> unat (s_length s) \<and> take (unat (s_length other)) (text_of m s) = text_of m other"
    using prefix_length_le [of "text_of m other" "text_of m s"] by (auto simp: prefix_def take_is_prefix)
      (metis append_take_drop_id)
  moreover have "take (unat (s_length other)) (text_of m s) = read_bytes m (cString s) (unat (s_length other))"
    if "unat (s_length other) \<le> unat (s_length s)"
    using read_bytes_drop_take [of _ 0 m "cString s"] that by (simp add: text_of_def min_def)
  ultimately show ?thesis by (auto simp: startsWith_def memeq_iff word_le_nat_alt text_of_def)
qed

lemma String_eq_iff: "String_eq s other m \<longleftrightarrow> text_of m s = text_of m other"
proof (cases "s_length other = s_length s")
  case False
  have "text_of m s \<noteq> text_of m other"
  proof
    assume "text_of m s = text_of m other"
    from arg_cong [OF this, of length] False show False by (simp add: word_unat_eq_iff)
  qed
  with False show ?thesis by (auto simp: String_eq_def)
qed (simp add: String_eq_def memeq_iff text_of_def)

section \<open>Substrings\<close>

lemma text_of_subString: "text_of m (subString s b e) = take (unat e - unat b) (drop (unat b) (text_of m s))"
proof (cases "b > s_length s \<or> b > e")
  case True
  then show ?thesis by (auto simp: subString_def word_less_nat_alt)
next
  case False
  let ?e = "if e > s_length s then s_length s else e"
  have "b \<le> ?e" using False by auto
  then have "unat (?e - b) = unat ?e - unat b" by (rule unat_sub)
  also have "\<dots> = min (unat e - unat b) (unat (s_length s) - unat b)" using False by (auto simp: word_less_nat_alt)
  finally show ?thesis using False
    by (auto simp: subString_def Let_def text_of_def String_of_def read_bytes_drop_take split: if_splits)
qed

lemma text_of_subString_from: "text_of m (subString_from s b) = drop (unat b) (text_of m s)"
  by (simp add: subString_from_def text_of_subString)

lemma String_at_eq: "String_at s i m = (if unat i < length (text_of m s) then text_of m s ! unat i else 0)"
  by (simp add: String_at_def text_of_def word_less_nat_alt)

section \<open>Search\<close>

text \<open>A string that lies in the address space without wrapping around, not at address 0.\<close>

definition string_ok :: "String \<Rightarrow> bool" where
  "string_ok s \<longleftrightarrow> (s_length s \<noteq> 0 \<longrightarrow> cString s \<noteq> nullptr) \<and> unat (cString s) + unat (s_length s) < 2 ^ 64"

lemma memchr_loop_found:
  assumes "unat str + n < 2 ^ 64" and "str \<noteq> 0" and "sint (c :: u32) = uint (d :: u8)"
  shows "memchr_loop n str c m =
           (if d \<in> set (read_bytes m str n) then str + of_nat (length (takeWhile (\<lambda>x. x \<noteq> d) (read_bytes m str n))) else nullptr)"
  using assms
proof (induction n arbitrary: str)
  case (Suc n)
  have u: "unat (str + 1) = unat str + 1" using Suc.prems(1) unat_add_u64 [of str 1] by simp
  then have "str + 1 \<noteq> 0" by (metis Zero_not_Suc add.commute plus_1_eq_Suc unat_0)
  with Suc.IH [of "str + 1"] Suc.prems u show ?case by (auto simp: add.assoc word_uint_eq_iff)
qed simp

lemma sint_scast_char: "unat c < 128 \<Longrightarrow> sint (scast (c :: u8) :: u32) = uint c"
proof -
  assume "unat c < 128"
  then have "uint c < 128" by (metis uint_nat of_nat_less_iff of_nat_numeral)
  moreover have "- 128 \<le> uint c" by (rule order_trans [of _ 0]) simp_all
  ultimately have "signed_take_bit 7 (uint c) = uint c" by (intro signed_take_bit_int_eq_self) simp_all
  then have "sint c = uint c" by (simp add: sint_uint)
  moreover have "sint (scast c :: u32) = sint c" by (simp add: sint_up_scast is_up)
  ultimately show ?thesis by simp
qed

lemma findNext_text:
  assumes "string_ok s" and "unat c < 128"
  shows "text_of m (findNext s c m) = dropWhile (\<lambda>x. x \<noteq> c) (tl (text_of m s))" and "string_ok (findNext s c m)"
    and "String_is_null (findNext s c m) \<longleftrightarrow> c \<notin> set (tl (text_of m s))"
proof -
  let ?p = "cString s" let ?n = "s_length s"
  have goal: "text_of m (findNext s c m) = dropWhile (\<lambda>x. x \<noteq> c) (tl (text_of m s)) \<and> string_ok (findNext s c m) \<and>
    (String_is_null (findNext s c m) \<longleftrightarrow> c \<notin> set (tl (text_of m s)))"
  proof (cases "?n = 0")
    case True
    then show ?thesis by (simp add: findNext_def string_ok_def String_is_null_def) (simp add: String_empty_def)
  next
    case False
    then obtain k where k: "unat ?n = Suc k" by (metis not0_implies_Suc unat_eq_zero)
    then have k1: "unat (?n - 1) = k" using unat_minus_one [OF False] by simp
    have p: "?p \<noteq> 0" "unat ?p + Suc k < 2 ^ 64" using assms(1) False k by (simp_all add: string_ok_def)
    have u: "unat (?p + 1) = unat ?p + 1" using p(2) unat_add_u64 [of ?p 1] by simp
    then have nz: "?p + 1 \<noteq> 0" by (metis Zero_not_Suc add.commute plus_1_eq_Suc unat_0)
    let ?r = "read_bytes m (?p + 1) k"
    have tl: "tl (text_of m s) = ?r" by (simp add: text_of_def k)
    let ?j = "length (takeWhile (\<lambda>x. x \<noteq> c) ?r)"
    have mc: "memchr (?p + 1) (scast c) (?n - 1) m = (if c \<in> set ?r then ?p + 1 + of_nat ?j else nullptr)"
      unfolding memchr_def k1 using memchr_loop_found [of "?p + 1" k "scast c" c m] p(2) u nz sint_scast_char [OF assms(2)] by simp
    show ?thesis
    proof (cases "c \<in> set ?r")
      case False
      then have dw: "dropWhile (\<lambda>x. x \<noteq> c) ?r = []" by (auto simp: dropWhile_eq_Nil_conv)
      have f: "findNext s c m = String_empty" unfolding findNext_def Let_def mc using False \<open>?n \<noteq> 0\<close> by simp
      show ?thesis unfolding f tl dw using False by (simp add: string_ok_def String_is_null_def) (simp add: String_empty_def)
    next
      case True
      have "dropWhile (\<lambda>x. x \<noteq> c) ?r \<noteq> []" using True by (auto simp: dropWhile_eq_Nil_conv)
      then have "?j < ?j + length (dropWhile (\<lambda>x. x \<noteq> c) ?r)" by simp
      also have "\<dots> = k" by (metis length_append takeWhile_dropWhile_id read_bytes_simps(3))
      finally have j: "?j < k" .
      then have uj: "unat (?p + 1 + of_nat ?j) = unat ?p + 1 + ?j"
        using unat_add_u64 [of "?p + 1" "of_nat ?j"] p(2) u by (simp add: unat_of_nat_small)
      then have nzj: "?p + 1 + of_nat ?j \<noteq> 0" by (metis One_nat_def Zero_not_Suc add_Suc add_Suc_right unat_0)
      have end_at: "unat (?p + ?n) = unat ?p + Suc k" using unat_add_u64 [of ?p ?n] p(2) k by simp
      have le: "?p + 1 + of_nat ?j \<le> ?p + ?n" using j by (simp add: word_le_nat_alt uj end_at)
      have len: "unat (?p + ?n - (?p + 1 + of_nat ?j)) = k - ?j" unfolding unat_sub [OF le] uj end_at by simp
      have f: "findNext s c m = String_of (?p + 1 + of_nat ?j) (?p + ?n - (?p + 1 + of_nat ?j))"
        unfolding findNext_def Let_def mc using False True nzj by simp
      have "dropWhile (\<lambda>x. x \<noteq> c) ?r = drop ?j ?r" by (rule dropWhile_eq_drop)
      also have "\<dots> = read_bytes m (?p + 1 + of_nat ?j) (k - ?j)"
        using read_bytes_drop_take [of "k - ?j" ?j m "?p + 1" k] by simp
      finally have t: "text_of m (findNext s c m) = dropWhile (\<lambda>x. x \<noteq> c) (tl (text_of m s))"
        unfolding f tl text_of_String_of len by simp
      have "string_ok (findNext s c m)" unfolding f string_ok_def using nzj uj len p(2) j by (simp add: String_of_def)
      moreover have "\<not> String_is_null (findNext s c m)" unfolding f String_is_null_def using nzj by (simp add: String_of_def)
      ultimately show ?thesis using t True tl by simp
    qed
  qed
  then show "text_of m (findNext s c m) = dropWhile (\<lambda>x. x \<noteq> c) (tl (text_of m s))" "string_ok (findNext s c m)"
    "String_is_null (findNext s c m) \<longleftrightarrow> c \<notin> set (tl (text_of m s))" by simp_all
qed

lemma findBefore_text:
  assumes "string_ok s" and "unat c < 128" and "text_of m s = x # xs"
  shows "text_of m (findBefore s c m) = x # takeWhile (\<lambda>x. x \<noteq> c) xs"
proof -
  have n: "unat (s_length (findNext s c m)) = length (dropWhile (\<lambda>x. x \<noteq> c) xs)"
    using arg_cong [OF findNext_text(1) [OF assms(1,2), of m], of length] assms(3) by simp
  have l: "unat (s_length s) = Suc (length xs)" using arg_cong [OF assms(3), of length] by simp
  have ls: "length xs = length (takeWhile (\<lambda>x. x \<noteq> c) xs) + length (dropWhile (\<lambda>x. x \<noteq> c) xs)"
    by (metis length_append takeWhile_dropWhile_id)
  have "s_length (findNext s c m) \<le> s_length s" by (simp add: word_le_nat_alt n l) (simp add: ls)
  then have "unat (s_length s - s_length (findNext s c m)) = Suc (length (takeWhile (\<lambda>x. x \<noteq> c) xs))"
    using ls by (simp add: unat_sub n l)
  then show ?thesis by (simp add: findBefore_def text_of_subString assms(3) takeWhile_eq_take [symmetric])
qed

lemma string_ok_subString [simp]:
  assumes "string_ok s"
  shows "string_ok (subString s b e)"
proof (cases "b > s_length s \<or> b > e")
  case True
  then have "subString s b e = String_empty" by (auto simp: subString_def)
  then show ?thesis by (simp add: string_ok_def) (simp add: String_empty_def)
next
  case False
  let ?e = "if e > s_length s then s_length s else e"
  have sub: "subString s b e = String_of (cString s + b) (?e - b)" using False by (simp add: subString_def Let_def)
  have be: "b \<le> ?e" "?e \<le> s_length s" using False by auto
  then have bl: "unat b \<le> unat ?e" "unat ?e \<le> unat (s_length s)" by (simp_all add: word_le_nat_alt)
  have ub: "unat (cString s + b) = unat (cString s) + unat b"
    by (rule unat_add_u64) (use assms bl in \<open>simp add: string_ok_def\<close>)
  have "cString s + b \<noteq> nullptr" if "?e - b \<noteq> 0"
  proof -
    have "unat (?e - b) \<noteq> 0" using that by (simp add: unat_eq_zero del: if_split)
    then have "s_length s \<noteq> 0" using bl unat_sub [OF be(1)] by (auto simp del: if_split)
    then have "unat (cString s) \<noteq> 0" using assms by (simp add: string_ok_def unat_eq_zero)
    then have "unat (cString s + b) \<noteq> 0" unfolding ub by simp
    then show ?thesis by auto
  qed
  moreover have "unat (cString s + b) + unat (?e - b) < 2 ^ 64"
    unfolding ub unat_sub [OF be(1)] using assms bl by (simp add: string_ok_def del: if_split)
  ultimately show ?thesis unfolding sub string_ok_def String_of_def by (simp del: if_split)
qed

section \<open>C strings\<close>

lemma strlen_loop_ok:
  assumes "\<forall>k < n. m (p + of_nat k) \<noteq> 0" and "m (p + of_nat n) = 0" and "i + n < 2 ^ 31"
  shows "strlen_loop p i m = Inr (i + n)"
  using assms
proof (induction n arbitrary: p i)
  case 0
  then show ?case by (subst strlen_loop.simps) simp
next
  case (Suc n)
  have "m p \<noteq> 0" using Suc.prems(1) [rule_format, of 0] by simp
  moreover have "m (p + 1 + of_nat k) \<noteq> 0" if "k < n" for k
    using Suc.prems(1) [rule_format, of "Suc k"] that by (simp add: add.assoc)
  moreover have "m (p + 1 + of_nat n) = 0" using Suc.prems(2) by (simp add: add.assoc)
  ultimately have "strlen_loop (p + 1) (i + 1) m = Inr (i + Suc n)" using Suc.IH [of "p + 1" "i + 1"] Suc.prems(3) by simp
  then show ?case using \<open>m p \<noteq> 0\<close> Suc.prems(3) by (subst strlen_loop.simps) simp
qed

text \<open>A zero-terminated list of bytes at an address.\<close>

definition c_string :: "byte_mem \<Rightarrow> u64 \<Rightarrow> u8 list \<Rightarrow> bool" where
  "c_string m p bs \<longleftrightarrow> read_bytes m p (length bs) = bs \<and> m (p + of_nat (length bs)) = 0 \<and> 0 \<notin> set bs \<and> length bs < 2 ^ 31"

lemma strlen_ok: "c_string m p bs \<Longrightarrow> strlen p m = Inr (length bs)"
  unfolding strlen_def
  using strlen_loop_ok [of "length bs" m p 0] by (fastforce simp: c_string_def in_set_conv_nth list_eq_iff_nth_eq)

lemma String_cstr_ok:
  assumes "c_string m p bs"
  shows "\<exists>s. String_cstr p m = Inr s \<and> text_of m s = bs \<and> cString s = p"
  using assms strlen_ok [OF assms] by (auto simp: String_cstr_def c_string_def unat_of_nat_small String_of_def text_of_def)

section \<open>Properties\<close>

text \<open>
  \<^verbatim>\<open>memcpy\<close> and \<^verbatim>\<open>memset\<close>, eight bytes at a time with a rest: when source and destination do not
  overlap, every byte of the destination is the corresponding byte of the source and no other byte
  changes; setting fills exactly the range, for every length and also across the end of the address space.
\<close>

theorem memcpy_memset_correct:
  assumes "\<forall>a. within dst (unat n) a \<longrightarrow> \<not> within src (unat n) a"
  shows "memcpy dst src n m = (dst, \<lambda>a. if within dst (unat n) a then m (src + (a - dst)) else m a) \<and>
         memset dst c n m = (dst, \<lambda>a. if within dst (unat n) a then ucast c else m a)"
  using memcpy_eq [OF assms] memset_eq by blast

theorem memcpy_memset_correct_witness:
  "snd (memcpy 0x1000 0x2000 13 (\<lambda>a. ucast a)) 0x100C = 0x0C \<and> snd (memset 0x1000 0x1AB 13 (\<lambda>a. 7)) 0x100C = 0xAB"
proof -
  have sep: "\<forall>a :: u64. within 0x1000 (unat (13 :: u64)) a \<longrightarrow> \<not> within 0x2000 (unat (13 :: u64)) a"
    using within_apart [of "0x1000" 13 "0x2000" 13] by auto
  from memcpy_memset_correct [OF sep] show ?thesis by (simp add: within_def)
qed

text \<open>
  (C20) The class \<^verbatim>\<open>String\<close> implements lists of bytes: equality and \<^verbatim>\<open>startsWith\<close> are equality and prefix of the
  contents wherever they are stored, \<^verbatim>\<open>subString\<close> is a slice clipped to the string, \<^verbatim>\<open>findNext\<close> is the rest from
  the next occurrence after the first character and \<^verbatim>\<open>findBefore\<close> is what comes before it, for characters below
  128.
\<close>

theorem string_operations_correct:
  assumes "string_ok s" and "unat c < 128"
  shows "(String_eq s t m \<longleftrightarrow> text_of m s = text_of m t) \<and>
         (startsWith s t m \<longleftrightarrow> prefix (text_of m t) (text_of m s)) \<and>
         text_of m (subString s b e) = take (unat e - unat b) (drop (unat b) (text_of m s)) \<and>
         text_of m (findNext s c m) = dropWhile (\<lambda>x. x \<noteq> c) (tl (text_of m s)) \<and>
         text_of m (findBefore s c m) =
           (case text_of m s of [] \<Rightarrow> [] | x # xs \<Rightarrow> x # takeWhile (\<lambda>x. x \<noteq> c) xs)"
proof -
  have "text_of m (findBefore s c m) = (case text_of m s of [] \<Rightarrow> [] | x # xs \<Rightarrow> x # takeWhile (\<lambda>x. x \<noteq> c) xs)"
  proof (cases "text_of m s")
    case Nil
    then show ?thesis by (simp add: findBefore_def text_of_subString)
  next
    case (Cons x xs)
    with findBefore_text [OF assms Cons] show ?thesis by simp
  qed
  then show ?thesis
    using String_eq_iff startsWith_iff text_of_subString findNext_text(1) [OF assms] by blast
qed

theorem string_operations_correct_witness:
  "let m = (\<lambda>a. if a = 0x12 then 0x2F else 0x61) in
   text_of m (findBefore (String_of 0x10 5) 0x2F m) = [0x61, 0x61] \<and> text_of m (findNext (String_of 0x10 5) 0x2F m) = [0x2F, 0x61, 0x61]"
proof -
  let ?m = "\<lambda>a. if a = (0x12 :: u64) then 0x2F else (0x61 :: u8)"
  have t: "text_of ?m (String_of 0x10 5) = [0x61, 0x61, 0x2F, 0x61, 0x61]"
    by (simp add: read_bytes_def upt_conv_Cons)
  have "string_ok (String_of 0x10 5)" "unat (0x2F :: u8) < 128" by (simp_all add: string_ok_def String_of_def)
  from string_operations_correct [OF this, of _ ?m] show ?thesis unfolding Let_def t by simp
qed

text \<open>
  A byte from 128 on is never found: \<^verbatim>\<open>memchr\<close> compares the unsigned byte with the sign-extended argument.
\<close>

lemma memchr_high_byte:
  assumes "sint c < 0"
  shows "memchr str c n m = nullptr"
proof -
  have "uint (m str) \<noteq> sint c" for str using assms by (metis not_less uint_ge_0)
  then have "memchr_loop k str c m = nullptr" for k by (induction k arbitrary: str) simp_all
  then show ?thesis by (simp add: memchr_def)
qed

end
