(* ===== verification/Vfs.thy ===== *)
theory Vfs
  imports Vector Byte_Strings
begin

text \<open>
  The virtual file system (\<^verbatim>\<open>fs.h\<close>, \<^verbatim>\<open>fsProvider.h\<close>, \<^verbatim>\<open>fs/vfs/vfs.cpp\<close>). A node of the tree is an element of a
  heap block: the root alone in block 0, the others in the arrays of their parents' vectors of children, by value.
  A file system is a provider, a record with one function for each virtual member function; a node names
  its provider by number and every operation takes the table of providers, which is the dynamic dispatch of the
  code. The operations are those of one task: a node's mutex that is already held is a deadlock. Names are
  \<^verbatim>\<open>String\<close>s in a byte memory \<open>m\<close> that the operations on the tree do not change.
\<close>

section \<open>State\<close>

datatype FileType = NONE | FILE | DIRECTORY

datatype FileError = OKAY | CLOSED | NOT_FOUND | READ_ONLY | NOT_FILE | NOT_DIRECTORY | BUSY

record file_node =
  fn_name :: String
  fn_type :: FileType
  fn_openCount :: u64
  fn_children :: vec
  fn_node :: "addr option"
  fn_lock :: bool
  fn_fsProvider :: "nat option"
  fn_populated :: bool

definition FileNode_default :: file_node where
  "FileNode_default = \<lparr>fn_name = String_empty, fn_type = NONE, fn_openCount = 0, fn_children = Vector_empty, fn_node = None,
     fn_lock = False, fn_fsProvider = None, fn_populated = False\<rparr>"

type_synonym tree = "file_node heap"

definition root_addr :: addr where
  "root_addr = (0, 0)"

record fs_provider =
  op_read :: "file_node \<Rightarrow> u64 \<Rightarrow> u64 \<Rightarrow> ptr \<Rightarrow> byte_mem \<Rightarrow> (u64 \<times> byte_mem) result"
  op_write :: "file_node \<Rightarrow> u64 \<Rightarrow> u64 \<Rightarrow> ptr \<Rightarrow> byte_mem \<Rightarrow> (u64 \<times> byte_mem) result"
  op_populateDirectory :: "byte_mem \<Rightarrow> addr \<Rightarrow> tree \<Rightarrow> tree result"
  op_initRoot :: "addr \<Rightarrow> tree \<Rightarrow> tree result"
  op_freeNode :: "addr \<Rightarrow> tree \<Rightarrow> tree result"

type_synonym providers = "nat \<Rightarrow> fs_provider"

text \<open>The implementations that class \<^verbatim>\<open>FsProvider\<close> has for the functions that are not pure virtual.\<close>

definition FsProvider_read :: "file_node \<Rightarrow> u64 \<Rightarrow> u64 \<Rightarrow> ptr \<Rightarrow> byte_mem \<Rightarrow> (u64 \<times> byte_mem) result" where
  "FsProvider_read node offset length0 buffer m = Inr (0, m)"

definition FsProvider_write :: "file_node \<Rightarrow> u64 \<Rightarrow> u64 \<Rightarrow> ptr \<Rightarrow> byte_mem \<Rightarrow> (u64 \<times> byte_mem) result" where
  "FsProvider_write node offset length0 buffer m = Inr (0, m)"

definition FsProvider_populateDirectory :: "byte_mem \<Rightarrow> addr \<Rightarrow> tree \<Rightarrow> tree result" where
  "FsProvider_populateDirectory m directory t = Inr t"

record file_handle =
  fh_node :: "addr option"
  fh_writable :: bool
  fh_open :: bool
  fh_error :: FileError

definition FileHandle_empty :: file_handle where
  "FileHandle_empty = \<lparr>fh_node = None, fh_writable = False, fh_open = False, fh_error = CLOSED\<rparr>"

definition initializeRoot :: "tree \<Rightarrow> tree result" where
  "initializeRoot t = rbind (load root_addr t) (\<lambda>n. store root_addr (n\<lparr>fn_type := DIRECTORY\<rparr>) t)"

section \<open>Node access\<close>

definition update_node :: "addr \<Rightarrow> (file_node \<Rightarrow> file_node) \<Rightarrow> tree \<Rightarrow> tree result" where
  "update_node p f t = rbind (load p t) (\<lambda>n. store p (f n) t)"

definition node_ptr :: "file_handle \<Rightarrow> addr result" where
  "node_ptr h = (case fh_node h of None \<Rightarrow> Inl NullDereference | Some p \<Rightarrow> Inr p)"

definition lock_node :: "addr \<Rightarrow> tree \<Rightarrow> tree result" where
  "lock_node p t = rbind (load p t) (\<lambda>n. if fn_lock n then Inl Deadlock else store p (n\<lparr>fn_lock := True\<rparr>) t)"

definition unlock_node :: "addr \<Rightarrow> tree \<Rightarrow> tree result" where
  "unlock_node p t = update_node p (\<lambda>n. n\<lparr>fn_lock := False\<rparr>) t"

section \<open>Handles\<close>

definition count_open :: "addr \<Rightarrow> tree \<Rightarrow> tree result" where
  "count_open p t =
     rbind (lock_node p t) (\<lambda>t1. rbind (update_node p (\<lambda>n. n\<lparr>fn_openCount := fn_openCount n + 1\<rparr>) t1) (unlock_node p))"

definition FileHandle_node :: "addr \<Rightarrow> bool \<Rightarrow> tree \<Rightarrow> (file_handle \<times> tree) result" where
  "FileHandle_node p writable t =
     rbind (count_open p t) (\<lambda>t1. Inr (\<lparr>fh_node = Some p, fh_writable = writable, fh_open = True, fh_error = OKAY\<rparr>, t1))"

definition getType :: "file_handle \<Rightarrow> tree \<Rightarrow> (FileType \<times> tree) result" where
  "getType h t =
     (if fh_open h then
        rbind (node_ptr h) (\<lambda>p.
        rbind (lock_node p t) (\<lambda>t1.
        rbind (load p t1) (\<lambda>n.
        rbind (unlock_node p t1) (\<lambda>t2. Inr (fn_type n, t2)))))
      else Inr (NONE, t))"

definition close :: "file_handle \<Rightarrow> tree \<Rightarrow> (file_handle \<times> tree) result" where
  "close h t =
     (if fh_open h then
        rbind (node_ptr h) (\<lambda>p.
        rbind (lock_node p t) (\<lambda>t1.
        rbind (update_node p (\<lambda>n. n\<lparr>fn_openCount := fn_openCount n - 1\<rparr>) t1) (\<lambda>t2.
        rbind (unlock_node p t2) (\<lambda>t3. Inr (h\<lparr>fh_node := None, fh_error := CLOSED\<rparr>, t3)))))
      else Inr (h, t))"

section \<open>Children\<close>

definition populate :: "providers \<Rightarrow> byte_mem \<Rightarrow> addr \<Rightarrow> tree \<Rightarrow> tree result" where
  "populate prov m p t =
     rbind (load p t) (\<lambda>n.
       if \<not> fn_populated n then
         (case fn_fsProvider n of None \<Rightarrow> Inl NullDereference | Some i \<Rightarrow> op_populateDirectory (prov i) m p t)
       else Inr t)"

text \<open>
  What \<^verbatim>\<open>childName\<close>, \<^verbatim>\<open>openChild\<close> and \<^verbatim>\<open>findChild\<close> have in common: the checks, the lock, the population of the
  directory, and the result \<open>dflt\<close> when the \<open>action\<close> on the children finds nothing.
\<close>

definition with_children ::
  "providers \<Rightarrow> byte_mem \<Rightarrow> 'r \<Rightarrow> (vec \<Rightarrow> tree \<Rightarrow> ('r option \<times> tree) result) \<Rightarrow> file_handle \<Rightarrow> tree \<Rightarrow> ('r \<times> file_handle \<times> tree) result" where
  "with_children prov m dflt action h t =
     (if fh_open h then
        rbind (node_ptr h) (\<lambda>p.
        rbind (lock_node p t) (\<lambda>t1.
        rbind (load p t1) (\<lambda>n.
          if fn_type n = DIRECTORY then
            rbind (populate prov m p t1) (\<lambda>t2.
            rbind (load p t2) (\<lambda>n2.
            rbind (action (fn_children n2) t2) (\<lambda>(r, t3).
            rbind (unlock_node p t3) (\<lambda>t4. Inr (case r of None \<Rightarrow> dflt | Some x \<Rightarrow> x, h, t4)))))
          else rbind (unlock_node p t1) (\<lambda>t2. Inr (dflt, h\<lparr>fh_error := NOT_DIRECTORY\<rparr>, t2)))))
      else Inr (dflt, h, t))"

definition childName :: "providers \<Rightarrow> byte_mem \<Rightarrow> u64 \<Rightarrow> file_handle \<Rightarrow> tree \<Rightarrow> (String \<times> file_handle \<times> tree) result" where
  "childName prov m index =
     with_children prov m String_empty (\<lambda>children t.
       if index < Vector_getSize children then
         (case Vector_at children index of None \<Rightarrow> Inl NullDereference
          | Some c \<Rightarrow> rbind (load c t) (\<lambda>n. Inr (Some (fn_name n), t)))
       else Inr (None, t))"

definition openChild :: "providers \<Rightarrow> byte_mem \<Rightarrow> u64 \<Rightarrow> bool \<Rightarrow> file_handle \<Rightarrow> tree \<Rightarrow> (file_handle \<times> file_handle \<times> tree) result" where
  "openChild prov m index writable =
     with_children prov m FileHandle_empty (\<lambda>children t.
       if index < Vector_getSize children then
         (case Vector_at children index of None \<Rightarrow> Inl NullDereference
          | Some c \<Rightarrow> rbind (FileHandle_node c writable t) (\<lambda>(r, t1). Inr (Some r, t1)))
       else Inr (None, t))"

text \<open>The search of \<^verbatim>\<open>findChild\<close>, with the indices that are left.\<close>

fun findChild_loop :: "byte_mem \<Rightarrow> String \<Rightarrow> vec \<Rightarrow> u64 list \<Rightarrow> tree \<Rightarrow> u64 option result" where
  "findChild_loop m name children [] t = Inr None"
| "findChild_loop m name children (i # is) t =
     (case Vector_at children i of None \<Rightarrow> Inl NullDereference
      | Some c \<Rightarrow> rbind (load c t) (\<lambda>entry.
          if String_eq (fn_name entry) name m then Inr (Some i) else findChild_loop m name children is t))"

definition findChild :: "providers \<Rightarrow> byte_mem \<Rightarrow> String \<Rightarrow> file_handle \<Rightarrow> tree \<Rightarrow> (u64 \<times> file_handle \<times> tree) result" where
  "findChild prov m name =
     with_children prov m SIZE_MAX (\<lambda>children t.
       rbind (findChild_loop m name children (map of_nat [0..<unat (Vector_getSize children)]) t) (\<lambda>r. Inr (r, t)))"

section \<open>Opening a path\<close>

definition slash :: u8 where
  "slash = 0x2F"

lemma s_length_subString_from:
  assumes "1 \<le> s_length s"
  shows "unat (s_length (subString_from s 1)) < unat (s_length s)"
proof -
  have "unat (s_length s - 1) < unat (s_length s)" using assms by (simp add: unat_sub word_le_nat_alt)
  with assms show ?thesis by (auto simp: subString_from_def subString_def String_empty_def String_of_def)
qed

function skip_slashes :: "String \<Rightarrow> byte_mem \<Rightarrow> String" where
  "skip_slashes path m = (if String_at path 0 m = slash then skip_slashes (subString_from path 1) m else path)"
  by pat_completeness auto
termination
proof (relation "measure (\<lambda>(path, m). unat (s_length path))")
  fix path m
  assume "String_at path 0 m = slash"
  then have "1 \<le> s_length path" by (auto simp: String_at_def slash_def word_le_nat_alt word_less_nat_alt split: if_splits)
  then show "((subString_from path 1, m), path, m) \<in> measure (\<lambda>(path, m). unat (s_length path))"
    using s_length_subString_from by simp
qed simp

declare skip_slashes.simps [simp del]

lemma s_length_skip_slashes: "unat (s_length (skip_slashes path m)) \<le> unat (s_length path)"
proof (induction path m rule: skip_slashes.induct)
  case (1 path m)
  show ?case
  proof (cases "String_at path 0 m = slash")
    case True
    then have "1 \<le> s_length path" by (auto simp: String_at_def slash_def word_le_nat_alt word_less_nat_alt split: if_splits)
    with 1 True s_length_subString_from [of path] show ?thesis by (simp add: skip_slashes.simps [of path])
  qed (simp add: skip_slashes.simps [of path])
qed

lemma memchr_loop_range: "memchr_loop n p c m \<noteq> nullptr \<Longrightarrow> \<exists>k < n. memchr_loop n p c m = p + of_nat k"
proof (induction n arbitrary: p)
  case (Suc n)
  show ?case
  proof (cases "uint (m p) = sint c")
    case False
    with Suc obtain k where "k < n" "memchr_loop n (p + 1) c m = p + 1 + of_nat k" by auto
    with False show ?thesis by (intro exI [of _ "Suc k"]) (simp add: add.assoc)
  qed (auto intro: exI [of _ 0])
qed simp

lemma s_length_findNext:
  assumes "s_length s \<noteq> 0"
  shows "unat (s_length (findNext s c m)) < unat (s_length s)"
proof -
  have pos: "0 < unat (s_length s)" using assms by (simp add: unat_gt_0)
  let ?match = "memchr (cString s + 1) (scast c) (s_length s - 1) m"
  show ?thesis
  proof (cases "?match = nullptr")
    case True
    with assms pos show ?thesis by (simp add: findNext_def String_empty_def)
  next
    case False
    then obtain k where k: "k < unat (s_length s - 1)" "?match = cString s + 1 + of_nat k"
      using memchr_loop_range unfolding memchr_def by blast
    have n: "unat (s_length s - 1) = unat (s_length s) - 1" using assms by (rule unat_minus_one)
    have "cString s + s_length s - ?match = s_length s - of_nat (Suc k)" unfolding k(2) by (simp add: algebra_simps)
    moreover have "unat (s_length s - of_nat (Suc k)) = unat (s_length s) - Suc k"
      using k(1) n unat_sub_of_nat [of "Suc k" "s_length s"] le_less_trans [OF _ unat_u64_bound [of "s_length s"], of "Suc k"] by simp
    moreover have "s_length (findNext s c m) = cString s + s_length s - ?match"
      using False assms by (simp add: findNext_def Let_def String_of_def)
    ultimately have "unat (s_length (findNext s c m)) = unat (s_length s) - Suc k" by (simp only:)
    with pos show ?thesis by simp
  qed
qed

lemma findBefore_nonempty: "s_length (findBefore s c m) \<noteq> 0 \<Longrightarrow> s_length s \<noteq> 0"
  by (auto simp: findBefore_def subString_def findNext_def String_empty_def String_of_def split: if_splits)

text \<open>
  The loop of the constructor. The result is the handle of the last component, or nothing when a component
  was not found and the constructor returned early.
\<close>

function open_loop :: "providers \<Rightarrow> byte_mem \<Rightarrow> file_handle \<Rightarrow> String \<Rightarrow> tree \<Rightarrow> (file_handle option \<times> tree) result" where
  "open_loop prov m current path t =
     (if len path > 0 then
        (let path1 = skip_slashes path m;
             currentComponent = findBefore path1 slash m
         in if len currentComponent = 0 then Inr (Some current, t)
            else rbind (findChild prov m currentComponent current t) (\<lambda>(nextIndex, current1, t1).
                   if nextIndex = SIZE_MAX then rbind (close current1 t1) (\<lambda>(_, t2). Inr (None, t2))
                   else rbind (openChild prov m nextIndex False current1 t1) (\<lambda>(next1, current2, t2).
                        rbind (close current2 t2) (\<lambda>(_, t3). open_loop prov m next1 (findNext path1 slash m) t3))))
      else Inr (Some current, t))"
  by pat_completeness auto
termination
proof (relation "measure (\<lambda>(prov, m, current, path, t). unat (s_length path))")
  fix prov :: providers and m :: byte_mem and current next1 :: file_handle and path path1 currentComponent :: String and t t3 :: tree
  assume p: "path1 = skip_slashes path m" and c: "currentComponent = findBefore path1 slash m" "len currentComponent \<noteq> 0"
  then have "s_length path1 \<noteq> 0" using findBefore_nonempty by (simp add: len_def)
  with s_length_findNext [OF this, of slash m] s_length_skip_slashes [of path m] p
  show "((prov, m, next1, findNext path1 slash m, t3), prov, m, current, path, t) \<in> measure (\<lambda>(prov, m, current, path, t). unat (s_length path))"
    by simp
qed simp

declare open_loop.simps [simp del]

definition FileHandle_path :: "providers \<Rightarrow> byte_mem \<Rightarrow> String \<Rightarrow> bool \<Rightarrow> tree \<Rightarrow> (file_handle \<times> tree) result" where
  "FileHandle_path prov m path writable t =
     rbind (FileHandle_node root_addr False t) (\<lambda>(current, t1).
     rbind (open_loop prov m current path t1) (\<lambda>(r, t2).
       case r of
         None \<Rightarrow> Inr (\<lparr>fh_node = None, fh_writable = writable, fh_open = False, fh_error = NOT_FOUND\<rparr>, t2)
       | Some current1 \<Rightarrow>
           rbind (close current1 t2) (\<lambda>(_, t3).
           rbind (node_ptr current1) (\<lambda>p.
           rbind (count_open p t3) (\<lambda>t4.
             Inr (\<lparr>fh_node = Some p, fh_writable = writable, fh_open = True, fh_error = OKAY\<rparr>, t4))))))"

section \<open>Reading, writing, mounting\<close>

definition fs_read :: "providers \<Rightarrow> u64 \<Rightarrow> u64 \<Rightarrow> ptr \<Rightarrow> file_handle \<Rightarrow> tree \<Rightarrow> byte_mem \<Rightarrow> (u64 \<times> file_handle \<times> tree \<times> byte_mem) result" where
  "fs_read prov offset length0 buffer h t m =
     (if fh_open h then
        rbind (node_ptr h) (\<lambda>p.
        rbind (lock_node p t) (\<lambda>t1.
        rbind (load p t1) (\<lambda>n.
          if fn_type n = FILE then
            (case fn_fsProvider n of None \<Rightarrow> Inl NullDereference
             | Some i \<Rightarrow> rbind (op_read (prov i) n offset length0 buffer m) (\<lambda>(result, m1).
                         rbind (unlock_node p t1) (\<lambda>t2. Inr (result, h, t2, m1))))
          else rbind (unlock_node p t1) (\<lambda>t2. Inr (0, h\<lparr>fh_error := NOT_FILE\<rparr>, t2, m)))))
      else Inr (0, h, t, m))"

definition fs_write :: "providers \<Rightarrow> u64 \<Rightarrow> u64 \<Rightarrow> ptr \<Rightarrow> file_handle \<Rightarrow> tree \<Rightarrow> byte_mem \<Rightarrow> (u64 \<times> file_handle \<times> tree \<times> byte_mem) result" where
  "fs_write prov offset length0 buffer h t m =
     (if fh_open h \<and> fh_writable h then
        rbind (node_ptr h) (\<lambda>p.
        rbind (lock_node p t) (\<lambda>t1.
        rbind (load p t1) (\<lambda>n.
          if fn_type n = FILE then
            (case fn_fsProvider n of None \<Rightarrow> Inl NullDereference
             | Some i \<Rightarrow> rbind (op_write (prov i) n offset length0 buffer m) (\<lambda>(result, m1).
                         rbind (unlock_node p t1) (\<lambda>t2. Inr (result, h, t2, m1))))
          else rbind (unlock_node p t1) (\<lambda>t2. Inr (0, h\<lparr>fh_error := NOT_FILE\<rparr>, t2, m)))))
      else if \<not> fh_writable h then Inr (0, h\<lparr>fh_error := READ_ONLY\<rparr>, t, m)
      else Inr (0, h, t, m))"

definition mount :: "providers \<Rightarrow> nat \<Rightarrow> file_handle \<Rightarrow> tree \<Rightarrow> (file_handle \<times> tree) result" where
  "mount prov fsProvider h t =
     (if fh_open h then
        if fh_writable h then
          rbind (node_ptr h) (\<lambda>p.
          rbind (lock_node p t) (\<lambda>t1.
          rbind (load p t1) (\<lambda>n.
            if fn_type n = DIRECTORY then
              if Vector_getSize (fn_children n) = 0 \<and> fn_openCount n = 1 then
                rbind (case fn_fsProvider n of None \<Rightarrow> Inr t1 | Some i \<Rightarrow> op_freeNode (prov i) p t1) (\<lambda>t2.
                rbind (update_node p (\<lambda>n. n\<lparr>fn_fsProvider := Some fsProvider, fn_populated := False\<rparr>) t2) (\<lambda>t3.
                rbind (op_initRoot (prov fsProvider) p t3) (\<lambda>t4.
                rbind (unlock_node p t4) (\<lambda>t5. Inr (h, t5)))))
              else rbind (unlock_node p t1) (\<lambda>t2. Inr (h\<lparr>fh_error := BUSY\<rparr>, t2))
            else rbind (unlock_node p t1) (\<lambda>t2. Inr (h\<lparr>fh_error := NOT_DIRECTORY\<rparr>, t2)))))
        else Inr (h\<lparr>fh_error := READ_ONLY\<rparr>, t)
      else Inr (h, t))"

definition isOpen :: "file_handle \<Rightarrow> bool" where
  "isOpen h = fh_open h"

definition getError :: "file_handle \<Rightarrow> FileError" where
  "getError h = fh_error h"

definition okay :: "file_handle \<Rightarrow> bool" where
  "okay h \<longleftrightarrow> getError h = OKAY"

section \<open>Loads and stores\<close>

lemma load_store:
  assumes "load p h = Inr x"
  shows "\<exists>h'. store p y h = Inr h' \<and> load p h' = Inr y \<and> store p x h' = Inr h \<and> (\<forall>z. store p z h' = store p z h) \<and>
           (\<forall>b. b \<noteq> fst p \<longrightarrow> hp_blocks h' b = hp_blocks h b) \<and> hp_next h' = hp_next h"
proof -
  from assms obtain xs where xs: "hp_blocks h (fst p) = Some xs" "snd p < length xs" "xs ! snd p = x"
    by (auto simp: load_def split: option.splits if_splits)
  have "xs[snd p := x] = xs" using xs(3) by (metis list_update_id)
  moreover from this have "h\<lparr>hp_blocks := (hp_blocks h)(fst p \<mapsto> xs[snd p := x])\<rparr> = h"
    using xs(1) by (simp add: fun_upd_idem)
  ultimately show ?thesis using xs by (simp add: load_def store_def)
qed

lemma store_idem: "load p h = Inr x \<Longrightarrow> store p x h = Inr h"
  using load_store [of p h x x] by (auto simp: load_def store_def split: option.splits if_splits)

lemma unlocked_id [simp]: "\<not> fn_lock n \<Longrightarrow> n\<lparr>fn_lock := False\<rparr> = n"
  by (cases n) simp

lemma update_locked:
  assumes "load p t = Inr n" and "\<not> fn_lock n"
  shows "\<exists>t1. lock_node p t = Inr t1 \<and> load p t1 = Inr (n\<lparr>fn_lock := True\<rparr>) \<and> (\<forall>y. store p y t1 = store p y t) \<and>
           (\<forall>b. b \<noteq> fst p \<longrightarrow> hp_blocks t1 b = hp_blocks t b) \<and> hp_next t1 = hp_next t"
  using load_store [OF assms(1), of "n\<lparr>fn_lock := True\<rparr>"] assms by (auto simp: lock_node_def)

text \<open>Locking, looking at the node and unlocking leave the tree as it was.\<close>

lemma unlock_locked:
  assumes "load p t = Inr n" and "\<not> fn_lock n" and "load p t1 = Inr (n\<lparr>fn_lock := True\<rparr>)" and "\<forall>y. store p y t1 = store p y t"
  shows "unlock_node p t1 = Inr t"
  using assms store_idem [OF assms(1)] by (simp add: unlock_node_def update_node_def)

lemma count_open_ok:
  assumes "load p t = Inr n" and "\<not> fn_lock n"
  shows "count_open p t = store p (n\<lparr>fn_openCount := fn_openCount n + 1\<rparr>) t"
proof -
  from update_locked [OF assms] obtain t1 where
    t1: "lock_node p t = Inr t1" "load p t1 = Inr (n\<lparr>fn_lock := True\<rparr>)" "\<forall>y. store p y t1 = store p y t" by blast
  from load_store [OF t1(2), of "n\<lparr>fn_lock := True, fn_openCount := fn_openCount n + 1\<rparr>"] obtain t2 where
    t2: "store p (n\<lparr>fn_lock := True, fn_openCount := fn_openCount n + 1\<rparr>) t1 = Inr t2"
      "load p t2 = Inr (n\<lparr>fn_lock := True, fn_openCount := fn_openCount n + 1\<rparr>)" by blast
  have "store p y t2 = store p y t1" for y
    using load_store [OF t1(2), of "n\<lparr>fn_lock := True, fn_openCount := fn_openCount n + 1\<rparr>"] t2(1) by auto
  with t1 t2 assms(2) show ?thesis by (simp add: count_open_def update_node_def unlock_node_def)
qed

lemma close_ok:
  assumes "fh_open h" and "fh_node h = Some p" and "load p t = Inr n" and "\<not> fn_lock n"
  shows "close h t = rbind (store p (n\<lparr>fn_openCount := fn_openCount n - 1\<rparr>) t) (\<lambda>t'. Inr (h\<lparr>fh_node := None, fh_error := CLOSED\<rparr>, t'))"
proof -
  from update_locked [OF assms(3,4)] obtain t1 where
    t1: "lock_node p t = Inr t1" "load p t1 = Inr (n\<lparr>fn_lock := True\<rparr>)" "\<forall>y. store p y t1 = store p y t" by blast
  from load_store [OF t1(2), of "n\<lparr>fn_lock := True, fn_openCount := fn_openCount n - 1\<rparr>"] obtain t2 where
    t2: "store p (n\<lparr>fn_lock := True, fn_openCount := fn_openCount n - 1\<rparr>) t1 = Inr t2"
      "load p t2 = Inr (n\<lparr>fn_lock := True, fn_openCount := fn_openCount n - 1\<rparr>)" by blast
  have "store p y t2 = store p y t1" for y
    using load_store [OF t1(2), of "n\<lparr>fn_lock := True, fn_openCount := fn_openCount n - 1\<rparr>"] t2(1) by auto
  with t1 t2 assms show ?thesis by (simp add: close_def node_ptr_def update_node_def unlock_node_def)
qed

lemma with_children_not_directory:
  assumes "fh_open h" and "fh_node h = Some p" and "load p t = Inr n" and "\<not> fn_lock n" and "fn_type n \<noteq> DIRECTORY"
  shows "with_children prov m dflt action h t = Inr (dflt, h\<lparr>fh_error := NOT_DIRECTORY\<rparr>, t)"
proof -
  from update_locked [OF assms(3,4)] obtain t1 where
    t1: "lock_node p t = Inr t1" "load p t1 = Inr (n\<lparr>fn_lock := True\<rparr>)" "\<forall>y. store p y t1 = store p y t" by blast
  from unlock_locked [OF assms(3,4) t1(2,3)] t1 assms show ?thesis by (simp add: with_children_def node_ptr_def)
qed

section \<open>Properties of handles\<close>

text \<open>
  Opening a node and closing the handle again restores the tree exactly, open count and lock included; the
  handle then reports \<^verbatim>\<open>CLOSED\<close>.
\<close>

theorem open_close_roundtrip:
  assumes "load p t = Inr n" and "\<not> fn_lock n"
  shows "\<exists>h t1 h'. FileHandle_node p w t = Inr (h, t1) \<and> okay h \<and> load p t1 = Inr (n\<lparr>fn_openCount := fn_openCount n + 1\<rparr>) \<and>
           close h t1 = Inr (h', t) \<and> getError h' = CLOSED"
proof -
  let ?n = "n\<lparr>fn_openCount := fn_openCount n + 1\<rparr>"
  from load_store [OF assms(1), of ?n] obtain t1 where
    t1: "store p ?n t = Inr t1" "load p t1 = Inr ?n" "store p n t1 = Inr t" by blast
  let ?h = "\<lparr>fh_node = Some p, fh_writable = w, fh_open = True, fh_error = OKAY\<rparr>"
  have "FileHandle_node p w t = Inr (?h, t1)" using count_open_ok [OF assms] t1(1) by (simp add: FileHandle_node_def)
  moreover have "close ?h t1 = Inr (?h\<lparr>fh_node := None, fh_error := CLOSED\<rparr>, t)"
    using close_ok [of ?h p t1 ?n] t1 assms(2) by simp
  ultimately show ?thesis using t1(2) by (simp add: okay_def getError_def)
qed

definition example_tree :: tree where
  "example_tree = \<lparr>hp_blocks = [0 \<mapsto> [FileNode_default\<lparr>fn_type := DIRECTORY\<rparr>]], hp_next = 1\<rparr>"

lemma example_tree_root: "load root_addr example_tree = Inr (FileNode_default\<lparr>fn_type := DIRECTORY\<rparr>)"
  by (simp add: load_def root_addr_def example_tree_def)

theorem open_close_roundtrip_witness:
  "\<exists>h t1 h'. FileHandle_node root_addr True example_tree = Inr (h, t1) \<and> okay h \<and> close h t1 = Inr (h', example_tree) \<and> getError h' = CLOSED"
  using open_close_roundtrip [OF example_tree_root, of True] by (auto simp: FileNode_default_def)


definition default_provider :: fs_provider where
  "default_provider = \<lparr>op_read = FsProvider_read, op_write = FsProvider_write, op_populateDirectory = FsProvider_populateDirectory,
     op_initRoot = (\<lambda>_. Inr), op_freeNode = (\<lambda>_. Inr)\<rparr>"


text \<open>
  A closed handle is not closed: \<^verbatim>\<open>close\<close> forgets to clear \<^verbatim>\<open>open\<close>, so that every later operation on the
  handle, another \<^verbatim>\<open>close\<close> included, follows the null pointer instead of doing nothing as documented.
\<close>

theorem close_leaves_open:
  assumes "fh_open h" and "close h t = Inr (h', t')"
  shows "isOpen h' \<and> getType h' t' = Inl NullDereference \<and> close h' t' = Inl NullDereference \<and>
         findChild prov m name h' t' = Inl NullDereference \<and> fs_read prov off k buf h' t' m = Inl NullDereference"
proof -
  have "fh_open h'" "fh_node h' = None" using assms by (auto simp: close_def)
  then show ?thesis by (simp add: isOpen_def getType_def close_def findChild_def with_children_def fs_read_def node_ptr_def)
qed

theorem close_leaves_open_witness:
  "\<exists>h t h' t'. FileHandle_node root_addr True example_tree = Inr (h, t) \<and> close h t = Inr (h', t') \<and> getType h' t' = Inl NullDereference"
proof -
  from load_store [OF example_tree_root] count_open_ok [OF example_tree_root] obtain h t where
    h: "FileHandle_node root_addr True example_tree = Inr (h, t)" "fh_open h" "fh_node h = Some root_addr"
    and t: "load root_addr t = Inr (FileNode_default\<lparr>fn_type := DIRECTORY, fn_openCount := 1\<rparr>)"
    by (fastforce simp: FileHandle_node_def FileNode_default_def)
  from close_ok [OF h(2,3) t] load_store [OF t] obtain h' t' where c: "close h t = Inr (h', t')"
    by (fastforce simp: FileNode_default_def)
  from close_leaves_open [OF h(2) c] h(1) c show ?thesis by blast
qed

section \<open>Paths\<close>

text \<open>The components of a path: what is between slashes, empty parts left out.\<close>

fun split_on :: "'a \<Rightarrow> 'a list \<Rightarrow> 'a list list" where
  "split_on d [] = [[]]"
| "split_on d (x # xs) = (if x = d then [] # split_on d xs else (case split_on d xs of [] \<Rightarrow> [[x]] | w # ws \<Rightarrow> (x # w) # ws))"

definition components :: "u8 list \<Rightarrow> u8 list list" where
  "components bs = filter (\<lambda>c. c \<noteq> []) (split_on slash bs)"

lemma split_on_word:
  "split_on d xs = takeWhile (\<lambda>x. x \<noteq> d) xs # (case dropWhile (\<lambda>x. x \<noteq> d) xs of [] \<Rightarrow> [] | _ # ys \<Rightarrow> split_on d ys)"
  by (induction xs) auto

lemma components_slash: "components (slash # bs) = components bs"
  by (simp add: components_def)

lemma components_dropWhile: "components (dropWhile (\<lambda>x. x = slash) bs) = components bs"
  by (induction bs) (auto simp: components_slash)

lemma components_word:
  assumes "x \<noteq> slash"
  shows "components (x # xs) = (x # takeWhile (\<lambda>x. x \<noteq> slash) xs) # components (dropWhile (\<lambda>x. x \<noteq> slash) xs)"
proof (cases "dropWhile (\<lambda>x. x \<noteq> slash) xs")
  case Nil
  have "split_on slash (x # xs) = [x # takeWhile (\<lambda>x. x \<noteq> slash) xs]"
    unfolding split_on_word [of slash "x # xs"] using assms by (simp add: Nil del: dropWhile_eq_Nil_conv)
  then show ?thesis unfolding Nil by (simp only: components_def) simp
next
  case (Cons y ys)
  then have "y = slash" using hd_dropWhile [of "\<lambda>x. x \<noteq> slash" xs] by auto
  moreover have "components (x # xs) = (x # takeWhile (\<lambda>x. x \<noteq> slash) xs) # components ys"
    using assms Cons split_on_word [of slash "x # xs"] by (simp add: components_def)
  ultimately show ?thesis using Cons by (simp add: components_slash)
qed

lemma skip_slashes_text:
  "text_of m (skip_slashes s m) = dropWhile (\<lambda>x. x = slash) (text_of m s)" "string_ok s \<Longrightarrow> string_ok (skip_slashes s m)"
proof (induction s m rule: skip_slashes.induct)
  case (1 s m)
  have nz: "slash \<noteq> 0" by (simp add: slash_def)
  have at: "String_at s 0 m = slash \<longleftrightarrow> (\<exists>xs. text_of m s = slash # xs)"
    using nz by (cases "text_of m s") (auto simp: String_at_eq simp del: length_text_of)
  {
    case 1
    show ?case
    proof (cases "String_at s 0 m = slash")
      case True
      then obtain xs where xs: "text_of m s = slash # xs" using at by blast
      with True "1.IH"(1) [OF True] show ?thesis by (simp add: skip_slashes.simps [of s] text_of_subString_from)
    next
      case False
      with at show ?thesis by (cases "text_of m s") (auto simp: skip_slashes.simps [of s])
    qed
  next
    case 2
    then show ?case using "1.IH"(2) by (simp add: skip_slashes.simps [of s] subString_from_def)
  }
qed

text \<open>The reference: walk down the components by name.\<close>

fun first_named :: "byte_mem \<Rightarrow> u8 list \<Rightarrow> vec \<Rightarrow> u64 list \<Rightarrow> tree \<Rightarrow> u64 option result" where
  "first_named m name children [] t = Inr None"
| "first_named m name children (i # is) t =
     (case Vector_at children i of None \<Rightarrow> Inl NullDereference
      | Some c \<Rightarrow> rbind (load c t) (\<lambda>entry.
          if text_of m (fn_name entry) = name then Inr (Some i) else first_named m name children is t))"

definition find_named :: "providers \<Rightarrow> byte_mem \<Rightarrow> u8 list \<Rightarrow> file_handle \<Rightarrow> tree \<Rightarrow> (u64 \<times> file_handle \<times> tree) result" where
  "find_named prov m name =
     with_children prov m SIZE_MAX (\<lambda>children t.
       rbind (first_named m name children (map of_nat [0..<unat (v_size children)]) t) (\<lambda>r. Inr (r, t)))"

fun resolve :: "providers \<Rightarrow> byte_mem \<Rightarrow> file_handle \<Rightarrow> u8 list list \<Rightarrow> tree \<Rightarrow> (file_handle option \<times> tree) result" where
  "resolve prov m current [] t = Inr (Some current, t)"
| "resolve prov m current (c # cs) t =
     rbind (find_named prov m c current t) (\<lambda>(i, current1, t1).
       if i = SIZE_MAX then rbind (close current1 t1) (\<lambda>(_, t2). Inr (None, t2))
       else rbind (openChild prov m i False current1 t1) (\<lambda>(child, current2, t2).
            rbind (close current2 t2) (\<lambda>(_, t3). resolve prov m child cs t3)))"

lemma findChild_named: "findChild prov m s = find_named prov m (text_of m s)"
proof -
  have "findChild_loop m s v is t = first_named m (text_of m s) v is t" for v "is" t
    by (induction "is") (auto simp: String_eq_iff split: option.splits intro!: arg_cong [where f = "rbind _"])
  then show ?thesis by (simp add: findChild_def find_named_def Vector_getSize_def)
qed

lemma open_loop_resolve:
  assumes "string_ok path"
  shows "open_loop prov m current path t = resolve prov m current (components (text_of m path)) t"
  using assms
proof (induction prov m current path t rule: open_loop.induct)
  case (1 prov m current path t)
  let ?p = "skip_slashes path m" let ?c = "findBefore ?p slash m"
  have ok: "string_ok ?p" by (rule skip_slashes_text(2) [OF "1.prems"])
  have sl: "unat slash < 128" by (simp add: slash_def)
  have comps: "components (text_of m path) = components (text_of m ?p)" by (simp add: skip_slashes_text(1) components_dropWhile)
  show ?case
  proof (cases "text_of m ?p")
    case Nil
    then have "text_of m ?c = []" by (simp add: findBefore_def text_of_subString)
    then have "len ?c = 0" by (metis len_def length_text_of list.size(3) unat_eq_zero)
    moreover have "components (text_of m path) = []" unfolding comps Nil by (simp add: components_def)
    ultimately show ?thesis by (simp add: open_loop.simps [of prov m current path] Let_def)
  next
    case (Cons x xs)
    have x: "x \<noteq> slash" using Cons skip_slashes_text(1) [of m path] hd_dropWhile [of "\<lambda>x. x = slash" "text_of m path"] by auto
    have c: "text_of m ?c = x # takeWhile (\<lambda>x. x \<noteq> slash) xs" by (rule findBefore_text [OF ok sl Cons])
    then have cn: "len ?c \<noteq> 0" by (auto simp: len_def)
    have "text_of m path \<noteq> []" using Cons skip_slashes_text(1) [of m path] by auto
    then have pn: "len path > 0" by (auto simp: len_def word_neq_0_conv [symmetric])
    have nx: "text_of m (findNext ?p slash m) = dropWhile (\<lambda>x. x \<noteq> slash) xs" "string_ok (findNext ?p slash m)"
      using findNext_text(1,2) [OF ok sl, of m] Cons by simp_all
    have IH: "open_loop prov m child (findNext ?p slash m) t3 = resolve prov m child (components (dropWhile (\<lambda>x. x \<noteq> slash) xs)) t3" for child t3
      using "1.IH" [OF pn refl refl cn _ nx(2), of 0 child t3] unfolding nx(1) by simp
    show ?thesis
      unfolding comps Cons components_word [OF x] c [symmetric]
      by (subst open_loop.simps, unfold Let_def IH) (simp add: pn cn findChild_named)
  qed
qed

text \<open>
  (C21) Opening a path is walking down its components: the constructor's loop over slashes, substrings and
  searches visits exactly the non-empty parts between slashes, from the root, comparing names by content; leading,
  doubled and trailing slashes make no difference, and the walk stops at the first component that is missing.
\<close>

theorem open_path_equivalence:
  assumes "string_ok path"
  shows "open_loop prov m current path t = resolve prov m current (components (text_of m path)) t"
  by (rule open_loop_resolve [OF assms])

theorem open_path_equivalence_witness:
  "open_loop (\<lambda>_. default_provider) (\<lambda>_. slash) FileHandle_empty (String_of 0x1000 3) example_tree = Inr (Some FileHandle_empty, example_tree)"
proof -
  have "string_ok (String_of 0x1000 3)" by (simp add: string_ok_def String_of_def)
  from open_path_equivalence [OF this, of "\<lambda>_. default_provider" "\<lambda>_. slash" FileHandle_empty example_tree] show ?thesis
    by (simp add: read_bytes_def components_def upt_conv_Cons)
qed

section \<open>Directories\<close>

text \<open>\<^verbatim>\<open>directory.children.push_back(child)\<close>: the vector is a member of a node that is itself in the heap.\<close>

definition push_child :: "addr \<Rightarrow> file_node \<Rightarrow> tree \<Rightarrow> tree result" where
  "push_child p child t =
     rbind (load p t) (\<lambda>n.
     rbind (push_back FileNode_default child (fn_children n) t) (\<lambda>(v, t1). update_node p (\<lambda>n. n\<lparr>fn_children := v\<rparr>) t1))"

definition node_at :: "addr \<Rightarrow> tree \<Rightarrow> file_node" where
  "node_at p t = (case load p t of Inl _ \<Rightarrow> FileNode_default | Inr n \<Rightarrow> n)"

definition children_of :: "addr \<Rightarrow> tree \<Rightarrow> file_node list" where
  "children_of p t = elems (fn_children (node_at p t)) t"

definition dir_ok :: "addr \<Rightarrow> tree \<Rightarrow> bool" where
  "dir_ok p t \<longleftrightarrow> load p t = Inr (node_at p t) \<and> vec_ok (fn_children (node_at p t)) t \<and> v_data (fn_children (node_at p t)) \<noteq> Some (fst p)"

text \<open>Two trees that differ at most in the contents of one node other than its children.\<close>

definition dir_step :: "addr \<Rightarrow> tree \<Rightarrow> tree \<Rightarrow> bool" where
  "dir_step p t t' \<longleftrightarrow> dir_ok p t' \<and> children_of p t' = children_of p t \<and> fn_children (node_at p t') = fn_children (node_at p t)"

lemma elems_other_block:
  assumes "v_data v \<noteq> Some b" and "\<forall>b'. b' \<noteq> b \<longrightarrow> hp_blocks t' b' = hp_blocks t b'"
  shows "elems v t' = elems v t" and "arrays_ok t' = arrays_ok t \<Longrightarrow> vec_ok v t' = vec_ok v t"
proof -
  have eq: "hp_blocks t' b' = hp_blocks t b'" if "v_data v = Some b'" for b' using assms that by auto
  then show "elems v t' = elems v t" by (simp add: elems_def split: option.splits)
  show "arrays_ok t' = arrays_ok t \<Longrightarrow> vec_ok v t' = vec_ok v t" using eq by (simp add: vec_ok_def split: option.splits)
qed

lemma store_node:
  assumes "dir_ok p t" and "fn_children n = fn_children (node_at p t)"
  shows "\<exists>t'. store p n t = Inr t' \<and> node_at p t' = n \<and> dir_step p t t' \<and> hp_next t' = hp_next t \<and>
           (\<forall>b. b \<noteq> fst p \<longrightarrow> hp_blocks t' b = hp_blocks t b) \<and> (\<forall>z. store p z t' = store p z t)"
proof -
  let ?v = "fn_children (node_at p t)"
  have l: "load p t = Inr (node_at p t)" and v: "vec_ok ?v t" "v_data ?v \<noteq> Some (fst p)" using assms(1) by (simp_all add: dir_ok_def)
  from load_store [OF l, of n] obtain t' where
    t': "store p n t = Inr t'" "load p t' = Inr n" "\<forall>z. store p z t' = store p z t"
      "\<forall>b. b \<noteq> fst p \<longrightarrow> hp_blocks t' b = hp_blocks t b" "hp_next t' = hp_next t" by blast
  have n: "node_at p t' = n" using t'(2) by (simp add: node_at_def)
  have "hp_blocks t (fst p) \<noteq> None" "hp_blocks t' (fst p) \<noteq> None" using l t'(2) by (auto simp: load_def split: option.splits)
  then have "arrays_ok t' = arrays_ok t" using t'(4,5) by (auto simp: arrays_ok_def) (metis option.distinct(1))+
  from elems_other_block [OF v(2) t'(4)] this have "elems ?v t' = elems ?v t" "vec_ok ?v t'" using v(1) by simp_all
  with t' n v(2) assms(2) show ?thesis by (intro exI [of _ t']) (simp add: dir_step_def dir_ok_def children_of_def)
qed

lemma push_child_ok:
  assumes "dir_ok p t" and "length (children_of p t) < VECTOR_LIMIT"
  shows "\<exists>t'. push_child p c t = Inr t' \<and> dir_ok p t' \<and> children_of p t' = children_of p t @ [c] \<and>
           (\<exists>v. node_at p t' = (node_at p t)\<lparr>fn_children := v\<rparr>) \<and> hp_next t \<le> hp_next t' \<and>
           (\<forall>b < hp_next t. hp_blocks t b = None \<longrightarrow> hp_blocks t' b = None) \<and>
           (\<forall>b. v_data (fn_children (node_at p t)) = Some b \<longrightarrow> v_size (fn_children (node_at p t)) = v_capacity (fn_children (node_at p t)) \<longrightarrow>
              hp_blocks t' b = None) \<and>
           (v_size (fn_children (node_at p t)) < v_capacity (fn_children (node_at p t)) \<longrightarrow>
              v_data (fn_children (node_at p t')) = v_data (fn_children (node_at p t)) \<and>
              v_capacity (fn_children (node_at p t')) = v_capacity (fn_children (node_at p t)))"
proof -
  let ?n = "node_at p t" let ?v = "fn_children (node_at p t)"
  have l: "load p t = Inr ?n" and v: "vec_ok ?v t" "v_data ?v \<noteq> Some (fst p)" using assms(1) by (simp_all add: dir_ok_def)
  from push_back_ok [OF v(1), of FileNode_default c] assms(2) obtain v1 t1 where
    r: "push_back FileNode_default c ?v t = Inr (v1, t1)" "vec_ok v1 t1" "elems v1 t1 = elems ?v t @ [c]" "heap_frame ?v t t1"
      "if v_size ?v < v_capacity ?v then v_data v1 = v_data ?v \<and> v_capacity v1 = v_capacity ?v
       else v_data v1 = Some (hp_next t) \<and> (\<forall>b. v_data ?v = Some b \<longrightarrow> hp_blocks t1 b = None)"
    by (auto simp: children_of_def)
  have p: "hp_blocks t (fst p) \<noteq> None" using l by (auto simp: load_def split: option.splits)
  then have pn: "fst p < hp_next t" using vec_okD(1) [OF v(1)] by (force simp: arrays_ok_def not_less [symmetric])
  then have "hp_blocks t1 (fst p) = hp_blocks t (fst p)" using r(4) v(2) by (auto simp: heap_frame_def)
  then have l1: "load p t1 = Inr ?n" using l by (simp add: load_def)
  have v1: "v_data v1 \<noteq> Some (fst p)" using r(5) v(2) pn by (auto split: if_splits)
  let ?n1 = "?n\<lparr>fn_children := v1\<rparr>"
  from load_store [OF l1, of ?n1] obtain t' where
    t': "store p ?n1 t1 = Inr t'" "load p t' = Inr ?n1" "\<forall>b. b \<noteq> fst p \<longrightarrow> hp_blocks t' b = hp_blocks t1 b" "hp_next t' = hp_next t1" by blast
  have n': "node_at p t' = ?n1" using t'(2) by (simp add: node_at_def)
  have "hp_blocks t1 (fst p) \<noteq> None" "hp_blocks t' (fst p) \<noteq> None" using l1 t'(2) by (auto simp: load_def split: option.splits)
  then have "arrays_ok t' = arrays_ok t1" using t'(3,4) by (auto simp: arrays_ok_def) (metis option.distinct(1))+
  from elems_other_block [OF v1 t'(3)] this have e: "elems v1 t' = elems v1 t1" "vec_ok v1 t'" using r(2) by simp_all
  have run: "push_child p c t = Inr t'" using l r(1) l1 t'(1) by (simp add: push_child_def update_node_def)
  have none: "hp_blocks t' b = None" if "b < hp_next t" "hp_blocks t b = None" for b
  proof -
    have "v_data ?v \<noteq> Some b" using that(2) v(1) by (auto simp: vec_ok_def)
    then have "hp_blocks t1 b = None" using r(4) that by (simp add: heap_frame_def)
    then show ?thesis using t'(3) p that(2) by (metis)
  qed
  have freed: "hp_blocks t' b = None" if "v_data ?v = Some b" "v_size ?v = v_capacity ?v" for b
  proof -
    have "b \<noteq> fst p" using that(1) v(2) by auto
    then show ?thesis using r(5) that t'(3) by simp
  qed
  show ?thesis
    using run e r(3,5) n' v1 t'(2,4) r(4) none freed
    by (intro exI [of _ t']) (auto simp: dir_ok_def children_of_def heap_frame_def)
qed

text \<open>A directory as a growing sequence of children.\<close>

interpretation ch: growing_sequence "dir_ok p" "children_of p" "push_child p" VECTOR_LIMIT
  for p :: addr
  by unfold_locales (use push_child_ok in blast)

text \<open>What stays of a directory while children are added, and when the addresses of the earlier ones are lost.\<close>

definition dir_grows :: "addr \<Rightarrow> tree \<Rightarrow> tree \<Rightarrow> bool" where
  "dir_grows p t t' \<longleftrightarrow> (\<exists>v. node_at p t' = (node_at p t)\<lparr>fn_children := v\<rparr>) \<and> hp_next t \<le> hp_next t' \<and>
     (\<forall>b < hp_next t. hp_blocks t b = None \<longrightarrow> hp_blocks t' b = None)"

lemma dir_grows_trans:
  assumes "dir_grows p t t1" and "dir_grows p t1 t2"
  shows "dir_grows p t t2"
proof -
  obtain v w where "node_at p t1 = (node_at p t)\<lparr>fn_children := v\<rparr>" "node_at p t2 = (node_at p t1)\<lparr>fn_children := w\<rparr>"
    using assms by (auto simp: dir_grows_def)
  then have "\<exists>v. node_at p t2 = (node_at p t)\<lparr>fn_children := v\<rparr>" by (intro exI [of _ w]) simp
  with assms show ?thesis by (auto simp: dir_grows_def)
qed

definition push_children :: "addr \<Rightarrow> file_node list \<Rightarrow> tree \<Rightarrow> tree result" where
  "push_children p = for_each (push_child p)"

lemma push_children_ok:
  assumes "dir_ok p t" and "length (children_of p t) + length cs \<le> VECTOR_LIMIT"
  shows "\<exists>t'. push_children p cs t = Inr t' \<and> dir_ok p t' \<and> children_of p t' = children_of p t @ cs \<and> dir_grows p t t' \<and>
           (\<forall>b. v_data (fn_children (node_at p t)) = Some b \<longrightarrow>
              unat (v_capacity (fn_children (node_at p t))) < length (children_of p t) + length cs \<longrightarrow> hp_blocks t' b = None)"
  using assms
proof (induction cs arbitrary: t)
  case Nil
  have "length (children_of p t) \<le> unat (v_capacity (fn_children (node_at p t)))"
    using Nil(1) vec_okD(2,4) unfolding dir_ok_def children_of_def by metis
  with Nil show ?case by (auto simp: push_children_def dir_grows_def intro: exI [of _ "fn_children (node_at p t)"])
next
  case (Cons c cs)
  let ?v = "fn_children (node_at p t)"
  have ok: "vec_ok ?v t" using Cons.prems(1) by (simp add: dir_ok_def)
  from push_child_ok [OF Cons.prems(1), of c] Cons.prems(2) obtain t1 where
    t1: "push_child p c t = Inr t1" "dir_ok p t1" "children_of p t1 = children_of p t @ [c]"
      "\<exists>v. node_at p t1 = (node_at p t)\<lparr>fn_children := v\<rparr>" "hp_next t \<le> hp_next t1" "\<forall>b < hp_next t. hp_blocks t b = None \<longrightarrow> hp_blocks t1 b = None"
      "\<forall>b. v_data ?v = Some b \<longrightarrow> v_size ?v = v_capacity ?v \<longrightarrow> hp_blocks t1 b = None"
      "v_size ?v < v_capacity ?v \<longrightarrow> v_data (fn_children (node_at p t1)) = v_data ?v \<and> v_capacity (fn_children (node_at p t1)) = v_capacity ?v"
    by (auto simp del: rbind_eq_Inr)
  have g: "dir_grows p t t1" using t1(4-6) by (simp add: dir_grows_def)
  from Cons.IH [OF t1(2)] Cons.prems(2) t1(3) obtain t' where
    t': "push_children p cs t1 = Inr t'" "dir_ok p t'" "children_of p t' = children_of p t @ c # cs" "dir_grows p t1 t'"
      "\<forall>b. v_data (fn_children (node_at p t1)) = Some b \<longrightarrow>
         unat (v_capacity (fn_children (node_at p t1))) < length (children_of p t) + Suc (length cs) \<longrightarrow> hp_blocks t' b = None" by auto
  have "hp_blocks t' b = None"
    if b: "v_data ?v = Some b" and c: "unat (v_capacity ?v) < length (children_of p t) + Suc (length cs)" for b
  proof (cases "v_size ?v < v_capacity ?v")
    case True
    with t1(8) t'(5) b c show ?thesis by simp
  next
    case False
    then have "v_size ?v = v_capacity ?v" using ok by (auto simp: vec_ok_def)
    with t1(7) b have "hp_blocks t1 b = None" by simp
    moreover have "b < hp_next t" using vec_array [OF ok b] by blast
    ultimately show ?thesis using t'(4) t1(5) by (auto simp: dir_grows_def)
  qed
  then show ?case
    using t1(1) t' dir_grows_trans [OF g t'(4)] by (intro exI [of _ t']) (simp add: push_children_def)
qed

section \<open>What a file system promises\<close>

text \<open>
  The contract of \<^verbatim>\<open>FsProvider::populateDirectory\<close>: for a directory that is one of its own (\<open>valid\<close>), it appends a
  list of children that depends on the directory's name and identity only.
\<close>

locale directory_provider =
  fixes populateDirectory :: "byte_mem \<Rightarrow> addr \<Rightarrow> tree \<Rightarrow> tree result"
    and valid :: "file_node \<Rightarrow> bool"
    and listing :: "byte_mem \<Rightarrow> file_node \<Rightarrow> file_node list"
  assumes populates: "dir_ok p t \<Longrightarrow> valid (node_at p t) \<Longrightarrow>
            length (children_of p t) + length (listing m (node_at p t)) \<le> VECTOR_LIMIT \<Longrightarrow>
            populateDirectory m p t = push_children p (listing m (node_at p t)) t"
    and valid_frame: "valid (n\<lparr>fn_children := v, fn_lock := l\<rparr>) = valid n"
    and listing_frame: "listing m (n\<lparr>fn_children := v, fn_lock := l\<rparr>) = listing m n"
begin

text \<open>
  A lookup in a directory of such a file system that is not marked as populated runs its action on the directory with the whole listing
  appended, under the lock.
\<close>

lemma lookup_runs:
  assumes h: "fh_open h" "fh_node h = Some p" and d: "dir_ok p t" "\<not> fn_lock (node_at p t)" "fn_type (node_at p t) = DIRECTORY"
    and u: "\<not> fn_populated (node_at p t)" and i: "fn_fsProvider (node_at p t) = Some i" "op_populateDirectory (prov i) = populateDirectory"
    and v: "valid (node_at p t)" and lim: "length (children_of p t) + length (listing m (node_at p t)) \<le> VECTOR_LIMIT"
  shows "\<exists>t2 w. with_children prov m dflt action h t =
      rbind (action w t2) (\<lambda>(r, t3). rbind (unlock_node p t3) (\<lambda>t4. Inr (case r of None \<Rightarrow> dflt | Some x \<Rightarrow> x, h, t4))) \<and>
    dir_ok p t2 \<and> node_at p t2 = (node_at p t)\<lparr>fn_lock := True, fn_children := w\<rparr> \<and>
    children_of p t2 = children_of p t @ listing m (node_at p t) \<and> hp_next t \<le> hp_next t2 \<and>
    (\<forall>b < hp_next t. hp_blocks t b = None \<longrightarrow> hp_blocks t2 b = None) \<and>
    (\<forall>b. v_data (fn_children (node_at p t)) = Some b \<longrightarrow>
       unat (v_capacity (fn_children (node_at p t))) < length (children_of p t) + length (listing m (node_at p t)) \<longrightarrow> hp_blocks t2 b = None)"
proof -
  let ?n = "node_at p t"
  have l: "load p t = Inr ?n" using d(1) by (simp add: dir_ok_def)
  from store_node [OF d(1), of "?n\<lparr>fn_lock := True\<rparr>"] obtain t1 where
    t1: "store p (?n\<lparr>fn_lock := True\<rparr>) t = Inr t1" "node_at p t1 = ?n\<lparr>fn_lock := True\<rparr>" "dir_step p t t1" "hp_next t1 = hp_next t"
      "\<forall>b. b \<noteq> fst p \<longrightarrow> hp_blocks t1 b = hp_blocks t b" by auto
  have ok1: "dir_ok p t1" "children_of p t1 = children_of p t" using t1(3) by (simp_all add: dir_step_def)
  have frame1: "valid (node_at p t1)" "listing m (node_at p t1) = listing m ?n"
    using v valid_frame [where n = ?n and v = "fn_children ?n" and l = True]
      listing_frame [where m = m and n = ?n and v = "fn_children ?n" and l = True] by (simp_all add: t1(2))
  from push_children_ok [OF ok1(1), of "listing m ?n"] lim ok1(2) obtain t2 where
    t2: "push_children p (listing m ?n) t1 = Inr t2" "dir_ok p t2" "children_of p t2 = children_of p t @ listing m ?n" "dir_grows p t1 t2"
      "\<forall>b. v_data (fn_children ?n) = Some b \<longrightarrow> unat (v_capacity (fn_children ?n)) < length (children_of p t) + length (listing m ?n) \<longrightarrow> hp_blocks t2 b = None"
    by (auto simp: t1(2))
  have pop: "populate prov m p t1 = Inr t2"
    using ok1(1) u i populates [OF ok1(1) frame1(1), of m] frame1(2) lim ok1(2) t2(1) by (simp add: populate_def dir_ok_def t1(2))
  obtain w where w: "node_at p t2 = ?n\<lparr>fn_lock := True, fn_children := w\<rparr>" using t2(4) by (auto simp: dir_grows_def t1(2))
  have l2: "load p t1 = Inr (node_at p t1)" "load p t2 = Inr (node_at p t2)" using ok1(1) t2(2) by (simp_all add: dir_ok_def)
  have "with_children prov m dflt action h t =
      rbind (action w t2) (\<lambda>(r, t3). rbind (unlock_node p t3) (\<lambda>t4. Inr (case r of None \<Rightarrow> dflt | Some x \<Rightarrow> x, h, t4)))"
    using h l d(2,3) t1(1,2) l2 pop w by (simp add: with_children_def node_ptr_def lock_node_def)
  moreover have "hp_blocks t2 b = None" if "b < hp_next t" "hp_blocks t b = None" for b
  proof -
    have "b \<noteq> fst p" using that(2) l by (auto simp: load_def split: option.splits)
    then show ?thesis using t1(4,5) t2(4) that by (simp add: dir_grows_def)
  qed
  moreover have "hp_next t \<le> hp_next t2" using t1(4) t2(4) by (simp add: dir_grows_def)
  ultimately show ?thesis using t2(2,3,5) w by blast
qed

text \<open>Nothing ever marks the directory, so a lookup that only looks leaves the listing appended.\<close>

lemma lookup_appends:
  assumes h: "fh_open h" "fh_node h = Some p" and d: "dir_ok p t" "\<not> fn_lock (node_at p t)" "fn_type (node_at p t) = DIRECTORY"
    and u: "\<not> fn_populated (node_at p t)" and i: "fn_fsProvider (node_at p t) = Some i" "op_populateDirectory (prov i) = populateDirectory"
    and v: "valid (node_at p t)" and lim: "length (children_of p t) + length (listing m (node_at p t)) \<le> VECTOR_LIMIT"
    and act: "\<And>vs s. vec_ok vs s \<Longrightarrow> action vs s = Inr (f (elems vs s), s)"
  shows "\<exists>t'. with_children prov m dflt action h t =
      Inr (case f (children_of p t @ listing m (node_at p t)) of None \<Rightarrow> dflt | Some x \<Rightarrow> x, h, t') \<and> dir_ok p t' \<and>
    children_of p t' = children_of p t @ listing m (node_at p t) \<and> dir_grows p t t' \<and>
    (\<forall>b. v_data (fn_children (node_at p t)) = Some b \<longrightarrow>
       unat (v_capacity (fn_children (node_at p t))) < length (children_of p t) + length (listing m (node_at p t)) \<longrightarrow> hp_blocks t' b = None)"
proof -
  let ?n = "node_at p t"
  from lookup_runs [where prov = prov and dflt = dflt and action = action, OF assms(1-10)] obtain t2 w where
    run: "with_children prov m dflt action h t =
      rbind (action w t2) (\<lambda>(r, t3). rbind (unlock_node p t3) (\<lambda>t4. Inr (case r of None \<Rightarrow> dflt | Some x \<Rightarrow> x, h, t4)))"
    and t2: "dir_ok p t2" "node_at p t2 = ?n\<lparr>fn_lock := True, fn_children := w\<rparr>" "children_of p t2 = children_of p t @ listing m ?n" "hp_next t \<le> hp_next t2"
      "\<forall>b < hp_next t. hp_blocks t b = None \<longrightarrow> hp_blocks t2 b = None"
      "\<forall>b. v_data (fn_children ?n) = Some b \<longrightarrow> unat (v_capacity (fn_children ?n)) < length (children_of p t) + length (listing m ?n) \<longrightarrow> hp_blocks t2 b = None"
    by blast
  have "vec_ok w t2" "elems w t2 = children_of p t @ listing m ?n" using t2(1,3) by (simp_all add: dir_ok_def t2(2) children_of_def)
  with act have r: "action w t2 = Inr (f (children_of p t @ listing m ?n), t2)" by simp
  from store_node [OF t2(1), of "?n\<lparr>fn_children := w\<rparr>"] t2(2) obtain t3 where
    t3: "store p (?n\<lparr>fn_children := w\<rparr>) t2 = Inr t3" "node_at p t3 = ?n\<lparr>fn_children := w\<rparr>" "dir_step p t2 t3"
      "hp_next t3 = hp_next t2" "\<forall>b. b \<noteq> fst p \<longrightarrow> hp_blocks t3 b = hp_blocks t2 b" by auto
  have "load p t2 = Inr (node_at p t2)" "load p t = Inr ?n" using t2(1) d(1) by (simp_all add: dir_ok_def)
  moreover have "?n\<lparr>fn_children := w, fn_lock := False\<rparr> = ?n\<lparr>fn_children := w\<rparr>" using d(2) by (cases ?n) simp
  ultimately have "unlock_node p t2 = Inr t3" using t3(1) by (simp add: unlock_node_def update_node_def t2(2))
  moreover have "hp_blocks t3 b = None" if "hp_blocks t2 b = None" for b
  proof -
    have "b \<noteq> fst p" using that \<open>load p t2 = Inr (node_at p t2)\<close> by (auto simp: load_def split: option.splits)
    with t3(5) that show ?thesis by simp
  qed
  ultimately show ?thesis
    using run r t2(3-6) t3(2-4) by (intro exI [of _ t3]) (auto simp: dir_step_def dir_grows_def)
qed

end

end
