(* ===== verification/Initramfs.thy ===== *)
theory Initramfs
  imports Vfs
begin

text \<open>
  The initial RAM disk (\<^verbatim>\<open>initramfs.h\<close>, \<^verbatim>\<open>fs/initramfs/initramfs.cpp\<close>): a tar archive in memory is read into a vector
  of entries when the provider is constructed, and the provider lists directories and reads files from it. The
  loop over the archive has no bound of its own in the code; here it has fuel, and \<open>archive_parsed\<close> shows
  that one unit more than the number of entries is enough.
\<close>

section \<open>Entries\<close>

record initramfs_entry =
  ie_name :: String
  ie_type :: FileType
  ie_data :: ptr
  ie_size :: u64

definition entry_default :: initramfs_entry where
  "entry_default = \<lparr>ie_name = String_empty, ie_type = NONE, ie_data = nullptr, ie_size = 0\<rparr>"

type_synonym entries = "vec \<times> initramfs_entry heap"

text \<open>A character is signed: \<^verbatim>\<open>str[i] - '0'\<close> is an \<^verbatim>\<open>int\<close>, added to an \<^verbatim>\<open>unsigned\<close>.\<close>

fun parseOctal_loop :: "u32 \<Rightarrow> u8 list \<Rightarrow> u32" where
  "parseOctal_loop result [] = result"
| "parseOctal_loop result (c # cs) = parseOctal_loop (result * 8 + (scast c - 48)) cs"

definition parseOctal :: "ptr \<Rightarrow> nat \<Rightarrow> byte_mem \<Rightarrow> u32" where
  "parseOctal str length0 m = parseOctal_loop 0 (read_bytes m str length0)"

definition SIGNATURE_OFFSET :: u64 where "SIGNATURE_OFFSET = 257"

definition SIGNATURE :: "u8 list" where "SIGNATURE = [0x75, 0x73, 0x74, 0x61, 0x72]"

definition TYPE_OFFSET :: u64 where "TYPE_OFFSET = 156"

definition TYPE_FILE :: u8 where "TYPE_FILE = 0x30"

definition TYPE_DIRECTORY :: u8 where "TYPE_DIRECTORY = 0x35"

definition SIZE_OFFSET :: u64 where "SIZE_OFFSET = 124"

definition SIZE_LENGTH :: nat where "SIZE_LENGTH = 11"

definition file_type :: "u8 \<Rightarrow> FileType" where
  "file_type type = (if type = TYPE_FILE then FILE else if type = TYPE_DIRECTORY then DIRECTORY else NONE)"

definition entry_size :: "ptr \<Rightarrow> byte_mem \<Rightarrow> u64" where
  "entry_size p m = ucast (parseOctal (p + SIZE_OFFSET) SIZE_LENGTH m)"

section \<open>The constructor\<close>

definition strip_slash :: "String \<Rightarrow> byte_mem \<Rightarrow> String" where
  "strip_slash name m = (if String_at name (len name - 1) m = slash then subString name 0 (len name - 1) else name)"

text \<open>The body of the loop for the header at \<open>p\<close>.\<close>

definition add_entry :: "ptr \<Rightarrow> byte_mem \<Rightarrow> entries \<Rightarrow> entries result" where
  "add_entry p m es =
     (let fileType = file_type (m (p + TYPE_OFFSET))
      in if fileType \<noteq> NONE then
           rbind (String_cstr p m) (\<lambda>name.
             vec_push entry_default \<lparr>ie_name = strip_slash name m, ie_type = fileType, ie_data = p + 512, ie_size = entry_size p m\<rparr> es)
         else Inr es)"

fun init_loop :: "nat \<Rightarrow> ptr \<Rightarrow> byte_mem \<Rightarrow> entries \<Rightarrow> entries result" where
  "init_loop 0 p m es = Inl Diverges"
| "init_loop (Suc fuel) p m es =
     (if read_bytes m (p + SIGNATURE_OFFSET) (length SIGNATURE) = SIGNATURE then
        rbind (add_entry p m es) (\<lambda>es1. init_loop fuel (p + ((entry_size p m + 511) div 512 * 512 + 512)) m es1)
      else Inr es)"

definition InitramfsFsProvider :: "nat \<Rightarrow> ptr \<Rightarrow> byte_mem \<Rightarrow> entries result" where
  "InitramfsFsProvider fuel pointer m = init_loop fuel pointer m (Vector_empty, \<lparr>hp_blocks = (\<lambda>_. None), hp_next = 1\<rparr>)"

section \<open>The provider's operations\<close>

definition entry_of :: "entries \<Rightarrow> addr option \<Rightarrow> initramfs_entry result" where
  "entry_of es node = (case node of None \<Rightarrow> Inl NullDereference | Some a \<Rightarrow> load a (snd es))"

definition util_min :: "u64 \<Rightarrow> u64 \<Rightarrow> u64" where
  "util_min a b = (if a < b then a else b)"

definition initramfs_read :: "entries \<Rightarrow> file_node \<Rightarrow> u64 \<Rightarrow> u64 \<Rightarrow> ptr \<Rightarrow> byte_mem \<Rightarrow> (u64 \<times> byte_mem) result" where
  "initramfs_read es node offset length0 buffer m =
     rbind (entry_of es (fn_node node)) (\<lambda>entry.
       if offset < ie_size entry then
         (let length1 = util_min (ie_size entry - offset) length0;
              (_, m1) = memcpy buffer (ie_data entry + offset) length1 m
          in Inr (length1, m1))
       else Inr (0, m))"

definition initramfs_freeNode :: "addr \<Rightarrow> tree \<Rightarrow> tree result" where
  "initramfs_freeNode p = update_node p (\<lambda>n. n\<lparr>fn_node := None\<rparr>)"

text \<open>The child that the entry at \<open>a\<close> is for the directory of \<open>directoryEntry\<close>, if it is one.\<close>

definition child_of :: "nat \<Rightarrow> byte_mem \<Rightarrow> initramfs_entry \<Rightarrow> addr \<Rightarrow> initramfs_entry \<Rightarrow> file_node option" where
  "child_of self m directoryEntry a entry =
     (if startsWith (ie_name entry) (ie_name directoryEntry) m then
        (let baseName = subString_from (ie_name entry) (len (ie_name directoryEntry));
             baseName1 = (if String_at baseName 0 m = slash then subString_from baseName 1 else baseName)
         in if len baseName1 > 0 \<and> String_is_null (findNext baseName1 slash m) then
              Some (FileNode_default\<lparr>fn_name := baseName1, fn_node := Some a, fn_type := ie_type entry, fn_fsProvider := Some self,
                                     fn_populated := False, fn_openCount := 0\<rparr>)
            else None)
      else None)"

definition initramfs_populateDirectory :: "nat \<Rightarrow> entries \<Rightarrow> byte_mem \<Rightarrow> addr \<Rightarrow> tree \<Rightarrow> tree result" where
  "initramfs_populateDirectory self es m p t =
     rbind (load p t) (\<lambda>directory.
     rbind (entry_of es (fn_node directory)) (\<lambda>directoryEntry.
       for_each (\<lambda>i t.
         case Vector_at (fst es) i of
           None \<Rightarrow> Inl NullDereference
         | Some a \<Rightarrow> rbind (load a (snd es)) (\<lambda>entry.
             case child_of self m directoryEntry a entry of None \<Rightarrow> Inr t | Some child \<Rightarrow> push_child p child t))
         (map of_nat [0..<unat (Vector_getSize (fst es))]) t))"

definition initramfs_initRoot :: "entries \<Rightarrow> addr \<Rightarrow> tree \<Rightarrow> tree result" where
  "initramfs_initRoot es p = update_node p (\<lambda>n. n\<lparr>fn_node := Vector_at (fst es) 0\<rparr>)"

definition initramfs_provider :: "nat \<Rightarrow> entries \<Rightarrow> fs_provider" where
  "initramfs_provider self es =
     \<lparr>op_read = initramfs_read es, op_write = FsProvider_write, op_populateDirectory = initramfs_populateDirectory self es,
      op_initRoot = initramfs_initRoot es, op_freeNode = initramfs_freeNode\<rparr>"

section \<open>Listing a directory\<close>

definition entries_ok :: "entries \<Rightarrow> bool" where
  "entries_ok es \<longleftrightarrow> (case es of (v, h) \<Rightarrow> vec_ok v h)"

text \<open>The addresses of the entries, with the entries.\<close>

definition addressed :: "entries \<Rightarrow> (addr \<times> initramfs_entry) list" where
  "addressed es = (case v_data (fst es) of None \<Rightarrow> []
     | Some b \<Rightarrow> map (\<lambda>i. ((b, i), elems (fst es) (snd es) ! i)) [0..<length (elems (fst es) (snd es))])"

definition listing :: "nat \<Rightarrow> entries \<Rightarrow> byte_mem \<Rightarrow> file_node \<Rightarrow> file_node list" where
  "listing self es m d =
     (case entry_of es (fn_node d) of Inl _ \<Rightarrow> []
      | Inr de \<Rightarrow> List.map_filter (\<lambda>(a, e). child_of self m de a e) (addressed es))"

definition has_entry :: "entries \<Rightarrow> file_node \<Rightarrow> bool" where
  "has_entry es n \<longleftrightarrow> entries_ok es \<and> (\<exists>e. entry_of es (fn_node n) = Inr e)"

lemma for_each_cong: "(\<And>x s. x \<in> set xs \<Longrightarrow> f x s = g x s) \<Longrightarrow> for_each f xs s = for_each g xs s"
  by (induction xs arbitrary: s) (auto intro!: arg_cong [where f = "rbind _"])

lemma map_filter_map: "List.map_filter f (map g xs) = List.map_filter (\<lambda>x. f (g x)) xs"
  by (induction xs) (simp_all add: map_filter_simps split: option.split)

lemma for_each_map_filter:
  "for_each (\<lambda>x s. case f x of None \<Rightarrow> Inr s | Some y \<Rightarrow> g y s) xs s = for_each g (List.map_filter f xs) s"
  by (induction xs arbitrary: s) (auto simp: map_filter_simps split: option.split intro!: arg_cong [where f = "rbind _"])

lemma populateDirectory_listing:
  assumes "load p t = Inr d" and "has_entry es d"
  shows "initramfs_populateDirectory self es m p t = push_children p (listing self es m d) t"
proof -
  obtain v h where es: "es = (v, h)" by fastforce
  have ok: "vec_ok v h" using assms(2) by (simp add: has_entry_def entries_ok_def es)
  obtain de where de: "entry_of es (fn_node d) = Inr de" using assms(2) by (auto simp: has_entry_def)
  have len: "length (elems v h) = unat (v_size v)" by (rule vec_okD(4) [OF ok])
  let ?body = "\<lambda>i t. case Vector_at v (of_nat i) of None \<Rightarrow> Inl NullDereference
     | Some a \<Rightarrow> rbind (load a h) (\<lambda>entry. case child_of self m de a entry of None \<Rightarrow> Inr t | Some child \<Rightarrow> push_child p child t)"
  have run: "initramfs_populateDirectory self es m p t = for_each ?body [0..<unat (v_size v)] t"
    using assms(1) de unfolding initramfs_populateDirectory_def es fst_conv snd_conv by (simp add: for_each_map Vector_getSize_def)
  show ?thesis
  proof (cases "v_data v")
    case None
    then have "unat (v_size v) = 0" using ok by (auto simp: vec_ok_def)
    then show ?thesis unfolding run using None de by (simp add: listing_def addressed_def es push_children_def map_filter_simps)
  next
    case (Some b)
    obtain xs where xs: "hp_blocks h b = Some xs" "length xs = unat (v_capacity v)" "elems v h = take (unat (v_size v)) xs"
      by (rule vec_array [OF ok Some])
    have step: "?body i t = (case child_of self m de (b, i) (elems v h ! i) of None \<Rightarrow> Inr t | Some child \<Rightarrow> push_child p child t)"
      if "i < unat (v_size v)" for i t
    proof -
      have i: "unat (of_nat i :: u64) = i" by (rule unat_of_nat_small) (use that less_trans [OF _ unat_u64_bound [of "v_size v"]] in simp)
      then have "Vector_at v (of_nat i) = Some (b, i)" using Vector_at_iff [OF ok, of "of_nat i"] that Some by (simp add: word_less_nat_alt)
      moreover have "load (b, i) h = Inr (elems v h ! i)" using that xs vec_okD(2) [OF ok] by (simp add: load_def)
      ultimately show ?thesis by simp
    qed
    have "for_each ?body [0..<unat (v_size v)] t =
        for_each (\<lambda>i t. case child_of self m de (b, i) (elems v h ! i) of None \<Rightarrow> Inr t | Some child \<Rightarrow> push_child p child t) [0..<unat (v_size v)] t"
      by (rule for_each_cong) (simp add: step)
    also have "\<dots> = push_children p (listing self es m d) t"
      using Some de by (simp add: for_each_map_filter listing_def addressed_def es push_children_def len map_filter_map)
    finally show ?thesis unfolding run .
  qed
qed

interpretation rd: directory_provider "initramfs_populateDirectory self es" "has_entry es" "listing self es"
  for self :: nat and es :: entries
proof unfold_locales
  fix p t m
  assume "dir_ok p t" "has_entry es (node_at p t)"
  then show "initramfs_populateDirectory self es m p t = push_children p (listing self es m (node_at p t)) t"
    by (intro populateDirectory_listing) (simp_all add: dir_ok_def)
qed (simp_all add: has_entry_def listing_def)

section \<open>Properties of the file system\<close>

text \<open>An open handle on a directory of the RAM disk that no task holds the lock of.\<close>

definition ramdisk_dir :: "providers \<Rightarrow> nat \<Rightarrow> entries \<Rightarrow> file_handle \<Rightarrow> addr \<Rightarrow> tree \<Rightarrow> bool" where
  "ramdisk_dir prov self es h p t \<longleftrightarrow> fh_open h \<and> fh_node h = Some p \<and> dir_ok p t \<and> \<not> fn_lock (node_at p t) \<and>
     fn_type (node_at p t) = DIRECTORY \<and> \<not> fn_populated (node_at p t) \<and> fn_fsProvider (node_at p t) = Some self \<and>
     prov self = initramfs_provider self es \<and> has_entry es (node_at p t)"

lemma ramdisk_dir_grows:
  assumes "ramdisk_dir prov self es h p t" and "dir_ok p t'" and "dir_grows p t t'"
  shows "ramdisk_dir prov self es h p t'" and "listing self es m (node_at p t') = listing self es m (node_at p t)"
  using assms by (auto simp: ramdisk_dir_def dir_grows_def has_entry_def listing_def)

text \<open>The index of the first child of a name.\<close>

definition name_index :: "byte_mem \<Rightarrow> u8 list \<Rightarrow> file_node list \<Rightarrow> nat option" where
  "name_index m name cs = List.find (\<lambda>i. text_of m (fn_name (cs ! i)) = name) [0..<length cs]"

lemma child_at:
  assumes "vec_ok vs s" "i < unat (v_size vs)"
  shows "\<exists>b. v_data vs = Some b \<and> Vector_at vs (of_nat i) = Some (b, i) \<and> load (b, i) s = Inr (elems vs s ! i)"
proof -
  obtain b where b: "v_data vs = Some b" using assms by (cases "v_data vs") (auto simp: vec_ok_def)
  obtain xs where xs: "hp_blocks s b = Some xs" "length xs = unat (v_capacity vs)" "elems vs s = take (unat (v_size vs)) xs"
    by (rule vec_array [OF assms(1) b])
  have "unat (of_nat i :: u64) = i" by (rule unat_of_nat_small) (use assms(2) less_trans [OF _ unat_u64_bound [of "v_size vs"]] in simp)
  then have "Vector_at vs (of_nat i) = Some (b, i)"
    using Vector_at_iff [OF assms(1), of "of_nat i"] assms(2) b by (simp add: word_less_nat_alt)
  moreover have "load (b, i) s = Inr (elems vs s ! i)" using assms(2) xs vec_okD(2) [OF assms(1)] by (simp add: load_def)
  ultimately show ?thesis using b by blast
qed

lemma findChild_action:
  assumes "vec_ok vs s"
  shows "rbind (findChild_loop m name vs (map of_nat [0..<unat (Vector_getSize vs)]) s) (\<lambda>r. Inr (r, s)) =
    Inr (map_option of_nat (name_index m (text_of m name) (elems vs s)), s)"
proof -
  have "findChild_loop m name vs (map of_nat is) s =
      Inr (map_option of_nat (List.find (\<lambda>i. text_of m (fn_name (elems vs s ! i)) = text_of m name) is))"
    if "\<forall>i \<in> set is. i < unat (v_size vs)" for "is"
    using that
  proof (induction "is")
    case (Cons i "is")
    then have "i < unat (v_size vs)" by simp
    from child_at [OF assms this] Cons show ?case by (auto simp: String_eq_iff)
  qed simp
  from this [of "[0..<unat (v_size vs)]"] show ?thesis
    using vec_okD(4) [OF assms] by (simp add: Vector_getSize_def name_index_def)
qed

lemma ramdisk_dirD:
  assumes "ramdisk_dir prov self es h p t"
  shows "fh_open h" "fh_node h = Some p" "dir_ok p t" "\<not> fn_lock (node_at p t)" "fn_type (node_at p t) = DIRECTORY"
    "\<not> fn_populated (node_at p t)" "fn_fsProvider (node_at p t) = Some self"
    "op_populateDirectory (prov self) = initramfs_populateDirectory self es" "has_entry es (node_at p t)"
  using assms by (simp_all add: ramdisk_dir_def initramfs_provider_def)

lemma findChild_appends:
  assumes "ramdisk_dir prov self es h p t" and "length (children_of p t) + length (listing self es m (node_at p t)) \<le> VECTOR_LIMIT"
  shows "\<exists>t'. findChild prov m name h t =
      Inr (case name_index m (text_of m name) (children_of p t @ listing self es m (node_at p t)) of None \<Rightarrow> SIZE_MAX | Some i \<Rightarrow> of_nat i, h, t') \<and>
    ramdisk_dir prov self es h p t' \<and>
    children_of p t' = children_of p t @ listing self es m (node_at p t) \<and> dir_grows p t t' \<and>
    (\<forall>b. v_data (fn_children (node_at p t)) = Some b \<longrightarrow>
       unat (v_capacity (fn_children (node_at p t))) < length (children_of p t) + length (listing self es m (node_at p t)) \<longrightarrow> hp_blocks t' b = None)"
proof -
  let ?action = "\<lambda>vs s. rbind (findChild_loop m name vs (map of_nat [0..<unat (Vector_getSize vs)]) s) (\<lambda>r. Inr (r, s))"
  let ?f = "\<lambda>cs. map_option of_nat (name_index m (text_of m name) cs) :: u64 option"
  from rd.lookup_appends [where action = ?action and f = ?f and dflt = SIZE_MAX and m = m and prov = prov and h = h and p = p and t = t and i = self,
      OF ramdisk_dirD [OF assms(1)] assms(2) findChild_action]
  obtain t' where "findChild prov m name h t = Inr (case ?f (children_of p t @ listing self es m (node_at p t)) of None \<Rightarrow> SIZE_MAX | Some x \<Rightarrow> x, h, t')"
    "dir_ok p t'" "children_of p t' = children_of p t @ listing self es m (node_at p t)" "dir_grows p t t'"
    "\<forall>b. v_data (fn_children (node_at p t)) = Some b \<longrightarrow>
       unat (v_capacity (fn_children (node_at p t))) < length (children_of p t) + length (listing self es m (node_at p t)) \<longrightarrow> hp_blocks t' b = None"
    unfolding findChild_def by blast
  moreover have "(case ?f cs of None \<Rightarrow> SIZE_MAX | Some x \<Rightarrow> x) = (case name_index m (text_of m name) cs of None \<Rightarrow> SIZE_MAX | Some i \<Rightarrow> of_nat i)" for cs
    by (simp split: option.split)
  ultimately show ?thesis using ramdisk_dir_grows(1) [OF assms(1)] by auto
qed

text \<open>Looking up names one after the other.\<close>

fun find_children :: "providers \<Rightarrow> byte_mem \<Rightarrow> String list \<Rightarrow> file_handle \<Rightarrow> tree \<Rightarrow> tree result" where
  "find_children prov m [] h t = Inr t"
| "find_children prov m (s # ss) h t = rbind (findChild prov m s h t) (\<lambda>(_, h1, t1). find_children prov m ss h1 t1)"

text \<open>
  Directories grow with use: no code ever sets \<^verbatim>\<open>populated\<close>, so every lookup in a directory of the RAM disk
  appends its whole listing to its children again; after \<open>k\<close> lookups there are \<open>k\<close> copies of every child.
\<close>

theorem lookups_duplicate_children:
  assumes "ramdisk_dir prov self es h p t"
    and "length (children_of p t) + length names * length (listing self es m (node_at p t)) \<le> VECTOR_LIMIT"
  shows "\<exists>t'. find_children prov m names h t = Inr t' \<and>
           children_of p t' = children_of p t @ concat (replicate (length names) (listing self es m (node_at p t)))"
  using assms
proof (induction names arbitrary: t)
  case (Cons s ss)
  let ?l = "listing self es m (node_at p t)"
  have "length (children_of p t) + length ?l \<le> VECTOR_LIMIT" using Cons.prems(2) by simp
  from findChild_appends [OF Cons.prems(1) this, of s] obtain r t1 where
    t1: "findChild prov m s h t = Inr (r, h, t1)" "ramdisk_dir prov self es h p t1" "children_of p t1 = children_of p t @ ?l" "dir_grows p t t1" by auto
  have l: "listing self es m (node_at p t1) = ?l"
    using ramdisk_dir_grows(2) [OF Cons.prems(1) _ t1(4)] t1(2) by (simp add: ramdisk_dir_def)
  have "length (children_of p t1) + length ss * length (listing self es m (node_at p t1)) \<le> VECTOR_LIMIT"
    using Cons.prems(2) by (simp add: t1(3) l)
  from Cons.IH [OF t1(2) this] t1(1,3) show ?case by (auto simp: l simp del: rbind_eq_Inr)
qed simp

definition example_entries :: entries where
  "example_entries = (\<lparr>v_capacity = 2, v_size = 2, v_data = Some 2\<rparr>,
     \<lparr>hp_blocks = [2 \<mapsto> [\<lparr>ie_name = String_of 0x1000 0, ie_type = DIRECTORY, ie_data = 0x2000, ie_size = 0\<rparr>,
                        \<lparr>ie_name = String_of 0x1000 1, ie_type = FILE, ie_data = 0x3000, ie_size = 7\<rparr>]], hp_next = 3\<rparr>)"

definition example_child :: file_node where
  "example_child = FileNode_default\<lparr>fn_name := String_of 0x1000 1, fn_node := Some (2, 1), fn_type := FILE, fn_fsProvider := Some 2\<rparr>"

definition example_root :: file_node where
  "example_root = FileNode_default\<lparr>fn_type := DIRECTORY, fn_openCount := 1, fn_node := Some (2, 0), fn_fsProvider := Some 2,
     fn_children := \<lparr>v_capacity = 1, v_size = 1, v_data = Some 2\<rparr>\<rparr>"

definition example_fs :: tree where
  "example_fs = \<lparr>hp_blocks = [0 \<mapsto> [example_root], 2 \<mapsto> [example_child]], hp_next = 3\<rparr>"

definition example_handle :: file_handle where
  "example_handle = \<lparr>fh_node = Some root_addr, fh_writable = False, fh_open = True, fh_error = OKAY\<rparr>"

lemma example_fs_ok:
  "node_at root_addr example_fs = example_root" "children_of root_addr example_fs = [example_child]"
  "ramdisk_dir (\<lambda>i. initramfs_provider i example_entries) 2 example_entries example_handle root_addr example_fs"
proof -
  show n: "node_at root_addr example_fs = example_root" by (simp add: node_at_def load_def root_addr_def example_fs_def)
  show "children_of root_addr example_fs = [example_child]"
    by (simp add: children_of_def n elems_def) (simp add: example_root_def example_fs_def)
  have "vec_ok (fn_children example_root) example_fs" by (simp add: vec_ok_def arrays_ok_def example_root_def example_fs_def)
  then have "dir_ok root_addr example_fs"
    by (simp add: dir_ok_def n) (simp add: load_def root_addr_def example_fs_def, simp add: example_root_def)
  moreover have "has_entry example_entries example_root"
    by (simp add: has_entry_def entries_ok_def example_entries_def vec_ok_def arrays_ok_def entry_of_def example_root_def load_def)
  ultimately show "ramdisk_dir (\<lambda>i. initramfs_provider i example_entries) 2 example_entries example_handle root_addr example_fs"
    by (simp add: ramdisk_dir_def n) (simp add: example_root_def example_handle_def FileNode_default_def)
qed

lemma example_listing: "listing 2 example_entries (\<lambda>_. 0x61) example_root = [example_child]"
  by (simp add: listing_def entry_of_def example_entries_def example_root_def load_def addressed_def elems_def map_filter_simps child_of_def
        startsWith_def String_of_def memeq_def memcmp_def subString_from_def subString_def len_def String_at_def slash_def upt_conv_Cons)
     (simp add: example_child_def String_is_null_def findNext_def memchr_def String_empty_def String_of_def FileNode_default_def)

theorem lookups_duplicate_children_witness:
  "\<exists>t'. find_children (\<lambda>i. initramfs_provider i example_entries) (\<lambda>_. 0x61) [String_of 0x1000 1, String_of 0x1000 1] example_handle example_fs = Inr t' \<and>
     children_of root_addr t' = [example_child, example_child, example_child]"
  using lookups_duplicate_children [OF example_fs_ok(3), of "[String_of 0x1000 1, String_of 0x1000 1]" "\<lambda>_. 0x61"]
  by (simp add: example_fs_ok(1,2) example_listing VECTOR_LIMIT_def)

text \<open>
  A lookup invalidates open files: once the children no longer fit into their array, a lookup in the directory
  moves them, and a handle that was opened on one of them refers to freed memory.
\<close>

theorem lookup_invalidates_handles:
  assumes "ramdisk_dir prov self es h p t" and "length (children_of p t) + length (listing self es m (node_at p t)) \<le> VECTOR_LIMIT"
    and "v_data (fn_children (node_at p t)) = Some b" and "fh_open c" and "fh_node c = Some (b, i)"
    and "unat (v_capacity (fn_children (node_at p t))) < length (children_of p t) + length (listing self es m (node_at p t))"
  shows "\<exists>r t'. findChild prov m name h t = Inr (r, h, t') \<and> getType c t' = Inl UseAfterFree"
proof -
  from findChild_appends [OF assms(1,2), of name] assms(3,6) obtain r t' where
    "findChild prov m name h t = Inr (r, h, t')" "hp_blocks t' b = None" by auto
  moreover from this(2) assms(4,5) have "getType c t' = Inl UseAfterFree"
    by (simp add: getType_def node_ptr_def lock_node_def load_def)
  ultimately show ?thesis by blast
qed

theorem lookup_invalidates_handles_witness:
  "\<exists>r t'. findChild (\<lambda>i. initramfs_provider i example_entries) (\<lambda>_. 0x61) (String_of 0x1000 1) example_handle example_fs = Inr (r, example_handle, t') \<and>
     getType \<lparr>fh_node = Some (2, 0), fh_writable = False, fh_open = True, fh_error = OKAY\<rparr> t' = Inl UseAfterFree"
  by (rule lookup_invalidates_handles [OF example_fs_ok(3), where b = 2 and i = 0])
     (simp_all add: example_fs_ok(1,2) example_listing VECTOR_LIMIT_def, simp_all add: example_root_def)

section \<open>Reading an archive\<close>

text \<open>What an archiver writes: \<open>k\<close> octal digits, a header block, and the headers one after the other.\<close>

fun octal_digits :: "nat \<Rightarrow> nat \<Rightarrow> u8 list" where
  "octal_digits 0 n = []"
| "octal_digits (Suc k) n = octal_digits k (n div 8) @ [0x30 + of_nat (n mod 8)]"

definition tar_header :: "byte_mem \<Rightarrow> ptr \<Rightarrow> u8 list \<Rightarrow> u8 \<Rightarrow> nat \<Rightarrow> bool" where
  "tar_header m p name type n \<longleftrightarrow> c_string m p name \<and> m (p + TYPE_OFFSET) = type \<and>
     read_bytes m (p + SIZE_OFFSET) SIZE_LENGTH = octal_digits SIZE_LENGTH n \<and>
     read_bytes m (p + SIGNATURE_OFFSET) (length SIGNATURE) = SIGNATURE"

definition next_header :: "ptr \<Rightarrow> nat \<Rightarrow> ptr" where
  "next_header p n = p + of_nat ((n + 511) div 512 * 512 + 512)"

fun archive :: "byte_mem \<Rightarrow> ptr \<Rightarrow> (u8 list \<times> u8 \<times> nat) list \<Rightarrow> bool" where
  "archive m p [] \<longleftrightarrow> read_bytes m (p + SIGNATURE_OFFSET) (length SIGNATURE) \<noteq> SIGNATURE"
| "archive m p ((name, type, n) # es) \<longleftrightarrow> tar_header m p name type n \<and> n < 2 ^ 32 \<and> archive m (next_header p n) es"

definition trim_name :: "u8 list \<Rightarrow> u8 list" where
  "trim_name name = (if name \<noteq> [] \<and> last name = slash then butlast name else name)"

fun contents_of :: "ptr \<Rightarrow> (u8 list \<times> u8 \<times> nat) list \<Rightarrow> (u8 list \<times> FileType \<times> ptr \<times> u64) list" where
  "contents_of p [] = []"
| "contents_of p ((name, type, n) # es) =
     (if file_type type = NONE then [] else [(trim_name name, file_type type, p + 512, of_nat n)]) @ contents_of (next_header p n) es"

lemma length_contents: "length (contents_of p es) \<le> length es"
  by (induction p es rule: contents_of.induct) auto

definition entry_view :: "byte_mem \<Rightarrow> initramfs_entry \<Rightarrow> u8 list \<times> FileType \<times> ptr \<times> u64" where
  "entry_view m e = (text_of m (ie_name e), ie_type e, ie_data e, ie_size e)"

lemma octal_digit: "d < 8 \<Longrightarrow> scast (0x30 + of_nat d :: u8) - 48 = (of_nat d :: u32)"
proof -
  assume "d < 8"
  then have "d \<in> {0, 1, 2, 3, 4, 5, 6, 7}" by auto
  then show ?thesis by (elim insertE emptyE) simp_all
qed

lemma parseOctal_loop_append: "parseOctal_loop r (xs @ ys) = parseOctal_loop (parseOctal_loop r xs) ys"
  by (induction xs arbitrary: r) simp_all

lemma parse_octal_digits: "n < 8 ^ k \<Longrightarrow> parseOctal_loop 0 (octal_digits k n) = of_nat n"
proof (induction k arbitrary: n)
  case (Suc k)
  have "n div 8 < 8 ^ k" using Suc.prems by (simp add: div_less_iff_less_mult mult.commute)
  moreover have "(of_nat (n div 8) * 8 + of_nat (n mod 8) :: u32) = of_nat n"
    by (metis div_mult_mod_eq of_nat_add of_nat_mult of_nat_numeral)
  ultimately show ?case using Suc.IH octal_digit [of "n mod 8"] by (simp add: parseOctal_loop_append)
qed simp

lemma entry_size_ok:
  assumes "tar_header m p name type n" and "n < 2 ^ 32"
  shows "entry_size p m = of_nat n"
proof -
  have "n < 8 ^ 11" using assms(2) by simp
  then have "parseOctal (p + SIZE_OFFSET) SIZE_LENGTH m = of_nat n"
    using assms(1) parse_octal_digits [of n SIZE_LENGTH] by (simp add: tar_header_def parseOctal_def SIZE_LENGTH_def del: octal_digits.simps)
  then show ?thesis using assms(2) by (simp add: entry_size_def word_unat_eq_iff unsigned_ucast_eq unsigned_of_nat take_bit_nat_eq_self)
qed

lemma next_header_ok:
  assumes "n < 2 ^ 32"
  shows "p + ((of_nat n + 511) div 512 * 512 + 512) = next_header p n"
proof -
  have "unat (of_nat n + 511 :: u64) = n + 511" using assms unat_add_u64 [of "of_nat n" 511] by (simp add: unat_of_nat_small)
  then have "unat ((of_nat n + 511) div 512 :: u64) = (n + 511) div 512" by (simp add: unat_div)
  then have "((of_nat n + 511) div 512 :: u64) = of_nat ((n + 511) div 512)" using assms by (simp add: word_unat_eq_iff unat_of_nat_small)
  then show ?thesis by (simp add: next_header_def)
qed

lemma strip_slash_text: "text_of m (strip_slash s m) = trim_name (text_of m s)"
proof (cases "text_of m s = []")
  case True
  then have "String_at s i m = 0" for i by (simp add: String_at_eq del: length_text_of)
  with True show ?thesis by (simp add: strip_slash_def trim_name_def slash_def)
next
  case False
  then have "s_length s \<noteq> 0" by auto
  then have u: "unat (len s - 1) = length (text_of m s) - 1" using unat_minus_one by (simp add: len_def)
  moreover have "0 < unat (s_length s)" using \<open>s_length s \<noteq> 0\<close> by (simp add: unat_gt_0)
  ultimately have "String_at s (len s - 1) m = last (text_of m s)" using False by (simp add: String_at_eq last_conv_nth)
  with False u show ?thesis by (simp add: strip_slash_def trim_name_def text_of_subString butlast_conv_take)
qed

text \<open>The entries that the constructor makes of an archive.\<close>

definition parsed_entry :: "byte_mem \<Rightarrow> ptr \<Rightarrow> u8 list \<Rightarrow> u8 \<Rightarrow> nat \<Rightarrow> initramfs_entry list" where
  "parsed_entry m p name type n =
     (if file_type type = NONE then []
      else [\<lparr>ie_name = strip_slash (String_of p (of_nat (length name))) m, ie_type = file_type type, ie_data = p + 512, ie_size = of_nat n\<rparr>])"

fun parsed :: "byte_mem \<Rightarrow> ptr \<Rightarrow> (u8 list \<times> u8 \<times> nat) list \<Rightarrow> initramfs_entry list" where
  "parsed m p [] = []"
| "parsed m p ((name, type, n) # es) = parsed_entry m p name type n @ parsed m (next_header p n) es"

lemma add_entry_ok:
  assumes "tar_header m p name type n" and "n < 2 ^ 32" and "vec_ok v h" and "length (elems v h) < VECTOR_LIMIT"
  shows "\<exists>v' h'. add_entry p m (v, h) = Inr (v', h') \<and> vec_ok v' h' \<and> elems v' h' = elems v h @ parsed_entry m p name type n"
proof (cases "file_type type = NONE")
  case True
  with assms show ?thesis by (simp add: add_entry_def tar_header_def parsed_entry_def)
next
  case False
  let ?e = "\<lparr>ie_name = strip_slash (String_of p (of_nat (length name))) m, ie_type = file_type type, ie_data = p + 512, ie_size = of_nat n\<rparr>"
  have s: "String_cstr p m = Inr (String_of p (of_nat (length name)))"
    using strlen_ok [of m p name] assms(1) by (simp add: String_cstr_def tar_header_def)
  from push_back_ok [OF assms(3,4), of entry_default ?e] obtain v' h' where
    r: "push_back entry_default ?e v h = Inr (v', h')" "vec_ok v' h'" "elems v' h' = elems v h @ [?e]" by blast
  have "add_entry p m (v, h) = Inr (v', h')"
    using assms(1) False s r(1) entry_size_ok [OF assms(1,2)] by (simp add: add_entry_def vec_push_def tar_header_def)
  with r(2,3) False show ?thesis by (simp add: parsed_entry_def)
qed

lemma init_loop_ok:
  assumes "archive m p es" and "length es < fuel" and "vec_ok v h" and "length (elems v h) + length es \<le> VECTOR_LIMIT"
  shows "\<exists>v' h'. init_loop fuel p m (v, h) = Inr (v', h') \<and> vec_ok v' h' \<and> elems v' h' = elems v h @ parsed m p es"
  using assms
proof (induction es arbitrary: p fuel v h)
  case Nil
  then show ?case by (cases fuel) simp_all
next
  case (Cons e es)
  obtain name type n where e: "e = (name, type, n)" by (cases e) auto
  obtain f where f: "fuel = Suc f" using Cons.prems(2) by (cases fuel) simp_all
  have t: "tar_header m p name type n" "n < 2 ^ 32" "archive m (next_header p n) es" using Cons.prems(1) by (simp_all add: e)
  from add_entry_ok [OF t(1,2) Cons.prems(3)] Cons.prems(4) obtain v1 h1 where
    v1: "add_entry p m (v, h) = Inr (v1, h1)" "vec_ok v1 h1" "elems v1 h1 = elems v h @ parsed_entry m p name type n"
    by (auto simp del: rbind_eq_Inr)
  have "length (elems v1 h1) + length es \<le> VECTOR_LIMIT" using Cons.prems(4) by (simp add: v1(3) parsed_entry_def)
  from Cons.IH [OF t(3) _ v1(2) this, of f] Cons.prems(2) f obtain v' h' where
    v': "init_loop f (next_header p n) m (v1, h1) = Inr (v', h')" "vec_ok v' h'" "elems v' h' = elems v1 h1 @ parsed m (next_header p n) es" by auto
  have "init_loop fuel p m (v, h) = Inr (v', h')"
    using t(1) v1(1) v'(1) entry_size_ok [OF t(1,2)] next_header_ok [OF t(2), of p] by (simp add: f tar_header_def add.assoc)
  with v'(2,3) v1(3) show ?case by (simp add: e)
qed

lemma constructor_parses:
  assumes "archive m p es" and "length es < fuel" and "length es \<le> VECTOR_LIMIT"
  shows "\<exists>v h. InitramfsFsProvider fuel p m = Inr (v, h) \<and> vec_ok v h \<and> elems v h = parsed m p es"
proof -
  let ?h = "\<lparr>hp_blocks = (\<lambda>_. None), hp_next = 1\<rparr> :: initramfs_entry heap"
  have "vec_ok Vector_empty ?h" "elems Vector_empty ?h = []" by (simp_all add: vec_ok_def Vector_empty_def arrays_ok_def elems_def)
  from init_loop_ok [OF assms(1,2) this(1)] this(2) assms(3) show ?thesis by (simp add: InitramfsFsProvider_def)
qed

lemma parsed_view: "archive m p es \<Longrightarrow> map (entry_view m) (parsed m p es) = contents_of p es"
proof (induction es arbitrary: p)
  case (Cons e es)
  obtain name type n where e: "e = (name, type, n)" by (cases e) auto
  have "read_bytes m p (length name) = name" "length name < 2 ^ 31" using Cons.prems by (simp_all add: e tar_header_def c_string_def)
  then have "text_of m (String_of p (of_nat (length name))) = name" by (simp add: unat_of_nat_small)
  with Cons show ?case by (simp add: e parsed_entry_def entry_view_def strip_slash_text del: text_of_String_of)
qed simp

text \<open>
  (C22) The constructor reads what an archiver wrote: for an archive in memory whose headers follow one another,
  with sizes in octal and rounded up to 512 bytes, it returns with exactly the files and directories of the
  archive, in order, with their names without a trailing slash, the addresses of their data and their sizes; other
  kinds of entries are skipped.
\<close>

theorem archive_parsed:
  assumes "archive m p es" and "length es < fuel" and "length es \<le> VECTOR_LIMIT"
  shows "\<exists>v h. InitramfsFsProvider fuel p m = Inr (v, h) \<and> vec_ok v h \<and> map (entry_view m) (elems v h) = contents_of p es"
  using constructor_parses [OF assms] parsed_view [OF assms(1)] by auto

text \<open>A memory with one header: a directory called \<open>a/\<close>.\<close>

definition example_archive :: byte_mem where
  "example_archive a =
     (if a = 0x1000 then 0x61 else if a = 0x1001 then slash else if a = 0x109C then TYPE_DIRECTORY
      else if a - 0x107C < 11 then 0x30
      else if a - 0x1101 < 5 then SIGNATURE ! unat (a - 0x1101) else 0)"

lemma example_archive_bytes:
  "example_archive 0x1000 = 0x61" "example_archive 0x1001 = slash" "example_archive 0x1002 = 0" "example_archive 0x109C = TYPE_DIRECTORY"
  "read_bytes example_archive 0x107C 11 = replicate 11 0x30"
  "example_archive 0x1101 = 0x75" "example_archive 0x1102 = 0x73" "example_archive 0x1103 = 0x74" "example_archive 0x1104 = 0x61"
  "example_archive 0x1105 = 0x72" "example_archive 0x1301 = 0"
  by (simp_all add: eval_nat_numeral) (simp_all add: example_archive_def SIGNATURE_def)

lemma octal_digits_zero: "octal_digits k 0 = replicate k 0x30"
  by (induction k) (simp_all add: replicate_append_same)

lemma example_archive_header: "archive example_archive 0x1000 [([0x61, slash], TYPE_DIRECTORY, 0)]"
proof -
  have "tar_header example_archive 0x1000 [0x61, slash] TYPE_DIRECTORY 0"
    using example_archive_bytes
    by (simp add: tar_header_def c_string_def TYPE_OFFSET_def SIZE_OFFSET_def SIGNATURE_OFFSET_def slash_def)
       (simp add: SIZE_LENGTH_def SIGNATURE_def octal_digits_zero del: octal_digits.simps)
  then show ?thesis using example_archive_bytes(11) by (simp add: next_header_def SIGNATURE_OFFSET_def) (simp add: SIGNATURE_def)
qed

theorem archive_parsed_witness:
  "\<exists>v h. InitramfsFsProvider 2 0x1000 example_archive = Inr (v, h) \<and> map (entry_view example_archive) (elems v h) = [([0x61], DIRECTORY, 0x1200, 0)]"
  using archive_parsed [OF example_archive_header, of 2]
  by (auto simp: VECTOR_LIMIT_def trim_name_def file_type_def TYPE_DIRECTORY_def TYPE_FILE_def)

lemma ramdisk_read_ok:
  assumes "fh_open h" and "fh_node h = Some p" and "load p t = Inr n" and "\<not> fn_lock n" and "fn_type n = FILE"
    and "fn_fsProvider n = Some self" and "prov self = initramfs_provider self es" and "entry_of es (fn_node n) = Inr e"
    and "\<forall>a. within buf (unat k) a \<longrightarrow> \<not> within (ie_data e + off) (unat k) a"
  shows "\<exists>r m'. fs_read prov off k buf h t m = Inr (r, h, t, m') \<and> unat r = min (unat (ie_size e) - unat off) (unat k) \<and>
           (\<forall>a. m' a = (if within buf (unat r) a then m (ie_data e + off + (a - buf)) else m a))"
proof -
  let ?k = "util_min (ie_size e - off) k"
  let ?r = "if off < ie_size e then ?k else 0"
  from update_locked [OF assms(3,4)] obtain t1 where
    t1: "lock_node p t = Inr t1" "load p t1 = Inr (n\<lparr>fn_lock := True\<rparr>)" "\<forall>y. store p y t1 = store p y t" by blast
  note ul = unlock_locked [OF assms(3,4) t1(2,3)]
  have r: "unat ?r = min (unat (ie_size e) - unat off) (unat k)"
    by (auto simp: util_min_def word_less_nat_alt unat_sub word_le_nat_alt)
  then have le: "unat ?r \<le> unat k" by simp
  have sep: "\<forall>a. within buf (unat ?r) a \<longrightarrow> \<not> within (ie_data e + off) (unat ?r) a"
    using assms(9) within_mono [OF _ le] by blast
  let ?m = "\<lambda>a. if within buf (unat ?r) a then m (ie_data e + off + (a - buf)) else m a"
  have "initramfs_read es (n\<lparr>fn_lock := True\<rparr>) off k buf m = Inr (?r, ?m)"
  proof (cases "off < ie_size e")
    case True
    with memcpy_eq [OF sep, of m] show ?thesis by (simp add: initramfs_read_def assms(8) Let_def)
  next
    case False
    then show ?thesis by (simp add: initramfs_read_def assms(8))
  qed
  then have "fs_read prov off k buf h t m = Inr (?r, h, t, ?m)"
    using assms(1,2,5-7) t1(1,2) ul by (simp add: fs_read_def node_ptr_def initramfs_provider_def del: if_split)
  with r show ?thesis by blast
qed

text \<open>
  Reading a file of the RAM disk through its handle: the number of bytes is what is left of the file from the
  offset on, at most the length of the buffer and 0 beyond the end; these bytes are copied to the buffer and nothing
  else in memory changes.
\<close>

theorem ramdisk_read_correct:
  assumes "fh_open h" and "fh_node h = Some p" and "load p t = Inr n" and "\<not> fn_lock n" and "fn_type n = FILE"
    and "fn_fsProvider n = Some self" and "prov self = initramfs_provider self es" and "entry_of es (fn_node n) = Inr e"
    and "\<forall>a. within buf (unat k) a \<longrightarrow> \<not> within (ie_data e + off) (unat k) a"
  shows "\<exists>r m'. fs_read prov off k buf h t m = Inr (r, h, t, m') \<and> unat r = min (unat (ie_size e) - unat off) (unat k) \<and>
           (\<forall>a. m' a = (if within buf (unat r) a then m (ie_data e + off + (a - buf)) else m a))"
  using ramdisk_read_ok [where prov = prov and m = m, OF assms(1-9)] .

theorem ramdisk_read_correct_witness:
  "\<exists>r m'. fs_read (\<lambda>i. initramfs_provider i example_entries) 2 16 0x9000
            \<lparr>fh_node = Some (2, 0), fh_writable = False, fh_open = True, fh_error = OKAY\<rparr> example_fs (\<lambda>a. ucast a) =
            Inr (r, \<lparr>fh_node = Some (2, 0), fh_writable = False, fh_open = True, fh_error = OKAY\<rparr>, example_fs, m') \<and>
          r = 5 \<and> m' 0x9001 = 3 \<and> m' 0x9005 = 5"
proof -
  let ?h = "\<lparr>fh_node = Some (2, 0), fh_writable = False, fh_open = True, fh_error = OKAY\<rparr>"
  let ?e = "\<lparr>ie_name = String_of 0x1000 1, ie_type = FILE, ie_data = 0x3000, ie_size = 7\<rparr>"
  let ?prov = "\<lambda>i. initramfs_provider i example_entries"
  have n: "load (2, 0) example_fs = Inr example_child" "\<not> fn_lock example_child" "fn_type example_child = FILE"
    "fn_fsProvider example_child = Some 2" "entry_of example_entries (fn_node example_child) = Inr ?e"
    by (simp_all add: load_def example_fs_def example_child_def FileNode_default_def entry_of_def example_entries_def)
  have sep: "\<forall>a. within 0x9000 (unat (16 :: u64)) a \<longrightarrow> \<not> within (ie_data ?e + 2) (unat (16 :: u64)) a"
    using within_apart [of "0x3002" 16 "0x9000" 16] by auto
  have "fh_open ?h" "fh_node ?h = Some (2, 0)" "?prov 2 = initramfs_provider 2 example_entries" by simp_all
  from ramdisk_read_correct [where prov = ?prov and m = "\<lambda>a. ucast a", OF this(1,2) n(1-4) this(3) n(5) sep] obtain r m' where
    r: "fs_read ?prov 2 16 0x9000 ?h example_fs (\<lambda>a. ucast a) = Inr (r, ?h, example_fs, m')" "unat r = 5"
    "\<forall>a. m' a = (if within 0x9000 5 a then ucast (0x3002 + (a - 0x9000)) else ucast a)" by auto
  from r(2) have "r = 5" by (simp add: word_unat_eq_iff)
  with r(1,3) show ?thesis by (intro exI [of _ r] exI [of _ m']) (simp add: within_def)
qed

text \<open>
  Names that merely start with a directory's name are listed in it: an entry \<open>usrlocal\<close> appears in the directory
  \<open>usr\<close> as \<open>local\<close>, because no slash is required after the prefix.
\<close>

lemma listing_ignores_missing_slash:
  assumes "string_ok (ie_name e)" and "text_of m (ie_name e) = text_of m (ie_name d) @ x # xs" and "x \<noteq> slash" and "slash \<notin> set xs"
  shows "\<exists>c. child_of self m d a e = Some c \<and> text_of m (fn_name c) = x # xs"
proof -
  let ?b = "subString_from (ie_name e) (len (ie_name d))"
  have t: "text_of m ?b = x # xs" using assms(2) by (simp add: text_of_subString_from len_def)
  have ok: "string_ok ?b" using assms(1) by (simp add: subString_from_def)
  have "startsWith (ie_name e) (ie_name d) m" using assms(2) by (simp add: startsWith_iff)
  moreover have "String_at ?b 0 m \<noteq> slash" using t assms(3) by (simp add: String_at_eq del: length_text_of)
  moreover have "len ?b > 0" using t by (auto simp: len_def word_neq_0_conv [symmetric])
  moreover have "String_is_null (findNext ?b slash m)"
    using findNext_text(3) [OF ok, of slash m] t assms(4) by (simp add: slash_def)
  ultimately show ?thesis using t by (simp add: child_of_def Let_def)
qed

end
