(* ===== verification/Boot_Files.thy ===== *)
theory Boot_Files
  imports Initramfs
begin

text \<open>
  What the first CPU that is ready does with the file system (\<^verbatim>\<open>kRun\<close> in \<^verbatim>\<open>startup.cpp\<close>): the RAM disk is mounted on the root directory,
  a file of it is looked up, opened, and up to 512 bytes of it are read into a buffer and printed. This is where the archive, the
  provider, the tree of nodes and the strings work together; the theory follows one run through all of them.
\<close>

section \<open>The program\<close>

text \<open>
  The buffer is the block that \<^verbatim>\<open>kmalloc\<close> returned, \<open>rootPath\<close> and \<open>fileName\<close> are the literals \<open>"/"\<close> and \<open>"test.txt"\<close>. The result is the text
  that is printed, with the tree and the memory after both handles are closed.
\<close>

definition kRun_files ::
  "providers \<Rightarrow> nat \<Rightarrow> nat \<Rightarrow> ptr \<Rightarrow> String \<Rightarrow> String \<Rightarrow> ptr \<Rightarrow> byte_mem \<Rightarrow> tree \<Rightarrow> (u8 list \<times> tree \<times> byte_mem) result" where
  "kRun_files prov0 self fuel pointer rootPath fileName buffer m t =
     rbind (FileHandle_path prov0 m rootPath True t) (\<lambda>(rootDirectory, t1).
     rbind (InitramfsFsProvider fuel pointer m) (\<lambda>es.
       let prov = prov0(self := initramfs_provider self es) in
       rbind (mount prov self rootDirectory t1) (\<lambda>(rootDirectory1, t2).
       rbind (findChild prov m fileName rootDirectory1 t2) (\<lambda>(index, rootDirectory2, t3).
       rbind (openChild prov m index False rootDirectory2 t3) (\<lambda>(firstChild, rootDirectory3, t4).
       rbind (close rootDirectory3 t4) (\<lambda>(_, t5).
       rbind (fs_read prov 0 512 buffer firstChild t5 m) (\<lambda>(size, firstChild1, t6, m1).
       rbind (close firstChild1 t6) (\<lambda>(_, t7). Inr (text_of m1 (String_of buffer size), t7, m1)))))))))"

section \<open>Opening the root and mounting\<close>

lemma open_root:
  assumes "string_ok path" and "text_of m path = [slash]" and "load root_addr t = Inr n" and "\<not> fn_lock n"
  shows "\<exists>t1. FileHandle_path prov m path w t = Inr (\<lparr>fh_node = Some root_addr, fh_writable = w, fh_open = True, fh_error = OKAY\<rparr>, t1) \<and>
           store root_addr (n\<lparr>fn_openCount := fn_openCount n + 1\<rparr>) t = Inr t1"
proof -
  let ?n = "n\<lparr>fn_openCount := fn_openCount n + 1\<rparr>"
  from load_store [OF assms(3), of ?n] obtain t1 where
    t1: "store root_addr ?n t = Inr t1" "load root_addr t1 = Inr ?n" "store root_addr n t1 = Inr t" by blast
  let ?h = "\<lparr>fh_node = Some root_addr, fh_writable = False, fh_open = True, fh_error = OKAY\<rparr>"
  have "FileHandle_node root_addr False t = Inr (?h, t1)" using count_open_ok [OF assms(3,4)] t1(1) by (simp add: FileHandle_node_def)
  moreover have "open_loop prov m ?h path t1 = Inr (Some ?h, t1)"
    using open_loop_resolve [OF assms(1), of prov m ?h t1] by (simp add: assms(2) components_def)
  moreover have "close ?h t1 = Inr (?h\<lparr>fh_node := None, fh_error := CLOSED\<rparr>, t)"
    using close_ok [of ?h root_addr t1 ?n] t1 assms(4) by simp
  ultimately show ?thesis
    using count_open_ok [OF assms(3,4)] t1(1) by (simp add: FileHandle_path_def node_ptr_def)
qed

lemma mount_ramdisk:
  assumes "fh_open h" and "fh_writable h" and "fh_node h = Some p" and "load p t = Inr n" and "\<not> fn_lock n" and "fn_type n = DIRECTORY"
    and "v_size (fn_children n) = 0" and "fn_openCount n = 1" and "fn_fsProvider n = None" and "prov self = initramfs_provider self es"
  shows "\<exists>t'. mount prov self h t = Inr (h, t') \<and>
           store p (n\<lparr>fn_fsProvider := Some self, fn_populated := False, fn_node := Vector_at (fst es) 0\<rparr>) t = Inr t'"
proof -
  from update_locked [OF assms(4,5)] obtain t1 where
    t1: "lock_node p t = Inr t1" "load p t1 = Inr (n\<lparr>fn_lock := True\<rparr>)" "\<forall>y. store p y t1 = store p y t" by blast
  let ?n2 = "n\<lparr>fn_lock := True, fn_fsProvider := Some self, fn_populated := False\<rparr>"
  let ?n3 = "?n2\<lparr>fn_node := Vector_at (fst es) 0\<rparr>"
  from load_store [OF t1(2), of ?n2] obtain t2 where
    t2: "store p ?n2 t1 = Inr t2" "load p t2 = Inr ?n2" "\<forall>z. store p z t2 = store p z t1" by blast
  from load_store [OF t2(2), of ?n3] obtain t3 where
    t3: "store p ?n3 t2 = Inr t3" "load p t3 = Inr ?n3" "\<forall>z. store p z t3 = store p z t2" by blast
  from load_store [OF assms(4), of "?n3\<lparr>fn_lock := False\<rparr>"] obtain t4 where t4: "store p (?n3\<lparr>fn_lock := False\<rparr>) t = Inr t4" by blast
  have "?n3\<lparr>fn_lock := False\<rparr> = n\<lparr>fn_fsProvider := Some self, fn_populated := False, fn_node := Vector_at (fst es) 0\<rparr>"
    using assms(5) by (cases n) simp
  with assms t1 t2 t3 t4 show ?thesis
    by (simp add: mount_def node_ptr_def Vector_getSize_def update_node_def initramfs_provider_def initramfs_initRoot_def unlock_node_def)
qed

section \<open>Opening a child\<close>

text \<open>
  Opening a child of a directory of the RAM disk populates the directory again and then counts the handle in the child of that index,
  an element of the array as it is now; the directory is left unlocked.
\<close>

definition open_at :: "u64 \<Rightarrow> bool \<Rightarrow> vec \<Rightarrow> tree \<Rightarrow> (file_handle \<times> tree) result" where
  "open_at i w v t = (if i < v_size v then (case Vector_at v i of None \<Rightarrow> Inl NullDereference | Some c \<Rightarrow> FileHandle_node c w t) else Inr (FileHandle_empty, t))"

lemma openChild_runs:
  assumes "ramdisk_dir prov self es h p t" and "length (children_of p t) + length (listing self es m (node_at p t)) \<le> VECTOR_LIMIT"
  shows "\<exists>t2 v. openChild prov m i w h t = rbind (open_at i w v t2) (\<lambda>(r, t3). rbind (unlock_node p t3) (\<lambda>t4. Inr (r, h, t4))) \<and>
           dir_ok p t2 \<and> node_at p t2 = (node_at p t)\<lparr>fn_lock := True, fn_children := v\<rparr> \<and>
           children_of p t2 = children_of p t @ listing self es m (node_at p t)"
proof -
  let ?action = "\<lambda>vs s. if i < Vector_getSize vs then (case Vector_at vs i of None \<Rightarrow> Inl NullDereference
          | Some c \<Rightarrow> rbind (FileHandle_node c w s) (\<lambda>(r, t1). Inr (Some r, t1))) else Inr (None, s)"
  have act: "rbind (?action v s) (\<lambda>(r, t3). rbind (unlock_node p t3) (\<lambda>t4. Inr (case r of None \<Rightarrow> FileHandle_empty | Some x \<Rightarrow> x, h, t4))) =
      rbind (open_at i w v s) (\<lambda>(r, t3). rbind (unlock_node p t3) (\<lambda>t4. Inr (r, h, t4)))" for v s
    by (cases "Vector_at v i"; cases "FileHandle_node (the (Vector_at v i)) w s") (auto simp: open_at_def Vector_getSize_def)
  from rd.lookup_runs [where prov = prov and dflt = FileHandle_empty and action = ?action, OF ramdisk_dirD [OF assms(1)] assms(2)]
  show ?thesis unfolding openChild_def act by blast
qed

lemma openChild_opens:
  assumes r: "ramdisk_dir prov self es h p t" and lim: "length (children_of p t) + length (listing self es m (node_at p t)) \<le> VECTOR_LIMIT"
    and i: "unat i < length (children_of p t @ listing self es m (node_at p t))"
    and c: "(children_of p t @ listing self es m (node_at p t)) ! unat i = c" "\<not> fn_lock c"
  shows "\<exists>b t' n. openChild prov m i w h t = Inr (\<lparr>fh_node = Some (b, unat i), fh_writable = w, fh_open = True, fh_error = OKAY\<rparr>, h, t') \<and>
           b \<noteq> fst p \<and> load (b, unat i) t' = Inr (c\<lparr>fn_openCount := fn_openCount c + 1\<rparr>) \<and> load p t' = Inr n \<and> \<not> fn_lock n"
proof -
  let ?cs = "children_of p t @ listing self es m (node_at p t)"
  from openChild_runs [OF r lim, of i w] obtain t2 v where
    run: "openChild prov m i w h t = rbind (open_at i w v t2) (\<lambda>(r, t3). rbind (unlock_node p t3) (\<lambda>t4. Inr (r, h, t4)))"
    and t2: "dir_ok p t2" "node_at p t2 = (node_at p t)\<lparr>fn_lock := True, fn_children := v\<rparr>" "children_of p t2 = ?cs" by blast
  have v: "vec_ok v t2" "elems v t2 = ?cs" "v_data v \<noteq> Some (fst p)" using t2 by (simp_all add: dir_ok_def children_of_def)
  have iv: "unat i < unat (v_size v)" using i v(2) vec_okD(4) [OF v(1)] by simp
  from child_at [OF v(1) iv] v(2) c(1) obtain b where
    b: "v_data v = Some b" "Vector_at v i = Some (b, unat i)" "load (b, unat i) t2 = Inr c" by auto
  have bp: "b \<noteq> fst p" using b(1) v(3) by auto
  let ?c = "c\<lparr>fn_openCount := fn_openCount c + 1\<rparr>"
  from load_store [OF b(3), of ?c] obtain t3 where
    t3: "store (b, unat i) ?c t2 = Inr t3" "load (b, unat i) t3 = Inr ?c" "\<forall>b'. b' \<noteq> b \<longrightarrow> hp_blocks t3 b' = hp_blocks t2 b'" by auto
  have l3: "load p t3 = Inr (node_at p t2)" using t2(1) t3(3) bp by (simp add: dir_ok_def load_def)
  from load_store [OF l3, of "(node_at p t2)\<lparr>fn_lock := False\<rparr>"] obtain t4 where
    t4: "store p ((node_at p t2)\<lparr>fn_lock := False\<rparr>) t3 = Inr t4" "load p t4 = Inr ((node_at p t2)\<lparr>fn_lock := False\<rparr>)"
      "\<forall>b'. b' \<noteq> fst p \<longrightarrow> hp_blocks t4 b' = hp_blocks t3 b'" by blast
  have "load (b, unat i) t4 = Inr ?c" using t3(2) t4(3) bp by (simp add: load_def)
  moreover have "openChild prov m i w h t = Inr (\<lparr>fh_node = Some (b, unat i), fh_writable = w, fh_open = True, fh_error = OKAY\<rparr>, h, t4)"
    using run iv b(2) t3(1) count_open_ok [OF b(3) c(2)] l3 t4(1)
    by (simp add: open_at_def word_less_nat_alt FileHandle_node_def unlock_node_def update_node_def)
  ultimately show ?thesis using bp t4(2) by auto
qed

lemma openChild_missing:
  assumes r: "ramdisk_dir prov self es h p t" and lim: "length (children_of p t) + length (listing self es m (node_at p t)) \<le> VECTOR_LIMIT"
    and i: "length (children_of p t @ listing self es m (node_at p t)) \<le> unat i"
  shows "\<exists>t'. openChild prov m i w h t = Inr (FileHandle_empty, h, t') \<and> ramdisk_dir prov self es h p t'"
proof -
  let ?cs = "children_of p t @ listing self es m (node_at p t)"
  from openChild_runs [OF r lim, of i w] obtain t2 v where
    run: "openChild prov m i w h t = rbind (open_at i w v t2) (\<lambda>(r, t3). rbind (unlock_node p t3) (\<lambda>t4. Inr (r, h, t4)))"
    and t2: "dir_ok p t2" "node_at p t2 = (node_at p t)\<lparr>fn_lock := True, fn_children := v\<rparr>" "children_of p t2 = ?cs" by blast
  have v: "vec_ok v t2" "elems v t2 = ?cs" using t2 by (simp_all add: dir_ok_def children_of_def)
  have iv: "unat (v_size v) \<le> unat i" using i v(2) vec_okD(4) [OF v(1)] by simp
  from store_node [OF t2(1), of "(node_at p t2)\<lparr>fn_lock := False\<rparr>"] obtain t3 where
    t3: "store p ((node_at p t2)\<lparr>fn_lock := False\<rparr>) t2 = Inr t3" "node_at p t3 = (node_at p t2)\<lparr>fn_lock := False\<rparr>" "dir_step p t2 t3" by auto
  have "openChild prov m i w h t = Inr (FileHandle_empty, h, t3)"
    using run iv t2(1) t3(1) by (simp add: open_at_def word_less_nat_alt unlock_node_def update_node_def dir_ok_def)
  moreover have "ramdisk_dir prov self es h p t3"
    using r t3(2,3) t2(2) by (simp add: ramdisk_dir_def dir_step_def has_entry_def)
  ultimately show ?thesis by blast
qed

section \<open>Which entry a name means\<close>

text \<open>
  On the level of names: what is left of an entry's name after the directory's name and one slash, if there is anything left and it has
  no further slash after its first byte.
\<close>

definition child_name :: "u8 list \<Rightarrow> u8 list \<Rightarrow> u8 list option" where
  "child_name d n =
     (if prefix d n then
        (let b = drop (length d) n; c = (case b of x # xs \<Rightarrow> if x = slash then xs else b | [] \<Rightarrow> [])
         in if c \<noteq> [] \<and> slash \<notin> set (tl c) then Some c else None)
      else None)"

lemma child_of_name:
  assumes "string_ok (ie_name e)"
  shows "map_option (\<lambda>c. text_of m (fn_name c)) (child_of self m d a e) = child_name (text_of m (ie_name d)) (text_of m (ie_name e))"
proof -
  let ?b = "subString_from (ie_name e) (len (ie_name d))"
  let ?c = "if String_at ?b 0 m = slash then subString_from ?b 1 else ?b"
  have tb: "text_of m ?b = drop (length (text_of m (ie_name d))) (text_of m (ie_name e))" by (simp add: text_of_subString_from len_def)
  have tc: "text_of m ?c = (case text_of m ?b of x # xs \<Rightarrow> if x = slash then xs else text_of m ?b | [] \<Rightarrow> [])"
    by (cases "text_of m ?b") (auto simp: String_at_eq slash_def text_of_subString_from simp del: length_text_of)
  have "string_ok ?c" using assms by (simp add: subString_from_def)
  then have nx: "String_is_null (findNext ?c slash m) \<longleftrightarrow> slash \<notin> set (tl (text_of m ?c))" by (rule findNext_text(3)) (simp add: slash_def)
  have ln: "len ?c > 0 \<longleftrightarrow> text_of m ?c \<noteq> []"
    by (metis len_def length_greater_0_conv length_text_of unat_gt_0 word_neq_0_conv)
  define c where "c = ?c"
  have "map_option (\<lambda>c. text_of m (fn_name c)) (child_of self m d a e) =
      (if prefix (text_of m (ie_name d)) (text_of m (ie_name e)) then
         if text_of m c \<noteq> [] \<and> slash \<notin> set (tl (text_of m c)) then Some (text_of m c) else None else None)"
    using nx ln unfolding child_of_def Let_def startsWith_iff c_def [symmetric] by simp
  then show ?thesis unfolding c_def tc unfolding tb child_name_def Let_def .
qed

lemma child_of_node:
  assumes "child_of self m d a e = Some c"
  shows "fn_node c = Some a" "fn_type c = ie_type e" "fn_fsProvider c = Some self" "\<not> fn_lock c"
  using assms by (auto simp: child_of_def Let_def FileNode_default_def split: if_splits)

lemma name_index_find:
  "name_index m nm cs = None \<longleftrightarrow> List.find (\<lambda>c. text_of m (fn_name c) = nm) cs = None"
  "name_index m nm cs = Some i \<Longrightarrow> i < length cs \<and> List.find (\<lambda>c. text_of m (fn_name c) = nm) cs = Some (cs ! i)"
  by (auto simp: name_index_def find_None_iff find_Some_iff in_set_conv_nth)

lemma find_SomeD: "List.find P xs = Some x \<Longrightarrow> x \<in> set xs \<and> P x"
  by (auto simp: find_Some_iff)

lemma find_map: "List.find P (map f xs) = map_option f (List.find (\<lambda>x. P (f x)) xs)"
  by (induction xs) simp_all

lemma find_map_filter:
  "List.find P (List.map_filter f xs) = Option.bind (List.find (\<lambda>x. \<exists>y. f x = Some y \<and> P y) xs) f"
  by (induction xs) (auto simp: map_filter_simps split: option.split)

lemma find_append: "List.find P (xs @ ys) = (case List.find P xs of None \<Rightarrow> List.find P ys | Some x \<Rightarrow> Some x)"
  by (induction xs) simp_all

lemma addressed_entries:
  assumes "vec_ok v h"
  shows "map snd (addressed (v, h)) = elems v h" "(a, e) \<in> set (addressed (v, h)) \<Longrightarrow> load a h = Inr e"
proof -
  have n: "length (elems v h) = unat (v_size v)" by (rule vec_okD(4) [OF assms])
  show "map snd (addressed (v, h)) = elems v h"
  proof (cases "v_data v")
    case None
    then show ?thesis by (simp add: addressed_def elems_def)
  next
    case (Some b)
    then show ?thesis by (simp add: addressed_def o_def map_nth)
  qed
  assume "(a, e) \<in> set (addressed (v, h))"
  then obtain b i where "v_data v = Some b" "i < unat (v_size v)" "a = (b, i)" "e = elems v h ! i"
    using n by (cases "v_data v") (auto simp: addressed_def)
  with child_at [OF assms, of i] show "load a h = Inr e" by auto
qed

lemma listing_find:
  assumes ok: "vec_ok v h" and s: "\<forall>e \<in> set (elems v h). string_ok (ie_name e)" and d: "entry_of (v, h) (fn_node d) = Inr de"
  shows "case List.find (\<lambda>e. child_name (text_of m (ie_name de)) (text_of m (ie_name e)) = Some nm) (elems v h) of
           None \<Rightarrow> List.find (\<lambda>c. text_of m (fn_name c) = nm) (listing self (v, h) m d) = None
         | Some e \<Rightarrow> \<exists>c. List.find (\<lambda>c. text_of m (fn_name c) = nm) (listing self (v, h) m d) = Some c \<and>
             entry_of (v, h) (fn_node c) = Inr e \<and> fn_type c = ie_type e \<and> fn_fsProvider c = Some self \<and> \<not> fn_lock c"
proof -
  let ?f = "\<lambda>(a, e). child_of self m de a e"
  let ?P = "\<lambda>e. child_name (text_of m (ie_name de)) (text_of m (ie_name e)) = Some nm"
  have mem: "snd x \<in> set (elems v h)" if "x \<in> set (addressed (v, h))" for x
    using that unfolding addressed_entries(1) [OF ok, symmetric] by simp
  have "?P (snd x) \<longleftrightarrow> (\<exists>c. ?f x = Some c \<and> text_of m (fn_name c) = nm)" if "x \<in> set (addressed (v, h))" for x
    using child_of_name [of "snd x" m self de "fst x"] s mem [OF that] by (cases x) (auto simp del: not_None_eq)
  then have eq: "List.find (\<lambda>x. \<exists>c. ?f x = Some c \<and> text_of m (fn_name c) = nm) (addressed (v, h)) = List.find (\<lambda>x. ?P (snd x)) (addressed (v, h))"
    by (intro find_cong) auto
  have l: "List.find (\<lambda>c. text_of m (fn_name c) = nm) (listing self (v, h) m d) = Option.bind (List.find (\<lambda>x. ?P (snd x)) (addressed (v, h))) ?f"
    using d by (simp add: listing_def find_map_filter eq)
  have e: "List.find ?P (elems v h) = map_option snd (List.find (\<lambda>x. ?P (snd x)) (addressed (v, h)))"
    unfolding addressed_entries(1) [OF ok, symmetric] find_map ..
  show ?thesis
  proof (cases "List.find (\<lambda>x. ?P (snd x)) (addressed (v, h))")
    case None
    then show ?thesis by (simp add: l e)
  next
    case (Some x)
    obtain a en where x: "x = (a, en)" by fastforce
    have m: "(a, en) \<in> set (addressed (v, h))" "?P en" using find_SomeD [OF Some] by (simp_all add: x)
    from child_of_name [of en m self de a] s mem [OF m(1)] m(2) obtain c where c: "child_of self m de a en = Some c" by auto
    from child_of_node [OF c] addressed_entries(2) [OF ok m(1)] show ?thesis using Some by (simp add: l e x c entry_of_def)
  qed
qed

text \<open>The archive does not wrap around the end of the address space, so that the names of its entries are where they seem to be.\<close>

fun headers_fit :: "ptr \<Rightarrow> (u8 list \<times> u8 \<times> nat) list \<Rightarrow> bool" where
  "headers_fit p [] \<longleftrightarrow> True"
| "headers_fit p ((name, type, n) # es) \<longleftrightarrow> p \<noteq> nullptr \<and> unat p + length name < 2 ^ 64 \<and> headers_fit (next_header p n) es"

lemma parsed_string_ok: "headers_fit p es \<Longrightarrow> e \<in> set (parsed m p es) \<Longrightarrow> string_ok (ie_name e)"
proof (induction es arbitrary: p)
  case (Cons x es)
  obtain name type n where x: "x = (name, type, n)" by (cases x) auto
  have "string_ok (String_of p (of_nat (length name)))"
    using Cons.prems(1) by (simp add: x string_ok_def String_of_def unat_of_nat_small)
  then have "string_ok (strip_slash (String_of p (of_nat (length name))) m)" by (simp add: strip_slash_def)
  with Cons show ?case by (auto simp: x parsed_entry_def split: if_splits)
qed simp

text \<open>The reference for the lookup: the first entry of the archive gives the directory, the first entry that is a child of that name the file.\<close>

definition file_named :: "u8 list \<Rightarrow> (u8 list \<times> FileType \<times> ptr \<times> u64) list \<Rightarrow> (FileType \<times> ptr \<times> u64) option" where
  "file_named name cs = (case cs of [] \<Rightarrow> None | (d, _) # _ \<Rightarrow> map_option snd (List.find (\<lambda>(n, _). child_name d n = Some name) cs))"

lemma file_named_view:
  "file_named name (map (entry_view m) (de # es)) =
     map_option (\<lambda>e. (ie_type e, ie_data e, ie_size e)) (List.find (\<lambda>e. child_name (text_of m (ie_name de)) (text_of m (ie_name e)) = Some name) (de # es))"
  unfolding file_named_def find_map by (simp add: entry_view_def find_map option.map_comp o_def)

section \<open>The whole run\<close>

lemma boot_read:
  assumes p: "fh_open c" "fh_node c = Some q" "load q t = Inr n" "\<not> fn_lock n" "fn_fsProvider n = Some self" "prov self = initramfs_provider self es"
    and e: "entry_of es (fn_node n) = Inr e" "fn_type n = ie_type e"
    and sep: "\<forall>a. within buffer 512 a \<longrightarrow> \<not> within (ie_data e) 512 a"
  shows "\<exists>r c' m' c'' t'. fs_read prov 0 512 buffer c t m = Inr (r, c', t, m') \<and> close c' t = Inr (c'', t') \<and>
           text_of m' (String_of buffer r) = (if ie_type e = FILE then read_bytes m (ie_data e) (min (unat (ie_size e)) 512) else []) \<and>
           (\<forall>a. \<not> within buffer 512 a \<longrightarrow> m' a = m a)"
proof -
  from load_store [OF p(3), of "n\<lparr>fn_openCount := fn_openCount n - 1\<rparr>"] obtain t' where
    t': "store q (n\<lparr>fn_openCount := fn_openCount n - 1\<rparr>) t = Inr t'" by blast
  show ?thesis
  proof (cases "ie_type e = FILE")
    case True
    have "\<forall>a. within buffer (unat (512 :: u64)) a \<longrightarrow> \<not> within (ie_data e + 0) (unat (512 :: u64)) a" using sep by simp
    from ramdisk_read_ok [where m = m and prov = prov, OF p(1-4) _ p(5,6) e(1) this] True e(2) obtain r m' where
      r: "fs_read prov 0 512 buffer c t m = Inr (r, c, t, m')" "unat r = min (unat (ie_size e)) 512"
        "\<forall>a. m' a = (if within buffer (unat r) a then m (ie_data e + (a - buffer)) else m a)" by auto
    have "within buffer (unat r) (buffer + of_nat k)" if "k < unat r" for k
    proof -
      have "k < 2 ^ 64" using that r(2) by simp
      with that show ?thesis by (simp add: within_def unat_of_nat_small)
    qed
    then have "read_bytes m' buffer (unat r) = read_bytes m (ie_data e) (unat r)"
      by (intro nth_equalityI) (auto simp: r(3))
    moreover have "m' a = m a" if "\<not> within buffer 512 a" for a
      using r(2,3) that within_mono [of buffer "unat r" a 512] by auto
    ultimately show ?thesis using True r(1,2) close_ok [OF p(1-4)] t' by auto
  next
    case False
    from update_locked [OF p(3,4)] obtain t1 where
      t1: "lock_node q t = Inr t1" "load q t1 = Inr (n\<lparr>fn_lock := True\<rparr>)" "\<forall>y. store q y t1 = store q y t" by blast
    have "fs_read prov 0 512 buffer c t m = Inr (0, c\<lparr>fh_error := NOT_FILE\<rparr>, t, m)"
      using p(1,2) t1(1,2) unlock_locked [OF p(3,4) t1(2,3)] False e(2) by (simp add: fs_read_def node_ptr_def)
    with False close_ok [of "c\<lparr>fh_error := NOT_FILE\<rparr>" q t n] p t' show ?thesis by auto
  qed
qed

text \<open>The tree as the linker leaves it: the root node, not yet initialised, and nothing else.\<close>

definition single_node :: "file_node \<Rightarrow> tree" where
  "single_node n = \<lparr>hp_blocks = [0 \<mapsto> [n]], hp_next = 1\<rparr>"

definition boot_tree :: tree where
  "boot_tree = single_node FileNode_default"

lemma single_node_access:
  "load root_addr (single_node n) = Inr n" "store root_addr n' (single_node n) = Inr (single_node n')" "node_at root_addr (single_node n) = n"
  by (simp_all add: load_def store_def node_at_def root_addr_def single_node_def)

lemma single_node_dir:
  assumes "fn_children n = Vector_empty"
  shows "dir_ok root_addr (single_node n)" and "children_of root_addr (single_node n) = []"
  using assms single_node_access [of n]
  by (simp_all add: dir_ok_def children_of_def vec_ok_def arrays_ok_def elems_def Vector_empty_def) (simp_all add: single_node_def)

definition mounted_root :: "nat \<Rightarrow> entries \<Rightarrow> file_node" where
  "mounted_root self es = FileNode_default\<lparr>fn_type := DIRECTORY, fn_openCount := 1, fn_fsProvider := Some self, fn_node := Vector_at (fst es) 0\<rparr>"

definition root_handle :: file_handle where
  "root_handle = \<lparr>fh_node = Some root_addr, fh_writable = True, fh_open = True, fh_error = OKAY\<rparr>"

lemma boot_mount:
  assumes "string_ok path" and "text_of m path = [slash]" and "prov self = initramfs_provider self es"
  shows "\<exists>t t1. initializeRoot boot_tree = Inr t \<and> FileHandle_path old m path True t = Inr (root_handle, t1) \<and>
           mount prov self root_handle t1 = Inr (root_handle, single_node (mounted_root self es))"
proof -
  let ?n = "FileNode_default\<lparr>fn_type := DIRECTORY\<rparr>"
  let ?n1 = "?n\<lparr>fn_openCount := 1\<rparr>"
  have i: "initializeRoot boot_tree = Inr (single_node ?n)" by (simp add: initializeRoot_def boot_tree_def single_node_access)
  from open_root [OF assms(1,2) single_node_access(1), of ?n old True] have
    o: "FileHandle_path old m path True (single_node ?n) = Inr (root_handle, single_node ?n1)"
    by (auto simp: FileNode_default_def single_node_access root_handle_def)
  from mount_ramdisk [where h = root_handle and p = root_addr and t = "single_node ?n1" and n = ?n1 and prov = prov and self = self and es = es, OF _ _ _ single_node_access(1) _ _ _ _ _ assms(3)]
  have "mount prov self root_handle (single_node ?n1) = Inr (root_handle, single_node (mounted_root self es))"
    by (auto simp: FileNode_default_def single_node_access root_handle_def mounted_root_def Vector_empty_def)
  with i o show ?thesis by blast
qed

lemma mounted_ramdisk:
  assumes "prov self = initramfs_provider self (v, h)" and "vec_ok v h" and "elems v h = de # rest"
  shows "ramdisk_dir prov self (v, h) root_handle root_addr (single_node (mounted_root self (v, h)))"
    and "entry_of (v, h) (fn_node (mounted_root self (v, h))) = Inr de"
proof -
  have "0 < unat (v_size v)" using vec_okD(4) [OF assms(2)] assms(3) by simp
  from child_at [OF assms(2) this] assms(3) show e: "entry_of (v, h) (fn_node (mounted_root self (v, h))) = Inr de"
    by (auto simp: mounted_root_def entry_of_def)
  have "dir_ok root_addr (single_node (mounted_root self (v, h)))" by (rule single_node_dir) (simp add: mounted_root_def FileNode_default_def)
  moreover have "has_entry (v, h) (mounted_root self (v, h))" using e assms(2) by (simp add: has_entry_def entries_ok_def)
  ultimately show "ramdisk_dir prov self (v, h) root_handle root_addr (single_node (mounted_root self (v, h)))"
    using assms(1) by (simp add: ramdisk_dir_def single_node_access root_handle_def) (simp add: mounted_root_def FileNode_default_def)
qed

lemma length_listing: "vec_ok v h \<Longrightarrow> length (listing self (v, h) m d) \<le> length (elems v h)"
proof -
  assume "vec_ok v h"
  from arg_cong [OF addressed_entries(1) [OF this], of length] show ?thesis
    by (simp add: listing_def List.map_filter_def split: sum.split)
       (metis length_filter_le)
qed

text \<open>The lookup and the opening, with the index that passes between them: what \<open>findChild\<close> found is what \<open>openChild\<close> opens.\<close>

lemma boot_open:
  assumes r: "ramdisk_dir prov self es root_handle root_addr t" and e: "children_of root_addr t = []"
    and lim: "2 * length (listing self es m (node_at root_addr t)) \<le> VECTOR_LIMIT"
    and unl: "\<forall>c \<in> set (listing self es m (node_at root_addr t)). \<not> fn_lock c"
  shows "\<exists>i t1 c t2 h' t3. findChild prov m name root_handle t = Inr (i, root_handle, t1) \<and>
    openChild prov m i False root_handle t1 = Inr (c, root_handle, t2) \<and> close root_handle t2 = Inr (h', t3) \<and>
    (case List.find (\<lambda>c. text_of m (fn_name c) = text_of m name) (listing self es m (node_at root_addr t)) of
       None \<Rightarrow> c = FileHandle_empty
     | Some n \<Rightarrow> \<exists>q. fh_open c \<and> fh_node c = Some q \<and> load q t3 = Inr (n\<lparr>fn_openCount := fn_openCount n + 1\<rparr>))"
proof -
  let ?L = "listing self es m (node_at root_addr t)"
  let ?f = "List.find (\<lambda>c. text_of m (fn_name c) = text_of m name) ?L"
  have h: "fh_open root_handle" "fh_node root_handle = Some root_addr" by (simp_all add: root_handle_def)
  from findChild_appends [OF r, of m name] e lim obtain t1 where
    f: "findChild prov m name root_handle t = Inr (case name_index m (text_of m name) ?L of None \<Rightarrow> SIZE_MAX | Some i \<Rightarrow> of_nat i, root_handle, t1)"
    and t1: "ramdisk_dir prov self es root_handle root_addr t1" "children_of root_addr t1 = ?L" "dir_grows root_addr t t1" by auto
  have l1: "listing self es m (node_at root_addr t1) = ?L"
    by (rule ramdisk_dir_grows(2) [OF r _ t1(3)]) (use t1(1) in \<open>simp add: ramdisk_dir_def\<close>)
  have lim1: "length (children_of root_addr t1) + length (listing self es m (node_at root_addr t1)) \<le> VECTOR_LIMIT" using lim by (simp add: t1(2) l1)
  show ?thesis
  proof (cases "name_index m (text_of m name) ?L")
    case None
    have "unat SIZE_MAX = 2 ^ 64 - 1" by (simp add: unsigned_minus_1_eq_mask mask_eq_exp_minus_1)
    then have "length (children_of root_addr t1 @ listing self es m (node_at root_addr t1)) \<le> unat SIZE_MAX"
      using lim by (simp add: t1(2) l1 VECTOR_LIMIT_def)
    from openChild_missing [OF t1(1) lim1 this, of False] obtain t2 where
      t2: "openChild prov m SIZE_MAX False root_handle t1 = Inr (FileHandle_empty, root_handle, t2)" "ramdisk_dir prov self es root_handle root_addr t2" by blast
    from t2(2) have n: "load root_addr t2 = Inr (node_at root_addr t2)" "\<not> fn_lock (node_at root_addr t2)" by (simp_all add: ramdisk_dir_def dir_ok_def)
    from load_store [OF n(1)] close_ok [OF h n] obtain h' t3 where "close root_handle t2 = Inr (h', t3)" by fastforce
    moreover have "?f = None" using None name_index_find(1) by metis
    ultimately show ?thesis using f None t2(1) by (intro exI conjI) (assumption | simp)+
  next
    case (Some i)
    from name_index_find(2) [OF Some] have i: "i < length ?L" "?f = Some (?L ! i)" by simp_all
    have u: "unat (of_nat i :: u64) = i" by (rule unat_of_nat_small) (use i(1) lim in \<open>simp add: VECTOR_LIMIT_def\<close>)
    from openChild_opens [OF t1(1) lim1, of "of_nat i" "?L ! i" False] i(1) unl obtain b t2 n where
      t2: "openChild prov m (of_nat i) False root_handle t1 = Inr (\<lparr>fh_node = Some (b, i), fh_writable = False, fh_open = True, fh_error = OKAY\<rparr>, root_handle, t2)"
        "b \<noteq> fst root_addr" "load (b, i) t2 = Inr ((?L ! i)\<lparr>fn_openCount := fn_openCount (?L ! i) + 1\<rparr>)" "load root_addr t2 = Inr n" "\<not> fn_lock n"
      by (auto simp: u t1(2) l1 nth_append)
    from load_store [OF t2(4), of "n\<lparr>fn_openCount := fn_openCount n - 1\<rparr>"] obtain t3 where
      t3: "store root_addr (n\<lparr>fn_openCount := fn_openCount n - 1\<rparr>) t2 = Inr t3" "\<forall>b. b \<noteq> fst root_addr \<longrightarrow> hp_blocks t3 b = hp_blocks t2 b" by blast
    have "load (b, i) t3 = Inr ((?L ! i)\<lparr>fn_openCount := fn_openCount (?L ! i) + 1\<rparr>)" using t2(2,3) t3(2) by (simp add: load_def)
    moreover have "close root_handle t2 = Inr (root_handle\<lparr>fh_node := None, fh_error := CLOSED\<rparr>, t3)"
      using close_ok [OF h t2(4,5)] t3(1) by simp
    ultimately show ?thesis using f Some t2(1) i(2) by (intro exI conjI) (assumption | simp)+
  qed
qed

lemma listing_unlocked: "c \<in> set (listing self es m d) \<Longrightarrow> \<not> fn_lock c"
  by (auto simp: listing_def List.map_filter_def child_of_node(4) split: sum.splits)

text \<open>
  (C23) The boot file: \<^verbatim>\<open>kRun\<close> opens the root of an empty tree, mounts the RAM disk on it, looks the file up, opens it and reads
  it, and what it prints are the first 512 bytes of the first file of the archive that the name means, relative to the archive's first entry;
  nothing when there is none or it is no file. The run ends without an error of any component on the way, and only the buffer is written.
\<close>

theorem kRun_prints_file:
  assumes a: "archive m pointer es" "headers_fit pointer es" and fuel: "length es < fuel" and lim: "2 * length es \<le> VECTOR_LIMIT"
    and ne: "contents_of pointer es \<noteq> []" and path: "string_ok rootPath" "text_of m rootPath = [slash]"
    and sep: "\<forall>ty data n. file_named (text_of m fileName) (contents_of pointer es) = Some (ty, data, n) \<longrightarrow>
                (\<forall>a. within buffer 512 a \<longrightarrow> \<not> within data 512 a)"
  shows "\<exists>t' m'. rbind (initializeRoot boot_tree) (kRun_files prov self fuel pointer rootPath fileName buffer m) =
           Inr (case file_named (text_of m fileName) (contents_of pointer es) of
                  Some (FILE, data, n) \<Rightarrow> read_bytes m data (min (unat n) 512) | _ \<Rightarrow> [], t', m') \<and>
         (\<forall>a. \<not> within buffer 512 a \<longrightarrow> m' a = m a)"
proof -
  let ?nm = "text_of m fileName"
  from constructor_parses [OF a(1) fuel] lim obtain v h where
    es: "InitramfsFsProvider fuel pointer m = Inr (v, h)" "vec_ok v h" "elems v h = parsed m pointer es" by auto
  have view: "contents_of pointer es = map (entry_view m) (elems v h)" using parsed_view [OF a(1)] es(3) by simp
  with ne obtain de rest where de: "elems v h = de # rest" by (cases "elems v h") auto
  let ?E = "List.find (\<lambda>e. child_name (text_of m (ie_name de)) (text_of m (ie_name e)) = Some ?nm) (elems v h)"
  have named: "file_named ?nm (contents_of pointer es) = map_option (\<lambda>e. (ie_type e, ie_data e, ie_size e)) ?E"
    unfolding view de by (rule file_named_view)
  let ?prov = "prov(self := initramfs_provider self (v, h))" let ?r = "mounted_root self (v, h)"
  have ps: "?prov self = initramfs_provider self (v, h)" by simp
  from boot_mount [where old = prov and prov = ?prov, OF path ps] obtain t t1 where
    mnt: "initializeRoot boot_tree = Inr t" "FileHandle_path prov m rootPath True t = Inr (root_handle, t1)"
      "mount ?prov self root_handle t1 = Inr (root_handle, single_node ?r)" by blast
  note rd = mounted_ramdisk [where prov = ?prov, OF ps es(2) de]
  have "2 * length (listing self (v, h) m ?r) \<le> VECTOR_LIMIT"
    using length_listing [OF es(2), of self m ?r] arg_cong [OF view, of length] length_contents [of pointer es] lim by simp
  with boot_open [OF rd(1) single_node_dir(2), of m fileName] listing_unlocked obtain i t2 c t3 h' t4 where
    op: "findChild ?prov m fileName root_handle (single_node ?r) = Inr (i, root_handle, t2)"
      "openChild ?prov m i False root_handle t2 = Inr (c, root_handle, t3)" "close root_handle t3 = Inr (h', t4)"
      "case List.find (\<lambda>c. text_of m (fn_name c) = ?nm) (listing self (v, h) m ?r) of None \<Rightarrow> c = FileHandle_empty
       | Some n \<Rightarrow> \<exists>q. fh_open c \<and> fh_node c = Some q \<and> load q t4 = Inr (n\<lparr>fn_openCount := fn_openCount n + 1\<rparr>)"
    by (auto simp: single_node_access mounted_root_def FileNode_default_def)
  have ok: "\<forall>e \<in> set (elems v h). string_ok (ie_name e)" using parsed_string_ok [OF a(2)] es(3) by simp
  note run = kRun_files_def mnt es(1) op(1-3) Let_def
  note found = listing_find [OF es(2) ok rd(2), of m ?nm self]
  show ?thesis
  proof (cases ?E)
    case None
    with found op(4) have c: "c = FileHandle_empty" by simp
    have "fs_read ?prov 0 512 buffer c t4 m = Inr (0, c, t4, m)" "close c t4 = Inr (c, t4)"
      by (simp_all add: c fs_read_def close_def FileHandle_empty_def)
    then show ?thesis by (simp add: run named None)
  next
    case (Some e)
    with found obtain n where n: "List.find (\<lambda>c. text_of m (fn_name c) = ?nm) (listing self (v, h) m ?r) = Some n"
      "entry_of (v, h) (fn_node n) = Inr e" "fn_type n = ie_type e" "fn_fsProvider n = Some self" "\<not> fn_lock n" by auto
    from op(4) n(1) obtain q where q: "fh_open c" "fh_node c = Some q" "load q t4 = Inr (n\<lparr>fn_openCount := fn_openCount n + 1\<rparr>)" by auto
    have "\<forall>a. within buffer 512 a \<longrightarrow> \<not> within (ie_data e) 512 a" using sep by (simp add: named Some)
    from boot_read [where prov = ?prov and m = m, OF q _ _ ps _ _ this] n(2-5) obtain r c' m' c'' t' where
      "fs_read ?prov 0 512 buffer c t4 m = Inr (r, c', t4, m')" "close c' t4 = Inr (c'', t')"
      "text_of m' (String_of buffer r) = (if ie_type e = FILE then read_bytes m (ie_data e) (min (unat (ie_size e)) 512) else [])"
      "\<forall>a. \<not> within buffer 512 a \<longrightarrow> m' a = m a" by auto
    then show ?thesis by (cases "ie_type e") (simp_all add: run named Some del: text_of_String_of)
  qed
qed

text \<open>An archive with the directory \<open>./\<close> and the file \<open>./test.txt\<close> of five bytes.\<close>

definition test_txt :: "u8 list" where
  "test_txt = [0x74, 0x65, 0x73, 0x74, 0x2E, 0x74, 0x78, 0x74]"

definition boot_disk :: byte_mem where
  "boot_disk a =
     (if a = 0x1000 \<or> a = 0x1200 then 0x2E else if a = 0x1001 \<or> a = 0x1201 then slash
      else if a - 0x1202 < 8 then test_txt ! unat (a - 0x1202)
      else if a = 0x109C then TYPE_DIRECTORY else if a = 0x129C then TYPE_FILE
      else if a = 0x1286 then 0x35 else if a - 0x107C < 11 \<or> a - 0x127C < 10 then 0x30
      else if a - 0x1101 < 5 then SIGNATURE ! unat (a - 0x1101) else if a - 0x1301 < 5 then SIGNATURE ! unat (a - 0x1301)
      else if a - 0x1400 < 5 then [0x68, 0x65, 0x6C, 0x6C, 0x6F] ! unat (a - 0x1400) else 0)"

lemma boot_disk_bytes:
  "boot_disk 0x109C = TYPE_DIRECTORY" "boot_disk 0x129C = TYPE_FILE" "boot_disk 0x1701 = 0"
  "read_bytes boot_disk 0x107C 11 = replicate 11 0x30" "read_bytes boot_disk 0x127C 11 = replicate 10 0x30 @ [0x35]"
  "read_bytes boot_disk 0x1400 5 = [0x68, 0x65, 0x6C, 0x6C, 0x6F]" "read_bytes boot_disk 0x1202 8 = test_txt"
  by (simp_all add: eval_nat_numeral) (simp_all add: boot_disk_def test_txt_def)

lemma boot_disk_archive: "archive boot_disk 0x1000 [([0x2E, slash], TYPE_DIRECTORY, 0), ([0x2E, slash] @ test_txt, TYPE_FILE, 5)]"
proof -
  have five: "octal_digits 11 5 = replicate 10 0x30 @ [0x35]" using octal_digits.simps(2) [of 10 5] octal_digits_zero [of 10] by simp
  have "c_string boot_disk 0x1000 [0x2E, slash]" "c_string boot_disk 0x1200 ([0x2E, slash] @ test_txt)"
    by (simp_all add: c_string_def boot_disk_def test_txt_def slash_def)
  moreover have "read_bytes boot_disk 0x1101 (length SIGNATURE) = SIGNATURE" "read_bytes boot_disk 0x1301 (length SIGNATURE) = SIGNATURE"
    by (simp_all add: SIGNATURE_def boot_disk_def)
  ultimately have "tar_header boot_disk 0x1000 [0x2E, slash] TYPE_DIRECTORY 0" "tar_header boot_disk 0x1200 ([0x2E, slash] @ test_txt) TYPE_FILE 5"
    using boot_disk_bytes five octal_digits_zero [of 11]
    unfolding tar_header_def TYPE_OFFSET_def SIZE_OFFSET_def SIGNATURE_OFFSET_def SIZE_LENGTH_def by (simp_all del: read_bytes_simps octal_digits.simps)
  then show ?thesis using boot_disk_bytes(3) by (simp add: next_header_def SIGNATURE_OFFSET_def) (simp add: SIGNATURE_def)
qed

lemma boot_disk_contents:
  "contents_of 0x1000 [([0x2E, slash], TYPE_DIRECTORY, 0), ([0x2E, slash] @ test_txt, TYPE_FILE, 5)] =
     [([0x2E], DIRECTORY, 0x1200, 0), ([0x2E, slash] @ test_txt, FILE, 0x1400, 5)]"
  by (simp add: file_type_def TYPE_DIRECTORY_def TYPE_FILE_def trim_name_def next_header_def test_txt_def slash_def)

lemma boot_disk_file: "file_named test_txt [([0x2E], DIRECTORY, 0x1200, 0), ([0x2E, slash] @ test_txt, FILE, 0x1400, 5)] = Some (FILE, 0x1400, 5)"
proof -
  have n: "child_name [0x2E] [0x2E] \<noteq> Some test_txt" "child_name [0x2E] ([0x2E, slash] @ test_txt) = Some test_txt"
    by (simp_all add: child_name_def) (simp add: test_txt_def slash_def)
  then show ?thesis by (simp add: file_named_def del: append_Cons)
qed

theorem kRun_prints_file_witness:
  "\<exists>t' m'. rbind (initializeRoot boot_tree) (kRun_files (\<lambda>_. default_provider) 0 3 0x1000 (String_of 0x1001 1) (String_of 0x1202 8) 0x9000 boot_disk) =
     Inr ([0x68, 0x65, 0x6C, 0x6C, 0x6F], t', m')"
proof -
  let ?es = "[([0x2E, slash], TYPE_DIRECTORY, 0), ([0x2E, slash] @ test_txt, TYPE_FILE, 5)]"
  have strings: "string_ok (String_of 0x1001 1)" "text_of boot_disk (String_of 0x1001 1) = [slash]" "text_of boot_disk (String_of 0x1202 8) = test_txt"
    using boot_disk_bytes(7) by (simp_all add: string_ok_def String_of_def text_of_def boot_disk_def)
  have fit: "headers_fit 0x1000 ?es" by (simp add: next_header_def test_txt_def)
  have sep: "\<forall>a. within 0x9000 512 a \<longrightarrow> \<not> within 0x1400 512 a" using within_apart [of "0x1400" 512 "0x9000" 512] by auto
  from kRun_prints_file [where prov = "\<lambda>_. default_provider" and self = 0 and fuel = 3 and fileName = "String_of 0x1202 8" and buffer = "0x9000",
      OF boot_disk_archive fit _ _ _ strings(1,2)] sep
  show ?thesis unfolding strings(3) boot_disk_contents boot_disk_file
    by (simp add: VECTOR_LIMIT_def boot_disk_bytes(6) del: read_bytes_simps) blast
qed

end
