(* ===== verification/Acpi.thy ===== *)
theory Acpi
  imports Byte_Strings
begin

text \<open>
  The ACPI tables (\<^verbatim>\<open>acpi/\<close>, \<^verbatim>\<open>include/mykonos/acpi/\<close>). A table is read from a byte memory at its physical
  address; the mappings that \<^verbatim>\<open>mapAddress\<close> and \<^verbatim>\<open>unmapMemory\<close> create and remove for it are kept in a ledger of
  address and size, since what is read through a mapping is the physical memory itself. A loop that would stay at an
  entry of length 0 for ever is the fault \<open>Diverges\<close>. A root table may contain itself, so that loading has fuel,
  the nesting depth. Messages to the console are left out.
\<close>

section \<open>Little-endian fields\<close>

definition le_value :: "u8 list \<Rightarrow> nat" where
  "le_value bs = foldr (\<lambda>b q. unat b + 256 * q) bs 0"

definition read16 :: "byte_mem \<Rightarrow> u64 \<Rightarrow> u16" where
  "read16 m a = of_nat (le_value (read_bytes m a 2))"

definition read32 :: "byte_mem \<Rightarrow> u64 \<Rightarrow> u32" where
  "read32 m a = of_nat (le_value (read_bytes m a 4))"

definition read64 :: "byte_mem \<Rightarrow> u64 \<Rightarrow> u64" where
  "read64 m a = of_nat (le_value (read_bytes m a 8))"

section \<open>Mappings\<close>

type_synonym ledger = "(u64 \<times> u64) list"

definition map_physical :: "u64 \<Rightarrow> u64 \<Rightarrow> ledger \<Rightarrow> ledger" where
  "map_physical a n l = (a, n) # l"

definition unmap_physical :: "u64 \<Rightarrow> u64 \<Rightarrow> ledger \<Rightarrow> ledger" where
  "unmap_physical a n l = remove1 (a, n) l"

section \<open>Headers and checksums\<close>

record TableHeader =
  th_signature :: "u8 list"
  th_length :: u32
  th_revision :: u8
  th_checksum :: u8
  th_oemId :: "u8 list"
  th_oemTableId :: "u8 list"
  th_oemRevision :: u32
  th_creatorId :: "u8 list"
  th_creatorRevision :: u32

definition read_header :: "byte_mem \<Rightarrow> u64 \<Rightarrow> TableHeader" where
  "read_header m h =
     \<lparr>th_signature = read_bytes m h 4, th_length = read32 m (h + 4), th_revision = m (h + 8), th_checksum = m (h + 9),
      th_oemId = read_bytes m (h + 10) 6, th_oemTableId = read_bytes m (h + 16) 8, th_oemRevision = read32 m (h + 24),
      th_creatorId = read_bytes m (h + 28) 4, th_creatorRevision = read32 m (h + 32)\<rparr>"

abbreviation header_length :: "byte_mem \<Rightarrow> u64 \<Rightarrow> u32" where
  "header_length m h \<equiv> th_length (read_header m h)"

definition sizeof_TableHeader :: nat where
  "sizeof_TableHeader = 36"

fun checksum_loop :: "nat \<Rightarrow> u64 \<Rightarrow> byte_mem \<Rightarrow> u8 \<Rightarrow> u8" where
  "checksum_loop 0 p m acc = acc"
| "checksum_loop (Suc n) p m acc = checksum_loop n (p + 1) m (acc + m p)"

definition doChecksum :: "byte_mem \<Rightarrow> u64 \<Rightarrow> bool" where
  "doChecksum m header \<longleftrightarrow> checksum_loop (unat (header_length m header)) header m 0 = 0"

record RsdpV2 =
  rp_signature :: "u8 list"
  rp_checksum :: u8
  rp_oemId :: "u8 list"
  rp_revision :: u8
  rp_rsdtAddress :: u32
  rp_length :: u32
  rp_xsdtAddress :: u64
  rp_extendedChecksum :: u8

definition read_rsdp :: "byte_mem \<Rightarrow> u64 \<Rightarrow> RsdpV2" where
  "read_rsdp m p =
     \<lparr>rp_signature = read_bytes m p 8, rp_checksum = m (p + 8), rp_oemId = read_bytes m (p + 9) 6, rp_revision = m (p + 15),
      rp_rsdtAddress = read32 m (p + 16), rp_length = read32 m (p + 20), rp_xsdtAddress = read64 m (p + 24),
      rp_extendedChecksum = m (p + 32)\<rparr>"

definition rsdp_doChecksum :: "byte_mem \<Rightarrow> u64 \<Rightarrow> bool" where
  "rsdp_doChecksum m p \<longleftrightarrow> checksum_loop (if rp_revision (read_rsdp m p) \<ge> 2 then 36 else 20) p m 0 = 0"

text \<open>The layouts of packed structures, as records read from memory.\<close>

record Address =
  ad_adressSpace :: u8
  ad_bitWidth :: u8
  ad_bitOffset :: u8
  ad_address :: u64

definition read_Address :: "byte_mem \<Rightarrow> u64 \<Rightarrow> Address" where
  "read_Address m p = \<lparr>ad_adressSpace = m p, ad_bitWidth = m (p + 1), ad_bitOffset = m (p + 2), ad_address = read64 m (p + 4)\<rparr>"

section \<open>The interrupt controllers (MADT)\<close>

record MadtTable =
  mt_localInterruptController :: u32
  mt_flags :: u32

definition read_MadtTable :: "byte_mem \<Rightarrow> u64 \<Rightarrow> MadtTable" where
  "read_MadtTable m p = \<lparr>mt_localInterruptController = read32 m (p + 36), mt_flags = read32 m (p + 40)\<rparr>"

record MadtEntry =
  me_type :: u8
  me_length :: u8

definition read_MadtEntry :: "byte_mem \<Rightarrow> u64 \<Rightarrow> MadtEntry" where
  "read_MadtEntry m p = \<lparr>me_type = m p, me_length = m (p + 1)\<rparr>"

record MadtLocalApicEntry = MadtEntry +
  mla_acpiId :: u8
  mla_apicId :: u8
  mla_flags :: u32

definition read_MadtLocalApicEntry :: "byte_mem \<Rightarrow> u64 \<Rightarrow> MadtLocalApicEntry" where
  "read_MadtLocalApicEntry m p =
     \<lparr>me_type = m p, me_length = m (p + 1), mla_acpiId = m (p + 2), mla_apicId = m (p + 3), mla_flags = read32 m (p + 4)\<rparr>"

record MadtIoApicEntry = MadtEntry +
  mio_ioApicId :: u8
  mio_physicalAddress :: u32
  mio_gsiBase :: u32

definition read_MadtIoApicEntry :: "byte_mem \<Rightarrow> u64 \<Rightarrow> MadtIoApicEntry" where
  "read_MadtIoApicEntry m p =
     \<lparr>me_type = m p, me_length = m (p + 1), mio_ioApicId = m (p + 2), mio_physicalAddress = read32 m (p + 4),
      mio_gsiBase = read32 m (p + 8)\<rparr>"

record MadtGsiOverrideEntry = MadtEntry +
  mgo_bus :: u8
  mgo_source :: u8
  mgo_destination :: u32
  mgo_flags :: u16

definition read_MadtGsiOverrideEntry :: "byte_mem \<Rightarrow> u64 \<Rightarrow> MadtGsiOverrideEntry" where
  "read_MadtGsiOverrideEntry m p =
     \<lparr>me_type = m p, me_length = m (p + 1), mgo_bus = m (p + 2), mgo_source = m (p + 3), mgo_destination = read32 m (p + 4),
      mgo_flags = read16 m (p + 8)\<rparr>"

lemmas madt_layouts = read_MadtTable_def read_MadtEntry_def read_MadtLocalApicEntry_def read_MadtIoApicEntry_def
  read_MadtGsiOverrideEntry_def

definition MAX_LOCAL_APICS :: nat where "MAX_LOCAL_APICS = 64"

definition MAX_IO_APICS :: nat where "MAX_IO_APICS = 8"

definition MAX_GSI_OVERRIDES :: nat where "MAX_GSI_OVERRIDES = 16"

definition sizeof_MadtTable :: nat where "sizeof_MadtTable = 44"

definition MADT_FLAGS_PIC :: u32 where "MADT_FLAGS_PIC = 1"

definition MADT_FLAGS_ENABLED :: u32 where "MADT_FLAGS_ENABLED = 1"

definition MADT_TYPE_LOCAL_APIC :: u8 where "MADT_TYPE_LOCAL_APIC = 0"

definition MADT_TYPE_IO_APIC :: u8 where "MADT_TYPE_IO_APIC = 1"

definition MADT_TYPE_GSI_OVERRIDE :: u8 where "MADT_TYPE_GSI_OVERRIDE = 2"

record LocalApicDescriptor =
  la_apicId :: u8

record IoApicDescriptor =
  io_physicalAddress :: u64
  io_gsiBase :: u32

record MadtGsiOverride =
  gsi_levelTriggered :: bool
  gsi_activeHigh :: bool
  gsi_source :: u8
  gsi_destination :: u32

text \<open>The counters of the three arrays are the lengths of the lists.\<close>

record madt =
  md_hasPic :: bool
  md_localApicAddress :: u64
  md_localApics :: "LocalApicDescriptor list"
  md_ioApics :: "IoApicDescriptor list"
  md_gsiOverrides :: "MadtGsiOverride list"

definition madt_local_apic :: "byte_mem \<Rightarrow> u64 \<Rightarrow> madt \<Rightarrow> madt" where
  "madt_local_apic m entry s =
     (let localApicEntry = read_MadtLocalApicEntry m entry
      in if mla_flags localApicEntry AND MADT_FLAGS_ENABLED \<noteq> 0 \<and> length (md_localApics s) < MAX_LOCAL_APICS
         then s\<lparr>md_localApics := md_localApics s @ [\<lparr>la_apicId = mla_apicId localApicEntry\<rparr>]\<rparr> else s)"

definition madt_io_apic :: "byte_mem \<Rightarrow> u64 \<Rightarrow> madt \<Rightarrow> madt" where
  "madt_io_apic m entry s =
     (let ioApicEntry = read_MadtIoApicEntry m entry
      in if length (md_ioApics s) < MAX_IO_APICS
         then s\<lparr>md_ioApics := md_ioApics s @
                [\<lparr>io_physicalAddress = ucast (mio_physicalAddress ioApicEntry), io_gsiBase = mio_gsiBase ioApicEntry\<rparr>]\<rparr> else s)"

definition madt_gsi_override :: "byte_mem \<Rightarrow> u64 \<Rightarrow> madt \<Rightarrow> madt" where
  "madt_gsi_override m entry s =
     (let gsiOverrideEntry = read_MadtGsiOverrideEntry m entry
      in if length (md_gsiOverrides s) < MAX_GSI_OVERRIDES
         then s\<lparr>md_gsiOverrides := md_gsiOverrides s @
                [\<lparr>gsi_levelTriggered = (mgo_flags gsiOverrideEntry AND 8 \<noteq> 0), gsi_activeHigh = (mgo_flags gsiOverrideEntry AND 2 = 0),
                  gsi_source = mgo_source gsiOverrideEntry, gsi_destination = mgo_destination gsiOverrideEntry\<rparr>]\<rparr> else s)"

definition madt_entry :: "byte_mem \<Rightarrow> u64 \<Rightarrow> madt \<Rightarrow> madt" where
  "madt_entry m entry s =
     (let type = me_type (read_MadtEntry m entry)
      in if type = MADT_TYPE_LOCAL_APIC then madt_local_apic m entry s
         else if type = MADT_TYPE_IO_APIC then madt_io_apic m entry s
         else if type = MADT_TYPE_GSI_OVERRIDE then madt_gsi_override m entry s
         else s)"

text \<open>The loop, with the distance of the entry from the start of the table.\<close>

function madt_loop :: "byte_mem \<Rightarrow> u64 \<Rightarrow> nat \<Rightarrow> madt \<Rightarrow> madt result" where
  "madt_loop m t off s =
     (if off < unat (header_length m t) then
        (let entry = t + of_nat off; n = unat (me_length (read_MadtEntry m entry))
         in if n = 0 then Inl Diverges else madt_loop m t (off + n) (madt_entry m entry s))
      else Inr s)"
  by pat_completeness auto
termination
  by (relation "measure (\<lambda>(m, t, off, s). unat (header_length m t) - off)") auto

declare madt_loop.simps [simp del]

definition MadtTableManager :: "byte_mem \<Rightarrow> u64 \<Rightarrow> ledger \<Rightarrow> (madt \<times> ledger) result" where
  "MadtTableManager m header l =
     rbind (madt_loop m header sizeof_MadtTable
              \<lparr>md_hasPic = (mt_flags (read_MadtTable m header) AND MADT_FLAGS_PIC \<noteq> 0),
               md_localApicAddress = ucast (mt_localInterruptController (read_MadtTable m header)), md_localApics = [], md_ioApics = [], md_gsiOverrides = []\<rparr>) (\<lambda>s.
       Inr (s, unmap_physical header (ucast (header_length m header)) l))"

definition getLocalApic :: "nat \<Rightarrow> madt \<Rightarrow> LocalApicDescriptor" where
  "getLocalApic i s = (if i < length (md_localApics s) then md_localApics s ! i else \<lparr>la_apicId = 0\<rparr>)"

definition getIoApic :: "nat \<Rightarrow> madt \<Rightarrow> IoApicDescriptor" where
  "getIoApic i s = (if i < length (md_ioApics s) then md_ioApics s ! i else \<lparr>io_physicalAddress = nullptr, io_gsiBase = 0\<rparr>)"

definition getGsiOverride :: "nat \<Rightarrow> madt \<Rightarrow> MadtGsiOverride" where
  "getGsiOverride i s = (if i < length (md_gsiOverrides s) then md_gsiOverrides s ! i
     else \<lparr>gsi_levelTriggered = False, gsi_activeHigh = False, gsi_source = 0, gsi_destination = 0\<rparr>)"

section \<open>The timer (HPET)\<close>

text \<open>Members that the constructor leaves uninitialised are \<open>None\<close>.\<close>

record hpet_table =
  ht_physicalAddress :: "u64 option"
  ht_numComparators :: u8
  ht_legacyReplacementCapable :: "bool option"

record HpetTable_layout =
  hl_hardwareRevId :: u8
  hl_numComparators :: u8
  hl_counterSize :: bool
  hl_legacyReplacementCapable :: bool
  hl_vendorId :: u16
  hl_adress :: Address
  hl_hpetNumber :: u8
  hl_minimumTicks :: u16
  hl_pageProtection :: u8

definition read_HpetTable :: "byte_mem \<Rightarrow> u64 \<Rightarrow> HpetTable_layout" where
  "read_HpetTable m p =
     \<lparr>hl_hardwareRevId = m (p + 36), hl_numComparators = m (p + 37) AND 31, hl_counterSize = bit (m (p + 37)) 5,
      hl_legacyReplacementCapable = bit (m (p + 37)) 7, hl_vendorId = read16 m (p + 38), hl_adress = read_Address m (p + 40),
      hl_hpetNumber = m (p + 52), hl_minimumTicks = read16 m (p + 53), hl_pageProtection = m (p + 55)\<rparr>"

definition HpetTableManager :: "byte_mem \<Rightarrow> u64 \<Rightarrow> ledger \<Rightarrow> hpet_table \<times> ledger" where
  "HpetTableManager m header l =
     (let hpet = read_HpetTable m header
      in (if ad_adressSpace (hl_adress hpet) \<noteq> 0
          then \<lparr>ht_physicalAddress = None, ht_numComparators = 0, ht_legacyReplacementCapable = None\<rparr>
          else \<lparr>ht_physicalAddress = Some (ad_address (hl_adress hpet)), ht_numComparators = hl_numComparators hpet + 1,
                ht_legacyReplacementCapable = Some (hl_legacyReplacementCapable hpet)\<rparr>,
          unmap_physical header (ucast (header_length m header)) l))"

section \<open>The PCI Express configuration spaces (MCFG)\<close>

record McfgEntry =
  mc_address :: u64
  mc_segmentGroup :: nat
  mc_firstBusNumber :: nat
  mc_lastBusNumber :: nat

definition MAX_MCFG_ENTRIES :: nat where "MAX_MCFG_ENTRIES = 16"

text \<open>The entry at index \<open>i\<close> of the table, with the mapping made for it.\<close>

definition mcfg_entry :: "byte_mem \<Rightarrow> u64 \<Rightarrow> nat \<Rightarrow> McfgEntry" where
  "mcfg_entry m header i =
     (let e = header + 44 + of_nat (16 * i)
      in \<lparr>mc_address = read64 m e, mc_segmentGroup = unat (read16 m (e + 8)),
          mc_firstBusNumber = unat (m (e + 10)), mc_lastBusNumber = unat (m (e + 11))\<rparr>)"

definition mcfg_size :: "McfgEntry \<Rightarrow> u64" where
  "mcfg_size e = of_int ((int (mc_lastBusNumber e) - int (mc_firstBusNumber e) + 1) * 1048576)"

fun mcfg_loop :: "byte_mem \<Rightarrow> u64 \<Rightarrow> nat list \<Rightarrow> McfgEntry list \<times> ledger \<Rightarrow> (McfgEntry list \<times> ledger) result" where
  "mcfg_loop m header [] s = Inr s"
| "mcfg_loop m header (i # is) (es, l) =
     (if i < MAX_MCFG_ENTRIES then
        (let e = mcfg_entry m header i in mcfg_loop m header is (es @ [e], map_physical (mc_address e) (mcfg_size e) l))
      else Inl OutOfBounds)"

definition mcfg_count :: "byte_mem \<Rightarrow> u64 \<Rightarrow> nat" where
  "mcfg_count m header = unat ((header_length m header - 44) div 16)"

definition McfgTableManager :: "byte_mem \<Rightarrow> u64 \<Rightarrow> ledger \<Rightarrow> (McfgEntry list \<times> ledger) result" where
  "McfgTableManager m header l =
     rbind (mcfg_loop m header [0..<mcfg_count m header] ([], l)) (\<lambda>(es, l1).
       Inr (es, unmap_physical header (ucast (header_length m header)) l1))"

section \<open>Loading tables\<close>

datatype TableType = RSDT | MADT | HPET | MCFG

datatype TableManager =
    RsdtTable "TableManager option list"
  | MadtTable madt
  | HpetTable hpet_table
  | McfgTable "McfgEntry list"

fun tm_type :: "TableManager \<Rightarrow> TableType" where
  "tm_type (RsdtTable _) = RSDT"
| "tm_type (MadtTable _) = MADT"
| "tm_type (HpetTable _) = HPET"
| "tm_type (McfgTable _) = MCFG"

definition signatures :: "(u8 list \<times> TableType) list" where
  "signatures = [([0x52, 0x53, 0x44, 0x54], RSDT), ([0x58, 0x53, 0x44, 0x54], RSDT), ([0x41, 0x50, 0x49, 0x43], MADT),
                 ([0x48, 0x50, 0x45, 0x54], HPET), ([0x4D, 0x43, 0x46, 0x47], MCFG)]"

definition rsdt_entry_size :: "byte_mem \<Rightarrow> u64 \<Rightarrow> nat" where
  "rsdt_entry_size m header = (if m header = 0x58 then 8 else 4)"

definition rsdt_entries :: "byte_mem \<Rightarrow> u64 \<Rightarrow> u64 list" where
  "rsdt_entries m header =
     map (\<lambda>i. let entry = header + of_nat (sizeof_TableHeader + i * rsdt_entry_size m header)
               in if rsdt_entry_size m header = 4 then ucast (read32 m entry) else read64 m entry)
       [0..<(unat (header_length m header) - sizeof_TableHeader) div rsdt_entry_size m header]"

text \<open>The loop over the children, with the loading of a table as an argument.\<close>

fun rsdt_loop :: "(u64 \<Rightarrow> ledger \<Rightarrow> (TableManager option \<times> ledger) result) \<Rightarrow> u64 list \<Rightarrow> TableManager option list \<times> ledger \<Rightarrow>
    (TableManager option list \<times> ledger) result" where
  "rsdt_loop load [] s = Inr s"
| "rsdt_loop load (a # as) (cs, l) = rbind (load a l) (\<lambda>(c, l1). rsdt_loop load as (cs @ [c], l1))"

fun loadTable :: "nat \<Rightarrow> byte_mem \<Rightarrow> u64 \<Rightarrow> ledger \<Rightarrow> (TableManager option \<times> ledger) result" where
  "loadTable 0 m physicalAddress l = Inl Diverges"
| "loadTable (Suc fuel) m header l =
     (let l1 = map_physical header (of_nat sizeof_TableHeader) l;
          tableSize = unat (header_length m header)
      in if tableSize < sizeof_TableHeader then Inr (None, l1)
         else (let l2 = unmap_physical header (of_nat sizeof_TableHeader) l1;
                   l3 = map_physical header (of_nat tableSize) l2
               in if \<not> doChecksum m header then Inr (None, unmap_physical header (of_nat tableSize) l3)
                  else (case map_of signatures (th_signature (read_header m header)) of
                          None \<Rightarrow> Inr (None, unmap_physical header (of_nat tableSize) l3)
                        | Some RSDT \<Rightarrow> rbind (rsdt_loop (loadTable fuel m) (rsdt_entries m header) ([], l3)) (\<lambda>(cs, l4).
                                        Inr (Some (RsdtTable cs), unmap_physical header (of_nat tableSize) l4))
                        | Some MADT \<Rightarrow> rbind (MadtTableManager m header l3) (\<lambda>(t, l4). Inr (Some (MadtTable t), l4))
                        | Some HPET \<Rightarrow> (let (t, l4) = HpetTableManager m header l3 in Inr (Some (HpetTable t), l4))
                        | Some MCFG \<Rightarrow> rbind (McfgTableManager m header l3) (\<lambda>(t, l4). Inr (Some (McfgTable t), l4)))))"

text \<open>\<^verbatim>\<open>RsdtTableManager::get\<close>: the counter is tested before it is decremented.\<close>

fun rsdt_get :: "TableManager option list \<Rightarrow> TableType \<Rightarrow> int \<Rightarrow> TableManager option" where
  "rsdt_get [] type num = None"
| "rsdt_get (c # cs) type num =
     (case c of None \<Rightarrow> rsdt_get cs type num
      | Some t \<Rightarrow> if tm_type t = type then if num = 0 then Some t else rsdt_get cs type (num - 1) else rsdt_get cs type num)"

definition rsdt_at :: "TableManager option list \<Rightarrow> nat \<Rightarrow> TableManager option" where
  "rsdt_at cs i = (if i < length cs then cs ! i else None)"

section \<open>Checksums\<close>

lemma checksum_loop_eq: "unat (checksum_loop n p m acc) = (unat acc + sum_list (map unat (read_bytes m p n))) mod 256"
proof (induction n arbitrary: p acc)
  case 0
  show ?case using unsigned_less [of acc, where 'a = nat] by simp
next
  case (Suc n)
  show ?case by (simp add: Suc unat_word_ariths mod_simps add.assoc)
qed

lemma checksum_zero_iff: "checksum_loop n p m 0 = 0 \<longleftrightarrow> sum_list (map unat (read_bytes m p n)) mod 256 = 0"
  using checksum_loop_eq [of n p m 0] by (metis add_0 unsigned_0 unsigned_eq_0_iff)

lemma doChecksum_iff: "doChecksum m h \<longleftrightarrow> sum_list (map unat (read_bytes m h (unat (header_length m h)))) mod 256 = 0"
  by (simp add: doChecksum_def checksum_zero_iff)

section \<open>Little-endian encoding\<close>

fun le_bytes :: "nat \<Rightarrow> nat \<Rightarrow> u8 list" where
  "le_bytes 0 v = []"
| "le_bytes (Suc n) v = of_nat v # le_bytes n (v div 256)"

lemma le_bytes_numeral:
  "le_bytes 2 v = [of_nat v, of_nat (v div 256)]"
  "le_bytes 4 v = [of_nat v, of_nat (v div 256), of_nat (v div 256 div 256), of_nat (v div 256 div 256 div 256)]"
proof -
  have "le_bytes (Suc (Suc 0)) v = [of_nat v, of_nat (v div 256)]"
    "le_bytes (Suc (Suc (Suc (Suc 0)))) v =
       [of_nat v, of_nat (v div 256), of_nat (v div 256 div 256), of_nat (v div 256 div 256 div 256)]"
    by (simp_all only: le_bytes.simps)
  then show "le_bytes 2 v = [of_nat v, of_nat (v div 256)]"
    "le_bytes 4 v = [of_nat v, of_nat (v div 256), of_nat (v div 256 div 256), of_nat (v div 256 div 256 div 256)]"
    by (metis numeral_2_eq_2, metis Suc_numeral numeral_2_eq_2 numeral_3_eq_3 semiring_norm(2,5,8))
qed

lemma length_le_bytes [simp]: "length (le_bytes n v) = n"
  by (induction n arbitrary: v) simp_all

lemma le_value_Cons [simp]: "le_value [] = 0" "le_value (b # bs) = unat b + 256 * le_value bs"
  by (simp_all add: le_value_def)

lemma le_value_le_bytes: "le_value (le_bytes n v) = v mod 256 ^ n"
proof (induction n arbitrary: v)
  case (Suc n)
  have "v mod (256 * 256 ^ n) = v mod 256 + 256 * (v div 256 mod 256 ^ n)"
    by (simp add: mod_mult2_eq)
  then show ?case by (simp add: Suc unsigned_of_nat take_bit_eq_mod)
qed simp

lemma read_bytes_append: "read_bytes m p (i + j) = read_bytes m p i @ read_bytes m (p + of_nat i) j"
proof -
  have "take i (read_bytes m p (i + j)) = read_bytes m p i" "drop i (read_bytes m p (i + j)) = read_bytes m (p + of_nat i) j"
    using read_bytes_drop_take [of i 0 m p "i + j"] read_bytes_drop_take [of j i m p "i + j"] by (simp_all add: min_def)
  then show ?thesis by (metis append_take_drop_id)
qed

lemma read_bytes_field:
  assumes "read_bytes m p n = xs @ ys @ zs" "length xs = i" "length ys = k"
  shows "read_bytes m (p + of_nat i) k = ys"
proof -
  from assms have "n = length (xs @ ys @ zs)" by (metis read_bytes_simps(3))
  with assms read_bytes_drop_take [of k i m p n] show ?thesis by (simp add: min_def)
qed

lemma read32_field:
  "read_bytes m p n = xs @ le_bytes 4 (unat v) @ zs \<Longrightarrow> length xs = i \<Longrightarrow> read32 m (p + of_nat i) = v"
  using read_bytes_field [of m p n xs "le_bytes 4 (unat v)" zs i 4] unsigned_less [of v, where 'a = nat]
  by (simp add: read32_def le_value_le_bytes)

lemma read16_field:
  "read_bytes m p n = xs @ le_bytes 2 (unat v) @ zs \<Longrightarrow> length xs = i \<Longrightarrow> read16 m (p + of_nat i) = v"
  using read_bytes_field [of m p n xs "le_bytes 2 (unat v)" zs i 2] unsigned_less [of v, where 'a = nat]
  by (simp add: read16_def le_value_le_bytes)

lemma read_byte_field: "read_bytes m p n = xs @ b # zs \<Longrightarrow> length xs = i \<Longrightarrow> m (p + of_nat i) = b"
  using read_bytes_field [of m p n xs "[b]" zs i 1] by simp

section \<open>The interrupt controllers of a well-formed table\<close>

text \<open>The entries of a table as values, and their bytes in the table.\<close>

datatype madt_item =
    LocalApicItem u8 u8 u32
  | IoApicItem u8 u8 u32 u32
  | GsiOverrideItem u8 u8 u32 u16
  | OtherItem u8 "u8 list"

fun encode_item :: "madt_item \<Rightarrow> u8 list" where
  "encode_item (LocalApicItem acpiId apicId flags) = [0, 8, acpiId, apicId] @ le_bytes 4 (unat flags)"
| "encode_item (IoApicItem ioApicId reserved address gsiBase) =
     [1, 12, ioApicId, reserved] @ le_bytes 4 (unat address) @ le_bytes 4 (unat gsiBase)"
| "encode_item (GsiOverrideItem bus source destination flags) =
     [2, 10, bus, source] @ le_bytes 4 (unat destination) @ le_bytes 2 (unat flags)"
| "encode_item (OtherItem type payload) = [type, of_nat (length payload + 2)] @ payload"

fun item_ok :: "madt_item \<Rightarrow> bool" where
  "item_ok (OtherItem type payload) \<longleftrightarrow> type > 2 \<and> length payload \<le> 253"
| "item_ok _ \<longleftrightarrow> True"

fun item_local :: "madt_item \<Rightarrow> LocalApicDescriptor list" where
  "item_local (LocalApicItem acpiId apicId flags) = (if bit flags 0 then [\<lparr>la_apicId = apicId\<rparr>] else [])"
| "item_local _ = []"

fun item_io :: "madt_item \<Rightarrow> IoApicDescriptor list" where
  "item_io (IoApicItem ioApicId reserved address gsiBase) = [\<lparr>io_physicalAddress = ucast address, io_gsiBase = gsiBase\<rparr>]"
| "item_io _ = []"

fun item_gsi :: "madt_item \<Rightarrow> MadtGsiOverride list" where
  "item_gsi (GsiOverrideItem bus source destination flags) =
     [\<lparr>gsi_levelTriggered = bit flags 3, gsi_activeHigh = (\<not> bit flags 1), gsi_source = source, gsi_destination = destination\<rparr>]"
| "item_gsi _ = []"

definition absorb :: "madt_item \<Rightarrow> madt \<Rightarrow> madt" where
  "absorb i s = s\<lparr>md_localApics := take MAX_LOCAL_APICS (md_localApics s @ item_local i),
                  md_ioApics := take MAX_IO_APICS (md_ioApics s @ item_io i),
                  md_gsiOverrides := take MAX_GSI_OVERRIDES (md_gsiOverrides s @ item_gsi i)\<rparr>"

definition madt_bounded :: "madt \<Rightarrow> bool" where
  "madt_bounded s \<longleftrightarrow> length (md_localApics s) \<le> MAX_LOCAL_APICS \<and> length (md_ioApics s) \<le> MAX_IO_APICS \<and>
     length (md_gsiOverrides s) \<le> MAX_GSI_OVERRIDES"

lemma take_take_append: "take n (take n xs @ ys) = take n (xs @ ys)"
  by (simp add: min_def)

lemma madt_bounded_absorb [simp]: "madt_bounded (absorb i s)"
  by (simp add: madt_bounded_def absorb_def del: take_append)

lemma and_push_bit_zero: "x AND push_bit n 1 = 0 \<longleftrightarrow> \<not> bit x n" for x :: "'b::len word"
proof -
  have "(x AND push_bit n 1 = 0) = (\<forall>k. k < LENGTH('b) \<longrightarrow> \<not> (bit x k \<and> k = n))"
    by (auto simp: bit_eq_iff [where 'a = "'b word"] bit_simps)
  then show ?thesis using bit_imp_le_length by blast
qed

lemma and_bit_tests:
  "flags AND (1 :: u32) = 0 \<longleftrightarrow> \<not> bit flags 0"
  "flags' AND (2 :: u16) = 0 \<longleftrightarrow> \<not> bit flags' 1"
  "flags' AND (8 :: u16) = 0 \<longleftrightarrow> \<not> bit flags' 3"
  using and_push_bit_zero [of flags 0] and_push_bit_zero [of flags' 1] and_push_bit_zero [of flags' 3] by simp_all

lemma entry_length:
  assumes "read_bytes m e (length (encode_item i)) = encode_item i" "item_ok i"
  shows "unat (m (e + 1)) = length (encode_item i)"
proof -
  have "encode_item i ! 1 = of_nat (length (encode_item i))" "1 < length (encode_item i)" "length (encode_item i) < 256"
    using assms(2) by (cases i; simp)+
  with nth_read_bytes [of 1 "length (encode_item i)" m e] show ?thesis
    unfolding assms(1) by (simp add: unat_of_nat_small)
qed

lemma madt_entry_absorb:
  assumes "read_bytes m e (length (encode_item i)) = encode_item i" "item_ok i" "madt_bounded s"
  shows "madt_entry m e s = absorb i s"
proof (cases i)
  case (LocalApicItem acpiId apicId flags)
  with assms(1) have r: "read_bytes m e 8 = [0, 8, acpiId, apicId] @ le_bytes 4 (unat flags) @ []" by simp
  from r read_byte_field [of m e 8 "[]" 0 _ 0] read_byte_field [of m e 8 "[0, 8, acpiId]" apicId _ 3]
    read32_field [OF r, of 4]
  show ?thesis using assms(3)
    by (auto simp: LocalApicItem madt_layouts Let_def madt_entry_def madt_local_apic_def absorb_def madt_bounded_def and_bit_tests
      MADT_TYPE_LOCAL_APIC_def MADT_FLAGS_ENABLED_def)
next
  case (IoApicItem ioApicId reserved address gsiBase)
  with assms(1) have r: "read_bytes m e 12 = [1, 12, ioApicId, reserved] @ le_bytes 4 (unat address) @ le_bytes 4 (unat gsiBase) @ []"
    by simp
  from r read_byte_field [of m e 12 "[]" 1 _ 0] read32_field [OF r, of 4]
    read32_field [of m e 12 "[1, 12, ioApicId, reserved] @ le_bytes 4 (unat address)" gsiBase "[]" 8]
  show ?thesis using assms(3)
    by (auto simp: IoApicItem madt_layouts Let_def madt_entry_def madt_io_apic_def absorb_def madt_bounded_def
      MADT_TYPE_LOCAL_APIC_def MADT_TYPE_IO_APIC_def)
next
  case (GsiOverrideItem bus source destination flags)
  with assms(1) have r: "read_bytes m e 10 = [2, 10, bus, source] @ le_bytes 4 (unat destination) @ le_bytes 2 (unat flags) @ []"
    by simp
  from r read_byte_field [of m e 10 "[]" 2 _ 0] read_byte_field [of m e 10 "[2, 10, bus]" source _ 3] read32_field [OF r, of 4]
    read16_field [of m e 10 "[2, 10, bus, source] @ le_bytes 4 (unat destination)" flags "[]" 8]
  show ?thesis using assms(3)
    by (auto simp: GsiOverrideItem madt_layouts Let_def madt_entry_def madt_gsi_override_def absorb_def madt_bounded_def and_bit_tests
      MADT_TYPE_LOCAL_APIC_def MADT_TYPE_IO_APIC_def MADT_TYPE_GSI_OVERRIDE_def)
next
  case (OtherItem type payload)
  with assms(1) have "m e = type" by (simp add: eval_nat_numeral)
  with assms show ?thesis
    by (auto simp: OtherItem madt_layouts madt_entry_def absorb_def madt_bounded_def MADT_TYPE_LOCAL_APIC_def MADT_TYPE_IO_APIC_def
      MADT_TYPE_GSI_OVERRIDE_def)
qed

lemma madt_loop_items:
  assumes "read_bytes m (t + of_nat off) (length (concat (map encode_item is))) = concat (map encode_item is)"
    "\<forall>i\<in>set is. item_ok i" "madt_bounded s" "off + length (concat (map encode_item is)) = unat (header_length m t)"
  shows "madt_loop m t off s = Inr (fold absorb is s)"
  using assms
proof (induction "is" arbitrary: off s)
  case Nil
  then show ?case by (subst madt_loop.simps) simp
next
  case (Cons i "is")
  let ?e = "t + of_nat off" and ?n = "length (encode_item i)"
  have r: "read_bytes m ?e ?n = encode_item i"
    "read_bytes m (t + of_nat (off + ?n)) (length (concat (map encode_item is))) = concat (map encode_item is)"
    using Cons.prems(1) by (simp_all add: read_bytes_append add.assoc)
  have n: "unat (m (?e + 1)) = ?n" "0 < ?n" using entry_length [OF r(1)] Cons.prems(2) by (auto, cases i, auto)
  have "madt_entry m ?e s = absorb i s" using madt_entry_absorb [OF r(1)] Cons.prems by simp
  moreover have "off < unat (header_length m t)" using Cons.prems(4) n(2) by (simp del: length_greater_0_conv)
  ultimately have "madt_loop m t off s = madt_loop m t (off + ?n) (absorb i s)"
    using n by (subst madt_loop.simps) (simp add: Let_def madt_layouts)
  also have "\<dots> = Inr (fold absorb is (absorb i s))" using Cons.IH [OF r(2)] Cons.prems by simp
  finally show ?case by simp
qed

lemma fold_absorb:
  "madt_bounded s \<Longrightarrow> fold absorb is s =
     s\<lparr>md_localApics := take MAX_LOCAL_APICS (md_localApics s @ concat (map item_local is)),
       md_ioApics := take MAX_IO_APICS (md_ioApics s @ concat (map item_io is)),
       md_gsiOverrides := take MAX_GSI_OVERRIDES (md_gsiOverrides s @ concat (map item_gsi is))\<rparr>"
proof (induction "is" arbitrary: s)
  case (Cons i "is")
  have "fold absorb (i # is) s = fold absorb is (absorb i s)" by simp
  also note Cons.IH [OF madt_bounded_absorb]
  finally show ?case by (simp add: take_take_append absorb_def [of i s] del: take_append fold_simps)
qed (simp add: madt_bounded_def)

section \<open>The configuration spaces of a table\<close>

lemma mcfg_loop_eq:
  "mcfg_loop m h [k..<n] (es, l) =
     (if k < n \<and> MAX_MCFG_ENTRIES < n \<and> k \<le> MAX_MCFG_ENTRIES then Inl OutOfBounds
      else if k < n \<and> MAX_MCFG_ENTRIES < k then Inl OutOfBounds
      else Inr (es @ map (mcfg_entry m h) [k..<n],
                rev (map (\<lambda>i. (mc_address (mcfg_entry m h i), mcfg_size (mcfg_entry m h i))) [k..<n]) @ l))"
proof (induction "n - k" arbitrary: k es l)
  case (Suc d)
  then have "[k..<n] = k # [Suc k..<n]" "d = n - Suc k" by (simp_all add: upt_conv_Cons)
  with Suc.hyps(1) [of "Suc k"] Suc.hyps(2) show ?case
    by (auto simp: Let_def map_physical_def)
qed simp

section \<open>Rejected tables\<close>

fun children_of :: "TableType \<Rightarrow> TableManager option list \<Rightarrow> TableManager list" where
  "children_of ty [] = []"
| "children_of ty (None # cs) = children_of ty cs"
| "children_of ty (Some t # cs) = (if tm_type t = ty then t # children_of ty cs else children_of ty cs)"

lemma rsdt_get_nth:
  "rsdt_get cs ty (int k) = (if k < length (children_of ty cs) then Some (children_of ty cs ! k) else None)"
proof (induction ty cs arbitrary: k rule: children_of.induct)
  case (3 ty t cs)
  from 3(1) [of "k - 1"] 3(2) [of k] show ?case by (cases k) auto
qed simp_all

lemma unmap_map_physical [simp]: "unmap_physical a n (map_physical a n l) = l"
  by (simp add: unmap_physical_def map_physical_def)

lemma ucast_eq_of_nat: "(ucast (x :: u32) :: u64) = of_nat (unat x)"
  by simp

lemma MadtTableManager_ledger: "MadtTableManager m h (map_physical h (of_nat (unat (header_length m h))) l) = Inr (t, l') \<Longrightarrow> l' = l"
  by (auto simp: MadtTableManager_def)

lemma loadTable_Some_cases:
  assumes "loadTable (Suc fuel) m h l = Inr (Some t, l')"
  shows "sizeof_TableHeader \<le> unat (header_length m h) \<and> doChecksum m h \<and>
    map_of signatures (th_signature (read_header m h)) = Some (tm_type t)"
  using assms
  by (auto simp: Let_def split: if_splits option.splits TableType.splits prod.splits)

section \<open>Properties\<close>

text \<open>
  Parsing of the interrupt controller table (C25): when the bytes between the fixed part of the table and its length are
  the encoding of a list of entries, local APICs, I/O APICs, overrides and others in any order, the constructor returns
  (it ends on every such table), its three arrays hold in table order the enabled local APICs, the I/O APICs and the
  overrides with their polarity and trigger mode, cut to the sizes of the arrays, so that it never writes past their
  ends, and the mapping of the table is gone.
\<close>

theorem madt_parsed:
  assumes "read_bytes m (header + 44) (length (concat (map encode_item is))) = concat (map encode_item is)"
    and "unat (header_length m header) = 44 + length (concat (map encode_item is))"
    and "\<forall>i\<in>set is. item_ok i"
  shows "MadtTableManager m header (map_physical header (ucast (header_length m header)) l) =
    Inr (\<lparr>md_hasPic = bit (read32 m (header + 40)) 0, md_localApicAddress = ucast (read32 m (header + 36)),
          md_localApics = take 64 (concat (map item_local is)), md_ioApics = take 8 (concat (map item_io is)),
          md_gsiOverrides = take 16 (concat (map item_gsi is))\<rparr>, l)"
proof -
  let ?s = "\<lparr>md_hasPic = bit (read32 m (header + 40)) 0, md_localApicAddress = ucast (read32 m (header + 36)),
     md_localApics = [], md_ioApics = [], md_gsiOverrides = []\<rparr>"
  have "madt_loop m header 44 ?s = Inr (fold absorb is ?s)"
    using assms by (intro madt_loop_items) (simp_all add: madt_bounded_def)
  moreover have "madt_bounded ?s" by (simp add: madt_bounded_def)
  ultimately show ?thesis
    by (simp add: MadtTableManager_def madt_layouts sizeof_MadtTable_def fold_absorb and_bit_tests MADT_FLAGS_PIC_def MAX_LOCAL_APICS_def
      MAX_IO_APICS_def MAX_GSI_OVERRIDES_def)
qed

definition sample_items :: "madt_item list" where
  "sample_items = [LocalApicItem 0 7 1, GsiOverrideItem 0 9 20 13, OtherItem 4 [1, 2], IoApicItem 2 0 64 0, LocalApicItem 1 8 0]"

definition sample_madt :: byte_mem where
  "sample_madt a = ([0, 0, 0, 0, 86, 0, 0, 0, 0, 0, 0, 0, 0, 0, 0, 0, 0, 0, 0, 0, 0, 0, 0, 0, 0, 0, 0, 0, 0, 0, 0, 0, 0, 0, 0, 0,
      80, 0, 0, 0, 1, 0, 0, 0, 0, 8, 0, 7, 1, 0, 0, 0, 2, 10, 0, 9, 20, 0, 0, 0, 13, 0, 4, 4, 1, 2, 1, 12, 2, 0,
      64, 0, 0, 0, 0, 0, 0, 0, 0, 8, 1, 8, 0, 0, 0, 0] ! unat a)"

theorem madt_parsed_witness:
  "MadtTableManager sample_madt 0 [(0, 86)] =
     Inr (\<lparr>md_hasPic = True, md_localApicAddress = 80, md_localApics = [\<lparr>la_apicId = 7\<rparr>],
           md_ioApics = [\<lparr>io_physicalAddress = 64, io_gsiBase = 0\<rparr>],
           md_gsiOverrides = [\<lparr>gsi_levelTriggered = True, gsi_activeHigh = True, gsi_source = 9, gsi_destination = 20\<rparr>]\<rparr>, [])"
proof -
  have "length (concat (map encode_item sample_items)) = 42" by (simp add: sample_items_def)
  then have "read_bytes sample_madt (0 + 44) (length (concat (map encode_item sample_items))) = concat (map encode_item sample_items)"
    "unat (header_length sample_madt 0) = 44 + length (concat (map encode_item sample_items))"
    "\<forall>i\<in>set sample_items. item_ok i"
    by (simp_all add: read_header_def read32_def read_bytes_def upt_rec sample_madt_def sample_items_def le_bytes_numeral)
  from madt_parsed [OF this, of "[]"] show ?thesis
    by (simp add: read_header_def read32_def read_bytes_def upt_rec sample_madt_def sample_items_def map_physical_def bit_simps
      and_push_bit_zero)
qed

lemma madt_zero_length_diverges:
  "off < unat (header_length m t) \<Longrightarrow> m (t + of_nat off + 1) = 0 \<Longrightarrow> madt_loop m t off s = Inl Diverges"
  by (subst madt_loop.simps) (simp add: Let_def madt_layouts)


definition sample_hpet :: byte_mem where
  "sample_hpet a = ([0x48, 0x50, 0x45, 0x54, 56, 0, 0, 0, 1, 212, 0, 0, 0, 0, 0, 0, 0, 0, 0, 0, 0, 0, 0, 0, 0, 0, 0, 0, 0, 0, 0, 0,
      0, 0, 0, 0, 0, 0x82, 0, 0, 0, 0, 0, 0, 64, 0, 0, 0, 0, 0, 0, 0, 0, 0, 0, 0] ! unat a)"


text \<open>
  Bounds of the configuration spaces: the constructor of the MCFG table succeeds exactly for a table with at most 16
  entries that is not shorter than its fixed part of 44 bytes; then the entries are those of the table in order, each mapped
  with one megabyte per bus. A shorter table wraps the number of entries round, and it and a longer table write past the end
  of the array.
\<close>

theorem mcfg_bounds:
  "McfgTableManager m h (map_physical h (ucast (header_length m h)) l) =
     (if 44 \<le> unat (header_length m h) \<and> unat (header_length m h) < 44 + 17 * 16
      then (let es = map (mcfg_entry m h) [0..<(unat (header_length m h) - 44) div 16]
            in Inr (es, unmap_physical h (ucast (header_length m h))
                          (rev (map (\<lambda>e. (mc_address e, mcfg_size e)) es) @ map_physical h (ucast (header_length m h)) l)))
      else Inl OutOfBounds)"
proof (cases "44 \<le> unat (header_length m h)")
  case True
  then have "mcfg_count m h = (unat (header_length m h) - 44) div 16"
    by (simp add: mcfg_count_def unat_div unat_sub_if_size word_le_nat_alt unat_sub)
  moreover have "(unat (header_length m h) - 44) div 16 \<le> 16 \<longleftrightarrow> unat (header_length m h) < 44 + 17 * 16"
    using True div_less_iff_less_mult [of 16 "unat (header_length m h) - 44" 17] by (simp add: less_diff_conv2) linarith
  ultimately show ?thesis
    using True by (auto simp: McfgTableManager_def mcfg_loop_eq MAX_MCFG_ENTRIES_def Let_def comp_def rev_map)
next
  case False
  then have "unat (header_length m h - 44) = 4294967296 + unat (header_length m h) - 44"
    by (simp add: unat_sub_if' word_le_nat_alt)
  then have "16 < mcfg_count m h" by (simp add: mcfg_count_def unat_div)
  with False show ?thesis
    by (simp add: McfgTableManager_def mcfg_loop_eq MAX_MCFG_ENTRIES_def)
qed

end
