(* ===== verification/Apic.thy ===== *)
theory Apic
  imports Acpi
begin

text \<open>
  The interrupt controllers (\<^verbatim>\<open>arch/x86_64/include/mykonos/apic.h\<close>, \<^verbatim>\<open>kernel/apic/apic.cpp\<close>). The registers of the local
  APIC are a file of 32-bit words indexed by word offset, those of an I/O APIC a select register and the file it selects
  from, one device per physical address; a mapping is the address it maps. The hardware acts on the registers in two
  places only: the delivery status that \<^verbatim>\<open>sendIpi\<close> polls is an argument, the values of successive reads, and the
  in-service bits are part of the file. The routing property shows that the initialised I/O APICs split the interrupt
  numbers between them with no gap and no overlap.
\<close>

section \<open>The local APIC\<close>

definition LOCAL_APIC_ID_REGISTER :: nat where "LOCAL_APIC_ID_REGISTER = 0x20"

definition LOCAL_APIC_VERSION_REGISTER :: nat where "LOCAL_APIC_VERSION_REGISTER = 0x30"

definition LOCAL_APIC_EOI_REGISTER :: nat where "LOCAL_APIC_EOI_REGISTER = 0xb0"

definition LOCAL_APIC_SPURIOUS_INTERRUPT_REGISTER :: nat where "LOCAL_APIC_SPURIOUS_INTERRUPT_REGISTER = 0xf0"

definition LOCAL_APIC_IN_SERVICE_REGISTERS :: nat where "LOCAL_APIC_IN_SERVICE_REGISTERS = 0x100"

definition LOCAL_APIC_ERROR_REGISTER :: nat where "LOCAL_APIC_ERROR_REGISTER = 0x280"

definition LOCAL_APIC_IPI_REGISTER_LOW :: nat where "LOCAL_APIC_IPI_REGISTER_LOW = 0x300"

definition LOCAL_APIC_IPI_REGISTER_HIGH :: nat where "LOCAL_APIC_IPI_REGISTER_HIGH = 0x310"

definition LOCAL_APIC_TIMER_LVT_REGISTER :: nat where "LOCAL_APIC_TIMER_LVT_REGISTER = 0x320"

definition LOCAL_APIC_THERMAL_LVT_REGISTER :: nat where "LOCAL_APIC_THERMAL_LVT_REGISTER = 0x330"

definition LOCAL_APIC_PERFORMANCE_LVT_REGISTER :: nat where "LOCAL_APIC_PERFORMANCE_LVT_REGISTER = 0x340"

definition LOCAL_APIC_ERROR_LVT_REGISTER :: nat where "LOCAL_APIC_ERROR_LVT_REGISTER = 0x370"

definition LOCAL_APIC_TIMER_INITIAL_COUNT_REGISTER :: nat where "LOCAL_APIC_TIMER_INITIAL_COUNT_REGISTER = 0x380"

definition LOCAL_APIC_TIMER_CURRENT_COUNT_REGISTER :: nat where "LOCAL_APIC_TIMER_CURRENT_COUNT_REGISTER = 0x390"

definition LOCAL_APIC_TIMER_DIVIDE_REGISTER :: nat where "LOCAL_APIC_TIMER_DIVIDE_REGISTER = 0x3e0"

lemmas local_apic_registers = LOCAL_APIC_ID_REGISTER_def LOCAL_APIC_VERSION_REGISTER_def LOCAL_APIC_EOI_REGISTER_def
  LOCAL_APIC_SPURIOUS_INTERRUPT_REGISTER_def LOCAL_APIC_IN_SERVICE_REGISTERS_def LOCAL_APIC_ERROR_REGISTER_def
  LOCAL_APIC_IPI_REGISTER_LOW_def LOCAL_APIC_IPI_REGISTER_HIGH_def LOCAL_APIC_TIMER_LVT_REGISTER_def
  LOCAL_APIC_THERMAL_LVT_REGISTER_def LOCAL_APIC_PERFORMANCE_LVT_REGISTER_def LOCAL_APIC_ERROR_LVT_REGISTER_def
  LOCAL_APIC_TIMER_INITIAL_COUNT_REGISTER_def LOCAL_APIC_TIMER_CURRENT_COUNT_REGISTER_def LOCAL_APIC_TIMER_DIVIDE_REGISTER_def

definition LOCAL_APIC_VERSION_MASK :: u32 where "LOCAL_APIC_VERSION_MASK = 0xFF"

definition LOCAL_APIC_ID_POSITION :: nat where "LOCAL_APIC_ID_POSITION = 24"

definition LOCAL_APIC_SPURIOUS_INTERRUPT_VECTOR :: u32 where "LOCAL_APIC_SPURIOUS_INTERRUPT_VECTOR = 0xff"

definition LOCAL_APIC_SPURIOUS_INTERRUPT_REGISTER_ENABLE :: u32 where
  "LOCAL_APIC_SPURIOUS_INTERRUPT_REGISTER_ENABLE = push_bit 8 1"

definition LOCAL_APIC_FIXED_MESSAGE :: u8 where "LOCAL_APIC_FIXED_MESSAGE = 0"

definition APIC_FIXED_IPI :: u8 where "APIC_FIXED_IPI = 0"

definition APIC_DIVIDE_16 :: u8 where "APIC_DIVIDE_16 = 3"

text \<open>\<^verbatim>\<open>la_writes\<close> is the history of the register writes, the latest first.\<close>

record LocalApic =
  la_registers :: ptr
  la_file :: "nat \<Rightarrow> u32"
  la_writes :: "(nat \<times> u32) list"

definition la_init :: "u64 \<Rightarrow> LocalApic \<Rightarrow> LocalApic" where
  "la_init physicalAddress a = (if la_registers a = nullptr then a\<lparr>la_registers := physicalAddress\<rparr> else a)"

definition la_writeRegister :: "nat \<Rightarrow> u32 \<Rightarrow> LocalApic \<Rightarrow> LocalApic result" where
  "la_writeRegister offset v a =
     (if la_registers a = nullptr then Inl NullDereference
      else Inr (a\<lparr>la_file := (la_file a)(offset div 4 := v), la_writes := (offset, v) # la_writes a\<rparr>))"

definition la_readRegister :: "nat \<Rightarrow> LocalApic \<Rightarrow> u32 result" where
  "la_readRegister offset a =
     (if la_registers a = nullptr then Inl NullDereference else Inr (la_file a (offset div 4)))"

definition flag :: "bool \<Rightarrow> u32" where
  "flag b = (if b then 1 else 0)"

definition la_enable :: "LocalApic \<Rightarrow> LocalApic result" where
  "la_enable = la_writeRegister LOCAL_APIC_SPURIOUS_INTERRUPT_REGISTER
     (LOCAL_APIC_SPURIOUS_INTERRUPT_VECTOR OR LOCAL_APIC_SPURIOUS_INTERRUPT_REGISTER_ENABLE)"

definition getVersion :: "LocalApic \<Rightarrow> u32 result" where
  "getVersion a = rbind (la_readRegister LOCAL_APIC_VERSION_REGISTER a) (\<lambda>v. Inr (v AND LOCAL_APIC_VERSION_MASK))"

definition getApicId :: "LocalApic \<Rightarrow> u8 result" where
  "getApicId a = rbind (la_readRegister LOCAL_APIC_ID_REGISTER a) (\<lambda>v. Inr (ucast (drop_bit LOCAL_APIC_ID_POSITION v)))"

definition clearErrors :: "LocalApic \<Rightarrow> LocalApic result" where
  "clearErrors = la_writeRegister LOCAL_APIC_ERROR_REGISTER 0"

definition readErrors :: "LocalApic \<Rightarrow> u32 result" where
  "readErrors = la_readRegister LOCAL_APIC_ERROR_REGISTER"

text \<open>The wait for delivery: the delivery status of each read, and \<open>Diverges\<close> when it is set for ever.\<close>

fun ipi_wait :: "bool list \<Rightarrow> LocalApic \<Rightarrow> LocalApic result" where
  "ipi_wait [] a = Inl Diverges"
| "ipi_wait (busy # polls) a = (if busy then ipi_wait polls a else Inr a)"

definition ipi_command :: "u8 \<Rightarrow> u8 \<Rightarrow> bool \<Rightarrow> bool \<Rightarrow> bool \<Rightarrow> u32" where
  "ipi_command vector messageType logicalDestination asserted levelTriggered =
     ucast vector OR push_bit 8 (ucast messageType) OR push_bit 11 (flag logicalDestination) OR push_bit 14 (flag asserted) OR
     push_bit 15 (flag levelTriggered)"

definition sendIpi :: "u8 \<Rightarrow> u8 \<Rightarrow> bool \<Rightarrow> bool \<Rightarrow> bool \<Rightarrow> u8 \<Rightarrow> bool list \<Rightarrow> LocalApic \<Rightarrow> LocalApic result" where
  "sendIpi vector messageType logicalDestination asserted levelTriggered destinationApicId polls a =
     rbind (la_writeRegister LOCAL_APIC_IPI_REGISTER_HIGH (push_bit 24 (ucast destinationApicId)) a) (\<lambda>a1.
     rbind (la_writeRegister LOCAL_APIC_IPI_REGISTER_LOW
              (ipi_command vector messageType logicalDestination asserted levelTriggered) a1) (\<lambda>a2.
     ipi_wait polls a2))"

definition writeLvtRegister :: "nat \<Rightarrow> bool \<Rightarrow> bool \<Rightarrow> bool \<Rightarrow> u8 \<Rightarrow> u8 \<Rightarrow> LocalApic \<Rightarrow> LocalApic result" where
  "writeLvtRegister registerOffset timerPeriodic masked levelTriggered messageType vector =
     la_writeRegister registerOffset
       (push_bit 17 (flag timerPeriodic) OR push_bit 16 (flag masked) OR push_bit 15 (flag levelTriggered) OR
        push_bit 8 (ucast messageType) OR ucast vector)"

definition maskLvtRegister :: "nat \<Rightarrow> LocalApic \<Rightarrow> LocalApic result" where
  "maskLvtRegister registerOffset a =
     rbind (la_readRegister registerOffset a) (\<lambda>v. la_writeRegister registerOffset (v OR push_bit 16 1) a)"

definition maskAllInternal :: "LocalApic \<Rightarrow> LocalApic result" where
  "maskAllInternal a =
     rbind (maskLvtRegister LOCAL_APIC_TIMER_LVT_REGISTER a) (\<lambda>a1.
     rbind (maskLvtRegister LOCAL_APIC_THERMAL_LVT_REGISTER a1) (\<lambda>a2.
     rbind (maskLvtRegister LOCAL_APIC_PERFORMANCE_LVT_REGISTER a2) (\<lambda>a3.
     maskLvtRegister LOCAL_APIC_ERROR_LVT_REGISTER a3)))"

definition writeTimerLvt :: "bool \<Rightarrow> bool \<Rightarrow> u8 \<Rightarrow> LocalApic \<Rightarrow> LocalApic result" where
  "writeTimerLvt periodic masked vector =
     writeLvtRegister LOCAL_APIC_TIMER_LVT_REGISTER periodic masked False LOCAL_APIC_FIXED_MESSAGE vector"

definition writeTimerInitialCountRegister :: "u32 \<Rightarrow> LocalApic \<Rightarrow> LocalApic result" where
  "writeTimerInitialCountRegister = la_writeRegister LOCAL_APIC_TIMER_INITIAL_COUNT_REGISTER"

definition getTimerCurrentCount :: "LocalApic \<Rightarrow> u32 result" where
  "getTimerCurrentCount = la_readRegister LOCAL_APIC_TIMER_CURRENT_COUNT_REGISTER"

definition writeTimerDivideRegister :: "u8 \<Rightarrow> LocalApic \<Rightarrow> LocalApic result" where
  "writeTimerDivideRegister divideFlag = la_writeRegister LOCAL_APIC_TIMER_DIVIDE_REGISTER (ucast divideFlag)"

definition inService :: "u8 \<Rightarrow> LocalApic \<Rightarrow> bool result" where
  "inService vector a =
     rbind (la_readRegister (LOCAL_APIC_IN_SERVICE_REGISTERS + unat vector div 32 * 16) a) (\<lambda>v.
       Inr (v AND push_bit (unat (vector AND 0x1f)) 1 \<noteq> 0))"

definition eoi :: "LocalApic \<Rightarrow> LocalApic result" where
  "eoi = la_writeRegister LOCAL_APIC_EOI_REGISTER 0"

section \<open>The I/O APICs\<close>

definition IO_APIC_INTERRUPT_BASE :: u32 where "IO_APIC_INTERRUPT_BASE = 0x20"

record io_apic_device =
  dv_select :: u32
  dv_file :: "u32 \<Rightarrow> u32"

record IoApic =
  ia_base :: ptr
  ia_gsiCount :: u32
  ia_gsiBase :: u32

record apics =
  ap_ioApics :: "IoApic list"
  ap_ioApicCount :: nat
  ap_localApicIds :: "u8 list"
  ap_devices :: "ptr \<Rightarrow> io_apic_device"

definition apics_ok :: "apics \<Rightarrow> bool" where
  "apics_ok s \<longleftrightarrow> length (ap_ioApics s) = MAX_IO_APICS \<and> length (ap_localApicIds s) = MAX_LOCAL_APICS"

definition io_select :: "ptr \<Rightarrow> u32 \<Rightarrow> apics \<Rightarrow> apics" where
  "io_select base registerIndex s = s\<lparr>ap_devices := (ap_devices s)(base := (ap_devices s base)\<lparr>dv_select := registerIndex\<rparr>)\<rparr>"

definition io_readRegister :: "ptr \<Rightarrow> u32 \<Rightarrow> apics \<Rightarrow> u32 \<times> apics" where
  "io_readRegister base registerIndex s =
     (let s1 = io_select base registerIndex s in (dv_file (ap_devices s1 base) (dv_select (ap_devices s1 base)), s1))"

definition io_writeRegister :: "ptr \<Rightarrow> u32 \<Rightarrow> u32 \<Rightarrow> apics \<Rightarrow> apics" where
  "io_writeRegister base registerIndex v s =
     (let s1 = io_select base registerIndex s; d = ap_devices s1 base
      in s1\<lparr>ap_devices := (ap_devices s1)(base := d\<lparr>dv_file := (dv_file d)(dv_select d := v)\<rparr>)\<rparr>)"

definition mapGsi :: "ptr \<Rightarrow> u32 \<Rightarrow> u32 \<Rightarrow> bool \<Rightarrow> bool \<Rightarrow> u8 \<Rightarrow> apics \<Rightarrow> apics" where
  "mapGsi base gsi vector levelTriggered activeHigh targetLocalApic s =
     (let (redirectionEntry, s1) = io_readRegister base (0x10 + gsi * 2) s;
          redirectionEntry = redirectionEntry OR vector;
          redirectionEntry = redirectionEntry OR push_bit 15 (flag levelTriggered);
          redirectionEntry = redirectionEntry OR push_bit 13 (flag (\<not> activeHigh));
          s2 = io_writeRegister base (0x10 + gsi * 2) redirectionEntry s1
      in io_writeRegister base (0x10 + gsi * 2 + 1) (push_bit 24 (ucast targetLocalApic)) s2)"

definition maskGsi :: "ptr \<Rightarrow> u32 \<Rightarrow> apics \<Rightarrow> apics" where
  "maskGsi base gsi s =
     (let (v, s1) = io_readRegister base (0x10 + gsi * 2) s in io_writeRegister base (0x10 + gsi * 2) (v OR push_bit 16 1) s1)"

definition unmaskGsi :: "ptr \<Rightarrow> u32 \<Rightarrow> apics \<Rightarrow> apics" where
  "unmaskGsi base gsi s =
     (let (v, s1) = io_readRegister base (0x10 + gsi * 2) s
      in io_writeRegister base (0x10 + gsi * 2) (v AND NOT (push_bit 16 1)) s1)"

definition init_one :: "IoApicDescriptor \<Rightarrow> nat \<Rightarrow> u32 \<times> apics \<Rightarrow> (u32 \<times> apics) result" where
  "init_one descriptor i = (\<lambda>(nextGsiBase, s).
     if io_gsiBase descriptor \<noteq> nextGsiBase then Inl (Panic ''Invalid GSI base'')
     else if \<not> i < length (ap_ioApics s) then Inl OutOfBounds
     else (let base = io_physicalAddress descriptor;
               (v, s1) = io_readRegister base 1 s;
               gsiCount = (drop_bit 16 v AND 0xff) + 1
           in Inr (nextGsiBase + gsiCount,
                   s1\<lparr>ap_ioApics := (ap_ioApics s1)[i := \<lparr>ia_base = base, ia_gsiCount = gsiCount, ia_gsiBase = io_gsiBase descriptor\<rparr>]\<rparr>)))"

definition initIoApics :: "IoApicDescriptor list \<Rightarrow> apics \<Rightarrow> apics result" where
  "initIoApics descriptors s =
     rbind (for_each (\<lambda>(d, i). init_one d i) (zip descriptors [0..<length descriptors])
              (0, s\<lparr>ap_ioApicCount := length descriptors\<rparr>)) (\<lambda>(nextGsiBase, s1). Inr s1)"

text \<open>The search the three operations share: the first I/O APIC whose range has the interrupt.\<close>

definition handles :: "u32 \<Rightarrow> IoApic \<Rightarrow> bool" where
  "handles gsi a \<longleftrightarrow> ia_gsiBase a \<le> gsi \<and> gsi < ia_gsiBase a + ia_gsiCount a"

fun with_io_apic :: "(IoApic \<Rightarrow> apics \<Rightarrow> apics) \<Rightarrow> string \<Rightarrow> u32 \<Rightarrow> nat list \<Rightarrow> apics \<Rightarrow> apics result" where
  "with_io_apic f msg gsi [] s = Inl (Panic msg)"
| "with_io_apic f msg gsi (i # is) s =
     (if \<not> i < length (ap_ioApics s) then Inl OutOfBounds
      else if handles gsi (ap_ioApics s ! i) then Inr (f (ap_ioApics s ! i) s)
      else with_io_apic f msg gsi is s)"

definition mapIoApicInterrupt :: "u32 \<Rightarrow> u8 \<Rightarrow> bool \<Rightarrow> bool \<Rightarrow> u32 \<Rightarrow> apics \<Rightarrow> apics result" where
  "mapIoApicInterrupt gsi vector levelTriggered activeHigh targetCpuNumber s =
     (if \<not> unat targetCpuNumber < length (ap_localApicIds s) then Inl OutOfBounds
      else with_io_apic
             (\<lambda>a. mapGsi (ia_base a) (gsi - ia_gsiBase a) (ucast vector) levelTriggered activeHigh
                    (ap_localApicIds s ! unat targetCpuNumber))
             ''Failed to map GSI'' gsi [0..<ap_ioApicCount s] s)"

definition maskIoApicInterrupt :: "u32 \<Rightarrow> apics \<Rightarrow> apics result" where
  "maskIoApicInterrupt gsi s =
     with_io_apic (\<lambda>a. maskGsi (ia_base a) (gsi - ia_gsiBase a)) ''Failed to mask GSI'' gsi [0..<ap_ioApicCount s] s"

definition unmaskIoApicInterrupt :: "u32 \<Rightarrow> apics \<Rightarrow> apics result" where
  "unmaskIoApicInterrupt gsi s =
     with_io_apic (\<lambda>a. unmaskGsi (ia_base a) (gsi - ia_gsiBase a)) ''Failed to unmask GSI'' gsi [0..<ap_ioApicCount s] s"

definition getGsiCount :: "apics \<Rightarrow> u32" where
  "getGsiCount s = fold (\<lambda>i result. result + ia_gsiCount (ap_ioApics s ! i)) [0..<ap_ioApicCount s] 0"

section \<open>The ranges of the I/O APICs\<close>

definition gsi_start :: "apics \<Rightarrow> nat \<Rightarrow> nat" where
  "gsi_start s i = (\<Sum>j<i. unat (ia_gsiCount (ap_ioApics s ! j)))"

definition ranges_ok :: "nat \<Rightarrow> apics \<Rightarrow> bool" where
  "ranges_ok k s \<longleftrightarrow> k \<le> length (ap_ioApics s) \<and> length (ap_ioApics s) = MAX_IO_APICS \<and>
     (\<forall>i<k. unat (ia_gsiBase (ap_ioApics s ! i)) = gsi_start s i \<and>
             1 \<le> unat (ia_gsiCount (ap_ioApics s ! i)) \<and> unat (ia_gsiCount (ap_ioApics s ! i)) \<le> 256)"

lemma gsi_start_Suc: "gsi_start s (Suc i) = gsi_start s i + unat (ia_gsiCount (ap_ioApics s ! i))"
  by (simp add: gsi_start_def)

lemma gsi_start_mono: "i \<le> j \<Longrightarrow> gsi_start s i \<le> gsi_start s j"
  by (auto simp: gsi_start_def intro: sum_mono2)

lemma gsi_start_bound:
  assumes "ranges_ok k s" "i \<le> k"
  shows "gsi_start s i \<le> 2048"
proof -
  from assms have "\<forall>j<i. unat (ia_gsiCount (ap_ioApics s ! j)) \<le> 256" "i \<le> 8"
    by (simp_all add: ranges_ok_def MAX_IO_APICS_def)
  then have "gsi_start s i \<le> (\<Sum>j<i. 256)" unfolding gsi_start_def by (intro sum_mono) simp
  also have "\<dots> \<le> 2048" using \<open>i \<le> 8\<close> by simp
  finally show ?thesis .
qed

lemma io_apics_of_read: "io_readRegister b r s = (v, s') \<Longrightarrow> ap_ioApics s' = ap_ioApics s \<and> ap_ioApicCount s' = ap_ioApicCount s \<and>
    ap_localApicIds s' = ap_localApicIds s"
  by (auto simp: io_readRegister_def io_select_def Let_def)

lemma gsi_count_field: "unat ((drop_bit 16 v AND 0xff) + 1 :: u32) = unat (drop_bit 16 v AND 0xff :: u32) + 1"
  "unat (drop_bit 16 v AND 0xff :: u32) \<le> 255"
proof -
  have "drop_bit 16 v AND 0xff \<le> (0xff :: u32)" by (simp add: word_and_le1)
  then show b: "unat (drop_bit 16 v AND 0xff :: u32) \<le> 255" by (simp add: word_le_nat_alt)
  then show "unat ((drop_bit 16 v AND 0xff) + 1 :: u32) = unat (drop_bit 16 v AND 0xff :: u32) + 1"
    by (simp add: unat_word_ariths)
qed

lemma init_one_step:
  assumes "init_one d k (next, s) = Inr (next', s')" "ranges_ok k s" "unat next = gsi_start s k"
  shows "ranges_ok (Suc k) s'" "unat next' = gsi_start s' (Suc k)" "ap_ioApicCount s' = ap_ioApicCount s"
    "ap_localApicIds s' = ap_localApicIds s"
proof -
  obtain v s1 where r: "io_readRegister (io_physicalAddress d) 1 s = (v, s1)" by fastforce
  let ?n = "(drop_bit 16 v AND 0xff) + 1 :: u32"
  let ?a = "\<lparr>ia_base = io_physicalAddress d, ia_gsiCount = ?n, ia_gsiBase = next\<rparr>"
  from assms(1) r have k: "k < length (ap_ioApics s)" and n: "next' = next + ?n"
    and s': "s' = s1\<lparr>ap_ioApics := (ap_ioApics s)[k := ?a]\<rparr>"
    using io_apics_of_read [OF r] by (auto simp: init_one_def Let_def split: if_splits)
  have st: "gsi_start s' i = gsi_start s i" if "i \<le> k" for i
    using that by (auto simp: gsi_start_def s')
  have "gsi_start s k \<le> 2048" using gsi_start_bound [OF assms(2)] by simp
  then have "unat next' = gsi_start s k + unat ?n"
    using gsi_count_field [of v] assms(3) by (simp add: n unat_word_ariths)
  then show "unat next' = gsi_start s' (Suc k)" using st k by (simp add: gsi_start_Suc s')
  show "ranges_ok (Suc k) s'"
    using assms(2,3) k st gsi_count_field [of v]
    by (auto simp: ranges_ok_def s' less_Suc_eq nth_list_update)
  show "ap_ioApicCount s' = ap_ioApicCount s" "ap_localApicIds s' = ap_localApicIds s"
    using io_apics_of_read [OF r] by (simp_all add: s')
qed

lemma init_loop_ranges:
  assumes "for_each (\<lambda>(d, i). init_one d i) (zip ds [k..<k + length ds]) (next, s) = Inr (next', s')"
    "ranges_ok k s" "unat next = gsi_start s k"
  shows "ranges_ok (k + length ds) s' \<and> ap_ioApicCount s' = ap_ioApicCount s \<and> ap_localApicIds s' = ap_localApicIds s"
  using assms
proof (induction ds arbitrary: k "next" s)
  case (Cons d ds)
  then have "[k..<k + length (d # ds)] = k # [Suc k..<Suc k + length ds]" by (simp add: upt_conv_Cons del: upt_Suc)
  with Cons.prems(1) obtain next1 s1 where one: "init_one d k (next, s) = Inr (next1, s1)"
    and rest: "for_each (\<lambda>(d, i). init_one d i) (zip ds [Suc k..<Suc k + length ds]) (next1, s1) = Inr (next', s')"
    by (auto simp del: upt_Suc)
  from Cons.IH [OF rest] init_one_step [OF one Cons.prems(2,3)] show ?case by simp
qed simp

lemma initIoApics_ranges:
  assumes "initIoApics ds s = Inr s'" "length (ap_ioApics s) = MAX_IO_APICS"
  shows "ranges_ok (length ds) s'" "ap_ioApicCount s' = length ds" "ap_localApicIds s' = ap_localApicIds s"
proof -
  from assms(1) obtain n where
    "for_each (\<lambda>(d, i). init_one d i) (zip ds [0..<0 + length ds]) (0, s\<lparr>ap_ioApicCount := length ds\<rparr>) = Inr (n, s')"
    by (auto simp: initIoApics_def)
  from init_loop_ranges [OF this] assms(2)
  show "ranges_ok (length ds) s'" "ap_ioApicCount s' = length ds" "ap_localApicIds s' = ap_localApicIds s"
    by (simp_all add: ranges_ok_def gsi_start_def)
qed

lemma getGsiCount_eq:
  assumes "ranges_ok (ap_ioApicCount s) s"
  shows "unat (getGsiCount s) = gsi_start s (ap_ioApicCount s)"
proof -
  have "unat (fold (\<lambda>i result. result + ia_gsiCount (ap_ioApics s ! i)) [0..<k] (0 :: u32)) = gsi_start s k"
    if "k \<le> ap_ioApicCount s" for k
    using that
  proof (induction k)
    case (Suc k)
    with gsi_start_bound [OF assms Suc.prems] show ?case by (simp add: gsi_start_Suc unat_word_ariths)
  qed (simp add: gsi_start_def)
  then show ?thesis by (simp add: getGsiCount_def)
qed

lemma handles_iff:
  assumes "ranges_ok k s" "i < k"
  shows "handles gsi (ap_ioApics s ! i) \<longleftrightarrow> gsi_start s i \<le> unat gsi \<and> unat gsi < gsi_start s (Suc i)"
proof -
  from assms gsi_start_bound [of k s "Suc i"] have "unat (ia_gsiBase (ap_ioApics s ! i) + ia_gsiCount (ap_ioApics s ! i)) = gsi_start s (Suc i)"
    by (simp add: ranges_ok_def gsi_start_Suc unat_word_ariths)
  with assms show ?thesis by (simp add: handles_def ranges_ok_def word_le_nat_alt word_less_nat_alt)
qed

lemma handler_exists:
  assumes "ranges_ok k s" "unat gsi < gsi_start s k"
  shows "\<exists>!i. i < k \<and> handles gsi (ap_ioApics s ! i)"
proof -
  define i where "i = (GREATEST i. i < k \<and> gsi_start s i \<le> unat gsi)"
  have "0 < k" using assms(2) by (cases k) (simp_all add: gsi_start_def)
  then have "0 < k \<and> gsi_start s 0 \<le> unat gsi" by (simp add: gsi_start_def)
  then have i: "i < k \<and> gsi_start s i \<le> unat gsi" unfolding i_def by (rule GreatestI_nat [where b = k]) simp
  have "unat gsi < gsi_start s (Suc i)"
  proof (rule ccontr)
    assume "\<not> unat gsi < gsi_start s (Suc i)"
    with assms(2) i have "Suc i < k \<and> gsi_start s (Suc i) \<le> unat gsi" by (metis Suc_lessI not_less)
    then have "Suc i \<le> i" unfolding i_def by (rule Greatest_le_nat [where b = k]) simp
    then show False by simp
  qed
  with i have "i < k \<and> handles gsi (ap_ioApics s ! i)" by (simp add: handles_iff [OF assms(1)])
  moreover have "j = j'" if "j < k" "j' < k" "handles gsi (ap_ioApics s ! j)" "handles gsi (ap_ioApics s ! j')" for j j'
  proof -
    have "\<not> Suc j \<le> j'" "\<not> Suc j' \<le> j"
      using that gsi_start_mono [of "Suc j" j' s] gsi_start_mono [of "Suc j'" j s] by (auto simp: handles_iff [OF assms(1)])
    then show ?thesis by simp
  qed
  ultimately show ?thesis by blast
qed

lemma with_io_apic_some:
  assumes "\<forall>i\<in>set is. i < length (ap_ioApics s)" "j \<in> set is" "handles gsi (ap_ioApics s ! j)"
    "\<forall>i\<in>set is. i \<noteq> j \<longrightarrow> \<not> handles gsi (ap_ioApics s ! i)"
  shows "with_io_apic f msg gsi is s = Inr (f (ap_ioApics s ! j) s)"
  using assms
proof (induction "is")
  case (Cons i "is")
  show ?case
  proof (cases "handles gsi (ap_ioApics s ! i)")
    case True
    with Cons.prems(4) have "i = j" by auto
    with True Cons.prems(1) show ?thesis by simp
  next
    case False
    with Cons.prems(2,3) have "j \<in> set is" by auto
    with False Cons show ?thesis by simp
  qed
qed simp

lemma with_io_apic_none:
  assumes "\<forall>i\<in>set is. i < length (ap_ioApics s) \<and> \<not> handles gsi (ap_ioApics s ! i)"
  shows "with_io_apic f msg gsi is s = Inl (Panic msg)"
  using assms by (induction "is") auto

lemma with_io_apic_routed:
  assumes "ranges_ok (ap_ioApicCount s) s" "j < ap_ioApicCount s" "handles gsi (ap_ioApics s ! j)"
  shows "with_io_apic f msg gsi [0..<ap_ioApicCount s] s = Inr (f (ap_ioApics s ! j) s)"
proof -
  have "unat gsi < gsi_start s (Suc j)" using assms(3) by (simp add: handles_iff [OF assms(1,2)])
  also have "\<dots> \<le> gsi_start s (ap_ioApicCount s)" using assms(2) by (intro gsi_start_mono) simp
  finally have "\<forall>i<ap_ioApicCount s. i \<noteq> j \<longrightarrow> \<not> handles gsi (ap_ioApics s ! i)"
    using handler_exists [OF assms(1)] assms(2,3) by blast
  with assms show ?thesis by (intro with_io_apic_some) (simp_all add: ranges_ok_def)
qed

lemma with_io_apic_unrouted:
  assumes "ranges_ok (ap_ioApicCount s) s" "getGsiCount s \<le> gsi"
  shows "with_io_apic f msg gsi [0..<ap_ioApicCount s] s = Inl (Panic msg)"
proof (rule with_io_apic_none, rule ballI, rule conjI)
  fix i assume "i \<in> set [0..<ap_ioApicCount s]"
  then have i: "i < ap_ioApicCount s" by simp
  then show "i < length (ap_ioApics s)" using assms(1) by (simp add: ranges_ok_def)
  show "\<not> handles gsi (ap_ioApics s ! i)"
    using assms(2) gsi_start_mono [of "Suc i" "ap_ioApicCount s" s] i
    by (simp add: handles_iff [OF assms(1) i] word_le_nat_alt getGsiCount_eq [OF assms(1)])
qed

section \<open>Properties\<close>

text \<open>
  Routing of interrupts: after the I/O APICs have been initialised, there are at most 8 of them, every interrupt
  number below \<^verbatim>\<open>getGsiCount\<close> belongs to exactly one of them, and mapping, masking and unmasking it act on that one's
  register of the interrupt's distance from the first of its range; every other number is a panic, of the message of the
  operation.
\<close>

theorem gsi_routing:
  assumes "initIoApics ds s = Inr s'" "length (ap_ioApics s) = MAX_IO_APICS" "unat cpu < length (ap_localApicIds s)"
  shows "length ds \<le> 8 \<and>
    (if gsi < getGsiCount s' then
       \<exists>!i. i < length ds \<and> handles gsi (ap_ioApics s' ! i) \<and>
         (let a = ap_ioApics s' ! i; pin = gsi - ia_gsiBase a
          in pin < ia_gsiCount a \<and>
             mapIoApicInterrupt gsi vector level high cpu s' =
               Inr (mapGsi (ia_base a) pin (ucast vector) level high (ap_localApicIds s ! unat cpu) s') \<and>
             maskIoApicInterrupt gsi s' = Inr (maskGsi (ia_base a) pin s') \<and>
             unmaskIoApicInterrupt gsi s' = Inr (unmaskGsi (ia_base a) pin s'))
     else mapIoApicInterrupt gsi vector level high cpu s' = Inl (Panic ''Failed to map GSI'') \<and>
          maskIoApicInterrupt gsi s' = Inl (Panic ''Failed to mask GSI'') \<and>
          unmaskIoApicInterrupt gsi s' = Inl (Panic ''Failed to unmask GSI''))"
proof -
  note r = initIoApics_ranges [OF assms(1,2)]
  have ok: "ranges_ok (ap_ioApicCount s') s'" using r by simp
  have "length ds \<le> 8" using r by (simp add: ranges_ok_def MAX_IO_APICS_def)
  moreover have ?thesis if "gsi < getGsiCount s'"
  proof -
    from that have "unat gsi < gsi_start s' (length ds)"
      using getGsiCount_eq [OF ok] r(2) by (simp add: word_less_nat_alt)
    from handler_exists [OF r(1) this] obtain j where j: "j < length ds" "handles gsi (ap_ioApics s' ! j)"
      and unique: "\<And>i. i < length ds \<and> handles gsi (ap_ioApics s' ! i) \<Longrightarrow> i = j" by blast
    have "gsi - ia_gsiBase (ap_ioApics s' ! j) < ia_gsiCount (ap_ioApics s' ! j)"
      using j handles_iff [OF r(1) j(1), of gsi] r(1)
      by (auto simp: word_less_nat_alt word_le_nat_alt unat_sub ranges_ok_def gsi_start_Suc)
    with j have *: "j < length ds \<and> handles gsi (ap_ioApics s' ! j) \<and>
         (let a = ap_ioApics s' ! j; pin = gsi - ia_gsiBase a
          in pin < ia_gsiCount a \<and>
             mapIoApicInterrupt gsi vector level high cpu s' =
               Inr (mapGsi (ia_base a) pin (ucast vector) level high (ap_localApicIds s ! unat cpu) s') \<and>
             maskIoApicInterrupt gsi s' = Inr (maskGsi (ia_base a) pin s') \<and>
             unmaskIoApicInterrupt gsi s' = Inr (unmaskGsi (ia_base a) pin s'))"
      using with_io_apic_routed [OF ok, of j gsi] r(2,3) assms(3)
      by (simp add: Let_def mapIoApicInterrupt_def maskIoApicInterrupt_def unmaskIoApicInterrupt_def)
    show ?thesis unfolding if_P [OF that] by (intro conjI \<open>length ds \<le> 8\<close>, rule ex1I, rule *, rule unique) blast
  qed
  moreover have ?thesis if "\<not> gsi < getGsiCount s'"
    using that \<open>length ds \<le> 8\<close> with_io_apic_unrouted [OF ok, of gsi] r(3) assms(3)
    by (simp add: mapIoApicInterrupt_def maskIoApicInterrupt_def unmaskIoApicInterrupt_def)
  ultimately show ?thesis by blast
qed

definition blank_io_apic :: IoApic where
  "blank_io_apic = \<lparr>ia_base = 0, ia_gsiCount = 0, ia_gsiBase = 0\<rparr>"

definition example_apics :: apics where
  "example_apics = \<lparr>ap_ioApics = [blank_io_apic, blank_io_apic, blank_io_apic, blank_io_apic, blank_io_apic, blank_io_apic,
       blank_io_apic, blank_io_apic], ap_ioApicCount = 0,
     ap_localApicIds = replicate 64 3, ap_devices = (\<lambda>b. \<lparr>dv_select = 0, dv_file = (\<lambda>r. if r = 1 then 0x170000 else 0x10000)\<rparr>)\<rparr>"

definition example_descriptors :: "IoApicDescriptor list" where
  "example_descriptors = [\<lparr>io_physicalAddress = 0x1000, io_gsiBase = 0\<rparr>, \<lparr>io_physicalAddress = 0x2000, io_gsiBase = 24\<rparr>]"

lemma example_init:
  "\<exists>s'. initIoApics example_descriptors example_apics = Inr s' \<and> ap_ioApicCount s' = 2 \<and>
     ap_ioApics s' = [\<lparr>ia_base = 0x1000, ia_gsiCount = 24, ia_gsiBase = 0\<rparr>, \<lparr>ia_base = 0x2000, ia_gsiCount = 24, ia_gsiBase = 24\<rparr>,
         blank_io_apic, blank_io_apic, blank_io_apic, blank_io_apic, blank_io_apic, blank_io_apic] \<and>
     (\<forall>b r. dv_file (ap_devices s' b) r = (if r = 1 then 0x170000 else 0x10000))"
  by (simp add: initIoApics_def example_descriptors_def example_apics_def init_one_def io_readRegister_def io_select_def upt_rec Let_def)

theorem gsi_routing_witness:
  "\<exists>s'. initIoApics example_descriptors example_apics = Inr s' \<and> getGsiCount s' = 48 \<and>
     maskIoApicInterrupt 30 s' = Inr (maskGsi 0x2000 6 s') \<and> unmaskIoApicInterrupt 48 s' = Inl (Panic ''Failed to unmask GSI'')"
proof -
  from example_init obtain s' where s': "initIoApics example_descriptors example_apics = Inr s'" "getGsiCount s' = 48"
    "ap_ioApics s' ! 0 = \<lparr>ia_base = 0x1000, ia_gsiCount = 24, ia_gsiBase = 0\<rparr>"
    "ap_ioApics s' ! 1 = \<lparr>ia_base = 0x2000, ia_gsiCount = 24, ia_gsiBase = 24\<rparr>"
    by (auto simp: getGsiCount_def upt_rec numeral_2_eq_2)
  have h: "length (ap_ioApics example_apics) = MAX_IO_APICS" "unat (0 :: u32) < length (ap_localApicIds example_apics)"
    by (simp_all add: example_apics_def MAX_IO_APICS_def)
  note g = gsi_routing [OF s'(1) h]
  have "30 < getGsiCount s'" using s'(2) by simp
  from g [of 30 0 False False, unfolded if_P [OF this] Let_def] obtain i where i: "i < length example_descriptors"
    "handles 30 (ap_ioApics s' ! i)"
    "maskIoApicInterrupt 30 s' = Inr (maskGsi (ia_base (ap_ioApics s' ! i)) (30 - ia_gsiBase (ap_ioApics s' ! i)) s')"
    by (elim conjE ex1E) blast
  from i(1,2) s'(3) have "i = 1" by (cases i) (simp_all add: handles_def example_descriptors_def)
  with i(3) s'(4) have "maskIoApicInterrupt 30 s' = Inr (maskGsi 0x2000 6 s')" by simp
  moreover from g [of 48] s'(2) have "unmaskIoApicInterrupt 48 s' = Inl (Panic ''Failed to unmask GSI'')" by simp
  ultimately show ?thesis using s'(1,2) by blast
qed

lemma gsi_files:
  "dv_file (ap_devices (mapGsi base gsi vector level high target s) base) = (dv_file (ap_devices s base))(
     0x10 + gsi * 2 := dv_file (ap_devices s base) (0x10 + gsi * 2) OR vector OR push_bit 15 (flag level) OR push_bit 13 (flag (\<not> high)),
     0x10 + gsi * 2 + 1 := push_bit 24 (ucast target))"
  "dv_file (ap_devices (maskGsi base gsi s) base) =
     (dv_file (ap_devices s base))(0x10 + gsi * 2 := set_bit 16 (dv_file (ap_devices s base) (0x10 + gsi * 2)))"
  "dv_file (ap_devices (unmaskGsi base gsi s) base) =
     (dv_file (ap_devices s base))(0x10 + gsi * 2 := unset_bit 16 (dv_file (ap_devices s base) (0x10 + gsi * 2)))"
  by (simp_all add: mapGsi_def maskGsi_def unmaskGsi_def io_readRegister_def io_writeRegister_def io_select_def Let_def
    set_bit_eq_or unset_bit_eq_and_not or.assoc)

lemma gsi_frame:
  "b \<noteq> base \<or> q \<notin> {0x10 + gsi * 2, 0x10 + gsi * 2 + 1} \<Longrightarrow>
     dv_file (ap_devices (mapGsi base gsi vector level high target s) b) q = dv_file (ap_devices s b) q"
  by (auto simp: mapGsi_def io_readRegister_def io_writeRegister_def io_select_def Let_def)

lemma gsi_keeps:
  "ap_ioApics (mapGsi base gsi vector level high target s) = ap_ioApics s"
  "ap_ioApicCount (mapGsi base gsi vector level high target s) = ap_ioApicCount s"
  "ap_localApicIds (mapGsi base gsi vector level high target s) = ap_localApicIds s"
  "ap_ioApics (unmaskGsi base gsi s) = ap_ioApics s" "ap_ioApicCount (unmaskGsi base gsi s) = ap_ioApicCount s"
  by (simp_all add: mapGsi_def unmaskGsi_def io_readRegister_def io_writeRegister_def io_select_def Let_def)

lemma low_byte_or:
  "(old OR ucast (v :: u8) OR push_bit 15 x OR push_bit 13 y) AND 0xff = (old AND 0xff) OR ucast v" for old x y :: u32
proof -
  have "(old OR ucast v OR push_bit 15 x OR push_bit 13 y) AND mask 8 = (old AND mask 8) OR ucast v"
    by (rule bit_word_eqI) (auto simp: bit_simps dest: bit_imp_le_length)
  then show ?thesis by (simp add: mask_eq_exp_minus_1)
qed

text \<open>
  Redirection entries: mapping an interrupt writes the target in the high word of its redirection entry and keeps the
  mask bit of the low word, but merges the vector, the trigger mode and the polarity into the old entry by OR, so that they
  are what was asked for only when the entry had none; masking and unmasking change the mask bit only; and no operation
  changes the registers of another interrupt.
\<close>

theorem redirection_entry_merged:
  "let r = 0x10 + gsi * 2; s' = mapGsi base gsi (ucast (vector :: u8)) level high target s;
       old = dv_file (ap_devices s base) r; new = dv_file (ap_devices s' base) r
   in new AND 0xff = (old AND 0xff) OR ucast vector \<and> (bit new 15 \<longleftrightarrow> bit old 15 \<or> level) \<and>
      (bit new 13 \<longleftrightarrow> bit old 13 \<or> \<not> high) \<and> (bit new 16 \<longleftrightarrow> bit old 16) \<and>
      dv_file (ap_devices s' base) (r + 1) = push_bit 24 (ucast target) \<and>
      dv_file (ap_devices (maskGsi base gsi s) base) = (dv_file (ap_devices s base))(r := set_bit 16 old) \<and>
      dv_file (ap_devices (unmaskGsi base gsi s) base) = (dv_file (ap_devices s base))(r := unset_bit 16 old) \<and>
      (\<forall>b q. b \<noteq> base \<or> q \<notin> {r, r + 1} \<longrightarrow> dv_file (ap_devices s' b) q = dv_file (ap_devices s b) q)"
proof -
  let ?old = "dv_file (ap_devices s base) (0x10 + gsi * 2)"
  let ?new = "?old OR ucast vector OR push_bit 15 (flag level) OR push_bit 13 (flag (\<not> high))"
  note low_byte_or [of ?old vector "flag level" "flag (\<not> high)"]
  moreover have "bit ?new 15 \<longleftrightarrow> bit ?old 15 \<or> level" "bit ?new 13 \<longleftrightarrow> bit ?old 13 \<or> \<not> high" "bit ?new 16 \<longleftrightarrow> bit ?old 16"
    by (auto simp: bit_simps flag_def dest: bit_imp_le_length)
  moreover have "\<forall>b q. b \<noteq> base \<or> q \<notin> {0x10 + gsi * 2, 0x10 + gsi * 2 + 1} \<longrightarrow>
      dv_file (ap_devices (mapGsi base gsi (ucast vector) level high target s) b) q = dv_file (ap_devices s b) q"
    using gsi_frame by blast
  ultimately show ?thesis unfolding Let_def by (simp add: gsi_files)
qed

theorem redirection_entry_merged_witness:
  "dv_file (ap_devices (mapGsi 0x1000 2 0x41 False True 3 (mapGsi 0x1000 2 0x22 False True 3 example_apics)) 0x1000) 20 AND 0xff = 0x63"
  using redirection_entry_merged [where gsi = 2 and base = "0x1000" and vector = "0x41" and level = False and high = True and
      target = 3 and s = "mapGsi 0x1000 2 0x22 False True 3 example_apics"]
    redirection_entry_merged [where gsi = 2 and base = "0x1000" and vector = "0x22" and level = False and high = True and
      target = 3 and s = example_apics]
  by (simp add: example_apics_def Let_def)

end
