(* ===== verification/Timers.thy ===== *)
theory Timers
  imports Apic
begin

text \<open>
  The timers: the HPET driver (\<^verbatim>\<open>include/mykonos/hpet.h\<close>, \<^verbatim>\<open>drivers/hpet/hpet.cpp\<close>) and the timer of the local APIC
  (\<^verbatim>\<open>kernel/apic/apicTimer.cpp\<close>). The main counter runs by itself, so that the values of successive reads are an
  argument, as is the count the APIC timer shows at the end of a calibration. A wait is \<open>Diverges\<close> when none of the
  values read ends it.
\<close>

section \<open>The HPET\<close>

definition HPET_REGISTER_COUNTER :: nat where "HPET_REGISTER_COUNTER = 0xf0"

definition HPET_REGISTER_GENERAL_CAPABILITIES :: nat where "HPET_REGISTER_GENERAL_CAPABILITIES = 0x0"

definition HPET_REGISTER_GENERAL_CONFIGURATION :: nat where "HPET_REGISTER_GENERAL_CONFIGURATION = 0x10"

definition HPET_CONFIGURATION_ENABLE_BIT :: u64 where "HPET_CONFIGURATION_ENABLE_BIT = 1"

definition HPET_CONFIGURATION_LEGACY_BIT :: u64 where "HPET_CONFIGURATION_LEGACY_BIT = 2"

record Hpet =
  hp_registerPointer :: ptr
  hp_frequencyFemtos :: u64
  hp_file :: "nat \<Rightarrow> u64"

definition hpet_writeRegister :: "nat \<Rightarrow> u64 \<Rightarrow> Hpet \<Rightarrow> Hpet" where
  "hpet_writeRegister offset v h = h\<lparr>hp_file := (hp_file h)(offset div 8 := v)\<rparr>"

definition hpet_readRegister :: "nat \<Rightarrow> Hpet \<Rightarrow> u64" where
  "hpet_readRegister offset h = hp_file h (offset div 8)"

text \<open>The time at a value of the counter; the product is taken in 64 bits.\<close>

definition nanoTime :: "u64 \<Rightarrow> Hpet \<Rightarrow> u64" where
  "nanoTime counter h = (counter * hp_frequencyFemtos h) div 1000000"

definition getFrequencyKhz :: "Hpet \<Rightarrow> u64 result" where
  "getFrequencyKhz h = (if hp_frequencyFemtos h = 0 then Inl Undefined else Inr (1000000000000 div hp_frequencyFemtos h))"

definition hpet_reset :: "Hpet \<Rightarrow> Hpet" where
  "hpet_reset h =
     (let h1 = hpet_writeRegister HPET_REGISTER_GENERAL_CONFIGURATION
                 (hpet_readRegister HPET_REGISTER_GENERAL_CONFIGURATION h AND NOT HPET_CONFIGURATION_ENABLE_BIT) h;
          h2 = hpet_writeRegister HPET_REGISTER_COUNTER 0 h1
      in hpet_writeRegister HPET_REGISTER_GENERAL_CONFIGURATION
           (hpet_readRegister HPET_REGISTER_GENERAL_CONFIGURATION h2 OR HPET_CONFIGURATION_ENABLE_BIT) h2)"

definition Hpet_Hpet :: "u64 \<Rightarrow> (nat \<Rightarrow> u64) \<Rightarrow> ledger \<Rightarrow> Hpet \<times> ledger" where
  "Hpet_Hpet physicalAddress device l =
     (let h = \<lparr>hp_registerPointer = physicalAddress,
               hp_frequencyFemtos = drop_bit 32 (device (HPET_REGISTER_GENERAL_CAPABILITIES div 8)), hp_file = device\<rparr>;
          h1 = hpet_writeRegister HPET_REGISTER_GENERAL_CONFIGURATION
                 (hpet_readRegister HPET_REGISTER_GENERAL_CONFIGURATION h AND NOT HPET_CONFIGURATION_LEGACY_BIT) h
      in (hpet_reset h1, map_physical physicalAddress 1024 l))"

definition Hpet_delete :: "Hpet \<Rightarrow> ledger \<Rightarrow> ledger" where
  "Hpet_delete h l = unmap_physical (hp_registerPointer h) 1024 l"

text \<open>The result of a wait is what is left of the readings.\<close>

fun wait_loop :: "Hpet \<Rightarrow> u64 \<Rightarrow> u64 list \<Rightarrow> u64 list result" where
  "wait_loop h end [] = Inl Diverges"
| "wait_loop h end (counter # readings) = (if nanoTime counter h < end then wait_loop h end readings else Inr readings)"

fun hpet_wait :: "u64 \<Rightarrow> u64 list \<Rightarrow> Hpet \<Rightarrow> u64 list result" where
  "hpet_wait nanos [] h = Inl Diverges"
| "hpet_wait nanos (counter # readings) h = wait_loop h (nanoTime counter h + nanos) readings"

section \<open>The timer of the local APIC\<close>

definition APIC_TIMER_INTERRUPT :: u8 where "APIC_TIMER_INTERRUPT = 0xf0"

text \<open>The timer counts while the calibration waits: \<open>currentCount\<close> is what its register holds afterwards.\<close>

definition timerTicksPer :: "u32 \<Rightarrow> Hpet \<Rightarrow> u64 list \<Rightarrow> u32 \<Rightarrow> LocalApic \<Rightarrow> (u32 \<times> LocalApic) result" where
  "timerTicksPer nanos h readings currentCount a =
     rbind (writeTimerLvt False False APIC_TIMER_INTERRUPT a) (\<lambda>a1.
     rbind (writeTimerDivideRegister APIC_DIVIDE_16 a1) (\<lambda>a2.
     rbind (writeTimerInitialCountRegister 0xffffffff a2) (\<lambda>a3.
     rbind (hpet_wait (ucast nanos) readings h) (\<lambda>rest.
     rbind (writeTimerLvt False True APIC_TIMER_INTERRUPT
              (a3\<lparr>la_file := (la_file a3)(LOCAL_APIC_TIMER_CURRENT_COUNT_REGISTER div 4 := currentCount)\<rparr>)) (\<lambda>a4.
     rbind (getTimerCurrentCount a4) (\<lambda>count. Inr ((0xffffffff - count) * 16, a4)))))))"

definition setUpTimer :: "u32 \<Rightarrow> LocalApic \<Rightarrow> LocalApic result" where
  "setUpTimer tickFrequency a =
     rbind (writeTimerLvt True False APIC_TIMER_INTERRUPT a) (\<lambda>a1.
     rbind (writeTimerDivideRegister APIC_DIVIDE_16 a1) (\<lambda>a2.
     writeTimerInitialCountRegister (tickFrequency div 16) a2))"

section \<open>Waiting\<close>

lemma nanoTime_max: "unat (nanoTime c h) \<le> 18446744073709"
proof -
  have "unat (c * hp_frequencyFemtos h) \<le> 18446744073709551615"
    using unat_u64_bound [of "c * hp_frequencyFemtos h"] by linarith
  then have "unat (c * hp_frequencyFemtos h) div 1000000 \<le> 18446744073709551615 div 1000000" by (rule div_le_mono)
  then show ?thesis by (simp add: nanoTime_def unat_div)
qed

lemma nanoTime_exact:
  "unat c * unat (hp_frequencyFemtos h) < 2 ^ 64 \<Longrightarrow> unat (nanoTime c h) = unat c * unat (hp_frequencyFemtos h) div 1000000"
  by (simp add: nanoTime_def unat_div unat_word_ariths)

lemma wait_loop_split:
  "wait_loop h e cs = (case dropWhile (\<lambda>c. nanoTime c h < e) cs of [] \<Rightarrow> Inl Diverges | c # rest \<Rightarrow> Inr rest)"
  by (induction cs) auto

definition femtos :: "u64 \<Rightarrow> Hpet \<Rightarrow> nat" where
  "femtos c h = unat c * unat (hp_frequencyFemtos h)"

lemma wait_ends:
  assumes "\<forall>c\<in>set (start # cs). femtos c h < 2 ^ 64" "femtos start h div 1000000 + unat nanos < 2 ^ 64"
  shows "hpet_wait nanos (start # cs) h =
    (case dropWhile (\<lambda>c. femtos c h div 1000000 < femtos start h div 1000000 + unat nanos) cs of
       [] \<Rightarrow> Inl Diverges | c # rest \<Rightarrow> Inr rest)"
proof -
  have "nanoTime c h < nanoTime start h + nanos \<longleftrightarrow> femtos c h div 1000000 < femtos start h div 1000000 + unat nanos"
    if "c \<in> set cs" for c
    using that assms nanoTime_exact [of start h] nanoTime_exact [of c h] unat_add_u64 [of "nanoTime start h" nanos]
    by (simp add: word_less_nat_alt femtos_def)
  then show ?thesis by (simp add: wait_loop_split cong: dropWhile_cong)
qed

lemma wait_hangs:
  assumes "18446744073709 < unat (nanoTime start h) + unat nanos" "unat (nanoTime start h) + unat nanos < 2 ^ 64"
  shows "hpet_wait nanos (start # cs) h = Inl Diverges"
proof -
  have "nanoTime c h < nanoTime start h + nanos" for c
    using nanoTime_max [of c h] assms unat_add_u64 [of "nanoTime start h" nanos] by (simp add: word_less_nat_alt)
  then show ?thesis by (simp add: wait_loop_split dropWhile_eq_Nil_conv [THEN iffD2])
qed

text \<open>
  Waiting: while the counter times the period fits in 64 bits, a wait ends exactly at the first reading whose time, in
  whole nanoseconds, is at least the asked one after the time of the first reading; but once the end lies beyond
  18446744073709 nanoseconds (about five hours after the reset) no sequence of readings ends the wait.
\<close>

theorem hpet_wait_correct:
  "((\<forall>c\<in>set (start # cs). femtos c h < 2 ^ 64) \<and> femtos start h div 1000000 + unat nanos < 2 ^ 64 \<longrightarrow>
      hpet_wait nanos (start # cs) h =
        (case dropWhile (\<lambda>c. femtos c h div 1000000 < femtos start h div 1000000 + unat nanos) cs of
           [] \<Rightarrow> Inl Diverges | c # rest \<Rightarrow> Inr rest)) \<and>
   (18446744073709 < unat (nanoTime start h) + unat nanos \<and> unat (nanoTime start h) + unat nanos < 2 ^ 64 \<longrightarrow>
      hpet_wait nanos (start # cs) h = Inl Diverges)"
  using wait_ends [of start cs h nanos] wait_hangs [of start h nanos cs] by blast

definition example_hpet :: Hpet where
  "example_hpet = \<lparr>hp_registerPointer = 0x1000, hp_frequencyFemtos = 10000000, hp_file = (\<lambda>_. 0)\<rparr>"

theorem hpet_wait_correct_witness:
  "hpet_wait 1000 [5, 50, 104, 105, 106] example_hpet = Inr [106] \<and>
   hpet_wait 18446744073709 [1, 1844674407370] example_hpet = Inl Diverges"
  using hpet_wait_correct [of 5 "[50, 104, 105, 106]" example_hpet 1000]
    hpet_wait_correct [of 1 "[1844674407370]" example_hpet 18446744073709]
  by (simp add: femtos_def example_hpet_def nanoTime_def)

section \<open>Registers\<close>

text \<open>The constructor takes the period from the capabilities, and leaves the counter at 0, running, without legacy mappings.\<close>

lemma Hpet_Hpet_starts:
  assumes "Hpet_Hpet a device l = (h, l')"
  shows "hp_frequencyFemtos h = drop_bit 32 (device 0)" "hpet_readRegister HPET_REGISTER_COUNTER h = 0"
    "bit (hpet_readRegister HPET_REGISTER_GENERAL_CONFIGURATION h) 0" "\<not> bit (hpet_readRegister HPET_REGISTER_GENERAL_CONFIGURATION h) 1"
    "Hpet_delete h l' = l"
  using assms
  by (auto simp: Hpet_Hpet_def hpet_reset_def hpet_writeRegister_def hpet_readRegister_def Hpet_delete_def Let_def
    HPET_REGISTER_COUNTER_def HPET_REGISTER_GENERAL_CAPABILITIES_def HPET_REGISTER_GENERAL_CONFIGURATION_def
    HPET_CONFIGURATION_ENABLE_BIT_def HPET_CONFIGURATION_LEGACY_BIT_def bit_simps)

text \<open>The calibration counts whole ticks of the bus, sixteen per count of the timer, modulo \<open>2 ^ 32\<close>.\<close>

lemma timerTicksPer_counts:
  assumes "la_registers a \<noteq> nullptr" "hpet_wait (ucast nanos) readings h = Inr rest"
  shows "\<exists>a'. timerTicksPer nanos h readings count a = Inr ((0xffffffff - count) * 16, a') \<and>
    bit (la_file a' (LOCAL_APIC_TIMER_LVT_REGISTER div 4)) 16"
  using assms
  by (simp add: timerTicksPer_def writeTimerLvt_def writeLvtRegister_def la_writeRegister_def writeTimerDivideRegister_def
    writeTimerInitialCountRegister_def getTimerCurrentCount_def la_readRegister_def local_apic_registers flag_def
    LOCAL_APIC_FIXED_MESSAGE_def bit_simps)

end
