(* ===== verification/Interrupts.thy ===== *)
theory Interrupts
  imports Timers Scheduler
begin

text \<open>
  Interrupt handling: the interrupt descriptor table (\<^verbatim>\<open>idt.h\<close>, \<^verbatim>\<open>interrupts.cpp\<close>), the registration and the dispatch
  of handlers (\<^verbatim>\<open>irq.h\<close>, \<^verbatim>\<open>interruptHandlers.cpp\<close>) and the legacy controller (\<^verbatim>\<open>pic.cpp\<close>, \<^verbatim>\<open>ioPorts.h\<close>). The state
  puts together the scheduler, the local APIC of the interrupted CPU, the I/O APICs and the handler table. A handler is a
  code address; what the code there does is an argument of the dispatcher. The entry points that the assembly code
  supplies (\<^verbatim>\<open>idtFunctions\<close>) are an argument of the initialisation. Port writes are kept in a log, the latest first.
\<close>

section \<open>The interrupt descriptor table\<close>

text \<open>Members that the constructor leaves uninitialised are \<open>None\<close>.\<close>

record IdtEntry =
  ie_offsetLow :: u16
  ie_gdtSelector :: u16
  ie_istEntry :: u8
  ie_type :: nat
  ie_zero :: "bool option"
  ie_privilege :: "nat option"
  ie_present :: bool
  ie_offsetMiddle :: u16
  ie_offsetHigh :: u32

definition IdtEntry_of :: "u64 \<Rightarrow> u32 \<Rightarrow> bool \<Rightarrow> IdtEntry" where
  "IdtEntry_of function istNum trap =
     (let functionPointer = function;
          low = ucast (functionPointer AND 0xFFFF);
          functionPointer = drop_bit 16 functionPointer;
          middle = ucast (functionPointer AND 0xFFFF);
          functionPointer = drop_bit 16 functionPointer
      in \<lparr>ie_offsetLow = low, ie_gdtSelector = 8, ie_istEntry = ucast istNum, ie_type = (if trap then 0xF else 0xE),
          ie_zero = None, ie_privilege = None, ie_present = True, ie_offsetMiddle = middle,
          ie_offsetHigh = ucast functionPointer\<rparr>)"

definition interrupts_init :: "(nat \<Rightarrow> u64) \<Rightarrow> IdtEntry list" where
  "interrupts_init idtFunctions = map (\<lambda>i. IdtEntry_of (idtFunctions i) 0 (i < 32)) [0..<256]"

text \<open>Where the processor transfers control.\<close>

definition gate_target :: "IdtEntry \<Rightarrow> u64" where
  "gate_target e = ucast (ie_offsetLow e) OR push_bit 16 (ucast (ie_offsetMiddle e)) OR push_bit 32 (ucast (ie_offsetHigh e))"

section \<open>The legacy controller\<close>

type_synonym port_log = "(u16 \<times> u8) list"

definition writePort8 :: "u8 \<Rightarrow> u16 \<Rightarrow> port_log \<Rightarrow> port_log" where
  "writePort8 v port l = (port, v) # l"

definition io_delay :: "port_log \<Rightarrow> port_log" where
  "io_delay = writePort8 0 0x80"

definition PIC_REMAP_BASE :: u8 where "PIC_REMAP_BASE = 0xf8"

definition disablePic :: "port_log \<Rightarrow> port_log" where
  "disablePic l =
     (let l = writePort8 0x11 0x20 l; l = writePort8 0x11 0xa0 l; l = io_delay l;
          l = writePort8 PIC_REMAP_BASE 0x21 l; l = writePort8 PIC_REMAP_BASE 0xa1 l; l = io_delay l;
          l = writePort8 4 0x21 l; l = writePort8 2 0xa1 l; l = io_delay l;
          l = writePort8 1 0x21 l; l = writePort8 1 0xa1 l; l = io_delay l;
          l = writePort8 0xff 0x21 l; l = writePort8 0xff 0xa1 l
      in io_delay l)"

section \<open>Registration of handlers\<close>

datatype IrqClass = STANDARD | LOCAL_INTERRUPT | MSI

definition MAX_IRQ_SHARING :: nat where "MAX_IRQ_SHARING = 16"

record IrqHandlerAndContext =
  ih_handler :: ptr
  ih_context :: ptr

record interrupt_machine =
  mc_kernel :: kernel
  mc_localApic :: LocalApic
  mc_apics :: apics
  mc_irqHandlers :: "IrqHandlerAndContext list list"

definition tables_ok :: "interrupt_machine \<Rightarrow> bool" where
  "tables_ok s \<longleftrightarrow> length (mc_irqHandlers s) = 256 \<and> (\<forall>t\<in>set (mc_irqHandlers s). length t = MAX_IRQ_SHARING)"

text \<open>The loop that puts a handler in the first free place, if there is one.\<close>

fun put_handler :: "IrqHandlerAndContext \<Rightarrow> IrqHandlerAndContext list \<Rightarrow> IrqHandlerAndContext list" where
  "put_handler h [] = []"
| "put_handler h (x # xs) = (if ih_handler x = nullptr then h # xs else x # put_handler h xs)"

definition irq_number :: "IrqClass \<Rightarrow> u32 \<Rightarrow> bool \<Rightarrow> bool \<Rightarrow> apics \<Rightarrow> (u32 \<times> apics) result" where
  "irq_number irqClass irq levelTriggered activeHigh s =
     (case irqClass of
        STANDARD \<Rightarrow> rbind (mapIoApicInterrupt irq (ucast (irq + IO_APIC_INTERRUPT_BASE)) levelTriggered activeHigh 0 s) (\<lambda>s1.
                      rbind (unmaskIoApicInterrupt irq s1) (\<lambda>s2. Inr (irq + IO_APIC_INTERRUPT_BASE, s2)))
      | LOCAL_INTERRUPT \<Rightarrow> Inr (irq, s)
      | MSI \<Rightarrow> Inr (irq + (IO_APIC_INTERRUPT_BASE + getGsiCount s), s))"

definition registerIrqHandlerBase :: "IrqClass \<Rightarrow> u32 \<Rightarrow> ptr \<Rightarrow> ptr \<Rightarrow> bool \<Rightarrow> bool \<Rightarrow> interrupt_machine \<Rightarrow> interrupt_machine result" where
  "registerIrqHandlerBase irqClass irq handler ctx levelTriggered activeHigh s =
     rbind (irq_number irqClass irq levelTriggered activeHigh (mc_apics s)) (\<lambda>(irq, a).
       if irq \<ge> 256 then Inl (Panic ''IRQ out of range'')
       else Inr (s\<lparr>mc_apics := a,
                   mc_irqHandlers := (mc_irqHandlers s)[unat irq :=
                     put_handler \<lparr>ih_handler = handler, ih_context = ctx\<rparr> (mc_irqHandlers s ! unat irq)]\<rparr>))"

section \<open>Dispatch\<close>

definition PROCESSOR_CALLBACK_INTERRUPT :: u8 where "PROCESSOR_CALLBACK_INTERRUPT = 0xfe"

definition on_localApic :: "(LocalApic \<Rightarrow> LocalApic result) \<Rightarrow> interrupt_machine \<Rightarrow> interrupt_machine result" where
  "on_localApic f s = rbind (f (mc_localApic s)) (\<lambda>a. Inr (s\<lparr>mc_localApic := a\<rparr>))"

definition on_kernel :: "(kernel \<Rightarrow> (control \<times> kernel) result) \<Rightarrow> interrupt_machine \<Rightarrow> (control \<times> interrupt_machine) result" where
  "on_kernel f s = rbind (f (mc_kernel s)) (\<lambda>(ctl, k). Inr (ctl, s\<lparr>mc_kernel := k\<rparr>))"

text \<open>The loop over the handlers of an interrupt, from place \<open>i\<close>, with the places still to visit.\<close>

fun run_handlers :: "(ptr \<Rightarrow> ptr \<Rightarrow> interrupt_machine \<Rightarrow> interrupt_machine result) \<Rightarrow> nat \<Rightarrow> nat \<Rightarrow> nat \<Rightarrow> interrupt_machine \<Rightarrow> interrupt_machine result" where
  "run_handlers code n i 0 s = Inr s"
| "run_handlers code n i (Suc left) s =
     (let h = mc_irqHandlers s ! n ! i
      in if ih_handler h \<noteq> nullptr
         then rbind (code (ih_handler h) (ih_context h) s) (run_handlers code n (Suc i) left)
         else Inr s)"

definition handleInterrupt ::
  "nat \<Rightarrow> (kernel \<Rightarrow> (control \<times> kernel) result) \<Rightarrow> (ptr \<Rightarrow> ptr \<Rightarrow> interrupt_machine \<Rightarrow> interrupt_machine result) \<Rightarrow> u8 \<Rightarrow> interrupt_machine \<Rightarrow>
    (control \<times> interrupt_machine) result" where
  "handleInterrupt c callback code interruptNumber s =
     (if interruptNumber = APIC_TIMER_INTERRUPT then rbind (on_localApic eoi s) (on_kernel (tick c))
      else if interruptNumber = PROCESSOR_CALLBACK_INTERRUPT then rbind (on_localApic eoi s) (on_kernel (receiveCall c callback))
      else rbind (run_handlers code (unat interruptNumber) 0 MAX_IRQ_SHARING s) (\<lambda>s1.
             rbind (inService interruptNumber (mc_localApic s1)) (\<lambda>b.
             rbind (if b then on_localApic eoi s1 else Inr s1) (\<lambda>s2. Inr (Returned, s2)))))"

section \<open>Gates\<close>

lemma gate_target_entry: "gate_target (IdtEntry_of f ist trap) = f"
proof -
  have "(0xFFFF :: u64) = mask 16" by (simp add: mask_eq_exp_minus_1)
  then have "gate_target (IdtEntry_of f ist trap) =
      ucast (ucast (f AND mask 16) :: u16) OR push_bit 16 (ucast (ucast (drop_bit 16 f AND mask 16) :: u16)) OR
      push_bit 32 (ucast (ucast (drop_bit 16 (drop_bit 16 f)) :: u32))"
    by (simp add: gate_target_def IdtEntry_of_def Let_def)
  also have "\<dots> = f"
  proof (rule bit_word_eqI)
    fix n assume "n < LENGTH(64)"
    then consider "n < 16" | "16 \<le> n" "n < 32" | "32 \<le> n" "n < 64" by fastforce
    then show "bit (ucast (ucast (f AND mask 16) :: u16) OR push_bit 16 (ucast (ucast (drop_bit 16 f AND mask 16) :: u16)) OR
        push_bit 32 (ucast (ucast (drop_bit 16 (drop_bit 16 f)) :: u32)) :: u64) n = bit f n"
      by cases (auto simp: bit_simps)
  qed
  finally show ?thesis .
qed

section \<open>The handler table\<close>

text \<open>The handlers that the dispatcher finds for an interrupt, and that a table has no gaps.\<close>

definition registered :: "IrqHandlerAndContext list \<Rightarrow> IrqHandlerAndContext list" where
  "registered t = takeWhile (\<lambda>h. ih_handler h \<noteq> nullptr) t"

fun no_gap :: "IrqHandlerAndContext list \<Rightarrow> bool" where
  "no_gap [] = True"
| "no_gap (x # xs) = (if ih_handler x = nullptr then \<forall>y\<in>set xs. ih_handler y = nullptr else no_gap xs)"

lemma all_free:
  assumes "\<forall>y\<in>set xs. ih_handler y = nullptr"
  shows "registered xs = []" "no_gap xs"
  using assms by (cases xs, simp_all add: registered_def)+

lemma length_put_handler [simp]: "length (put_handler h t) = length t"
  by (induction t) auto

lemma put_handler_registered:
  assumes "ih_handler h \<noteq> nullptr" "no_gap t"
  shows "registered (put_handler h t) = take (length t) (registered t @ [h]) \<and> no_gap (put_handler h t)"
  using assms
proof (induction t)
  case (Cons x t)
  show ?case
  proof (cases "ih_handler x = nullptr")
    case True
    with Cons.prems all_free [of t] show ?thesis by (simp add: registered_def)
  next
    case False
    with Cons show ?thesis by (simp add: registered_def)
  qed
qed (simp add: registered_def)

lemma run_handlers_drop:
  assumes "\<And>h x s s'. code h x s = Inr s' \<Longrightarrow> mc_irqHandlers s' = mc_irqHandlers s"
    "i + left = length (mc_irqHandlers s ! n)"
  shows "run_handlers code n i left s =
    for_each (\<lambda>h. code (ih_handler h) (ih_context h)) (registered (drop i (mc_irqHandlers s ! n))) s"
  using assms(2)
proof (induction left arbitrary: i s)
  case (Suc left)
  let ?t = "mc_irqHandlers s ! n"
  have d: "drop i ?t = ?t ! i # drop (Suc i) ?t" using Suc.prems by (simp add: Cons_nth_drop_Suc)
  show ?case
  proof (cases "code (ih_handler (?t ! i)) (ih_context (?t ! i)) s")
    case (Inr s')
    with assms(1) have "mc_irqHandlers s' = mc_irqHandlers s" by blast
    with Suc Inr d show ?thesis by (simp add: registered_def Let_def)
  qed (simp add: d registered_def Let_def)
qed (simp add: registered_def)

definition handlers_of :: "nat \<Rightarrow> interrupt_machine \<Rightarrow> IrqHandlerAndContext list" where
  "handlers_of n s = registered (mc_irqHandlers s ! n)"

definition irq_inv :: "interrupt_machine \<Rightarrow> bool" where
  "irq_inv s \<longleftrightarrow> tables_ok s \<and> (\<forall>t\<in>set (mc_irqHandlers s). no_gap t)"

lemma put_in_table:
  assumes "irq_inv s" "ih_handler h \<noteq> nullptr" "n < 256"
    "s' = s\<lparr>mc_apics := a, mc_irqHandlers := (mc_irqHandlers s)[n := put_handler h (mc_irqHandlers s ! n)]\<rparr>"
  shows "irq_inv s'" "handlers_of n s' = take 16 (handlers_of n s @ [h])" "\<forall>m. m \<noteq> n \<longrightarrow> handlers_of m s' = handlers_of m s"
proof -
  from assms(1,3) have "n < length (mc_irqHandlers s)" by (simp add: irq_inv_def tables_ok_def)
  moreover from this have "no_gap (mc_irqHandlers s ! n)" "length (mc_irqHandlers s ! n) = 16"
    using assms(1) by (auto simp: irq_inv_def tables_ok_def MAX_IRQ_SHARING_def)
  ultimately show "irq_inv s'" "handlers_of n s' = take 16 (handlers_of n s @ [h])"
    "\<forall>m. m \<noteq> n \<longrightarrow> handlers_of m s' = handlers_of m s"
    using assms(1,2) put_handler_registered [of h "mc_irqHandlers s ! n"]
    by (auto simp: assms(4) irq_inv_def tables_ok_def handlers_of_def MAX_IRQ_SHARING_def
      dest!: subsetD [OF set_update_subset_insert])
qed

section \<open>Device interrupts\<close>

lemma standard_irq_number:
  assumes "ranges_ok (ap_ioApicCount s) s" "j < ap_ioApicCount s" "handles irq (ap_ioApics s ! j)" "0 < length (ap_localApicIds s)"
  shows "irq_number STANDARD irq level high s =
    (let a = ap_ioApics s ! j; pin = irq - ia_gsiBase a
     in Inr (irq + 0x20, unmaskGsi (ia_base a) pin
               (mapGsi (ia_base a) pin (ucast (ucast (irq + 0x20) :: u8)) level high (ap_localApicIds s ! 0) s)))"
proof -
  let ?a = "ap_ioApics s ! j"
  let ?s = "mapGsi (ia_base ?a) (irq - ia_gsiBase ?a) (ucast (ucast (irq + 0x20) :: u8)) level high (ap_localApicIds s ! 0) s"
  have "ranges_ok (ap_ioApicCount ?s) ?s" using assms(1) by (simp add: ranges_ok_def gsi_start_def gsi_keeps)
  from with_io_apic_routed [OF this, of j irq] assms(2,3)
  have "unmaskIoApicInterrupt irq ?s = Inr (unmaskGsi (ia_base ?a) (irq - ia_gsiBase ?a) ?s)"
    by (simp add: unmaskIoApicInterrupt_def gsi_keeps)
  moreover have "mapIoApicInterrupt irq (ucast (irq + 0x20)) level high 0 s = Inr ?s"
    using with_io_apic_routed [OF assms(1-3)] assms(4) by (simp add: mapIoApicInterrupt_def)
  ultimately show ?thesis by (simp add: irq_number_def IO_APIC_INTERRUPT_BASE_def Let_def)
qed

lemma bit_reset_entry: "bit (0x10000 :: u32) n \<longleftrightarrow> n = 16"
proof -
  have "bit (2 ^ 16 :: u32) n \<longleftrightarrow> n = 16" by (auto simp only: bit_exp_iff possible_bit_word) simp
  then show ?thesis by simp
qed

lemma unmasked_entry:
  fixes v :: u8
  assumes "e = unset_bit 16 (0x10000 OR ucast v OR push_bit 15 (flag level) OR push_bit 13 (flag (\<not> high)))"
  shows "e AND 0xff = ucast v" "bit e 15 \<longleftrightarrow> level" "bit e 13 \<longleftrightarrow> \<not> high" "\<not> bit e 16"
proof -
  define x :: u32 where "x = 0x10000"
  then have x: "bit x n \<longleftrightarrow> n = 16" for n using bit_reset_entry by blast
  have e: "e = unset_bit 16 (x OR ucast v OR push_bit 15 (flag level) OR push_bit 13 (flag (\<not> high)))"
    using assms x_def by simp
  have "e AND mask 8 = ucast v"
    by (rule bit_word_eqI) (auto simp: e bit_simps x dest: bit_imp_le_length)
  then show "e AND 0xff = ucast v" by (simp add: mask_eq_exp_minus_1)
  show "bit e 15 \<longleftrightarrow> level" "bit e 13 \<longleftrightarrow> \<not> high" "\<not> bit e 16"
    by (auto simp: e bit_simps x flag_def dest: bit_imp_le_length)
qed

section \<open>Properties\<close>


text \<open>
  Dispatch (C29): an interrupt other than the timer's and the processor call's runs the handlers registered for its number,
  each once and in the order of registration, and then signals the end of the interrupt exactly when the local APIC has it
  in service. The handlers may do anything but change the handler tables.
\<close>

theorem interrupt_dispatch:
  assumes "irq_inv s" "n \<noteq> APIC_TIMER_INTERRUPT" "n \<noteq> PROCESSOR_CALLBACK_INTERRUPT"
    and "\<forall>h x s s'. code h x s = Inr s' \<longrightarrow> mc_irqHandlers s' = mc_irqHandlers s"
  shows "handleInterrupt c callback code n s =
    rbind (for_each (\<lambda>h. code (ih_handler h) (ih_context h)) (handlers_of (unat n) s) s) (\<lambda>s1.
    rbind (inService n (mc_localApic s1)) (\<lambda>b.
    rbind (if b then on_localApic eoi s1 else Inr s1) (\<lambda>s2. Inr (Returned, s2))))"
proof -
  have "unat n < 256" using unsigned_less [of n, where 'a = nat] by simp
  with assms(1) have "length (mc_irqHandlers s ! unat n) = MAX_IRQ_SHARING" by (simp add: irq_inv_def tables_ok_def)
  with run_handlers_drop [of code 0 MAX_IRQ_SHARING s "unat n"] assms(4)
  have "run_handlers code (unat n) 0 MAX_IRQ_SHARING s =
      for_each (\<lambda>h. code (ih_handler h) (ih_context h)) (handlers_of (unat n) s) s"
    by (simp add: handlers_of_def)
  with assms(2,3) show ?thesis by (simp add: handleInterrupt_def)
qed

definition example_handlers :: "nat \<Rightarrow> IrqHandlerAndContext list list" where
  "example_handlers k = replicate 256 (replicate k \<lparr>ih_handler = 0x5000, ih_context = 0\<rparr> @ replicate (16 - k) \<lparr>ih_handler = 0, ih_context = 0\<rparr>)"

definition example_machine :: "nat \<Rightarrow> interrupt_machine" where
  "example_machine k = \<lparr>mc_kernel = example_kernel 0x1000 [0x2000],
     mc_localApic = \<lparr>la_registers = 0x9000, la_file = (\<lambda>r. if r = 68 then 2 else 0), la_writes = []\<rparr>,
     mc_apics = example_apics, mc_irqHandlers = example_handlers k\<rparr>"

lemma no_gap_replicate: "h \<noteq> nullptr \<Longrightarrow>
    no_gap (replicate k \<lparr>ih_handler = h, ih_context = c\<rparr> @ replicate j \<lparr>ih_handler = nullptr, ih_context = d\<rparr>) \<and>
    registered (replicate k \<lparr>ih_handler = h, ih_context = c\<rparr> @ replicate j \<lparr>ih_handler = nullptr, ih_context = d\<rparr>) =
      replicate k \<lparr>ih_handler = h, ih_context = c\<rparr>"
proof (induction k)
  case 0
  then show ?case by (cases j) (simp_all add: registered_def)
qed (simp add: registered_def)

lemma replicate_2: "replicate 2 x = [x, x]"
  by (simp add: numeral_2_eq_2)

lemma example_machine_ok:
  "k \<le> 16 \<Longrightarrow> irq_inv (example_machine k)"
  "n < 256 \<Longrightarrow> handlers_of n (example_machine k) = replicate k \<lparr>ih_handler = 0x5000, ih_context = 0\<rparr>"
  using no_gap_replicate [of "0x5000" k 0 "16 - k" 0]
  by (auto simp: irq_inv_def tables_ok_def example_machine_def example_handlers_def handlers_of_def MAX_IRQ_SHARING_def)

lemma example_gsis: "getGsiCount (mc_apics (example_machine k)) = 0"
  by (simp add: example_machine_def example_apics_def getGsiCount_def)


definition logging_code :: "ptr \<Rightarrow> ptr \<Rightarrow> interrupt_machine \<Rightarrow> interrupt_machine result" where
  "logging_code h x s = Inr (s\<lparr>mc_localApic := (mc_localApic s)\<lparr>la_writes := (0, ucast h) # la_writes (mc_localApic s)\<rparr>\<rparr>)"

theorem interrupt_dispatch_witness:
  "\<exists>s'. handleInterrupt 0 (\<lambda>k. Inr (Returned, k)) logging_code 33 (example_machine 2) = Inr (Returned, s') \<and>
     la_writes (mc_localApic s') = [(0xb0, 0), (0, 0x5000), (0, 0x5000)]"
proof -
  have "\<forall>h x s s'. logging_code h x s = Inr s' \<longrightarrow> mc_irqHandlers s' = mc_irqHandlers s"
    by (auto simp: logging_code_def)
  moreover have "handlers_of (unat (33 :: u8)) (example_machine 2) =
      [\<lparr>ih_handler = 0x5000, ih_context = 0\<rparr>, \<lparr>ih_handler = 0x5000, ih_context = 0\<rparr>]"
    by (simp add: example_machine_ok(2) replicate_2)
  moreover have "irq_inv (example_machine 2)" "(33 :: u8) \<noteq> APIC_TIMER_INTERRUPT" "(33 :: u8) \<noteq> PROCESSOR_CALLBACK_INTERRUPT"
    by (simp_all add: example_machine_ok(1) APIC_TIMER_INTERRUPT_def PROCESSOR_CALLBACK_INTERRUPT_def)
  ultimately show ?thesis
    by (subst interrupt_dispatch) (assumption, assumption, assumption, assumption, simp add: logging_code_def inService_def
      la_readRegister_def on_localApic_def eoi_def la_writeRegister_def local_apic_registers example_machine_def)
qed

text \<open>
  The descriptor table: the gate of every one of the 256 vectors is present, leads to the entry point supplied for it,
  and is a trap gate for the 32 exceptions and an interrupt gate otherwise.
\<close>

theorem idt_gates:
  assumes "i < 256"
  shows "gate_target (interrupts_init f ! i) = f i \<and> ie_present (interrupts_init f ! i) \<and>
    ie_type (interrupts_init f ! i) = (if i < 32 then 0xF else 0xE) \<and> length (interrupts_init f) = 256"
  using assms by (simp add: interrupts_init_def gate_target_entry) (simp add: IdtEntry_of_def Let_def)

theorem idt_gates_witness:
  "gate_target (interrupts_init (\<lambda>i. 0xFFFFFFFF80000000 + of_nat i * 16) ! 33) = 0xFFFFFFFF80000210"
  using idt_gates [of 33 "\<lambda>i. 0xFFFFFFFF80000000 + of_nat i * 16"] by simp

text \<open>The last write to each data port of the legacy controller masks all its lines, after its vectors moved to 0xf8.\<close>

lemma disablePic_masks:
  "map_of (disablePic l) 0x21 = Some 0xff \<and> map_of (disablePic l) 0xa1 = Some 0xff"
  by (simp add: disablePic_def writePort8_def io_delay_def Let_def)

end
