(* ===== verification/Memory_Block.thy ===== *)
theory Memory_Block
  imports Spin_Lock
begin

text \<open>
  The free-block map behind both the physical and the virtual memory allocator:
  \<^verbatim>\<open>include/mykonos/memoryBlock.h\<close> and \<^verbatim>\<open>memory/memoryBlock.cpp\<close>. A map is an array of 256 blocks of
  which the first \<^verbatim>\<open>numBlocks\<close> are live. Its meaning is the number of live blocks that contain an
  address (\<open>cover\<close>); a well-formed map covers no address twice, and then \<open>free_set\<close>, the set of
  covered addresses, is what the allocator may hand out.
\<close>

section \<open>Blocks\<close>

record block =
  b_start :: ptr
  b_end :: ptr

definition Block :: "ptr \<Rightarrow> ptr \<Rightarrow> block" where
  "Block s e = \<lparr>b_start = s, b_end = e\<rparr>"

definition emptyBlock :: block where
  "emptyBlock = \<lparr>b_start = nullptr, b_end = nullptr\<rparr>"

definition capacity :: "block \<Rightarrow> u64" where
  "capacity b = b_end b - b_start b"

definition Block_reserve :: "u64 \<Rightarrow> block \<Rightarrow> ptr \<times> block" where
  "Block_reserve amount b =
     (if capacity b \<ge> amount
      then (b_start b, b\<lparr>b_start := b_start b + amount\<rparr>)
      else (nullptr, b))"

definition addToBeginning :: "u64 \<Rightarrow> block \<Rightarrow> block" where
  "addToBeginning amount b = b\<lparr>b_start := b_start b - amount\<rparr>"

definition addToEnd :: "u64 \<Rightarrow> block \<Rightarrow> block" where
  "addToEnd amount b = b\<lparr>b_end := b_end b + amount\<rparr>"

section \<open>The map and its operations\<close>

definition BLOCKMAP_SIZE :: nat where
  "BLOCKMAP_SIZE = 256"

record blockmap =
  blocks :: "block list"  \<comment> \<open>the C array: always 256 entries\<close>
  numBlocks :: nat
  bm_lock :: spinlock

definition blockmap_init :: blockmap where
  "blockmap_init =
     \<lparr>blocks = replicate BLOCKMAP_SIZE emptyBlock, numBlocks = 0, bm_lock = spinlock_init\<rparr>"

text \<open>The search of \<^verbatim>\<open>merge\<close> for a neighbour of \<open>t\<close> among the \<open>n\<close> blocks kept so far, from index \<open>j\<close>.\<close>

function mergeInto :: "block \<Rightarrow> nat \<Rightarrow> nat \<Rightarrow> block list \<Rightarrow> block list option" where
  "mergeInto t j n bs =
     (if j < n then
        if b_start (bs ! j) = b_end t then Some (bs[j := (bs ! j)\<lparr>b_start := b_start t\<rparr>])
        else if b_end (bs ! j) = b_start t then Some (bs[j := (bs ! j)\<lparr>b_end := b_end t\<rparr>])
        else mergeInto t (Suc j) n bs
      else None)"
  by pat_completeness auto
termination
  by (relation "measure (\<lambda>(t, j, n, bs). n - j)") auto

declare mergeInto.simps [simp del]

fun mergeLoop :: "block list \<Rightarrow> block list \<times> nat \<Rightarrow> block list \<times> nat" where
  "mergeLoop [] (bs, n) = (bs, n)"
| "mergeLoop (t # temp) (bs, n) =
     (if capacity t = 0 then mergeLoop temp (bs, n)
      else case mergeInto t 0 n bs of
             Some bs' \<Rightarrow> mergeLoop temp (bs', n)
           | None \<Rightarrow> mergeLoop temp (bs[n := t], Suc n))"

definition merge :: "blockmap \<Rightarrow> blockmap" where
  "merge m =
     (let temp = take (numBlocks m) (blocks m);
          (bs, n) = mergeLoop temp (blocks m, 0)
      in m\<lparr>blocks := bs, numBlocks := n\<rparr>)"

definition appendBlock :: "block \<Rightarrow> blockmap \<Rightarrow> blockmap" where
  "appendBlock b m = m\<lparr>blocks := (blocks m)[numBlocks m := b], numBlocks := Suc (numBlocks m)\<rparr>"

text \<open>The part of \<^verbatim>\<open>addBlock\<close> that runs under the lock.\<close>

definition addBlockBody :: "block \<Rightarrow> blockmap \<Rightarrow> blockmap" where
  "addBlockBody b m =
     (if numBlocks m < BLOCKMAP_SIZE then appendBlock b m
      else (let m1 = merge m
            in if numBlocks m1 < BLOCKMAP_SIZE then appendBlock b m1 else m1))"

text \<open>\<^verbatim>\<open>addBlock(block, false)\<close>, as \<^verbatim>\<open>reserve\<close> calls it with the lock already held.\<close>

definition addBlockLocked :: "block \<Rightarrow> blockmap \<Rightarrow> blockmap" where
  "addBlockLocked b m = (if capacity b > 0 then addBlockBody b m else m)"

abbreviation bm_section :: "(blockmap \<Rightarrow> 'r \<times> blockmap) \<Rightarrow> bool \<times> blockmap \<Rightarrow> ('r \<times> bool \<times> blockmap) result" where
  "bm_section \<equiv> under_lock bm_lock (\<lambda>l. bm_lock_update (\<lambda>_. l))"

text \<open>\<^verbatim>\<open>addBlock(block)\<close>, that is \<^verbatim>\<open>addBlock(block, true)\<close>.\<close>

definition addBlock :: "block \<Rightarrow> bool \<times> blockmap \<Rightarrow> (unit \<times> bool \<times> blockmap) result" where
  "addBlock b s =
     (if capacity b > 0 then bm_section (\<lambda>m. ((), addBlockBody b m)) s else Inr ((), s))"

text \<open>First fit.\<close>

function allocateLoop :: "u64 \<Rightarrow> nat \<Rightarrow> blockmap \<Rightarrow> ptr \<times> blockmap" where
  "allocateLoop amount i m =
     (if i < numBlocks m then
        if capacity (blocks m ! i) \<ge> amount then
          (let (result, b) = Block_reserve amount (blocks m ! i)
           in (result, m\<lparr>blocks := (blocks m)[i := b]\<rparr>))
        else allocateLoop amount (Suc i) m
      else (nullptr, m))"
  by pat_completeness auto
termination
  by (relation "measure (\<lambda>(amount, i, m). numBlocks m - i)") auto

declare allocateLoop.simps [simp del]

definition allocate :: "u64 \<Rightarrow> bool \<times> blockmap \<Rightarrow> (ptr \<times> bool \<times> blockmap) result" where
  "allocate amount = bm_section (allocateLoop amount 0)"

definition returnMemory :: "ptr \<Rightarrow> u64 \<Rightarrow> bool \<times> blockmap \<Rightarrow> (unit \<times> bool \<times> blockmap) result" where
  "returnMemory p amount = addBlock (Block p (p + amount))"

definition clear :: "bool \<times> blockmap \<Rightarrow> (unit \<times> bool \<times> blockmap) result" where
  "clear = bm_section (\<lambda>m. ((), m\<lparr>numBlocks := 0\<rparr>))"

text \<open>The body of the loop of \<^verbatim>\<open>reserve\<close> for the block at index \<open>i\<close>.\<close>

definition reserveStep :: "block \<Rightarrow> nat \<Rightarrow> blockmap \<Rightarrow> blockmap" where
  "reserveStep r i m =
     (let currentStart = b_start (blocks m ! i);
          currentEnd = b_end (blocks m ! i);
          put = (\<lambda>b. m\<lparr>blocks := (blocks m)[i := b]\<rparr>)
      in if currentStart \<ge> b_end r then m
         else if currentEnd \<le> b_start r then m
         else if currentStart \<ge> b_start r \<and> currentEnd \<le> b_end r then put emptyBlock
         else if currentStart \<ge> b_start r then put ((blocks m ! i)\<lparr>b_start := b_end r\<rparr>)
         else if currentEnd \<le> b_end r then put ((blocks m ! i)\<lparr>b_end := b_start r\<rparr>)
         else addBlockLocked (Block (b_end r) currentEnd)
                (addBlockLocked (Block currentStart (b_start r)) (put emptyBlock)))"

lemma length_mergeInto: "mergeInto t j n bs = Some bs' \<Longrightarrow> length bs' = length bs"
  by (induction t j n bs rule: mergeInto.induct) (subst (asm) (2) mergeInto.simps, auto split: if_splits)

lemma mergeLoop_count: "snd (mergeLoop temp (bs, n)) \<le> n + length temp"
proof (induction temp arbitrary: bs n)
  case (Cons t temp)
  have "snd (mergeLoop temp (bs', n)) \<le> Suc (n + length temp)" for bs'
    using Cons.IH [of bs' n] by simp
  with Cons.IH [of _ "Suc n"] show ?case by (auto split: option.split)
qed simp

lemma numBlocks_merge: "numBlocks (merge m) \<le> numBlocks m"
  using mergeLoop_count [of "take (numBlocks m) (blocks m)" "blocks m" 0]
  by (auto simp: merge_def Let_def split: prod.splits)

lemma numBlocks_addBlockLocked: "numBlocks (addBlockLocked b m) \<le> max (numBlocks m) BLOCKMAP_SIZE"
  using numBlocks_merge [of m]
  by (auto simp: addBlockLocked_def addBlockBody_def appendBlock_def Let_def)

lemma numBlocks_reserveStep: "numBlocks (reserveStep r i m) \<le> max (numBlocks m) BLOCKMAP_SIZE"
proof -
  have "numBlocks (addBlockLocked b (addBlockLocked b' m')) \<le> max (numBlocks m') BLOCKMAP_SIZE" for b b' m'
    using numBlocks_addBlockLocked [of b "addBlockLocked b' m'"] numBlocks_addBlockLocked [of b' m'] by simp
  note this [of _ _ "m\<lparr>blocks := (blocks m)[i := emptyBlock]\<rparr>"]
  then show ?thesis by (auto simp: reserveStep_def Let_def)
qed

text \<open>
  The loop of \<^verbatim>\<open>reserve\<close> reads \<^verbatim>\<open>numBlocks\<close> afresh at every turn, and splitting a block raises it; it
  ends because \<^verbatim>\<open>numBlocks\<close> never passes the array's size.
\<close>

function reserveLoop :: "block \<Rightarrow> nat \<Rightarrow> blockmap \<Rightarrow> blockmap" where
  "reserveLoop r i m =
     (if i < numBlocks m then reserveLoop r (Suc i) (reserveStep r i m) else m)"
  by pat_completeness auto
termination
proof (relation "measure (\<lambda>(r, i, m). max (numBlocks m) BLOCKMAP_SIZE - i)")
  fix r :: block and i and m :: blockmap
  assume "i < numBlocks m"
  with numBlocks_reserveStep [of r i m]
  show "((r, Suc i, reserveStep r i m), (r, i, m)) \<in> measure (\<lambda>(r, i, m). max (numBlocks m) BLOCKMAP_SIZE - i)"
    by auto
qed simp

declare reserveLoop.simps [simp del]

definition reserve :: "block \<Rightarrow> bool \<times> blockmap \<Rightarrow> (unit \<times> bool \<times> blockmap) result" where
  "reserve r = bm_section (\<lambda>m. ((), reserveLoop r 0 (merge m)))"

section \<open>What a map means\<close>

definition bytes :: "block \<Rightarrow> nat set" where
  "bytes b = {unat (b_start b)..<unat (b_end b)}"

definition wf_block :: "block \<Rightarrow> bool" where
  "wf_block b \<longleftrightarrow> b_start b \<le> b_end b"

definition cover :: "block list \<Rightarrow> nat \<Rightarrow> nat" where
  "cover bs a = sum_list (map (\<lambda>b. of_bool (a \<in> bytes b)) bs)"

definition live :: "blockmap \<Rightarrow> block list" where
  "live m = take (numBlocks m) (blocks m)"

definition bm_wf :: "blockmap \<Rightarrow> bool" where
  "bm_wf m \<longleftrightarrow> length (blocks m) = BLOCKMAP_SIZE \<and> numBlocks m \<le> BLOCKMAP_SIZE \<and>
             (\<forall>b \<in> set (live m). wf_block b)"

definition bm_disjoint :: "blockmap \<Rightarrow> bool" where
  "bm_disjoint m \<longleftrightarrow> (\<forall>a. cover (live m) a \<le> 1)"

definition bm_inv :: "blockmap \<Rightarrow> bool" where
  "bm_inv m \<longleftrightarrow> bm_wf m \<and> bm_disjoint m \<and> \<not> locked (bm_lock m)"

definition free_set :: "blockmap \<Rightarrow> nat set" where
  "free_set m = {a. 0 < cover (live m) a}"

lemma cover_simps [cover_simps, simp]:
  "cover [] a = 0"
  "cover (b # bs) a = of_bool (a \<in> bytes b) + cover bs a"
  "cover (bs @ cs) a = cover bs a + cover cs a"
  by (simp_all add: cover_def)

lemma cover_update:
  "k < length bs \<Longrightarrow>
     cover (bs[k := b]) a + of_bool (a \<in> bytes (bs ! k)) = cover bs a + of_bool (a \<in> bytes b)"
  unfolding cover_def by (rule sum_list_update_nat)

lemma cover_member: "b \<in> set bs \<Longrightarrow> a \<in> bytes b \<Longrightarrow> 0 < cover bs a"
  by (induction bs) auto

lemma cover_zero_iff: "cover bs a = 0 \<longleftrightarrow> (\<forall>b \<in> set bs. a \<notin> bytes b)"
  by (induction bs) auto

lemma cover_pos_iff: "0 < cover bs a \<longleftrightarrow> (\<exists>b \<in> set bs. a \<in> bytes b)"
  by (induction bs) auto

lemma free_set_alt: "free_set m = (\<Union>b \<in> set (live m). bytes b)"
  by (auto simp: free_set_def cover_pos_iff)

lemma bytes_emptyBlock [simp]: "bytes emptyBlock = {}" "wf_block emptyBlock"
  by (simp_all add: bytes_def emptyBlock_def wf_block_def)

lemma bytes_Block [simp]: "bytes (Block s e) = {unat s..<unat e}" "wf_block (Block s e) = (s \<le> e)"
  by (simp_all add: bytes_def Block_def wf_block_def)

lemma wf_block_unat: "wf_block b \<longleftrightarrow> unat (b_start b) \<le> unat (b_end b)"
  by (simp add: wf_block_def word_le_nat_alt)

lemma unat_capacity: "wf_block b \<Longrightarrow> unat (capacity b) = unat (b_end b) - unat (b_start b)"
  by (simp add: wf_block_def capacity_def unat_sub)

lemma capacity_zero: "capacity b = 0 \<Longrightarrow> bytes b = {}"
  by (simp add: capacity_def bytes_def)

lemma mergeInto_Some:
  "mergeInto t j n bs = Some bs' \<Longrightarrow>
     \<exists>k c. k < n \<and> bs' = bs[k := c] \<and>
       (b_start (bs ! k) = b_end t \<and> c = (bs ! k)\<lparr>b_start := b_start t\<rparr> \<or>
        b_end (bs ! k) = b_start t \<and> c = (bs ! k)\<lparr>b_end := b_end t\<rparr>)"
proof (induction t j n bs rule: mergeInto.induct)
  case (1 t j n bs)
  show ?case
  proof (cases "j < n \<and> b_start (bs ! j) \<noteq> b_end t \<and> b_end (bs ! j) \<noteq> b_start t")
    case True
    with "1.prems" have "mergeInto t (Suc j) n bs = Some bs'"
      by (simp add: mergeInto.simps [of t j n bs])
    with "1.IH" True show ?thesis by blast
  next
    case False
    with "1.prems" show ?thesis
      by (auto simp: mergeInto.simps [of t j n bs] split: if_splits)
  qed
qed

text \<open>Joining two adjacent blocks adds up what they contain.\<close>

lemma join_blocks:
  assumes "wf_block t" and "wf_block b"
    and "b_start b = b_end t \<and> c = b\<lparr>b_start := b_start t\<rparr> \<or>
         b_end b = b_start t \<and> c = b\<lparr>b_end := b_end t\<rparr>"
  shows "wf_block c"
    and "(of_bool (a \<in> bytes c) :: nat) = of_bool (a \<in> bytes b) + of_bool (a \<in> bytes t)"
  using assms by (auto simp: wf_block_unat bytes_def)

section \<open>Merging keeps the meaning\<close>

lemma cover_take_update:
  assumes "k < n" and "n \<le> length bs"
    and "(of_bool (a \<in> bytes c) :: nat) = of_bool (a \<in> bytes (bs ! k)) + of_bool (a \<in> bytes t)"
  shows "cover (take n (bs[k := c])) a = cover (take n bs) a + of_bool (a \<in> bytes t)"
  using assms cover_update [of k "take n bs" c a] by (simp add: take_update_swap)

lemma mergeLoop_correct:
  assumes "n + length temp \<le> length bs"
    and "\<forall>b \<in> set (take n bs @ temp). wf_block b"
    and "mergeLoop temp (bs, n) = (bs', n')"
  shows "length bs' = length bs \<and> n' \<le> n + length temp \<and> (\<forall>b \<in> set (take n' bs'). wf_block b) \<and>
         cover (take n' bs') = cover (take n bs @ temp)"
  using assms
proof (induction temp arbitrary: bs n)
  case Nil
  then show ?case by auto
next
  case (Cons t temp)
  show ?case
  proof (cases "capacity t = 0")
    case True
    then have "cover (take n bs @ temp) = cover (take n bs @ t # temp)"
      by (simp add: fun_eq_iff capacity_zero)
    with True Cons.prems Cons.IH [of n bs] show ?thesis by simp
  next
    case cap: False
    show ?thesis
    proof (cases "mergeInto t 0 n bs")
      case None
      with Cons.prems(3) cap have run: "mergeLoop temp (bs[n := t], Suc n) = (bs', n')" by simp
      have "take (Suc n) (bs[n := t]) = take n bs @ [t]" using Cons.prems(1) by simp
      with Cons.IH [OF _ _ run] Cons.prems(1,2) show ?thesis by simp
    next
      case (Some bs1)
      from mergeInto_Some [OF this] obtain k c where k: "k < n" "bs1 = bs[k := c]"
        and c: "b_start (bs ! k) = b_end t \<and> c = (bs ! k)\<lparr>b_start := b_start t\<rparr> \<or>
                b_end (bs ! k) = b_start t \<and> c = (bs ! k)\<lparr>b_end := b_end t\<rparr>" by blast
      have nb: "n \<le> length bs" using Cons.prems(1) by simp
      have wf: "wf_block t" "wf_block (bs ! k)"
        using Cons.prems(2) nth_mem_take [OF k(1) nb] by auto
      note join = join_blocks [OF wf c]
      have "\<forall>b \<in> set (take n bs1 @ temp). wf_block b"
        using Cons.prems(2) join(1) k nb
        by (auto simp: take_update_swap dest!: set_update_subset_insert [THEN subsetD])
      moreover have "cover (take n bs1 @ temp) = cover (take n bs @ t # temp)"
        using cover_take_update [OF k(1) nb join(2)] k(2) by (simp add: fun_eq_iff)
      ultimately show ?thesis
        using Cons.prems Cons.IH [of n bs1] Some cap k(2) by simp
    qed
  qed
qed

lemma merge_correct:
  assumes "bm_wf m"
  shows "bm_wf (merge m)" and "cover (live (merge m)) = cover (live m)"
    and "bm_lock (merge m) = bm_lock m"
proof -
  obtain bs n where r: "mergeLoop (take (numBlocks m) (blocks m)) (blocks m, 0) = (bs, n)"
    by fastforce
  have "length bs = length (blocks m) \<and> n \<le> 0 + length (take (numBlocks m) (blocks m)) \<and>
        (\<forall>b \<in> set (take n bs). wf_block b) \<and>
        cover (take n bs) = cover (take 0 (blocks m) @ take (numBlocks m) (blocks m))"
    by (rule mergeLoop_correct [OF _ _ r]) (use assms in \<open>auto simp: bm_wf_def live_def\<close>)
  with assms r show "bm_wf (merge m)" and "cover (live (merge m)) = cover (live m)"
    and "bm_lock (merge m) = bm_lock m"
    by (auto simp: bm_wf_def live_def merge_def)
qed

section \<open>Adding\<close>

lemma appendBlock_correct:
  assumes "bm_wf m" and "numBlocks m < BLOCKMAP_SIZE" and "wf_block b"
  shows "bm_wf (appendBlock b m)" and "live (appendBlock b m) = live m @ [b]"
    and "bm_lock (appendBlock b m) = bm_lock m"
  using assms by (auto simp: bm_wf_def live_def appendBlock_def)

definition has_room :: "blockmap \<Rightarrow> bool" where
  "has_room m \<longleftrightarrow> numBlocks m < BLOCKMAP_SIZE \<or> numBlocks (merge m) < BLOCKMAP_SIZE"

lemma addBlockBody_correct:
  assumes "bm_wf m" and "wf_block b"
  shows "bm_wf (addBlockBody b m)"
    and "cover (live (addBlockBody b m)) a = cover (live m) a + (if has_room m then of_bool (a \<in> bytes b) else 0)"
    and "bm_lock (addBlockBody b m) = bm_lock m"
proof -
  note add = appendBlock_correct [OF assms(1) _ assms(2)]
    appendBlock_correct [OF merge_correct(1) [OF assms(1)] _ assms(2)] merge_correct [OF assms(1)]
  show "bm_wf (addBlockBody b m)"
    and "cover (live (addBlockBody b m)) a = cover (live m) a + (if has_room m then of_bool (a \<in> bytes b) else 0)"
    and "bm_lock (addBlockBody b m) = bm_lock m"
    by (simp_all add: addBlockBody_def has_room_def add Let_def)
qed

lemma addBlockLocked_correct:
  assumes "bm_wf m" and "wf_block b"
  shows "bm_wf (addBlockLocked b m)"
    and "cover (live (addBlockLocked b m)) a = cover (live m) a + (if has_room m then of_bool (a \<in> bytes b) else 0)"
    and "bm_lock (addBlockLocked b m) = bm_lock m"
proof -
  have "capacity b = 0 \<Longrightarrow> bytes b = {}" by (rule capacity_zero)
  then show "bm_wf (addBlockLocked b m)"
    and "cover (live (addBlockLocked b m)) a = cover (live m) a + (if has_room m then of_bool (a \<in> bytes b) else 0)"
    and "bm_lock (addBlockLocked b m) = bm_lock m"
    using addBlockBody_correct [OF assms] assms(1)
    by (auto simp: addBlockLocked_def word_neq_0_conv [symmetric])
qed

section \<open>Allocating\<close>

lemma put_live:
  assumes "bm_wf m" and "i < numBlocks m" and "wf_block b"
  shows "bm_wf (m\<lparr>blocks := (blocks m)[i := b]\<rparr>)"
    and "live (m\<lparr>blocks := (blocks m)[i := b]\<rparr>) = (live m)[i := b]"
    and "live m ! i = blocks m ! i" and "i < length (live m)" and "wf_block (blocks m ! i)"
proof -
  show live: "live (m\<lparr>blocks := (blocks m)[i := b]\<rparr>) = (live m)[i := b]"
    by (simp add: live_def take_update_swap)
  show "bm_wf (m\<lparr>blocks := (blocks m)[i := b]\<rparr>)"
    using assms live unfolding bm_wf_def
    by (auto dest!: set_update_subset_insert [THEN subsetD])
  show "live m ! i = blocks m ! i" and "i < length (live m)"
    using assms by (auto simp: live_def bm_wf_def)
  then show "wf_block (blocks m ! i)"
    using assms(1) nth_mem by (fastforce simp: bm_wf_def)
qed

lemma put_cover:
  assumes "bm_wf m" and "i < numBlocks m" and "wf_block b"
  shows "cover (live (m\<lparr>blocks := (blocks m)[i := b]\<rparr>)) a + of_bool (a \<in> bytes (blocks m ! i))
           = cover (live m) a + of_bool (a \<in> bytes b)"
  using cover_update [of i "live m" b a] put_live [OF assms] by simp

definition span :: "ptr \<Rightarrow> u64 \<Rightarrow> nat set" where
  "span p amount = {unat p..<unat p + unat amount}"

text \<open>What first fit does on each branch, from index \<open>i\<close> on.\<close>

lemma allocateLoop_cases:
  "(\<exists>k. i \<le> k \<and> k < numBlocks m \<and> capacity (blocks m ! k) \<ge> amount \<and>
        (\<forall>j. i \<le> j \<longrightarrow> j < k \<longrightarrow> capacity (blocks m ! j) < amount) \<and>
        allocateLoop amount i m =
          (b_start (blocks m ! k),
           m\<lparr>blocks := (blocks m)[k := (blocks m ! k)\<lparr>b_start := b_start (blocks m ! k) + amount\<rparr>]\<rparr>)) \<or>
   (\<forall>j. i \<le> j \<longrightarrow> j < numBlocks m \<longrightarrow> capacity (blocks m ! j) < amount) \<and>
     allocateLoop amount i m = (nullptr, m)"
proof (induction amount i m rule: allocateLoop.induct)
  case (1 amount i m)
  note unfold = allocateLoop.simps [of amount i m]
  show ?case
  proof (cases "i < numBlocks m \<and> \<not> capacity (blocks m ! i) \<ge> amount")
    case True
    then have "allocateLoop amount i m = allocateLoop amount (Suc i) m" by (simp add: unfold)
    moreover have "i \<le> j \<longleftrightarrow> j = i \<or> Suc i \<le> j" for j by auto
    ultimately show ?thesis using "1.IH" True by (auto simp: not_le)
  next
    case False
    show ?thesis
    proof (cases "i < numBlocks m")
      case True
      with False show ?thesis
        by (intro disjI1 exI [of _ i]) (auto simp: unfold Block_reserve_def)
    next
      case no: False
      then show ?thesis by (intro disjI2) (simp add: unfold)
    qed
  qed
qed

lemma reserve_front:
  assumes "wf_block b" and "amount \<le> capacity b"
  shows "unat (b_start b + amount) = unat (b_start b) + unat amount"
    and "wf_block (b\<lparr>b_start := b_start b + amount\<rparr>)"
    and "(of_bool (a \<in> bytes b) :: nat) =
           of_bool (a \<in> bytes (b\<lparr>b_start := b_start b + amount\<rparr>)) + of_bool (a \<in> span (b_start b) amount)"
proof -
  from assms have le: "unat amount \<le> unat (b_end b) - unat (b_start b)"
    by (simp add: unat_capacity [symmetric] word_le_nat_alt)
  have "unat (b_start b) + unat amount < 18446744073709551616"
    using le assms(1) unat_u64_bound [of "b_end b"] unfolding wf_block_unat by linarith
  then show sum: "unat (b_start b + amount) = unat (b_start b) + unat amount"
    by (simp add: unat_word_ariths)
  show "wf_block (b\<lparr>b_start := b_start b + amount\<rparr>)"
    and "(of_bool (a \<in> bytes b) :: nat) =
           of_bool (a \<in> bytes (b\<lparr>b_start := b_start b + amount\<rparr>)) + of_bool (a \<in> span (b_start b) amount)"
    using le assms(1) by (auto simp: wf_block_unat bytes_def span_def sum)
qed

definition can_satisfy :: "u64 \<Rightarrow> blockmap \<Rightarrow> bool" where
  "can_satisfy amount m \<longleftrightarrow> (\<exists>b \<in> set (live m). amount \<le> capacity b)"

lemma allocateLoop_correct:
  assumes "bm_wf m" and "allocateLoop amount 0 m = (p, m')"
  shows "bm_wf m'" and "bm_lock m' = bm_lock m"
    and "can_satisfy amount m \<Longrightarrow>
           cover (live m) a = cover (live m') a + of_bool (a \<in> span p amount)"
    and "\<not> can_satisfy amount m \<Longrightarrow> p = nullptr \<and> m' = m"
proof -
  have nth: "x \<in> set (live m) \<longleftrightarrow> (\<exists>k < numBlocks m. x = blocks m ! k)" for x
    using assms(1) by (auto simp: live_def bm_wf_def in_set_conv_nth)
  from allocateLoop_cases [of 0 m amount]
  have "bm_wf m' \<and> bm_lock m' = bm_lock m \<and>
    (can_satisfy amount m \<longrightarrow> cover (live m) a = cover (live m') a + of_bool (a \<in> span p amount)) \<and>
    (\<not> can_satisfy amount m \<longrightarrow> p = nullptr \<and> m' = m)"
  proof (elim disjE exE conjE)
    fix k
    let ?b = "blocks m ! k" let ?b' = "?b\<lparr>b_start := b_start ?b + amount\<rparr>"
    assume k: "k < numBlocks m" "amount \<le> capacity ?b"
      and run: "allocateLoop amount 0 m = (b_start ?b, m\<lparr>blocks := (blocks m)[k := ?b']\<rparr>)"
    have wf: "wf_block ?b" using put_live(5) [OF assms(1) k(1), of emptyBlock] by simp
    note front = reserve_front [OF wf k(2)]
    from k nth have "can_satisfy amount m" by (auto simp: can_satisfy_def)
    with run assms(2) put_live(1) [OF assms(1) k(1) front(2)] put_cover [OF assms(1) k(1) front(2), of a]
    show ?thesis by (auto simp: front(3))
  next
    assume "\<forall>j. 0 \<le> j \<longrightarrow> j < numBlocks m \<longrightarrow> capacity (blocks m ! j) < amount"
      and "allocateLoop amount 0 m = (nullptr, m)"
    with assms nth show ?thesis by (auto simp: can_satisfy_def not_le [symmetric])
  qed
  then show "bm_wf m'" and "bm_lock m' = bm_lock m"
    and "can_satisfy amount m \<Longrightarrow> cover (live m) a = cover (live m') a + of_bool (a \<in> span p amount)"
    and "\<not> can_satisfy amount m \<Longrightarrow> p = nullptr \<and> m' = m" by blast+
qed

section \<open>Reserving\<close>

text \<open>Unless the reserved range lies strictly inside it, a block is kept, shortened or emptied.\<close>

lemma reserveStep_shape:
  assumes "\<not> (b_start (blocks m ! i) < b_start r \<and> b_end r < b_end (blocks m ! i))"
  shows "reserveStep r i m = m \<and> bytes (blocks m ! i) \<inter> bytes r = {} \<or>
    (\<exists>c. wf_block c \<and> reserveStep r i m = m\<lparr>blocks := (blocks m)[i := c]\<rparr> \<and>
         bytes c = bytes (blocks m ! i) - bytes r)"
proof -
  let ?b = "blocks m ! i"
  consider "b_end r \<le> b_start ?b \<or> b_end ?b \<le> b_start r"
    | "b_start ?b < b_end r" "b_start r < b_end ?b" "b_start r \<le> b_start ?b" "b_end ?b \<le> b_end r"
    | "b_start ?b < b_end r" "b_start r < b_end ?b" "b_start r \<le> b_start ?b" "b_end r < b_end ?b"
    | "b_start ?b < b_end r" "b_start r < b_end ?b" "b_start ?b < b_start r" "b_end ?b \<le> b_end r"
    using assms by (meson not_le)
  then show ?thesis
  proof cases
    case 1
    then have "reserveStep r i m = m" and "bytes ?b \<inter> bytes r = {}"
      by (auto simp: reserveStep_def Let_def bytes_def word_le_nat_alt)
    then show ?thesis by blast
  next
    case 2
    then show ?thesis
      by (intro disjI2 exI [of _ emptyBlock])
         (auto simp: reserveStep_def Let_def bytes_def emptyBlock_def wf_block_def
           word_le_nat_alt word_less_nat_alt)
  next
    case 3
    then show ?thesis
      by (intro disjI2 exI [of _ "?b\<lparr>b_start := b_end r\<rparr>"])
         (auto simp: reserveStep_def Let_def bytes_def wf_block_unat word_le_nat_alt word_less_nat_alt)
  next
    case 4
    then show ?thesis
      by (intro disjI2 exI [of _ "?b\<lparr>b_end := b_start r\<rparr>"])
         (auto simp: reserveStep_def Let_def bytes_def wf_block_unat word_le_nat_alt word_less_nat_alt)
  qed
qed

lemma reserveStep_keeps:
  assumes "bm_wf m" and "i < numBlocks m"
    and "\<not> (b_start (blocks m ! i) < b_start r \<and> b_end r < b_end (blocks m ! i))"
  shows "bm_wf (reserveStep r i m)"
    and "numBlocks (reserveStep r i m) = numBlocks m"
    and "bm_lock (reserveStep r i m) = bm_lock m"
    and "\<And>j. j \<noteq> i \<Longrightarrow> blocks (reserveStep r i m) ! j = blocks m ! j"
    and "bytes (blocks (reserveStep r i m) ! i) = bytes (blocks m ! i) - bytes r"
    and "cover (live (reserveStep r i m)) a + of_bool (a \<in> bytes (blocks m ! i))
           = cover (live m) a + of_bool (a \<in> bytes (blocks m ! i) - bytes r)"
proof -
  let ?m' = "reserveStep r i m" and ?b = "blocks m ! i"
  have i: "i < length (blocks m)" using assms(1,2) by (auto simp: bm_wf_def)
  from reserveStep_shape [OF assms(3)]
  have *: "bm_wf ?m' \<and> numBlocks ?m' = numBlocks m \<and> bm_lock ?m' = bm_lock m \<and>
    (\<forall>j. j \<noteq> i \<longrightarrow> blocks ?m' ! j = blocks m ! j) \<and> bytes (blocks ?m' ! i) = bytes ?b - bytes r \<and>
    cover (live ?m') a + of_bool (a \<in> bytes ?b) = cover (live m) a + of_bool (a \<in> bytes ?b - bytes r)"
  proof (elim disjE exE conjE)
    assume "?m' = m" and "bytes ?b \<inter> bytes r = {}"
    then show ?thesis using assms(1) by (simp add: Diff_triv disjoint_iff)
  next
    fix c assume c: "wf_block c" "?m' = m\<lparr>blocks := (blocks m)[i := c]\<rparr>" "bytes c = bytes ?b - bytes r"
    then show ?thesis
      using put_live(1) [OF assms(1,2) c(1)] put_cover [OF assms(1,2) c(1), of a] i by simp
  qed
  then show "bm_wf ?m'" and "numBlocks ?m' = numBlocks m" and "bm_lock ?m' = bm_lock m"
    and "\<And>j. j \<noteq> i \<Longrightarrow> blocks ?m' ! j = blocks m ! j"
    and "bytes (blocks ?m' ! i) = bytes ?b - bytes r"
    and "cover (live ?m') a + of_bool (a \<in> bytes ?b) = cover (live m) a + of_bool (a \<in> bytes ?b - bytes r)"
    by blast+
qed

text \<open>Where it does lie strictly inside, the block is replaced by the pieces on its two sides.\<close>

lemma reserveStep_split:
  assumes "bm_wf m" and "i < numBlocks m" and "wf_block r"
    and "b_start (blocks m ! i) < b_start r" and "b_end r < b_end (blocks m ! i)"
  shows "bm_wf (reserveStep r i m)"
    and "bm_lock (reserveStep r i m) = bm_lock m"
    and "cover (live (reserveStep r i m)) a + of_bool (a \<in> bytes (blocks m ! i))
           \<le> cover (live m) a + of_bool (a \<in> bytes (blocks m ! i) - bytes r)"
    and "numBlocks m + 2 \<le> BLOCKMAP_SIZE \<Longrightarrow>
         cover (live (reserveStep r i m)) a + of_bool (a \<in> bytes (blocks m ! i))
           = cover (live m) a + of_bool (a \<in> bytes (blocks m ! i) - bytes r)"
proof -
  let ?b = "blocks m ! i"
  let ?m0 = "m\<lparr>blocks := (blocks m)[i := emptyBlock]\<rparr>"
  let ?l = "Block (b_start ?b) (b_start r)" and ?r = "Block (b_end r) (b_end ?b)"
  let ?m1 = "addBlockLocked ?l ?m0"
  have step: "reserveStep r i m = addBlockLocked ?r ?m1"
    using assms(3-5) by (auto simp: reserveStep_def Let_def wf_block_unat word_le_nat_alt word_less_nat_alt)
  have wf0: "bm_wf ?m0" by (rule put_live(1) [OF assms(1,2)]) simp
  have wfl: "wf_block ?l" and wfr: "wf_block ?r" using assms(4,5) by simp_all
  note one = addBlockLocked_correct [OF wf0 wfl]
  note two = addBlockLocked_correct [OF one(1) wfr]
  have pieces: "(of_bool (a \<in> bytes ?l) + of_bool (a \<in> bytes ?r) :: nat) = of_bool (a \<in> bytes ?b - bytes r)"
    using assms(3-5) by (auto simp: bytes_def Block_def wf_block_unat word_less_nat_alt)
  have put: "cover (live ?m0) a + of_bool (a \<in> bytes ?b) = cover (live m) a"
    using put_cover [OF assms(1,2), of emptyBlock a] by simp
  show "bm_wf (reserveStep r i m)" and "bm_lock (reserveStep r i m) = bm_lock m"
    by (simp_all add: step two one)
  show "cover (live (reserveStep r i m)) a + of_bool (a \<in> bytes ?b)
          \<le> cover (live m) a + of_bool (a \<in> bytes ?b - bytes r)"
    using put pieces by (simp add: step two(2) one(2))
  assume room: "numBlocks m + 2 \<le> BLOCKMAP_SIZE"
  then have "numBlocks ?m1 \<le> Suc (numBlocks m)"
    by (auto simp: addBlockLocked_def addBlockBody_def appendBlock_def)
  with room have "has_room ?m0" and "has_room ?m1" by (auto simp: has_room_def)
  then show "cover (live (reserveStep r i m)) a + of_bool (a \<in> bytes ?b)
          = cover (live m) a + of_bool (a \<in> bytes ?b - bytes r)"
    using put pieces by (simp add: step two(2) one(2))
qed

lemma nonempty_block: "b_start r < b_end r \<Longrightarrow> unat (b_start r) \<in> bytes r" "b_start r < b_end r \<Longrightarrow> wf_block r"
  by (simp_all add: bytes_def wf_block_def word_less_nat_alt word_le_nat_alt)

lemma clear_iff:
  "bm_wf m \<Longrightarrow> (\<forall>a \<in> A. cover (live m) a = 0) \<longleftrightarrow> (\<forall>k < numBlocks m. bytes (blocks m ! k) \<inter> A = {})"
  by (fastforce simp: cover_zero_iff live_def bm_wf_def in_set_conv_nth)

lemma strictly_inside_overlaps:
  "b_start b < b_start r \<Longrightarrow> b_end r < b_end b \<Longrightarrow> bytes r \<subseteq> bytes b"
  by (auto simp: bytes_def word_less_nat_alt)

text \<open>Once nothing live meets the reserved range, the rest of the loop changes nothing.\<close>

lemma reserveLoop_clear:
  assumes "b_start r < b_end r" and "bm_wf m" and "\<forall>a \<in> bytes r. cover (live m) a = 0"
  shows "bm_wf (reserveLoop r i m) \<and> bm_lock (reserveLoop r i m) = bm_lock m \<and>
         cover (live (reserveLoop r i m)) = cover (live m)"
  using assms
proof (induction r i m rule: reserveLoop.induct)
  case (1 r i m)
  show ?case
  proof (cases "i < numBlocks m")
    case True
    let ?m' = "reserveStep r i m"
    have dis: "bytes (blocks m ! i) \<inter> bytes r = {}"
      using "1.prems" True clear_iff by blast
    with nonempty_block(1) [OF "1.prems"(1)] strictly_inside_overlaps
    have "\<not> (b_start (blocks m ! i) < b_start r \<and> b_end r < b_end (blocks m ! i))" by blast
    note keep = reserveStep_keeps [OF "1.prems"(2) True this]
    have "cover (live ?m') = cover (live m)"
      using keep(6) dis by (auto simp: fun_eq_iff Diff_triv)
    with "1.IH" [OF True "1.prems"(1) keep(1)] "1.prems"(3) keep(3) True show ?thesis
      by (simp add: reserveLoop.simps [of r i m])
  qed (use "1.prems" in \<open>simp add: reserveLoop.simps [of r i m]\<close>)
qed

lemma reserveLoop_correct:
  assumes "b_start r < b_end r" and "bm_wf m" and "bm_disjoint m"
    and "\<forall>k < numBlocks m. k < i \<longrightarrow> bytes (blocks m ! k) \<inter> bytes r = {}"
  shows "bm_wf (reserveLoop r i m) \<and> bm_lock (reserveLoop r i m) = bm_lock m \<and>
    (\<forall>a. cover (live (reserveLoop r i m)) a \<le> (if a \<in> bytes r then 0 else cover (live m) a)) \<and>
    (numBlocks m + 2 \<le> BLOCKMAP_SIZE \<longrightarrow>
      (\<forall>a. cover (live (reserveLoop r i m)) a = (if a \<in> bytes r then 0 else cover (live m) a)))"
  using assms
proof (induction r i m rule: reserveLoop.induct)
  case (1 r i m)
  let ?m' = "reserveStep r i m" and ?b = "blocks m ! i"
  show ?case
  proof (cases "i < numBlocks m")
    case False
    with "1.prems" have "\<forall>a \<in> bytes r. cover (live m) a = 0" by (subst clear_iff) auto
    with False "1.prems"(2) show ?thesis by (simp add: reserveLoop.simps [of r i m])
  next
    case True
    then have run: "reserveLoop r i m = reserveLoop r (Suc i) ?m'"
      by (simp add: reserveLoop.simps [of r i m])
    show ?thesis
    proof (cases "b_start ?b < b_start r \<and> b_end r < b_end ?b")
      case inside: True
      then have sub: "bytes r \<subseteq> bytes ?b" using strictly_inside_overlaps by blast
      note split = reserveStep_split [OF "1.prems"(2) True nonempty_block(2) [OF "1.prems"(1)]]
      have le: "cover (live ?m') a \<le> (if a \<in> bytes r then 0 else cover (live m) a)" for a
      proof -
        have "cover (live m) a \<le> 1" using "1.prems"(3) by (simp add: bm_disjoint_def)
        with split(3) [of a] inside sub show ?thesis by (cases "a \<in> bytes r") (auto split: if_splits)
      qed
      have eq: "cover (live ?m') a = (if a \<in> bytes r then 0 else cover (live m) a)"
        if "numBlocks m + 2 \<le> BLOCKMAP_SIZE" for a
        using split(4) [of a] that inside sub le [of a] by auto
      from le have "\<forall>a \<in> bytes r. cover (live ?m') a = 0" by (metis le_zero_eq)
      from reserveLoop_clear [OF "1.prems"(1) split(1) this, of "Suc i"] inside split(2) le eq
      show ?thesis by (simp add: run)
    next
      case False
      note keep = reserveStep_keeps [OF "1.prems"(2) True False]
      have cov: "cover (live ?m') a \<le> cover (live m) a"
        "a \<notin> bytes r \<Longrightarrow> cover (live ?m') a = cover (live m) a" for a
        using keep(6) [of a] by (cases "a \<in> bytes ?b"; cases "a \<in> bytes r"; simp)+
      have dis: "bm_disjoint ?m'"
        using "1.prems"(3) cov(1) unfolding bm_disjoint_def by (meson le_trans)
      have "\<forall>k < numBlocks ?m'. k < Suc i \<longrightarrow> bytes (blocks ?m' ! k) \<inter> bytes r = {}"
        using "1.prems"(4) keep(2,4,5) by (auto simp: less_Suc_eq)
      note IH = "1.IH" [OF True "1.prems"(1) keep(1) dis this]
      have eqf: "(if a \<in> bytes r then 0 else cover (live ?m') a) = (if a \<in> bytes r then 0 else cover (live m) a)"
        for a using cov(2) by simp
      show ?thesis using IH unfolding run eqf keep(2,3) .
    qed
  qed
qed

section \<open>The operations of the class\<close>

interpretation bml: lock_owner bm_lock "\<lambda>l. bm_lock_update (\<lambda>_. l)"
  by unfold_locales simp_all

lemma bm_lock_irrelevant [simp]:
  "live (m\<lparr>bm_lock := l\<rparr>) = live m"
  "bm_wf (m\<lparr>bm_lock := l\<rparr>) = bm_wf m"
  "bm_disjoint (m\<lparr>bm_lock := l\<rparr>) = bm_disjoint m"
  "free_set (m\<lparr>bm_lock := l\<rparr>) = free_set m"
  "can_satisfy n (m\<lparr>bm_lock := l\<rparr>) = can_satisfy n m"
  "merge (m\<lparr>bm_lock := l\<rparr>) = (merge m)\<lparr>bm_lock := l\<rparr>"
  "has_room (m\<lparr>bm_lock := l\<rparr>) = has_room m"
  by (simp_all add: live_def bm_wf_def bm_disjoint_def free_set_def can_satisfy_def merge_def has_room_def
      Let_def split: prod.split)

text \<open>A critical section on a map in good order returns, frees the lock and restores the interrupt flag.\<close>

lemma bm_section_run:
  assumes "bm_inv m"
    and "\<And>l. case body (m\<lparr>bm_lock := l\<rparr>) of (r, m1) \<Rightarrow> bm_lock m1 = l \<and> bm_wf m1 \<and> bm_disjoint m1 \<and> Q r m1"
    and "\<And>r m1 l. Q r m1 \<Longrightarrow> Q r (m1\<lparr>bm_lock := l\<rparr>)"
  shows "\<exists>r m'. bm_section body (irq, m) = Inr (r, irq, m') \<and> bm_inv m' \<and> Q r m'"
proof -
  let ?l = "(bm_lock m)\<lparr>sl_lock := 1, sl_enableIrqs := irq\<rparr>"
  obtain r m1 where run: "body (m\<lparr>bm_lock := ?l\<rparr>) = (r, m1)" by fastforce
  with assms(2) [of ?l] have m1: "bm_lock m1 = ?l" "bm_wf m1" "bm_disjoint m1" "Q r m1" by auto
  have "\<not> locked (bm_lock m)" using assms(1) by (simp add: bm_inv_def)
  from bml.under_lock_run [where body = body, OF this run m1(1)] m1 assms(3)
  show ?thesis by (simp add: bm_inv_def)
qed

lemma cover_le_one_bool: "bm_disjoint m \<Longrightarrow> cover (live m) a = of_bool (a \<in> free_set m)"
  by (cases "cover (live m) a") (auto simp: bm_disjoint_def free_set_def dest: spec [of _ a])

lemma disjoint_free_setI:
  "(\<And>a. cover (live m) a = of_bool (a \<in> A)) \<Longrightarrow> bm_disjoint m \<and> free_set m = A"
  by (auto simp: bm_disjoint_def free_set_def)

lemma allocate_ok:
  assumes "bm_inv m" and "can_satisfy n m"
  shows "\<exists>p m'. allocate n (irq, m) = Inr (p, irq, m') \<and> bm_inv m' \<and>
           span p n \<subseteq> free_set m \<and> free_set m' = free_set m - span p n"
  unfolding allocate_def
proof (rule bm_section_run [OF assms(1)])
  fix l
  obtain p m1 where run: "allocateLoop n 0 (m\<lparr>bm_lock := l\<rparr>) = (p, m1)" by fastforce
  have wf: "bm_wf (m\<lparr>bm_lock := l\<rparr>)" and dis: "bm_disjoint m"
    using assms(1) by (simp_all add: bm_inv_def)
  note ok = allocateLoop_correct [OF wf run]
  have sum: "of_bool (a \<in> free_set m) = cover (live m1) a + of_bool (a \<in> span p n)" for a
    using ok(3) [of a] assms(2) cover_le_one_bool [OF dis] by simp
  then have cov: "cover (live m1) a = of_bool (a \<in> free_set m - span p n)" for a
    using sum [of a] by (cases "a \<in> free_set m"; cases "a \<in> span p n"; simp)
  have "span p n \<subseteq> free_set m"
  proof
    fix a assume "a \<in> span p n"
    with sum [of a] show "a \<in> free_set m" by (cases "a \<in> free_set m") simp_all
  qed
  with disjoint_free_setI [OF cov] ok(1,2) run
  show "case allocateLoop n 0 (m\<lparr>bm_lock := l\<rparr>) of (r, m1) \<Rightarrow>
      bm_lock m1 = l \<and> bm_wf m1 \<and> bm_disjoint m1 \<and>
      (span r n \<subseteq> free_set m \<and> free_set m1 = free_set m - span r n)" by simp
qed simp

lemma allocate_none:
  assumes "bm_inv m" and "\<not> can_satisfy n m"
  shows "\<exists>m'. allocate n (irq, m) = Inr (nullptr, irq, m') \<and> bm_inv m' \<and> free_set m' = free_set m"
proof -
  have "\<exists>p m'. allocate n (irq, m) = Inr (p, irq, m') \<and> bm_inv m' \<and> p = nullptr \<and> free_set m' = free_set m"
    unfolding allocate_def
  proof (rule bm_section_run [OF assms(1)])
    fix l
    obtain p m1 where run: "allocateLoop n 0 (m\<lparr>bm_lock := l\<rparr>) = (p, m1)" by fastforce
    have wf: "bm_wf (m\<lparr>bm_lock := l\<rparr>)" using assms(1) by (simp add: bm_inv_def)
    from allocateLoop_correct [OF wf run] run assms
    show "case allocateLoop n 0 (m\<lparr>bm_lock := l\<rparr>) of (r, m1) \<Rightarrow>
        bm_lock m1 = l \<and> bm_wf m1 \<and> bm_disjoint m1 \<and> (r = nullptr \<and> free_set m1 = free_set m)"
      by (simp add: bm_inv_def)
  qed simp
  then show ?thesis by blast
qed

lemma addBlock_ok:
  assumes "bm_inv m" and "wf_block b" and "bytes b \<inter> free_set m = {}"
  shows "\<exists>m'. addBlock b (irq, m) = Inr ((), irq, m') \<and> bm_inv m' \<and>
           free_set m' = (if has_room m then free_set m \<union> bytes b else free_set m)"
proof (cases "capacity b > 0")
  case True
  have "\<exists>r m'. bm_section (\<lambda>m. ((), addBlockBody b m)) (irq, m) = Inr (r, irq, m') \<and> bm_inv m' \<and>
          free_set m' = (if has_room m then free_set m \<union> bytes b else free_set m)"
  proof (rule bm_section_run [OF assms(1)])
    fix l
    let ?m1 = "addBlockBody b (m\<lparr>bm_lock := l\<rparr>)"
    have wf: "bm_wf (m\<lparr>bm_lock := l\<rparr>)" and dis: "bm_disjoint m"
      using assms(1) by (simp_all add: bm_inv_def)
    note add = addBlockBody_correct [OF wf assms(2)]
    have "cover (live ?m1) a = of_bool (a \<in> (if has_room m then free_set m \<union> bytes b else free_set m))" for a
      using assms(3) by (auto simp: add(2) cover_le_one_bool [OF dis])
    from disjoint_free_setI [OF this] add(1,3)
    show "case ((), ?m1) of (r, m1) \<Rightarrow> bm_lock m1 = l \<and> bm_wf m1 \<and> bm_disjoint m1 \<and>
        free_set m1 = (if has_room m then free_set m \<union> bytes b else free_set m)" by simp
  qed simp
  with True show ?thesis by (auto simp: addBlock_def)
next
  case False
  then have "bytes b = {}" by (simp add: capacity_zero word_neq_0_conv [symmetric])
  with False assms(1) show ?thesis by (auto simp: addBlock_def)
qed

lemma reserve_ok:
  assumes "bm_inv m" and "b_start r < b_end r"
  shows "\<exists>m'. reserve r (irq, m) = Inr ((), irq, m') \<and> bm_inv m' \<and> free_set m' \<subseteq> free_set m - bytes r \<and>
           (numBlocks (merge m) + 2 \<le> BLOCKMAP_SIZE \<longrightarrow> free_set m' = free_set m - bytes r)"
proof -
  let ?Q = "\<lambda>m'. free_set m' \<subseteq> free_set m - bytes r \<and>
           (numBlocks (merge m) + 2 \<le> BLOCKMAP_SIZE \<longrightarrow> free_set m' = free_set m - bytes r)"
  have "\<exists>u m'. reserve r (irq, m) = Inr (u, irq, m') \<and> bm_inv m' \<and> ?Q m'"
    unfolding reserve_def
  proof (rule bm_section_run [OF assms(1)])
    fix l
    define m0 where "m0 = merge (m\<lparr>bm_lock := l\<rparr>)"
    define m1 where "m1 = reserveLoop r 0 m0"
    have wf: "bm_wf (m\<lparr>bm_lock := l\<rparr>)" and dis: "bm_disjoint m"
      using assms(1) by (simp_all add: bm_inv_def)
    have m0: "bm_wf m0" "bm_lock m0 = l" "numBlocks m0 = numBlocks (merge m)"
      and cov: "cover (live m0) a = of_bool (a \<in> free_set m)" for a
      using merge_correct [OF wf] cover_le_one_bool [OF dis] by (simp_all add: m0_def)
    have dis0: "bm_disjoint m0" by (simp add: bm_disjoint_def cov)
    have run: "bm_wf m1" "bm_lock m1 = l"
      and le: "cover (live m1) a \<le> (if a \<in> bytes r then 0 else of_bool (a \<in> free_set m))"
      and eq: "numBlocks (merge m) + 2 \<le> BLOCKMAP_SIZE \<Longrightarrow>
         cover (live m1) a = (if a \<in> bytes r then 0 else of_bool (a \<in> free_set m))" for a
      using reserveLoop_correct [OF assms(2) m0(1) dis0, of 0] unfolding cov m0(2,3) m1_def by auto
    have bound: "cover (live m1) a \<le> of_bool (a \<in> free_set m - bytes r)" for a
      using le [of a] by (auto split: if_splits)
    have "cover (live m1) a \<le> 1" for a
      by (rule le_trans [OF bound]) simp
    then have "bm_disjoint m1" by (simp add: bm_disjoint_def)
    moreover have "a \<in> free_set m - bytes r" if "a \<in> free_set m1" for a
    proof (rule ccontr)
      assume "a \<notin> free_set m - bytes r"
      then have *: "of_bool (a \<in> free_set m - bytes r) = (0 :: nat)" by simp
      have "cover (live m1) a = 0" using bound [of a] unfolding * by simp
      with that show False by (simp add: free_set_def)
    qed
    then have "free_set m1 \<subseteq> free_set m - bytes r" by blast
    moreover have "free_set m1 = free_set m - bytes r" if "numBlocks (merge m) + 2 \<le> BLOCKMAP_SIZE"
      unfolding free_set_def [of m1] eq [OF that] by (auto simp: free_set_def)
    ultimately show "case ((), reserveLoop r 0 (merge (m\<lparr>bm_lock := l\<rparr>))) of (u, m1) \<Rightarrow>
        bm_lock m1 = l \<and> bm_wf m1 \<and> bm_disjoint m1 \<and> ?Q m1"
      unfolding m0_def [symmetric] m1_def [symmetric] prod.case using run by blast
  qed simp
  then show ?thesis by simp
qed

section \<open>The allocator interface\<close>

text \<open>
  What users of a memory map rely on. \<open>free\<close> is the set of addresses it may hand out, \<open>fits\<close> says that
  a request can be served and \<open>room\<close> that a returned range will not be dropped.
\<close>

locale allocator =
  fixes alloc :: "u64 \<Rightarrow> bool \<times> 's \<Rightarrow> (ptr \<times> bool \<times> 's) result"
    and give :: "ptr \<Rightarrow> u64 \<Rightarrow> bool \<times> 's \<Rightarrow> (unit \<times> bool \<times> 's) result"
    and free :: "'s \<Rightarrow> nat set"
    and inv :: "'s \<Rightarrow> bool"
    and fits :: "u64 \<Rightarrow> 's \<Rightarrow> bool"
    and room :: "'s \<Rightarrow> bool"
  assumes alloc_fits: "inv s \<Longrightarrow> fits n s \<Longrightarrow>
      \<exists>p s'. alloc n (irq, s) = Inr (p, irq, s') \<and> inv s' \<and> span p n \<subseteq> free s \<and> free s' = free s - span p n"
    and alloc_fails: "inv s \<Longrightarrow> \<not> fits n s \<Longrightarrow>
      \<exists>s'. alloc n (irq, s) = Inr (nullptr, irq, s') \<and> inv s' \<and> free s' = free s"
    and give_back: "inv s \<Longrightarrow> unat p + unat n < 2 ^ 64 \<Longrightarrow> span p n \<inter> free s = {} \<Longrightarrow>
      \<exists>s'. give p n (irq, s) = Inr ((), irq, s') \<and> inv s' \<and>
           free s' = (if room s then free s \<union> span p n else free s)"
    and free_bounded: "inv s \<Longrightarrow> a \<in> free s \<Longrightarrow> a + 1 < 2 ^ 64"
begin

lemma alloc_returns:
  assumes "inv s"
  obtains p s' where "alloc n (irq, s) = Inr (p, irq, s')" "inv s'" "free s' \<subseteq> free s"
    "fits n s \<Longrightarrow> span p n \<subseteq> free s \<and> free s' = free s - span p n"
    "\<not> fits n s \<Longrightarrow> p = nullptr \<and> free s' = free s"
proof (cases "fits n s")
  case True
  with alloc_fits [OF assms this, of irq] that show ?thesis by blast
next
  case False
  with alloc_fails [OF assms this, of irq] that show ?thesis by blast
qed

text \<open>Two live allocations never share a byte.\<close>

lemma alloc_twice_disjoint:
  assumes "inv s" and "fits n s" and "alloc n (irq, s) = Inr (p, irq, s1)"
    and "fits k s1" and "alloc k (irq, s1) = Inr (q, irq, s2)"
  shows "span p n \<inter> span q k = {}"
proof -
  from alloc_fits [OF assms(1,2), of irq] assms(3)
  have s1: "inv s1" "free s1 = free s - span p n" by auto
  from alloc_fits [OF s1(1) assms(4), of irq] assms(5) have "span q k \<subseteq> free s1" by auto
  with s1(2) show ?thesis by blast
qed

text \<open>An allocated range never wraps around the end of the address space.\<close>

lemma alloc_no_wrap:
  assumes "inv s" and "fits n s" and "alloc n (irq, s) = Inr (p, irq, s1)"
  shows "unat p + unat n < 2 ^ 64"
proof (cases "n = 0")
  case True
  then show ?thesis using unsigned_less [of p, where 'a = nat] by simp
next
  case False
  then have "0 < unat n" by (simp add: unat_gt_0)
  then have "unat p + unat n - 1 \<in> span p n" by (auto simp: span_def)
  with alloc_fits [OF assms(1,2), of irq] assms(3) have "unat p + unat n - 1 \<in> free s" by auto
  from free_bounded [OF assms(1) this] show ?thesis by simp
qed

text \<open>Returning what was just allocated restores the free memory.\<close>

lemma alloc_give_restores:
  assumes "inv s" and "fits n s" and "alloc n (irq, s) = Inr (p, irq, s1)" and "room s1"
  shows "\<exists>s2. give p n (irq, s1) = Inr ((), irq, s2) \<and> inv s2 \<and> free s2 = free s"
proof -
  from alloc_fits [OF assms(1,2), of irq] assms(3)
  have s1: "inv s1" "span p n \<subseteq> free s" "free s1 = free s - span p n" by auto
  from give_back [OF s1(1) alloc_no_wrap [OF assms(1-3)], of irq] s1(2,3) assms(4)
  show ?thesis by (auto simp: Un_absorb1 Un_commute)
qed

end

lemma free_set_bounded: "a \<in> free_set m \<Longrightarrow> a + 1 < 2 ^ 64"
proof -
  assume "a \<in> free_set m"
  then obtain b where "a \<in> bytes b" by (auto simp: free_set_alt)
  then have "a < unat (b_end b)" by (simp add: bytes_def)
  then have "a + 1 < 18446744073709551616" using unat_u64_bound [of "b_end b"] by linarith
  then show ?thesis by simp
qed

interpretation bma: allocator allocate returnMemory free_set bm_inv can_satisfy has_room
proof unfold_locales
  fix s :: blockmap and p n :: u64 and irq
  assume s: "bm_inv s" and nowrap: "unat p + unat n < 2 ^ 64" and dis: "span p n \<inter> free_set s = {}"
  from nowrap have sum: "unat (p + n) = unat p + unat n" by (simp add: unat_word_ariths)
  then have eq: "bytes (Block p (p + n)) = span p n" and wf: "wf_block (Block p (p + n))"
    by (simp_all add: span_def word_le_nat_alt)
  from addBlock_ok [OF s wf, of irq] dis
  show "\<exists>s'. returnMemory p n (irq, s) = Inr ((), irq, s') \<and> bm_inv s' \<and>
          free_set s' = (if has_room s then free_set s \<union> span p n else free_set s)"
    unfolding eq returnMemory_def by blast
qed (rule allocate_ok allocate_none free_set_bounded; assumption)+

section \<open>Properties\<close>

text \<open>A map with one block, as \<^verbatim>\<open>memoryBlock_test.cpp\<close> sets it up.\<close>

definition one_block :: blockmap where
  "one_block = appendBlock (Block 0x1000 0x3000) blockmap_init"

lemma one_block_simps:
  "live one_block = [Block 0x1000 0x3000]" "numBlocks one_block = 1" "bm_inv one_block"
  "free_set one_block = {0x1000..<0x3000}"
proof -
  have init: "bm_wf blockmap_init" "live blockmap_init = []" "numBlocks blockmap_init = 0"
    "bm_lock blockmap_init = spinlock_init"
    by (simp_all add: bm_wf_def live_def blockmap_init_def)
  note add = appendBlock_correct [OF init(1), of "Block 0x1000 0x3000"]
  have wf: "bm_wf one_block" and lv: "live one_block = [Block 0x1000 0x3000]"
    and lock: "bm_lock one_block = spinlock_init"
    using add by (simp_all add: one_block_def init(2-4) BLOCKMAP_SIZE_def)
  show "live one_block = [Block 0x1000 0x3000]" by (rule lv)
  show "numBlocks one_block = 1" by (simp add: one_block_def appendBlock_def blockmap_init_def)
  show "bm_inv one_block" using wf lock by (simp add: bm_inv_def bm_disjoint_def lv)
  show "free_set one_block = {0x1000..<0x3000}" by (auto simp: free_set_def lv)
qed

lemmas one_block_eval =
  allocate_def under_lock_def acquire_def release_def one_block_def appendBlock_def blockmap_init_def
  spinlock_init_def locked_def allocateLoop.simps BLOCKMAP_SIZE_def capacity_def Block_def Block_reserve_def

lemma one_block_merge: "numBlocks (merge one_block) + 2 \<le> BLOCKMAP_SIZE"
  using numBlocks_merge [of one_block] by (simp add: one_block_simps BLOCKMAP_SIZE_def)

text \<open>
  \<^verbatim>\<open>BlockMap::merge\<close> changes the representation and not the meaning: every address is covered by
  exactly as many blocks as before, the block count does not grow and the blocks stay well-formed.
\<close>

theorem merge_preserves_cover:
  assumes "bm_wf m"
  shows "bm_wf (merge m) \<and> cover (live (merge m)) = cover (live m) \<and> numBlocks (merge m) \<le> numBlocks m"
  using merge_correct [OF assms] numBlocks_merge by blast

theorem merge_preserves_cover_witness:
  "bm_wf (merge one_block) \<and> cover (live (merge one_block)) = cover (live one_block) \<and>
   numBlocks (merge one_block) \<le> numBlocks one_block"
  by (rule merge_preserves_cover) (use one_block_simps(3) in \<open>simp add: bm_inv_def\<close>)

text \<open>
  (C3) \<^verbatim>\<open>BlockMap::allocate\<close> on a map in good order always returns, with the lock free and interrupts as
  before. If some block is large enough it hands out a range that was entirely free and that is not
  free any more, and nothing else changes; otherwise it returns null and the free memory is the same.
\<close>

theorem allocate_correct:
  assumes "bm_inv m"
  shows "\<exists>p m'. allocate n (irq, m) = Inr (p, irq, m') \<and> bm_inv m' \<and>
           (if can_satisfy n m then span p n \<subseteq> free_set m \<and> free_set m' = free_set m - span p n
            else p = nullptr \<and> free_set m' = free_set m)"
  by (rule bma.alloc_returns [OF assms, of n irq]) auto

theorem allocate_correct_witness:
  "\<exists>p m'. allocate 0x2000 (True, one_block) = Inr (p, True, m') \<and> bm_inv m' \<and>
      (if can_satisfy 0x2000 one_block
       then span p 0x2000 \<subseteq> free_set one_block \<and> free_set m' = free_set one_block - span p 0x2000
       else p = nullptr \<and> free_set m' = free_set one_block)"
  by (rule allocate_correct) (rule one_block_simps(3))

text \<open>
  (C4) \<^verbatim>\<open>BlockMap::reserve\<close> on a map in good order always returns, no address of the reserved range is
  free afterwards and nothing becomes free, although splitting a block may run \<^verbatim>\<open>merge\<close> in the middle of
  the loop over the blocks. When the merged map has two unused entries, exactly the reserved range is
  taken out.
\<close>

theorem reserve_correct:
  assumes "bm_inv m" and "b_start r < b_end r"
  shows "\<exists>m'. reserve r (irq, m) = Inr ((), irq, m') \<and> bm_inv m' \<and> free_set m' \<subseteq> free_set m - bytes r \<and>
           (numBlocks (merge m) + 2 \<le> BLOCKMAP_SIZE \<longrightarrow> free_set m' = free_set m - bytes r)"
  using assms by (rule reserve_ok)

theorem reserve_correct_witness:
  "\<exists>m'. reserve (Block 0x1800 0x2800) (True, one_block) = Inr ((), True, m') \<and> bm_inv m' \<and>
        free_set m' = {0x1000..<0x3000} - {0x1800..<0x2800}"
proof -
  have "b_start (Block 0x1800 0x2800) < b_end (Block 0x1800 0x2800)" by (simp add: Block_def)
  from reserve_correct [OF one_block_simps(3) this, of True] one_block_merge show ?thesis
    by (auto simp: one_block_simps(4))
qed

text \<open>
  Allocating a range and returning it restores the free memory exactly, as long as the map has an
  unused entry (or merging can make one).
\<close>

theorem allocate_return_roundtrip:
  assumes "bm_inv m" and "can_satisfy n m" and "allocate n (irq, m) = Inr (p, irq, m1)" and "has_room m1"
  shows "\<exists>m2. returnMemory p n (irq, m1) = Inr ((), irq, m2) \<and> bm_inv m2 \<and> free_set m2 = free_set m"
  using assms by (rule bma.alloc_give_restores)

lemma one_block_allocate:
  "allocate 0x2000 (True, one_block) =
     Inr (0x1000, True, one_block\<lparr>blocks := (blocks one_block)[0 := Block 0x3000 0x3000],
                             bm_lock := \<lparr>sl_lock = 0, sl_enableIrqs = True\<rparr>\<rparr>)"
  by (simp add: one_block_eval)

theorem allocate_return_roundtrip_witness:
  "\<exists>m2. returnMemory 0x1000 0x2000 (True, one_block\<lparr>blocks := (blocks one_block)[0 := Block 0x3000 0x3000],
                             bm_lock := \<lparr>sl_lock = 0, sl_enableIrqs = True\<rparr>\<rparr>) = Inr ((), True, m2) \<and>
        bm_inv m2 \<and> free_set m2 = free_set one_block"
  by (rule allocate_return_roundtrip [OF one_block_simps(3) _ one_block_allocate])
     (simp_all add: can_satisfy_def has_room_def one_block_simps capacity_def Block_def BLOCKMAP_SIZE_def)

text \<open>
  Two allocations that have both been served never overlap.
\<close>

theorem allocate_twice_disjoint:
  assumes "bm_inv m" and "can_satisfy n m" and "allocate n (irq, m) = Inr (p, irq, m1)"
    and "can_satisfy k m1" and "allocate k (irq, m1) = Inr (q, irq, m2)"
  shows "span p n \<inter> span q k = {}"
  using assms by (rule bma.alloc_twice_disjoint)

theorem allocate_twice_disjoint_witness:
  "span 0x1000 0x1000 \<inter> span 0x2000 0x800 = {}"
proof -
  have one: "allocate 0x1000 (True, one_block) =
      Inr (0x1000, True, one_block\<lparr>blocks := (blocks one_block)[0 := Block 0x2000 0x3000],
                             bm_lock := \<lparr>sl_lock = 0, sl_enableIrqs = True\<rparr>\<rparr>)" (is "_ = Inr (_, _, ?m1)")
    by (simp add: one_block_eval)
  have two: "allocate 0x800 (True, ?m1) = Inr (0x2000, True, ?m1\<lparr>blocks := (blocks ?m1)[0 := Block 0x2800 0x3000]\<rparr>)"
    by (simp add: one_block_eval)
  have fits: "can_satisfy 0x1000 one_block" "can_satisfy 0x800 ?m1"
    by (simp_all add: can_satisfy_def live_def one_block_eval)
  show ?thesis by (rule allocate_twice_disjoint [OF one_block_simps(3) fits(1) one fits(2) two])
qed

end
