(* ===== verification/Physical_Memory.thy ===== *)
theory Physical_Memory
  imports Memory_Block
begin

text \<open>
  The frame allocator of \<^verbatim>\<open>physicalMemory.h\<close>: 4096-byte frames taken from and returned to the physical
  block map. Its contract needs more than the block map's own invariant: every block of the map starts
  and ends at a page boundary, page 0 is not in it (a frame number of 0 means that there is no memory) and
  all of it lies below 2^52.
\<close>

definition allocateFrame :: "bool \<times> blockmap \<Rightarrow> (u64 \<times> bool \<times> blockmap) result" where
  "allocateFrame s = rbind (allocate PAGE_SIZE s) (\<lambda>(p, s1). Inr (p div PAGE_SIZE, s1))"

definition returnFrame :: "u64 \<Rightarrow> bool \<times> blockmap \<Rightarrow> (unit \<times> bool \<times> blockmap) result" where
  "returnFrame frameIndex = returnMemory (frameIndex * PAGE_SIZE) PAGE_SIZE"

section \<open>Page-aligned maps\<close>

definition aligned_block :: "block \<Rightarrow> bool" where
  "aligned_block b \<longleftrightarrow> unat (b_start b) mod 4096 = 0 \<and> unat (b_end b) mod 4096 = 0"

definition bm_aligned :: "blockmap \<Rightarrow> bool" where
  "bm_aligned m \<longleftrightarrow> (\<forall>b \<in> set (live m). aligned_block b)"

definition page_bytes :: "u64 \<Rightarrow> nat set" where
  "page_bytes f = {unat f * 4096..<unat f * 4096 + 4096}"

definition frames_ok :: "blockmap \<Rightarrow> bool" where
  "frames_ok m \<longleftrightarrow> bm_inv m \<and> bm_aligned m \<and> free_set m \<subseteq> {4096..<2 ^ 52}"

lemma unat_PAGE_SIZE [simp]: "unat PAGE_SIZE = 4096"
  by (simp add: PAGE_SIZE_def)

lemma bm_aligned_lock [simp]: "bm_aligned (m\<lparr>bm_lock := l\<rparr>) = bm_aligned m"
  by (simp add: bm_aligned_def)

lemma mergeLoop_aligned:
  assumes "n + length temp \<le> length bs" and "\<forall>b \<in> set (take n bs @ temp). aligned_block b"
    and "mergeLoop temp (bs, n) = (bs', n')"
  shows "\<forall>b \<in> set (take n' bs'). aligned_block b"
  using assms
proof (induction temp arbitrary: bs n)
  case (Cons t temp)
  show ?case
  proof (cases "capacity t = 0")
    case True
    with Cons.prems Cons.IH [of n bs] show ?thesis by simp
  next
    case cap: False
    show ?thesis
    proof (cases "mergeInto t 0 n bs")
      case None
      with Cons.prems(3) cap have run: "mergeLoop temp (bs[n := t], Suc n) = (bs', n')" by simp
      have "take (Suc n) (bs[n := t]) = take n bs @ [t]" using Cons.prems(1) by simp
      with Cons.IH [OF _ _ run] Cons.prems(1,2) show ?thesis by simp
    next
      case (Some bs1)
      from mergeInto_Some [OF this] obtain k c where k: "k < n" "bs1 = bs[k := c]"
        and c: "c = (bs ! k)\<lparr>b_start := b_start t\<rparr> \<or> c = (bs ! k)\<lparr>b_end := b_end t\<rparr>" by blast
      have nb: "n \<le> length bs" using Cons.prems(1) by simp
      have "aligned_block t" "aligned_block (bs ! k)" using Cons.prems(2) nth_mem_take [OF k(1) nb] by auto
      with c have "aligned_block c" by (auto simp: aligned_block_def)
      then have "\<forall>b \<in> set (take n bs1 @ temp). aligned_block b"
        using Cons.prems(2) k by (auto simp: take_update_swap dest!: set_update_subset_insert [THEN subsetD])
      moreover have "mergeLoop temp (bs1, n) = (bs', n')" using Cons.prems(3) cap Some by simp
      moreover have "n + length temp \<le> length bs1" using Cons.prems(1) k(2) by simp
      ultimately show ?thesis using Cons.IH by blast
    qed
  qed
qed simp

lemma merge_aligned:
  assumes "bm_wf m" and "bm_aligned m"
  shows "bm_aligned (merge m)"
proof -
  obtain bs n where r: "mergeLoop (take (numBlocks m) (blocks m)) (blocks m, 0) = (bs, n)" by fastforce
  have "\<forall>b \<in> set (take n bs). aligned_block b"
    by (rule mergeLoop_aligned [OF _ _ r]) (use assms in \<open>auto simp: bm_wf_def bm_aligned_def live_def\<close>)
  with r show ?thesis by (simp add: bm_aligned_def live_def merge_def)
qed

lemma addBlock_aligned:
  assumes "bm_inv m" and "bm_aligned m" and "wf_block b" and "aligned_block b" and "addBlock b (irq, m) = Inr (u, irq', m')"
  shows "bm_aligned m'"
proof (cases "capacity b > 0")
  case True
  have wf: "bm_wf m" and nl: "\<not> locked (bm_lock m)" using assms(1) by (simp_all add: bm_inv_def)
  have body: "bm_aligned (addBlockBody b m0)" if "bm_wf m0" "bm_aligned m0" for m0
    using that appendBlock_correct(2) [OF that(1) _ assms(3)] merge_aligned [OF that] merge_correct(1) [OF that(1)]
      appendBlock_correct(2) [OF merge_correct(1) [OF that(1)] _ assms(3)] assms(4)
    by (simp add: addBlockBody_def Let_def bm_aligned_def)
  let ?l = "(bm_lock m)\<lparr>sl_lock := 1, sl_enableIrqs := irq\<rparr>"
  have "bm_lock (addBlockBody b (m\<lparr>bm_lock := ?l\<rparr>)) = ?l"
    using addBlockBody_correct(3) [of "m\<lparr>bm_lock := ?l\<rparr>" b] wf assms(3) by simp
  from bml.under_lock_run [where body = "\<lambda>m. ((), addBlockBody b m)" and irq = irq, OF nl refl] this assms(5) True
  have "m' = (addBlockBody b (m\<lparr>bm_lock := ?l\<rparr>))\<lparr>bm_lock := (bm_lock m)\<lparr>sl_lock := 0, sl_enableIrqs := irq\<rparr>\<rparr>"
    by (auto simp: addBlock_def)
  then show ?thesis using body [of "m\<lparr>bm_lock := ?l\<rparr>"] wf assms(2) by simp
next
  case False
  with assms show ?thesis by (simp add: addBlock_def)
qed

text \<open>In an aligned map every non-empty block has room for a page, and what is handed out is aligned.\<close>

lemma page_gap:
  assumes "a < (b :: nat)" and "a mod 4096 = 0" and "b mod 4096 = 0"
  shows "4096 \<le> b - a"
proof -
  from assms(2,3) have "4096 dvd a" "4096 dvd b" by (simp_all add: dvd_eq_mod_eq_0)
  then obtain x y where "a = 4096 * x" "b = 4096 * y" by (auto elim!: dvdE)
  with assms(1) show ?thesis by (simp flip: diff_mult_distrib2)
qed

lemma aligned_can_satisfy:
  assumes "bm_inv m" and "bm_aligned m" and "free_set m \<noteq> {}"
  shows "can_satisfy PAGE_SIZE m"
proof -
  from assms(3) obtain a b where b: "b \<in> set (live m)" "a \<in> bytes b" by (auto simp: free_set_alt)
  then have "unat (b_start b) < unat (b_end b)" by (simp add: bytes_def)
  moreover have "unat (b_start b) mod 4096 = 0" "unat (b_end b) mod 4096 = 0"
    using assms(2) b(1) by (simp_all add: bm_aligned_def aligned_block_def)
  ultimately have "4096 \<le> unat (b_end b) - unat (b_start b)" by (rule page_gap)
  moreover have "wf_block b" using assms(1) b(1) by (simp add: bm_inv_def bm_wf_def)
  ultimately have "PAGE_SIZE \<le> capacity b" by (simp add: word_le_nat_alt unat_capacity)
  with b(1) show ?thesis by (auto simp: can_satisfy_def)
qed

lemma allocate_aligned:
  assumes "bm_inv m" and "bm_aligned m" and "can_satisfy n m" and n: "unat n mod 4096 = 0" and "allocate n (irq, m) = Inr (p, irq', m')"
  shows "unat p mod 4096 = 0 \<and> bm_aligned m'"
proof -
  have wf: "bm_wf m" and nl: "\<not> locked (bm_lock m)" using assms(1) by (simp_all add: bm_inv_def)
  let ?m = "m\<lparr>bm_lock := (bm_lock m)\<lparr>sl_lock := 1, sl_enableIrqs := irq\<rparr>\<rparr>"
  obtain q m1 where run: "allocateLoop n 0 ?m = (q, m1)" by fastforce
  have "bm_lock m1 = bm_lock ?m" using allocateLoop_correct(2) [OF _ run] wf by simp
  with bml.under_lock_run [where body = "allocateLoop n 0" and irq = irq, OF nl run] assms(5)
  have p: "p = q" "m' = m1\<lparr>bm_lock := (bm_lock m)\<lparr>sl_lock := 0, sl_enableIrqs := irq\<rparr>\<rparr>" by (auto simp: allocate_def)
  from assms(3) have sat: "\<exists>k < numBlocks m. n \<le> capacity (blocks m ! k)"
    using wf by (fastforce simp: can_satisfy_def live_def bm_wf_def in_set_conv_nth)
  from allocateLoop_cases [of 0 ?m n] obtain k where k: "k < numBlocks m" "n \<le> capacity (blocks m ! k)" and
    r: "q = b_start (blocks m ! k)" "m1 = ?m\<lparr>blocks := (blocks m)[k := (blocks m ! k)\<lparr>b_start := b_start (blocks m ! k) + n\<rparr>]\<rparr>"
    using sat run by (auto simp: not_le)
  let ?b = "blocks m ! k"
  have b: "?b \<in> set (live m)" using k(1) wf by (auto simp: live_def bm_wf_def intro: nth_mem_take)
  then have al: "aligned_block ?b" and wb: "wf_block ?b" using assms(2) wf by (simp_all add: bm_aligned_def bm_wf_def)
  have "unat (b_start ?b) + unat n \<le> unat (b_end ?b)"
    using k(2) unat_capacity [OF wb] wb by (simp add: word_le_nat_alt wf_block_unat)
  then have "unat (b_start ?b) + unat n < 2 ^ 64" by (rule le_less_trans) simp
  then have "unat (b_start ?b + n) = unat (b_start ?b) + unat n" by (simp add: unat_word_ariths)
  with al n have "aligned_block (?b\<lparr>b_start := b_start ?b + n\<rparr>)" by (auto simp: aligned_block_def)
  then have "bm_aligned m'"
    using assms(2) by (auto simp: p r bm_aligned_def live_def take_update_swap dest!: set_update_subset_insert [THEN subsetD])
  with al show ?thesis by (simp add: p(1) r(1) aligned_block_def)
qed

section \<open>The frame allocator's contract\<close>

lemma unat_div_page: "unat p mod 4096 = 0 \<Longrightarrow> unat (p div PAGE_SIZE) * 4096 = unat p"
  by (auto simp: unat_div)

lemma allocateFrame_ok:
  assumes "frames_ok m" and "free_set m \<noteq> {}"
  shows "\<exists>f m'. allocateFrame (irq, m) = Inr (f, irq, m') \<and> frames_ok m' \<and> f \<noteq> 0 \<and> unat f < 2 ^ 40 \<and>
           page_bytes f \<subseteq> free_set m \<and> free_set m' = free_set m - page_bytes f"
proof -
  from assms have inv: "bm_inv m" "bm_aligned m" "free_set m \<subseteq> {4096..<2 ^ 52}" by (simp_all add: frames_ok_def)
  have sat: "can_satisfy PAGE_SIZE m" by (rule aligned_can_satisfy [OF inv(1,2) assms(2)])
  from allocate_ok [OF inv(1) sat, of irq] obtain p m' where
    r: "allocate PAGE_SIZE (irq, m) = Inr (p, irq, m')" "bm_inv m'" "span p PAGE_SIZE \<subseteq> free_set m" "free_set m' = free_set m - span p PAGE_SIZE" by blast
  from allocate_aligned [OF inv(1,2) sat _ r(1)] have al: "unat p mod 4096 = 0" "bm_aligned m'" by simp_all
  have span: "span p PAGE_SIZE = page_bytes (p div PAGE_SIZE)"
    by (simp add: span_def page_bytes_def unat_div_page [OF al(1)])
  have "unat p \<in> span p PAGE_SIZE" by (simp add: span_def)
  then have "4096 \<le> unat p" "unat p < 2 ^ 52" using r(3) inv(3) by auto
  then have "unat (p div PAGE_SIZE) \<noteq> 0" "unat (p div PAGE_SIZE) < 2 ^ 40" by (simp_all add: unat_div)
  then have "p div PAGE_SIZE \<noteq> 0" "unat (p div PAGE_SIZE) < 2 ^ 40" by (metis unat_0, simp)
  with r al span inv(3) show ?thesis
    by (intro exI [of _ "p div PAGE_SIZE"] exI [of _ m']) (auto simp: allocateFrame_def frames_ok_def)
qed

text \<open>Without free memory the frame number 0 is returned, which callers must test for.\<close>

lemma allocateFrame_none:
  assumes "frames_ok m" and "free_set m = {}"
  shows "\<exists>m'. allocateFrame (irq, m) = Inr (0, irq, m') \<and> bm_inv m' \<and> free_set m' = {}"
proof -
  have inv: "bm_inv m" using assms(1) by (simp add: frames_ok_def)
  have "\<not> can_satisfy PAGE_SIZE m"
  proof
    assume "can_satisfy PAGE_SIZE m"
    from allocate_ok [OF inv this, of True] obtain p where "span p PAGE_SIZE \<subseteq> free_set m" by blast
    moreover have "unat p \<in> span p PAGE_SIZE" by (simp add: span_def)
    ultimately show False using assms(2) by auto
  qed
  from allocate_none [OF inv this, of irq] assms(2) show ?thesis by (auto simp: allocateFrame_def)
qed

lemma returnFrame_ok:
  assumes "frames_ok m" and "page_bytes f \<inter> free_set m = {}" and "f \<noteq> 0" and "unat f < 2 ^ 40"
  shows "\<exists>m'. returnFrame f (irq, m) = Inr ((), irq, m') \<and> frames_ok m' \<and>
           free_set m' = (if has_room m then free_set m \<union> page_bytes f else free_set m)"
proof -
  have inv: "bm_inv m" "bm_aligned m" "free_set m \<subseteq> {4096..<2 ^ 52}" using assms(1) by (simp_all add: frames_ok_def)
  have u: "unat (f * PAGE_SIZE) = unat f * 4096" using assms(4) by (simp add: unat_word_ariths)
  have u2: "unat (f * PAGE_SIZE + PAGE_SIZE) = unat f * 4096 + 4096"
    using assms(4) by (simp add: unat_word_ariths u)
  let ?b = "Block (f * PAGE_SIZE) (f * PAGE_SIZE + PAGE_SIZE)"
  have b: "wf_block ?b" "bytes ?b = page_bytes f" "aligned_block ?b"
    by (simp_all add: word_le_nat_alt u u2 page_bytes_def aligned_block_def Block_def bytes_def wf_block_def)
  from addBlock_ok [OF inv(1) b(1), unfolded b(2), OF assms(2), of irq] obtain m' where
    r: "addBlock ?b (irq, m) = Inr ((), irq, m')" "bm_inv m'" "free_set m' = (if has_room m then free_set m \<union> page_bytes f else free_set m)"
    by blast
  have "unat f \<noteq> 0" using assms(3) by (simp add: unat_eq_zero)
  then have "page_bytes f \<subseteq> {4096..<2 ^ 52}" using assms(4) by (auto simp: page_bytes_def)
  with r addBlock_aligned [OF inv(1,2) b(1,3) r(1)] inv(3) show ?thesis
    by (auto simp: returnFrame_def returnMemory_def frames_ok_def)
qed

end
