(* ===== verification/Paging.thy ===== *)
theory Paging
  imports Physical_Memory
begin

text \<open>
  The four-level page tables of x86-64
  (\<^verbatim>\<open>pageTables.h\<close>, \<^verbatim>\<open>arch/x86_64/kernel/paging/paging.cpp\<close>). The page tables live in physical memory, a
  function from frame numbers and entry indices to entries, and the kernel reaches them only through
  virtual addresses in the window at \<^verbatim>\<open>PAGE_TABLE_POINTER\<close>, which works because the last entry of the top
  table points to the top table itself. The model has the page walk of the processor (\<open>walk\<close>) and lets
  every access of the kernel to an entry go through it.
\<close>

section \<open>The processor's page walk\<close>

type_synonym table_memory = "u64 \<Rightarrow> nat \<Rightarrow> u64"

record memory =
  mem_tables :: table_memory
  mem_cr3 :: u64  \<comment> \<open>frame of the top table\<close>
  mem_phys :: blockmap
  mem_virt :: blockmap
  mem_irq :: bool
  mem_word :: "ptr \<Rightarrow> u64"  \<comment> \<open>words stored at virtual addresses (the headers of the heap)\<close>

definition present :: "u64 \<Rightarrow> bool" where
  "present e \<longleftrightarrow> bit e 0"

definition hw_frame :: "u64 \<Rightarrow> u64" where
  "hw_frame e = take_bit 40 (drop_bit 12 e)"

fun walk :: "table_memory \<Rightarrow> u64 \<Rightarrow> nat list \<Rightarrow> u64 option" where
  "walk pm f [] = Some f"
| "walk pm f (i # p) = (if present (pm f i) then walk pm (hw_frame (pm f i)) p else None)"

definition va_index :: "nat \<Rightarrow> u64 \<Rightarrow> nat" where
  "va_index s va = unat va div 2 ^ s mod 512"

definition va_path :: "u64 \<Rightarrow> nat list" where
  "va_path va = [va_index 39 va, va_index 30 va, va_index 21 va, va_index 12 va]"

definition page_of :: "memory \<Rightarrow> u64 \<Rightarrow> u64 option" where
  "page_of m va = walk (mem_tables m) (mem_cr3 m) (va_path va)"

text \<open>The entry that an 8-byte access at \<open>va\<close> reaches; an unmapped address faults.\<close>

definition slot :: "u64 \<Rightarrow> memory \<Rightarrow> (u64 \<times> nat) result" where
  "slot va m = (case page_of m va of None \<Rightarrow> Inl NullDereference | Some f \<Rightarrow> Inr (f, unat va mod 4096 div 8))"

definition read_entry :: "u64 \<Rightarrow> memory \<Rightarrow> u64 result" where
  "read_entry va m = rbind (slot va m) (\<lambda>(f, i). Inr (mem_tables m f i))"

definition put_entry :: "u64 \<Rightarrow> nat \<Rightarrow> u64 \<Rightarrow> memory \<Rightarrow> memory" where
  "put_entry f i e m = m\<lparr>mem_tables := (mem_tables m)(f := (mem_tables m f)(i := e))\<rparr>"

definition write_entry :: "u64 \<Rightarrow> u64 \<Rightarrow> memory \<Rightarrow> memory result" where
  "write_entry va e m = rbind (slot va m) (\<lambda>(f, i). Inr (put_entry f i e m))"

text \<open>\<^verbatim>\<open>memset(table, 0, 4096)\<close>\<close>

definition clear_table :: "u64 \<Rightarrow> memory \<Rightarrow> memory result" where
  "clear_table va m = rbind (slot va m) (\<lambda>(f, i). Inr (m\<lparr>mem_tables := (mem_tables m)(f := (\<lambda>_. 0))\<rparr>))"

section \<open>Flags\<close>

definition PRESENT :: u64 where "PRESENT = 1"

definition WRITABLE :: u64 where "WRITABLE = 2"

definition USER :: u64 where "USER = 4"

definition UNCACHEABLE :: u64 where "UNCACHEABLE = 16"

definition ALLOCATED :: u64 where "ALLOCATED = 2048"

text \<open>The overloaded \<^verbatim>\<open>operator|\<close> of the flags adds.\<close>

definition flags_or :: "u64 \<Rightarrow> u64 \<Rightarrow> u64" where
  "flags_or a b = a + b"

text \<open>The frame allocator on the memory state.\<close>

definition on_phys :: "(bool \<times> blockmap \<Rightarrow> ('r \<times> bool \<times> blockmap) result) \<Rightarrow> memory \<Rightarrow> ('r \<times> memory) result" where
  "on_phys f m =
     rbind (f (mem_irq m, mem_phys m)) (\<lambda>(r, irq, bm). Inr (r, m\<lparr>mem_irq := irq, mem_phys := bm\<rparr>))"

section \<open>The table window\<close>

definition PAGE_TABLE_POINTER :: u64 where
  "PAGE_TABLE_POINTER = 0xFFFFFF8000000000"

text \<open>The address of \<^verbatim>\<open>(*PAGE_TABLE_POINTER)[a][b][c][d]\<close>.\<close>

definition window :: "nat \<Rightarrow> nat \<Rightarrow> nat \<Rightarrow> nat \<Rightarrow> u64" where
  "window a b c d = PAGE_TABLE_POINTER + of_nat ((((a * 512 + b) * 512 + c) * 512 + d) * 8)"

definition PML4ENTRY :: "nat \<Rightarrow> u64" where
  "PML4ENTRY i4 = window 511 511 511 i4"

definition PML3ENTRY :: "nat \<Rightarrow> nat \<Rightarrow> u64" where
  "PML3ENTRY i4 i3 = window 511 511 i4 i3"

definition PML2ENTRY :: "nat \<Rightarrow> nat \<Rightarrow> nat \<Rightarrow> u64" where
  "PML2ENTRY i4 i3 i2 = window 511 i4 i3 i2"

definition PML1ENTRY :: "nat \<Rightarrow> nat \<Rightarrow> nat \<Rightarrow> nat \<Rightarrow> u64" where
  "PML1ENTRY i4 i3 i2 i1 = window i4 i3 i2 i1"

section \<open>Mapping and unmapping a page\<close>

definition allocatePageTable :: "memory \<Rightarrow> (u64 \<times> memory) result" where
  "allocatePageTable m =
     rbind (on_phys allocateFrame m) (\<lambda>(f, m1).
       Inr (flags_or (flags_or (flags_or (flags_or (push_bit 12 f) PRESENT) WRITABLE) ALLOCATED) USER, m1))"

text \<open>
  One of the three checks of \<^verbatim>\<open>getPageTableEntry\<close>: the table below the entry at \<open>entry\<close> exists, or is
  allocated and cleared through its own address \<open>table\<close>. The result says whether it exists now.
\<close>

definition ensureTable :: "u64 \<Rightarrow> u64 \<Rightarrow> bool \<Rightarrow> memory \<Rightarrow> (bool \<times> memory) result" where
  "ensureTable entry table allocatePageTables m =
     rbind (read_entry entry m) (\<lambda>e.
       if e AND PRESENT = 0 then
         if allocatePageTables then
           rbind (allocatePageTable m) (\<lambda>(t, m1).
           rbind (write_entry entry t m1) (\<lambda>m2.
           rbind (clear_table table m2) (\<lambda>m3. Inr (True, m3))))
         else Inr (False, m)
       else Inr (True, m))"

definition getPageTableEntry :: "u64 \<Rightarrow> bool \<Rightarrow> memory \<Rightarrow> (ptr \<times> memory) result" where
  "getPageTableEntry virtualAddress allocatePageTables m =
     (let address = virtualAddress AND (push_bit 48 1 - 1);
          pml1Index = unat (drop_bit 12 address AND 511);
          pml2Index = unat (drop_bit 21 address AND 511);
          pml3Index = unat (drop_bit 30 address AND 511);
          pml4Index = unat (drop_bit 39 address AND 511)
      in rbind (ensureTable (PML4ENTRY pml4Index) (PML3ENTRY pml4Index 0) allocatePageTables m) (\<lambda>(ok4, m1).
           if \<not> ok4 then Inr (nullptr, m1)
           else rbind (ensureTable (PML3ENTRY pml4Index pml3Index) (PML2ENTRY pml4Index pml3Index 0) allocatePageTables m1) (\<lambda>(ok3, m2).
             if \<not> ok3 then Inr (nullptr, m2)
             else rbind (ensureTable (PML2ENTRY pml4Index pml3Index pml2Index)
                           (PML1ENTRY pml4Index pml3Index pml2Index 0) allocatePageTables m2) (\<lambda>(ok2, m3).
               if \<not> ok2 then Inr (nullptr, m3)
               else Inr (PML1ENTRY pml4Index pml3Index pml2Index pml1Index, m3)))))"

definition mapPage :: "u64 \<Rightarrow> u64 \<Rightarrow> u64 \<Rightarrow> bool \<Rightarrow> bool \<Rightarrow> memory \<Rightarrow> memory result" where
  "mapPage virtualAddress physicalAddress flags allocated cacheable m =
     (let flags1 = flags_or flags PRESENT;
          flags2 = (if allocated then flags_or flags1 ALLOCATED else flags1);
          flags3 = (if \<not> cacheable then flags_or flags2 UNCACHEABLE else flags2);
          pageTableEntry = flags3 OR (physicalAddress AND NOT 4095)
      in rbind (getPageTableEntry virtualAddress True m) (\<lambda>(p, m1). write_entry p pageTableEntry m1))"

definition unmapPage :: "u64 \<Rightarrow> memory \<Rightarrow> memory result" where
  "unmapPage virtualAddress m =
     rbind (getPageTableEntry virtualAddress False m) (\<lambda>(p, m1).
       if p \<noteq> nullptr then
         rbind (read_entry p m1) (\<lambda>e.
         rbind (if e AND ALLOCATED \<noteq> 0 then on_phys (returnFrame (drop_bit 12 e AND (push_bit 52 1 - 1))) m1 else Inr ((), m1)) (\<lambda>(u, m2).
           write_entry p 0 m2))
       else Inr m1)"

section \<open>Addresses\<close>

lemma unat_window:
  assumes "a < 512" "b < 512" "c < 512" "d < 512"
  shows "unat (window a b c d) = 33554431 * 2 ^ 39 + a * 2 ^ 30 + b * 2 ^ 21 + c * 2 ^ 12 + d * 8"
proof -
  let ?n = "(((a * 512 + b) * 512 + c) * 512 + d) * 8"
  have "?n < 2 ^ 39" using assms by simp
  then have "unat (of_nat ?n :: u64) = ?n" by (intro unat_of_nat_small) simp
  moreover have "unat PAGE_TABLE_POINTER = 33554431 * 2 ^ 39" by (simp add: PAGE_TABLE_POINTER_def)
  ultimately have "unat (window a b c d) = (33554431 * 2 ^ 39 + ?n) mod 2 ^ 64"
    by (simp only: window_def unat_word_ariths) simp
  also have "\<dots> = 33554431 * 2 ^ 39 + ?n" using \<open>?n < 2 ^ 39\<close> by simp
  finally show ?thesis by simp
qed

lemma va_path_window:
  assumes "a < 512" "b < 512" "c < 512" "d < 512"
  shows "va_path (window a b c d) = [511, a, b, c]" and "unat (window a b c d) mod 4096 div 8 = d"
proof -
  have e: "unat (window a b c d) = ((((33554431 * 512 + a) * 512 + b) * 512 + c) * 512 + d) * 8"
    by (simp add: unat_window [OF assms])
  have div9: "(x * 512 + y) div 512 = x" "(x * 512 + y) mod 512 = y" if "y < 512" for x y :: nat using that by auto
  let ?d = "unat (window a b c d) div 8"
  have d: "?d = (((33554431 * 512 + a) * 512 + b) * 512 + c) * 512 + d" by (simp add: e)
  have s: "unat (window a b c d) div 2 ^ 12 = ?d div 512" "unat (window a b c d) div 2 ^ 21 = ?d div 512 div 512"
    "unat (window a b c d) div 2 ^ 30 = ?d div 512 div 512 div 512" "unat (window a b c d) div 2 ^ 39 = ?d div 512 div 512 div 512 div 512"
    by (simp_all add: div_mult2_eq [symmetric])
  show "va_path (window a b c d) = [511, a, b, c]"
    unfolding va_path_def va_index_def s d using assms by (simp only: div9) simp
  have "unat (window a b c d) mod 4096 div 8 = ?d mod 512"
    using div_mult_mod_eq mod_mult2_eq [of "unat (window a b c d)" 8 512] by simp
  then show "unat (window a b c d) mod 4096 div 8 = d" unfolding d by (simp only: div9 assms)
qed

lemma index_of_masked:
  assumes "s + 9 \<le> 48"
  shows "unat (drop_bit s (va AND (push_bit 48 1 - 1)) AND 511) = va_index s va"
proof -
  have "va AND (push_bit 48 1 - 1) = take_bit 48 va" "x AND 511 = take_bit 9 x" for x :: u64
    by (simp_all add: take_bit_eq_mask mask_eq_exp_minus_1)
  then have "unat (drop_bit s (va AND (push_bit 48 1 - 1)) AND 511) = take_bit 9 (drop_bit s (take_bit 48 (unat va)))"
    by (simp only: unsigned_take_bit_eq unsigned_drop_bit_eq) simp
  also have "\<dots> = take_bit 9 (drop_bit s (unat va))"
    using assms by (auto intro!: bit_eqI simp: bit_simps)
  finally show ?thesis by (simp add: va_index_def take_bit_eq_mod drop_bit_eq_div)
qed

lemma va_index_less [simp]: "va_index s va < 512"
  by (simp add: va_index_def)

section \<open>Walks\<close>

lemma walk_append: "walk pm f (p @ q) = Option.bind (walk pm f p) (\<lambda>g. walk pm g q)"
  by (induction p arbitrary: f) auto

lemma walk_snoc:
  "walk pm f (p @ [i]) = (case walk pm f p of None \<Rightarrow> None | Some g \<Rightarrow> if present (pm g i) then Some (hw_frame (pm g i)) else None)"
  by (simp add: walk_append split: option.split)

text \<open>The last entry of the top table leads back to the top table: prefixing 511 to a path changes nothing.\<close>

definition self_mapped :: "memory \<Rightarrow> bool" where
  "self_mapped m \<longleftrightarrow>
     present (mem_tables m (mem_cr3 m) 511) \<and> hw_frame (mem_tables m (mem_cr3 m) 511) = mem_cr3 m"

lemma walk_self: "self_mapped m \<Longrightarrow> walk (mem_tables m) (mem_cr3 m) (511 # p) = walk (mem_tables m) (mem_cr3 m) p"
  by (simp add: self_mapped_def)

abbreviation table_at :: "memory \<Rightarrow> nat list \<Rightarrow> u64 option" where
  "table_at m p \<equiv> walk (mem_tables m) (mem_cr3 m) p"

text \<open>Which entry each access through the window reaches: the entry of the table on that path.\<close>

lemma slot_window:
  assumes "self_mapped m" and "a < 512" "b < 512" "c < 512" "d < 512"
  shows "slot (window a b c d) m = (case table_at m [a, b, c] of None \<Rightarrow> Inl NullDereference | Some f \<Rightarrow> Inr (f, d))"
  using va_path_window [OF assms(2-5)] walk_self [OF assms(1)]
  by (simp add: slot_def page_of_def del: walk.simps split: option.split)

lemma slot_entries:
  assumes "self_mapped m" and "i4 < 512" "i3 < 512" "i2 < 512" "i1 < 512"
  shows "slot (PML4ENTRY i4) m = (case table_at m [] of None \<Rightarrow> Inl NullDereference | Some f \<Rightarrow> Inr (f, i4))"
    and "slot (PML3ENTRY i4 i3) m = (case table_at m [i4] of None \<Rightarrow> Inl NullDereference | Some f \<Rightarrow> Inr (f, i3))"
    and "slot (PML2ENTRY i4 i3 i2) m = (case table_at m [i4, i3] of None \<Rightarrow> Inl NullDereference | Some f \<Rightarrow> Inr (f, i2))"
    and "slot (PML1ENTRY i4 i3 i2 i1) m = (case table_at m [i4, i3, i2] of None \<Rightarrow> Inl NullDereference | Some f \<Rightarrow> Inr (f, i1))"
  using assms slot_window walk_self
  by (simp_all add: PML4ENTRY_def PML3ENTRY_def PML2ENTRY_def PML1ENTRY_def del: walk.simps)

lemmas slots =
  slot_entries(1) [where ?i3.0 = 0 and ?i2.0 = 0 and ?i1.0 = 0, simplified]
  slot_entries(2) [where ?i2.0 = 0 and ?i1.0 = 0, simplified]
  slot_entries(3) [where ?i1.0 = 0, simplified]
  slot_entries(4) [simplified]

section \<open>Well-formed page tables\<close>

text \<open>
  Paths that do not start in the recursive entry reach the tables as a tree; no table is free memory.
\<close>

definition plain :: "nat list \<Rightarrow> bool" where
  "plain p \<longleftrightarrow> (\<forall>i \<in> set p. i < 512) \<and> (p \<noteq> [] \<longrightarrow> hd p \<noteq> 511)"

definition is_table :: "memory \<Rightarrow> nat list \<Rightarrow> u64 \<Rightarrow> bool" where
  "is_table m p f \<longleftrightarrow> plain p \<and> length p \<le> 3 \<and> table_at m p = Some f"

definition pt_ok :: "memory \<Rightarrow> bool" where
  "pt_ok m \<longleftrightarrow> self_mapped m \<and> frames_ok (mem_phys m) \<and>
     (\<forall>p q f. is_table m p f \<longrightarrow> is_table m q f \<longrightarrow> p = q) \<and>
     (\<forall>p f. is_table m p f \<longrightarrow> page_bytes f \<inter> free_set (mem_phys m) = {})"

lemma pt_okD:
  assumes "pt_ok m"
  shows "self_mapped m" "frames_ok (mem_phys m)" "is_table m p f \<Longrightarrow> is_table m q f \<Longrightarrow> p = q"
    "is_table m p f \<Longrightarrow> page_bytes f \<inter> free_set (mem_phys m) = {}"
  using assms by (auto simp: pt_ok_def)

lemma plain_butlast: "plain (r @ [j]) \<Longrightarrow> plain r"
  by (cases r) (auto simp: plain_def)

lemma is_table_root [simp]: "is_table m [] (mem_cr3 m)"
  by (simp add: is_table_def plain_def)

text \<open>Writing entry \<open>i\<close> of the table on path \<open>p\<close> matters only to paths through that entry.\<close>

lemma walk_put:
  assumes ok: "pt_ok m" and t: "is_table m p f" and r: "plain r" "length r \<le> 4" "\<And>q. r \<noteq> p @ i # q"
  shows "table_at (put_entry f i e m) r = table_at m r"
  using r
proof (induction r rule: rev_induct)
  case Nil
  then show ?case by (simp add: put_entry_def)
next
  case (snoc j r)
  have pl: "plain r" by (rule plain_butlast [OF snoc.prems(1)])
  have "r \<noteq> p @ i # q" for q using snoc.prems(3) [of "q @ [j]"] by auto
  then have IH: "table_at (put_entry f i e m) r = table_at m r" using snoc.IH pl snoc.prems(2) by simp
  show ?case
  proof (cases "table_at m r")
    case None
    then show ?thesis using IH by (simp add: walk_snoc)
  next
    case (Some g)
    then have "is_table m r g" using pl snoc.prems(2) by (simp add: is_table_def)
    then have "g = f \<Longrightarrow> r = p" using pt_okD(3) [OF ok _ t] by blast
    moreover have "r @ [j] \<noteq> p @ [i]" using snoc.prems(3) [of "[]"] by auto
    ultimately have "mem_tables (put_entry f i e m) g j = mem_tables m g j" by (auto simp: put_entry_def)
    then show ?thesis using IH Some by (simp add: walk_snoc)
  qed
qed

lemma walk_put_here:
  assumes "pt_ok m" and "is_table m p f"
  shows "table_at (put_entry f i e m) (p @ i # q)
           = (if present e then walk (mem_tables (put_entry f i e m)) (hw_frame e) q else None)"
proof -
  have "table_at (put_entry f i e m) p = Some f"
    using walk_put [OF assms, of p i e] assms(2) by (simp add: is_table_def)
  then show ?thesis by (simp add: walk_append) (simp add: put_entry_def)
qed

text \<open>A frame that is not a table can be cleared freely.\<close>

lemma walk_clear:
  assumes f: "\<And>p. \<not> is_table m p f" and r: "plain r" "length r \<le> 4"
  shows "table_at (m\<lparr>mem_tables := (mem_tables m)(f := h)\<rparr>) r = table_at m r"
  using r
proof (induction r rule: rev_induct)
  case (snoc j r)
  have pl: "plain r" by (rule plain_butlast [OF snoc.prems(1)])
  then have IH: "table_at (m\<lparr>mem_tables := (mem_tables m)(f := h)\<rparr>) r = table_at m r" using snoc.IH [OF pl] snoc.prems(2) by (simp del: fun_upd_apply)
  show ?case
  proof (cases "table_at m r")
    case None
    then show ?thesis using IH by (simp add: walk_snoc del: fun_upd_apply)
  next
    case (Some g)
    then have "is_table m r g" using pl snoc.prems(2) by (simp add: is_table_def)
    then have "g \<noteq> f" using f by blast
    then show ?thesis using IH Some by (simp add: walk_snoc fun_upd_other del: fun_upd_apply)
  qed
qed simp

lemma self_mapped_put:
  assumes ok: "pt_ok m" and t: "is_table m p f" and i: "p = [] \<Longrightarrow> i \<noteq> 511"
  shows "self_mapped (put_entry f i e m)"
proof -
  have "f = mem_cr3 m \<Longrightarrow> p = []" using pt_okD(3) [OF ok t, of "[]"] by simp
  with i have "mem_tables (put_entry f i e m) (mem_cr3 m) 511 = mem_tables m (mem_cr3 m) 511"
    by (auto simp: put_entry_def)
  then show ?thesis using pt_okD(1) [OF ok] by (simp add: self_mapped_def put_entry_def)
qed

text \<open>Writing an entry of a last-level table keeps the tables in order.\<close>

lemma is_table_put_leaf:
  assumes ok: "pt_ok m" and t: "is_table m p f" and p: "length p = 3"
  shows "is_table (put_entry f i e m) r g = is_table m r g"
proof -
  have same: "table_at (put_entry f i e m) r = table_at m r" if "plain r" "length r \<le> 3" for r
  proof -
    have "r \<noteq> p @ i # q" for q using that(2) p by auto
    then show ?thesis using walk_put [OF ok t that(1)] that(2) by simp
  qed
  then show ?thesis by (auto simp: is_table_def)
qed

lemma pt_ok_put_leaf:
  assumes ok: "pt_ok m" and t: "is_table m p f" and p: "length p = 3"
  shows "pt_ok (put_entry f i e m)"
proof -
  have "p = [] \<Longrightarrow> i \<noteq> 511" using p by simp
  then show ?thesis
    using ok self_mapped_put [OF ok t] is_table_put_leaf [OF assms] unfolding pt_ok_def by (auto simp: put_entry_def)
qed

text \<open>Hanging a cleared, fresh table under an entry that was not present.\<close>

lemma pt_ok_new_table:
  assumes ok: "pt_ok m" and t: "is_table m p f" and p: "length p \<le> 2" and i: "i < 512" "p = [] \<Longrightarrow> i \<noteq> 511"
    and e: "present e" "hw_frame e = g" and np: "\<not> present (mem_tables m f i)"
    and fresh: "page_bytes g \<subseteq> free_set (mem_phys m)"
    and bm: "frames_ok bm" "free_set bm = free_set (mem_phys m) - page_bytes g"
    and m': "m' = (put_entry f i e m)\<lparr>mem_tables := (mem_tables (put_entry f i e m))(g := (\<lambda>_. 0)), mem_phys := bm, mem_irq := q\<rparr>"
  shows "pt_ok m' \<and> is_table m' (p @ [i]) g \<and> (\<forall>r. plain r \<longrightarrow> length r = 4 \<longrightarrow> table_at m' r = table_at m r) \<and>
         (\<forall>r h. is_table m r h \<longrightarrow> is_table m' r h \<and> (length r = 3 \<longrightarrow> mem_tables m' h = mem_tables m h)) \<and>
         (\<forall>r h. is_table m' r h \<longrightarrow> is_table m r h \<or> page_bytes h \<subseteq> free_set (mem_phys m))"
proof -
  have nt: "\<not> is_table m r g" for r
  proof
    assume "is_table m r g"
    from pt_okD(4) [OF ok this] fresh have "page_bytes g = {}" by blast
    then show False by (simp add: page_bytes_def)
  qed
  let ?m0 = "m\<lparr>mem_tables := (mem_tables m)(g := (\<lambda>_. 0)), mem_phys := bm, mem_irq := q\<rparr>"
  have w0: "table_at ?m0 r = table_at m r" if "plain r" "length r \<le> 4" for r
    using walk_clear [OF nt that, of "\<lambda>_. 0"] by simp
  then have t0: "is_table ?m0 r h = is_table m r h" for r h by (auto simp: is_table_def)
  have g: "g \<noteq> f" "g \<noteq> mem_cr3 m" using nt t is_table_root by blast+
  have "page_bytes h \<inter> free_set bm = {}" if "is_table m r h" for r h
    using pt_okD(4) [OF ok that] bm(2) by blast
  then have ok0: "pt_ok ?m0"
    using ok g(2) bm(1) t0 unfolding pt_ok_def self_mapped_def by simp
  have eq: "m' = put_entry f i e ?m0" using g(1) by (simp add: m' put_entry_def fun_upd_twist)
  have tf: "is_table ?m0 p f" using t by (simp add: t0)
  have pli: "plain (p @ [i])" using t i by (cases p) (auto simp: is_table_def plain_def)
  have here: "table_at m' (p @ [i]) = Some g" using walk_put_here [OF ok0 tf, of i e "[]"] e by (simp add: eq)
  have zero: "table_at m' (p @ i # j # r) = None" for j r
    using walk_put_here [OF ok0 tf, of i e "j # r"] e g(1) by (simp add: eq put_entry_def present_def)
  have before: "table_at m (p @ i # r) = None" for r
    using t np by (simp add: is_table_def walk_append)
  have away: "table_at m' r = table_at m r" if "plain r" "length r \<le> 4" "\<And>q. r \<noteq> p @ i # q" for r
    using walk_put [OF ok0 tf that, of e] w0 [OF that(1,2)] by (simp add: eq)
  have iff: "is_table m' r h \<longleftrightarrow> is_table m r h \<or> r = p @ [i] \<and> h = g" for r h
  proof (cases "\<exists>q. r = p @ i # q")
    case True
    then obtain q where r: "r = p @ i # q" by blast
    show ?thesis
      using here zero pli p before by (cases q) (auto simp: is_table_def r)
  next
    case False
    then show ?thesis using away [of r] by (auto simp: is_table_def)
  qed
  have "table_at m' r = table_at m r" if r: "plain r" "length r = 4" for r
  proof (cases "\<exists>q. r = p @ i # q")
    case True
    then obtain q where q: "r = p @ i # q" by blast
    then obtain j q' where "q = j # q'" using r(2) p by (cases q) auto
    then show ?thesis using zero before q by simp
  next
    case False
    then show ?thesis using away r by simp
  qed
  moreover have "pt_ok m'"
    unfolding pt_ok_def
  proof (intro conjI allI impI)
    show "self_mapped m'" using self_mapped_put [OF ok0 tf, of i e] i(2) by (simp add: eq)
    show "frames_ok (mem_phys m')" using bm(1) by (simp add: m')
    show "a = b" if "is_table m' a h" "is_table m' b h" for a b h
    proof (cases "h = g")
      case True
      with that nt show ?thesis by (simp add: iff)
    next
      case False
      with that show ?thesis using pt_okD(3) [OF ok, of a h b] by (simp add: iff)
    qed
    show "page_bytes h \<inter> free_set (mem_phys m') = {}" if "is_table m' a h" for a h
    proof (cases "h = g")
      case True
      then show ?thesis by (simp add: m' bm(2))
    next
      case False
      with that have "is_table m a h" by (simp add: iff)
      from pt_okD(4) [OF ok this] show ?thesis by (simp add: m' bm(2) Diff_Int_distrib)
    qed
  qed
  moreover have "mem_tables m' h = mem_tables m h" if h: "is_table m r h" "length r = 3" for r h
  proof -
    have "h \<noteq> f" using pt_okD(3) [OF ok h(1), of p] t p h(2) by auto
    moreover have "h \<noteq> g" using nt h(1) by blast
    ultimately show ?thesis by (simp add: m' put_entry_def)
  qed
  ultimately show ?thesis using iff fresh by blast
qed

section \<open>Entries\<close>

lemma present_iff: "present e \<longleftrightarrow> odd (unat e)"
  using bit_unsigned_iff [of e 0, where 'a = nat] by (simp add: present_def bit_0)

lemma unat_hw_frame: "unat (hw_frame e) = unat e div 4096 mod 2 ^ 40"
  by (simp add: hw_frame_def unsigned_take_bit_eq unsigned_drop_bit_eq take_bit_eq_mod drop_bit_eq_div
      unat_div unat_mod)

lemma present_zero [simp]: "\<not> present 0"
  by (simp add: present_iff)

definition table_flags :: "u64 \<Rightarrow> u64" where
  "table_flags f = flags_or (flags_or (flags_or (flags_or (push_bit 12 f) PRESENT) WRITABLE) ALLOCATED) USER"

lemma table_entry:
  assumes "unat f < 2 ^ 40"
  shows "present (table_flags f)" and "hw_frame (table_flags f) = f"
proof -
  have e: "table_flags f = push_bit 12 f + 2055"
    by (simp add: table_flags_def flags_or_def PRESENT_def WRITABLE_def ALLOCATED_def USER_def)
  have u: "unat (push_bit 12 f) = unat f * 4096"
    using assms by (simp add: push_bit_eq_mult unat_word_ariths mult.commute)
  have ue: "unat (table_flags f) = unat f * 4096 + 2055" using assms by (simp add: e unat_word_ariths u)
  then show "present (table_flags f)" by (simp add: present_iff)
  show "hw_frame (table_flags f) = f" using assms by (simp add: word_unat_eq_iff unat_hw_frame ue)
qed

text \<open>The flags \<^verbatim>\<open>mapPage\<close> computes from \<^verbatim>\<open>WRITABLE\<close>, the only flags its callers pass.\<close>

definition page_flags :: "bool \<Rightarrow> bool \<Rightarrow> u64" where
  "page_flags allocated cacheable = 3 + (if allocated then 2048 else 0) + (if cacheable then 0 else 16)"

definition page_entry :: "u64 \<Rightarrow> bool \<Rightarrow> bool \<Rightarrow> u64" where
  "page_entry pa allocated cacheable = page_flags allocated cacheable OR (pa AND NOT 4095)"

lemma mapPage_entry:
  "mapPage va pa WRITABLE allocated cacheable m =
     rbind (getPageTableEntry va True m) (\<lambda>(p, m1). write_entry p (page_entry pa allocated cacheable) m1)"
  by (simp add: mapPage_def page_entry_def page_flags_def flags_or_def WRITABLE_def PRESENT_def ALLOCATED_def UNCACHEABLE_def Let_def)

lemma unat_page_entry:
  "unat (page_entry pa allocated cacheable) = unat pa div 4096 * 4096 + unat (page_flags allocated cacheable)"
proof -
  let ?fl = "page_flags allocated cacheable"
  have fl: "unat ?fl < 4096" by (simp add: page_flags_def)
  have "take_bit 12 ?fl = ?fl"
    using fl by (simp add: word_unat_eq_iff take_bit_eq_mod unat_mod)
  then have dis: "\<not> bit ?fl n" if "12 \<le> n" for n using that by (metis bit_take_bit_iff not_le)
  have m: "(4095 :: u64) = mask 12" by (simp add: mask_eq_exp_minus_1)
  have hi: "bit (pa AND NOT (mask 12)) n \<longleftrightarrow> 12 \<le> n \<and> bit pa n" for n
    by (auto simp: bit_simps dest: bit_imp_le_length)
  have "unat (page_entry pa allocated cacheable) = unat (?fl + (pa AND NOT (mask 12)))"
    unfolding page_entry_def m
    by (rule arg_cong [of _ _ unat], rule disjunctive_add [symmetric]) (use dis hi in auto)
  moreover have "unat (pa AND NOT (mask 12)) = unat pa div 4096 * 4096"
  proof -
    have "pa AND NOT (mask 12) = push_bit 12 (drop_bit 12 pa)"
      by (rule bit_eqI) (auto simp: bit_simps dest: bit_imp_le_length)
    also have "\<dots> = pa div 4096 * 4096" by (simp add: push_bit_eq_mult drop_bit_eq_div mult.commute)
    finally have eq: "pa AND NOT (mask 12) = pa div 4096 * 4096" .
    have "unat pa div 4096 * 4096 \<le> unat pa" by simp
    also have "unat pa < 2 ^ 64" by simp
    finally show ?thesis by (simp only: eq unat_word_ariths unat_div) simp
  qed
  moreover have "unat pa div 4096 * 4096 + 4095 < 2 ^ 64"
  proof -
    have "unat pa \<le> 2 ^ 64 - 1" using unat_u64_bound [of pa] unfolding less_eq_Suc_le by simp
    then have "unat pa div 4096 \<le> (2 ^ 64 - 1) div 4096" by (rule div_le_mono)
    then show ?thesis by simp
  qed
  ultimately show ?thesis using fl unat_add_u64 [of ?fl "pa AND NOT (mask 12)"] by linarith
qed

lemma page_entry_ok:
  assumes "unat pa < 2 ^ 52"
  shows "present (page_entry pa allocated cacheable)" and "hw_frame (page_entry pa allocated cacheable) = drop_bit 12 pa"
proof -
  have fl: "unat (page_flags allocated cacheable) < 4096" "odd (unat (page_flags allocated cacheable))"
    by (simp_all add: page_flags_def)
  show "present (page_entry pa allocated cacheable)" using fl(2) by (simp add: present_iff unat_page_entry)
  have "unat (page_entry pa allocated cacheable) div 4096 = unat pa div 4096" using fl(1) by (simp add: unat_page_entry)
  then show "hw_frame (page_entry pa allocated cacheable) = drop_bit 12 pa"
    using assms by (simp add: word_unat_eq_iff unat_hw_frame drop_bit_eq_div unat_div)
qed

section \<open>Making sure a table exists\<close>

text \<open>What never changes while pages are mapped, and what a step may use up.\<close>

definition pt_frame :: "memory \<Rightarrow> memory \<Rightarrow> bool" where
  "pt_frame m m' \<longleftrightarrow> mem_cr3 m' = mem_cr3 m \<and> mem_virt m' = mem_virt m \<and> mem_irq m' = mem_irq m \<and> mem_word m' = mem_word m"

definition pt_step :: "nat \<Rightarrow> memory \<Rightarrow> memory \<Rightarrow> bool" where
  "pt_step n m m' \<longleftrightarrow> pt_ok m' \<and> pt_frame m m' \<and> free_set (mem_phys m') \<subseteq> free_set (mem_phys m) \<and>
     card (free_set (mem_phys m)) \<le> card (free_set (mem_phys m')) + n * 4096 \<and>
     (\<forall>r. plain r \<longrightarrow> length r = 4 \<longrightarrow> table_at m' r = table_at m r) \<and>
     (\<forall>r h. is_table m r h \<longrightarrow> is_table m' r h \<and> (length r = 3 \<longrightarrow> mem_tables m' h = mem_tables m h)) \<and>
     (\<forall>r h. is_table m' r h \<longrightarrow> is_table m r h \<or> page_bytes h \<subseteq> free_set (mem_phys m))"

lemma pt_step_refl: "pt_ok m \<Longrightarrow> pt_step n m m"
  by (simp add: pt_step_def pt_frame_def)

lemma pt_step_trans:
  assumes "pt_step a m m1" and "pt_step b m1 m2"
  shows "pt_step (a + b) m m2"
proof -
  have "is_table m r h \<or> page_bytes h \<subseteq> free_set (mem_phys m)" if "is_table m2 r h" for r h
    using assms that unfolding pt_step_def by blast
  moreover have "is_table m2 r h \<and> (length r = 3 \<longrightarrow> mem_tables m2 h = mem_tables m h)" if "is_table m r h" for r h
    using assms that unfolding pt_step_def by metis
  moreover have "free_set (mem_phys m2) \<subseteq> free_set (mem_phys m)" using assms unfolding pt_step_def by blast
  moreover have "card (free_set (mem_phys m)) \<le> card (free_set (mem_phys m2)) + (a + b) * 4096"
    using assms unfolding pt_step_def add_mult_distrib by linarith
  moreover have "table_at m2 r = table_at m r" if "plain r" "length r = 4" for r
    using assms that unfolding pt_step_def by metis
  moreover have "pt_ok m2" "pt_frame m m2" using assms by (simp_all add: pt_step_def pt_frame_def)
  ultimately show ?thesis unfolding pt_step_def by blast
qed

lemma finite_free [simp]: "frames_ok m \<Longrightarrow> finite (free_set m)"
  by (auto simp: frames_ok_def intro: finite_subset)

lemma card_page_bytes: "card (page_bytes f) = 4096"
  by (simp add: page_bytes_def)

lemma and_PRESENT: "e AND PRESENT = 0 \<longleftrightarrow> \<not> present e"
  by (simp add: PRESENT_def present_def and_one_eq bit_0 even_iff_mod_2_eq_zero)

lemma allocatePageTable_ok:
  assumes "frames_ok (mem_phys m)" and "free_set (mem_phys m) \<noteq> {}"
  shows "\<exists>g bm. allocatePageTable m = Inr (table_flags g, m\<lparr>mem_phys := bm\<rparr>) \<and> frames_ok bm \<and> unat g < 2 ^ 40 \<and>
           page_bytes g \<subseteq> free_set (mem_phys m) \<and> free_set bm = free_set (mem_phys m) - page_bytes g"
proof -
  from allocateFrame_ok [OF assms, of "mem_irq m"] obtain f bm where
    "allocateFrame (mem_irq m, mem_phys m) = Inr (f, mem_irq m, bm)" "frames_ok bm" "unat f < 2 ^ 40"
    "page_bytes f \<subseteq> free_set (mem_phys m)" "free_set bm = free_set (mem_phys m) - page_bytes f" by blast
  then show ?thesis
    by (intro exI [of _ f] exI [of _ bm]) (simp add: allocatePageTable_def on_phys_def table_flags_def)
qed

lemma ensureTable_ok:
  assumes ok: "pt_ok m" and t: "is_table m p f" and p: "length p \<le> 2" and i: "i < 512" "p = [] \<Longrightarrow> i \<noteq> 511"
    and entry: "\<And>m. self_mapped m \<Longrightarrow> slot ev m = (case table_at m p of None \<Rightarrow> Inl NullDereference | Some f \<Rightarrow> Inr (f, i))"
    and table: "\<And>m. self_mapped m \<Longrightarrow> slot tv m = (case table_at m (p @ [i]) of None \<Rightarrow> Inl NullDereference | Some f \<Rightarrow> Inr (f, 0))"
    and free: "free_set (mem_phys m) \<noteq> {}"
  shows "\<exists>m' g. ensureTable ev tv True m = Inr (True, m') \<and> pt_step 1 m m' \<and> is_table m' (p @ [i]) g"
proof -
  have tf: "table_at m p = Some f" using t by (simp add: is_table_def)
  have rd: "read_entry ev m = Inr (mem_tables m f i)"
    using entry [OF pt_okD(1) [OF ok]] tf by (simp add: read_entry_def)
  have pli: "plain (p @ [i])" using t i by (cases p) (auto simp: is_table_def plain_def)
  show ?thesis
  proof (cases "present (mem_tables m f i)")
    case True
    then have "is_table m (p @ [i]) (hw_frame (mem_tables m f i))"
      using tf pli p by (simp add: is_table_def walk_snoc)
    moreover have "ensureTable ev tv True m = Inr (True, m)"
      using rd True by (simp add: ensureTable_def and_PRESENT)
    ultimately show ?thesis using pt_step_refl [OF ok] by blast
  next
    case False
    from allocatePageTable_ok [OF pt_okD(2) [OF ok] free] obtain g bm where
      al: "allocatePageTable m = Inr (table_flags g, m\<lparr>mem_phys := bm\<rparr>)" and bm: "frames_ok bm" "unat g < 2 ^ 40"
        "page_bytes g \<subseteq> free_set (mem_phys m)" "free_set bm = free_set (mem_phys m) - page_bytes g" by blast
    note e = table_entry [OF bm(2)]
    let ?m1 = "m\<lparr>mem_phys := bm\<rparr>"
    let ?m2 = "put_entry f i (table_flags g) ?m1"
    let ?m3 = "?m2\<lparr>mem_tables := (mem_tables ?m2)(g := (\<lambda>_. 0))\<rparr>"
    have sm1: "self_mapped ?m1" using pt_okD(1) [OF ok] by (simp add: self_mapped_def)
    have w1: "write_entry ev (table_flags g) ?m1 = Inr ?m2"
      using entry [OF sm1] tf by (simp add: write_entry_def)
    have eq2: "?m2 = (put_entry f i (table_flags g) m)\<lparr>mem_phys := bm\<rparr>" by (simp add: put_entry_def)
    have sm2: "self_mapped ?m2"
      using self_mapped_put [OF ok t, of i] i(2) unfolding eq2 by (simp add: self_mapped_def)
    have "table_at ?m2 (p @ [i]) = Some g"
      using walk_put_here [OF ok t, of i "table_flags g" "[]"] e unfolding eq2 by simp
    then have c: "clear_table tv ?m2 = Inr ?m3" using table [OF sm2] by (simp add: clear_table_def)
    have m3: "?m3 = (put_entry f i (table_flags g) m)\<lparr>mem_tables := (mem_tables (put_entry f i (table_flags g) m))(g := (\<lambda>_. 0)),
        mem_phys := bm, mem_irq := mem_irq m\<rparr>" by (simp add: put_entry_def)
    note new = pt_ok_new_table [OF ok t p i e False bm(3) bm(1) bm(4) m3]
    have "card (free_set (mem_phys m)) = card (free_set bm) + 4096"
      using card_Diff_subset [OF _ bm(3)] card_mono [OF _ bm(3)] pt_okD(2) [OF ok]
      by (simp add: bm(4) card_page_bytes page_bytes_def)
    then have "pt_step 1 m ?m3"
      using new bm(4) by (auto simp: pt_step_def pt_frame_def put_entry_def)
    moreover have "ensureTable ev tv True m = Inr (True, ?m3)"
      using rd False al w1 c by (simp add: ensureTable_def and_PRESENT del: rbind_eq_Inr)
    ultimately show ?thesis using new by blast
  qed
qed

lemma getPageTableEntry_indices:
  "getPageTableEntry va al m =
     rbind (ensureTable (PML4ENTRY (va_index 39 va)) (PML3ENTRY (va_index 39 va) 0) al m) (\<lambda>(ok4, m1).
       if \<not> ok4 then Inr (nullptr, m1)
       else rbind (ensureTable (PML3ENTRY (va_index 39 va) (va_index 30 va)) (PML2ENTRY (va_index 39 va) (va_index 30 va) 0) al m1) (\<lambda>(ok3, m2).
         if \<not> ok3 then Inr (nullptr, m2)
         else rbind (ensureTable (PML2ENTRY (va_index 39 va) (va_index 30 va) (va_index 21 va))
                       (PML1ENTRY (va_index 39 va) (va_index 30 va) (va_index 21 va) 0) al m2) (\<lambda>(ok2, m3).
           if \<not> ok2 then Inr (nullptr, m3)
           else Inr (PML1ENTRY (va_index 39 va) (va_index 30 va) (va_index 21 va) (va_index 12 va), m3))))"
proof -
  have "unat (drop_bit 12 (va AND (push_bit 48 1 - 1)) AND 511) = va_index 12 va"
    "unat (drop_bit 21 (va AND (push_bit 48 1 - 1)) AND 511) = va_index 21 va"
    "unat (drop_bit 30 (va AND (push_bit 48 1 - 1)) AND 511) = va_index 30 va"
    "unat (drop_bit 39 (va AND (push_bit 48 1 - 1)) AND 511) = va_index 39 va"
    by (rule index_of_masked, simp)+
  then show ?thesis unfolding getPageTableEntry_def Let_def by (simp only:)
qed

lemma getPageTableEntry_ok:
  assumes ok: "pt_ok m" and va: "va_index 39 va \<noteq> 511" and free: "3 * 4096 \<le> card (free_set (mem_phys m))"
  shows "\<exists>m' f. getPageTableEntry va True m
             = Inr (PML1ENTRY (va_index 39 va) (va_index 30 va) (va_index 21 va) (va_index 12 va), m') \<and>
           pt_step 3 m m' \<and> is_table m' [va_index 39 va, va_index 30 va, va_index 21 va] f"
proof -
  let ?a = "va_index 39 va" let ?b = "va_index 30 va" let ?c = "va_index 21 va" let ?d = "va_index 12 va"
  have nonempty: "free_set (mem_phys m0) \<noteq> {}" if "0 < card (free_set (mem_phys m0))" for m0 using that by auto
  have f0: "free_set (mem_phys m) \<noteq> {}" by (rule nonempty) (use free in simp)
  have "\<exists>m' g. ensureTable (PML4ENTRY ?a) (PML3ENTRY ?a 0) True m = Inr (True, m') \<and> pt_step 1 m m' \<and> is_table m' ([] @ [?a]) g"
    by (rule ensureTable_ok [OF ok is_table_root]) (use va f0 in \<open>simp_all add: slots\<close>)
  then obtain m1 g1 where 1: "ensureTable (PML4ENTRY ?a) (PML3ENTRY ?a 0) True m = Inr (True, m1)" "pt_step 1 m m1" "is_table m1 [?a] g1" by auto
  have f1: "free_set (mem_phys m1) \<noteq> {}" by (rule nonempty) (use free 1(2) in \<open>simp add: pt_step_def\<close>)
  have ok1: "pt_ok m1" using 1(2) by (simp add: pt_step_def)
  have "\<exists>m' g. ensureTable (PML3ENTRY ?a ?b) (PML2ENTRY ?a ?b 0) True m1 = Inr (True, m') \<and> pt_step 1 m1 m' \<and> is_table m' ([?a] @ [?b]) g"
    by (rule ensureTable_ok [OF ok1 1(3)]) (use f1 in \<open>simp_all add: slots\<close>)
  then obtain m2 g2 where 2: "ensureTable (PML3ENTRY ?a ?b) (PML2ENTRY ?a ?b 0) True m1 = Inr (True, m2)" "pt_step 1 m1 m2" "is_table m2 [?a, ?b] g2" by auto
  have f2: "free_set (mem_phys m2) \<noteq> {}" by (rule nonempty) (use free 1(2) 2(2) in \<open>simp add: pt_step_def\<close>)
  have ok2: "pt_ok m2" using 2(2) by (simp add: pt_step_def)
  have "\<exists>m' g. ensureTable (PML2ENTRY ?a ?b ?c) (PML1ENTRY ?a ?b ?c 0) True m2 = Inr (True, m') \<and> pt_step 1 m2 m' \<and> is_table m' ([?a, ?b] @ [?c]) g"
    by (rule ensureTable_ok [OF ok2 2(3)]) (use f2 in \<open>simp_all add: slots\<close>)
  then obtain m3 g3 where 3: "ensureTable (PML2ENTRY ?a ?b ?c) (PML1ENTRY ?a ?b ?c 0) True m2 = Inr (True, m3)" "pt_step 1 m2 m3" "is_table m3 [?a, ?b, ?c] g3" by auto
  have "getPageTableEntry va True m = Inr (PML1ENTRY ?a ?b ?c ?d, m3)"
    using 1(1) 2(1) 3(1) by (simp add: getPageTableEntry_indices del: rbind_eq_Inr)
  moreover have "pt_step 3 m m3" using pt_step_trans [OF 1(2) pt_step_trans [OF 2(2) 3(2)]] by (simp add: eval_nat_numeral)
  ultimately show ?thesis using 3(3) by blast
qed

lemma ensureTable_found:
  assumes ok: "pt_ok m" and t: "is_table m p f" "table_at m (p @ [i]) = Some g"
    and entry: "slot ev m = (case table_at m p of None \<Rightarrow> Inl NullDereference | Some f \<Rightarrow> Inr (f, i))"
  shows "ensureTable ev tv al m = Inr (True, m)"
proof -
  from t have "present (mem_tables m f i)" by (auto simp: is_table_def walk_snoc split: if_splits)
  with t entry show ?thesis by (simp add: ensureTable_def read_entry_def and_PRESENT is_table_def)
qed

lemma getPageTableEntry_found:
  assumes ok: "pt_ok m" and t: "is_table m [va_index 39 va, va_index 30 va, va_index 21 va] f"
  shows "getPageTableEntry va al m
           = Inr (PML1ENTRY (va_index 39 va) (va_index 30 va) (va_index 21 va) (va_index 12 va), m)"
proof -
  let ?a = "va_index 39 va" let ?b = "va_index 30 va" let ?c = "va_index 21 va"
  have w: "table_at m ([?a, ?b] @ [?c]) = Some f" and a: "?a \<noteq> 511" using t by (simp_all add: is_table_def plain_def)
  then obtain g2 where g2: "table_at m ([?a] @ [?b]) = Some g2" by (auto simp: walk_snoc split: option.splits if_splits)
  then obtain g1 where g1: "table_at m ([] @ [?a]) = Some g1" by (auto split: if_splits)
  have t1: "is_table m [?a] g1" and t2: "is_table m [?a, ?b] g2"
    using g1 g2 a by (simp_all add: is_table_def plain_def)
  note sm = pt_okD(1) [OF ok]
  have "ensureTable (PML4ENTRY ?a) tv al m = Inr (True, m)" for tv
    by (rule ensureTable_found [OF ok is_table_root g1]) (simp add: slots sm)
  moreover have "ensureTable (PML3ENTRY ?a ?b) tv al m = Inr (True, m)" for tv
    by (rule ensureTable_found [OF ok t1 g2]) (simp add: slots sm)
  moreover have "ensureTable (PML2ENTRY ?a ?b ?c) tv al m = Inr (True, m)" for tv
    by (rule ensureTable_found [OF ok t2 w]) (simp add: slots sm)
  ultimately show ?thesis by (simp add: getPageTableEntry_indices)
qed

text \<open>How many tables an address may need: none when its last table exists.\<close>

definition table_cost :: "memory \<Rightarrow> u64 \<Rightarrow> nat" where
  "table_cost m va = (if \<exists>f. is_table m [va_index 39 va, va_index 30 va, va_index 21 va] f then 0 else 3)"

lemma getPageTableEntry_cost:
  assumes "pt_ok m" and "va_index 39 va \<noteq> 511" and "table_cost m va * 4096 \<le> card (free_set (mem_phys m))"
  shows "\<exists>m' f. getPageTableEntry va True m
             = Inr (PML1ENTRY (va_index 39 va) (va_index 30 va) (va_index 21 va) (va_index 12 va), m') \<and>
           pt_step (table_cost m va) m m' \<and> is_table m' [va_index 39 va, va_index 30 va, va_index 21 va] f"
proof (cases "\<exists>f. is_table m [va_index 39 va, va_index 30 va, va_index 21 va] f")
  case True
  then obtain f where f: "is_table m [va_index 39 va, va_index 30 va, va_index 21 va] f" by blast
  from getPageTableEntry_found [OF assms(1) f, of True] f pt_step_refl [OF assms(1)] show ?thesis by blast
next
  case False
  then have "table_cost m va = 3" by (simp add: table_cost_def)
  with getPageTableEntry_ok [OF assms(1,2)] assms(3) show ?thesis by simp
qed

section \<open>Mapping a page\<close>

lemma plain_va_path: "va_index 39 va \<noteq> 511 \<Longrightarrow> plain (va_path va)" "length (va_path va) = 4"
  by (auto simp: plain_def va_path_def)

lemma va_path_split: "va_path va = [va_index 39 va, va_index 30 va, va_index 21 va] @ [va_index 12 va]"
  by (simp add: va_path_def)

text \<open>The last-level entry of an address and what a write to it does to the address space.\<close>

lemma put_leaf:
  assumes ok: "pt_ok m" and t: "is_table m [va_index 39 va, va_index 30 va, va_index 21 va] f" and d: "d = va_index 12 va"
  shows "page_of (put_entry f d e m) va = (if present e then Some (hw_frame e) else None)"
    and "va_index 39 va' \<noteq> 511 \<Longrightarrow> va_path va' \<noteq> va_path va \<Longrightarrow> page_of (put_entry f d e m) va' = page_of m va'"
    and "pt_ok (put_entry f d e m)"
    and "slot (PML1ENTRY (va_index 39 va) (va_index 30 va) (va_index 21 va) d) m = Inr (f, d)"
proof -
  let ?p = "[va_index 39 va, va_index 30 va, va_index 21 va]"
  show "page_of (put_entry f d e m) va = (if present e then Some (hw_frame e) else None)"
    using walk_put_here [OF ok t, of d e "[]"] by (simp add: page_of_def va_path_split d)
  show "page_of (put_entry f d e m) va' = page_of m va'" if "va_index 39 va' \<noteq> 511" "va_path va' \<noteq> va_path va"
  proof -
    have "va_path va' \<noteq> ?p @ d # q" for q using that(2) by (cases q) (auto simp: va_path_def d)
    from walk_put [OF ok t plain_va_path(1) [OF that(1)] _ this] show ?thesis
      by (simp add: page_of_def plain_va_path(2) put_entry_def)
  qed
  show "pt_ok (put_entry f d e m)" by (rule pt_ok_put_leaf [OF ok t]) simp
  have "table_at m ?p = Some f" using t by (simp add: is_table_def)
  then show "slot (PML1ENTRY (va_index 39 va) (va_index 30 va) (va_index 21 va) d) m = Inr (f, d)"
    using slot_entries(4) [OF pt_okD(1) [OF ok]] by (simp add: d del: walk.simps)
qed

definition mapped :: "memory \<Rightarrow> u64 \<Rightarrow> u64 \<Rightarrow> bool" where
  "mapped m va e \<longleftrightarrow> (\<exists>f. is_table m [va_index 39 va, va_index 30 va, va_index 21 va] f \<and> mem_tables m f (va_index 12 va) = e)"

lemma mapped_put_other:
  assumes ok: "pt_ok m" and t: "is_table m [va_index 39 va, va_index 30 va, va_index 21 va] f"
    and o: "va_path va' \<noteq> va_path va" and v: "mapped m va' e'"
  shows "mapped (put_entry f (va_index 12 va) e m) va' e'"
proof -
  from v obtain g where g: "is_table m [va_index 39 va', va_index 30 va', va_index 21 va'] g" "mem_tables m g (va_index 12 va') = e'"
    by (auto simp: mapped_def)
  have "g = f \<Longrightarrow> va_index 12 va' \<noteq> va_index 12 va"
    using pt_okD(3) [OF ok g(1)] t o by (auto simp: va_path_def)
  then have "mem_tables (put_entry f (va_index 12 va) e m) g (va_index 12 va') = e'" using g(2) by (auto simp: put_entry_def)
  moreover have "is_table (put_entry f (va_index 12 va) e m) [va_index 39 va', va_index 30 va', va_index 21 va'] g"
    using is_table_put_leaf [OF ok t] g(1) by simp
  ultimately show ?thesis unfolding mapped_def by blast
qed

lemma mapPage_tables:
  assumes ok: "pt_ok m" and va: "va_index 39 va \<noteq> 511" and free: "table_cost m va * 4096 \<le> card (free_set (mem_phys m))"
    and pa: "unat pa < 2 ^ 52"
  shows "\<exists>m' f. mapPage va pa WRITABLE al ca m = Inr m' \<and> pt_ok m' \<and> pt_frame m m' \<and>
           free_set (mem_phys m') \<subseteq> free_set (mem_phys m) \<and> card (free_set (mem_phys m)) \<le> card (free_set (mem_phys m')) + table_cost m va * 4096 \<and>
           page_of m' va = Some (drop_bit 12 pa) \<and>
           (\<forall>va'. va_index 39 va' \<noteq> 511 \<longrightarrow> va_path va' \<noteq> va_path va \<longrightarrow> page_of m' va' = page_of m va') \<and>
           is_table m' [va_index 39 va, va_index 30 va, va_index 21 va] f \<and> mem_tables m' f (va_index 12 va) = page_entry pa al ca \<and>
           (\<forall>va' e. va_path va' \<noteq> va_path va \<longrightarrow> mapped m va' e \<longrightarrow> mapped m' va' e) \<and>
           (\<forall>r h. is_table m' r h \<longrightarrow> is_table m r h \<or> page_bytes h \<subseteq> free_set (mem_phys m)) \<and>
           (\<forall>r h. is_table m r h \<longrightarrow> is_table m' r h)"
proof -
  let ?d = "va_index 12 va"
  from getPageTableEntry_cost [OF ok va free] obtain m1 f where
    g: "getPageTableEntry va True m = Inr (PML1ENTRY (va_index 39 va) (va_index 30 va) (va_index 21 va) ?d, m1)"
    and s: "pt_step (table_cost m va) m m1" and t: "is_table m1 [va_index 39 va, va_index 30 va, va_index 21 va] f" by blast
  have ok1: "pt_ok m1" using s by (simp add: pt_step_def)
  let ?e = "page_entry pa al ca"
  let ?m2 = "put_entry f ?d ?e m1"
  note leaf = put_leaf [OF ok1 t refl]
  have run: "mapPage va pa WRITABLE al ca m = Inr ?m2"
    using g leaf(4) by (simp add: mapPage_entry write_entry_def)
  have here: "page_of ?m2 va = Some (drop_bit 12 pa)" using leaf(1) page_entry_ok [OF pa] by simp
  have there: "page_of ?m2 va' = page_of m va'" if "va_index 39 va' \<noteq> 511" "va_path va' \<noteq> va_path va" for va'
  proof -
    have "table_at m1 (va_path va') = table_at m (va_path va')"
      using s plain_va_path(1) [OF that(1)] plain_va_path(2) unfolding pt_step_def by blast
    then show ?thesis using leaf(2) [OF that, of ?e] by (simp add: page_of_def)
  qed
  note same = is_table_put_leaf [OF ok1 t, simplified, of ?d ?e]
  have t2: "is_table ?m2 [va_index 39 va, va_index 30 va, va_index 21 va] f" using t by (simp add: same)
  have others: "mapped ?m2 va' e" if "va_path va' \<noteq> va_path va" "mapped m va' e" for va' e
  proof -
    from that(2) s have "mapped m1 va' e" unfolding mapped_def pt_step_def by fastforce
    then show ?thesis by (rule mapped_put_other [OF ok1 t that(1)])
  qed
  have fr: "mem_phys ?m2 = mem_phys m1" "pt_frame m ?m2" "mem_tables ?m2 f ?d = ?e"
    using s by (simp_all add: put_entry_def pt_step_def pt_frame_def)
  show ?thesis
    using run leaf(3) here there t2 fr s others by (intro exI [of _ ?m2] exI [of _ f]) (simp add: pt_step_def same)
qed

lemma mapPage_ok:
  assumes "pt_ok m" and "va_index 39 va \<noteq> 511" and "3 * 4096 \<le> card (free_set (mem_phys m))"
    and "unat pa < 2 ^ 52"
  shows "\<exists>m' f. mapPage va pa WRITABLE al ca m = Inr m' \<and> pt_ok m' \<and> pt_frame m m' \<and>
           free_set (mem_phys m') \<subseteq> free_set (mem_phys m) \<and> card (free_set (mem_phys m)) \<le> card (free_set (mem_phys m')) + 3 * 4096 \<and>
           page_of m' va = Some (drop_bit 12 pa) \<and>
           (\<forall>va'. va_index 39 va' \<noteq> 511 \<longrightarrow> va_path va' \<noteq> va_path va \<longrightarrow> page_of m' va' = page_of m va') \<and>
           is_table m' [va_index 39 va, va_index 30 va, va_index 21 va] f \<and> mem_tables m' f (va_index 12 va) = page_entry pa al ca \<and>
           (\<forall>va' e. va_path va' \<noteq> va_path va \<longrightarrow> mapped m va' e \<longrightarrow> mapped m' va' e) \<and>
           (\<forall>r h. is_table m' r h \<longrightarrow> is_table m r h \<or> page_bytes h \<subseteq> free_set (mem_phys m))"
proof -
  have "table_cost m va \<le> 3" by (simp add: table_cost_def)
  then have c: "table_cost m va * 4096 \<le> 3 * 4096" by simp
  with assms(3) have "table_cost m va * 4096 \<le> card (free_set (mem_phys m))" by simp
  from mapPage_tables [OF assms(1,2) this assms(4), of al ca] show ?thesis
    by (elim exE conjE, intro exI conjI) (assumption | (use c in linarith))+
qed

section \<open>Unmapping a page\<close>

lemma PML1ENTRY_not_null: "a < 512 \<Longrightarrow> b < 512 \<Longrightarrow> c < 512 \<Longrightarrow> d < 512 \<Longrightarrow> PML1ENTRY a b c d \<noteq> nullptr"
  using unat_window [of a b c d] by (auto simp: PML1ENTRY_def)

lemma and_ALLOCATED: "e AND ALLOCATED = 0 \<longleftrightarrow> \<not> bit e 11"
proof -
  have eq: "ALLOCATED = 2 ^ 11" by (simp add: ALLOCATED_def)
  show ?thesis unfolding eq by (rule and_exp_eq_0_iff_not_bit)
qed

lemma page_entry_ALLOCATED: "bit (page_entry pa al ca) 11 = al"
proof -
  have m: "(4095 :: u64) = mask 12" by (simp add: mask_eq_exp_minus_1)
  have "bit (page_entry pa al ca) 11 = bit (page_flags al ca) 11"
    unfolding page_entry_def m by (simp add: bit_or_iff bit_and_iff bit_not_iff bit_mask_iff)
  also have "\<dots> = al"
  proof -
    have "bit (2051 :: u64) 11" "bit (2067 :: u64) 11" "\<not> bit (3 :: u64) 11" "\<not> bit (19 :: u64) 11" by code_simp+
    then show ?thesis by (cases al; cases ca) (simp_all add: page_flags_def)
  qed
  finally show ?thesis .
qed

lemma page_bytes_disjoint: "f \<noteq> g \<Longrightarrow> page_bytes f \<inter> page_bytes g = {}"
proof -
  assume "f \<noteq> g"
  then have "unat f \<noteq> unat g" by (simp add: word_unat_eq_iff)
  then have "unat f < unat g \<or> unat g < unat f" by linarith
  then show ?thesis by (auto simp: page_bytes_def)
qed

lemma pt_ok_phys:
  assumes ok: "pt_ok m" and bm: "frames_ok bm"
    and fr: "\<And>p f. is_table m p f \<Longrightarrow> page_bytes f \<inter> free_set bm = {}"
  shows "pt_ok (m\<lparr>mem_phys := bm\<rparr>)"
proof -
  have "is_table (m\<lparr>mem_phys := bm\<rparr>) p f = is_table m p f" for p f by (simp add: is_table_def)
  then show ?thesis using ok bm fr unfolding pt_ok_def by (simp add: self_mapped_def)
qed

lemma unmapPage_ok:
  assumes ok: "pt_ok m" and t: "is_table m [va_index 39 va, va_index 30 va, va_index 21 va] f"
    and e: "mem_tables m f (va_index 12 va) = page_entry pa al ca" and pa: "unat pa < 2 ^ 52"
    and own: "al \<Longrightarrow> drop_bit 12 pa \<noteq> 0 \<and> page_bytes (drop_bit 12 pa) \<inter> free_set (mem_phys m) = {} \<and>
                     (\<forall>p. \<not> is_table m p (drop_bit 12 pa))"
  shows "\<exists>m'. unmapPage va m = Inr m' \<and> pt_ok m' \<and> pt_frame m m' \<and> page_of m' va = None \<and>
           (\<forall>va'. va_index 39 va' \<noteq> 511 \<longrightarrow> va_path va' \<noteq> va_path va \<longrightarrow> page_of m' va' = page_of m va') \<and>
           free_set (mem_phys m') = (if al \<and> has_room (mem_phys m)
              then free_set (mem_phys m) \<union> page_bytes (drop_bit 12 pa) else free_set (mem_phys m)) \<and>
           (\<forall>va' e. va_path va' \<noteq> va_path va \<longrightarrow> mapped m va' e \<longrightarrow> mapped m' va' e) \<and> (\<forall>r h. is_table m' r h \<longleftrightarrow> is_table m r h)"
proof -
  let ?d = "va_index 12 va" let ?fr = "drop_bit 12 pa"
  let ?p = "PML1ENTRY (va_index 39 va) (va_index 30 va) (va_index 21 va) ?d"
  note leaf = put_leaf [OF ok t refl]
  have frame: "drop_bit 12 (page_entry pa al ca) AND (push_bit 52 1 - 1) = ?fr"
  proof -
    have "(push_bit 52 1 - 1 :: u64) = mask 52" by (simp add: mask_eq_exp_minus_1)
    then have "drop_bit 12 (page_entry pa al ca) AND (push_bit 52 1 - 1) = take_bit 52 (drop_bit 12 (page_entry pa al ca))"
      by (simp only: take_bit_eq_mask)
    also have "\<dots> = drop_bit 12 (page_entry pa al ca)" by (rule bit_eqI) (auto simp: bit_simps dest: bit_imp_le_length)
    also have "\<dots> = ?fr"
      using unat_page_entry [of pa al ca] by (simp add: word_unat_eq_iff drop_bit_eq_div unat_div) (simp add: page_flags_def)
    finally show ?thesis .
  qed
  obtain bm where free: "(if page_entry pa al ca AND ALLOCATED \<noteq> 0 then on_phys (returnFrame ?fr) m else Inr ((), m)) = Inr ((), m\<lparr>mem_phys := bm\<rparr>)"
    and bm: "frames_ok bm" "free_set bm = (if al \<and> has_room (mem_phys m) then free_set (mem_phys m) \<union> page_bytes ?fr else free_set (mem_phys m))"
  proof (cases al)
    case True
    have "unat ?fr < 2 ^ 40" using pa by (simp add: drop_bit_eq_div unat_div)
    then obtain bm where "returnFrame ?fr (mem_irq m, mem_phys m) = Inr ((), mem_irq m, bm)" "frames_ok bm"
      "free_set bm = (if has_room (mem_phys m) then free_set (mem_phys m) \<union> page_bytes ?fr else free_set (mem_phys m))"
      using returnFrame_ok [OF pt_okD(2) [OF ok], of ?fr "mem_irq m"] own [OF True] by auto
    with True show thesis by (intro that [of bm]) (simp_all add: on_phys_def and_ALLOCATED page_entry_ALLOCATED)
  next
    case False
    then show thesis using pt_okD(2) [OF ok] by (intro that [of "mem_phys m"]) (simp_all add: and_ALLOCATED page_entry_ALLOCATED)
  qed
  let ?m1 = "m\<lparr>mem_phys := bm\<rparr>"
  have ok1: "pt_ok ?m1"
  proof (rule pt_ok_phys [OF ok bm(1)])
    fix p g assume g: "is_table m p g"
    then have "al \<Longrightarrow> g \<noteq> ?fr" using own by auto
    then have "al \<Longrightarrow> page_bytes g \<inter> page_bytes ?fr = {}" by (rule page_bytes_disjoint)
    with pt_okD(4) [OF ok g] show "page_bytes g \<inter> free_set bm = {}" unfolding bm(2) by (auto simp: Int_Un_distrib)
  qed
  have t1: "is_table ?m1 [va_index 39 va, va_index 30 va, va_index 21 va] f" using t by (simp add: is_table_def)
  note leaf1 = put_leaf [OF ok1 t1 refl]
  have "unmapPage va m = Inr (put_entry f ?d 0 ?m1)"
    using getPageTableEntry_found [OF ok t] PML1ENTRY_not_null leaf(4) e free leaf1(4)
    by (simp add: unmapPage_def read_entry_def write_entry_def frame [simplified] split: if_splits)
  moreover have "page_of ?m1 va' = page_of m va'" for va' by (simp add: page_of_def)
  moreover have "mem_phys (put_entry f ?d 0 ?m1) = bm" "pt_frame m (put_entry f ?d 0 ?m1)" by (simp_all add: put_entry_def pt_frame_def)
  moreover have same1: "is_table ?m1 r h = is_table m r h" for r h by (simp add: is_table_def)
  moreover have "mapped (put_entry f ?d 0 ?m1) va' e'" if "va_path va' \<noteq> va_path va" "mapped m va' e'" for va' e'
    using mapped_put_other [OF ok1 t1 that(1)] that(2) by (simp add: mapped_def same1)
  ultimately show ?thesis
    using leaf1(1-3) bm(2) is_table_put_leaf [OF ok1 t1, simplified, of ?d 0] by (intro exI [of _ "put_entry f ?d 0 ?m1"]) simp
qed

section \<open>An example address space\<close>

text \<open>
  Only the top table, in frame 1, with its recursive entry; free physical memory from 0x10000 to 0x100000.
\<close>

definition example_phys :: blockmap where
  "example_phys = blockmap_init\<lparr>blocks := (blocks blockmap_init)[0 := Block 0x10000 0x100000], numBlocks := 1\<rparr>"

definition example_memory :: memory where
  "example_memory = \<lparr>mem_tables = (\<lambda>_ _. 0)(1 := (\<lambda>_. 0)(511 := 0x1003)), mem_cr3 = 1, mem_phys = example_phys,
     mem_virt = blockmap_init, mem_irq = True, mem_word = (\<lambda>_. 0)\<rparr>"

lemma example_phys_live: "live example_phys = [Block 0x10000 0x100000]"
  by (simp add: live_def example_phys_def blockmap_init_def BLOCKMAP_SIZE_def)

lemma example_phys_ok: "frames_ok example_phys" "free_set example_phys = {0x10000..<0x100000}"
proof -
  show fs: "free_set example_phys = {0x10000..<0x100000}" by (simp add: free_set_alt example_phys_live)
  show "frames_ok example_phys"
    using fs example_phys_live
    by (simp add: frames_ok_def bm_inv_def bm_wf_def bm_disjoint_def bm_aligned_def aligned_block_def Block_def wf_block_def bytes_def)
       (simp add: example_phys_def blockmap_init_def BLOCKMAP_SIZE_def spinlock_init_def locked_def)
qed

lemma example_memory_simps [simp]:
  "mem_tables example_memory 1 i = (if i = 511 then 0x1003 else 0)" "mem_cr3 example_memory = 1"
  "mem_phys example_memory = example_phys"
  by (simp_all add: example_memory_def)

lemma example_entry: "present 0x1003" "hw_frame 0x1003 = 1"
  by (simp_all add: present_iff hw_frame_def)

lemma example_tables: "is_table example_memory p f \<longleftrightarrow> p = [] \<and> f = 1"
  by (cases p) (auto simp: is_table_def plain_def)

lemma example_memory_ok: "pt_ok example_memory"
  using example_phys_ok
  by (simp add: pt_ok_def self_mapped_def example_tables example_entry page_bytes_def)

section \<open>Properties\<close>

text \<open>
  (C11) The recursive mapping works: when the last entry of the top table points to the top table, the four
  macros that compute addresses in the window at \<^verbatim>\<open>PAGE_TABLE_POINTER\<close> reach, through the processor's own page
  walk, exactly the entry with that index in the table on that path, at every level, and fault exactly
  when a table on the path is missing.
\<close>

theorem page_table_window_correct:
  assumes "self_mapped m" and "i4 < 512" and "i3 < 512" and "i2 < 512" and "i1 < 512"
  shows "slot (PML4ENTRY i4) m = Inr (mem_cr3 m, i4) \<and>
         slot (PML3ENTRY i4 i3) m = (case table_at m [i4] of None \<Rightarrow> Inl NullDereference | Some f \<Rightarrow> Inr (f, i3)) \<and>
         slot (PML2ENTRY i4 i3 i2) m = (case table_at m [i4, i3] of None \<Rightarrow> Inl NullDereference | Some f \<Rightarrow> Inr (f, i2)) \<and>
         slot (PML1ENTRY i4 i3 i2 i1) m = (case table_at m [i4, i3, i2] of None \<Rightarrow> Inl NullDereference | Some f \<Rightarrow> Inr (f, i1))"
  using slot_entries [OF assms] by simp

theorem page_table_window_correct_witness:
  "slot (PML4ENTRY 7) example_memory = Inr (1, 7) \<and> slot (PML3ENTRY 3 4) example_memory = Inl NullDereference \<and>
   slot (PML2ENTRY 511 511 6) example_memory = Inr (1, 6)"
  using page_table_window_correct [of example_memory 7 4 6 0] page_table_window_correct [of example_memory 3 4 6 0]
    page_table_window_correct [of example_memory 511 511 6 0] pt_okD(1) [OF example_memory_ok]
  by (simp add: example_entry)

text \<open>
  (C12) \<^verbatim>\<open>mapPage\<close> maps: if there is enough physical memory for the page tables it may have to create, it
  returns, the address then translates to the given physical page, every other page of the address
  space (outside the window itself) translates as before although tables were added, and the tables
  stay well-formed: a tree, in memory that is no longer free.
\<close>

theorem mapPage_translates:
  assumes "pt_ok m" and "va_index 39 va \<noteq> 511" and "3 * 4096 \<le> card (free_set (mem_phys m))" and "unat pa < 2 ^ 52"
  shows "\<exists>m'. mapPage va pa WRITABLE al ca m = Inr m' \<and> pt_ok m' \<and> page_of m' va = Some (drop_bit 12 pa) \<and>
           (\<forall>va'. va_index 39 va' \<noteq> 511 \<longrightarrow> va_path va' \<noteq> va_path va \<longrightarrow> page_of m' va' = page_of m va')"
  using mapPage_ok [OF assms, of al ca] by blast

theorem mapPage_translates_witness:
  "\<exists>m'. mapPage 0xFFFF800000000000 0x5000 WRITABLE True True example_memory = Inr m' \<and> pt_ok m' \<and>
     page_of m' 0xFFFF800000000000 = Some (drop_bit 12 0x5000)"
  using mapPage_translates [of example_memory "0xFFFF800000000000" "0x5000" True True] example_memory_ok
  by (auto simp: va_index_def example_phys_ok)



text \<open>
  A page table that cannot be allocated is not noticed: \<^verbatim>\<open>allocatePageTable\<close> then returns a present entry for
  frame 0, and its caller clears physical page 0.
\<close>

lemma allocatePageTable_out_of_memory:
  assumes "frames_ok (mem_phys m)" and "free_set (mem_phys m) = {}"
  shows "\<exists>m'. allocatePageTable m = Inr (table_flags 0, m') \<and> present (table_flags 0) \<and> hw_frame (table_flags 0) = 0"
  using allocateFrame_none [OF assms, of "mem_irq m"] table_entry [of 0]
  by (auto simp: allocatePageTable_def on_phys_def table_flags_def)

end
