(* ===== verification/Kmalloc.thy ===== *)
theory Kmalloc
  imports Paging
begin

text \<open>
  The kernel heap (\<^verbatim>\<open>kmalloc.h\<close>, \<^verbatim>\<open>memory/kmalloc.cpp\<close>) and the stacks of \<^verbatim>\<open>stacks.h\<close>: ranges of virtual
  addresses taken from the virtual block map and backed page by page, with frames of their own or with a
  given range of physical addresses. The state adds the TLB of every CPU, the set of pages it may have
  cached, to the memory. A loop over the pages of a range is a recursion over the list of the values of its
  counter; a size that has been rounded up to pages is at most 2^64 - 4096, so the counter cannot wrap.
\<close>

section \<open>State\<close>

record machine =
  mc_mem :: memory
  mc_tlb :: "nat \<Rightarrow> nat set"  \<comment> \<open>per CPU: numbers of cached pages\<close>
  mc_cpu :: nat
  mc_processorCount :: nat

definition on_virt :: "(bool \<times> blockmap \<Rightarrow> ('r \<times> bool \<times> blockmap) result) \<Rightarrow> memory \<Rightarrow> ('r \<times> memory) result" where
  "on_virt f m =
     rbind (f (mem_irq m, mem_virt m)) (\<lambda>(r, irq, bm). Inr (r, m\<lparr>mem_irq := irq, mem_virt := bm\<rparr>))"

text \<open>The values of the loop counter in \<^verbatim>\<open>for (i = 0; i < size; i += PAGE_SIZE)\<close>.\<close>

definition page_offsets :: "u64 \<Rightarrow> u64 list" where
  "page_offsets len = map (\<lambda>k. of_nat k * PAGE_SIZE) [0..<(unat len + 4095) div 4096]"

section \<open>Allocation\<close>

fun mapFrames :: "u64 list \<Rightarrow> memory \<Rightarrow> memory result" where
  "mapFrames [] m = Inr m"
| "mapFrames (va # vas) m =
     rbind (on_phys allocateFrame m) (\<lambda>(frame, m1).
       if frame \<noteq> 0 then rbind (mapPage va (frame * PAGE_SIZE) WRITABLE True True m1) (\<lambda>m2. mapFrames vas m2)
       else Inl (Panic ''Out of memory''))"

definition header_size :: u64 where
  "header_size = 8"

text \<open>The pages that the loop of \<^verbatim>\<open>allocateMemory\<close> maps for an allocation of \<open>size0\<close> bytes at \<open>p\<close>.\<close>

definition allocated_pages :: "u64 \<Rightarrow> u64 \<Rightarrow> u64 list" where
  "allocated_pages p size0 = map (\<lambda>i. p + i) (page_offsets (PAGE_ALIGN_UP (size0 + header_size)))"

definition allocateMemory :: "u64 \<Rightarrow> memory \<Rightarrow> (ptr \<times> memory) result" where
  "allocateMemory size0 m =
     (let len = PAGE_ALIGN_UP (size0 + header_size)
      in rbind (on_virt (allocate len) m) (\<lambda>(p, m1).
           if p = nullptr then Inr (nullptr, m1)
           else rbind (mapFrames (allocated_pages p size0) m1) (\<lambda>m2. Inr (p, m2))))"

definition kmalloc :: "u64 \<Rightarrow> memory \<Rightarrow> (ptr \<times> memory) result" where
  "kmalloc len m =
     rbind (allocateMemory len m) (\<lambda>(p, m1).
       if p = nullptr then Inr (nullptr, m1)
       else Inr (p + header_size, m1\<lparr>mem_word := (mem_word m1)(p := len)\<rparr>))"

section \<open>Mapping given physical addresses\<close>

fun mapRange :: "(u64 \<times> u64) list \<Rightarrow> bool \<Rightarrow> memory \<Rightarrow> memory result" where
  "mapRange [] cacheable m = Inr m"
| "mapRange ((va, pa) # ps) cacheable m =
     rbind (mapPage va pa WRITABLE False cacheable m) (\<lambda>m1. mapRange ps cacheable m1)"

definition mapAddress :: "u64 \<Rightarrow> u64 \<Rightarrow> bool \<Rightarrow> memory \<Rightarrow> (ptr \<times> memory) result" where
  "mapAddress physicalAddress0 size0 cacheable m =
     (let pageOffset = physicalAddress0 mod PAGE_SIZE;
          physicalEnd = PAGE_ALIGN_UP (physicalAddress0 + size0);
          physicalAddress = PAGE_ALIGN_DOWN physicalAddress0;
          len = physicalEnd - physicalAddress
      in rbind (on_virt (allocate len) m) (\<lambda>(p, m1).
           if p = nullptr then Inr (nullptr, m1)
           else rbind (mapRange (map (\<lambda>i. (p + i, physicalAddress + i)) (page_offsets len)) cacheable m1) (\<lambda>m2.
                  Inr (p + pageOffset, m2))))"

section \<open>Unmapping\<close>

definition page_number :: "u64 \<Rightarrow> nat" where
  "page_number va = unat va div 4096"

definition invalidateTlb :: "nat \<Rightarrow> u64 \<Rightarrow> machine \<Rightarrow> machine" where
  "invalidateTlb c va s = s\<lparr>mc_tlb := (mc_tlb s)(c := mc_tlb s c - {page_number va})\<rparr>"

text \<open>\<^verbatim>\<open>unmapPage\<close> with its last statement: the page leaves the TLB of the CPU when it had an entry at all.\<close>

definition unmapPageTlb :: "u64 \<Rightarrow> machine \<Rightarrow> machine result" where
  "unmapPageTlb va s =
     rbind (getPageTableEntry va False (mc_mem s)) (\<lambda>(entry, _).
     rbind (unmapPage va (mc_mem s)) (\<lambda>m1.
       (let s1 = s\<lparr>mc_mem := m1\<rparr> in Inr (if entry \<noteq> nullptr then invalidateTlb (mc_cpu s) va s1 else s1))))"

fun unmapPages :: "u64 list \<Rightarrow> machine \<Rightarrow> machine result" where
  "unmapPages [] s = Inr s"
| "unmapPages (va # vas) s = rbind (unmapPageTlb va s) (unmapPages vas)"

text \<open>The callback that another CPU runs, and the loop over the other CPUs.\<close>

fun invalidatePages :: "nat \<Rightarrow> u64 list \<Rightarrow> machine \<Rightarrow> machine" where
  "invalidatePages c [] s = s"
| "invalidatePages c (va # vas) s = invalidatePages c vas (invalidateTlb c va s)"

definition shootdown :: "u64 list \<Rightarrow> machine \<Rightarrow> machine" where
  "shootdown vas s =
     fold (\<lambda>i s. if i \<noteq> mc_cpu s then invalidatePages i vas s else s) [0..<mc_processorCount s] s"

text \<open>The pages that the loops of \<^verbatim>\<open>unmapMemory\<close> unmap, from the page of \<open>address0\<close> to that of the end.\<close>

definition unmapped_pages :: "u64 \<Rightarrow> u64 \<Rightarrow> u64 list" where
  "unmapped_pages address0 size0 =
     map (\<lambda>i. PAGE_ALIGN_DOWN address0 + i) (page_offsets (PAGE_ALIGN_UP (address0 + size0) - PAGE_ALIGN_DOWN address0))"

definition unmapMemory :: "u64 \<Rightarrow> u64 \<Rightarrow> machine \<Rightarrow> machine result" where
  "unmapMemory address0 size0 s =
     (if address0 \<noteq> nullptr then
        (let endAddress = PAGE_ALIGN_UP (address0 + size0);
             address = PAGE_ALIGN_DOWN address0;
             len = endAddress - address;
             vas = unmapped_pages address0 size0
         in rbind (unmapPages vas s) (\<lambda>s1.
              (let s2 = shootdown vas s1
               in rbind (on_virt (returnMemory address len) (mc_mem s2)) (\<lambda>(u, m). Inr (s2\<lparr>mc_mem := m\<rparr>)))))
      else Inl (Panic ''Attempt to unmap null''))"

definition freeMemory :: "u64 \<Rightarrow> u64 \<Rightarrow> machine \<Rightarrow> machine result" where
  "freeMemory p len = unmapMemory p len"

definition kfree :: "u64 \<Rightarrow> machine \<Rightarrow> machine result" where
  "kfree p s =
     (if p = nullptr then Inl (Panic ''Attempt to free null'')
      else (let header = p - header_size in unmapMemory header (mem_word (mc_mem s) header) s))"

text \<open>The C++ operators, and the constructor that fills the virtual block map from the linker's symbols.\<close>

definition operator_new :: "u64 \<Rightarrow> memory \<Rightarrow> (ptr \<times> memory) result" where
  "operator_new len = kmalloc len"

definition operator_delete :: "u64 \<Rightarrow> machine \<Rightarrow> machine result" where
  "operator_delete p = kfree p"

definition initVirtualMemory :: "ptr \<Rightarrow> ptr \<Rightarrow> memory \<Rightarrow> (unit \<times> memory) result" where
  "initVirtualMemory kernelHeapStart kernelHeapEnd = on_virt (addBlock (Block kernelHeapStart kernelHeapEnd))"

section \<open>Stacks\<close>

definition DEFAULT_STACK_SIZE :: u64 where
  "DEFAULT_STACK_SIZE = 16384"

definition allocateStack :: "memory \<Rightarrow> (ptr \<times> memory) result" where
  "allocateStack m = rbind (allocateMemory DEFAULT_STACK_SIZE m) (\<lambda>(p, m1). Inr (p + DEFAULT_STACK_SIZE, m1))"

definition freeStack :: "ptr \<Rightarrow> machine \<Rightarrow> machine result" where
  "freeStack stackPointer = freeMemory (stackPointer - DEFAULT_STACK_SIZE) DEFAULT_STACK_SIZE"

section \<open>Pages of a range\<close>

text \<open>The heap lies in the upper half of the address space, below the window of the page tables.\<close>

definition heap_range :: "nat set" where
  "heap_range = {0xFFFF800000000000..<0xFFFFFF8000000000}"

lemma heap_range_index: "unat va \<in> heap_range \<Longrightarrow> va_index 39 va \<noteq> 511"
proof -
  assume "unat va \<in> heap_range"
  then have "0xFFFF800000000000 div 2 ^ 39 \<le> unat va div 2 ^ 39" "unat va div 2 ^ 39 \<le> 0xFFFFFF7FFFFFFFFF div 2 ^ 39"
    by (auto simp: heap_range_def intro!: div_le_mono)
  then have "33554176 \<le> unat va div 2 ^ 39" "unat va div 2 ^ 39 \<le> 33554430" by simp_all
  moreover have "unat va div 2 ^ 39 mod 512 \<noteq> 511" if "33554176 \<le> n" "n \<le> 33554430" "n = unat va div 2 ^ 39" for n
  proof -
    define k where "k = n - 33553920"
    have k: "n = k + 512 * 65535" "k \<le> 510" using that(1,2) by (simp_all add: k_def)
    have "n mod 512 = k mod 512" unfolding k(1) by (rule mod_mult_self2)
    then show ?thesis using k(2) by (simp add: that(3))
  qed
  ultimately show ?thesis by (auto simp: va_index_def)
qed

lemma split_page_number:
  fixes n :: nat
  shows "n = n div 2 ^ 36 * 2 ^ 36 + (n div 2 ^ 27 mod 512) * 2 ^ 27 + (n div 2 ^ 18 mod 512) * 2 ^ 18 + (n div 2 ^ 9 mod 512) * 2 ^ 9 + n mod 512"
proof -
  have step: "x = x div 512 * 512 + x mod 512" for x :: nat by simp
  have "n div 512 div 512 = n div 2 ^ 18" "n div 512 div 512 div 512 = n div 2 ^ 27" "n div 512 div 512 div 512 div 512 = n div 2 ^ 36"
    by (simp_all add: div_mult2_eq [symmetric])
  note d = this
  define a b c e where defs: "a = n div 2 ^ 9" "b = n div 2 ^ 18" "c = n div 2 ^ 27" "e = n div 2 ^ 36"
  have "a div 512 = b" "b div 512 = c" "c div 512 = e" using d by (simp_all add: defs)
  with step [of a] step [of b] step [of c]
  have "a = b * 512 + a mod 512" "b = c * 512 + b mod 512" "c = e * 512 + c mod 512" by (simp_all only:)
  moreover have "n = a * 512 + n mod 512" using step [of n] by (simp add: defs)
  moreover have "n = e * 2 ^ 36 + w * 2 ^ 27 + x * 2 ^ 18 + y * 2 ^ 9 + z"
    if "a = b * 512 + y" "b = c * 512 + x" "c = e * 512 + w" "n = a * 512 + z" for w x y z using that by simp
  ultimately have "n = e * 2 ^ 36 + (c mod 512) * 2 ^ 27 + (b mod 512) * 2 ^ 18 + (a mod 512) * 2 ^ 9 + n mod 512" by blast
  then show ?thesis by (simp only: defs)
qed

lemma va_index_page:
  "va_index 12 v = page_number v mod 512" "va_index 21 v = page_number v div 2 ^ 9 mod 512"
  "va_index 30 v = page_number v div 2 ^ 18 mod 512" "va_index 39 v = page_number v div 2 ^ 27 mod 512"
  by (simp_all add: va_index_def page_number_def div_mult2_eq [symmetric])

lemma va_path_inj:
  assumes "unat va \<in> heap_range" and "unat va' \<in> heap_range" and "va_path va = va_path va'"
  shows "page_number va = page_number va'"
proof -
  have top: "page_number v div 2 ^ 36 = 65535" if "unat v \<in> heap_range" for v
  proof -
    have "65535 * 2 ^ 48 \<le> unat v" "unat v < 65536 * 2 ^ 48" using that by (simp_all add: heap_range_def)
    then have "unat v div 2 ^ 48 = 65535" by (intro div_nat_eqI) simp_all
    then show ?thesis by (simp add: page_number_def div_mult2_eq [symmetric])
  qed
  from assms(3) have "page_number va mod 512 = page_number va' mod 512"
    "page_number va div 2 ^ 9 mod 512 = page_number va' div 2 ^ 9 mod 512"
    "page_number va div 2 ^ 18 mod 512 = page_number va' div 2 ^ 18 mod 512"
    "page_number va div 2 ^ 27 mod 512 = page_number va' div 2 ^ 27 mod 512"
    by (simp_all only: va_path_def va_index_page list.inject)
  then show ?thesis
    using split_page_number [of "page_number va"] split_page_number [of "page_number va'"] top [OF assms(1)] top [OF assms(2)]
    by simp
qed

text \<open>The pages of an aligned range in the heap.\<close>

definition in_heap :: "u64 \<Rightarrow> nat \<Rightarrow> bool" where
  "in_heap p n \<longleftrightarrow> unat p mod 4096 = 0 \<and> 0xFFFF800000000000 \<le> unat p \<and> unat p + n * 4096 \<le> 0xFFFFFF8000000000"

lemma unat_page:
  assumes "in_heap p n" and "k < n"
  shows "unat (p + of_nat k * PAGE_SIZE) = unat p + k * 4096" and "unat (p + of_nat k * PAGE_SIZE) \<in> heap_range"
proof -
  have b: "unat p + k * 4096 + 4096 \<le> 0xFFFFFF8000000000" using assms by (auto simp: in_heap_def)
  then have "k < 2 ^ 52" by simp
  then have "unat (of_nat k :: u64) = k" by (intro unat_of_nat_small) simp
  then have "unat (of_nat k * PAGE_SIZE) = k * 4096" using \<open>k < 2 ^ 52\<close> by (simp add: unat_word_ariths)
  then show *: "unat (p + of_nat k * PAGE_SIZE) = unat p + k * 4096"
    using unat_add_u64 [of p "of_nat k * PAGE_SIZE"] b by simp
  show "unat (p + of_nat k * PAGE_SIZE) \<in> heap_range"
    using b assms(1) unfolding * by (simp add: heap_range_def in_heap_def)
qed

definition pages :: "u64 \<Rightarrow> nat \<Rightarrow> u64 list" where
  "pages p n = map (\<lambda>k. p + of_nat k * PAGE_SIZE) [0..<n]"

lemma page_offsets_pages: "map (\<lambda>i. p + i) (page_offsets len) = pages p ((unat len + 4095) div 4096)"
  by (simp add: page_offsets_def pages_def)

lemma pages_distinct:
  assumes "in_heap p n"
  shows "distinct (map va_path (pages p n))" and "\<forall>va \<in> set (pages p n). va_index 39 va \<noteq> 511"
proof -
  have "va_path (p + of_nat i * PAGE_SIZE) \<noteq> va_path (p + of_nat j * PAGE_SIZE)" if "i < n" "j < n" "i \<noteq> j" for i j
  proof
    assume "va_path (p + of_nat i * PAGE_SIZE) = va_path (p + of_nat j * PAGE_SIZE)"
    from va_path_inj [OF unat_page(2) [OF assms that(1)] unat_page(2) [OF assms that(2)] this]
    have "unat p div 4096 + i = unat p div 4096 + j"
      by (simp add: page_number_def unat_page(1) [OF assms] that)
    with that(3) show False by simp
  qed
  then show "distinct (map va_path (pages p n))"
    by (auto simp: pages_def distinct_conv_nth)
  show "\<forall>va \<in> set (pages p n). va_index 39 va \<noteq> 511"
    using heap_range_index [OF unat_page(2) [OF assms]] by (auto simp: pages_def)
qed

section \<open>Mapping lists of pages\<close>

lemma unat_frame_address:
  assumes "unat f < 2 ^ 40"
  shows "unat (f * PAGE_SIZE) < 2 ^ 52" and "drop_bit 12 (f * PAGE_SIZE) = f"
proof -
  have "unat (f * PAGE_SIZE) = unat f * 4096" using assms by (simp add: unat_word_ariths)
  then show "unat (f * PAGE_SIZE) < 2 ^ 52" "drop_bit 12 (f * PAGE_SIZE) = f"
    using assms by (simp_all add: word_unat_eq_iff drop_bit_eq_div unat_div)
qed

lemma mapRange_ok:
  assumes "pt_ok m" and "distinct (map (va_path \<circ> fst) ps)" and "\<forall>(va, pa) \<in> set ps. va_index 39 va \<noteq> 511 \<and> unat pa < 2 ^ 52"
    and "3 * 4096 * length ps \<le> card (free_set (mem_phys m))"
  shows "\<exists>m'. mapRange ps ca m = Inr m' \<and> pt_ok m' \<and> pt_frame m m' \<and> (\<forall>(va, pa) \<in> set ps. page_of m' va = Some (drop_bit 12 pa)) \<and>
           (\<forall>va'. va_index 39 va' \<noteq> 511 \<longrightarrow> va_path va' \<notin> va_path ` fst ` set ps \<longrightarrow> page_of m' va' = page_of m va')"
  using assms
proof (induction ps arbitrary: m)
  case Nil
  then show ?case by (simp add: pt_frame_def)
next
  case (Cons x ps)
  obtain va pa where x: "x = (va, pa)" by fastforce
  have c: "va_index 39 va \<noteq> 511" "unat pa < 2 ^ 52" "3 * 4096 \<le> card (free_set (mem_phys m))"
    using Cons.prems(3,4) by (auto simp: x)
  from mapPage_ok [OF Cons.prems(1) c(1,3,2), of False ca] obtain m1 where
    m1: "mapPage va pa WRITABLE False ca m = Inr m1" "pt_ok m1" "pt_frame m m1"
      "card (free_set (mem_phys m)) \<le> card (free_set (mem_phys m1)) + 3 * 4096" "page_of m1 va = Some (drop_bit 12 pa)"
      "\<forall>va'. va_index 39 va' \<noteq> 511 \<longrightarrow> va_path va' \<noteq> va_path va \<longrightarrow> page_of m1 va' = page_of m va'" by blast
  have "distinct (map (va_path \<circ> fst) ps)" "\<forall>(va, pa) \<in> set ps. va_index 39 va \<noteq> 511 \<and> unat pa < 2 ^ 52"
    "3 * 4096 * length ps \<le> card (free_set (mem_phys m1))"
    using Cons.prems(2-4) m1(4) by (simp_all add: comp_def)
  from Cons.IH [OF m1(2) this] obtain m' where
    m': "mapRange ps ca m1 = Inr m'" "pt_ok m'" "pt_frame m1 m'" "\<forall>(va, pa) \<in> set ps. page_of m' va = Some (drop_bit 12 pa)"
      "\<forall>va'. va_index 39 va' \<noteq> 511 \<longrightarrow> va_path va' \<notin> va_path ` fst ` set ps \<longrightarrow> page_of m' va' = page_of m1 va'" by blast
  have "page_of m' va = Some (drop_bit 12 pa)"
    using m'(5) c(1) m1(5) Cons.prems(2) by (auto simp: x image_image)
  then show ?case
    using m1 m' by (intro exI [of _ m']) (auto simp: x pt_frame_def)
qed

lemma mapFrames_ok:
  assumes "pt_ok m" and "distinct (map va_path vas)" and "\<forall>va \<in> set vas. va_index 39 va \<noteq> 511"
    and "4 * 4096 * length vas \<le> card (free_set (mem_phys m))"
  shows "\<exists>m' fs. mapFrames vas m = Inr m' \<and> pt_ok m' \<and> pt_frame m m' \<and> length fs = length vas \<and> distinct fs \<and>
           (\<forall>k < length vas. page_of m' (vas ! k) = Some (fs ! k)) \<and>
           (\<forall>f \<in> set fs. page_bytes f \<subseteq> free_set (mem_phys m) \<and> page_bytes f \<inter> free_set (mem_phys m') = {}) \<and>
           free_set (mem_phys m') \<subseteq> free_set (mem_phys m) \<and>
           (\<forall>va'. va_index 39 va' \<noteq> 511 \<longrightarrow> va_path va' \<notin> va_path ` set vas \<longrightarrow> page_of m' va' = page_of m va')"
  using assms
proof (induction vas arbitrary: m)
  case Nil
  then show ?case by (auto simp: pt_frame_def)
next
  case (Cons va vas)
  have ne: "free_set (mem_phys m) \<noteq> {}" using Cons.prems(4) by auto
  from allocateFrame_ok [OF pt_okD(2) [OF Cons.prems(1)] ne, of "mem_irq m"] obtain f bm where
    al: "allocateFrame (mem_irq m, mem_phys m) = Inr (f, mem_irq m, bm)" and bm: "frames_ok bm" "f \<noteq> 0" "unat f < 2 ^ 40"
      "page_bytes f \<subseteq> free_set (mem_phys m)" "free_set bm = free_set (mem_phys m) - page_bytes f" by blast
  let ?m1 = "m\<lparr>mem_phys := bm\<rparr>"
  have ok1: "pt_ok ?m1"
    by (rule pt_ok_phys [OF Cons.prems(1) bm(1)]) (use pt_okD(4) [OF Cons.prems(1)] bm(5) in blast)
  have card: "card (free_set (mem_phys m)) = card (free_set bm) + 4096"
    using card_Diff_subset [OF _ bm(4)] card_mono [OF _ bm(4)] pt_okD(2) [OF Cons.prems(1)]
    by (simp add: bm(5) card_page_bytes page_bytes_def)
  have c: "va_index 39 va \<noteq> 511" "3 * 4096 \<le> card (free_set (mem_phys ?m1))" using Cons.prems(3,4) card by auto
  from mapPage_ok [OF ok1 c unat_frame_address(1) [OF bm(3)], of True True] obtain m2 where
    m2: "mapPage va (f * PAGE_SIZE) WRITABLE True True ?m1 = Inr m2" "pt_ok m2" "pt_frame ?m1 m2"
      "free_set (mem_phys m2) \<subseteq> free_set bm" "card (free_set bm) \<le> card (free_set (mem_phys m2)) + 3 * 4096" "page_of m2 va = Some f"
      "\<forall>va'. va_index 39 va' \<noteq> 511 \<longrightarrow> va_path va' \<noteq> va_path va \<longrightarrow> page_of m2 va' = page_of ?m1 va'"
    unfolding unat_frame_address(2) [OF bm(3)] by auto
  have "distinct (map va_path vas)" "\<forall>va \<in> set vas. va_index 39 va \<noteq> 511" "4 * 4096 * length vas \<le> card (free_set (mem_phys m2))"
    using Cons.prems(2-4) m2(5) card by auto
  from Cons.IH [OF m2(2) this] obtain m' fs where
    m': "mapFrames vas m2 = Inr m'" "pt_ok m'" "pt_frame m2 m'" "length fs = length vas" "distinct fs"
      "\<forall>k < length vas. page_of m' (vas ! k) = Some (fs ! k)"
      "\<forall>f \<in> set fs. page_bytes f \<subseteq> free_set (mem_phys m2) \<and> page_bytes f \<inter> free_set (mem_phys m') = {}"
      "free_set (mem_phys m') \<subseteq> free_set (mem_phys m2)"
      "\<forall>va'. va_index 39 va' \<noteq> 511 \<longrightarrow> va_path va' \<notin> va_path ` set vas \<longrightarrow> page_of m' va' = page_of m2 va'" by blast
  have run: "mapFrames (va # vas) m = Inr m'"
    using al bm(2) m2(1) m'(1) by (simp add: on_phys_def)
  have va: "page_of m' va = Some f" using m'(9) c(1) m2(6) Cons.prems(2) by (auto simp: image_iff)
  have ff: "page_bytes f \<inter> free_set bm = {}" using bm(5) by blast
  have "f \<notin> set fs"
  proof
    assume "f \<in> set fs"
    with m'(7) m2(4) ff have "page_bytes f = {}" by blast
    then show False by (simp add: page_bytes_def)
  qed
  moreover have "\<forall>g \<in> set (f # fs). page_bytes g \<subseteq> free_set (mem_phys m) \<and> page_bytes g \<inter> free_set (mem_phys m') = {}"
    using m'(7,8) m2(4) bm(4,5) by (auto, blast+)
  moreover have "\<forall>k < length (va # vas). page_of m' ((va # vas) ! k) = Some ((f # fs) ! k)"
    using va m'(6) by (auto simp: less_Suc_eq_0_disj)
  moreover have "page_of ?m1 va' = page_of m va'" for va' by (simp add: page_of_def)
  ultimately show ?case
    using run m' m2(3,4,7) bm(5) by (intro exI [of _ m'] exI [of _ "f # fs"]) (auto simp: pt_frame_def)
qed

section \<open>Contracts\<close>

lemma pt_ok_virt [simp]: "pt_ok (m\<lparr>mem_virt := bm\<rparr>) = pt_ok m"
  by (simp add: pt_ok_def self_mapped_def is_table_def)

lemma page_of_virt [simp]: "page_of (m\<lparr>mem_virt := bm\<rparr>) va = page_of m va"
  by (simp add: page_of_def)

text \<open>A heap whose free virtual addresses are whole pages below the window of the page tables.\<close>

definition heap_ok :: "memory \<Rightarrow> bool" where
  "heap_ok m \<longleftrightarrow> pt_ok m \<and> bm_inv (mem_virt m) \<and> bm_aligned (mem_virt m) \<and> free_set (mem_virt m) \<subseteq> heap_range"

lemma take_range:
  assumes "heap_ok m" and "can_satisfy len (mem_virt m)" and "unat len = n * 4096" and "0 < n"
  shows "\<exists>p bm. on_virt (allocate len) m = Inr (p, m\<lparr>mem_virt := bm\<rparr>) \<and> heap_ok (m\<lparr>mem_virt := bm\<rparr>) \<and> in_heap p n \<and>
           p \<noteq> nullptr \<and> span p len \<subseteq> free_set (mem_virt m) \<and> free_set bm = free_set (mem_virt m) - span p len"
proof -
  have h: "bm_inv (mem_virt m)" "bm_aligned (mem_virt m)" "free_set (mem_virt m) \<subseteq> heap_range"
    using assms(1) by (simp_all add: heap_ok_def)
  from allocate_ok [OF h(1) assms(2), of "mem_irq m"] obtain p bm where
    r: "allocate len (mem_irq m, mem_virt m) = Inr (p, mem_irq m, bm)" "bm_inv bm" "span p len \<subseteq> free_set (mem_virt m)"
      "free_set bm = free_set (mem_virt m) - span p len" by blast
  from allocate_aligned [OF h(1,2) assms(2) _ r(1)] have al: "unat p mod 4096 = 0" "bm_aligned bm" using assms(3) by simp_all
  have "unat p \<in> span p len" "unat p + (n * 4096 - 1) \<in> span p len" using assms(3,4) by (simp_all add: span_def)
  then have "unat p \<in> heap_range" "unat p + (n * 4096 - 1) \<in> heap_range" using r(3) h(3) by blast+
  then have "in_heap p n" "unat p \<noteq> 0" using al(1) assms(4) by (auto simp: in_heap_def heap_range_def)
  moreover from this(2) have "p \<noteq> nullptr" by auto
  ultimately show ?thesis
    using r al assms(1) by (intro exI [of _ p] exI [of _ bm]) (auto simp: on_virt_def heap_ok_def)
qed

lemma PAGE_ALIGN_UP_pages:
  assumes "unat x + 4095 < 2 ^ 64"
  shows "(unat (PAGE_ALIGN_UP x) + 4095) div 4096 = (unat x + 4095) div 4096"
  by (simp only: unat_PAGE_ALIGN_UP [OF assms])

lemma unat_with_header: "unat len + 8 < 2 ^ 64 \<Longrightarrow> unat (len + header_size) = unat len + 8"
  by (simp add: unat_add_u64 header_size_def)

definition heap_pages :: "u64 \<Rightarrow> nat" where
  "heap_pages len = (unat len + 8 + 4095) div 4096"

lemma allocated_pages_eq:
  assumes "unat len + 8 + 4095 < 2 ^ 64"
  shows "allocated_pages p len = pages p (heap_pages len)" and "unat (PAGE_ALIGN_UP (len + header_size)) = heap_pages len * 4096"
proof -
  have u: "unat (len + header_size) = unat len + 8" using assms by (simp add: unat_with_header)
  have b: "unat (len + header_size) + 4095 < 2 ^ 64" using assms by (simp only: u)
  show "allocated_pages p len = pages p (heap_pages len)"
    unfolding allocated_pages_def page_offsets_pages PAGE_ALIGN_UP_pages [OF b] by (simp only: u heap_pages_def)
  show "unat (PAGE_ALIGN_UP (len + header_size)) = heap_pages len * 4096"
    unfolding unat_PAGE_ALIGN_UP [OF b] by (simp only: u heap_pages_def)
qed

lemma allocateMemory_ok:
  assumes "heap_ok m" and "unat len + 8 + 4095 < 2 ^ 64" and "can_satisfy (PAGE_ALIGN_UP (len + header_size)) (mem_virt m)"
    and "4 * 4096 * heap_pages len \<le> card (free_set (mem_phys m))"
  shows "\<exists>p m' fs. allocateMemory len m = Inr (p, m') \<and> p \<noteq> nullptr \<and> heap_ok m' \<and> in_heap p (heap_pages len) \<and>
           span p (PAGE_ALIGN_UP (len + header_size)) \<subseteq> free_set (mem_virt m) \<and>
           free_set (mem_virt m') = free_set (mem_virt m) - span p (PAGE_ALIGN_UP (len + header_size)) \<and>
           length fs = heap_pages len \<and> distinct fs \<and>
           (\<forall>k < heap_pages len. page_of m' (p + of_nat k * PAGE_SIZE) = Some (fs ! k)) \<and>
           (\<forall>f \<in> set fs. page_bytes f \<subseteq> free_set (mem_phys m) \<and> page_bytes f \<inter> free_set (mem_phys m') = {}) \<and>
           (\<forall>va'. va_index 39 va' \<noteq> 511 \<longrightarrow> va_path va' \<notin> va_path ` set (pages p (heap_pages len)) \<longrightarrow> page_of m' va' = page_of m va')"
proof -
  let ?n = "heap_pages len" let ?len = "PAGE_ALIGN_UP (len + header_size)"
  have "0 < ?n" by (simp add: heap_pages_def)
  from take_range [OF assms(1,3) allocated_pages_eq(2) [OF assms(2)] this] obtain p bm where
    r: "on_virt (allocate ?len) m = Inr (p, m\<lparr>mem_virt := bm\<rparr>)" "heap_ok (m\<lparr>mem_virt := bm\<rparr>)" "in_heap p ?n" "p \<noteq> nullptr"
      "span p ?len \<subseteq> free_set (mem_virt m)" "free_set bm = free_set (mem_virt m) - span p ?len" by blast
  let ?m1 = "m\<lparr>mem_virt := bm\<rparr>"
  have len: "length (pages p ?n) = ?n" by (simp add: pages_def)
  have "pt_ok ?m1" using r(2) by (simp add: heap_ok_def)
  from mapFrames_ok [OF this pages_distinct [OF r(3)], unfolded len] assms(4) obtain m' fs where
    f: "mapFrames (pages p ?n) ?m1 = Inr m'" "pt_ok m'" "pt_frame ?m1 m'" "length fs = ?n" "distinct fs"
      "\<forall>k < ?n. page_of m' (pages p ?n ! k) = Some (fs ! k)"
      "\<forall>f \<in> set fs. page_bytes f \<subseteq> free_set (mem_phys m) \<and> page_bytes f \<inter> free_set (mem_phys m') = {}"
      "\<forall>va'. va_index 39 va' \<noteq> 511 \<longrightarrow> va_path va' \<notin> va_path ` set (pages p ?n) \<longrightarrow> page_of m' va' = page_of m va'"
    by (auto simp del: pages_def)
  have "allocateMemory len m = Inr (p, m')"
    using r(1,4) f(1) by (simp add: allocateMemory_def Let_def allocated_pages_eq(1) [OF assms(2)])
  moreover have "mem_virt m' = bm" using f(3) by (simp add: pt_frame_def)
  moreover from this r(2) f(2) have "heap_ok m'" by (simp add: heap_ok_def)
  moreover have "\<forall>k < ?n. page_of m' (p + of_nat k * PAGE_SIZE) = Some (fs ! k)" using f(6) by (simp add: pages_def)
  ultimately show ?thesis using r f by (intro exI [of _ p] exI [of _ m'] exI [of _ fs]) (simp only: simp_thms)
qed

lemma va_path_page: "page_number va = page_number va' \<Longrightarrow> va_path va = va_path va'"
  by (simp only: va_path_def va_index_page)

lemma page_of_page: "page_number va = page_number va' \<Longrightarrow> page_of m va = page_of m va'"
  using va_path_page [of va va'] by (simp add: page_of_def)

text \<open>Offsets into an aligned range, in bytes.\<close>

lemma in_heap_byte:
  assumes "in_heap p n" and "a < n * 4096"
  shows "unat (p + of_nat a) = unat p + a" and "page_number (p + of_nat a) = page_number (p + of_nat (a div 4096) * PAGE_SIZE)"
    and "a div 4096 < n"
proof -
  show k: "a div 4096 < n" using assms(2) by (simp add: div_less_iff_less_mult)
  have b: "unat p + a < 2 ^ 64" using assms by (simp add: in_heap_def)
  then have "unat (of_nat a :: u64) = a" by (intro unat_of_nat_small) simp
  then show u: "unat (p + of_nat a) = unat p + a" using unat_add_u64 [of p "of_nat a"] b by simp
  have "4096 dvd unat p" using assms(1) by (simp add: in_heap_def dvd_eq_mod_eq_0)
  then have "(unat p + a) div 4096 = (unat p + a div 4096 * 4096) div 4096" by (auto elim!: dvdE)
  then show "page_number (p + of_nat a) = page_number (p + of_nat (a div 4096) * PAGE_SIZE)"
    unfolding page_number_def u unat_page(1) [OF assms(1) k] .
qed

lemma mapAddress_size:
  assumes "unat pa + unat len + 4095 < 2 ^ 52"
  defines "n \<equiv> (unat pa + unat len + 4095) div 4096 - unat pa div 4096"
  shows "unat (PAGE_ALIGN_UP (pa + len) - PAGE_ALIGN_DOWN pa) = n * 4096"
    and "unat pa mod 4096 + unat len \<le> n * 4096" and "unat pa div 4096 * 4096 + n * 4096 < 2 ^ 52"
proof -
  have u: "unat (pa + len) = unat pa + unat len" by (rule unat_add_u64) (use assms(1) in simp)
  have up: "unat (PAGE_ALIGN_UP (pa + len)) = (unat pa + unat len + 4095) div 4096 * 4096"
    using unat_PAGE_ALIGN_UP [of "pa + len"] assms(1) by (simp add: u)
  have le: "unat pa div 4096 \<le> (unat pa + unat len + 4095) div 4096" by (rule div_le_mono) simp
  then have "PAGE_ALIGN_DOWN pa \<le> PAGE_ALIGN_UP (pa + len)"
    by (simp add: word_le_nat_alt up unat_PAGE_ALIGN_DOWN)
  then show "unat (PAGE_ALIGN_UP (pa + len) - PAGE_ALIGN_DOWN pa) = n * 4096"
    by (simp add: unat_sub up unat_PAGE_ALIGN_DOWN n_def diff_mult_distrib)
  have "(unat pa + unat len + 4095) div 4096 * 4096 + 4095 \<ge> unat pa + unat len + 4095"
    "(unat pa + unat len + 4095) div 4096 * 4096 \<le> unat pa + unat len + 4095"
    using div_mult_mod_eq [of "unat pa + unat len + 4095" 4096] by linarith+
  moreover have "unat pa div 4096 * 4096 + unat pa mod 4096 = unat pa" by simp
  moreover have "unat pa div 4096 * 4096 + n * 4096 = (unat pa + unat len + 4095) div 4096 * 4096"
    using le by (simp add: n_def diff_mult_distrib)
  ultimately show "unat pa mod 4096 + unat len \<le> n * 4096" "unat pa div 4096 * 4096 + n * 4096 < 2 ^ 52"
    using assms(1) by linarith+
qed

definition mapped_pages :: "u64 \<Rightarrow> u64 \<Rightarrow> nat" where
  "mapped_pages pa len = (unat pa + unat len + 4095) div 4096 - unat pa div 4096"

lemma mapAddress_phys:
  assumes b: "unat pa + unat len + 4095 < 2 ^ 52"
  shows "k < mapped_pages pa len \<Longrightarrow> unat (PAGE_ALIGN_DOWN pa + of_nat k * PAGE_SIZE) < 2 ^ 52"
    and "map (\<lambda>i. (p + i, PAGE_ALIGN_DOWN pa + i)) (page_offsets (PAGE_ALIGN_UP (pa + len) - PAGE_ALIGN_DOWN pa)) =
           map (\<lambda>k. (p + of_nat k * PAGE_SIZE, PAGE_ALIGN_DOWN pa + of_nat k * PAGE_SIZE)) [0..<mapped_pages pa len]"
proof -
  let ?n = "mapped_pages pa len" let ?d = "PAGE_ALIGN_DOWN pa" let ?len = "PAGE_ALIGN_UP (pa + len) - ?d"
  note sz = mapAddress_size [OF b, folded mapped_pages_def]
  show "unat (?d + of_nat k * PAGE_SIZE) < 2 ^ 52" if "k < ?n"
  proof -
    have "k < 2 ^ 40" using that sz(3) by simp
    then have "unat (of_nat k :: u64) = k" by (intro unat_of_nat_small) simp
    then have "unat (of_nat k * PAGE_SIZE) = k * 4096" using \<open>k < 2 ^ 40\<close> by (simp add: unat_word_ariths)
    then show ?thesis using unat_add_u64 [of ?d "of_nat k * PAGE_SIZE"] sz(3) that by (simp add: unat_PAGE_ALIGN_DOWN)
  qed
  have "(unat ?len + 4095) div 4096 = ?n" by (simp only: sz(1))
  then show "map (\<lambda>i. (p + i, ?d + i)) (page_offsets ?len) = map (\<lambda>k. (p + of_nat k * PAGE_SIZE, ?d + of_nat k * PAGE_SIZE)) [0..<?n]"
    by (simp add: page_offsets_def)
qed

lemma mapAddress_ok:
  assumes "heap_ok m" and b: "unat pa + unat len + 4095 < 2 ^ 52" and "0 < len"
    and sat: "can_satisfy (PAGE_ALIGN_UP (pa + len) - PAGE_ALIGN_DOWN pa) (mem_virt m)"
    and free: "3 * 4096 * mapped_pages pa len \<le> card (free_set (mem_phys m))"
  shows "\<exists>p m'. mapAddress pa len ca m = Inr (p + pa mod PAGE_SIZE, m') \<and> heap_ok m' \<and> in_heap p (mapped_pages pa len) \<and>
           (\<forall>k < mapped_pages pa len. page_of m' (p + of_nat k * PAGE_SIZE) = Some (drop_bit 12 (PAGE_ALIGN_DOWN pa + of_nat k * PAGE_SIZE))) \<and>
           (\<forall>va. unat va \<in> heap_range - free_set (mem_virt m) \<longrightarrow> page_of m' va = page_of m va)"
proof -
  let ?n = "mapped_pages pa len" let ?d = "PAGE_ALIGN_DOWN pa" let ?len = "PAGE_ALIGN_UP (pa + len) - ?d"
  note sz = mapAddress_size [OF b, folded mapped_pages_def]
  have "0 < unat len" using assms(3) by (simp add: word_less_nat_alt)
  then have "0 < ?n" using sz(2) by (cases ?n) auto
  from take_range [OF assms(1) sat sz(1) this] obtain p bm where
    r: "on_virt (allocate ?len) m = Inr (p, m\<lparr>mem_virt := bm\<rparr>)" "heap_ok (m\<lparr>mem_virt := bm\<rparr>)" "in_heap p ?n" "p \<noteq> nullptr"
      "span p ?len \<subseteq> free_set (mem_virt m)" by blast
  let ?m1 = "m\<lparr>mem_virt := bm\<rparr>"
  let ?ps = "map (\<lambda>k. (p + of_nat k * PAGE_SIZE, ?d + of_nat k * PAGE_SIZE)) [0..<?n]"
  have "map (va_path \<circ> fst) ?ps = map va_path (pages p ?n)" by (simp add: pages_def)
  moreover have "\<forall>(va, pa) \<in> set ?ps. va_index 39 va \<noteq> 511 \<and> unat pa < 2 ^ 52"
    using pages_distinct(2) [OF r(3)] mapAddress_phys [OF b] by (auto simp: pages_def)
  ultimately obtain m' where m': "mapRange ?ps ca ?m1 = Inr m'" "pt_ok m'" "pt_frame ?m1 m'"
    "\<forall>(va, pa) \<in> set ?ps. page_of m' va = Some (drop_bit 12 pa)"
    "\<forall>va. va_index 39 va \<noteq> 511 \<longrightarrow> va_path va \<notin> va_path ` fst ` set ?ps \<longrightarrow> page_of m' va = page_of ?m1 va"
    using mapRange_ok [of ?m1 ?ps ca] r(2) pages_distinct(1) [OF r(3)] free by (auto simp: heap_ok_def simp del: map_map)
  have "mapAddress pa len ca m = Inr (p + pa mod PAGE_SIZE, m')"
    using r(1,4) m'(1) by (simp add: mapAddress_def Let_def mapAddress_phys(2) [OF b])
  moreover have "heap_ok m'" using m'(2,3) r(2) by (simp add: heap_ok_def pt_frame_def)
  moreover have "page_of m' va = page_of m va" if va: "unat va \<in> heap_range - free_set (mem_virt m)" for va
  proof -
    have "va_path va \<noteq> va_path (p + of_nat k * PAGE_SIZE)" if "k < ?n" for k
    proof
      assume "va_path va = va_path (p + of_nat k * PAGE_SIZE)"
      from va_path_inj [OF _ unat_page(2) [OF r(3) that] this] va
      have "unat va div 4096 = unat p div 4096 + k" by (simp add: page_number_def unat_page(1) [OF r(3) that])
      then have "unat va \<in> span p ?len" using r(3) that by (auto simp: span_def sz(1) in_heap_def elim!: dvdE)
      then show False using r(5) va by blast
    qed
    then have "va_path va \<notin> va_path ` fst ` set ?ps" by auto blast
    then show ?thesis using m'(5) heap_range_index [of va] va by simp
  qed
  ultimately show ?thesis using r(3) m'(4) by (intro exI [of _ p] exI [of _ m']) auto
qed

lemma unmapped_pages_eq:
  assumes "in_heap p n" and "unat p + unat len + 4095 < 2 ^ 64"
  shows "unmapped_pages p len = pages p ((unat len + 4095) div 4096)"
proof -
  obtain x where x: "unat p = 4096 * x" using assms(1) by (auto simp: in_heap_def elim!: dvdE)
  have u: "unat (p + len) = unat p + unat len" by (rule unat_add_u64) (use assms(2) in simp)
  have up: "unat (PAGE_ALIGN_UP (p + len)) = unat p + (unat len + 4095) div 4096 * 4096"
    using unat_PAGE_ALIGN_UP [of "p + len"] assms(2) unfolding u x by (simp add: add.assoc)
  have down: "PAGE_ALIGN_DOWN p = p" by (simp add: word_unat_eq_iff unat_PAGE_ALIGN_DOWN x)
  have "p \<le> PAGE_ALIGN_UP (p + len)" by (simp add: word_le_nat_alt up)
  then have "unat (PAGE_ALIGN_UP (p + len) - p) = (unat len + 4095) div 4096 * 4096" by (simp add: unat_sub up)
  then have "(unat (PAGE_ALIGN_UP (p + len) - p) + 4095) div 4096 = (unat len + 4095) div 4096" by (simp only:)
  then show ?thesis by (simp only: unmapped_pages_def down page_offsets_pages)
qed

lemma pages_short: "(x + 8 + 4095) div 4096 = (if 1 \<le> x mod 4096 \<and> x mod 4096 \<le> 4088 then (x + 4095) div 4096 else (x + 4095) div 4096 + 1)"
  for x :: nat
proof -
  define q r where qr: "q = x div 4096" "r = x mod 4096"
  have x: "x = r + q * 4096" "r < 4096" by (simp_all add: qr)
  have a: "(4103 + x) div 4096 = q + (r + 4103) div 4096" "(x + 4095) div 4096 = q + (r + 4095) div 4096"
    unfolding x(1) by (simp_all add: add.commute add.left_commute)
  consider "r = 0" | "1 \<le> r" "r \<le> 4088" | "4088 < r" by linarith
  then have "(r + 4103) div 4096 = (if 1 \<le> r \<and> r \<le> 4088 then (r + 4095) div 4096 else (r + 4095) div 4096 + 1)"
  proof cases
    case 2
    then have "(r + 4103) div 4096 = 1" "(r + 4095) div 4096 = 1" by (intro div_nat_eqI; simp)+
    with 2 show ?thesis by simp
  next
    case 3
    then have "(r + 4103) div 4096 = 2" "(r + 4095) div 4096 = 1" using x(2) by (intro div_nat_eqI; simp)+
    with 3 show ?thesis by simp
  qed simp
  then show ?thesis by (simp add: a qr(2) [symmetric])
qed

lemma pages_take: "n \<le> k \<Longrightarrow> pages p n = take n (pages p k)"
  by (simp add: pages_def take_map)

lemma invalidatePages_tlb:
  "mc_tlb (invalidatePages c vas s) = (mc_tlb s)(c := mc_tlb s c - page_number ` set vas) \<and>
   mc_cpu (invalidatePages c vas s) = mc_cpu s \<and> mc_mem (invalidatePages c vas s) = mc_mem s \<and>
   mc_processorCount (invalidatePages c vas s) = mc_processorCount s"
  by (induction vas arbitrary: s) (simp_all add: invalidateTlb_def Diff_insert2 [symmetric])

lemma shootdown_fold:
  assumes "distinct is"
  shows "mc_tlb (fold (\<lambda>i s. if i \<noteq> mc_cpu s then invalidatePages i vas s else s) is s) =
           (\<lambda>c. if c \<in> set is \<and> c \<noteq> mc_cpu s then mc_tlb s c - page_number ` set vas else mc_tlb s c) \<and>
         mc_cpu (fold (\<lambda>i s. if i \<noteq> mc_cpu s then invalidatePages i vas s else s) is s) = mc_cpu s"
  using assms by (induction "is" arbitrary: s) (auto simp: invalidatePages_tlb fun_eq_iff)

lemma unmapPages_cpu:
  assumes "unmapPages vas s = Inr s'"
  shows "mc_cpu s' = mc_cpu s \<and> mc_processorCount s' = mc_processorCount s \<and> (\<forall>c. mc_tlb s' c \<subseteq> mc_tlb s c)"
  using assms
  by (induction vas arbitrary: s) (fastforce simp: unmapPageTlb_def invalidateTlb_def Let_def split: if_splits)+

text \<open>Byte by byte of a range.\<close>

lemma mapAddress_bytes:
  assumes "heap_ok m" and "unat pa + unat len + 4095 < 2 ^ 52" and "0 < len"
    and "can_satisfy (PAGE_ALIGN_UP (pa + len) - PAGE_ALIGN_DOWN pa) (mem_virt m)"
    and "3 * 4096 * mapped_pages pa len \<le> card (free_set (mem_phys m))"
  shows "\<exists>p m'. mapAddress pa len ca m = Inr (p, m') \<and> heap_ok m' \<and>
           (\<forall>a < unat len. page_of m' (p + of_nat a) = Some (drop_bit 12 (pa + of_nat a)) \<and>
              unat (p + of_nat a) mod 4096 = unat (pa + of_nat a) mod 4096) \<and>
           (\<forall>va. unat va \<in> heap_range - free_set (mem_virt m) \<longrightarrow> page_of m' va = page_of m va)"
proof -
  let ?n = "mapped_pages pa len" let ?o = "unat pa mod 4096" let ?d = "PAGE_ALIGN_DOWN pa"
  from mapAddress_ok [OF assms, of ca] obtain p m' where
    r: "mapAddress pa len ca m = Inr (p + pa mod PAGE_SIZE, m')" "heap_ok m'" "in_heap p ?n"
      "\<forall>k < ?n. page_of m' (p + of_nat k * PAGE_SIZE) = Some (drop_bit 12 (?d + of_nat k * PAGE_SIZE))"
      "\<forall>va. unat va \<in> heap_range - free_set (mem_virt m) \<longrightarrow> page_of m' va = page_of m va" by blast
  note sz = mapAddress_size [OF assms(2), folded mapped_pages_def]
  have o: "pa mod PAGE_SIZE = of_nat ?o" by (simp add: word_unat_eq_iff unat_mod unsigned_of_nat take_bit_eq_mod)
  have byte: "page_of m' (p + pa mod PAGE_SIZE + of_nat a) = Some (drop_bit 12 (pa + of_nat a)) \<and>
      unat (p + pa mod PAGE_SIZE + of_nat a) mod 4096 = unat (pa + of_nat a) mod 4096" if a: "a < unat len" for a
  proof -
    let ?a = "?o + a"
    have e: "p + pa mod PAGE_SIZE + of_nat a = p + of_nat ?a" by (simp add: o)
    have l: "?a < ?n * 4096" using sz(2) a by linarith
    note b = in_heap_byte [OF r(3) l]
    have ua: "unat (pa + of_nat a) = unat pa + a"
      using unat_add_u64 [of pa "of_nat a"] unat_of_nat_small [of a, where 'a = 64] a assms(2) by simp
    have "?n < 2 ^ 40" using sz(3) by simp
    with b(3) have k: "?a div 4096 < 2 ^ 40" by (rule less_trans)
    then have "unat (of_nat (?a div 4096) :: u64) = ?a div 4096" by (intro unat_of_nat_small) simp
    then have uk: "unat (of_nat (?a div 4096) * PAGE_SIZE) = ?a div 4096 * 4096" using k by (simp add: unat_word_ariths)
    have ud: "unat (?d + of_nat (?a div 4096) * PAGE_SIZE) = unat pa div 4096 * 4096 + ?a div 4096 * 4096"
      using unat_add_u64 [of ?d "of_nat (?a div 4096) * PAGE_SIZE"] sz(3) b(3) by (simp add: uk unat_PAGE_ALIGN_DOWN)
    have eq: "unat pa + a = unat pa div 4096 * 4096 + ?a" by simp
    have "(unat pa + a) div 4096 = (unat pa div 4096 * 4096 + ?a) div 4096" by (subst eq) (rule refl)
    also have "\<dots> = unat pa div 4096 + ?a div 4096" by (rule div_mult_self3) simp
    finally have dv: "(unat pa + a) div 4096 = unat pa div 4096 + ?a div 4096" .
    have "drop_bit 12 (?d + of_nat (?a div 4096) * PAGE_SIZE) = drop_bit 12 (pa + of_nat a)"
      by (simp add: word_unat_eq_iff drop_bit_eq_div unat_div ud ua dv)
    moreover have "page_of m' (p + of_nat ?a) = page_of m' (p + of_nat (?a div 4096) * PAGE_SIZE)" by (rule page_of_page [OF b(2)])
    moreover have "unat (p + of_nat ?a) mod 4096 = unat (pa + of_nat a) mod 4096"
    proof -
      obtain x where "unat p = 4096 * x" using r(3) by (auto simp: in_heap_def elim!: dvdE)
      then show ?thesis unfolding b(1) ua by (simp add: mod_add_left_eq)
    qed
    ultimately show ?thesis using r(4) b(3) unfolding e by simp
  qed
  with r(1,2,5) show ?thesis by blast
qed

section \<open>Properties\<close>

text \<open>
  (C14) \<^verbatim>\<open>allocateMemory\<close>: with enough address space and physical memory it returns a page-aligned range of
  the heap that was free, takes exactly that range from the free addresses, and backs every page of it with
  a physical frame of its own that was free and no longer is, leaving all other translations alone.
\<close>

theorem allocateMemory_correct:
  assumes "heap_ok m" and "unat len + 8 + 4095 < 2 ^ 64" and "can_satisfy (PAGE_ALIGN_UP (len + header_size)) (mem_virt m)"
    and "4 * 4096 * heap_pages len \<le> card (free_set (mem_phys m))"
  shows "\<exists>p m' fs. allocateMemory len m = Inr (p, m') \<and> heap_ok m' \<and> unat p mod 4096 = 0 \<and>
           span p (PAGE_ALIGN_UP (len + header_size)) \<subseteq> free_set (mem_virt m) \<and>
           free_set (mem_virt m') = free_set (mem_virt m) - span p (PAGE_ALIGN_UP (len + header_size)) \<and>
           length fs = heap_pages len \<and> distinct fs \<and>
           (\<forall>k < heap_pages len. page_of m' (p + of_nat k * PAGE_SIZE) = Some (fs ! k)) \<and>
           (\<forall>f \<in> set fs. page_bytes f \<subseteq> free_set (mem_phys m) \<and> page_bytes f \<inter> free_set (mem_phys m') = {}) \<and>
           (\<forall>va'. va_index 39 va' \<noteq> 511 \<longrightarrow> va_path va' \<notin> va_path ` set (allocated_pages p len) \<longrightarrow> page_of m' va' = page_of m va')"
  using allocateMemory_ok [OF assms] unfolding allocated_pages_eq(1) [OF assms(2)] in_heap_def
  by (elim exE conjE, intro exI conjI)

definition example_virt :: blockmap where
  "example_virt = blockmap_init\<lparr>blocks := (blocks blockmap_init)[0 := Block 0xFFFF800000000000 0xFFFF800010000000], numBlocks := 1\<rparr>"

definition example_heap :: memory where
  "example_heap = example_memory\<lparr>mem_virt := example_virt\<rparr>"

lemma example_virt_live: "live example_virt = [Block 0xFFFF800000000000 0xFFFF800010000000]"
  by (simp add: live_def example_virt_def blockmap_init_def BLOCKMAP_SIZE_def)

lemma example_heap_ok: "heap_ok example_heap" "mem_phys example_heap = example_phys" "mem_virt example_heap = example_virt"
proof -
  have "bm_inv example_virt" "bm_aligned example_virt"
    using example_virt_live
    by (simp_all add: bm_inv_def bm_wf_def bm_disjoint_def bm_aligned_def aligned_block_def Block_def wf_block_def bytes_def)
       (simp add: example_virt_def blockmap_init_def BLOCKMAP_SIZE_def spinlock_init_def locked_def)
  moreover have "free_set example_virt \<subseteq> heap_range" by (simp add: free_set_alt example_virt_live heap_range_def)
  ultimately show "heap_ok example_heap" using example_memory_ok by (simp add: heap_ok_def example_heap_def)
qed (simp_all add: example_heap_def)

lemma example_satisfies: "unat len \<le> 0x10000000 \<Longrightarrow> can_satisfy len example_virt"
  by (simp add: can_satisfy_def example_virt_live capacity_def Block_def word_le_nat_alt)

theorem allocateMemory_correct_witness:
  "\<exists>p m' fs. allocateMemory 5000 example_heap = Inr (p, m') \<and> heap_ok m' \<and> unat p mod 4096 = 0 \<and> length fs = 2 \<and> distinct fs \<and>
     page_of m' p = Some (fs ! 0) \<and> page_of m' (p + 4096) = Some (fs ! 1)"
proof -
  have n: "heap_pages 5000 = 2" by (simp add: heap_pages_def)
  have "can_satisfy (PAGE_ALIGN_UP (5000 + header_size)) example_virt"
    by (rule example_satisfies) (simp add: PAGE_ALIGN_UP_def header_size_def)
  with allocateMemory_correct [OF example_heap_ok(1), of 5000] obtain p m' fs where
    "allocateMemory 5000 example_heap = Inr (p, m')" "heap_ok m'" "unat p mod 4096 = 0" "length fs = 2" "distinct fs"
    and k: "\<forall>k < 2. page_of m' (p + of_nat k * PAGE_SIZE) = Some (fs ! k)"
    by (auto simp: example_heap_ok n example_phys_ok)
  moreover from k [rule_format, of 0] k [rule_format, of 1]
  have "page_of m' p = Some (fs ! 0)" "page_of m' (p + 4096) = Some (fs ! 1)" by (simp_all add: PAGE_SIZE_def)
  ultimately show ?thesis by (intro exI conjI)
qed

text \<open>
  (C18) \<^verbatim>\<open>mapAddress\<close> gives a virtual address for a physical one: byte \<open>a\<close> of the result is byte \<open>a\<close> of the
  physical range, for every byte of it, also when the range starts in the middle of a page or crosses pages, and
  no address of the upper half that was in use is translated differently.
\<close>

theorem mapAddress_translates:
  assumes "heap_ok m" and "unat pa + unat len + 4095 < 2 ^ 52" and "0 < len"
    and "can_satisfy (PAGE_ALIGN_UP (pa + len) - PAGE_ALIGN_DOWN pa) (mem_virt m)"
    and "3 * 4096 * mapped_pages pa len \<le> card (free_set (mem_phys m))"
  shows "\<exists>p m'. mapAddress pa len ca m = Inr (p, m') \<and> heap_ok m' \<and>
           (\<forall>a < unat len. page_of m' (p + of_nat a) = Some (drop_bit 12 (pa + of_nat a)) \<and>
              unat (p + of_nat a) mod 4096 = unat (pa + of_nat a) mod 4096) \<and>
           (\<forall>va. unat va \<in> heap_range - free_set (mem_virt m) \<longrightarrow> page_of m' va = page_of m va)"
  by (rule mapAddress_bytes [OF assms])

theorem mapAddress_translates_witness:
  "\<exists>p m'. mapAddress 0xFEC00FF8 16 False example_heap = Inr (p, m') \<and> heap_ok m' \<and>
     page_of m' p = Some 0xFEC00 \<and> page_of m' (p + 15) = Some 0xFEC01"
proof -
  have n: "mapped_pages 0xFEC00FF8 16 = 2" by (simp add: mapped_pages_def)
  have "can_satisfy (PAGE_ALIGN_UP (0xFEC00FF8 + 16) - PAGE_ALIGN_DOWN 0xFEC00FF8) example_virt"
    by (rule example_satisfies) (simp add: PAGE_ALIGN_UP_def PAGE_ALIGN_DOWN_def)
  with mapAddress_translates [OF example_heap_ok(1), of "0xFEC00FF8" 16 False] obtain p m' where
    r: "mapAddress 0xFEC00FF8 16 False example_heap = Inr (p, m')" "heap_ok m'"
    and b: "\<forall>a < 16. page_of m' (p + of_nat a) = Some (drop_bit 12 (0xFEC00FF8 + of_nat a))"
    by (auto simp: example_heap_ok n example_phys_ok)
  have "page_of m' p = Some (drop_bit 12 0xFEC00FF8)" "page_of m' (p + 15) = Some (drop_bit 12 0xFEC01007)"
    using b [rule_format, of 0] b [rule_format, of 15] by simp_all
  moreover have "drop_bit 12 (0xFEC00FF8 :: u64) = 0xFEC00" "drop_bit 12 (0xFEC01007 :: u64) = 0xFEC01" by (simp_all add: drop_bit_eq_div)
  ultimately show ?thesis using r by (intro exI conjI) simp_all
qed

text \<open>
  What \<^verbatim>\<open>kfree\<close> gives back: the pages it unmaps are the first pages of the allocation, computed from the
  size without the header that \<^verbatim>\<open>allocateMemory\<close> added, so that they are all of its pages exactly when the size
  modulo the page size is between 1 and 4088. For any other size, for instance a multiple of 4096 as for a
  stack, the last page stays mapped and its frame and address are lost.
\<close>

theorem kfree_pages:
  assumes "in_heap p (heap_pages len)" and "unat p + unat len + 4095 < 2 ^ 64" and "mem_word (mc_mem s) p = len" and "p + header_size \<noteq> nullptr"
  shows "kfree (p + header_size) s = unmapMemory p len s \<and>
         unmapped_pages p len = take ((unat len + 4095) div 4096) (allocated_pages p len) \<and>
         (if 1 \<le> unat len mod 4096 \<and> unat len mod 4096 \<le> 4088 then unmapped_pages p len = allocated_pages p len
          else length (unmapped_pages p len) + 1 = length (allocated_pages p len))"
proof -
  have "0xFFFF800000000000 \<le> unat p" using assms(1) by (simp add: in_heap_def)
  then have "unat len + 8 + 4095 < 2 ^ 64" using assms(2) by simp
  note eq = allocated_pages_eq(1) [OF this, of p] unmapped_pages_eq [OF assms(1,2)]
  have n: "heap_pages len = (if 1 \<le> unat len mod 4096 \<and> unat len mod 4096 \<le> 4088 then (unat len + 4095) div 4096 else (unat len + 4095) div 4096 + 1)"
    unfolding heap_pages_def by (rule pages_short)
  then have "(unat len + 4095) div 4096 \<le> heap_pages len" by simp
  moreover have "kfree (p + header_size) s = unmapMemory p len s" using assms(3,4) by (simp add: kfree_def)
  moreover have "length (pages p k) = k" for k by (simp add: pages_def)
  ultimately show ?thesis using n pages_take [of _ _ p] unfolding eq by metis
qed

theorem kfree_pages_witness:
  "length (unmapped_pages 0xFFFF800000000000 4096) + 1 = length (allocated_pages 0xFFFF800000000000 4096)"
proof -
  let ?s = "\<lparr>mc_mem = example_heap\<lparr>mem_word := (\<lambda>_. 4096)\<rparr>, mc_tlb = (\<lambda>_. {}), mc_cpu = 0, mc_processorCount = 1\<rparr>"
  have "in_heap 0xFFFF800000000000 (heap_pages 4096)" "unat (0xFFFF800000000000 :: u64) + unat (4096 :: u64) + 4095 < 2 ^ 64"
    "mem_word (mc_mem ?s) 0xFFFF800000000000 = 4096" "(0xFFFF800000000000 :: u64) + header_size \<noteq> nullptr" "unat (4096 :: u64) mod 4096 = 0"
    by (simp_all add: in_heap_def heap_pages_def header_size_def)
  note k = conjunct2 [OF conjunct2 [OF kfree_pages [OF this(1-4)]]] and mod = this(5)
  have "\<not> (1 \<le> unat (4096 :: u64) mod 4096 \<and> unat (4096 :: u64) mod 4096 \<le> 4088)" unfolding mod by simp
  with k show ?thesis by (simp only: if_False)
qed

lemma stack_page_lost:
  assumes "in_heap p 5"
  shows "length (allocated_pages p DEFAULT_STACK_SIZE) = 5" and "length (unmapped_pages p DEFAULT_STACK_SIZE) = 4"
proof -
  have "unat p + unat DEFAULT_STACK_SIZE + 4095 < 2 ^ 64" using assms by (simp add: in_heap_def DEFAULT_STACK_SIZE_def)
  from unmapped_pages_eq [OF assms this] show "length (unmapped_pages p DEFAULT_STACK_SIZE) = 4"
    by (simp add: pages_def DEFAULT_STACK_SIZE_def)
  show "length (allocated_pages p DEFAULT_STACK_SIZE) = 5"
    using allocated_pages_eq(1) [of DEFAULT_STACK_SIZE p] by (simp add: DEFAULT_STACK_SIZE_def heap_pages_def pages_def)
qed


lemma example_unmapped: "getPageTableEntry 0xFFFF900000000000 False example_heap = Inr (nullptr, example_heap)"
proof -
  have "self_mapped example_heap" using pt_okD(1) example_heap_ok(1) by (simp add: heap_ok_def)
  then have "slot (PML4ENTRY 288) example_heap = Inr (1, 288)"
    using slot_entries(1) [of example_heap 288 0 0 0] by (simp add: example_heap_def)
  then have "read_entry (PML4ENTRY 288) example_heap = Inr 0" by (simp add: read_entry_def example_heap_def)
  then have "ensureTable (PML4ENTRY 288) t False example_heap = Inr (False, example_heap)" for t by (simp add: ensureTable_def)
  moreover have "unat (drop_bit 39 (0xFFFF900000000000 AND (push_bit 48 1 - 1)) AND 511 :: u64) = 288"
    using index_of_masked [of 39 "0xFFFF900000000000"] by (simp add: va_index_def)
  ultimately show ?thesis by (simp only: getPageTableEntry_def Let_def) simp
qed


end
