(* ===== verification/Display.thy ===== *)
theory Display
  imports Kmalloc Byte_Strings
begin

text \<open>
  Drawing: the frame buffer and its shadow in memory (\<^verbatim>\<open>display/frameBuffer.cpp\<close>, \<^verbatim>\<open>frameBuffer.h\<close>, \<^verbatim>\<open>display.h\<close>), the
  rendering of glyphs of the built-in font (\<^verbatim>\<open>display/font/psfRenderer.cpp\<close>) and of characters
  (\<^verbatim>\<open>display/stringWriter.cpp\<close>). Coordinates and offsets are 32-bit words, as in the code, and both buffers are ranges of
  one byte memory. The font file is linked into the kernel; its header is a record that the operations take, with the
  address of its glyphs. The property shows that no drawing operation writes outside the two buffers, whatever the
  coordinates.
\<close>

section \<open>The frame buffer\<close>

record FrameBuffer =
  fb_pointer :: ptr
  fb_width :: u32
  fb_height :: u32
  fb_pitch :: u32
  fb_depth :: u32

record display =
  ds_frameBuffer :: FrameBuffer
  ds_backBuffer :: ptr

record Pixel =
  px_r :: u8
  px_g :: u8
  px_b :: u8

definition getWidth :: "display \<Rightarrow> u32" where
  "getWidth d = fb_width (ds_frameBuffer d)"

definition getHeight :: "display \<Rightarrow> u32" where
  "getHeight d = fb_height (ds_frameBuffer d)"

definition initFrameBuffer :: "display \<Rightarrow> memory \<Rightarrow> byte_mem \<Rightarrow> (display \<times> memory \<times> byte_mem) result" where
  "initFrameBuffer d v m =
     (let f = ds_frameBuffer d; n = ucast (fb_pitch f * fb_height f)
      in rbind (mapAddress (fb_pointer f) n False v) (\<lambda>(p, v1).
         rbind (allocateMemory n v1) (\<lambda>(b, v2).
           (let (_, m1) = memset p 0 n m;
                (_, m2) = memset b 0 n m1
            in Inr (d\<lparr>ds_frameBuffer := f\<lparr>fb_pointer := p\<rparr>, ds_backBuffer := b\<rparr>, v2, m2)))))"

definition bytesPerPixel :: "display \<Rightarrow> u32" where
  "bytesPerPixel d = fb_depth (ds_frameBuffer d) div 8"

text \<open>The offset of a pixel in either buffer.\<close>

definition pixelOffset :: "display \<Rightarrow> u32 \<Rightarrow> u32 \<Rightarrow> u32" where
  "pixelOffset d x y = y * fb_pitch (ds_frameBuffer d) + x * bytesPerPixel d"

definition put_pixel :: "ptr \<Rightarrow> Pixel \<Rightarrow> byte_mem \<Rightarrow> byte_mem" where
  "put_pixel pixelPointer pixel m = m(pixelPointer + 2 := px_r pixel, pixelPointer + 1 := px_g pixel, pixelPointer := px_b pixel)"

definition writePixel :: "display \<Rightarrow> u32 \<Rightarrow> u32 \<Rightarrow> Pixel \<Rightarrow> byte_mem \<Rightarrow> byte_mem" where
  "writePixel d x y pixel m =
     (if x < getWidth d \<and> y < getHeight d then
        (let pixelPointer = ds_backBuffer d + ucast (pixelOffset d x y);
             displayPixelPointer = fb_pointer (ds_frameBuffer d) + ucast (pixelOffset d x y)
         in snd (memcpy displayPixelPointer pixelPointer (ucast (bytesPerPixel d)) (put_pixel pixelPointer pixel m)))
      else m)"

definition clipRectangle :: "display \<Rightarrow> u32 \<Rightarrow> u32 \<Rightarrow> u32 \<times> u32 \<Rightarrow> u32 \<times> u32" where
  "clipRectangle d x y = (\<lambda>(width, height).
     if x \<ge> getWidth d then (0, height)
     else if y \<ge> getHeight d then (width, 0)
     else (if x + width > getWidth d then getWidth d - x else width,
           if y + height > getHeight d then getHeight d - y else height))"

definition bitmap_pixel :: "display \<Rightarrow> ptr \<Rightarrow> ptr \<Rightarrow> Pixel \<Rightarrow> Pixel \<Rightarrow> nat \<Rightarrow> byte_mem \<Rightarrow> byte_mem" where
  "bitmap_pixel d bitmapLine backBufferLine foreground background x m =
     (let pixelPointer = backBufferLine + ucast (of_nat x * bytesPerPixel d);
          bitmapByte = m (bitmapLine + of_nat (x div 8))
      in put_pixel pixelPointer (if bitmapByte AND push_bit (7 - x mod 8) 1 = 0 then background else foreground) m)"

definition bitmap_line :: "display \<Rightarrow> u32 \<Rightarrow> u32 \<Rightarrow> u32 \<Rightarrow> ptr \<Rightarrow> Pixel \<Rightarrow> Pixel \<Rightarrow> nat \<Rightarrow> byte_mem \<Rightarrow> byte_mem" where
  "bitmap_line d initialX initialY width bitmap foreground background y m =
     (let bytesPerBitmapLine = (width + 7) div 8;
          bitmapLine = bitmap + ucast (of_nat y * bytesPerBitmapLine);
          offset = pixelOffset d initialX (of_nat y + initialY);
          backBufferLine = ds_backBuffer d + ucast offset;
          m1 = fold (bitmap_pixel d bitmapLine backBufferLine foreground background) [0..<unat width] m
      in snd (memcpy (fb_pointer (ds_frameBuffer d) + ucast offset) backBufferLine (ucast (bytesPerPixel d * width)) m1))"

definition writeBitmap :: "display \<Rightarrow> u32 \<Rightarrow> u32 \<Rightarrow> u32 \<Rightarrow> u32 \<Rightarrow> ptr \<Rightarrow> Pixel \<Rightarrow> Pixel \<Rightarrow> byte_mem \<Rightarrow> byte_mem" where
  "writeBitmap d initialX initialY width0 height0 bitmap foreground background m =
     (let (width, height) = clipRectangle d initialX initialY (width0, height0)
      in if width = 0 \<or> height = 0 then m
         else fold (bitmap_line d initialX initialY width bitmap foreground background) [0..<unat height] m)"

definition copy_line :: "display \<Rightarrow> u32 \<Rightarrow> u32 \<Rightarrow> u32 \<Rightarrow> u32 \<Rightarrow> u32 \<Rightarrow> nat \<Rightarrow> byte_mem \<Rightarrow> byte_mem" where
  "copy_line d x y width newX newY yOffset m =
     (let sourcePointer = ds_backBuffer d + ucast (pixelOffset d x (y + of_nat yOffset));
          destOffset = pixelOffset d newX (newY + of_nat yOffset);
          n = ucast (width * bytesPerPixel d);
          m1 = snd (memcpy (ds_backBuffer d + ucast destOffset) sourcePointer n m)
      in snd (memcpy (fb_pointer (ds_frameBuffer d) + ucast destOffset) sourcePointer n m1))"

definition copyRegion :: "display \<Rightarrow> u32 \<Rightarrow> u32 \<Rightarrow> u32 \<Rightarrow> u32 \<Rightarrow> u32 \<Rightarrow> u32 \<Rightarrow> byte_mem \<Rightarrow> byte_mem" where
  "copyRegion d x y width0 height0 newX newY m =
     (let (width, height) = clipRectangle d newX newY (clipRectangle d x y (width0, height0))
      in if width = 0 \<or> height = 0 then m
         else fold (copy_line d x y width newX newY) [0..<unat height] m)"

section \<open>Glyphs and characters\<close>

record PsfFile =
  psf_headerSize :: u32
  psf_numGlyphs :: u32
  psf_glyphSize :: u32
  psf_height :: u32
  psf_width :: u32
  psf_data :: ptr

definition font_getWidth :: "PsfFile \<Rightarrow> u32" where
  "font_getWidth = psf_width"

definition font_getHeight :: "PsfFile \<Rightarrow> u32" where
  "font_getHeight = psf_height"

text \<open>A \<^verbatim>\<open>char\<close> is signed: it is multiplied by the glyph size sign-extended.\<close>

definition render :: "display \<Rightarrow> PsfFile \<Rightarrow> u8 \<Rightarrow> u32 \<Rightarrow> u32 \<Rightarrow> Pixel \<Rightarrow> Pixel \<Rightarrow> byte_mem \<Rightarrow> byte_mem" where
  "render d font c x y foreground background m =
     (let glyph = psf_data font + ucast (scast c * psf_glyphSize font :: u32)
      in writeBitmap d x y (psf_width font) (psf_height font) glyph foreground background m)"

definition FOREGROUND :: Pixel where
  "FOREGROUND = \<lparr>px_r = 0xFF, px_g = 0xFF, px_b = 0xFF\<rparr>"

definition BACKGROUND :: Pixel where
  "BACKGROUND = \<lparr>px_r = 0, px_g = 0, px_b = 0\<rparr>"

definition writeCharacter :: "display \<Rightarrow> PsfFile \<Rightarrow> u32 \<Rightarrow> u32 \<Rightarrow> u8 \<Rightarrow> byte_mem \<Rightarrow> byte_mem" where
  "writeCharacter d font x y c = render d font c x y FOREGROUND BACKGROUND"

text \<open>The counter is 32 bits wide: a string with no zero byte within its range is drawn for ever.\<close>

function writeString :: "display \<Rightarrow> PsfFile \<Rightarrow> u32 \<Rightarrow> u32 \<Rightarrow> ptr \<Rightarrow> nat \<Rightarrow> byte_mem \<Rightarrow> byte_mem result" where
  "writeString d font x y str i m =
     (if m (str + of_nat i) = 0 then Inr m
      else if i < 2 ^ 32 - 1
      then writeString d font x y str (i + 1)
             (render d font (m (str + of_nat i)) (x + of_nat i * font_getWidth font) y FOREGROUND BACKGROUND m)
      else Inl Diverges)"
  by pat_completeness auto
termination
  by (relation "measure (\<lambda>(d, font, x, y, str, i, m). 2 ^ 32 - i)") auto

declare writeString.simps [simp del]

definition removeCharacter :: "display \<Rightarrow> PsfFile \<Rightarrow> u32 \<Rightarrow> u32 \<Rightarrow> byte_mem \<Rightarrow> byte_mem" where
  "removeCharacter d font x y = render d font 0x20 x y FOREGROUND BACKGROUND"

section \<open>What copying leaves alone\<close>

lemma not_within_step: "\<not> within p (Suc n) a \<Longrightarrow> n < 2 ^ 64 \<Longrightarrow> a \<noteq> p \<and> \<not> within (p + 1) n a"
  using within_split(1) [of 1 n p a] by auto

lemma rep_movsb_frame: "\<not> within rdi n a \<Longrightarrow> n < 2 ^ 64 \<Longrightarrow> rep_movsb n rdi rsi m a = m a"
proof (induction n arbitrary: rdi rsi m)
  case (Suc n)
  with not_within_step [of rdi n a] show ?case by simp
qed simp

lemma rep_movsq_frame:
  assumes "\<not> within rdi (8 * n) a" "8 * n < 2 ^ 64" "rep_movsq n rdi rsi m = (rdi', rsi', m')"
  shows "m' a = m a" "rdi' = rdi + of_nat (8 * n)"
  using assms
proof (induction n arbitrary: rdi rsi m)
  case (Suc n)
  { case 1
    then show ?case using Suc.IH(1) [of "rdi + 8" "rsi + 8"] within_split(1) [of 8 "8 * n" rdi a]
      by (simp add: store_q_def within_def)
  next
    case 2
    then show ?case using Suc.IH(2) [of "rdi + 8" "rsi + 8"] within_split(1) [of 8 "8 * n" rdi a]
      by (simp add: algebra_simps)
  }
qed simp_all

lemma memcpy_frame:
  assumes "\<not> within dst (unat n) a"
  shows "snd (memcpy dst src n m) a = m a"
proof -
  obtain d s m1 where q: "rep_movsq (unat (n div 8)) dst src m = (d, s, m1)" by (metis prod_cases3)
  have b: "8 * unat (n div 8) + unat (n AND 7) \<le> 2 ^ 64" "8 * unat (n div 8) < 2 ^ 64"
    using split_count [of n] unat_u64_bound [of n] by simp_all
  have "\<not> within dst (8 * unat (n div 8)) a" "\<not> within (dst + of_nat (8 * unat (n div 8))) (unat (n AND 7)) a"
    using assms within_split(1) [OF b, of dst a] split_count(1) [of n] by simp_all
  moreover have "unat (n AND 7) < 2 ^ 64" by simp
  ultimately show ?thesis
    using rep_movsq_frame [OF _ b(2) q, of a] rep_movsb_frame [of d "unat (n AND 7)" a s m1] by (simp add: memcpy_def q)
qed

section \<open>Rectangles in the buffers\<close>

text \<open>A frame buffer of whole pixels of at least three bytes, whose size and dimensions are in range.\<close>

definition geometry_ok :: "display \<Rightarrow> bool" where
  "geometry_ok d \<longleftrightarrow> 3 \<le> unat (bytesPerPixel d) \<and>
     unat (getWidth d) * unat (bytesPerPixel d) \<le> unat (fb_pitch (ds_frameBuffer d)) \<and>
     unat (fb_pitch (ds_frameBuffer d)) * unat (getHeight d) < 2 ^ 32 \<and> unat (getWidth d) < 2 ^ 31 \<and> unat (getHeight d) < 2 ^ 31"

definition buffer_size :: "display \<Rightarrow> nat" where
  "buffer_size d = unat (fb_pitch (ds_frameBuffer d)) * unat (getHeight d)"

definition in_buffers :: "display \<Rightarrow> u64 \<Rightarrow> bool" where
  "in_buffers d a \<longleftrightarrow> within (ds_backBuffer d) (buffer_size d) a \<or> within (fb_pointer (ds_frameBuffer d)) (buffer_size d) a"

definition draws_only :: "display \<Rightarrow> (byte_mem \<Rightarrow> byte_mem) \<Rightarrow> bool" where
  "draws_only d f \<longleftrightarrow> (\<forall>m a. \<not> in_buffers d a \<longrightarrow> f m a = m a)"

lemma draws_only_fold:
  assumes "\<forall>x\<in>set xs. draws_only d (f x)"
  shows "draws_only d (fold f xs)"
  using assms by (induction xs) (simp_all add: draws_only_def)

lemma within_part:
  assumes "within (p + of_nat k) n a" "k + n \<le> s" "s < 2 ^ 64"
  shows "within p s a"
proof -
  have "within p (k + n) a" using assms within_split(1) [of k n p a] by simp
  then show ?thesis using assms(2) by (rule within_mono)
qed

lemma offset_in_buffer:
  assumes "geometry_ok d" "unat y < unat (getHeight d)" "unat x + w \<le> unat (getWidth d)"
  shows "unat (pixelOffset d x y) + w * unat (bytesPerPixel d) \<le> buffer_size d"
proof -
  let ?p = "unat (fb_pitch (ds_frameBuffer d))" and ?b = "unat (bytesPerPixel d)"
  have "unat x * ?b + w * ?b \<le> ?p"
    using assms(1,3) mult_le_mono1 [of "unat x + w" "unat (getWidth d)" ?b] by (simp add: geometry_ok_def add_mult_distrib)
  moreover have "Suc (unat y) * ?p \<le> unat (getHeight d) * ?p" using assms(2) by (intro mult_le_mono1) simp
  ultimately have le: "unat y * ?p + unat x * ?b + w * ?b \<le> buffer_size d"
    by (simp add: buffer_size_def mult.commute)
  then have "unat y * ?p < 2 ^ 32" "unat x * ?b < 2 ^ 32" "unat y * ?p + unat x * ?b < 2 ^ 32"
    using assms(1) by (simp_all add: buffer_size_def geometry_ok_def)
  then have "unat (pixelOffset d x y) = unat y * ?p + unat x * ?b"
    by (simp add: pixelOffset_def unat_word_ariths)
  with le show ?thesis by simp
qed

lemma size_bound: "geometry_ok d \<Longrightarrow> buffer_size d < 2 ^ 32" "geometry_ok d \<Longrightarrow> buffer_size d < 2 ^ 64"
  by (simp_all add: geometry_ok_def buffer_size_def)

lemma ucast_of_nat_unat: "(ucast (x :: u32) :: u64) = of_nat (unat x)"
  by simp

lemma unat_ucast_64 [simp]: "unat (ucast (x :: u32) :: u64) = unat x"
proof -
  have "unat x < 2 ^ 64" using unsigned_less [of x, where 'a = nat] by simp
  then have "unat (of_nat (unat x) :: u64) = unat x" by (intro unat_of_nat_small) simp
  then show ?thesis by (simp only: ucast_of_nat_unat)
qed

text \<open>Everything within a span of pixels on a line lies in the buffer the span is in.\<close>

lemma span_in_buffer:
  assumes "geometry_ok d" "unat y < unat (getHeight d)" "unat x + w \<le> unat (getWidth d)"
    "within (p + ucast (pixelOffset d x y) + of_nat k) n a" "k + n \<le> w * unat (bytesPerPixel d)"
  shows "within p (buffer_size d) a"
proof -
  have "p + ucast (pixelOffset d x y) + of_nat k = p + of_nat (unat (pixelOffset d x y) + k)"
    by (simp add: add.assoc)
  with assms(4) have "within (p + of_nat (unat (pixelOffset d x y) + k)) n a" by (simp only:)
  moreover have "unat (pixelOffset d x y) + k + n \<le> buffer_size d"
    using offset_in_buffer [OF assms(1-3)] assms(5) by linarith
  ultimately show ?thesis by (rule within_part) (rule size_bound(2) [OF assms(1)])
qed

lemma put_pixel_frame: "\<not> within p 3 a \<Longrightarrow> put_pixel p px m a = m a"
  by (auto simp: put_pixel_def within_def)

lemma copy_span:
  assumes "geometry_ok d" "unat y < unat (getHeight d)" "unat x + w \<le> unat (getWidth d)" "unat n \<le> w * unat (bytesPerPixel d)"
    "p \<in> {ds_backBuffer d, fb_pointer (ds_frameBuffer d)}"
  shows "draws_only d (\<lambda>m. snd (memcpy (p + ucast (pixelOffset d x y)) src n m))"
proof -
  have "\<not> within (p + ucast (pixelOffset d x y)) (unat n) a" if "\<not> in_buffers d a" for a
    using span_in_buffer [OF assms(1-3), of p 0 "unat n" a] assms(4,5) that by (auto simp: in_buffers_def)
  then show ?thesis by (simp add: draws_only_def memcpy_frame)
qed

lemma clip_ok:
  assumes "geometry_ok d" "unat w < 2 ^ 31" "unat h < 2 ^ 31" "clipRectangle d x y (w, h) = (w', h')" "w' \<noteq> 0" "h' \<noteq> 0"
  shows "unat x + unat w' \<le> unat (getWidth d)" "unat y + unat h' \<le> unat (getHeight d)" "unat w' \<le> unat w" "unat h' \<le> unat h"
proof -
  have g: "unat (getWidth d) < 2 ^ 31" "unat (getHeight d) < 2 ^ 31" using assms(1) by (simp_all add: geometry_ok_def)
  from assms(4-6) have x: "x < getWidth d" "y < getHeight d"
    by (auto simp: clipRectangle_def not_le split: if_splits)
  then have sum: "unat (x + w) = unat x + unat w" "unat (y + h) = unat y + unat h"
    using assms(2,3) g by (simp_all add: word_less_nat_alt unat_word_ariths)
  from x have "\<not> getWidth d \<le> x" "\<not> getHeight d \<le> y" by (simp_all only: not_le not_False_eq_True)
  with assms(4) have "w' = (if x + w > getWidth d then getWidth d - x else w)" "h' = (if y + h > getHeight d then getHeight d - y else h)"
    by (simp_all add: clipRectangle_def)
  with x sum show "unat x + unat w' \<le> unat (getWidth d)" "unat y + unat h' \<le> unat (getHeight d)" "unat w' \<le> unat w" "unat h' \<le> unat h"
    by (auto simp: word_less_nat_alt unat_sub word_le_nat_alt split: if_splits)
qed

lemma unat_row:
  assumes "unat y + k < 2 ^ 32"
  shows "unat (of_nat k + y :: u32) = unat y + k" "unat (y + of_nat k :: u32) = unat y + k"
proof -
  have k: "unat (of_nat k :: u32) = k" using assms by (intro unat_of_nat_small) simp
  have "unat (of_nat k + y :: u32) = (unat (of_nat k :: u32) + unat y) mod 2 ^ LENGTH(32)" by (rule unat_word_ariths(1))
  also have "\<dots> = unat y + k" unfolding k using assms by (simp add: add.commute [of k])
  finally show "unat (of_nat k + y :: u32) = unat y + k" .
  then show "unat (y + of_nat k :: u32) = unat y + k" by (simp only: add.commute)
qed

lemma geometry_row: "geometry_ok d \<Longrightarrow> unat y + k < unat (getHeight d) \<Longrightarrow> unat y + k < 2 ^ 32"
  by (simp add: geometry_ok_def)

lemma writePixel_draws:
  assumes "geometry_ok d"
  shows "draws_only d (writePixel d x y px)"
proof (cases "x < getWidth d \<and> y < getHeight d")
  case True
  then have h: "unat y < unat (getHeight d)" "unat x + 1 \<le> unat (getWidth d)" by (simp_all add: word_less_nat_alt Suc_le_eq)
  have "\<not> within (ds_backBuffer d + ucast (pixelOffset d x y)) 3 a" if "\<not> in_buffers d a" for a
    using span_in_buffer [OF assms h, of "ds_backBuffer d" 0 3 a] assms that by (auto simp: in_buffers_def geometry_ok_def)
  moreover have "draws_only d (\<lambda>m. snd (memcpy (fb_pointer (ds_frameBuffer d) + ucast (pixelOffset d x y))
      (ds_backBuffer d + ucast (pixelOffset d x y)) (ucast (bytesPerPixel d)) m))"
    by (rule copy_span [OF assms h]) simp_all
  ultimately show ?thesis using True by (simp add: draws_only_def writePixel_def put_pixel_frame Let_def)
qed (auto simp: draws_only_def writePixel_def)

lemma bitmap_line_draws:
  assumes "geometry_ok d" "unat x + unat w \<le> unat (getWidth d)" "unat y + k < unat (getHeight d)"
  shows "draws_only d (bitmap_line d x y w bm fg bg k)"
proof -
  let ?y = "of_nat k + y :: u32"
  let ?o = "pixelOffset d x ?y"
  have u: "unat ?y = unat y + k" by (rule unat_row(1) [OF geometry_row [OF assms(1,3)]])
  with assms(3) have h: "unat ?y < unat (getHeight d)" by simp
  have b: "unat (bytesPerPixel d * w) = unat w * unat (bytesPerPixel d)"
    "unat w * unat (bytesPerPixel d) < 2 ^ 32"
  proof -
    show lt: "unat w * unat (bytesPerPixel d) < 2 ^ 32"
      using offset_in_buffer [OF assms(1) h assms(2)] size_bound(1) [OF assms(1)] by linarith
    then show "unat (bytesPerPixel d * w) = unat w * unat (bytesPerPixel d)" by (simp add: unat_word_ariths mult.commute)
  qed
  have "draws_only d (bitmap_pixel d bl (ds_backBuffer d + ucast ?o) fg bg i)" if "i < unat w" for i bl
  proof -
    have i: "i * unat (bytesPerPixel d) + 3 \<le> unat w * unat (bytesPerPixel d)"
    proof -
      have "Suc i * unat (bytesPerPixel d) \<le> unat w * unat (bytesPerPixel d)" using that by (intro mult_le_mono1) simp
      then show ?thesis using assms(1) by (simp add: geometry_ok_def)
    qed
    have "i < 2 ^ 32" using that unsigned_less [of w, where 'a = nat] by simp
    then have "unat (of_nat i * bytesPerPixel d) = i * unat (bytesPerPixel d)"
      using i b(2) by (simp add: unat_word_ariths unat_of_nat_small)
    then have "(ucast (of_nat i * bytesPerPixel d :: u32) :: u64) = of_nat (i * unat (bytesPerPixel d))"
      by (simp only: ucast_of_nat_unat)
    then show ?thesis
      using span_in_buffer [OF assms(1) h assms(2), of "ds_backBuffer d" "i * unat (bytesPerPixel d)" 3] i
      by (auto simp: draws_only_def bitmap_pixel_def Let_def in_buffers_def intro!: put_pixel_frame)
  qed
  then have "draws_only d (fold (bitmap_pixel d bl (ds_backBuffer d + ucast ?o) fg bg) [0..<unat w])" for bl
    by (intro draws_only_fold) simp
  moreover have "draws_only d (\<lambda>m. snd (memcpy (fb_pointer (ds_frameBuffer d) + ucast ?o) (ds_backBuffer d + ucast ?o)
      (ucast (bytesPerPixel d * w)) m))"
    by (rule copy_span [OF assms(1) h assms(2)]) (simp_all add: b)
  ultimately show ?thesis by (simp add: draws_only_def bitmap_line_def Let_def)
qed

lemma writeBitmap_draws:
  assumes "geometry_ok d" "unat w < 2 ^ 31" "unat h < 2 ^ 31"
  shows "draws_only d (writeBitmap d x y w h bm fg bg)"
proof -
  obtain w' h' where c: "clipRectangle d x y (w, h) = (w', h')" by fastforce
  show ?thesis
  proof (cases "w' = 0 \<or> h' = 0")
    case True
    then have "writeBitmap d x y w h bm fg bg m = m" for m by (auto simp: writeBitmap_def c)
    then show ?thesis by (simp add: draws_only_def)
  next
    case False
    with clip_ok [OF assms c] have "draws_only d (fold (bitmap_line d x y w' bm fg bg) [0..<unat h'])"
      by (intro draws_only_fold ballI bitmap_line_draws [OF assms(1)]) auto
    with False show ?thesis by (simp add: writeBitmap_def c draws_only_def)
  qed
qed

lemma copyRegion_draws:
  assumes "geometry_ok d" "unat w < 2 ^ 31" "unat h < 2 ^ 31"
  shows "draws_only d (copyRegion d x y w h newX newY)"
proof -
  obtain w1 h1 w' h' where c: "clipRectangle d x y (w, h) = (w1, h1)" "clipRectangle d newX newY (w1, h1) = (w', h')" by fastforce
  show ?thesis
  proof (cases "w' = 0 \<or> h' = 0")
    case True
    then have "copyRegion d x y w h newX newY m = m" for m by (auto simp: copyRegion_def c)
    then show ?thesis by (simp add: draws_only_def)
  next
    case False
    then have nz: "w1 \<noteq> 0" "h1 \<noteq> 0" using c(2) by (auto simp: clipRectangle_def word_less_nat_alt word_le_nat_alt split: if_splits)
    have lt: "unat w1 < 2 ^ 31" "unat h1 < 2 ^ 31" using clip_ok [OF assms c(1) nz] assms(2,3) by linarith+
    note dst = clip_ok [OF assms(1) lt c(2)]
    have "draws_only d (copy_line d x y w' newX newY k)" if "k < unat h'" for k
    proof -
      let ?o = "pixelOffset d newX (newY + of_nat k)"
      have row: "unat newY + k < unat (getHeight d)" using dst(2) False that by simp
      then have h: "unat (newY + of_nat k) < unat (getHeight d)" using unat_row(2) [OF geometry_row [OF assms(1)]] by metis
      have x: "unat newX + unat w' \<le> unat (getWidth d)" using dst(1) False by simp
      have "unat (w' * bytesPerPixel d) \<le> unat w' * unat (bytesPerPixel d)"
        by (metis mod_less_eq_dividend unat_word_ariths(2))
      then have "unat (ucast (w' * bytesPerPixel d) :: u64) \<le> unat w' * unat (bytesPerPixel d)" by simp
      note copy_span [OF assms(1) h x this]
      from this [of "ds_backBuffer d"] this [of "fb_pointer (ds_frameBuffer d)"] show ?thesis
        by (simp add: draws_only_def copy_line_def Let_def)
    qed
    then have "draws_only d (fold (copy_line d x y w' newX newY) [0..<unat h'])" by (intro draws_only_fold) simp
    with False show ?thesis by (simp add: copyRegion_def c draws_only_def)
  qed
qed

section \<open>Properties\<close>

text \<open>
  Drawing stays in the buffers (C31): with a frame buffer whose lines hold their pixels, no drawing operation writes a byte
  outside the frame buffer and its shadow, for any position, bitmap, glyph and character and any size below \<open>2 ^ 31\<close>; what
  does not fit is cut off.
\<close>

theorem drawing_stays_in_buffers:
  assumes "geometry_ok d" "unat w < 2 ^ 31" "unat h < 2 ^ 31" "unat (psf_width font) < 2 ^ 31" "unat (psf_height font) < 2 ^ 31"
    and "\<not> in_buffers d a"
  shows "writePixel d x y px m a = m a \<and> writeBitmap d x y w h bm fg bg m a = m a \<and>
    copyRegion d x y w h newX newY m a = m a \<and> writeCharacter d font x y c m a = m a \<and> removeCharacter d font x y m a = m a"
  using writePixel_draws [OF assms(1)] writeBitmap_draws [OF assms(1-3)] copyRegion_draws [OF assms(1-3)]
    writeBitmap_draws [OF assms(1,4,5)] assms(6)
  by (simp add: draws_only_def writeCharacter_def removeCharacter_def render_def)

definition example_display :: display where
  "example_display = \<lparr>ds_frameBuffer = \<lparr>fb_pointer = 0x10000, fb_width = 20, fb_height = 32, fb_pitch = 80, fb_depth = 32\<rparr>,
     ds_backBuffer = 0x20000\<rparr>"

definition example_font :: PsfFile where
  "example_font = \<lparr>psf_headerSize = 32, psf_numGlyphs = 256, psf_glyphSize = 16, psf_height = 16, psf_width = 8, psf_data = 0x40000\<rparr>"

theorem drawing_stays_in_buffers_witness:
  "writeBitmap example_display 19 40 100 100 0x40000 FOREGROUND BACKGROUND (\<lambda>a. 7) 0x20A00 = 7 \<and>
   writeCharacter example_display example_font 16 20 0x41 (\<lambda>a. 7) 0x20A00 = 7"
proof -
  have "geometry_ok example_display" "\<not> in_buffers example_display 0x20A00"
    "unat (100 :: u32) < 2 ^ 31" "unat (psf_width example_font) < 2 ^ 31" "unat (psf_height example_font) < 2 ^ 31"
    by (simp_all add: geometry_ok_def in_buffers_def within_def buffer_size_def example_display_def example_font_def bytesPerPixel_def
      getWidth_def getHeight_def)
  from drawing_stays_in_buffers [OF this(1,3,3,4,5,2), where m = "\<lambda>a. 7"] show ?thesis by simp
qed

end
