(* ===== verification/Console.thy ===== *)
theory Console
  imports Display Spin_Lock
begin

text \<open>
  The console (\<^verbatim>\<open>display/console/console.cpp\<close>, \<^verbatim>\<open>kout.h\<close>) and formatted printing (\<^verbatim>\<open>display/console/printf.cpp\<close>). A
  string is the list of its bytes; that the operations of the class \<^verbatim>\<open>String\<close> are the list operations used here is shown
  in \<open>Byte_Strings\<close>. The screen buffer, \<^verbatim>\<open>(columns + 1) * lines\<close> characters from the heap, is a list of bytes, and an
  access outside it is the fault \<open>OutOfBounds\<close>; the pixels are drawn in the byte memory of \<open>Display\<close>. The console
  refines a terminal, a list of text lines and the line of the cursor. The arguments of \<^verbatim>\<open>printf\<close> are a list of 64-bit
  words or strings.
\<close>

section \<open>State\<close>

record console =
  co_line :: u32
  co_column :: u32
  co_lines :: u32
  co_columns :: u32
  co_screenBuffer :: "u8 list"
  co_displayWidth :: u32
  co_displayHeight :: u32
  co_fontWidth :: u32
  co_fontHeight :: u32
  co_consoleLock :: spinlock

text \<open>The devices: the display, the font and the memory of the pixels.\<close>

record screen =
  sn_display :: display
  sn_font :: PsfFile
  sn_mem :: byte_mem

definition draw :: "(display \<Rightarrow> PsfFile \<Rightarrow> byte_mem \<Rightarrow> byte_mem) \<Rightarrow> screen \<Rightarrow> screen" where
  "draw f s = s\<lparr>sn_mem := f (sn_display s) (sn_font s) (sn_mem s)\<rparr>"

section \<open>The screen buffer\<close>

definition screen_index :: "console \<Rightarrow> u32 \<Rightarrow> u32 \<Rightarrow> nat" where
  "screen_index c column line = unat (line * (co_columns c + 1) + column)"

definition write_screen :: "nat \<Rightarrow> u8 \<Rightarrow> console \<Rightarrow> console result" where
  "write_screen i v c =
     (if i < length (co_screenBuffer c) then Inr (c\<lparr>co_screenBuffer := (co_screenBuffer c)[i := v]\<rparr>) else Inl OutOfBounds)"

text \<open>\<^verbatim>\<open>strlen\<close> and \<^verbatim>\<open>strcpy\<close> on the screen buffer, with the index of a line as the pointer.\<close>

fun scan_zero :: "u8 list \<Rightarrow> nat result" where
  "scan_zero [] = Inl OutOfBounds"
| "scan_zero (b # bs) = (if b = 0 then Inr 0 else rbind (scan_zero bs) (\<lambda>n. Inr (Suc n)))"

definition screen_strlen :: "nat \<Rightarrow> console \<Rightarrow> nat result" where
  "screen_strlen p c = scan_zero (drop p (co_screenBuffer c))"

definition screen_strcpy :: "nat \<Rightarrow> nat \<Rightarrow> console \<Rightarrow> console result" where
  "screen_strcpy dst src c =
     rbind (screen_strlen src c) (\<lambda>n.
     rbind (for_each (\<lambda>i c. write_screen (dst + i) (co_screenBuffer c ! (src + i)) c) [0..<n] c) (\<lambda>c1.
     write_screen (dst + n) 0 c1))"

section \<open>Scrolling\<close>

definition scroll_line :: "nat \<Rightarrow> u32 \<times> console \<times> screen \<Rightarrow> (u32 \<times> console \<times> screen) result" where
  "scroll_line i = (\<lambda>(y0, c, s).
     (let y = y0 + co_fontHeight c;
          line = screen_index c 0 (of_nat i);
          previousLine = screen_index c 0 (of_nat i - 1)
      in rbind (screen_strlen line c) (\<lambda>lineLength.
         rbind (screen_strlen previousLine c) (\<lambda>previousLineLength.
           (let x = of_nat lineLength * co_fontWidth c;
                (_, s1) = fold (\<lambda>_ (x, s). (x + co_fontWidth c, draw (\<lambda>d f. removeCharacter d f x (y - co_fontHeight c)) s))
                            [lineLength..<previousLineLength] (x, s)
            in rbind (screen_strcpy previousLine line c) (\<lambda>c1.
                 Inr (y, c1, draw (\<lambda>d f. copyRegion d 0 y (of_nat lineLength * co_fontWidth c) (co_fontHeight c) 0
                                          (y - co_fontHeight c)) s1)))))))"

definition scrollDown :: "console \<Rightarrow> screen \<Rightarrow> (console \<times> screen) result" where
  "scrollDown c s =
     rbind (for_each scroll_line [1..<unat (co_lines c)] (0, c, s)) (\<lambda>(y, c1, s1).
       (let lastLine = screen_index c1 0 (co_lines c1 - 1)
        in rbind (screen_strlen lastLine c1) (\<lambda>lastLineLength.
             (let (_, s2) = fold (\<lambda>_ (x, s). (x + co_fontWidth c1, draw (\<lambda>d f. removeCharacter d f x y) s))
                              [0..<lastLineLength] (0, s1)
              in rbind (write_screen lastLine 0 c1) (\<lambda>c2. Inr (c2, s2))))))"

section \<open>Printing text\<close>

abbreviation newline :: u8 where
  "newline \<equiv> 10"

text \<open>The loop of \<^verbatim>\<open>print\<close>: the coordinates \<open>x\<close> and \<open>y\<close> follow the cursor.\<close>

fun print_loop :: "u8 list \<Rightarrow> u32 \<times> u32 \<Rightarrow> console \<times> screen \<Rightarrow> (console \<times> screen) result" where
  "print_loop [] xy (c, s) = Inr (c, s)"
| "print_loop (ch # str) (x, y) (c, s) =
     rbind (if co_column c \<ge> co_columns c \<or> ch = newline
            then if co_line c < co_lines c - 1
                 then Inr ((0, y + co_fontHeight c), c\<lparr>co_column := 0, co_line := co_line c + 1\<rparr>, s)
                 else rbind (scrollDown (c\<lparr>co_column := 0\<rparr>) s) (\<lambda>(c1, s1).
                        Inr ((0, (co_lines c1 - 1) * co_fontHeight c1), c1\<lparr>co_line := co_lines c1 - 1\<rparr>, s1))
            else Inr ((x, y), c, s)) (\<lambda>((x1, y1), c1, s1).
       if ch = newline then print_loop str (x1, y1) (c1, s1)
       else (let s2 = draw (\<lambda>d f. writeCharacter d f x1 y1 ch) s1
             in rbind (write_screen (screen_index c1 (co_column c1) (co_line c1)) ch c1) (\<lambda>c2.
                rbind (write_screen (screen_index c2 (co_column c2 + 1) (co_line c2)) 0 c2) (\<lambda>c3.
                print_loop str (x1 + co_fontWidth c3, y1) (c3\<lparr>co_column := co_column c3 + 1\<rparr>, s2)))))"

text \<open>
  The first call sets the console up. The memory \<^verbatim>\<open>kmalloc\<close> returns holds arbitrary bytes, which are an argument. A
  division by a font dimension of 0 is undefined.
\<close>

definition console_setup :: "u8 list \<Rightarrow> console \<Rightarrow> screen \<Rightarrow> console result" where
  "console_setup heap c s =
     (if co_columns c = 0 then
        (let dw = getWidth (sn_display s); dh = getHeight (sn_display s); fw = font_getWidth (sn_font s); fh = font_getHeight (sn_font s)
         in if fw = 0 \<or> fh = 0 then Inl Undefined
            else (let c1 = c\<lparr>co_displayWidth := dw, co_displayHeight := dh, co_fontWidth := fw, co_fontHeight := fh,
                             co_columns := dw div fw, co_lines := dh div fh,
                             co_screenBuffer := take (unat ((dw div fw + 1) * (dh div fh))) heap\<rparr>
                  in for_each (\<lambda>i c. write_screen (screen_index c 0 (of_nat i)) 0 c) [0..<unat (co_lines c1)] c1))
      else Inr c)"

definition print_unlocked :: "u8 list \<Rightarrow> u8 list \<Rightarrow> console \<times> screen \<Rightarrow> (console \<times> screen) result" where
  "print_unlocked heap str = (\<lambda>(c, s).
     rbind (console_setup heap c s) (\<lambda>c1.
       print_loop str (co_column c1 * co_fontWidth c1, co_line c1 * co_fontHeight c1) (c1, s)))"

definition acquireConsoleLock :: "bool \<times> console \<Rightarrow> (bool \<times> console) result" where
  "acquireConsoleLock = (\<lambda>(irq, c).
     rbind (acquire (irq, co_consoleLock c)) (\<lambda>(irq1, l). Inr (irq1, c\<lparr>co_consoleLock := l\<rparr>)))"

definition releaseConsoleLock :: "bool \<times> console \<Rightarrow> bool \<times> console" where
  "releaseConsoleLock = (\<lambda>(irq, c). (let (irq1, l) = release (irq, co_consoleLock c) in (irq1, c\<lparr>co_consoleLock := l\<rparr>)))"

definition print :: "u8 list \<Rightarrow> u8 list \<Rightarrow> bool \<Rightarrow> bool \<times> console \<times> screen \<Rightarrow> (bool \<times> console \<times> screen) result" where
  "print heap str skipLocking = (\<lambda>(irq, c, s).
     rbind (if \<not> skipLocking then acquireConsoleLock (irq, c) else Inr (irq, c)) (\<lambda>(irq1, c1).
     rbind (print_unlocked heap str (c1, s)) (\<lambda>(c2, s2).
       (let (irq3, c3) = (if \<not> skipLocking then releaseConsoleLock (irq1, c2) else (irq1, c2))
        in Inr (irq3, c3, s2)))))"

section \<open>Printing numbers\<close>

definition digit_chars :: "u8 list" where
  "digit_chars = map (\<lambda>c. of_char c) ''0123456789abcdefghijklmnopqrstuvwxyzABCDEFGHIJKLMNOPQRSTUVWXYZ+/'' @ [0]"

text \<open>The buffer has 65 bytes; the digits come out in reverse, and are then swapped in place.\<close>

function digits_loop :: "u64 \<Rightarrow> u64 \<Rightarrow> u8 list \<Rightarrow> u8 list result" where
  "digits_loop v base buffer =
     (if base = 0 then Inl Undefined
      else if length digit_chars \<le> unat (v mod base) \<or> 65 \<le> length buffer then Inl OutOfBounds
      else (let buffer1 = buffer @ [digit_chars ! unat (v mod base)]
            in if v div base \<noteq> 0 then digits_loop (v div base) base buffer1 else Inr buffer1))"
  by pat_completeness auto
termination
  by (relation "measure (\<lambda>(v, base, buffer). 65 - length buffer)") auto

declare digits_loop.simps [simp del]

definition swap_step :: "nat \<Rightarrow> nat \<Rightarrow> u8 list \<Rightarrow> u8 list" where
  "swap_step end_at i buffer = (let temp = buffer ! i in buffer[i := buffer ! (end_at - i), end_at - i := temp])"

definition number_text :: "u64 \<Rightarrow> u64 \<Rightarrow> u8 list result" where
  "number_text v base =
     rbind (digits_loop v base []) (\<lambda>buffer.
       if 65 \<le> length buffer then Inl OutOfBounds
       else Inr (fold (swap_step (length buffer - 1)) [0..<length buffer div 2] buffer))"

definition print_number :: "u8 list \<Rightarrow> u64 \<Rightarrow> u64 \<Rightarrow> bool \<Rightarrow> bool \<times> console \<times> screen \<Rightarrow> (bool \<times> console \<times> screen) result" where
  "print_number heap v base skipLocking st = rbind (number_text v base) (\<lambda>str. print heap str skipLocking st)"

section \<open>Formatted printing\<close>

datatype vararg = Word_arg u64 | Text_arg "u8 list"

definition ascii :: "string \<Rightarrow> u8 list" where
  "ascii s = map of_char s"

text \<open>
  The texts that one conversion prints, one call of \<^verbatim>\<open>print\<close> each, and the arguments left. Reading an argument that was not
  passed, or one of another kind, is undefined.
\<close>

definition print_value :: "u64 \<Rightarrow> u64 \<Rightarrow> u8 list list \<Rightarrow> vararg list \<Rightarrow> (u8 list list \<times> vararg list) result" where
  "print_value v base before rest = rbind (number_text v base) (\<lambda>t. Inr (before @ [t], rest))"

definition convert :: "u8 \<Rightarrow> vararg list \<Rightarrow> (u8 list list \<times> vararg list) result" where
  "convert ch args =
     (if ch = of_char CHR ''n'' then Inr ([], args)
      else if ch = of_char CHR ''%'' then Inr ([ascii ''%''], args)
      else if ch \<in> set (ascii ''cdlopx'') then
        (case args of
           Word_arg w # rest \<Rightarrow>
             if ch = of_char CHR ''c'' then Inr ([[ucast w]], rest)
             else if ch = of_char CHR ''d'' then print_value (scast (ucast w :: u32)) 10 [] rest
             else if ch = of_char CHR ''l'' then print_value w 10 [] rest
             else if ch = of_char CHR ''o'' then print_value w 8 [] rest
             else if ch = of_char CHR ''p'' then print_value w 16 [ascii ''0x''] rest
             else print_value w 16 [] rest
         | _ \<Rightarrow> Inl Undefined)
      else if ch = of_char CHR ''s'' then (case args of Text_arg t # rest \<Rightarrow> Inr ([t], rest) | _ \<Rightarrow> Inl Undefined)
      else Inr ([ascii ''<unknown type specifier>''], args))"

definition percent :: u8 where
  "percent = of_char CHR ''%''"

function printf_loop :: "u8 list \<Rightarrow> u8 list \<Rightarrow> vararg list \<Rightarrow> console \<times> screen \<Rightarrow> (console \<times> screen) result" where
  "printf_loop heap [] args cs = Inr cs"
| "printf_loop heap (ch # format) args cs =
     (if ch = percent
      then rbind (convert (case format of [] \<Rightarrow> 0 | d # _ \<Rightarrow> d) args) (\<lambda>(texts, rest).
           rbind (for_each (print_unlocked heap) texts cs) (\<lambda>cs1. printf_loop heap (tl format) rest cs1))
      else rbind (print_unlocked heap (ch # takeWhile (\<lambda>x. x \<noteq> percent) format) cs) (\<lambda>cs1.
             printf_loop heap (dropWhile (\<lambda>x. x \<noteq> percent) format) args cs1))"
  by pat_completeness auto
termination
  by (relation "measure (\<lambda>(heap, format, args, cs). length format)") (auto simp: le_imp_less_Suc length_dropWhile_le)

definition printf :: "u8 list \<Rightarrow> u8 list \<Rightarrow> vararg list \<Rightarrow> bool \<times> console \<times> screen \<Rightarrow> (bool \<times> console \<times> screen) result" where
  "printf heap format args = (\<lambda>(irq, c, s).
     rbind (acquireConsoleLock (irq, c)) (\<lambda>(irq1, c1).
     rbind (printf_loop heap format args (c1, s)) (\<lambda>(c2, s2).
       (let (irq3, c3) = releaseConsoleLock (irq1, c2) in Inr (irq3, c3, s2)))))"

section \<open>The digits of a number\<close>

function digits_of :: "nat \<Rightarrow> nat \<Rightarrow> nat list" where
  "digits_of base v = (if base < 2 \<or> v < base then [v] else digits_of base (v div base) @ [v mod base])"
  by pat_completeness auto
termination
  by (relation "measure snd") auto

declare digits_of.simps [simp del]

lemma digits_of_value: "foldl (\<lambda>a d. a * base + d) 0 (digits_of base v) = v"
proof (induction base v rule: digits_of.induct)
  case (1 base v)
  then show ?case by (subst digits_of.simps) (auto simp: Let_def)
qed

lemma digits_of_bounds:
  assumes "2 \<le> base"
  shows "\<forall>d\<in>set (digits_of base v). d < base" "digits_of base v \<noteq> []" "hd (digits_of base v) = 0 \<Longrightarrow> v = 0"
  using assms
proof (induction base v rule: digits_of.induct)
  case (1 base v)
  note IH = "1.IH"
  {
    case 1
    then show ?case using IH(1) by (subst digits_of.simps) (auto simp: not_less)
  next
    case 2
    then show ?case by (subst digits_of.simps) simp
  next
    case 3
    show ?case
    proof (cases "v < base")
      case False
      with 3 have "digits_of base v = digits_of base (v div base) @ [v mod base]" by (subst digits_of.simps) simp
      with 3(1) IH(2,3) False 3(2) have "v div base = 0" by (simp add: hd_append)
      with False 3(2) show ?thesis by (simp add: div_eq_0_iff)
    qed (use 3 in \<open>subst (asm) digits_of.simps, simp\<close>)
  }
qed

lemma length_digits_of: "2 \<le> base \<Longrightarrow> v < base ^ Suc k \<Longrightarrow> length (digits_of base v) \<le> Suc k"
proof (induction k arbitrary: v)
  case 0
  then show ?case by (subst digits_of.simps) simp
next
  case (Suc k)
  then have "v div base < base ^ Suc k" by (simp add: less_mult_imp_div_less mult.commute)
  with Suc.IH [of "v div base"] Suc.prems show ?case by (subst digits_of.simps) simp
qed

lemma length_digit_chars [simp]: "length digit_chars = 65"
  by (simp add: digit_chars_def)

lemma digit_nonzero: "d < 64 \<Longrightarrow> digit_chars ! d \<noteq> 0"
proof -
  assume "d < 64"
  moreover have "0 \<notin> set (take 64 digit_chars)" by (simp add: digit_chars_def)
  ultimately show ?thesis using nth_mem [of d "take 64 digit_chars"] by auto
qed

lemma digits_loop_eq:
  assumes "2 \<le> unat base" "unat base \<le> 64" "length buffer + length (digits_of (unat base) (unat v)) \<le> 64"
  shows "digits_loop v base buffer = Inr (buffer @ rev (map (\<lambda>d. digit_chars ! d) (digits_of (unat base) (unat v))))"
  using assms
proof (induction v base buffer rule: digits_loop.induct)
  case (1 v base buffer)
  let ?v = "unat v" and ?b = "unat base"
  have m: "unat (v mod base) = ?v mod ?b" "unat (v div base) = ?v div ?b" by (simp_all add: unat_mod unat_div)
  have mb: "?v mod ?b < 64" using "1.prems"(1,2) mod_less_divisor [of ?b ?v] by linarith
  have b0: "base \<noteq> 0" using "1.prems"(1) by auto
  have ne: "digits_of ?b ?v \<noteq> []" by (rule digits_of_bounds(2) [OF "1.prems"(1)])
  then have len: "length buffer < 64" using "1.prems"(3) by (cases "digits_of ?b ?v") auto
  have c: "\<not> (length digit_chars \<le> unat (v mod base) \<or> 65 \<le> length buffer)" using mb len m by simp
  show ?case
  proof (cases "v div base = 0")
    case True
    then have "?v div ?b = 0" using m(2) by simp
    then have "?v < ?b" using "1.prems"(1) by (simp add: div_eq_0_iff)
    with True c b0 show ?thesis by (subst digits_loop.simps, subst digits_of.simps) (simp add: Let_def m)
  next
    case False
    then have "?v div ?b \<noteq> 0" using m(2) by (metis unsigned_eq_0_iff)
    then have "\<not> ?v < ?b" by auto
    then have d: "digits_of ?b ?v = digits_of ?b (?v div ?b) @ [?v mod ?b]" using "1.prems"(1) by (subst digits_of.simps) simp
    have "digits_loop (v div base) base (buffer @ [digit_chars ! unat (v mod base)]) =
        Inr ((buffer @ [digit_chars ! unat (v mod base)]) @ rev (map (\<lambda>d. digit_chars ! d) (digits_of ?b (unat (v div base)))))"
      using "1.IH" [OF b0 c refl] False "1.prems" d m by simp
    with False c b0 d m show ?thesis by (subst digits_loop.simps) (simp add: Let_def)
  qed
qed

lemma fold_swap:
  assumes "k \<le> length xs div 2"
  shows "length (fold (swap_step (length xs - 1)) [0..<k] xs) = length xs"
    "i < length xs \<Longrightarrow> fold (swap_step (length xs - 1)) [0..<k] xs ! i =
       (if i < k \<or> length xs - 1 - i < k then xs ! (length xs - 1 - i) else xs ! i)"
  using assms
proof (induction k arbitrary: i)
  case (Suc k)
  { case 1
    then show ?case using Suc.IH(1) by (simp add: swap_step_def Let_def)
  next
    case 2
    then have k: "k < length xs" "length xs - 1 - k < length xs" "k \<le> length xs div 2" "k < length xs - 1 - k" by auto
    note IH = Suc.IH(2) [OF _ k(3)]
    show ?case
      using 2(1) k IH [of k] IH [of "length xs - 1 - k"] IH [of i] Suc.IH(1) [OF k(3)]
      by (auto simp: swap_step_def Let_def nth_list_update less_Suc_eq)
  }
qed simp_all

lemma swap_is_rev: "fold (swap_step (length xs - 1)) [0..<length xs div 2] xs = rev xs"
proof (rule nth_equalityI)
  fix i assume "i < length (fold (swap_step (length xs - 1)) [0..<length xs div 2] xs)"
  then have i: "i < length xs" using fold_swap(1) [of "length xs div 2" xs] by simp
  then have "i < length xs div 2 \<or> length xs - 1 - i < length xs div 2 \<or> length xs - 1 - i = i" by linarith
  then show "fold (swap_step (length xs - 1)) [0..<length xs div 2] xs ! i = rev xs ! i"
    using fold_swap(2) [of "length xs div 2" xs i] i by (auto simp: rev_nth)
qed (use fold_swap(1) [of "length xs div 2" xs] in simp)

lemma number_text_eq:
  assumes "2 \<le> unat base" "unat base \<le> 64"
  shows "number_text v base = Inr (map (\<lambda>d. digit_chars ! d) (digits_of (unat base) (unat v)))"
    "length (digits_of (unat base) (unat v)) \<le> 64"
proof -
  have "unat v < 2 ^ 64" by simp
  also have "\<dots> \<le> unat base ^ 64" using assms(1) by (rule power_mono) simp
  finally have "unat v < unat base ^ Suc 63" by (simp add: numeral_eq_Suc)
  from length_digits_of [OF assms(1) this] show l: "length (digits_of (unat base) (unat v)) \<le> 64" by simp
  from digits_loop_eq [OF assms, of "[]" v] l
  show "number_text v base = Inr (map (\<lambda>d. digit_chars ! d) (digits_of (unat base) (unat v)))"
    using swap_is_rev [of "rev (map (\<lambda>d. digit_chars ! d) (digits_of (unat base) (unat v)))"] by (simp add: number_text_def)
qed

section \<open>The lines of the screen\<close>

definition row :: "console \<Rightarrow> nat \<Rightarrow> u8 list" where
  "row c i = take (unat (co_columns c) + 1) (drop (i * (unat (co_columns c) + 1)) (co_screenBuffer c))"

definition line_text :: "console \<Rightarrow> nat \<Rightarrow> u8 list" where
  "line_text c i = takeWhile (\<lambda>b. b \<noteq> 0) (row c i)"

text \<open>The screen buffer has its size; every line in it is terminated.\<close>

definition shape_ok :: "console \<Rightarrow> bool" where
  "shape_ok c \<longleftrightarrow> 0 < unat (co_columns c) \<and> 0 < unat (co_lines c) \<and> (unat (co_columns c) + 1) * unat (co_lines c) < 2 ^ 32 \<and>
     length (co_screenBuffer c) = (unat (co_columns c) + 1) * unat (co_lines c)"

definition grid_ok :: "console \<Rightarrow> bool" where
  "grid_ok c \<longleftrightarrow> shape_ok c \<and> (\<forall>i < unat (co_lines c). 0 \<in> set (row c i))"

lemma grid_index:
  assumes "shape_ok c" "i < unat (co_lines c)" "j \<le> unat (co_columns c)"
  shows "i * (unat (co_columns c) + 1) + j < length (co_screenBuffer c)"
proof -
  have "Suc i * (unat (co_columns c) + 1) \<le> unat (co_lines c) * (unat (co_columns c) + 1)" using assms(2) by (intro mult_le_mono1) simp
  with assms(1,3) show ?thesis by (simp add: shape_ok_def mult.commute)
qed

lemma length_row:
  assumes "shape_ok c" "i < unat (co_lines c)"
  shows "length (row c i) = unat (co_columns c) + 1"
  using grid_index [OF assms, of "unat (co_columns c)"] by (simp add: row_def)

lemma takeWhile_shorter: "0 \<in> set xs \<Longrightarrow> length (takeWhile (\<lambda>b. b \<noteq> 0) xs) < length xs"
  by (induction xs) auto

lemma line_text_length:
  assumes "grid_ok c" "i < unat (co_lines c)"
  shows "length (line_text c i) \<le> unat (co_columns c)"
proof -
  have "0 \<in> set (row c i)" using assms by (simp add: grid_ok_def)
  then have "length (takeWhile (\<lambda>b. b \<noteq> 0) (row c i)) < length (row c i)"
    by (rule takeWhile_shorter)
  then show ?thesis using assms by (simp add: line_text_def length_row grid_ok_def)
qed

lemma screen_index_eq:
  assumes "shape_ok c" "unat line < unat (co_lines c)" "unat column \<le> unat (co_columns c)"
  shows "screen_index c column line = unat line * (unat (co_columns c) + 1) + unat column"
proof -
  have lt: "unat line * (unat (co_columns c) + 1) + unat column < 2 ^ 32"
    using grid_index [OF assms] assms(1) by (simp add: shape_ok_def)
  have "unat (co_columns c) + 1 < 2 ^ 32"
    using assms(1) mult_le_mono2 [of 1 "unat (co_lines c)" "unat (co_columns c) + 1"] by (simp add: shape_ok_def)
  then have "unat (co_columns c + 1) = unat (co_columns c) + 1" by (simp add: unat_word_ariths)
  with lt show ?thesis by (simp add: screen_index_def unat_word_ariths)
qed

text \<open>Writing one character of a line changes that line only.\<close>

lemma row_write:
  assumes "shape_ok c" "i < unat (co_lines c)" "j \<le> unat (co_columns c)" "k < unat (co_lines c)"
  shows "row (c\<lparr>co_screenBuffer := (co_screenBuffer c)[i * (unat (co_columns c) + 1) + j := v]\<rparr>) k =
    (if k = i then (row c i)[j := v] else row c k)"
proof -
  let ?n = "unat (co_columns c) + 1"
  consider "k = i" | "k < i" | "i < k" by linarith
  then show ?thesis
  proof cases
    case 1
    then show ?thesis by (simp add: row_def drop_update_swap take_update_swap)
  next
    case 2
    then have "Suc k * ?n \<le> i * ?n" by (intro mult_le_mono1) simp
    then have "k * ?n + ?n \<le> i * ?n + j" by simp
    then show ?thesis using 2 by (simp add: row_def drop_update_swap take_update_cancel)
  next
    case 3
    then have "Suc i * ?n \<le> k * ?n" by (intro mult_le_mono1) simp
    then have "i * ?n + j < k * ?n" using assms(3) by simp
    then show ?thesis using 3 by (simp add: row_def drop_update_cancel)
  qed
qed

lemma scan_zero_eq: "0 \<in> set bs \<Longrightarrow> scan_zero bs = Inr (length (takeWhile (\<lambda>b. b \<noteq> 0) bs))"
  by (induction bs) auto

lemma screen_strlen_eq:
  assumes "grid_ok c" "i < unat (co_lines c)"
  shows "screen_strlen (i * (unat (co_columns c) + 1)) c = Inr (length (line_text c i))"
proof -
  let ?n = "unat (co_columns c) + 1"
  have z: "0 \<in> set (row c i)" using assms by (simp add: grid_ok_def)
  have d: "drop (i * ?n) (co_screenBuffer c) = row c i @ drop ?n (drop (i * ?n) (co_screenBuffer c))"
    unfolding row_def by (simp only: append_take_drop_id)
  have "takeWhile (\<lambda>b. b \<noteq> 0) (drop (i * ?n) (co_screenBuffer c)) = line_text c i"
    using z by (subst d, unfold line_text_def, intro takeWhile_append1) auto
  moreover have "0 \<in> set (drop (i * ?n) (co_screenBuffer c))" using z by (subst d) simp
  ultimately show ?thesis by (simp add: screen_strlen_def scan_zero_eq)
qed

text \<open>The character at the end of a line's text, and the terminator.\<close>

lemma takeWhile_prefix_update:
  assumes "length (takeWhile (\<lambda>b. b \<noteq> (0 :: u8)) xs) = n" "Suc n < length xs" "ch \<noteq> 0"
  shows "takeWhile (\<lambda>b. b \<noteq> 0) (xs[n := ch, Suc n := 0]) = takeWhile (\<lambda>b. b \<noteq> 0) xs @ [ch]"
  using assms
proof (induction xs arbitrary: n)
  case (Cons x xs)
  show ?case
  proof (cases "x = 0")
    case True
    with Cons.prems show ?thesis by (cases xs) auto
  next
    case False
    with Cons.prems obtain m where "n = Suc m" by (cases n) auto
    with Cons False show ?thesis by simp
  qed
qed simp

text \<open>What an update of the screen buffer keeps of a console.\<close>

definition same_size :: "console \<Rightarrow> console \<Rightarrow> bool" where
  "same_size c c' \<longleftrightarrow> (\<exists>b. length b = length (co_screenBuffer c) \<and> c' = c\<lparr>co_screenBuffer := b\<rparr>)"

lemma same_size_trans: "same_size c c1 \<Longrightarrow> same_size c1 c2 \<Longrightarrow> same_size c c2"
  by (auto simp: same_size_def)

lemma same_size_refl [simp]: "same_size c c"
  unfolding same_size_def by (rule exI [of _ "co_screenBuffer c"]) simp

lemma same_size_update [simp]: "same_size c (c\<lparr>co_screenBuffer := (co_screenBuffer c)[k := v]\<rparr>)"
  unfolding same_size_def by (rule exI [of _ "(co_screenBuffer c)[k := v]"]) simp

lemma same_size_fields:
  assumes "same_size c c'"
  shows "co_columns c' = co_columns c" "co_lines c' = co_lines c" "co_line c' = co_line c" "co_column c' = co_column c"
    "co_fontWidth c' = co_fontWidth c" "co_fontHeight c' = co_fontHeight c" "length (co_screenBuffer c') = length (co_screenBuffer c)"
    "co_consoleLock c' = co_consoleLock c" "shape_ok c' \<longleftrightarrow> shape_ok c"
  using assms by (auto simp: same_size_def shape_ok_def)

lemma write_line:
  assumes "shape_ok c" "i < unat (co_lines c)" "j \<le> unat (co_columns c)"
  shows "\<exists>c'. write_screen (i * (unat (co_columns c) + 1) + j) v c = Inr c' \<and> same_size c c' \<and>
    row c' i = (row c i)[j := v] \<and> (\<forall>k < unat (co_lines c). k \<noteq> i \<longrightarrow> row c' k = row c k)"
proof -
  let ?c = "c\<lparr>co_screenBuffer := (co_screenBuffer c)[i * (unat (co_columns c) + 1) + j := v]\<rparr>"
  have "write_screen (i * (unat (co_columns c) + 1) + j) v c = Inr ?c" using grid_index [OF assms] by (simp add: write_screen_def)
  moreover have "row ?c i = (row c i)[j := v]" "\<forall>k < unat (co_lines c). k \<noteq> i \<longrightarrow> row ?c k = row c k"
    using row_write [OF assms] assms(2) by simp_all
  ultimately show ?thesis using same_size_update by blast
qed

lemma grid_ok_row:
  assumes "grid_ok c" "same_size c c'" "\<forall>k < unat (co_lines c). k \<noteq> i \<longrightarrow> row c' k = row c k" "0 \<in> set (row c' i)"
  shows "grid_ok c'"
proof -
  have "0 \<in> set (row c' k)" if "k < unat (co_lines c)" for k
    using assms(1,3,4) that by (cases "k = i") (simp_all add: grid_ok_def)
  with assms(1) same_size_fields [OF assms(2)] show ?thesis by (simp add: grid_ok_def)
qed

lemma put_character:
  assumes "grid_ok c" "i < unat (co_lines c)" "length (line_text c i) = j" "j < unat (co_columns c)" "ch \<noteq> 0"
  shows "\<exists>c1 c2. write_screen (i * (unat (co_columns c) + 1) + j) ch c = Inr c1 \<and> same_size c c1 \<and>
    write_screen (i * (unat (co_columns c) + 1) + Suc j) 0 c1 = Inr c2 \<and> same_size c c2 \<and> grid_ok c2 \<and>
    line_text c2 i = line_text c i @ [ch] \<and> (\<forall>k < unat (co_lines c). k \<noteq> i \<longrightarrow> line_text c2 k = line_text c k)"
proof -
  have shape: "shape_ok c" using assms(1) by (simp add: grid_ok_def)
  obtain c1 where c1: "write_screen (i * (unat (co_columns c) + 1) + j) ch c = Inr c1" "same_size c c1"
    "row c1 i = (row c i)[j := ch]" "\<forall>k < unat (co_lines c). k \<noteq> i \<longrightarrow> row c1 k = row c k"
    using write_line [OF shape assms(2), of j] assms(4) by auto
  note f = same_size_fields [OF c1(2)]
  obtain c2 where c2: "write_screen (i * (unat (co_columns c) + 1) + Suc j) 0 c1 = Inr c2" "same_size c1 c2"
    "row c2 i = (row c1 i)[Suc j := 0]" "\<forall>k < unat (co_lines c). k \<noteq> i \<longrightarrow> row c2 k = row c1 k"
    using write_line [of c1 i "Suc j"] shape assms(2,4) f by auto
  have r: "row c2 i = (row c i)[j := ch, Suc j := 0]" "\<forall>k < unat (co_lines c). k \<noteq> i \<longrightarrow> row c2 k = row c k"
    using c1(3,4) c2(3,4) by simp_all
  have len: "Suc j < length (row c i)" using length_row [OF shape assms(2)] assms(4) by simp
  then have "0 \<in> set (row c2 i)" unfolding r(1) by (intro set_update_memI) simp
  then have "grid_ok c2" using grid_ok_row [OF assms(1) same_size_trans [OF c1(2) c2(2)] r(2)] by simp
  moreover have "line_text c2 i = line_text c i @ [ch]"
    unfolding line_text_def r(1) using assms(3,5) len by (intro takeWhile_prefix_update) (simp_all add: line_text_def)
  moreover have "\<forall>k < unat (co_lines c). k \<noteq> i \<longrightarrow> line_text c2 k = line_text c k" using r(2) by (simp add: line_text_def)
  ultimately show ?thesis using c1(1,2) c2(1) same_size_trans [OF c1(2) c2(2)] by blast
qed

text \<open>Copying a line over an earlier one.\<close>

lemma nth_row:
  assumes "shape_ok c" "k < unat (co_lines c)" "j < unat (co_columns c) + 1"
  shows "row c k ! j = co_screenBuffer c ! (k * (unat (co_columns c) + 1) + j)"
  using grid_index [OF assms(1,2), of j] assms(3) by (simp add: row_def)

lemma takeWhile_terminated:
  assumes "length t < length xs" "xs ! length t = 0" "\<forall>j < length t. xs ! j = t ! j" "0 \<notin> set t"
  shows "takeWhile (\<lambda>b. b \<noteq> (0 :: u8)) xs = t"
proof -
  have "t ! j \<noteq> 0" if "j < length t" for j using assms(4) nth_mem [OF that] by auto
  then have "takeWhile (\<lambda>b. b \<noteq> 0) xs = take (length t) xs"
    using assms by (intro takeWhile_eq_take_P_nth) auto
  also have "\<dots> = t" using assms by (intro nth_equalityI) simp_all
  finally show ?thesis .
qed

lemma copy_loop:
  assumes "dst + n \<le> src" "src + n \<le> length (co_screenBuffer c)"
  shows "\<exists>c'. for_each (\<lambda>i c. write_screen (dst + i) (co_screenBuffer c ! (src + i)) c) [0..<n] c = Inr c' \<and> same_size c c' \<and>
    (\<forall>k < length (co_screenBuffer c). co_screenBuffer c' ! k =
       (if dst \<le> k \<and> k < dst + n then co_screenBuffer c ! (src + (k - dst)) else co_screenBuffer c ! k))"
  using assms
proof (induction n)
  case 0
  then show ?case by (auto intro!: exI [of _ c])
next
  case (Suc n)
  then obtain c1 where c1: "for_each (\<lambda>i c. write_screen (dst + i) (co_screenBuffer c ! (src + i)) c) [0..<n] c = Inr c1" "same_size c c1"
    and nth: "\<And>k. k < length (co_screenBuffer c) \<Longrightarrow> co_screenBuffer c1 ! k =
       (if dst \<le> k \<and> k < dst + n then co_screenBuffer c ! (src + (k - dst)) else co_screenBuffer c ! k)"
    by auto
  let ?v = "co_screenBuffer c1 ! (src + n)"
  let ?c = "c1\<lparr>co_screenBuffer := (co_screenBuffer c1)[dst + n := ?v]\<rparr>"
  have l: "length (co_screenBuffer c1) = length (co_screenBuffer c)" by (rule same_size_fields(7) [OF c1(2)])
  have d: "dst + n < length (co_screenBuffer c)" "src + n < length (co_screenBuffer c)" using Suc.prems by simp_all
  then have "for_each (\<lambda>i c. write_screen (dst + i) (co_screenBuffer c ! (src + i)) c) [0..<Suc n] c = Inr ?c"
    using c1(1) l by (simp add: for_each_append write_screen_def)
  moreover have "same_size c ?c" using same_size_trans [OF c1(2)] by simp
  moreover have "co_screenBuffer ?c ! k =
       (if dst \<le> k \<and> k < dst + Suc n then co_screenBuffer c ! (src + (k - dst)) else co_screenBuffer c ! k)"
    if "k < length (co_screenBuffer c)" for k
    using nth [OF that] nth [OF d(2)] d(1) l Suc.prems(1) by (auto simp: nth_list_update less_Suc_eq)
  ultimately show ?case by blast
qed

lemma screen_strcpy_line:
  assumes "grid_ok c" "i < unat (co_lines c)" "i' < i"
  shows "\<exists>c'. screen_strcpy (i' * (unat (co_columns c) + 1)) (i * (unat (co_columns c) + 1)) c = Inr c' \<and> same_size c c' \<and>
    grid_ok c' \<and> line_text c' i' = line_text c i \<and> (\<forall>k < unat (co_lines c). k \<noteq> i' \<longrightarrow> line_text c' k = line_text c k)"
proof -
  let ?N = "unat (co_columns c) + 1" and ?t = "line_text c i"
  let ?n = "length ?t"
  have shape: "shape_ok c" using assms(1) by (simp add: grid_ok_def)
  have n: "?n \<le> unat (co_columns c)" by (rule line_text_length [OF assms(1,2)])
  have src: "i * ?N + ?n < length (co_screenBuffer c)" using grid_index [OF shape assms(2) n] .
  have "Suc i' * ?N \<le> i * ?N" using assms(3) by (intro mult_le_mono1) simp
  then have dst: "i' * ?N + ?n \<le> i * ?N" "i' * ?N + ?N \<le> i * ?N" using n by simp_all
  obtain c1 where c1: "for_each (\<lambda>j c. write_screen (i' * ?N + j) (co_screenBuffer c ! (i * ?N + j)) c) [0..<?n] c = Inr c1" "same_size c c1"
    and nth: "\<And>k. k < length (co_screenBuffer c) \<Longrightarrow> co_screenBuffer c1 ! k =
       (if i' * ?N \<le> k \<and> k < i' * ?N + ?n then co_screenBuffer c ! (i * ?N + (k - i' * ?N)) else co_screenBuffer c ! k)"
    using copy_loop [OF dst(1), of c] src by auto
  note f = same_size_fields [OF c1(2)]
  have i': "i' < unat (co_lines c)" using assms(2,3) by simp
  obtain c2 where c2: "write_screen (i' * ?N + ?n) 0 c1 = Inr c2" "same_size c1 c2" "row c2 i' = (row c1 i')[?n := 0]"
    "\<forall>k < unat (co_lines c). k \<noteq> i' \<longrightarrow> row c2 k = row c1 k"
    using write_line [of c1 i' ?n] shape f i' n by auto
  have len: "length (row c1 k) = ?N" if "k < unat (co_lines c)" for k using length_row [of c1 k] shape f that by simp
  have rows: "row c1 k ! j = (if k = i' \<and> j < ?n then ?t ! j else row c k ! j)" if "k < unat (co_lines c)" "j < ?N" for k j
  proof -
    have idx: "k * ?N + j < length (co_screenBuffer c)" using grid_index [OF shape that(1)] that(2) by simp
    have e: "row c1 k ! j = co_screenBuffer c1 ! (k * ?N + j)" using nth_row [of c1 k j] shape f that by simp
    consider "k = i'" | "k < i'" | "i' < k" by linarith
    then show ?thesis
    proof cases
      case 1
      have "?t ! j = row c i ! j" if "j < ?n" using that by (simp add: line_text_def takeWhile_nth)
      then show ?thesis
        using 1 e nth [OF idx] nth_row [OF shape assms(2)] nth_row [OF shape that] that(2) by auto
    next
      case 2
      then have "Suc k * ?N \<le> i' * ?N" by (intro mult_le_mono1) simp
      then have "\<not> i' * ?N \<le> k * ?N + j" using that(2) by simp
      then show ?thesis using 2 e nth [OF idx] nth_row [OF shape that] by simp
    next
      case 3
      then have "Suc i' * ?N \<le> k * ?N" by (intro mult_le_mono1) simp
      then have "\<not> k * ?N + j < i' * ?N + ?n" using n by simp
      then show ?thesis using 3 e nth [OF idx] nth_row [OF shape that] by simp
    qed
  qed
  have other: "row c2 k = row c k" if "k < unat (co_lines c)" "k \<noteq> i'" for k
    using rows [OF that(1)] that c2(4) len [OF that(1)] length_row [OF shape that(1)] by (intro nth_equalityI) auto
  have "line_text c2 i' = ?t"
    unfolding line_text_def [of c2] c2(3)
    using rows [OF i'] len [OF i'] n by (intro takeWhile_terminated) (auto simp: line_text_def dest: set_takeWhileD)
  moreover have "0 \<in> set (row c2 i')" unfolding c2(3) using len [OF i'] n by (intro set_update_memI) simp
  then have "grid_ok c2" using grid_ok_row [OF assms(1) same_size_trans [OF c1(2) c2(2)], of i'] other by simp
  moreover have "screen_strcpy (i' * ?N) (i * ?N) c = Inr c2"
    using screen_strlen_eq [OF assms(1,2)] c1(1) c2(1) by (simp add: screen_strcpy_def)
  ultimately show ?thesis
    using same_size_trans [OF c1(2) c2(2)] other by (auto simp: line_text_def)
qed

section \<open>The terminal\<close>

text \<open>A terminal of a given width: its lines of text and the line of the cursor, which is at the end of that line.\<close>

type_synonym terminal = "u8 list list \<times> nat"

definition new_line :: "terminal \<Rightarrow> terminal" where
  "new_line = (\<lambda>(rows, cur). if cur < length rows - 1 then (rows, cur + 1) else (tl rows @ [[]], cur))"

definition type_char :: "nat \<Rightarrow> u8 \<Rightarrow> terminal \<Rightarrow> terminal" where
  "type_char width ch = (\<lambda>(rows, cur).
     (let (rows1, cur1) = (if width \<le> length (rows ! cur) \<or> ch = newline then new_line (rows, cur) else (rows, cur))
      in if ch = newline then (rows1, cur1) else (rows1[cur1 := rows1 ! cur1 @ [ch]], cur1)))"

definition type_text :: "nat \<Rightarrow> u8 list \<Rightarrow> terminal \<Rightarrow> terminal" where
  "type_text width = fold (type_char width)"

definition lines_of :: "console \<Rightarrow> u8 list list" where
  "lines_of c = map (line_text c) [0..<unat (co_lines c)]"

definition terminal_of :: "console \<Rightarrow> terminal" where
  "terminal_of c = (lines_of c, unat (co_line c))"

definition console_ok :: "console \<Rightarrow> bool" where
  "console_ok c \<longleftrightarrow> grid_ok c \<and> co_line c < co_lines c \<and> unat (co_column c) = length (line_text c (unat (co_line c))) \<and>
     (\<forall>i. unat (co_line c) < i \<and> i < unat (co_lines c) \<longrightarrow> line_text c i = [])"

lemma nth_lines_of [simp]: "i < unat (co_lines c) \<Longrightarrow> lines_of c ! i = line_text c i" "length (lines_of c) = unat (co_lines c)"
  by (simp_all add: lines_of_def)

lemma lines_of_eqI:
  assumes "co_lines c' = co_lines c" "length rows = unat (co_lines c)" "\<And>i. i < unat (co_lines c) \<Longrightarrow> line_text c' i = rows ! i"
  shows "lines_of c' = rows"
  using assms by (intro nth_equalityI) simp_all

section \<open>Scrolling\<close>

lemma unat_of_nat_line: "i < unat (n :: u32) \<Longrightarrow> unat (of_nat i :: u32) = i"
  using unsigned_less [of n, where 'a = nat] by (intro unat_of_nat_small) simp

lemma scroll_line_step:
  assumes "grid_ok c" "1 \<le> i" "i < unat (co_lines c)"
  shows "\<exists>y' c' s'. scroll_line i (y, c, s) = Inr (y', c', s') \<and> same_size c c' \<and> grid_ok c' \<and>
    line_text c' (i - 1) = line_text c i \<and> (\<forall>k < unat (co_lines c). k \<noteq> i - 1 \<longrightarrow> line_text c' k = line_text c k)"
proof -
  let ?N = "unat (co_columns c) + 1"
  have shape: "shape_ok c" using assms(1) by (simp add: grid_ok_def)
  have "unat (of_nat i :: u32) = i" using assms(3) by (rule unat_of_nat_line)
  moreover have p: "(of_nat i - 1 :: u32) = of_nat (i - 1)" using assms(2) by (simp add: of_nat_diff)
  moreover have "unat (of_nat (i - 1) :: u32) = i - 1" using assms(3) by (intro unat_of_nat_line [of _ "co_lines c"]) simp
  ultimately have idx: "screen_index c 0 (of_nat i) = i * ?N" "screen_index c 0 (of_nat i - 1) = (i - 1) * ?N"
    using screen_index_eq [OF shape, of "of_nat i" 0] screen_index_eq [OF shape, of "of_nat (i - 1)" 0] assms(3) by simp_all
  have i1: "i - 1 < unat (co_lines c)" "i - 1 < i" using assms(2,3) by simp_all
  obtain c' where c': "screen_strcpy ((i - 1) * ?N) (i * ?N) c = Inr c'" "same_size c c'" "grid_ok c'"
    "line_text c' (i - 1) = line_text c i" "\<forall>k < unat (co_lines c). k \<noteq> i - 1 \<longrightarrow> line_text c' k = line_text c k"
    using screen_strcpy_line [OF assms(1,3) i1(2)] by blast
  note st = screen_strlen_eq [OF assms(1,3)] screen_strlen_eq [OF assms(1) i1(1)]
  show ?thesis
    unfolding scroll_line_def
    by (simp only: prod.case Let_def idx st rbind_simps c'(1)) (use c'(2-5) in \<open>auto split: prod.split\<close>)
qed

lemma scroll_loop:
  assumes "grid_ok c" "k < unat (co_lines c)"
  shows "\<exists>y' c' s'. for_each scroll_line [1..<Suc k] (y, c, s) = Inr (y', c', s') \<and> same_size c c' \<and> grid_ok c' \<and>
    (\<forall>i < unat (co_lines c). line_text c' i = (if i < k then line_text c (Suc i) else line_text c i))"
  using assms(2)
proof (induction k)
  case 0
  then show ?case using assms(1) by auto
next
  case (Suc k)
  then obtain y1 c1 s1 where c1: "for_each scroll_line [1..<Suc k] (y, c, s) = Inr (y1, c1, s1)" "same_size c c1" "grid_ok c1"
    and t1: "\<And>i. i < unat (co_lines c) \<Longrightarrow> line_text c1 i = (if i < k then line_text c (Suc i) else line_text c i)"
    by auto
  note f = same_size_fields [OF c1(2)]
  obtain y' c' s' where c': "scroll_line (Suc k) (y1, c1, s1) = Inr (y', c', s')" "same_size c1 c'" "grid_ok c'"
    "line_text c' k = line_text c1 (Suc k)" "\<And>i. i < unat (co_lines c) \<Longrightarrow> i \<noteq> k \<Longrightarrow> line_text c' i = line_text c1 i"
    using scroll_line_step [OF c1(3), of "Suc k" y1 s1] Suc.prems f by auto
  have "for_each scroll_line [1..<Suc (Suc k)] (y, c, s) = Inr (y', c', s')"
    using c1(1) c'(1) by (simp add: for_each_append)
  moreover have "line_text c' i = (if i < Suc k then line_text c (Suc i) else line_text c i)" if "i < unat (co_lines c)" for i
    using c'(4) c'(5) [OF that] t1 [OF that] t1 [OF Suc.prems] by (cases "i = k") auto
  ultimately show ?case using same_size_trans [OF c1(2) c'(2)] c'(3) by blast
qed

lemma scrollDown_lines:
  assumes "grid_ok c"
  shows "\<exists>c' s'. scrollDown c s = Inr (c', s') \<and> same_size c c' \<and> grid_ok c' \<and> lines_of c' = tl (lines_of c) @ [[]]"
proof -
  let ?L = "unat (co_lines c)" and ?N = "unat (co_columns c) + 1"
  have shape: "shape_ok c" using assms by (simp add: grid_ok_def)
  then have L: "0 < ?L" by (simp add: shape_ok_def)
  then have "?L - 1 < ?L" by simp
  from scroll_loop [OF assms this, of 0 s] L obtain y1 c1 s1 where
    c1: "for_each scroll_line [1..<?L] (0, c, s) = Inr (y1, c1, s1)" "same_size c c1" "grid_ok c1"
    and t1: "\<And>i. i < ?L \<Longrightarrow> line_text c1 i = (if i < ?L - 1 then line_text c (Suc i) else line_text c i)"
    by auto
  note f = same_size_fields [OF c1(2)]
  have shape1: "shape_ok c1" using shape f by simp
  have "co_lines c \<noteq> 0" using L by auto
  then have last: "unat (co_lines c - 1) = ?L - 1" by (rule unat_minus_one)
  have idx: "screen_index c1 0 (co_lines c1 - 1) = (?L - 1) * ?N"
    using screen_index_eq [OF shape1, of "co_lines c1 - 1" 0] f L last by simp
  have st: "screen_strlen ((?L - 1) * ?N) c1 = Inr (length (line_text c1 (?L - 1)))"
    using screen_strlen_eq [OF c1(3), of "?L - 1"] f L by simp
  obtain c2 where c2: "write_screen ((?L - 1) * ?N) 0 c1 = Inr c2" "same_size c1 c2" "row c2 (?L - 1) = (row c1 (?L - 1))[0 := 0]"
    "\<forall>k < ?L. k \<noteq> ?L - 1 \<longrightarrow> row c2 k = row c1 k"
    using write_line [OF shape1, of "?L - 1" 0 0] f L by auto
  have len: "length (row c1 (?L - 1)) = ?N" using length_row [OF shape1, of "?L - 1"] f L by simp
  then have e: "line_text c2 (?L - 1) = []" unfolding line_text_def c2(3) by (cases "row c1 (?L - 1)") simp_all
  have "0 \<in> set (row c2 (?L - 1))" unfolding c2(3) using len by (intro set_update_memI) simp
  then have "grid_ok c2" using grid_ok_row [OF c1(3) c2(2), of "?L - 1"] c2(4) f by simp
  moreover have "lines_of c2 = tl (lines_of c) @ [[]]"
  proof (rule lines_of_eqI)
    show "co_lines c2 = co_lines c" using same_size_fields [OF c2(2)] f by simp
    fix i assume i: "i < ?L"
    show "line_text c2 i = (tl (lines_of c) @ [[]]) ! i"
    proof (cases "i = ?L - 1")
      case True
      then show ?thesis using e by (simp add: nth_append)
    next
      case False
      then have "line_text c2 i = line_text c1 i" using c2(4) i by (simp add: line_text_def)
      moreover have "i < ?L - 1" using False i by simp
      ultimately show ?thesis using t1 [OF i] by (simp add: nth_append nth_tl)
    qed
  qed (use L in simp)
  moreover have "\<exists>s'. scrollDown c s = Inr (c2, s')"
    unfolding scrollDown_def
    by (simp only: c1(1) rbind_simps prod.case Let_def idx st c2(1)) (auto split: prod.split)
  ultimately show ?thesis using same_size_trans [OF c1(2) c2(2)] by blast
qed

section \<open>Printing refines typing\<close>

lemma last_line: "grid_ok c \<Longrightarrow> unat (co_lines c - 1) = unat (co_lines c) - 1"
proof -
  assume "grid_ok c"
  then have "co_lines c \<noteq> 0" by (auto simp: grid_ok_def shape_ok_def)
  then show ?thesis by (rule unat_minus_one)
qed

text \<open>The part of the loop body that goes to the next line.\<close>

definition advance :: "u32 \<times> u32 \<Rightarrow> console \<Rightarrow> screen \<Rightarrow> ((u32 \<times> u32) \<times> console \<times> screen) result" where
  "advance xy c s =
     (if co_line c < co_lines c - 1
      then Inr ((0, snd xy + co_fontHeight c), c\<lparr>co_column := 0, co_line := co_line c + 1\<rparr>, s)
      else rbind (scrollDown (c\<lparr>co_column := 0\<rparr>) s) (\<lambda>(c1, s1).
             Inr ((0, (co_lines c1 - 1) * co_fontHeight c1), c1\<lparr>co_line := co_lines c1 - 1\<rparr>, s1)))"

lemma texts_of_cursor [simp]:
  "line_text (c\<lparr>co_column := x, co_line := y\<rparr>) = line_text c" "line_text (c\<lparr>co_column := x\<rparr>) = line_text c"
  "line_text (c\<lparr>co_line := y\<rparr>) = line_text c"
  "grid_ok (c\<lparr>co_column := x, co_line := y\<rparr>) = grid_ok c" "grid_ok (c\<lparr>co_column := x\<rparr>) = grid_ok c" "grid_ok (c\<lparr>co_line := y\<rparr>) = grid_ok c"
  "lines_of (c\<lparr>co_column := x, co_line := y\<rparr>) = lines_of c" "lines_of (c\<lparr>co_column := x\<rparr>) = lines_of c" "lines_of (c\<lparr>co_line := y\<rparr>) = lines_of c"
  by (simp_all add: line_text_def row_def grid_ok_def shape_ok_def lines_of_def fun_eq_iff)

lemma advance_refines:
  assumes "console_ok c"
  shows "\<exists>xy' c' s'. advance xy c s = Inr (xy', c', s') \<and> console_ok c' \<and> terminal_of c' = new_line (terminal_of c) \<and>
    co_columns c' = co_columns c \<and> co_lines c' = co_lines c \<and> co_column c' = 0 \<and> co_consoleLock c' = co_consoleLock c"
proof -
  have g: "grid_ok c" and line: "unat (co_line c) < unat (co_lines c)"
    using assms by (simp_all add: console_ok_def word_less_nat_alt)
  note last = last_line [OF g]
  show ?thesis
  proof (cases "co_line c < co_lines c - 1")
    case True
    let ?c = "c\<lparr>co_column := 0, co_line := co_line c + 1\<rparr>"
    have lt: "unat (co_line c) < unat (co_lines c) - 1" using True last by (simp add: word_less_nat_alt)
    then have u: "unat (co_line c + 1) = unat (co_line c) + 1"
      using unsigned_less [of "co_lines c", where 'a = nat] by (simp add: unat_word_ariths)
    then have "console_ok ?c" using assms lt by (auto simp: console_ok_def word_less_nat_alt)
    moreover have "terminal_of ?c = new_line (terminal_of c)" using lt u by (simp add: terminal_of_def new_line_def)
    moreover have "advance xy c s = Inr ((0, snd xy + co_fontHeight c), ?c, s)" using True by (simp add: advance_def)
    ultimately show ?thesis by auto
  next
    case False
    then have cur: "unat (co_line c) = unat (co_lines c) - 1" using line last by (simp add: word_less_nat_alt)
    obtain c1 s1 where c1: "scrollDown (c\<lparr>co_column := 0\<rparr>) s = Inr (c1, s1)" "same_size (c\<lparr>co_column := 0\<rparr>) c1" "grid_ok c1"
      "lines_of c1 = tl (lines_of c) @ [[]]"
      using scrollDown_lines [of "c\<lparr>co_column := 0\<rparr>" s] g by auto
    note f = same_size_fields [OF c1(2), simplified]
    let ?c = "c1\<lparr>co_line := co_lines c1 - 1\<rparr>"
    have u: "unat (co_lines c1 - 1) = unat (co_lines c) - 1" using last f by simp
    have "line_text c1 (unat (co_lines c) - 1) = lines_of c1 ! (unat (co_lines c) - 1)" using line f by simp
    also have "\<dots> = []" unfolding c1(4) by (simp add: nth_append)
    finally have "console_ok ?c" using c1(3) f u line by (auto simp: console_ok_def word_less_nat_alt)
    moreover have "terminal_of ?c = new_line (terminal_of c)" using c1(4) u cur by (simp add: terminal_of_def new_line_def)
    moreover have "advance xy c s = Inr ((0, (co_lines c1 - 1) * co_fontHeight c1), ?c, s1)" using False c1(1) by (simp add: advance_def)
    ultimately show ?thesis using f by auto
  qed
qed

lemma print_loop_advance:
  "print_loop (ch # str) xy (c, s) =
     rbind (if co_column c \<ge> co_columns c \<or> ch = newline then advance xy c s else Inr (xy, c, s)) (\<lambda>((x1, y1), c1, s1).
       if ch = newline then print_loop str (x1, y1) (c1, s1)
       else (let s2 = draw (\<lambda>d f. writeCharacter d f x1 y1 ch) s1
             in rbind (write_screen (screen_index c1 (co_column c1) (co_line c1)) ch c1) (\<lambda>c2.
                rbind (write_screen (screen_index c2 (co_column c2 + 1) (co_line c2)) 0 c2) (\<lambda>c3.
                print_loop str (x1 + co_fontWidth c3, y1) (c3\<lparr>co_column := co_column c3 + 1\<rparr>, s2)))))"
  by (cases xy) (simp add: advance_def)

lemma store_refines:
  assumes "console_ok c" "co_column c < co_columns c" "ch \<noteq> 0"
  shows "\<exists>c2 c3. write_screen (screen_index c (co_column c) (co_line c)) ch c = Inr c2 \<and>
    write_screen (screen_index c2 (co_column c2 + 1) (co_line c2)) 0 c2 = Inr c3 \<and>
    console_ok (c3\<lparr>co_column := co_column c3 + 1\<rparr>) \<and> same_size c c3 \<and>
    terminal_of (c3\<lparr>co_column := co_column c3 + 1\<rparr>) =
      ((lines_of c)[unat (co_line c) := lines_of c ! unat (co_line c) @ [ch]], unat (co_line c))"
proof -
  let ?i = "unat (co_line c)" and ?j = "unat (co_column c)" and ?N = "unat (co_columns c) + 1"
  have g: "grid_ok c" and shape: "shape_ok c" and line: "?i < unat (co_lines c)" and len: "length (line_text c ?i) = ?j"
    and below: "\<And>k. ?i < k \<Longrightarrow> k < unat (co_lines c) \<Longrightarrow> line_text c k = []"
    using assms(1) by (simp_all add: console_ok_def grid_ok_def word_less_nat_alt)
  have j: "?j < unat (co_columns c)" using assms(2) by (simp add: word_less_nat_alt)
  then have u: "unat (co_column c + 1) = Suc ?j"
    using unsigned_less [of "co_columns c", where 'a = nat] by (simp add: unat_word_ariths)
  obtain c2 c3 where w: "write_screen (?i * ?N + ?j) ch c = Inr c2" "same_size c c2" "write_screen (?i * ?N + Suc ?j) 0 c2 = Inr c3"
    "same_size c c3" "grid_ok c3" "line_text c3 ?i = line_text c ?i @ [ch]"
    and other: "\<And>k. k < unat (co_lines c) \<Longrightarrow> k \<noteq> ?i \<Longrightarrow> line_text c3 k = line_text c k"
    using put_character [OF g line len j assms(3)] by blast
  note f2 = same_size_fields [OF w(2)] and f3 = same_size_fields [OF w(4)]
  have "screen_index c (co_column c) (co_line c) = ?i * ?N + ?j" using screen_index_eq [OF shape line] j by simp
  moreover have "screen_index c2 (co_column c2 + 1) (co_line c2) = ?i * ?N + Suc ?j"
    using screen_index_eq [of c2 "co_line c2" "co_column c2 + 1"] shape line j u f2 by simp
  moreover have "console_ok (c3\<lparr>co_column := co_column c3 + 1\<rparr>)"
    using w(5,6) other below len u f3 line by (auto simp: console_ok_def word_less_nat_alt)
  moreover have "lines_of c3 = (lines_of c)[?i := lines_of c ! ?i @ [ch]]"
    using w(6) other f3 line by (intro lines_of_eqI) (auto simp: nth_list_update)
  then have "terminal_of (c3\<lparr>co_column := co_column c3 + 1\<rparr>) = ((lines_of c)[?i := lines_of c ! ?i @ [ch]], ?i)"
    using f3 by (simp add: terminal_of_def)
  ultimately show ?thesis using w(1,3,4) by simp
qed

lemma full_line:
  assumes "console_ok c"
  shows "co_columns c \<le> co_column c \<longleftrightarrow> unat (co_columns c) \<le> length (fst (terminal_of c) ! snd (terminal_of c))"
  using assms by (simp add: console_ok_def terminal_of_def word_le_nat_alt word_less_nat_alt)

lemma print_loop_refines:
  assumes "console_ok c" "0 \<notin> set str"
  shows "\<exists>c' s'. print_loop str xy (c, s) = Inr (c', s') \<and> console_ok c' \<and>
    terminal_of c' = type_text (unat (co_columns c)) str (terminal_of c) \<and> co_columns c' = co_columns c \<and> co_consoleLock c' = co_consoleLock c"
  using assms
proof (induction str arbitrary: xy c s)
  case Nil
  then show ?case by (simp add: type_text_def)
next
  case (Cons ch str)
  let ?w = "unat (co_columns c)"
  let ?full = "co_column c \<ge> co_columns c \<or> ch = newline"
  obtain x1 y1 c1 s1 where step: "(if ?full then advance xy c s else Inr (xy, c, s)) = Inr ((x1, y1), c1, s1)" and ok: "console_ok c1"
    and t1: "terminal_of c1 = (if ?full then new_line (terminal_of c) else terminal_of c)"
    and same: "co_columns c1 = co_columns c" "co_consoleLock c1 = co_consoleLock c" and room: "ch \<noteq> newline \<Longrightarrow> co_column c1 < co_columns c1"
  proof (cases ?full)
    case True
    have "0 < co_columns c" using Cons.prems(1) by (auto simp: console_ok_def grid_ok_def shape_ok_def word_less_nat_alt)
    with True advance_refines [OF Cons.prems(1), of xy s] that show thesis by fastforce
  next
    case False
    obtain x y where "xy = (x, y)" by fastforce
    moreover from False have "\<not> co_columns c \<le> co_column c" "ch \<noteq> newline" by simp_all
    moreover from this have "co_column c < co_columns c" by (simp only: not_le)
    ultimately show thesis using that [of x y c s] Cons.prems(1) by simp
  qed
  have typed: "type_text ?w (ch # str) (terminal_of c) = type_text ?w str (if ch = newline then terminal_of c1
      else ((fst (terminal_of c1))[snd (terminal_of c1) := fst (terminal_of c1) ! snd (terminal_of c1) @ [ch]], snd (terminal_of c1)))"
    using t1 full_line [OF Cons.prems(1)] by (auto simp: type_text_def type_char_def split: prod.splits)
  show ?case
  proof (cases "ch = newline")
    case True
    with Cons.IH [OF ok, of "(x1, y1)" s1] Cons.prems(2) same show ?thesis
      unfolding print_loop_advance step typed by simp
  next
    case False
    let ?s = "draw (\<lambda>d f. writeCharacter d f x1 y1 ch) s1"
    have "ch \<noteq> 0" using Cons.prems(2) by auto
    obtain c2 c3 where w: "write_screen (screen_index c1 (co_column c1) (co_line c1)) ch c1 = Inr c2"
      "write_screen (screen_index c2 (co_column c2 + 1) (co_line c2)) 0 c2 = Inr c3"
      "console_ok (c3\<lparr>co_column := co_column c3 + 1\<rparr>)" "same_size c1 c3"
      "terminal_of (c3\<lparr>co_column := co_column c3 + 1\<rparr>) =
        ((lines_of c1)[unat (co_line c1) := lines_of c1 ! unat (co_line c1) @ [ch]], unat (co_line c1))"
      using store_refines [OF ok room [OF False] \<open>ch \<noteq> 0\<close>] by blast
    from Cons.IH [OF w(3), of "(x1 + co_fontWidth c3, y1)" ?s] Cons.prems(2) same False w(1,2,5) same_size_fields [OF w(4)]
    show ?thesis unfolding print_loop_advance step typed by (simp add: Let_def terminal_of_def)
  qed
qed

text \<open>The first call makes an empty terminal of the size of the display in characters.\<close>

lemma console_setup_empty:
  assumes "co_columns c = 0" "co_line c = 0" "co_column c = 0" "font_getWidth (sn_font s) \<noteq> 0" "font_getHeight (sn_font s) \<noteq> 0"
    and geom: "W = getWidth (sn_display s) div font_getWidth (sn_font s)" "H = getHeight (sn_display s) div font_getHeight (sn_font s)"
      "0 < unat W" "0 < unat H" "(unat W + 1) * unat H < 2 ^ 32" "(unat W + 1) * unat H \<le> length heap"
  shows "\<exists>c'. console_setup heap c s = Inr c' \<and> console_ok c' \<and> terminal_of c' = (replicate (unat H) [], 0) \<and> co_columns c' = W \<and>
    co_consoleLock c' = co_consoleLock c"
proof -
  let ?c = "c\<lparr>co_displayWidth := getWidth (sn_display s), co_displayHeight := getHeight (sn_display s),
     co_fontWidth := font_getWidth (sn_font s), co_fontHeight := font_getHeight (sn_font s), co_columns := W, co_lines := H,
     co_screenBuffer := take (unat ((W + 1) * H)) heap\<rparr>"
  have "unat W + 1 < 2 ^ 32" using geom(4,5) mult_le_mono2 [of 1 "unat H" "unat W + 1"] by simp
  then have n: "unat ((W + 1) * H) = (unat W + 1) * unat H" using geom(5) by (simp add: unat_word_ariths)
  then have shape: "shape_ok ?c" using geom(3-6) by (simp add: shape_ok_def)
  have loop: "\<exists>c'. for_each (\<lambda>i c. write_screen (screen_index c 0 (of_nat i)) 0 c) [0..<k] ?c = Inr c' \<and> same_size ?c c' \<and>
      (\<forall>i<k. row c' i \<noteq> [] \<and> hd (row c' i) = 0)" if "k \<le> unat H" for k
    using that
  proof (induction k)
    case 0
    show ?case by auto
  next
    case (Suc k)
    then obtain c1 where c1: "for_each (\<lambda>i c. write_screen (screen_index c 0 (of_nat i)) 0 c) [0..<k] ?c = Inr c1" "same_size ?c c1"
      "\<forall>i<k. row c1 i \<noteq> [] \<and> hd (row c1 i) = 0" by auto
    note f = same_size_fields [OF c1(2)]
    have s1: "shape_ok c1" using shape f by simp
    have k: "k < unat (co_lines c1)" using Suc.prems f by simp
    have "unat (of_nat k :: u32) = k" using k by (rule unat_of_nat_line)
    then have idx: "screen_index c1 0 (of_nat k) = k * (unat (co_columns c1) + 1) + 0"
      using screen_index_eq [OF s1, of "of_nat k" 0] k by simp
    obtain c2 where c2: "write_screen (screen_index c1 0 (of_nat k)) 0 c1 = Inr c2" "same_size c1 c2" "row c2 k = (row c1 k)[0 := 0]"
      "\<forall>i < unat (co_lines c1). i \<noteq> k \<longrightarrow> row c2 i = row c1 i"
      using write_line [OF s1 k, of 0 0] unfolding idx by auto
    have "row c1 k \<noteq> []" using length_row [OF s1 k] by auto
    then have "row c2 k \<noteq> [] \<and> hd (row c2 k) = 0" unfolding c2(3) by (cases "row c1 k") simp_all
    then have "\<forall>i<Suc k. row c2 i \<noteq> [] \<and> hd (row c2 i) = 0" using c1(3) c2(4) k by (simp add: less_Suc_eq)
    moreover have "for_each (\<lambda>i c. write_screen (screen_index c 0 (of_nat i)) 0 c) [0..<Suc k] ?c = Inr c2"
      using c1(1) c2(1) by (simp add: for_each_append)
    ultimately show ?case using same_size_trans [OF c1(2) c2(2)] by blast
  qed
  obtain c' where c': "for_each (\<lambda>i c. write_screen (screen_index c 0 (of_nat i)) 0 c) [0..<unat H] ?c = Inr c'" "same_size ?c c'"
    "\<forall>i<unat H. row c' i \<noteq> [] \<and> hd (row c' i) = 0" using loop [of "unat H"] by auto
  note f = same_size_fields [OF c'(2), simplified]
  have empty: "line_text c' i = []" if "i < unat H" for i
    using c'(3) that unfolding line_text_def by (cases "row c' i") auto
  have "0 \<in> set (row c' i)" if "i < unat H" for i using c'(3) that by (metis hd_in_set)
  then have "console_ok c'" using shape f assms(2,3) empty geom(4) by (simp add: console_ok_def grid_ok_def word_less_nat_alt)
  moreover have "terminal_of c' = (replicate (unat H) [], 0)"
    using f assms(2) empty by (auto simp: terminal_of_def intro!: lines_of_eqI)
  moreover have "console_setup heap c s = Inr c'"
    using assms(1,4,5) c'(1) geom(1,2) by (simp add: console_setup_def Let_def)
  ultimately show ?thesis using f by auto
qed

section \<open>Formatting\<close>

text \<open>The text a format stands for.\<close>

fun format_text :: "u8 list \<Rightarrow> vararg list \<Rightarrow> u8 list result" where
  "format_text [] args = Inr []"
| "format_text (ch # format) args =
     (if ch = percent
      then case format of
             [] \<Rightarrow> rbind (convert 0 args) (\<lambda>(ts, rest). Inr (concat ts))
           | d # format' \<Rightarrow> rbind (convert d args) (\<lambda>(ts, rest). rbind (format_text format' rest) (\<lambda>t. Inr (concat ts @ t)))
      else rbind (format_text format args) (\<lambda>t. Inr (ch # t)))"

lemma format_text_plain:
  "percent \<notin> set xs \<Longrightarrow> format_text (xs @ ys) args = rbind (format_text ys args) (\<lambda>t. Inr (xs @ t))"
proof (induction xs)
  case Nil
  show ?case by (cases "format_text ys args") simp_all
next
  case (Cons x xs)
  then show ?case by (cases "format_text ys args") auto
qed

lemma type_text_append: "type_text w (a @ b) t = type_text w b (type_text w a t)"
  by (simp add: type_text_def)

text \<open>A console whose state is good after printing a text.\<close>

definition printed :: "u8 list \<Rightarrow> console \<Rightarrow> console \<Rightarrow> bool" where
  "printed str c c' \<longleftrightarrow> console_ok c' \<and> terminal_of c' = type_text (unat (co_columns c)) str (terminal_of c) \<and>
     co_columns c' = co_columns c \<and> co_consoleLock c' = co_consoleLock c"

lemma printed_trans: "printed a c c1 \<Longrightarrow> printed b c1 c2 \<Longrightarrow> printed (a @ b) c c2"
  by (simp add: printed_def type_text_append)

lemma print_unlocked_refines:
  assumes "console_ok c" "0 \<notin> set str"
  shows "\<exists>c' s'. print_unlocked heap str (c, s) = Inr (c', s') \<and> printed str c c'"
proof -
  have "co_columns c \<noteq> 0" using assms(1) by (auto simp: console_ok_def grid_ok_def shape_ok_def)
  then have "console_setup heap c s = Inr c" by (simp add: console_setup_def)
  with print_loop_refines [OF assms] show ?thesis by (simp add: print_unlocked_def printed_def)
qed

lemma print_all_refines:
  assumes "console_ok c" "0 \<notin> set (concat ts)"
  shows "\<exists>c' s'. for_each (print_unlocked heap) ts (c, s) = Inr (c', s') \<and> printed (concat ts) c c'"
  using assms
proof (induction ts arbitrary: c s)
  case Nil
  then show ?case by (simp add: printed_def type_text_def)
next
  case (Cons t ts)
  then obtain c1 s1 where one: "print_unlocked heap t (c, s) = Inr (c1, s1)" "printed t c c1"
    using print_unlocked_refines [of c t heap s] by auto
  have "console_ok c1" using one(2) by (simp add: printed_def)
  with Cons obtain c2 s2 where "for_each (print_unlocked heap) ts (c1, s1) = Inr (c2, s2)" "printed (concat ts) c1 c2"
    by (metis concat.simps(2) set_append UnCI)
  with one printed_trans [OF one(2)] show ?case by auto
qed

lemma printf_loop_refines:
  assumes "console_ok c" "format_text format args = Inr text" "0 \<notin> set text"
  shows "\<exists>c' s'. printf_loop heap format args (c, s) = Inr (c', s') \<and> printed text c c'"
  using assms
proof (induction "length format" arbitrary: format args "text" c s rule: less_induct)
  case less
  show ?case
  proof (cases format)
    case Nil
    with less.prems show ?thesis by (simp add: printed_def type_text_def)
  next
    case (Cons ch rest)
    show ?thesis
    proof (cases "ch = percent")
      case True
      let ?d = "case rest of [] \<Rightarrow> 0 | d # _ \<Rightarrow> d"
      obtain ts args' t where conv: "convert ?d args = Inr (ts, args')" "format_text (tl rest) args' = Inr t" "text = concat ts @ t"
        using less.prems(2) True by (cases rest) (auto simp: Cons)
      obtain c1 s1 where c1: "for_each (print_unlocked heap) ts (c, s) = Inr (c1, s1)" "printed (concat ts) c c1"
        using print_all_refines [OF less.prems(1), of ts heap s] less.prems(3) conv(3) by auto
      have shorter: "length (tl rest) < length format" using Cons by (simp add: less_Suc_eq_le)
      have "console_ok c1" using c1(2) by (simp add: printed_def)
      then obtain c2 s2 where "printf_loop heap (tl rest) args' (c1, s1) = Inr (c2, s2)" "printed t c1 c2"
        using less.hyps [OF shorter _ conv(2), of c1 s1] conv(3) less.prems(3) by auto
      with True conv(1,3) c1 printed_trans [OF c1(2)] show ?thesis unfolding Cons by simp
    next
      case False
      let ?a = "ch # takeWhile (\<lambda>x. x \<noteq> percent) rest" and ?b = "dropWhile (\<lambda>x. x \<noteq> percent) rest"
      have "percent \<notin> set ?a" using False by (auto dest: set_takeWhileD)
      moreover have "format = ?a @ ?b" using Cons by simp
      ultimately have "rbind (format_text ?b args) (\<lambda>t. Inr (?a @ t)) = Inr text"
        using less.prems(2) format_text_plain [of ?a ?b args] by metis
      then obtain t where t: "format_text ?b args = Inr t" "text = ?a @ t" by auto
      obtain c1 s1 where c1: "print_unlocked heap ?a (c, s) = Inr (c1, s1)" "printed ?a c c1"
        using print_unlocked_refines [OF less.prems(1), of ?a heap s] less.prems(3) t(2) by auto
      have "console_ok c1" using c1(2) by (simp add: printed_def)
      moreover have "length ?b < length format" using Cons by (simp add: le_imp_less_Suc length_dropWhile_le)
      ultimately obtain c2 s2 where "printf_loop heap ?b args (c1, s1) = Inr (c2, s2)" "printed t c1 c2"
        using less.hyps [of ?b c1 args t s1] t less.prems(3) by auto
      with False t(2) c1 printed_trans [OF c1(2)] show ?thesis unfolding Cons by simp
    qed
  qed
qed

section \<open>Printing under the lock\<close>

lemma console_ok_lock [simp]:
  "console_ok (c\<lparr>co_consoleLock := l\<rparr>) = console_ok c" "terminal_of (c\<lparr>co_consoleLock := l\<rparr>) = terminal_of c"
  by (simp_all add: console_ok_def terminal_of_def lines_of_def line_text_def row_def grid_ok_def shape_ok_def)

text \<open>A console that is good and whose lock is free, and one on which a text has been typed.\<close>

definition ready :: "console \<Rightarrow> bool" where
  "ready c \<longleftrightarrow> console_ok c \<and> \<not> locked (co_consoleLock c)"

definition typed :: "u8 list \<Rightarrow> console \<Rightarrow> console \<Rightarrow> bool" where
  "typed str c c' \<longleftrightarrow> ready c' \<and> terminal_of c' = type_text (unat (co_columns c)) str (terminal_of c) \<and> co_columns c' = co_columns c"

lemma typed_trans: "typed a c c1 \<Longrightarrow> typed b c1 c2 \<Longrightarrow> typed (a @ b) c c2"
  by (simp add: typed_def type_text_append)

lemma lock_around:
  assumes "ready c" "printed str (c\<lparr>co_consoleLock := (co_consoleLock c)\<lparr>sl_lock := 1, sl_enableIrqs := irq\<rparr>\<rparr>) c1"
  shows "acquireConsoleLock (irq, c) = Inr (False, c\<lparr>co_consoleLock := (co_consoleLock c)\<lparr>sl_lock := 1, sl_enableIrqs := irq\<rparr>\<rparr>)"
    "\<exists>c'. releaseConsoleLock (False, c1) = (irq, c') \<and> typed str c c'"
  using assms by (auto simp: ready_def typed_def printed_def acquireConsoleLock_def releaseConsoleLock_def)

lemma printf_runs:
  assumes "ready c" "format_text format args = Inr str" "0 \<notin> set str"
  shows "\<exists>c' s'. printf heap format args (irq, c, s) = Inr (irq, c', s') \<and> typed str c c'"
proof -
  let ?c = "c\<lparr>co_consoleLock := (co_consoleLock c)\<lparr>sl_lock := 1, sl_enableIrqs := irq\<rparr>\<rparr>"
  have "console_ok ?c" using assms(1) by (simp add: ready_def)
  then obtain c1 s1 where c1: "printf_loop heap format args (?c, s) = Inr (c1, s1)" "printed str ?c c1"
    using printf_loop_refines [OF _ assms(2,3)] by blast
  from lock_around [OF assms(1) c1(2)] c1(1) show ?thesis by (auto simp: printf_def)
qed

lemma print_runs:
  assumes "ready c" "0 \<notin> set str"
  shows "\<exists>c' s'. print heap str skipLocking (irq, c, s) = Inr (irq, c', s') \<and> typed str c c'"
proof (cases skipLocking)
  case True
  with print_unlocked_refines [of c str heap s] assms show ?thesis
    by (auto simp: print_def printed_def typed_def ready_def)
next
  case False
  let ?c = "c\<lparr>co_consoleLock := (co_consoleLock c)\<lparr>sl_lock := 1, sl_enableIrqs := irq\<rparr>\<rparr>"
  have "console_ok ?c" using assms(1) by (simp add: ready_def)
  then obtain c1 s1 where c1: "print_unlocked heap str (?c, s) = Inr (c1, s1)" "printed str ?c c1"
    using print_unlocked_refines [OF _ assms(2)] by blast
  from lock_around [OF assms(1) c1(2)] c1(1) False show ?thesis by (auto simp: print_def)
qed

lemma print_deadlock:
  assumes "locked (co_consoleLock c)"
  shows "printf heap format args (irq, c, s) = Inl Deadlock" "print heap str False (irq, c, s) = Inl Deadlock"
  using assms by (simp_all add: printf_def print_def acquireConsoleLock_def)

section \<open>Properties\<close>

text \<open>
  The console is a terminal (C30): on an initialised console whose lock is free, \<^verbatim>\<open>printf\<close> with a format and arguments that
  stand for a text without zero bytes returns, with the lock free and the interrupt flag as it was, and has typed
  exactly that text on the terminal the console shows: characters go to the end of the current line, a full line and a
  newline go on to the next one, and at the last line the others move up by one. No access leaves the screen buffer.
\<close>

theorem printf_refines_terminal:
  assumes "console_ok c" "\<not> locked (co_consoleLock c)" "format_text format args = Inr text" "0 \<notin> set text"
  shows "\<exists>c' s'. printf heap format args (irq, c, s) = Inr (irq, c', s') \<and> console_ok c' \<and> \<not> locked (co_consoleLock c') \<and>
    terminal_of c' = type_text (unat (co_columns c)) text (terminal_of c)"
  using printf_runs [OF _ assms(3,4), of c heap irq s] assms(1,2) by (auto simp: ready_def typed_def)

definition example_console :: console where
  "example_console = \<lparr>co_line = 0, co_column = 0, co_lines = 2, co_columns = 3, co_screenBuffer = [0, 5, 5, 5, 0, 5, 5, 5],
     co_displayWidth = 24, co_displayHeight = 32, co_fontWidth = 8, co_fontHeight = 16, co_consoleLock = spinlock_init\<rparr>"

definition example_screen :: screen where
  "example_screen = \<lparr>sn_display = example_display, sn_font = example_font, sn_mem = (\<lambda>a. 0)\<rparr>"

lemma example_console_ok: "console_ok example_console" "terminal_of example_console = ([[], []], 0)"
proof -
  have rows: "row example_console 0 = [0, 5, 5, 5]" "row example_console 1 = [0, 5, 5, 5]"
    by (simp_all add: row_def example_console_def)
  have two: "i < 2 \<longleftrightarrow> i = 0 \<or> i = 1" for i :: nat by auto
  show "console_ok example_console" "terminal_of example_console = ([[], []], 0)"
    using rows by (auto simp: console_ok_def grid_ok_def shape_ok_def line_text_def terminal_of_def lines_of_def example_console_def two upt_rec)
qed

theorem printf_refines_terminal_witness:
  "\<exists>c' s'. printf [] (ascii ''a%db'') [Word_arg 42] (True, example_console, example_screen) = Inr (True, c', s') \<and>
     terminal_of c' = ([ascii ''a42'', ascii ''b''], 1)"
proof -
  have n: "number_text 42 10 = Inr (ascii ''42'')"
    using number_text_eq(1) [of 10 42]
    by (simp add: digits_of.simps [of 10 42] digits_of.simps [of 10 4] digit_chars_def ascii_def of_char_def)
  have "format_text (ascii ''a%db'') [Word_arg 42] = Inr (ascii ''a42b'')"
    using n by (simp add: ascii_def percent_def convert_def print_value_def)
  moreover have "0 \<notin> set (ascii ''a42b'')" by (simp add: ascii_def)
  moreover have "type_text 3 (ascii ''a42b'') ([[], []], 0) = ([ascii ''a42'', ascii ''b''], 1)"
    by (simp add: type_text_def type_char_def new_line_def ascii_def)
  moreover have "\<not> locked (co_consoleLock example_console)" "co_columns example_console = 3" by (simp_all add: example_console_def)
  ultimately show ?thesis
    using printf_refines_terminal [OF example_console_ok(1), of "ascii ''a%db''" "[Word_arg 42]" "ascii ''a42b''" "[]" True example_screen] example_console_ok(2) by auto
qed

text \<open>
  Numbers (C32): for every base from 2 to 64 and every 64-bit value the number printer stays in its buffer, ends, and
  produces the digits of the value in that base, most significant first and without leading zeros.
\<close>

theorem number_text_correct:
  assumes "2 \<le> base" "base \<le> 64"
  shows "\<exists>ds. number_text v base = Inr (map (\<lambda>d. digit_chars ! d) ds) \<and> foldl (\<lambda>a d. a * unat base + d) 0 ds = unat v \<and>
    (\<forall>d\<in>set ds. d < unat base) \<and> ds \<noteq> [] \<and> length ds \<le> 64 \<and> (hd ds = 0 \<longrightarrow> v = 0)"
proof -
  have b: "2 \<le> unat base" "unat base \<le> 64" using assms by (simp_all add: word_le_nat_alt)
  show ?thesis
    using number_text_eq [OF b, of v] digits_of_value [of "unat base" "unat v"] digits_of_bounds [OF b(1), of "unat v"]
    by (intro exI [of _ "digits_of (unat base) (unat v)"]) (simp add: unsigned_eq_0_iff)
qed

theorem number_text_correct_witness:
  "number_text 0xFF 16 = Inr (ascii ''ff'')"
proof -
  have "\<exists>ds. number_text 0xFF 16 = Inr (map (\<lambda>d. digit_chars ! d) ds) \<and> foldl (\<lambda>a d. a * 16 + d) 0 ds = 255 \<and>
    (\<forall>d\<in>set ds. d < 16) \<and> ds \<noteq> [] \<and> hd ds \<noteq> 0"
    using number_text_correct [of 16 255] by auto
  moreover have "number_text 0xFF 16 = Inr (map (\<lambda>d. digit_chars ! d) [15, 15])"
    using number_text_eq(1) [of 16 255] by (simp add: digits_of.simps [of 16 255] digits_of.simps [of 16 15])
  ultimately show ?thesis by (simp add: digit_chars_def ascii_def)
qed

text \<open>Negative arguments of \<^verbatim>\<open>%d\<close> are converted to 64 unsigned bits.\<close>

lemma printf_negative: "convert (of_char CHR ''d'') [Word_arg (- 1)] = rbind (number_text (- 1) 10) (\<lambda>t. Inr ([t], []))"
proof -
  have "(scast (ucast (- 1 :: u64) :: u32) :: u64) = - 1" by (rule bit_word_eqI) (auto simp: bit_simps)
  then show ?thesis by (simp add: convert_def ascii_def print_value_def)
qed

end
