(* ===== verification/Exceptions.thy ===== *)
theory Exceptions
  imports Console
begin

text \<open>
  The handler of CPU exceptions (\<^verbatim>\<open>exceptions/exceptionHandlers.cpp\<close>, \<^verbatim>\<open>cpuExceptions.h\<close>) and the kernel panic
  (\<^verbatim>\<open>error/kpanic.cpp\<close>). The state is that of the console and the interrupt flag of the CPU; the result of a panic is the
  state in which the CPU halts. The address the processor leaves in \<^verbatim>\<open>cr2\<close> is an argument.
\<close>

section \<open>Exception numbers\<close>

definition CPU_DE :: u64 where "CPU_DE = 0"

definition CPU_DB :: u64 where "CPU_DB = 1"

definition CPU_NMI :: u64 where "CPU_NMI = 2"

definition CPU_BP :: u64 where "CPU_BP = 3"

definition CPU_OF :: u64 where "CPU_OF = 4"

definition CPU_BR :: u64 where "CPU_BR = 5"

definition CPU_UD :: u64 where "CPU_UD = 6"

definition CPU_NM :: u64 where "CPU_NM = 7"

definition CPU_DF :: u64 where "CPU_DF = 8"

definition CPU_TS :: u64 where "CPU_TS = 10"

definition CPU_NP :: u64 where "CPU_NP = 11"

definition CPU_SS :: u64 where "CPU_SS = 12"

definition CPU_GP :: u64 where "CPU_GP = 13"

definition CPU_PF :: u64 where "CPU_PF = 14"

definition CPU_MF :: u64 where "CPU_MF = 16"

definition CPU_AC :: u64 where "CPU_AC = 17"

definition CPU_MC :: u64 where "CPU_MC = 18"

definition CPU_XF :: u64 where "CPU_XF = 19"

definition CPU_CP :: u64 where "CPU_CP = 21"

definition CPU_HV :: u64 where "CPU_HV = 28"

definition CPU_VC :: u64 where "CPU_VC = 29"

definition CPU_SX :: u64 where "CPU_SX = 30"

text \<open>The exceptions whose report is a fixed line.\<close>

definition exception_lines :: "(u64 \<times> string) list" where
  "exception_lines =
     [(CPU_DE, ''Division exception''),
      (CPU_DB, ''Debug trap''),
      (CPU_NMI, ''Non-maskable interrupt''),
      (CPU_BP, ''Breakpoint''),
      (CPU_OF, ''Overflow exception''),
      (CPU_BR, ''Bound range exception''),
      (CPU_UD, ''Invalid opcode''),
      (CPU_NM, ''Device not available''),
      (CPU_DF, ''Double fault''),
      (CPU_TS, ''Invalid TSS''),
      (CPU_SS, ''Stack exception''),
      (CPU_MF, ''X87 error''),
      (CPU_AC, ''Alignment check exception''),
      (CPU_MC, ''Machine check exception''),
      (CPU_XF, ''SSE exception''),
      (CPU_CP, ''Control transfer exception''),
      (CPU_HV, ''Hyper visor exception''),
      (CPU_VC, ''VMM communication exception''),
      (CPU_SX, ''Security exception'')]"

lemmas cpu_exceptions = CPU_DE_def CPU_DB_def CPU_NMI_def CPU_BP_def CPU_OF_def CPU_BR_def CPU_UD_def CPU_NM_def CPU_DF_def CPU_TS_def CPU_NP_def CPU_SS_def CPU_GP_def CPU_PF_def CPU_MF_def CPU_AC_def CPU_MC_def CPU_XF_def CPU_CP_def CPU_HV_def CPU_VC_def CPU_SX_def

section \<open>Panic\<close>

type_synonym console_state = "bool \<times> console \<times> screen"

definition text_line :: "string \<Rightarrow> u8 list" where
  "text_line s = ascii s @ [newline]"

definition kpanic :: "u8 list \<Rightarrow> u8 list \<Rightarrow> console_state \<Rightarrow> console_state result" where
  "kpanic heap message st =
     rbind (print heap (text_line ''Kpanic!'') False st) (\<lambda>st1.
     rbind (print heap message False st1) (\<lambda>(irq, c, s). Inr (False, c, s)))"

section \<open>The handler\<close>

definition report_exception :: "u8 list \<Rightarrow> u64 \<Rightarrow> u64 \<Rightarrow> u64 \<Rightarrow> console_state \<Rightarrow> console_state result" where
  "report_exception heap exceptionNumber errorCode cr2 st =
     (if exceptionNumber = CPU_NP then print heap (text_line ''Segment not present: %d'') (errorCode \<noteq> 0) st
      else if exceptionNumber = CPU_GP then printf heap (text_line ''General protection fault (0x%d)'') [Word_arg errorCode] st
      else if exceptionNumber = CPU_PF
      then printf heap (text_line ''Page fault (%x) on address %p'') [Word_arg errorCode, Word_arg cr2] st
      else (case map_of exception_lines exceptionNumber of
              Some l \<Rightarrow> print heap (text_line l) False st
            | None \<Rightarrow> print heap (text_line ''Unimplemented exception number'') False st))"

definition handleCpuException :: "u8 list \<Rightarrow> u64 \<Rightarrow> u64 \<Rightarrow> u64 \<Rightarrow> u64 \<Rightarrow> console_state \<Rightarrow> console_state result" where
  "handleCpuException heap exceptionNumber errorCode rip cr2 st =
     rbind (printf heap (text_line ''Exception at address %p:'') [Word_arg rip] st) (\<lambda>st1.
     rbind (report_exception heap exceptionNumber errorCode cr2 st1) (\<lambda>st2.
     kpanic heap (text_line ''Non recoverable exception caught'') st2))"

section \<open>What is reported\<close>

definition number :: "nat \<Rightarrow> u64 \<Rightarrow> u8 list" where
  "number base v = map (\<lambda>d. digit_chars ! d) (digits_of base (unat v))"

definition exception_text :: "u64 \<Rightarrow> u64 \<Rightarrow> u64 \<Rightarrow> u8 list" where
  "exception_text n errorCode cr2 =
     (if n = CPU_NP then ascii ''Segment not present: %d''
      else if n = CPU_GP then ascii ''General protection fault (0x'' @ number 10 (scast (ucast errorCode :: u32)) @ ascii '')''
      else if n = CPU_PF then ascii ''Page fault ('' @ number 16 errorCode @ ascii '') on address 0x'' @ number 16 cr2
      else (case map_of exception_lines n of Some l \<Rightarrow> ascii l | None \<Rightarrow> ascii ''Unimplemented exception number''))"

definition exception_report :: "u64 \<Rightarrow> u64 \<Rightarrow> u64 \<Rightarrow> u64 \<Rightarrow> u8 list" where
  "exception_report n errorCode rip cr2 =
     ascii ''Exception at address 0x'' @ number 16 rip @ text_line '':'' @ exception_text n errorCode cr2 @ [newline] @
     text_line ''Kpanic!'' @ text_line ''Non recoverable exception caught''"

lemma number_text_number: "number_text v 10 = Inr (number 10 v)" "number_text v 16 = Inr (number 16 v)"
  using number_text_eq(1) [of 10 v] number_text_eq(1) [of 16 v] by (simp_all add: number_def)

lemma number_nonzero: "0 \<notin> set (number 10 v)" "0 \<notin> set (number 16 v)"
proof -
  have "digit_chars ! d \<noteq> 0" if "d \<in> set (digits_of base (unat v))" "2 \<le> base" "base \<le> 64" for d base
    using digits_of_bounds(1) [OF that(2), of "unat v"] that by (intro digit_nonzero) auto
  from this [of _ 10] this [of _ 16] show "0 \<notin> set (number 10 v)" "0 \<notin> set (number 16 v)" by (auto simp: number_def)
qed

lemma formats:
  "format_text (text_line ''Exception at address %p:'') [Word_arg rip] = Inr (ascii ''Exception at address 0x'' @ number 16 rip @ text_line '':'')"
  "format_text (text_line ''General protection fault (0x%d)'') [Word_arg e] =
     Inr (ascii ''General protection fault (0x'' @ number 10 (scast (ucast e :: u32)) @ ascii '')'' @ [newline])"
  "format_text (text_line ''Page fault (%x) on address %p'') [Word_arg e, Word_arg a] =
     Inr (ascii ''Page fault ('' @ number 16 e @ ascii '') on address 0x'' @ number 16 a @ [newline])"
  by (simp_all add: text_line_def ascii_def percent_def convert_def print_value_def number_text_number)

lemma exception_lines_nonzero: "map_of exception_lines n = Some l \<Longrightarrow> 0 \<notin> set (ascii l)"
proof -
  have "\<forall>l \<in> set (map snd exception_lines). 0 \<notin> set (ascii l)" by (simp add: exception_lines_def ascii_def)
  then show "map_of exception_lines n = Some l \<Longrightarrow> 0 \<notin> set (ascii l)" by (force dest: map_of_SomeD)
qed

lemma report_runs:
  assumes "ready c"
  shows "\<exists>c' s'. report_exception heap n errorCode cr2 (irq, c, s) = Inr (irq, c', s') \<and> typed (exception_text n errorCode cr2 @ [newline]) c c'"
proof -
  consider "n = CPU_NP" | "n = CPU_GP" | "n = CPU_PF" | "n \<notin> {CPU_NP, CPU_GP, CPU_PF}" by blast
  then show ?thesis
  proof cases
    case 1
    have "0 \<notin> set (text_line ''Segment not present: %d'')" by (simp add: text_line_def ascii_def)
    from print_runs [OF assms this, of heap "errorCode \<noteq> 0" irq s] 1 show ?thesis
      by (simp add: report_exception_def exception_text_def text_line_def)
  next
    case 2
    have "0 \<notin> set (ascii ''General protection fault (0x'' @ number 10 (scast (ucast errorCode :: u32)) @ ascii '')'' @ [newline])"
      using number_nonzero(1) by (simp add: ascii_def)
    from printf_runs [OF assms formats(2) this, of heap irq s] 2 show ?thesis
      by (simp add: report_exception_def exception_text_def cpu_exceptions)
  next
    case 3
    have "0 \<notin> set (ascii ''Page fault ('' @ number 16 errorCode @ ascii '') on address 0x'' @ number 16 cr2 @ [newline])"
      using number_nonzero(2) by (simp add: ascii_def)
    from printf_runs [OF assms formats(3) this, of heap irq s] 3 show ?thesis
      by (simp add: report_exception_def exception_text_def cpu_exceptions)
  next
    case 4
    let ?l = "case map_of exception_lines n of Some l \<Rightarrow> l | None \<Rightarrow> ''Unimplemented exception number''"
    have "0 \<notin> set (text_line ?l)"
      using exception_lines_nonzero [of n] by (cases "map_of exception_lines n") (simp_all add: text_line_def, simp add: ascii_def)
    from print_runs [OF assms this, of heap False irq s] 4 show ?thesis
      by (auto simp: report_exception_def exception_text_def text_line_def split: option.splits)
  qed
qed

lemma kpanic_runs:
  assumes "ready c" "0 \<notin> set message"
  shows "\<exists>c' s'. kpanic heap message (irq, c, s) = Inr (False, c', s') \<and> typed (text_line ''Kpanic!'' @ message) c c'"
proof -
  have "0 \<notin> set (text_line ''Kpanic!'')" by (simp add: text_line_def ascii_def)
  from print_runs [OF assms(1) this, of heap False irq s] obtain c1 s1 where
    c1: "print heap (text_line ''Kpanic!'') False (irq, c, s) = Inr (irq, c1, s1)" "typed (text_line ''Kpanic!'') c c1" by blast
  then have "ready c1" by (simp add: typed_def)
  from print_runs [OF this assms(2), of heap False irq s1] obtain c2 s2 where
    c2: "print heap message False (irq, c1, s1) = Inr (irq, c2, s2)" "typed message c1 c2" by blast
  with c1 typed_trans [OF c1(2) c2(2)] show ?thesis by (simp add: kpanic_def)
qed

section \<open>Properties\<close>


definition busy_console :: console where
  "busy_console = example_console\<lparr>co_consoleLock := \<lparr>sl_lock = 1, sl_enableIrqs = False\<rparr>\<rparr>"


end
