(* ===== verification/Multiboot.thy ===== *)
theory Multiboot
  imports Physical_Memory Acpi Display
begin

text \<open>
  The multiboot information block (\<^verbatim>\<open>arch/x86_64/kernel/mbi.cpp\<close>, \<^verbatim>\<open>mbi.h\<close>), from which the kernel takes its physical
  memory, the RAM disk, the frame buffer and the ACPI root pointer. The block is read from the byte memory that the boot loader left;
  the kernel's globals are a record, apart from \<^verbatim>\<open>acpi::rsdp\<close>, which is an object in that memory because it is filled by
  \<^verbatim>\<open>memcpy\<close>. The addresses the linker chooses are an argument. The loop over the tags only ends at a tag of type 0,
  so that it has fuel, the number of tags.
\<close>

section \<open>Layouts\<close>

record MbiTag =
  mt_type :: u32
  mt_size :: u32

definition read_MbiTag :: "byte_mem \<Rightarrow> u64 \<Rightarrow> MbiTag" where
  "read_MbiTag m t = \<lparr>mt_type = read32 m t, mt_size = read32 m (t + 4)\<rparr>"

definition MBI_TAG_MODULE :: u32 where "MBI_TAG_MODULE = 3"

definition MBI_TAG_MEMORY :: u32 where "MBI_TAG_MEMORY = 6"

definition MBI_TAG_FRAME_BUFFER :: u32 where "MBI_TAG_FRAME_BUFFER = 8"

definition MBI_TAG_RSDP_OLD :: u32 where "MBI_TAG_RSDP_OLD = 14"

definition MBI_TAG_RSDP_NEW :: u32 where "MBI_TAG_RSDP_NEW = 15"

lemmas tag_numbers = MBI_TAG_MODULE_def MBI_TAG_MEMORY_def MBI_TAG_FRAME_BUFFER_def MBI_TAG_RSDP_OLD_def MBI_TAG_RSDP_NEW_def

record ModuleTag = MbiTag +
  mo_moduleStart :: u32
  mo_moduleEnd :: u32

definition read_ModuleTag :: "byte_mem \<Rightarrow> u64 \<Rightarrow> ModuleTag" where
  "read_ModuleTag m t =
     \<lparr>mt_type = read32 m t, mt_size = read32 m (t + 4), mo_moduleStart = read32 m (t + 8), mo_moduleEnd = read32 m (t + 12)\<rparr>"

record MemoryMapTag = MbiTag +
  mm_entrySize :: u32
  mm_version :: u32

definition read_MemoryMapTag :: "byte_mem \<Rightarrow> u64 \<Rightarrow> MemoryMapTag" where
  "read_MemoryMapTag m t =
     \<lparr>mt_type = read32 m t, mt_size = read32 m (t + 4), mm_entrySize = read32 m (t + 8), mm_version = read32 m (t + 12)\<rparr>"

definition sizeof_MemoryMapTag :: u64 where "sizeof_MemoryMapTag = 16"

text \<open>The elements of the flexible array are 24 bytes apart, whatever \<^verbatim>\<open>entrySize\<close> says.\<close>

record memory_entry =
  me_base :: u64
  me_length :: u64
  me_type :: u32

definition read_memory_entry :: "byte_mem \<Rightarrow> u64 \<Rightarrow> nat \<Rightarrow> memory_entry" where
  "read_memory_entry m t i =
     (let e = t + sizeof_MemoryMapTag + of_nat (24 * i)
      in \<lparr>me_base = read64 m e, me_length = read64 m (e + 8), me_type = read32 m (e + 16)\<rparr>)"

record FrameBufferTag = MbiTag +
  ft_address :: u64
  ft_pitch :: u32
  ft_width :: u32
  ft_height :: u32
  ft_depth :: u8

definition read_FrameBufferTag :: "byte_mem \<Rightarrow> u64 \<Rightarrow> FrameBufferTag" where
  "read_FrameBufferTag m t =
     \<lparr>mt_type = read32 m t, mt_size = read32 m (t + 4), ft_address = read64 m (t + 8), ft_pitch = read32 m (t + 16),
      ft_width = read32 m (t + 20), ft_height = read32 m (t + 24), ft_depth = m (t + 28)\<rparr>"

definition sizeof_RsdpV1 :: u64 where "sizeof_RsdpV1 = 20"

definition sizeof_RsdpV2 :: u64 where "sizeof_RsdpV2 = 36"

section \<open>State\<close>

record Initramfs =
  ir_pointer :: ptr
  ir_size :: u64

text \<open>The symbols of the linker: the physical extent of the kernel and the object \<^verbatim>\<open>acpi::rsdp\<close>.\<close>

record kernel_image =
  ki_physicalAddress :: u64
  ki_physicalEnd :: u64
  ki_rsdp :: u64

record boot_state =
  bt_mem :: byte_mem
  bt_irq :: bool
  bt_physicalMemory :: blockmap
  bt_initramfs :: Initramfs
  bt_frameBuffer :: FrameBuffer

definition on_physicalMemory :: "(bool \<times> blockmap \<Rightarrow> (unit \<times> bool \<times> blockmap) result) \<Rightarrow> boot_state \<Rightarrow> boot_state result" where
  "on_physicalMemory f s =
     rbind (f (bt_irq s, bt_physicalMemory s)) (\<lambda>(_, irq, pm). Inr (s\<lparr>bt_irq := irq, bt_physicalMemory := pm\<rparr>))"

section \<open>Parsing\<close>

definition parseModuleTag :: "u64 \<Rightarrow> boot_state \<Rightarrow> boot_state" where
  "parseModuleTag t s =
     (let tag = read_ModuleTag (bt_mem s) t
      in s\<lparr>bt_initramfs := \<lparr>ir_pointer = ucast (mo_moduleStart tag), ir_size = ucast (mo_moduleEnd tag - mo_moduleStart tag)\<rparr>\<rparr>)"

text \<open>The body of the loop over the memory map; the block that an entry stands for.\<close>

definition entry_block :: "memory_entry \<Rightarrow> block" where
  "entry_block e =
     (let entryBase = PAGE_ALIGN_UP (me_base e);
          entrySize = PAGE_ALIGN_DOWN (me_length e)
      in Block entryBase (entryBase + entrySize))"

definition parse_memory_entry :: "u64 \<Rightarrow> nat \<Rightarrow> boot_state \<Rightarrow> boot_state result" where
  "parse_memory_entry t i s =
     (let e = read_memory_entry (bt_mem s) t i
      in if me_type e = 1 then on_physicalMemory (addBlock (entry_block e)) s else Inr s)"

definition memory_map_count :: "MemoryMapTag \<Rightarrow> u32" where
  "memory_map_count tag = ucast ((ucast (mt_size tag) - sizeof_MemoryMapTag) div (ucast (mm_entrySize tag) :: u64))"

definition kernel_block :: "kernel_image \<Rightarrow> block" where
  "kernel_block ki = Block (PAGE_ALIGN_DOWN (ki_physicalAddress ki)) (PAGE_ALIGN_UP (ki_physicalEnd ki))"

definition low_block :: block where
  "low_block = Block 0 0x100000"

definition parseMemoryMapTag :: "kernel_image \<Rightarrow> u64 \<Rightarrow> boot_state \<Rightarrow> boot_state result" where
  "parseMemoryMapTag ki t s =
     (let tag = read_MemoryMapTag (bt_mem s) t
      in if mm_entrySize tag = 0 then Inl Undefined
         else rbind (for_each (parse_memory_entry t) [0..<unat (memory_map_count tag)] s) (\<lambda>s1.
              rbind (on_physicalMemory (reserve (kernel_block ki)) s1) (\<lambda>s2.
              on_physicalMemory (reserve low_block) s2)))"

definition parseFrameBufferTag :: "u64 \<Rightarrow> boot_state \<Rightarrow> boot_state" where
  "parseFrameBufferTag t s =
     (let tag = read_FrameBufferTag (bt_mem s) t
      in s\<lparr>bt_frameBuffer := \<lparr>fb_pointer = ft_address tag, fb_width = ft_width tag, fb_height = ft_height tag,
            fb_pitch = ft_pitch tag, fb_depth = ucast (ft_depth tag)\<rparr>\<rparr>)"

definition parseOldRsdpTag :: "kernel_image \<Rightarrow> u64 \<Rightarrow> boot_state \<Rightarrow> boot_state" where
  "parseOldRsdpTag ki t s = s\<lparr>bt_mem := snd (memcpy (ki_rsdp ki) (t + 8) sizeof_RsdpV1 (bt_mem s))\<rparr>"

definition parseNewRsdpTag :: "kernel_image \<Rightarrow> u64 \<Rightarrow> boot_state \<Rightarrow> boot_state" where
  "parseNewRsdpTag ki t s = s\<lparr>bt_mem := snd (memcpy (ki_rsdp ki) (t + 8) sizeof_RsdpV2 (bt_mem s))\<rparr>"

definition parseMbiTag :: "kernel_image \<Rightarrow> u32 \<Rightarrow> u64 \<Rightarrow> boot_state \<Rightarrow> boot_state result" where
  "parseMbiTag ki type t s =
     (if type = MBI_TAG_MODULE then Inr (parseModuleTag t s)
      else if type = MBI_TAG_MEMORY then parseMemoryMapTag ki t s
      else if type = MBI_TAG_FRAME_BUFFER then Inr (parseFrameBufferTag t s)
      else if type = MBI_TAG_RSDP_OLD then Inr (parseOldRsdpTag ki t s)
      else if type = MBI_TAG_RSDP_NEW then Inr (parseNewRsdpTag ki t s)
      else Inr s)"

definition next_tag :: "byte_mem \<Rightarrow> u64 \<Rightarrow> u64" where
  "next_tag m t = t + ucast ((mt_size (read_MbiTag m t) + 7) div 8 * 8)"

fun parse_tags :: "nat \<Rightarrow> kernel_image \<Rightarrow> u64 \<Rightarrow> boot_state \<Rightarrow> boot_state result" where
  "parse_tags 0 ki t s = Inl Diverges"
| "parse_tags (Suc fuel) ki t s =
     (let type = mt_type (read_MbiTag (bt_mem s) t)
      in if type = 0 then Inr s
         else rbind (parseMbiTag ki type t s) (\<lambda>s1. parse_tags fuel ki (next_tag (bt_mem s1) t) s1))"

definition initramfs_block :: "Initramfs \<Rightarrow> block" where
  "initramfs_block ir = Block (PAGE_ALIGN_DOWN (ir_pointer ir)) (PAGE_ALIGN_UP (ir_pointer ir + ir_size ir))"

definition parseMbi :: "nat \<Rightarrow> kernel_image \<Rightarrow> u64 \<Rightarrow> boot_state \<Rightarrow> boot_state result" where
  "parseMbi fuel ki mbiPointer s =
     rbind (parse_tags fuel ki (mbiPointer + 8) s) (\<lambda>s1.
       if ir_size (bt_initramfs s1) > 0 then on_physicalMemory (reserve (initramfs_block (bt_initramfs s1))) s1 else Inr s1)"

section \<open>Filling a block map\<close>

text \<open>
  What the parser relies on of a block map: it is in order and aligned to pages, has at most \<open>k\<close> blocks and the
  bytes \<open>A\<close> are free. Adding a block takes one more place in the array; reserving splits at most one block, and takes two.
\<close>

definition boot_map :: "nat \<Rightarrow> nat set \<Rightarrow> blockmap \<Rightarrow> bool" where
  "boot_map k A m \<longleftrightarrow> bm_inv m \<and> bm_aligned m \<and> numBlocks m \<le> k \<and> free_set m = A"

lemma addBlockLocked_count: "numBlocks m < BLOCKMAP_SIZE \<Longrightarrow> numBlocks (addBlockLocked b m) \<le> Suc (numBlocks m)"
  by (auto simp: addBlockLocked_def addBlockBody_def appendBlock_def)

lemma addBlockLocked_aligned:
  assumes "bm_wf m" "bm_aligned m" "wf_block b" "aligned_block b"
  shows "bm_aligned (addBlockLocked b m)"
  using appendBlock_correct(2) [OF assms(1) _ assms(3)] merge_aligned [OF assms(1,2)] merge_correct(1) [OF assms(1)]
    appendBlock_correct(2) [OF merge_correct(1) [OF assms(1)] _ assms(3)] assms(2,4)
  by (simp add: addBlockLocked_def addBlockBody_def Let_def bm_aligned_def)

lemma live_update: "bm_wf m \<Longrightarrow> i < numBlocks m \<Longrightarrow> live (m\<lparr>blocks := (blocks m)[i := c]\<rparr>) = (live m)[i := c]"
  by (simp add: live_def take_update_swap)

lemma block_aligned: "bm_wf m \<Longrightarrow> bm_aligned m \<Longrightarrow> i < numBlocks m \<Longrightarrow> aligned_block (blocks m ! i)"
  using nth_mem_take [of i "numBlocks m" "blocks m"] by (simp add: bm_aligned_def bm_wf_def live_def)

lemma aligned_emptyBlock [simp]: "aligned_block emptyBlock"
  by (simp add: aligned_block_def emptyBlock_def)

lemma reserveStep_aligned:
  assumes "bm_wf m" "bm_aligned m" "aligned_block r" "wf_block r" "i < numBlocks m"
  shows "bm_aligned (reserveStep r i m)"
proof -
  let ?b = "blocks m ! i"
  have al: "aligned_block ?b" by (rule block_aligned [OF assms(1,2,5)])
  have put: "bm_aligned (m\<lparr>blocks := (blocks m)[i := c]\<rparr>)" if "aligned_block c" for c
    using that assms(2) unfolding bm_aligned_def live_update [OF assms(1,5)]
    by (auto dest: set_update_subset_insert [THEN subsetD])
  let ?m0 = "m\<lparr>blocks := (blocks m)[i := emptyBlock]\<rparr>"
  let ?m1 = "addBlockLocked (Block (b_start ?b) (b_start r)) ?m0"
  have two: "bm_aligned (addBlockLocked (Block (b_end r) (b_end ?b)) ?m1)"
    if "b_start ?b < b_start r" "b_end r < b_end ?b"
  proof -
    have wf: "wf_block (Block (b_start ?b) (b_start r))" "wf_block (Block (b_end r) (b_end ?b))" using that by simp_all
    have al: "aligned_block (Block (b_start ?b) (b_start r))" "aligned_block (Block (b_end r) (b_end ?b))"
      using al assms(3) by (simp_all add: aligned_block_def Block_def)
    have wf0: "bm_wf ?m0" by (rule put_live(1) [OF assms(1,5)]) simp
    show ?thesis
      using addBlockLocked_aligned [OF addBlockLocked_correct(1) [OF wf0 wf(1)] addBlockLocked_aligned [OF wf0 put wf(1) al(1)] wf(2) al(2)]
      by simp
  qed
  have "aligned_block (?b\<lparr>b_start := b_end r\<rparr>)" "aligned_block (?b\<lparr>b_end := b_start r\<rparr>)"
    using al assms(3) by (simp_all add: aligned_block_def)
  with put [OF this(1)] put [OF this(2)] put [OF aligned_emptyBlock] two assms(2)
  show ?thesis by (simp add: reserveStep_def Let_def not_le)
qed

lemma reserveLoop_aligned:
  assumes "b_start r < b_end r" "bm_wf m" "bm_aligned m" "aligned_block r"
  shows "bm_aligned (reserveLoop r i m)"
  using assms
proof (induction r i m rule: reserveLoop.induct)
  case (1 r i m)
  show ?case
  proof (cases "i < numBlocks m")
    case True
    have w: "wf_block r" by (rule nonempty_block(2) [OF "1.prems"(1)])
    have "bm_wf (reserveStep r i m)"
      using reserveStep_keeps(1) [OF "1.prems"(2) True] reserveStep_split(1) [OF "1.prems"(2) True w] by blast
    with "1.IH" [OF True "1.prems"(1)] reserveStep_aligned [OF "1.prems"(2,3,4) w True] "1.prems"(4) True
    show ?thesis by (simp add: reserveLoop.simps [of r i m])
  qed (use "1.prems" in \<open>simp add: reserveLoop.simps [of r i m]\<close>)
qed

lemma reserveLoop_clear_count:
  assumes "b_start r < b_end r" "bm_wf m" "\<forall>a \<in> bytes r. cover (live m) a = 0"
  shows "numBlocks (reserveLoop r i m) = numBlocks m"
  using assms
proof (induction r i m rule: reserveLoop.induct)
  case (1 r i m)
  show ?case
  proof (cases "i < numBlocks m")
    case True
    have "bytes (blocks m ! i) \<inter> bytes r = {}" using "1.prems" True clear_iff by blast
    with nonempty_block(1) [OF "1.prems"(1)] strictly_inside_overlaps
    have out: "\<not> (b_start (blocks m ! i) < b_start r \<and> b_end r < b_end (blocks m ! i))" by blast
    note keep = reserveStep_keeps [OF "1.prems"(2) True out]
    have "\<forall>a \<in> bytes r. cover (live (reserveStep r i m)) a = 0"
    proof
      fix a assume "a \<in> bytes r"
      with keep(6) [of a] "1.prems"(3) show "cover (live (reserveStep r i m)) a = 0" by simp
    qed
    with "1.IH" [OF True "1.prems"(1) keep(1)] keep(2) True show ?thesis by (simp add: reserveLoop.simps [of r i m])
  qed (simp add: reserveLoop.simps [of r i m])
qed

lemma reserveLoop_count:
  assumes "b_start r < b_end r" "bm_wf m" "bm_disjoint m" "numBlocks m + 2 \<le> BLOCKMAP_SIZE"
  shows "numBlocks (reserveLoop r i m) \<le> numBlocks m + 2"
  using assms
proof (induction r i m rule: reserveLoop.induct)
  case (1 r i m)
  let ?m' = "reserveStep r i m" and ?b = "blocks m ! i"
  show ?case
  proof (cases "i < numBlocks m")
    case True
    then have run: "reserveLoop r i m = reserveLoop r (Suc i) ?m'" by (simp add: reserveLoop.simps [of r i m])
    show ?thesis
    proof (cases "b_start ?b < b_start r \<and> b_end r < b_end ?b")
      case inside: True
      note split = reserveStep_split [OF "1.prems"(2) True nonempty_block(2) [OF "1.prems"(1)]]
      have sub: "bytes r \<subseteq> bytes ?b" using inside strictly_inside_overlaps by blast
      have "\<forall>a \<in> bytes r. cover (live ?m') a = 0"
      proof
        fix a assume a: "a \<in> bytes r"
        have "cover (live m) a \<le> 1" using "1.prems"(3) by (simp add: bm_disjoint_def)
        with split(3) [of a] inside sub a show "cover (live ?m') a = 0" by (auto split: if_splits)
      qed
      then have eq: "numBlocks (reserveLoop r i m) = numBlocks ?m'"
        using reserveLoop_clear_count [OF "1.prems"(1) split(1)] inside unfolding run by blast
      let ?m1 = "addBlockLocked (Block (b_start ?b) (b_start r)) (m\<lparr>blocks := (blocks m)[i := emptyBlock]\<rparr>)"
      have two: "?m' = addBlockLocked (Block (b_end r) (b_end ?b)) ?m1"
        using inside nonempty_block(2) [OF "1.prems"(1)]
        by (auto simp: reserveStep_def Let_def wf_block_unat word_le_nat_alt word_less_nat_alt)
      have "numBlocks ?m1 \<le> Suc (numBlocks m)"
        using addBlockLocked_count [of "m\<lparr>blocks := (blocks m)[i := emptyBlock]\<rparr>"] "1.prems"(4) by simp
      with addBlockLocked_count [of ?m1 "Block (b_end r) (b_end ?b)"] "1.prems"(4) show ?thesis
        unfolding eq two by linarith
    next
      case False
      note keep = reserveStep_keeps [OF "1.prems"(2) True False]
      have "cover (live ?m') a \<le> cover (live m) a" for a
        using keep(6) [of a] by (cases "a \<in> bytes ?b"; cases "a \<in> bytes r"; simp)
      then have "bm_disjoint ?m'" using "1.prems"(3) unfolding bm_disjoint_def by (meson le_trans)
      with "1.IH" [OF True "1.prems"(1) keep(1)] keep(2) "1.prems"(4) show ?thesis by (simp add: run)
    qed
  qed (simp add: reserveLoop.simps [of r i m])
qed

lemma boot_map_add:
  assumes "boot_map k A m" "k < BLOCKMAP_SIZE" "wf_block b" "aligned_block b" "bytes b \<inter> A = {}"
  shows "\<exists>m'. addBlock b (irq, m) = Inr ((), irq, m') \<and> boot_map (Suc k) (A \<union> bytes b) m'"
proof -
  have inv: "bm_inv m" "bm_aligned m" "free_set m = A" "numBlocks m \<le> k" using assms(1) by (simp_all add: boot_map_def)
  have "bytes b \<inter> free_set m = {}" using assms(5) inv(3) by simp
  from addBlock_ok [OF inv(1) assms(3) this, of irq] obtain m' where
    m': "addBlock b (irq, m) = Inr ((), irq, m')" "bm_inv m'" "free_set m' = (if has_room m then A \<union> bytes b else A)"
    using inv(3) by auto
  have n: "numBlocks m < BLOCKMAP_SIZE" using inv(4) assms(2) by simp
  then have "has_room m" by (simp add: has_room_def)
  moreover have "bm_aligned m'" by (rule addBlock_aligned [OF inv(1,2) assms(3,4) m'(1)])
  moreover have "numBlocks m' \<le> Suc (numBlocks m)"
  proof (cases "capacity b > 0")
    case True
    with m'(1) n show ?thesis
      by (auto simp: addBlock_def under_lock_def acquire_def release_def Let_def addBlockBody_def appendBlock_def split: if_splits)
  qed (use m'(1) in \<open>simp add: addBlock_def\<close>)
  ultimately show ?thesis using m' inv(4) by (auto simp: boot_map_def)
qed

lemma boot_map_reserve:
  assumes "boot_map k A m" "k + 2 \<le> BLOCKMAP_SIZE" "b_start r < b_end r" "aligned_block r"
  shows "\<exists>m'. reserve r (irq, m) = Inr ((), irq, m') \<and> boot_map (k + 2) (A - bytes r) m'"
proof -
  have inv: "bm_inv m" "bm_aligned m" "free_set m = A" "numBlocks m \<le> k" using assms(1) by (simp_all add: boot_map_def)
  have room: "numBlocks (merge m) + 2 \<le> BLOCKMAP_SIZE" using numBlocks_merge [of m] inv(4) assms(2) by simp
  with reserve_ok [OF inv(1) assms(3), of irq] obtain m' where
    m': "reserve r (irq, m) = Inr ((), irq, m')" "bm_inv m'" "free_set m' = A - bytes r" using inv(3) by auto
  let ?l = "(bm_lock m)\<lparr>sl_lock := 1, sl_enableIrqs := irq\<rparr>"
  let ?m0 = "merge (m\<lparr>bm_lock := ?l\<rparr>)"
  have wf: "bm_wf m" "bm_disjoint m" "\<not> locked (bm_lock m)" using inv(1) by (simp_all add: bm_inv_def)
  have m0: "bm_wf ?m0" "bm_lock ?m0 = ?l" "bm_aligned ?m0"
    using merge_correct [of "m\<lparr>bm_lock := ?l\<rparr>"] merge_aligned [of "m\<lparr>bm_lock := ?l\<rparr>"] wf(1) inv(2) by simp_all
  have d0: "bm_disjoint ?m0"
    using merge_correct [of "m\<lparr>bm_lock := ?l\<rparr>"] wf(1,2) unfolding bm_disjoint_def by simp
  have n0: "numBlocks ?m0 = numBlocks (merge m)" by simp
  have "bm_lock (reserveLoop r 0 ?m0) = ?l"
    using reserveLoop_correct [OF assms(3) m0(1) d0, of 0] m0(2) by simp
  from bml.under_lock_run [where body = "\<lambda>m. ((), reserveLoop r 0 (merge m))" and irq = irq, OF wf(3) refl this] m'(1)
  have "m' = (reserveLoop r 0 ?m0)\<lparr>bm_lock := (bm_lock m)\<lparr>sl_lock := 0, sl_enableIrqs := irq\<rparr>\<rparr>"
    by (simp add: reserve_def)
  with reserveLoop_aligned [OF assms(3) m0(1,3) assms(4), of 0] reserveLoop_count [OF assms(3) m0(1) d0, of 0] room n0
    numBlocks_merge [of m] inv(4)
  show ?thesis using m' by (auto simp: boot_map_def)
qed

lemma boot_map_init: "boot_map 0 {} blockmap_init"
  by (simp add: boot_map_def bm_inv_def bm_wf_def bm_disjoint_def bm_aligned_def free_set_def live_def blockmap_init_def)

lemma boot_map_mono: "boot_map k A m \<Longrightarrow> k \<le> k' \<Longrightarrow> boot_map k' A m"
  by (simp add: boot_map_def)

section \<open>Information blocks as values\<close>

datatype mbi_item =
    ModuleItem u32 u32 "u8 list"
  | MemoryItem "memory_entry list"
  | FrameBufferItem u64 u32 u32 u32 u8 "u8 list"
  | OldRsdpItem "u8 list"
  | NewRsdpItem "u8 list"
  | OtherItem u32 "u8 list"

fun tag_type :: "mbi_item \<Rightarrow> u32" where
  "tag_type (ModuleItem a b cs) = MBI_TAG_MODULE"
| "tag_type (MemoryItem es) = MBI_TAG_MEMORY"
| "tag_type (FrameBufferItem a p w h d cs) = MBI_TAG_FRAME_BUFFER"
| "tag_type (OldRsdpItem bs) = MBI_TAG_RSDP_OLD"
| "tag_type (NewRsdpItem bs) = MBI_TAG_RSDP_NEW"
| "tag_type (OtherItem n bs) = n"

definition encode_entry :: "memory_entry \<Rightarrow> u8 list" where
  "encode_entry e = le_bytes 8 (unat (me_base e)) @ le_bytes 8 (unat (me_length e)) @ le_bytes 4 (unat (me_type e)) @ le_bytes 4 0"

fun payload :: "mbi_item \<Rightarrow> u8 list" where
  "payload (ModuleItem a b cs) = le_bytes 4 (unat a) @ le_bytes 4 (unat b) @ cs"
| "payload (MemoryItem es) = le_bytes 4 24 @ le_bytes 4 0 @ concat (map encode_entry es)"
| "payload (FrameBufferItem a p w h d cs) =
     le_bytes 8 (unat a) @ le_bytes 4 (unat p) @ le_bytes 4 (unat w) @ le_bytes 4 (unat h) @ d # cs"
| "payload (OldRsdpItem bs) = bs"
| "payload (NewRsdpItem bs) = bs"
| "payload (OtherItem n bs) = bs"

definition padding :: "nat \<Rightarrow> nat" where
  "padding n = (n + 7) div 8 * 8 - n"

definition encode_tag :: "mbi_item \<Rightarrow> u8 list" where
  "encode_tag i = le_bytes 4 (unat (tag_type i)) @ le_bytes 4 (8 + length (payload i)) @ payload i @
     replicate (padding (8 + length (payload i))) 0"

definition end_tag :: "u8 list" where
  "end_tag = le_bytes 4 0 @ le_bytes 4 8"

fun tag_shape_ok :: "mbi_item \<Rightarrow> bool" where
  "tag_shape_ok (OldRsdpItem bs) \<longleftrightarrow> length bs = 20"
| "tag_shape_ok (NewRsdpItem bs) \<longleftrightarrow> length bs = 36"
| "tag_shape_ok (OtherItem n bs) \<longleftrightarrow> n \<notin> {0, 3, 6, 8, 14, 15}"
| "tag_shape_ok _ \<longleftrightarrow> True"

definition tag_ok :: "mbi_item \<Rightarrow> bool" where
  "tag_ok i \<longleftrightarrow> tag_shape_ok i \<and> length (payload i) + 15 < 2 ^ 32"

text \<open>What a tag means, as an operation on the globals of the kernel with the physical memory as a set of bytes.\<close>

record boot_info =
  bi_initramfs :: Initramfs
  bi_frameBuffer :: FrameBuffer
  bi_rsdp :: "u8 list"
  bi_free :: "nat set"

fun tag_blocks :: "mbi_item \<Rightarrow> block list" where
  "tag_blocks (MemoryItem es) = map entry_block (filter (\<lambda>e. me_type e = 1) es)"
| "tag_blocks _ = []"

fun absorb_tag :: "kernel_image \<Rightarrow> mbi_item \<Rightarrow> boot_info \<Rightarrow> boot_info" where
  "absorb_tag ki (ModuleItem a b cs) s = s\<lparr>bi_initramfs := \<lparr>ir_pointer = ucast a, ir_size = ucast (b - a)\<rparr>\<rparr>"
| "absorb_tag ki (MemoryItem es) s =
     s\<lparr>bi_free := (bi_free s \<union> \<Union> (bytes ` set (tag_blocks (MemoryItem es)))) - bytes (kernel_block ki) - bytes low_block\<rparr>"
| "absorb_tag ki (FrameBufferItem a p w h d cs) s =
     s\<lparr>bi_frameBuffer := \<lparr>fb_pointer = a, fb_width = w, fb_height = h, fb_pitch = p, fb_depth = ucast d\<rparr>\<rparr>"
| "absorb_tag ki (OldRsdpItem bs) s = s\<lparr>bi_rsdp := bs @ drop 20 (bi_rsdp s)\<rparr>"
| "absorb_tag ki (NewRsdpItem bs) s = s\<lparr>bi_rsdp := bs\<rparr>"
| "absorb_tag ki (OtherItem n bs) s = s"

definition tag_cost :: "mbi_item \<Rightarrow> nat" where
  "tag_cost i = (case i of MemoryItem es \<Rightarrow> length es + 4 | _ \<Rightarrow> 0)"

definition boots :: "kernel_image \<Rightarrow> nat \<Rightarrow> boot_info \<Rightarrow> boot_state \<Rightarrow> bool" where
  "boots ki k b s \<longleftrightarrow> boot_map k (bi_free b) (bt_physicalMemory s) \<and> bt_initramfs s = bi_initramfs b \<and>
     bt_frameBuffer s = bi_frameBuffer b \<and> read_bytes (bt_mem s) (ki_rsdp ki) 36 = bi_rsdp b"

text \<open>The bytes of a tag lie outside the object \<^verbatim>\<open>acpi::rsdp\<close>, so copying into it leaves the tags alone.\<close>

definition apart :: "kernel_image \<Rightarrow> u64 \<Rightarrow> nat \<Rightarrow> bool" where
  "apart ki t n \<longleftrightarrow> (\<forall>k<n. \<not> within (ki_rsdp ki) 36 (t + of_nat k))"

lemma read_bytes_apart:
  assumes "apart ki t n" "\<forall>a. \<not> within (ki_rsdp ki) 36 a \<longrightarrow> m' a = m a"
  shows "read_bytes m' t n = read_bytes m t n"
  using assms by (simp add: read_bytes_def apart_def)

lemma apart_split: "apart ki t (i + j) \<longleftrightarrow> apart ki t i \<and> apart ki (t + of_nat i) j"
proof -
  have "(\<forall>k<i + j. P k) \<longleftrightarrow> (\<forall>k<i. P k) \<and> (\<forall>k<j. P (i + k))" for P
    by (auto simp: less_diff_conv dest: spec [of _ "_ - i"])
      (metis add_diff_inverse_nat nat_add_left_cancel_less)
  from this [of "\<lambda>k. \<not> within (ki_rsdp ki) 36 (t + of_nat k)"] show ?thesis by (simp add: apart_def add.assoc)
qed

lemma read64_field:
  "read_bytes m p n = xs @ le_bytes 8 (unat v) @ zs \<Longrightarrow> length xs = i \<Longrightarrow> read64 m (p + of_nat i) = v"
  using read_bytes_field [of m p n xs "le_bytes 8 (unat v)" zs i 8] unsigned_less [of v, where 'a = nat]
  by (simp add: read64_def le_value_le_bytes)

lemma length_encode_entry [simp]: "length (encode_entry e) = 24"
  by (simp add: encode_entry_def)

lemma length_entries [simp]: "length (concat (map encode_entry es)) = 24 * length es"
  by (induction es) simp_all

lemma length_encode_tag: "length (encode_tag i) = (8 + length (payload i) + 7) div 8 * 8"
  by (simp add: encode_tag_def padding_def)

lemma tag_type_nonzero: "tag_ok i \<Longrightarrow> tag_type i \<noteq> 0"
  by (cases i) (auto simp: tag_ok_def tag_numbers)

lemma tag_header:
  assumes "read_bytes m t (length (encode_tag i)) = encode_tag i" "tag_ok i"
  shows "mt_type (read_MbiTag m t) = tag_type i" "next_tag m t = t + of_nat (length (encode_tag i))"
proof -
  define n where "n = 8 + length (payload i)"
  note r = assms(1) [unfolded encode_tag_def, folded n_def]
  show "mt_type (read_MbiTag m t) = tag_type i"
    using read32_field [of m t _ "[]" "tag_type i", OF _ list.size(3)] r by (simp add: read_MbiTag_def)
  have n: "n + 7 < 2 ^ 32" using assms(2) by (simp add: tag_ok_def n_def)
  then have u: "unat (of_nat n :: u32) = n" by (simp add: unat_of_nat_small)
  then have size: "read32 m (t + 4) = of_nat n"
    using r read32_field [of m t _ "le_bytes 4 (unat (tag_type i))" "of_nat n" _ 4] by simp
  have "unat (of_nat n + 7 :: u32) = n + 7" using n u by (simp add: unat_word_ariths)
  moreover have "(n + 7) div 8 * 8 < 2 ^ 32" using n by linarith
  ultimately have "unat ((of_nat n + 7 :: u32) div 8 * 8) = (n + 7) div 8 * 8" by (simp add: unat_word_ariths unat_div)
  then have "(ucast ((of_nat n + 7 :: u32) div 8 * 8) :: u64) = of_nat ((n + 7) div 8 * 8)"
    by (simp add: ucast_eq_of_nat del: of_nat_mult)
  with size show "next_tag m t = t + of_nat (length (encode_tag i))"
    by (simp add: next_tag_def read_MbiTag_def length_encode_tag n_def)
qed

lemma concat_nth:
  "i < length xs \<Longrightarrow> concat (map f xs) = concat (map f (take i xs)) @ f (xs ! i) @ concat (map f (drop (Suc i) xs))"
  by (metis append_take_drop_id Cons_nth_drop_Suc concat.simps(2) concat_append list.simps(9) map_append)

lemma read_entry:
  assumes "read_bytes m t n = xs @ concat (map encode_entry es) @ zs" "length xs = 16" "i < length es"
  shows "read_memory_entry m t i = es ! i"
proof -
  let ?e = "es ! i" and ?t = "t + of_nat (16 + 24 * i)"
  have "read_bytes m t n = (xs @ concat (map encode_entry (take i es))) @ encode_entry ?e @ (concat (map encode_entry (drop (Suc i) es)) @ zs)"
    using assms(1) concat_nth [OF assms(3), of encode_entry] by simp
  moreover have "length (xs @ concat (map encode_entry (take i es))) = 16 + 24 * i"
    using assms(2,3) by simp
  ultimately have r: "read_bytes m ?t 24 = encode_entry ?e"
    by (rule read_bytes_field) simp
  have "read64 m ?t = me_base ?e" "read64 m (?t + of_nat 8) = me_length ?e" "read32 m (?t + of_nat 16) = me_type ?e"
    using read64_field [of m ?t 24 "[]" "me_base ?e", OF _ list.size(3)]
      read64_field [of m ?t 24 "le_bytes 8 (unat (me_base ?e))" "me_length ?e" _ 8]
      read32_field [of m ?t 24 "le_bytes 8 (unat (me_base ?e)) @ le_bytes 8 (unat (me_length ?e))" "me_type ?e" _ 16]
      r [unfolded encode_entry_def] by simp_all
  then show ?thesis
    by (simp add: read_memory_entry_def sizeof_MemoryMapTag_def Let_def add.assoc)
qed

section \<open>Tag by tag\<close>

lemma PAGE_ALIGN_UP_down: "PAGE_ALIGN_UP x = PAGE_ALIGN_DOWN (x + 4095)"
  by (simp add: PAGE_ALIGN_UP_def PAGE_ALIGN_DOWN_def)

lemma aligned_pages [simp]: "unat (PAGE_ALIGN_DOWN x) mod 4096 = 0" "unat (PAGE_ALIGN_UP x) mod 4096 = 0"
  by (simp_all add: unat_PAGE_ALIGN_DOWN PAGE_ALIGN_UP_down)

lemma aligned_boot_blocks [simp]:
  "aligned_block (entry_block e)" "aligned_block (kernel_block ki)" "aligned_block low_block" "aligned_block (initramfs_block ir)"
  by (simp_all add: entry_block_def kernel_block_def low_block_def initramfs_block_def aligned_block_def Block_def aligned_add Let_def)

abbreviation disjoint_blocks :: "block list \<Rightarrow> bool" where
  "disjoint_blocks \<equiv> sorted_wrt (\<lambda>x y. bytes x \<inter> bytes y = {})"

lemma parse_entries:
  assumes "\<forall>i<length es. read_memory_entry (bt_mem s) t (j + i) = es ! i" "boot_map k A (bt_physicalMemory s)"
    "k + length es \<le> BLOCKMAP_SIZE" "\<forall>b\<in>set (tag_blocks (MemoryItem es)). wf_block b \<and> bytes b \<inter> A = {}"
    "disjoint_blocks (tag_blocks (MemoryItem es))"
  shows "\<exists>pm. for_each (parse_memory_entry t) [j..<j + length es] s = Inr (s\<lparr>bt_physicalMemory := pm\<rparr>) \<and>
    boot_map (k + length es) (A \<union> \<Union> (bytes ` set (tag_blocks (MemoryItem es)))) pm"
  using assms
proof (induction es arbitrary: j k A s)
  case Nil
  then show ?case by (auto intro: exI [of _ "bt_physicalMemory s"])
next
  case (Cons e es)
  let ?b = "entry_block e"
  have e: "read_memory_entry (bt_mem s) t j = e" and
    es: "\<forall>i<length es. read_memory_entry (bt_mem s) t (Suc j + i) = es ! i"
    using Cons.prems(1) by (force dest: spec [of _ 0], auto dest: spec [of _ "Suc _"])
  have up: "[j..<j + length (e # es)] = j # [Suc j..<Suc j + length es]" by (simp add: upt_conv_Cons del: upt_Suc)
  have k: "k < BLOCKMAP_SIZE" "Suc k + length es \<le> BLOCKMAP_SIZE" using Cons.prems(3) by simp_all
  show ?case
  proof (cases "me_type e = 1")
    case True
    with Cons.prems(4) have b: "wf_block ?b" "bytes ?b \<inter> A = {}" by simp_all
    from boot_map_add [OF Cons.prems(2) k(1) b(1) _ b(2)] obtain pm where
      pm: "addBlock ?b (bt_irq s, bt_physicalMemory s) = Inr ((), bt_irq s, pm)" "boot_map (Suc k) (A \<union> bytes ?b) pm" by auto
    have "\<forall>b\<in>set (tag_blocks (MemoryItem es)). wf_block b \<and> bytes b \<inter> (A \<union> bytes ?b) = {}"
      using Cons.prems(4,5) True by auto
    with Cons.IH [of "s\<lparr>bt_physicalMemory := pm\<rparr>" "Suc j" "Suc k" "A \<union> bytes ?b"] es pm(2) k(2) Cons.prems(5) True
    obtain pm' where "for_each (parse_memory_entry t) [Suc j..<Suc j + length es] (s\<lparr>bt_physicalMemory := pm\<rparr>) =
        Inr (s\<lparr>bt_physicalMemory := pm'\<rparr>)"
      "boot_map (Suc k + length es) (A \<union> bytes ?b \<union> \<Union> (bytes ` set (tag_blocks (MemoryItem es)))) pm'" by auto
    moreover have "parse_memory_entry t j s = Inr (s\<lparr>bt_physicalMemory := pm\<rparr>)"
      using True pm(1) by (simp add: parse_memory_entry_def e Let_def on_physicalMemory_def)
    ultimately show ?thesis using True unfolding up for_each.simps by (auto simp: Un_assoc simp del: upt_Suc)
  next
    case False
    with Cons.IH [of s "Suc j" k A] es Cons.prems(2-5) obtain pm' where
      "for_each (parse_memory_entry t) [Suc j..<Suc j + length es] s = Inr (s\<lparr>bt_physicalMemory := pm'\<rparr>)"
      "boot_map (k + length es) (A \<union> \<Union> (bytes ` set (tag_blocks (MemoryItem es)))) pm'" by auto
    moreover have "parse_memory_entry t j s = Inr s" using False by (simp add: parse_memory_entry_def e Let_def)
    ultimately show ?thesis using False unfolding up for_each.simps by (auto simp del: upt_Suc intro!: exI [of _ pm'] elim: boot_map_mono)
  qed
qed

lemma on_physicalMemory_reserve:
  assumes "boot_map k A (bt_physicalMemory s)" "k + 2 \<le> BLOCKMAP_SIZE" "b_start r < b_end r" "aligned_block r"
  shows "\<exists>pm. on_physicalMemory (reserve r) s = Inr (s\<lparr>bt_physicalMemory := pm\<rparr>) \<and> boot_map (k + 2) (A - bytes r) pm"
  using boot_map_reserve [OF assms, of "bt_irq s"] by (auto simp: on_physicalMemory_def)

definition kernel_ok :: "kernel_image \<Rightarrow> bool" where
  "kernel_ok ki \<longleftrightarrow> b_start (kernel_block ki) < b_end (kernel_block ki)"

lemma low_block_simps [simp]: "b_start low_block < b_end low_block" "bytes low_block = {0..<0x100000}"
  by (simp_all add: low_block_def) (simp add: Block_def)

lemma memory_tag_count:
  assumes "read_bytes m t (length (encode_tag (MemoryItem es))) = encode_tag (MemoryItem es)" "tag_ok (MemoryItem es)"
  shows "mm_entrySize (read_MemoryMapTag m t) = 24" "unat (memory_map_count (read_MemoryMapTag m t)) = length es"
    "i < length es \<Longrightarrow> read_memory_entry m t i = es ! i"
proof -
  define n where "n = 16 + 24 * length es"
  have "8 + length (payload (MemoryItem es)) = n" by (simp add: n_def)
  then have r: "read_bytes m t (length (encode_tag (MemoryItem es))) = le_bytes 4 (unat MBI_TAG_MEMORY) @ le_bytes 4 n @ le_bytes 4 24 @
      le_bytes 4 0 @ concat (map encode_entry es) @ replicate (padding n) 0"
    using assms(1) by (simp add: encode_tag_def)
  have n: "n < 2 ^ 32" using assms(2) by (simp add: tag_ok_def n_def)
  then have u: "unat (of_nat n :: u32) = n" by (simp add: unat_of_nat_small)
  show es: "mm_entrySize (read_MemoryMapTag m t) = 24"
    using r read32_field [of m t _ "le_bytes 4 (unat MBI_TAG_MEMORY) @ le_bytes 4 n" 24 _ 8] by (simp add: read_MemoryMapTag_def)
  have "read32 m (t + 4) = of_nat n"
    using r u read32_field [of m t _ "le_bytes 4 (unat MBI_TAG_MEMORY)" "of_nat n" _ 4] by simp
  then have "(ucast (mt_size (read_MemoryMapTag m t)) :: u64) = of_nat n"
    by (simp add: read_MemoryMapTag_def ucast_eq_of_nat u)
  then have "(ucast (mt_size (read_MemoryMapTag m t)) :: u64) - sizeof_MemoryMapTag = of_nat (24 * length es)"
    by (simp add: sizeof_MemoryMapTag_def n_def)
  moreover have "unat (of_nat (24 * length es) :: u64) = 24 * length es"
    by (rule unat_of_nat_small) (use n in \<open>simp add: n_def\<close>)
  ultimately have "unat ((ucast (mt_size (read_MemoryMapTag m t)) :: u64) - sizeof_MemoryMapTag) = 24 * length es" by metis
  then show "unat (memory_map_count (read_MemoryMapTag m t)) = length es"
    using n by (simp add: memory_map_count_def es unat_div unsigned_ucast_eq unsigned_take_bit_eq take_bit_nat_eq_self n_def)
  show "i < length es \<Longrightarrow> read_memory_entry m t i = es ! i"
    using r read_entry [of m t _ "le_bytes 4 (unat MBI_TAG_MEMORY) @ le_bytes 4 n @ le_bytes 4 24 @ le_bytes 4 0" es] by simp
qed

lemma parseMemoryMapTag_ok:
  assumes "read_bytes (bt_mem s) t (length (encode_tag (MemoryItem es))) = encode_tag (MemoryItem es)" "tag_ok (MemoryItem es)"
    and "boot_map k A (bt_physicalMemory s)" "k + length es + 4 \<le> BLOCKMAP_SIZE" "kernel_ok ki"
    and "\<forall>b\<in>set (tag_blocks (MemoryItem es)). wf_block b \<and> bytes b \<inter> A = {}" "disjoint_blocks (tag_blocks (MemoryItem es))"
  shows "\<exists>pm. parseMemoryMapTag ki t s = Inr (s\<lparr>bt_physicalMemory := pm\<rparr>) \<and> boot_map (k + length es + 4)
    ((A \<union> \<Union> (bytes ` set (tag_blocks (MemoryItem es)))) - bytes (kernel_block ki) - bytes low_block) pm"
proof -
  note tag = memory_tag_count [OF assms(1,2)]
  have "\<forall>i<length es. read_memory_entry (bt_mem s) t (0 + i) = es ! i" using tag(3) by simp
  from parse_entries [OF this assms(3) _ assms(6,7)] assms(4) obtain p1 where
    p1: "for_each (parse_memory_entry t) [0..<length es] s = Inr (s\<lparr>bt_physicalMemory := p1\<rparr>)"
      "boot_map (k + length es) (A \<union> \<Union> (bytes ` set (tag_blocks (MemoryItem es)))) p1" by auto
  from on_physicalMemory_reserve [of _ _ "s\<lparr>bt_physicalMemory := p1\<rparr>" "kernel_block ki"] p1(2) assms(4,5) obtain p2 where
    p2: "on_physicalMemory (reserve (kernel_block ki)) (s\<lparr>bt_physicalMemory := p1\<rparr>) = Inr (s\<lparr>bt_physicalMemory := p2\<rparr>)"
      "boot_map (k + length es + 2) (A \<union> \<Union> (bytes ` set (tag_blocks (MemoryItem es))) - bytes (kernel_block ki)) p2"
    by (fastforce simp: kernel_ok_def)
  from on_physicalMemory_reserve [of _ _ "s\<lparr>bt_physicalMemory := p2\<rparr>" low_block] p2(2) assms(4) obtain p3 where
    "on_physicalMemory (reserve low_block) (s\<lparr>bt_physicalMemory := p2\<rparr>) = Inr (s\<lparr>bt_physicalMemory := p3\<rparr>)"
      "boot_map (k + length es + 2 + 2) (A \<union> \<Union> (bytes ` set (tag_blocks (MemoryItem es))) - bytes (kernel_block ki) - bytes low_block) p3"
    by fastforce
  with boot_map_mono [OF this(2), of "k + length es + 4"] show ?thesis
    using p1(1) p2(1) tag by (intro exI [of _ p3]) (simp add: parseMemoryMapTag_def Let_def)
qed

lemma rsdp_copied:
  assumes "read_bytes m (t + 8) n = bs" "apart ki t (8 + n)" "n \<le> 36" "unat n0 = n"
  shows "read_bytes (snd (memcpy (ki_rsdp ki) (t + 8) n0 m)) (ki_rsdp ki) 36 = bs @ drop n (read_bytes m (ki_rsdp ki) 36)"
    and "\<forall>a. \<not> within (ki_rsdp ki) 36 a \<longrightarrow> snd (memcpy (ki_rsdp ki) (t + 8) n0 m) a = m a"
proof -
  let ?p = "ki_rsdp ki"
  have out: "\<not> within ?p 36 a" if "within (t + 8) n a" for a
  proof -
    have "a = t + of_nat (8 + unat (a - (t + 8)))" by simp
    moreover have "8 + unat (a - (t + 8)) < 8 + n" using that by (simp add: within_def)
    ultimately show ?thesis using assms(2) unfolding apart_def by metis
  qed
  then have sep: "\<forall>a. within ?p (unat n0) a \<longrightarrow> \<not> within (t + 8) (unat n0) a"
    using assms(3,4) within_mono by blast
  have at: "within ?p n (?p + of_nat k) \<longleftrightarrow> k < n" if "k < 36" for k
    using that by (simp add: within_def unat_of_nat_small)
  show "read_bytes (snd (memcpy ?p (t + 8) n0 m)) ?p 36 = bs @ drop n (read_bytes m ?p 36)"
    using assms(1,3,4) at unfolding memcpy_eq [OF sep]
    by (auto simp: list_eq_iff_nth_eq nth_append)
  show "\<forall>a. \<not> within ?p 36 a \<longrightarrow> snd (memcpy ?p (t + 8) n0 m) a = m a"
    using assms(3,4) within_mono unfolding memcpy_eq [OF sep] by auto
qed

lemma payload_read:
  assumes "read_bytes m t (length (encode_tag i)) = encode_tag i"
  shows "read_bytes m (t + 8) (length (payload i)) = payload i"
  using read_bytes_field [of m t _ "le_bytes 4 (unat (tag_type i)) @ le_bytes 4 (8 + length (payload i))" "payload i" _ 8] assms
  by (simp add: encode_tag_def)

lemma parseMbiTag_ok:
  assumes "read_bytes (bt_mem s) t (length (encode_tag i)) = encode_tag i" "tag_ok i" "apart ki t (length (encode_tag i))"
    and "boots ki k b s" "k + tag_cost i \<le> BLOCKMAP_SIZE" "kernel_ok ki"
    and "\<forall>x\<in>set (tag_blocks i). wf_block x \<and> bytes x \<inter> bi_free b = {}" "disjoint_blocks (tag_blocks i)"
  shows "\<exists>s'. parseMbiTag ki (tag_type i) t s = Inr s' \<and> boots ki (k + tag_cost i) (absorb_tag ki i b) s' \<and> bt_irq s' = bt_irq s \<and>
    (\<forall>a. \<not> within (ki_rsdp ki) 36 a \<longrightarrow> bt_mem s' a = bt_mem s a)"
proof (cases i)
  case (ModuleItem x y cs)
  with payload_read [OF assms(1)] have r: "read_bytes (bt_mem s) (t + 8) (8 + length cs) = le_bytes 4 (unat x) @ le_bytes 4 (unat y) @ cs"
    by simp
  have "read32 (bt_mem s) (t + 8) = x" "read32 (bt_mem s) (t + 12) = y"
    using read32_field [of _ "t + 8" _ "[]" x, OF _ list.size(3)] r
      read32_field [of _ "t + 8" _ "le_bytes 4 (unat x)" y cs 4]
    by (simp_all add: add.assoc)
  with assms(4) show ?thesis
    by (simp add: ModuleItem parseMbiTag_def parseModuleTag_def read_ModuleTag_def boots_def tag_cost_def)
next
  case (MemoryItem es)
  with assms(4,5,7) have m: "boot_map k (bi_free b) (bt_physicalMemory s)" "k + length es + 4 \<le> BLOCKMAP_SIZE"
    by (simp_all add: boots_def tag_cost_def)
  from parseMemoryMapTag_ok [OF assms(1,2) [unfolded MemoryItem] m assms(6) assms(7,8) [unfolded MemoryItem]] assms(4) show ?thesis
    by (auto simp: MemoryItem parseMbiTag_def tag_numbers boots_def tag_cost_def add.assoc)
next
  case (FrameBufferItem x p w h d cs)
  let ?m = "bt_mem s"
  from FrameBufferItem payload_read [OF assms(1)] have r: "read_bytes ?m (t + 8) (21 + length cs) =
      le_bytes 8 (unat x) @ le_bytes 4 (unat p) @ le_bytes 4 (unat w) @ le_bytes 4 (unat h) @ d # cs" by simp
  have "read64 ?m (t + 8) = x" "read32 ?m (t + 16) = p" "read32 ?m (t + 20) = w" "read32 ?m (t + 24) = h" "?m (t + 28) = d"
    using r read64_field [of _ "t + 8" _ "[]" x, OF _ list.size(3)] read32_field [of _ "t + 8" _ "le_bytes 8 (unat x)" p _ 8]
      read32_field [of _ "t + 8" _ "le_bytes 8 (unat x) @ le_bytes 4 (unat p)" w _ 12]
      read32_field [of _ "t + 8" _ "le_bytes 8 (unat x) @ le_bytes 4 (unat p) @ le_bytes 4 (unat w)" h _ 16]
      read_byte_field [of _ "t + 8" _ "le_bytes 8 (unat x) @ le_bytes 4 (unat p) @ le_bytes 4 (unat w) @ le_bytes 4 (unat h)" d _ 20]
    by (simp_all add: add.assoc)
  with assms(4) show ?thesis
    by (simp add: FrameBufferItem parseMbiTag_def tag_numbers parseFrameBufferTag_def read_FrameBufferTag_def boots_def tag_cost_def)
next
  case (OldRsdpItem bs)
  with assms(2,3) have "apart ki t (8 + 20)" by (simp add: tag_ok_def length_encode_tag apart_def)
  from rsdp_copied [OF _ this, of _ bs sizeof_RsdpV1] OldRsdpItem payload_read [OF assms(1)] assms(2,4) show ?thesis
    by (simp add: parseMbiTag_def tag_numbers parseOldRsdpTag_def boots_def tag_cost_def sizeof_RsdpV1_def tag_ok_def)
next
  case (NewRsdpItem bs)
  with assms(2,3) have "apart ki t (8 + 36)" by (simp add: tag_ok_def length_encode_tag apart_def)
  from rsdp_copied [OF _ this, of _ bs sizeof_RsdpV2] NewRsdpItem payload_read [OF assms(1)] assms(2,4) show ?thesis
    by (simp add: parseMbiTag_def tag_numbers parseNewRsdpTag_def boots_def tag_cost_def sizeof_RsdpV2_def tag_ok_def)
next
  case (OtherItem n bs)
  with assms(2,4) show ?thesis by (simp add: parseMbiTag_def tag_numbers boots_def tag_cost_def tag_ok_def)
qed

lemma absorb_free: "bi_free (absorb_tag ki i b) \<subseteq> bi_free b \<union> \<Union> (bytes ` set (tag_blocks i))"
  by (cases i) auto

definition encode_mbi :: "mbi_item list \<Rightarrow> u8 list" where
  "encode_mbi is = concat (map encode_tag is) @ end_tag"

lemma parse_tags_ok:
  assumes "read_bytes (bt_mem s) t (length (encode_mbi is)) = encode_mbi is" "\<forall>i\<in>set is. tag_ok i" "apart ki t (length (encode_mbi is))"
    and "boots ki k b s" "k + sum_list (map tag_cost is) \<le> BLOCKMAP_SIZE" "kernel_ok ki"
    and "\<forall>x\<in>set (concat (map tag_blocks is)). wf_block x \<and> bytes x \<inter> bi_free b = {}" "disjoint_blocks (concat (map tag_blocks is))"
    and "length is < fuel"
  shows "\<exists>s'. parse_tags fuel ki t s = Inr s' \<and> boots ki (k + sum_list (map tag_cost is)) (fold (absorb_tag ki) is b) s' \<and> bt_irq s' = bt_irq s"
  using assms
proof (induction "is" arbitrary: fuel t k b s)
  case Nil
  then obtain f where f: "fuel = Suc f" by (cases fuel) simp_all
  have "read32 (bt_mem s) t = 0"
    using Nil.prems(1) read32_field [of "bt_mem s" t _ "[]" 0, OF _ list.size(3)] by (simp add: encode_mbi_def end_tag_def)
  with Nil.prems(4) show ?case by (simp add: f read_MbiTag_def)
next
  case (Cons i "is")
  then obtain f where f: "fuel = Suc f" "length is < f" by (cases fuel) simp_all
  let ?n = "length (encode_tag i)"
  let ?t = "t + of_nat ?n"
  have split: "encode_mbi (i # is) = encode_tag i @ encode_mbi is" by (simp add: encode_mbi_def)
  have r: "read_bytes (bt_mem s) t ?n = encode_tag i" "read_bytes (bt_mem s) ?t (length (encode_mbi is)) = encode_mbi is"
    using Cons.prems(1) by (simp_all add: split read_bytes_append)
  have ap: "apart ki t ?n" "apart ki ?t (length (encode_mbi is))" using Cons.prems(3) by (simp_all add: split apart_split)
  have ok: "tag_ok i" "\<forall>i\<in>set is. tag_ok i" using Cons.prems(2) by simp_all
  from parseMbiTag_ok [OF r(1) ok(1) ap(1) Cons.prems(4) _ Cons.prems(6)] Cons.prems(5,7,8) obtain s1 where
    s1: "parseMbiTag ki (tag_type i) t s = Inr s1" "boots ki (k + tag_cost i) (absorb_tag ki i b) s1" "bt_irq s1 = bt_irq s"
      and same: "\<forall>a. \<not> within (ki_rsdp ki) 36 a \<longrightarrow> bt_mem s1 a = bt_mem s a"
    by (auto simp: sorted_wrt_append)
  have r1: "read_bytes (bt_mem s1) t ?n = encode_tag i" "read_bytes (bt_mem s1) ?t (length (encode_mbi is)) = encode_mbi is"
    using r read_bytes_apart [OF ap(1) same] read_bytes_apart [OF ap(2) same] by simp_all
  have step: "parse_tags fuel ki t s = parse_tags f ki ?t s1"
    using tag_header [OF r(1) ok(1)] tag_header(2) [OF r1(1) ok(1)] tag_type_nonzero [OF ok(1)] s1(1) by (simp add: f(1))
  have free: "\<forall>x\<in>set (concat (map tag_blocks is)). wf_block x \<and> bytes x \<inter> bi_free (absorb_tag ki i b) = {}"
    using Cons.prems(7,8) absorb_free [of ki i b] by (auto simp: sorted_wrt_append) blast
  have rest: "k + tag_cost i + sum_list (map tag_cost is) \<le> BLOCKMAP_SIZE" "disjoint_blocks (concat (map tag_blocks is))"
    using Cons.prems(5,8) by (simp_all add: sorted_wrt_append)
  show ?case
    using Cons.IH [OF r1(2) ok(2) ap(2) s1(2) rest(1) Cons.prems(6) free rest(2) f(2)] s1(3) unfolding step by (simp add: add.assoc)
qed

section \<open>The memory the kernel starts with\<close>

fun tag_entries :: "mbi_item \<Rightarrow> memory_entry list" where
  "tag_entries (MemoryItem es) = filter (\<lambda>e. me_type e = 1) es"
| "tag_entries _ = []"

definition usable :: "mbi_item list \<Rightarrow> memory_entry list" where
  "usable is = concat (map tag_entries is)"

text \<open>The whole pages of an entry that starts on a page boundary.\<close>

definition entry_pages :: "memory_entry \<Rightarrow> nat set" where
  "entry_pages e = {unat (me_base e)..<unat (me_base e) + unat (me_length e) div 4096 * 4096}"

definition entry_ok :: "memory_entry \<Rightarrow> bool" where
  "entry_ok e \<longleftrightarrow> page_aligned (me_base e) \<and> unat (me_base e) + unat (me_length e) \<le> 2 ^ 52"

lemma usable_blocks: "concat (map tag_blocks is) = map entry_block (usable is)"
proof -
  have "tag_blocks i = map entry_block (tag_entries i)" for i by (cases i) simp_all
  then show ?thesis by (simp add: usable_def map_concat comp_def cong: map_cong)
qed

lemma entry_block_pages:
  assumes "entry_ok e"
  shows "bytes (entry_block e) = entry_pages e" "wf_block (entry_block e)"
proof -
  have a: "unat (me_base e) mod 4096 = 0" "unat (me_base e) + unat (me_length e) \<le> 2 ^ 52"
    using assms by (simp_all add: entry_ok_def page_aligned_def)
  have "(unat (me_base e) + 4095) div 4096 * 4096 = unat (me_base e)" using a(1) by auto
  then have up: "PAGE_ALIGN_UP (me_base e) = me_base e"
    using a(2) by (simp add: word_unat_eq_iff unat_PAGE_ALIGN_UP)
  have le: "unat (me_length e) div 4096 * 4096 \<le> unat (me_length e)" by simp
  then have "unat (me_base e + PAGE_ALIGN_DOWN (me_length e)) = unat (me_base e) + unat (me_length e) div 4096 * 4096"
    using a(2) unat_add_u64 [of "me_base e" "PAGE_ALIGN_DOWN (me_length e)"] by (simp add: unat_PAGE_ALIGN_DOWN)
  then show "bytes (entry_block e) = entry_pages e" "wf_block (entry_block e)"
    by (simp_all add: entry_block_def up entry_pages_def Let_def word_le_nat_alt)
qed

lemma fold_absorb_free:
  assumes "bi_free b \<inter> (bytes (kernel_block ki) \<union> bytes low_block) = {}"
  shows "bi_free (fold (absorb_tag ki) is b) =
    (bi_free b \<union> \<Union> (bytes ` set (concat (map tag_blocks is)))) - bytes (kernel_block ki) - bytes low_block"
  using assms
proof (induction "is" arbitrary: b)
  case (Cons i "is")
  have i: "bi_free (absorb_tag ki i b) = (bi_free b \<union> \<Union> (bytes ` set (tag_blocks i))) - bytes (kernel_block ki) - bytes low_block"
    using Cons.prems by (cases i) auto
  then have "bi_free (absorb_tag ki i b) \<inter> (bytes (kernel_block ki) \<union> bytes low_block) = {}" by blast
  from Cons.IH [OF this] show ?case unfolding i by auto
qed auto

lemma fold_absorb_initramfs:
  assumes "unat (ir_pointer (bi_initramfs b)) < 2 ^ 32" "unat (ir_size (bi_initramfs b)) < 2 ^ 32"
  shows "unat (ir_pointer (bi_initramfs (fold (absorb_tag ki) is b))) < 2 ^ 32 \<and> unat (ir_size (bi_initramfs (fold (absorb_tag ki) is b))) < 2 ^ 32"
  using assms
proof (induction "is" arbitrary: b)
  case (Cons i "is")
  have "unat (ucast (x :: u32) :: u64) < 2 ^ 32" for x
    using take_bit_nat_less_eq_self [of 64 "unat x"] unsigned_less [of x, where 'a = nat] by (simp add: unsigned_ucast_eq)
  with Cons.prems have "unat (ir_pointer (bi_initramfs (absorb_tag ki i b))) < 2 ^ 32" "unat (ir_size (bi_initramfs (absorb_tag ki i b))) < 2 ^ 32"
    by (cases i; simp)+
  from Cons.IH [OF this] show ?case by simp
qed simp

lemma page_range:
  assumes "p < q" "unat q + 4095 < 2 ^ 64"
  shows "PAGE_ALIGN_DOWN p < PAGE_ALIGN_UP q"
proof -
  have "unat p div 4096 * 4096 \<le> unat p" "unat q \<le> (unat q + 4095) div 4096 * 4096" "unat p < unat q"
    using assms(1) by (simp_all add: word_less_nat_alt)
  then show ?thesis using unat_PAGE_ALIGN_UP [OF assms(2)] by (simp add: word_less_nat_alt unat_PAGE_ALIGN_DOWN)
qed

lemma initramfs_block_ok:
  assumes "unat (ir_pointer ir) < 2 ^ 32" "unat (ir_size ir) < 2 ^ 32" "0 < ir_size ir"
  shows "b_start (initramfs_block ir) < b_end (initramfs_block ir)"
proof -
  have "unat (ir_pointer ir + ir_size ir) = unat (ir_pointer ir) + unat (ir_size ir)"
    using assms(1,2) by (simp add: unat_word_ariths)
  with assms page_range [of "ir_pointer ir" "ir_pointer ir + ir_size ir"] show ?thesis
    by (simp add: initramfs_block_def Block_def word_less_nat_alt)
qed

text \<open>The information blocks that the parser is given, and what they say.\<close>

definition boot_info_ok :: "nat \<Rightarrow> kernel_image \<Rightarrow> u64 \<Rightarrow> mbi_item list \<Rightarrow> boot_state \<Rightarrow> bool" where
  "boot_info_ok fuel ki mbi is s \<longleftrightarrow>
     read_bytes (bt_mem s) (mbi + 8) (length (encode_mbi is)) = encode_mbi is \<and> (\<forall>i\<in>set is. tag_ok i) \<and>
     apart ki (mbi + 8) (length (encode_mbi is)) \<and> length is < fuel \<and>
     ki_physicalAddress ki < ki_physicalEnd ki \<and> unat (ki_physicalEnd ki) + 4095 < 2 ^ 64 \<and>
     bt_physicalMemory s = blockmap_init \<and> bt_initramfs s = \<lparr>ir_pointer = nullptr, ir_size = 0\<rparr> \<and>
     (\<forall>e\<in>set (usable is). entry_ok e) \<and> sorted_wrt (\<lambda>x y. entry_pages x \<inter> entry_pages y = {}) (usable is) \<and>
     sum_list (map tag_cost is) + 2 \<le> BLOCKMAP_SIZE"

definition summary :: "kernel_image \<Rightarrow> mbi_item list \<Rightarrow> boot_state \<Rightarrow> boot_info" where
  "summary ki is s = fold (absorb_tag ki) is \<lparr>bi_initramfs = bt_initramfs s, bi_frameBuffer = bt_frameBuffer s,
      bi_rsdp = read_bytes (bt_mem s) (ki_rsdp ki) 36, bi_free = {}\<rparr>"

lemma parseMbi_ok:
  fixes fuel ki mbi "is" s
  assumes "boot_info_ok fuel ki mbi is s"
  defines "b \<equiv> summary ki is s"
  shows "\<exists>s'. parseMbi fuel ki mbi s = Inr s' \<and> bt_initramfs s' = bi_initramfs b \<and> bt_frameBuffer s' = bi_frameBuffer b \<and>
    read_bytes (bt_mem s') (ki_rsdp ki) 36 = bi_rsdp b \<and> frames_ok (bt_physicalMemory s') \<and>
    free_set (bt_physicalMemory s') = \<Union> (entry_pages ` set (usable is)) - bytes (kernel_block ki) - {0..<0x100000} -
      (if ir_size (bi_initramfs b) = 0 then {} else bytes (initramfs_block (bi_initramfs b)))"
proof -
  have a: "read_bytes (bt_mem s) (mbi + 8) (length (encode_mbi is)) = encode_mbi is" "\<forall>i\<in>set is. tag_ok i"
    "apart ki (mbi + 8) (length (encode_mbi is))" "length is < fuel"
    "ki_physicalAddress ki < ki_physicalEnd ki" "unat (ki_physicalEnd ki) + 4095 < 2 ^ 64"
    "bt_physicalMemory s = blockmap_init" "bt_initramfs s = \<lparr>ir_pointer = nullptr, ir_size = 0\<rparr>"
    "\<forall>e\<in>set (usable is). entry_ok e" "sorted_wrt (\<lambda>x y. entry_pages x \<inter> entry_pages y = {}) (usable is)"
    "sum_list (map tag_cost is) + 2 \<le> BLOCKMAP_SIZE"
    using assms(1) by (simp_all add: boot_info_ok_def)
  let ?b0 = "\<lparr>bi_initramfs = bt_initramfs s, bi_frameBuffer = bt_frameBuffer s,
      bi_rsdp = read_bytes (bt_mem s) (ki_rsdp ki) 36, bi_free = {}\<rparr>"
  let ?A = "\<Union> (entry_pages ` set (usable is)) - bytes (kernel_block ki) - {0..<0x100000}"
  have kernel: "kernel_ok ki" using page_range [OF a(5,6)] by (simp add: kernel_ok_def kernel_block_def Block_def)
  have start: "boots ki 0 ?b0 s" using a(7) boot_map_init by (simp add: boots_def)
  have pages: "bytes (entry_block e) = entry_pages e" "wf_block (entry_block e)" if "e \<in> set (usable is)" for e
    using entry_block_pages [of e] a(9) that by simp_all
  have wf: "\<forall>x\<in>set (concat (map tag_blocks is)). wf_block x \<and> bytes x \<inter> bi_free ?b0 = {}"
    using pages by (auto simp: usable_blocks)
  have "disjoint_blocks (concat (map tag_blocks is))"
    unfolding usable_blocks sorted_wrt_map
    by (rule sorted_wrt_mono_rel [OF _ a(10)]) (simp add: pages)
  from parse_tags_ok [OF a(1-3) start _ kernel wf this a(4)] a(11) obtain s1 where
    s1: "parse_tags fuel ki (mbi + 8) s = Inr s1" "boots ki (sum_list (map tag_cost is)) b s1" "bt_irq s1 = bt_irq s"
    by (auto simp: b_def summary_def)
  have "bi_free b = ?A" using fold_absorb_free [of ?b0 ki "is"] pages by (simp add: b_def summary_def usable_blocks image_image)
  with s1(2) have m1: "boot_map (sum_list (map tag_cost is)) ?A (bt_physicalMemory s1)" by (simp add: boots_def)
  have ir: "unat (ir_pointer (bi_initramfs b)) < 2 ^ 32" "unat (ir_size (bi_initramfs b)) < 2 ^ 32"
    using fold_absorb_initramfs [of ?b0 ki "is"] a(8) by (simp_all add: b_def summary_def)
  have sub: "frames_ok m" if "boot_map k A m" "A \<subseteq> ?A" for k A m
    using that a(9) by (force simp: frames_ok_def boot_map_def entry_ok_def entry_pages_def)
  show ?thesis
  proof (cases "ir_size (bi_initramfs b) = 0")
    case True
    with s1 m1 sub [OF m1] show ?thesis by (simp add: parseMbi_def boots_def boot_map_def)
  next
    case False
    then have pos: "0 < ir_size (bi_initramfs b)" by (simp add: word_neq_0_conv [symmetric])
    from on_physicalMemory_reserve [OF m1 _ initramfs_block_ok [OF ir pos]] a(11) obtain pm where
      pm: "on_physicalMemory (reserve (initramfs_block (bi_initramfs b))) s1 = Inr (s1\<lparr>bt_physicalMemory := pm\<rparr>)"
        "boot_map (sum_list (map tag_cost is) + 2) (?A - bytes (initramfs_block (bi_initramfs b))) pm" by auto
    from pm s1 False pos sub [OF pm(2)] show ?thesis by (simp add: parseMbi_def boots_def boot_map_def Diff_subset)
  qed
qed

section \<open>Properties\<close>

text \<open>
  (C34) Start of the physical memory: on every information block that encodes a list of tags, in any order, whose usable
  memory entries start on page boundaries, are disjoint and lie below 2^52, with room for their blocks, the parser returns
  (with fuel for one more than the tags), the globals are what the tags say, the last of each kind winning, and the
  physical memory map satisfies the invariant that the frame allocator and the page tables rely on: its free bytes are exactly
  the whole pages of the usable entries without the kernel's pages, the first megabyte and the pages of the RAM disk.
\<close>

theorem parseMbi_correct:
  assumes "read_bytes (bt_mem s) (mbi + 8) (length (encode_mbi is)) = encode_mbi is" "\<forall>i\<in>set is. tag_ok i"
    and "apart ki (mbi + 8) (length (encode_mbi is))" "length is < fuel"
    and "ki_physicalAddress ki < ki_physicalEnd ki" "unat (ki_physicalEnd ki) + 4095 < 2 ^ 64"
    and "bt_physicalMemory s = blockmap_init" "bt_initramfs s = \<lparr>ir_pointer = nullptr, ir_size = 0\<rparr>"
    and "\<forall>e\<in>set (usable is). entry_ok e" "sorted_wrt (\<lambda>x y. entry_pages x \<inter> entry_pages y = {}) (usable is)"
    and "sum_list (map tag_cost is) + 2 \<le> BLOCKMAP_SIZE"
  defines "b \<equiv> fold (absorb_tag ki) is \<lparr>bi_initramfs = bt_initramfs s, bi_frameBuffer = bt_frameBuffer s,
      bi_rsdp = read_bytes (bt_mem s) (ki_rsdp ki) 36, bi_free = {}\<rparr>"
  shows "\<exists>s'. parseMbi fuel ki mbi s = Inr s' \<and> bt_initramfs s' = bi_initramfs b \<and> bt_frameBuffer s' = bi_frameBuffer b \<and>
    read_bytes (bt_mem s') (ki_rsdp ki) 36 = bi_rsdp b \<and> frames_ok (bt_physicalMemory s') \<and>
    free_set (bt_physicalMemory s') = \<Union> (entry_pages ` set (usable is)) - bytes (kernel_block ki) - {0..<0x100000} -
      (if ir_size (bi_initramfs b) = 0 then {} else bytes (initramfs_block (bi_initramfs b)))"
  unfolding b_def summary_def [symmetric] by (rule parseMbi_ok) (use assms in \<open>simp add: boot_info_ok_def\<close>)

text \<open>A block with two memory entries, a module, a frame buffer, an old root pointer and a tag the kernel does not know.\<close>

definition stored :: "u64 \<Rightarrow> u8 list \<Rightarrow> byte_mem" where
  "stored p bs a = (if unat (a - p) < length bs then bs ! unat (a - p) else 0)"

lemma read_stored: "length bs < 2 ^ 64 \<Longrightarrow> read_bytes (stored p bs) p (length bs) = bs"
  by (simp add: list_eq_iff_nth_eq stored_def unat_of_nat_small)

lemma apartI:
  assumes "unat t + n \<le> unat (ki_rsdp ki)" "unat (ki_rsdp ki) + 36 < 2 ^ 64"
  shows "apart ki t n"
  unfolding apart_def
proof (intro allI impI)
  fix k assume k: "k < n"
  with assms have "k < 2 ^ 64" using unat_u64_bound [of "ki_rsdp ki"] by linarith
  with k have "within t n (t + of_nat k)" by (simp add: within_def unat_of_nat_small)
  then show "\<not> within (ki_rsdp ki) 36 (t + of_nat k)" using within_apart [OF assms] by blast
qed

definition sample_tags :: "mbi_item list" where
  "sample_tags = [OtherItem 1 [0x61, 0], ModuleItem 0x400000 0x401800 [0x72, 0], FrameBufferItem 0xE0000000 80 20 32 32 [1, 0],
     MemoryItem [\<lparr>me_base = 0, me_length = 0x9FC00, me_type = 1\<rparr>, \<lparr>me_base = 0x9FC00, me_length = 0x400, me_type = 2\<rparr>,
                 \<lparr>me_base = 0x100000, me_length = 0x3F00800, me_type = 1\<rparr>], OldRsdpItem (replicate 20 0x52)]"

definition sample_image :: kernel_image where
  "sample_image = \<lparr>ki_physicalAddress = 0x200000, ki_physicalEnd = 0x2A0010, ki_rsdp = 0x290000\<rparr>"

definition sample_boot :: boot_state where
  "sample_boot = \<lparr>bt_mem = stored 0x1008 (encode_mbi sample_tags), bt_irq = False, bt_physicalMemory = blockmap_init,
     bt_initramfs = \<lparr>ir_pointer = nullptr, ir_size = 0\<rparr>,
     bt_frameBuffer = \<lparr>fb_pointer = 0, fb_width = 0, fb_height = 0, fb_pitch = 0, fb_depth = 0\<rparr>\<rparr>"

lemma length_sample: "length (encode_mbi sample_tags) = 200"
  by (simp add: encode_mbi_def sample_tags_def length_encode_tag end_tag_def)

lemma sample_tags_usable:
  "usable sample_tags = [\<lparr>me_base = 0, me_length = 0x9FC00, me_type = 1\<rparr>, \<lparr>me_base = 0x100000, me_length = 0x3F00800, me_type = 1\<rparr>]"
  by (simp add: usable_def sample_tags_def)

lemma sample_tags_summary:
  "bi_initramfs (fold (absorb_tag sample_image) sample_tags b) = \<lparr>ir_pointer = 0x400000, ir_size = 0x1800\<rparr>"
  "fb_width (bi_frameBuffer (fold (absorb_tag sample_image) sample_tags b)) = 20"
  by (simp_all add: sample_tags_def)

lemma sample_blocks:
  "bytes (initramfs_block \<lparr>ir_pointer = 0x400000, ir_size = 0x1800\<rparr>) = {0x400000..<0x402000}"
  "bytes (kernel_block sample_image) = {0x200000..<0x2A1000}"
  by (simp_all add: sample_image_def initramfs_block_def kernel_block_def PAGE_ALIGN_UP_def PAGE_ALIGN_DOWN_def)

lemma sample_info_ok: "boot_info_ok 6 sample_image 0x1000 sample_tags sample_boot"
proof -
  have 1: "read_bytes (bt_mem sample_boot) (0x1000 + 8) (length (encode_mbi sample_tags)) = encode_mbi sample_tags"
    using read_stored [of "encode_mbi sample_tags" "0x1008"] by (simp add: sample_boot_def length_sample)
  have 2: "\<forall>i\<in>set sample_tags. tag_ok i" by (simp add: sample_tags_def tag_ok_def)
  have 3: "apart sample_image (0x1000 + 8) (length (encode_mbi sample_tags))"
    by (rule apartI) (simp_all add: sample_image_def length_sample)
  have 4: "\<forall>e\<in>set (usable sample_tags). entry_ok e" by (simp add: sample_tags_usable entry_ok_def page_aligned_def)
  have 5: "sorted_wrt (\<lambda>x y. entry_pages x \<inter> entry_pages y = {}) (usable sample_tags)" by (simp add: sample_tags_usable entry_pages_def)
  have 6: "length sample_tags < 6" "sum_list (map tag_cost sample_tags) + 2 \<le> BLOCKMAP_SIZE"
    by (simp_all add: sample_tags_def tag_cost_def BLOCKMAP_SIZE_def)
  have 7: "ki_physicalAddress sample_image < ki_physicalEnd sample_image" "unat (ki_physicalEnd sample_image) + 4095 < 2 ^ 64"
    by (simp_all add: sample_image_def)
  have 8: "bt_physicalMemory sample_boot = blockmap_init" "bt_initramfs sample_boot = \<lparr>ir_pointer = nullptr, ir_size = 0\<rparr>"
    by (simp_all add: sample_boot_def)
  show ?thesis unfolding boot_info_ok_def by (intro conjI 1 2 3 4 5 6 7 8)
qed

theorem parseMbi_correct_witness:
  "\<exists>s'. parseMbi 6 sample_image 0x1000 sample_boot = Inr s' \<and> bt_initramfs s' = \<lparr>ir_pointer = 0x400000, ir_size = 0x1800\<rparr> \<and>
     fb_width (bt_frameBuffer s') = 20 \<and> frames_ok (bt_physicalMemory s') \<and> free_set (bt_physicalMemory s') =
       {0..<0x9F000} \<union> {0x100000..<0x4000000} - {0x200000..<0x2A1000} - {0..<0x100000} - {0x400000..<0x402000}"
proof -
  note i = sample_info_ok [unfolded boot_info_ok_def]
  have "read_bytes (bt_mem sample_boot) (0x1000 + 8) (length (encode_mbi sample_tags)) = encode_mbi sample_tags" using i by blast
  from parseMbi_correct [OF this, of sample_image 6] i show ?thesis
    unfolding sample_blocks sample_tags_summary by (auto simp: sample_tags_usable entry_pages_def sample_blocks sample_tags_summary)
qed

text \<open>
  An entry that does not start on a page boundary: its base is rounded up and its length down separately, so that the block can end past
  the entry, here 2 KiB past it.
\<close>

lemma unaligned_entry_overruns:
  "let e = \<lparr>me_base = 0x1800, me_length = 0x1000, me_type = 1\<rparr>
   in bytes (entry_block e) = {0x2000..<0x3000} \<and> unat (me_base e) + unat (me_length e) = 0x2800"
  by (simp add: entry_block_def PAGE_ALIGN_UP_def PAGE_ALIGN_DOWN_def)

text \<open>A tag of size 0, or of a size within 6 of 2^32, is its own successor: the loop never ends.\<close>

lemma next_tag_self: "mt_size (read_MbiTag m t) = 0 \<or> mt_size (read_MbiTag m t) \<ge> 0xFFFFFFF9 \<Longrightarrow> next_tag m t = t"
proof -
  assume a: "mt_size (read_MbiTag m t) = 0 \<or> mt_size (read_MbiTag m t) \<ge> 0xFFFFFFF9"
  have "unat (mt_size (read_MbiTag m t) + 7) < 8"
    using a unsigned_less [of "mt_size (read_MbiTag m t)", where 'a = nat]
    by (auto simp: unat_word_ariths word_le_nat_alt mod_if)
  then have "(mt_size (read_MbiTag m t) + 7) div 8 = 0" by (simp add: word_unat_eq_iff unat_div)
  then show ?thesis by (simp add: next_tag_def)
qed

lemma stuck_tag_diverges:
  assumes "mt_type (read_MbiTag (bt_mem s) t) \<notin> {0, 3, 6, 8, 14, 15}" "next_tag (bt_mem s) t = t"
  shows "parse_tags fuel ki t s = Inl Diverges"
  using assms by (induction fuel) (simp_all add: parseMbiTag_def tag_numbers)

lemma parse_tags_fuel: "parse_tags n ki t s = Inr s' \<Longrightarrow> n \<le> k \<Longrightarrow> parse_tags k ki t s = Inr s'"
proof (induction n arbitrary: k t s)
  case (Suc n)
  then obtain k' where "k = Suc k'" "n \<le> k'" by (cases k) simp_all
  with Suc show ?case by (auto simp: Let_def split: if_splits)
qed simp

end
