(* ===== verification/Device_Tree.thy ===== *)
theory Device_Tree
  imports Kernel_Prelude
begin

text \<open>
  The device tree (\<^verbatim>\<open>drivers/tree.h\<close>, \<^verbatim>\<open>drivers/tree.cpp\<close>). Devices are objects in a heap, with the list of their children
  threaded through them. Loading a device appends its children one by one, starts a thread for each that loads it, waits for the
  completions of all of them and then signals its own. What the threads of several devices do interleaves, so that loading
  is a step relation whose steps are appending a child, ending \<^verbatim>\<open>load\<close>, passing a completion that was signalled, and
  signalling; the virtual method \<^verbatim>\<open>load\<close> is the list of devices it appends.
\<close>

section \<open>Devices\<close>

datatype DeviceType = ACPI | PCIE | XHCI

record device_node =
  dn_type :: DeviceType
  dn_completed :: bool
  dn_firstChild :: "nat option"
  dn_lastChild :: "nat option"
  dn_next :: "nat option"

type_synonym dev_heap = "nat \<rightharpoonup> device_node"

definition DeviceTree :: "DeviceType \<Rightarrow> device_node" where
  "DeviceTree type = \<lparr>dn_type = type, dn_completed = False, dn_firstChild = None, dn_lastChild = None, dn_next = None\<rparr>"

text \<open>An access through a pointer to an object that was deleted.\<close>

definition deref :: "dev_heap \<Rightarrow> nat \<Rightarrow> device_node result" where
  "deref h p = (case h p of None \<Rightarrow> Inl UseAfterFree | Some n \<Rightarrow> Inr n)"

definition deref_pointer :: "nat option \<Rightarrow> nat result" where
  "deref_pointer p = (case p of None \<Rightarrow> Inl NullDereference | Some q \<Rightarrow> Inr q)"

text \<open>The increment of an iterator over the children: the successor is read from the object.\<close>

definition dev_next :: "dev_heap \<Rightarrow> nat option \<Rightarrow> nat option result" where
  "dev_next h it = rbind (deref_pointer it) (\<lambda>p. rbind (deref h p) (\<lambda>n. Inr (dn_next n)))"

definition device_getType :: "dev_heap \<Rightarrow> nat \<Rightarrow> DeviceType result" where
  "device_getType h self = rbind (deref h self) (\<lambda>n. Inr (dn_type n))"

text \<open>The part of \<^verbatim>\<open>appendAndLoad\<close> before the thread is created.\<close>

definition append_child :: "nat \<Rightarrow> nat \<Rightarrow> dev_heap \<Rightarrow> dev_heap result" where
  "append_child self child h =
     rbind (deref h self) (\<lambda>n.
       if dn_firstChild n = None then Inr (h(self \<mapsto> n\<lparr>dn_firstChild := Some child, dn_lastChild := Some child\<rparr>))
       else rbind (deref_pointer (dn_lastChild n)) (\<lambda>l.
            rbind (deref h l) (\<lambda>ln.
            let h1 = h(l \<mapsto> ln\<lparr>dn_next := Some child\<rparr>)
            in rbind (deref h1 self) (\<lambda>n1. Inr (h1(self \<mapsto> n1\<lparr>dn_lastChild := Some child\<rparr>))))))"

text \<open>
  The destructor. The loop over the children deletes a child and then reads the pointer to the next one from it.
  The depth of the tree is fuel.
\<close>

fun destroy :: "nat \<Rightarrow> nat \<Rightarrow> dev_heap \<Rightarrow> dev_heap result"
and destroy_children :: "nat \<Rightarrow> nat option \<Rightarrow> dev_heap \<Rightarrow> dev_heap result" where
  "destroy 0 self h = Inl Diverges"
| "destroy (Suc fuel) self h =
     rbind (deref h self) (\<lambda>n. rbind (destroy_children fuel (dn_firstChild n) h) (\<lambda>h1. Inr (h1(self := None))))"
| "destroy_children fuel None h = Inr h"
| "destroy_children 0 (Some child) h = Inl Diverges"
| "destroy_children (Suc fuel) (Some child) h =
     rbind (destroy fuel child h) (\<lambda>h1. rbind (dev_next h1 (Some child)) (\<lambda>it. destroy_children fuel it h1))"

section \<open>Loading\<close>

datatype dev_pc =
    NotStarted
  | Loading "nat list"
  | Awaiting "nat option"
  | Finished

record dev_sys =
  sy_heap :: dev_heap
  sy_pc :: "nat \<Rightarrow> dev_pc"

text \<open>
  \<open>plan n\<close> are the devices that the \<^verbatim>\<open>load\<close> of device \<open>n\<close> appends, in order, and \<open>kind n\<close> the type given to the constructor of
  \<open>n\<close>. The last argument is the device whose thread makes the step.
\<close>

inductive dev_step :: "(nat \<Rightarrow> nat list) \<Rightarrow> (nat \<Rightarrow> DeviceType) \<Rightarrow> dev_sys \<Rightarrow> dev_sys \<Rightarrow> nat \<Rightarrow> bool"
  for plan :: "nat \<Rightarrow> nat list" and kind :: "nat \<Rightarrow> DeviceType" where
  appendAndLoad: "sy_pc s n = Loading (c # cs) \<Longrightarrow> append_child n c ((sy_heap s)(c \<mapsto> DeviceTree (kind c))) = Inr h \<Longrightarrow>
     dev_step plan kind s \<lparr>sy_heap = h, sy_pc = (sy_pc s)(n := Loading cs, c := Loading (plan c))\<rparr> n"
| load_returns: "sy_pc s n = Loading [] \<Longrightarrow> sy_heap s n = Some d \<Longrightarrow>
     dev_step plan kind s (s\<lparr>sy_pc := (sy_pc s)(n := Awaiting (dn_firstChild d))\<rparr>) n"
| await_child: "sy_pc s n = Awaiting (Some c) \<Longrightarrow> sy_heap s c = Some d \<Longrightarrow> dn_completed d \<Longrightarrow> dev_next (sy_heap s) (Some c) = Inr q \<Longrightarrow>
     dev_step plan kind s (s\<lparr>sy_pc := (sy_pc s)(n := Awaiting q)\<rparr>) n"
| signal: "sy_pc s n = Awaiting None \<Longrightarrow> sy_heap s n = Some d \<Longrightarrow>
     dev_step plan kind s \<lparr>sy_heap = (sy_heap s)(n \<mapsto> d\<lparr>dn_completed := True\<rparr>), sy_pc = (sy_pc s)(n := Finished)\<rparr> n"

inductive_cases dev_stepE: "dev_step plan kind s s' n"

text \<open>\<^verbatim>\<open>setRootDevice\<close> and the call of \<^verbatim>\<open>loadAndWait\<close> in \<^verbatim>\<open>loadRootDevice\<close>.\<close>

definition loadRootDevice :: "(nat \<Rightarrow> nat list) \<Rightarrow> (nat \<Rightarrow> DeviceType) \<Rightarrow> nat \<Rightarrow> dev_sys" where
  "loadRootDevice plan kind root =
     \<lparr>sy_heap = [root \<mapsto> DeviceTree (kind root)], sy_pc = (\<lambda>_. NotStarted)(root := Loading (plan root))\<rparr>"

inductive dev_reach :: "(nat \<Rightarrow> nat list) \<Rightarrow> (nat \<Rightarrow> DeviceType) \<Rightarrow> nat \<Rightarrow> nat \<Rightarrow> dev_sys \<Rightarrow> bool"
  for plan :: "nat \<Rightarrow> nat list" and kind :: "nat \<Rightarrow> DeviceType" and root :: nat where
  start: "dev_reach plan kind root 0 (loadRootDevice plan kind root)"
| step: "dev_reach plan kind root k s \<Longrightarrow> dev_step plan kind s s' n \<Longrightarrow> dev_reach plan kind root (Suc k) s'"

section \<open>The list of children\<close>

lemma dev_next_Some: "h c = Some d \<Longrightarrow> dev_next h (Some c) = Inr q \<longleftrightarrow> q = dn_next d"
  by (auto simp: dev_next_def deref_def deref_pointer_def)

fun child_chain :: "dev_heap \<Rightarrow> nat option \<Rightarrow> nat list \<Rightarrow> bool" where
  "child_chain h p [] \<longleftrightarrow> p = None"
| "child_chain h p (c # cs) \<longleftrightarrow> p = Some c \<and> (\<exists>d. h c = Some d \<and> child_chain h (dn_next d) cs)"

definition children :: "dev_heap \<Rightarrow> nat \<Rightarrow> nat list \<Rightarrow> bool" where
  "children h n cs \<longleftrightarrow> (\<exists>d. h n = Some d \<and> child_chain h (dn_firstChild d) cs \<and> (cs \<noteq> [] \<longrightarrow> dn_lastChild d = Some (last cs)))"

definition same_next :: "dev_heap \<Rightarrow> dev_heap \<Rightarrow> nat set \<Rightarrow> bool" where
  "same_next h h' A \<longleftrightarrow> (\<forall>c\<in>A. \<forall>d. h c = Some d \<longrightarrow> (\<exists>d'. h' c = Some d' \<and> dn_next d' = dn_next d))"

lemma child_chain_same: "child_chain h p cs \<Longrightarrow> same_next h h' (set cs) \<Longrightarrow> child_chain h' p cs"
  by (induction cs arbitrary: p) (fastforce simp: same_next_def)+

lemma child_chain_set: "child_chain h p cs \<Longrightarrow> c \<in> set cs \<Longrightarrow> \<exists>d. h c = Some d"
  by (induction cs arbitrary: p) auto

lemma child_chain_snoc:
  assumes "child_chain h p cs" "cs \<noteq> []" "distinct cs" "c \<notin> set cs" "h c = Some e" "dn_next e = None" "h (last cs) = Some d"
  shows "child_chain (h(last cs \<mapsto> d\<lparr>dn_next := Some c\<rparr>)) p (cs @ [c])"
  using assms
proof (induction cs arbitrary: p)
  case (Cons x cs)
  show ?case
  proof (cases "cs = []")
    case True
    with Cons.prems show ?thesis by auto
  next
    case False
    then have "x \<noteq> last cs" using Cons.prems(3) by auto
    with Cons False show ?thesis by auto
  qed
qed simp

lemma append_child_ok:
  assumes "children h n cs" "n \<notin> set cs" "distinct cs" "c \<notin> set cs" "c \<noteq> n" "h c = Some e" "dn_next e = None"
  shows "\<exists>h'. append_child n c h = Inr h' \<and> children h' n (cs @ [c]) \<and>
    (\<forall>m. m \<noteq> n \<longrightarrow> m \<notin> set cs \<longrightarrow> h' m = h m) \<and>
    (\<forall>m d. h m = Some d \<longrightarrow> (\<exists>d'. h' m = Some d' \<and> dn_completed d' = dn_completed d \<and>
       (m \<notin> set cs \<longrightarrow> dn_next d' = dn_next d) \<and> (m \<noteq> n \<longrightarrow> dn_firstChild d' = dn_firstChild d \<and> dn_lastChild d' = dn_lastChild d)))"
proof -
  from assms(1) obtain d where d: "h n = Some d" "child_chain h (dn_firstChild d) cs" "cs \<noteq> [] \<longrightarrow> dn_lastChild d = Some (last cs)"
    by (auto simp: children_def)
  show ?thesis
  proof (cases "cs = []")
    case True
    with d assms(5-7) show ?thesis by (simp add: append_child_def deref_def children_def)
  next
    case False
    with d obtain l where l: "h (last cs) = Some l" "last cs \<in> set cs" using child_chain_set [OF d(2)] by fastforce
    then have ne: "last cs \<noteq> n" "last cs \<noteq> c" using assms(2,4) by auto
    let ?h1 = "h(last cs \<mapsto> l\<lparr>dn_next := Some c\<rparr>)"
    let ?h2 = "?h1(n \<mapsto> d\<lparr>dn_lastChild := Some c\<rparr>)"
    have first: "dn_firstChild d \<noteq> None" using d(2) False by (cases cs) auto
    have "child_chain ?h1 (dn_firstChild d) (cs @ [c])" by (rule child_chain_snoc [OF d(2) False assms(3,4,6,7) l(1)])
    moreover have "same_next ?h1 ?h2 (set (cs @ [c]))" using d(1) assms(2,5) ne by (auto simp: same_next_def)
    ultimately have "child_chain ?h2 (dn_firstChild d) (cs @ [c])" by (rule child_chain_same)
    moreover have "append_child n c h = Inr ?h2"
      using d False first l ne by (auto simp: append_child_def deref_def deref_pointer_def Let_def)
    ultimately show ?thesis using d(1) l ne by (auto simp: children_def)
  qed
qed

section \<open>The invariant of loading\<close>

text \<open>
  The devices form a tree: no device is appended twice, the root is never appended, and a device only appends devices whose
  types are further down.
\<close>

fun depth :: "DeviceType \<Rightarrow> nat" where
  "depth ACPI = 2"
| "depth PCIE = 1"
| "depth XHCI = 0"

definition forest :: "(nat \<Rightarrow> nat list) \<Rightarrow> (nat \<Rightarrow> DeviceType) \<Rightarrow> nat \<Rightarrow> bool" where
  "forest plan kind root \<longleftrightarrow> (\<forall>n. distinct (plan n) \<and> root \<notin> set (plan n)) \<and>
     (\<forall>n m. n \<noteq> m \<longrightarrow> set (plan n) \<inter> set (plan m) = {}) \<and> (\<forall>n. \<forall>c\<in>set (plan n). depth (kind c) < depth (kind n))"

definition completed :: "dev_sys \<Rightarrow> nat \<Rightarrow> bool" where
  "completed s n \<longleftrightarrow> (\<exists>d. sy_heap s n = Some d \<and> dn_completed d)"

definition dev_ok :: "(nat \<Rightarrow> nat list) \<Rightarrow> dev_sys \<Rightarrow> nat \<Rightarrow> bool" where
  "dev_ok plan s n \<longleftrightarrow> (case sy_pc s n of
     NotStarted \<Rightarrow> sy_heap s n = None \<and> (\<forall>c\<in>set (plan n). sy_pc s c = NotStarted)
   | Loading cs \<Rightarrow> \<not> completed s n \<and> (\<exists>ds. plan n = ds @ cs \<and> children (sy_heap s) n ds \<and>
       (\<forall>d\<in>set ds. sy_pc s d \<noteq> NotStarted) \<and> (\<forall>c\<in>set cs. sy_pc s c = NotStarted))
   | Awaiting p \<Rightarrow> \<not> completed s n \<and> children (sy_heap s) n (plan n) \<and> (\<forall>c\<in>set (plan n). sy_pc s c \<noteq> NotStarted) \<and>
       (\<exists>ds cs. plan n = ds @ cs \<and> child_chain (sy_heap s) p cs \<and> (\<forall>d\<in>set ds. completed s d))
   | Finished \<Rightarrow> completed s n \<and> children (sy_heap s) n (plan n) \<and> (\<forall>c\<in>set (plan n). completed s c))"

definition dev_inv :: "(nat \<Rightarrow> nat list) \<Rightarrow> dev_sys \<Rightarrow> bool" where
  "dev_inv plan s \<longleftrightarrow> (\<forall>n. dev_ok plan s n)"

lemma forest_self: "forest plan kind root \<Longrightarrow> c \<in> set (plan n) \<Longrightarrow> c \<noteq> n"
  by (auto simp: forest_def)

lemma dev_inv_at: "dev_inv plan s \<Longrightarrow> dev_ok plan s n"
  by (simp add: dev_inv_def)

lemma started_heap: "dev_ok plan s n \<Longrightarrow> sy_pc s n \<noteq> NotStarted \<Longrightarrow> \<exists>d. sy_heap s n = Some d"
  by (cases "sy_pc s n") (auto simp: dev_ok_def children_def completed_def)

lemma completed_finished: "dev_ok plan s n \<Longrightarrow> completed s n \<longleftrightarrow> sy_pc s n = Finished"
  by (cases "sy_pc s n") (auto simp: dev_ok_def completed_def)

text \<open>What a step of another device leaves of a device and of its children.\<close>

definition dev_frame :: "(nat \<Rightarrow> nat list) \<Rightarrow> dev_sys \<Rightarrow> dev_sys \<Rightarrow> nat \<Rightarrow> bool" where
  "dev_frame plan s s' m \<longleftrightarrow> sy_pc s' m = sy_pc s m \<and> (sy_heap s m = None \<longrightarrow> sy_heap s' m = None) \<and>
     (\<forall>d. sy_heap s m = Some d \<longrightarrow> (\<exists>d'. sy_heap s' m = Some d' \<and> dn_firstChild d' = dn_firstChild d \<and>
        dn_lastChild d' = dn_lastChild d \<and> dn_completed d' = dn_completed d)) \<and>
     same_next (sy_heap s) (sy_heap s') (set (plan m)) \<and> (\<forall>c\<in>set (plan m). completed s c \<longrightarrow> completed s' c) \<and>
     (\<forall>c\<in>set (plan m). sy_pc s' c = NotStarted \<longleftrightarrow> sy_pc s c = NotStarted)"

lemma children_frame:
  assumes "dev_frame plan s s' m" "children (sy_heap s) m cs" "set cs \<subseteq> set (plan m)"
  shows "children (sy_heap s') m cs"
proof -
  from assms(2) obtain d where d: "sy_heap s m = Some d" "child_chain (sy_heap s) (dn_firstChild d) cs" "cs \<noteq> [] \<longrightarrow> dn_lastChild d = Some (last cs)"
    by (auto simp: children_def)
  have "same_next (sy_heap s) (sy_heap s') (set cs)" using assms(1,3) by (auto simp: dev_frame_def same_next_def)
  from child_chain_same [OF d(2) this] d(1,3) assms(1) show ?thesis by (force simp: children_def dev_frame_def)
qed

lemma dev_ok_frame:
  assumes "dev_ok plan s m" "dev_frame plan s s' m"
  shows "dev_ok plan s' m"
proof -
  have pc: "sy_pc s' m = sy_pc s m" and comp: "completed s' m = completed s m" and heap: "sy_heap s m = None \<longrightarrow> sy_heap s' m = None"
    and kids: "\<forall>c\<in>set (plan m). completed s c \<longrightarrow> completed s' c" "\<forall>c\<in>set (plan m). sy_pc s' c = NotStarted \<longleftrightarrow> sy_pc s c = NotStarted"
    and nx: "same_next (sy_heap s) (sy_heap s') (set (plan m))"
    using assms(2) by (force simp: dev_frame_def completed_def)+
  note fr = children_frame [OF assms(2)]
  show ?thesis
  proof (cases "sy_pc s m")
    case NotStarted
    with assms(1) pc heap kids show ?thesis by (simp add: dev_ok_def)
  next
    case (Loading cs)
    with assms(1) obtain ds where ds: "\<not> completed s m" "plan m = ds @ cs" "children (sy_heap s) m ds"
      "\<forall>d\<in>set ds. sy_pc s d \<noteq> NotStarted" "\<forall>c\<in>set cs. sy_pc s c = NotStarted" by (auto simp: dev_ok_def)
    with fr [OF ds(3)] Loading pc comp kids show ?thesis by (auto simp: dev_ok_def)
  next
    case (Awaiting p)
    with assms(1) obtain ds cs where ds: "\<not> completed s m" "children (sy_heap s) m (plan m)" "\<forall>c\<in>set (plan m). sy_pc s c \<noteq> NotStarted"
      "plan m = ds @ cs" "child_chain (sy_heap s) p cs" "\<forall>d\<in>set ds. completed s d" by (auto simp: dev_ok_def)
    have "same_next (sy_heap s) (sy_heap s') (set cs)" using nx ds(4) by (auto simp: same_next_def)
    from child_chain_same [OF ds(5) this] fr [OF ds(2)] ds Awaiting pc comp kids show ?thesis by (fastforce simp: dev_ok_def)
  next
    case Finished
    with assms(1) fr [of "plan m"] pc comp kids show ?thesis by (auto simp: dev_ok_def)
  qed
qed

lemma append_step_inv:
  assumes f: "forest plan kind root" and inv: "dev_inv plan s" and pc: "sy_pc s n = Loading (c # cs)"
  shows "\<exists>h. append_child n c ((sy_heap s)(c \<mapsto> DeviceTree (kind c))) = Inr h \<and>
    dev_inv plan \<lparr>sy_heap = h, sy_pc = (sy_pc s)(n := Loading cs, c := Loading (plan c))\<rparr>"
proof -
  from dev_inv_at [OF inv, of n] pc obtain ds where ds: "\<not> completed s n" "plan n = ds @ c # cs" "children (sy_heap s) n ds"
    "\<forall>d\<in>set ds. sy_pc s d \<noteq> NotStarted" "\<forall>d\<in>set (c # cs). sy_pc s d = NotStarted" by (auto simp: dev_ok_def)
  have tree: "distinct (ds @ c # cs)" "n \<notin> set (ds @ c # cs)" "\<And>m. m \<noteq> n \<Longrightarrow> set (plan m) \<inter> set (ds @ c # cs) = {}" "n \<notin> set (plan c)"
    using f ds(2) forest_self [OF f, of _ n] unfolding forest_def by (metis, metis, metis, metis in_set_conv_decomp less_asym)
  have c: "sy_heap s c = None" "\<forall>x\<in>set (plan c). sy_pc s x = NotStarted"
    using dev_inv_at [OF inv, of c] ds(5) by (simp_all add: dev_ok_def)
  let ?e = "DeviceTree (kind c)"
  let ?h0 = "(sy_heap s)(c \<mapsto> ?e)"
  have "same_next (sy_heap s) ?h0 (set ds)" using tree(1) by (auto simp: same_next_def)
  then have kids: "children ?h0 n ds" using ds(3) tree(2) by (auto simp: children_def dest: child_chain_same)
  have "n \<notin> set ds" "distinct ds" "c \<notin> set ds" "c \<noteq> n" "dn_next ?e = None" using tree by (auto simp: DeviceTree_def)
  from append_child_ok [OF kids this(1-4) _ this(5)] obtain h where
    h: "append_child n c ?h0 = Inr h" "children h n (ds @ [c])" "\<forall>m. m \<noteq> n \<longrightarrow> m \<notin> set ds \<longrightarrow> h m = ?h0 m"
      and fr: "\<And>m d. ?h0 m = Some d \<Longrightarrow> \<exists>d'. h m = Some d' \<and> dn_completed d' = dn_completed d \<and>
       (m \<notin> set ds \<longrightarrow> dn_next d' = dn_next d) \<and> (m \<noteq> n \<longrightarrow> dn_firstChild d' = dn_firstChild d \<and> dn_lastChild d' = dn_lastChild d)"
    by auto
  let ?s = "\<lparr>sy_heap = h, sy_pc = (sy_pc s)(n := Loading cs, c := Loading (plan c))\<rparr>"
  have hc: "h c = Some ?e" using h(3) tree(1,2) by auto
  have comp: "completed ?s m = completed s m" for m
  proof (cases "m = c")
    case False
    show ?thesis
    proof (cases "sy_heap s m")
      case None
      with ds(3) have "m \<noteq> n" "m \<notin> set ds" by (auto simp: children_def dest: child_chain_set)
      with h(3) None False show ?thesis by (simp add: completed_def)
    qed (use fr [of m] False in \<open>force simp: completed_def\<close>)
  qed (use hc c in \<open>simp add: completed_def DeviceTree_def\<close>)
  have "dev_ok plan ?s m" for m
  proof -
    consider "m = n" | "m = c" | "m \<noteq> n" "m \<noteq> c" by blast
    then show ?thesis
    proof cases
      case 1
      with h(2) ds tree(1,2) comp [of n] show ?thesis by (auto simp: dev_ok_def intro!: exI [of _ "ds @ [c]"])
    next
      case 2
      have "children h c []" using hc by (simp add: children_def DeviceTree_def)
      with 2 c tree forest_self [OF f, of _ c] comp [of c] show ?thesis by (auto simp: dev_ok_def completed_def)
    next
      case 3
      have out: "c \<notin> set (plan m)" "set (plan m) \<inter> set ds = {}" using tree(3) [of m] 3 by auto
      have "m \<in> set ds \<Longrightarrow> sy_heap s m \<noteq> None" using ds(3) by (auto simp: children_def dest: child_chain_set)
      with h(3) 3 have "sy_heap s m = None \<longrightarrow> h m = None" by auto
      moreover have "same_next (sy_heap s) h (set (plan m))"
        unfolding same_next_def
      proof (intro ballI allI impI)
        fix x d assume "x \<in> set (plan m)" "sy_heap s x = Some d"
        with out fr [of x d] show "\<exists>d'. h x = Some d' \<and> dn_next d' = dn_next d" by (cases "x = c") auto
      qed
      moreover have "sy_heap s m = Some d \<Longrightarrow> \<exists>d'. h m = Some d' \<and> dn_firstChild d' = dn_firstChild d \<and>
          dn_lastChild d' = dn_lastChild d \<and> dn_completed d' = dn_completed d" for d
        using fr [of m d] 3 by auto
      ultimately have "dev_frame plan s ?s m"
        using 3 pc comp out(1) by (auto simp: dev_frame_def)
      with dev_ok_frame [OF dev_inv_at [OF inv]] show ?thesis by blast
    qed
  qed
  with h(1) show ?thesis by (auto simp: dev_inv_def)
qed

lemma local_step_inv:
  assumes "dev_inv plan s" "sy_pc s' = (sy_pc s)(n := q)" "q \<noteq> NotStarted" "sy_pc s n \<noteq> NotStarted" "dev_ok plan s' n"
    and "\<And>m. m \<noteq> n \<Longrightarrow> sy_heap s' m = sy_heap s m"
    and "\<And>d. sy_heap s n = Some d \<Longrightarrow> \<exists>d'. sy_heap s' n = Some d' \<and> dn_next d' = dn_next d \<and> (dn_completed d \<longrightarrow> dn_completed d')"
  shows "dev_inv plan s'"
  unfolding dev_inv_def
proof
  fix m
  show "dev_ok plan s' m"
  proof (cases "m = n")
    case False
    have "completed s' c" if "completed s c" for c
      using that assms(6) [of c] assms(7) by (cases "c = n") (auto simp: completed_def)
    moreover have "same_next (sy_heap s) (sy_heap s') A" for A
      unfolding same_next_def
    proof (intro ballI allI impI)
      fix c d assume "sy_heap s c = Some d"
      with assms(6) [of c] assms(7) show "\<exists>d'. sy_heap s' c = Some d' \<and> dn_next d' = dn_next d" by (cases "c = n") auto
    qed
    ultimately have "dev_frame plan s s' m" using False assms(2-4,6) by (auto simp: dev_frame_def)
    with dev_ok_frame [OF dev_inv_at [OF assms(1)]] show ?thesis by blast
  qed (use assms(5) in simp)
qed

lemma dev_step_inv:
  assumes f: "forest plan kind root" and inv: "dev_inv plan s" and step: "dev_step plan kind s s' n"
  shows "dev_inv plan s'"
  using step
proof cases
  case (appendAndLoad c cs h)
  with append_step_inv [OF f inv, of n c cs] show ?thesis by auto
next
  case (load_returns d)
  with dev_inv_at [OF inv, of n] have l: "\<not> completed s n" "children (sy_heap s) n (plan n)" "\<forall>c\<in>set (plan n). sy_pc s c \<noteq> NotStarted"
    by (auto simp: dev_ok_def)
  moreover have "child_chain (sy_heap s) (dn_firstChild d) (plan n)" using l(2) load_returns by (auto simp: children_def)
  ultimately have "dev_ok plan s' n" using load_returns by (auto simp: dev_ok_def completed_def intro: exI [of _ "[]"])
  from local_step_inv [OF inv _ _ _ this] load_returns show ?thesis by simp
next
  case (await_child c d q)
  then have q: "q = dn_next d" by (simp add: dev_next_Some)
  from await_child dev_inv_at [OF inv, of n] obtain ds cs where ds: "\<not> completed s n" "children (sy_heap s) n (plan n)" "\<forall>c\<in>set (plan n). sy_pc s c \<noteq> NotStarted"
    "plan n = ds @ cs" "child_chain (sy_heap s) (Some c) cs" "\<forall>d\<in>set ds. completed s d" by (auto simp: dev_ok_def)
  then obtain cs' where cs: "cs = c # cs'" "child_chain (sy_heap s) (dn_next d) cs'" using await_child by (cases cs) auto
  have "completed s c" using await_child by (simp add: completed_def)
  with ds cs have "plan n = (ds @ [c]) @ cs' \<and> child_chain (sy_heap s) (dn_next d) cs' \<and> (\<forall>d\<in>set (ds @ [c]). completed s d)" by auto
  then have "\<exists>ds cs. plan n = ds @ cs \<and> child_chain (sy_heap s) (dn_next d) cs \<and> (\<forall>d\<in>set ds. completed s d)" by blast
  with ds(1-3) await_child have "dev_ok plan s' n" by (auto simp: q dev_ok_def completed_def)
  from local_step_inv [OF inv _ _ _ this] await_child show ?thesis by simp
next
  case (signal d)
  with dev_inv_at [OF inv, of n] obtain ds cs where ds: "children (sy_heap s) n (plan n)" "plan n = ds @ cs"
    "child_chain (sy_heap s) None cs" "\<forall>d\<in>set ds. completed s d" by (auto simp: dev_ok_def)
  then have all: "\<forall>c\<in>set (plan n). completed s c" by (cases cs) auto
  have "n \<notin> set (plan n)" using forest_self [OF f] by blast
  then have "same_next (sy_heap s) (sy_heap s') (set (plan n))" using signal by (auto simp: same_next_def)
  with ds(1) signal have "children (sy_heap s') n (plan n)" by (auto simp: children_def dest: child_chain_same)
  with all signal have "dev_ok plan s' n" by (auto simp: dev_ok_def completed_def)
  from local_step_inv [OF inv _ _ _ this] signal show ?thesis by auto
qed

lemma dev_start_inv: "forest plan kind root \<Longrightarrow> dev_inv plan (loadRootDevice plan kind root)"
  by (auto simp: dev_inv_def dev_ok_def loadRootDevice_def children_def completed_def DeviceTree_def forest_def)

lemma dev_reach_inv: "dev_reach plan kind root k s \<Longrightarrow> forest plan kind root \<Longrightarrow> dev_inv plan s"
  by (induction rule: dev_reach.induct) (auto intro: dev_start_inv dev_step_inv)

section \<open>Progress\<close>

inductive below :: "(nat \<Rightarrow> nat list) \<Rightarrow> nat \<Rightarrow> nat \<Rightarrow> bool" for plan :: "nat \<Rightarrow> nat list" and n :: nat where
  refl: "below plan n n"
| child: "below plan n m \<Longrightarrow> c \<in> set (plan m) \<Longrightarrow> below plan n c"

lemma completed_below: "below plan n m \<Longrightarrow> dev_inv plan s \<Longrightarrow> completed s n \<Longrightarrow> completed s m"
proof (induction rule: below.induct)
  case (child m c)
  then have "completed s m" by simp
  with completed_finished [OF dev_inv_at [OF child.prems(1)]] have "sy_pc s m = Finished" by simp
  with dev_inv_at [OF child.prems(1), of m] child.hyps(2) show ?case by (simp add: dev_ok_def)
qed

lemma dev_progress:
  assumes "forest plan kind root" "dev_inv plan s" "sy_pc s n \<notin> {NotStarted, Finished}"
  shows "\<exists>m s'. dev_step plan kind s s' m"
  using assms(3)
proof (induction "depth (kind n)" arbitrary: n rule: less_induct)
  case less
  note ok = dev_inv_at [OF assms(2), of n]
  from started_heap [OF ok] less.prems obtain d where d: "sy_heap s n = Some d" by auto
  show ?case
  proof (cases "sy_pc s n")
    case (Loading cs)
    show ?thesis
    proof (cases cs)
      case Nil
      with Loading d show ?thesis by (auto intro: dev_step.load_returns)
    next
      case (Cons c cs')
      with append_step_inv [OF assms(1,2)] Loading show ?thesis by (blast intro: dev_step.appendAndLoad)
    qed
  next
    case (Awaiting p)
    show ?thesis
    proof (cases p)
      case None
      with Awaiting d show ?thesis by (auto intro: dev_step.signal)
    next
      case (Some c)
      with ok Awaiting obtain ds cs where ds: "plan n = ds @ cs" "child_chain (sy_heap s) (Some c) cs"
        and st: "\<forall>x\<in>set (plan n). sy_pc s x \<noteq> NotStarted" by (auto simp: dev_ok_def)
      then have c: "c \<in> set (plan n)" by (cases cs) auto
      show ?thesis
      proof (cases "completed s c")
        case True
        then obtain d' where "sy_heap s c = Some d'" "dn_completed d'" by (auto simp: completed_def)
        with Awaiting Some dev_step.await_child [of s n c d' "dn_next d'"] show ?thesis by (auto simp: dev_next_Some)
      next
        case False
        with completed_finished [OF dev_inv_at [OF assms(2)]] st c have "sy_pc s c \<notin> {NotStarted, Finished}" by auto
        moreover have "depth (kind c) < depth (kind n)" using assms(1) c by (simp add: forest_def)
        ultimately show ?thesis using less.hyps by blast
      qed
    qed
  qed (use less.prems in auto)
qed

text \<open>How many steps a device has left to make.\<close>

definition steps_left :: "(nat \<Rightarrow> nat list) \<Rightarrow> nat \<Rightarrow> dev_pc \<Rightarrow> nat" where
  "steps_left plan n pc = (case pc of
     NotStarted \<Rightarrow> 2 * length (plan n) + 2
   | Loading cs \<Rightarrow> length cs + length (plan n) + 2
   | Awaiting None \<Rightarrow> 1
   | Awaiting (Some c) \<Rightarrow> length (dropWhile (\<lambda>x. x \<noteq> c) (plan n)) + 1
   | Finished \<Rightarrow> 0)"

lemma step_starts:
  assumes "dev_step plan kind s s' n" "dev_inv plan s"
  shows "sy_pc s n \<noteq> NotStarted" "sy_pc s' m \<noteq> NotStarted \<Longrightarrow> sy_pc s m \<noteq> NotStarted \<or> m \<in> set (plan n)"
proof -
  show "sy_pc s n \<noteq> NotStarted" using assms(1) by cases auto
  assume m: "sy_pc s' m \<noteq> NotStarted"
  show "sy_pc s m \<noteq> NotStarted \<or> m \<in> set (plan n)"
    using assms(1)
  proof cases
    case (appendAndLoad c cs h)
    with dev_inv_at [OF assms(2), of n] have "c \<in> set (plan n)" by (auto simp: dev_ok_def)
    with appendAndLoad m show ?thesis by (auto split: if_splits)
  qed (use m in \<open>auto split: if_splits\<close>)
qed

lemma await_drop:
  assumes "distinct xs" "xs = ds @ cs" "child_chain h (Some c) cs"
  shows "dropWhile (\<lambda>x. x \<noteq> c) xs = cs"
  using assms by (cases cs) (auto simp: dropWhile_append)

lemma step_work:
  assumes f: "forest plan kind root" and inv: "dev_inv plan s" and step: "dev_step plan kind s s' n"
  shows "steps_left plan n (sy_pc s n) = Suc (steps_left plan n (sy_pc s' n))"
    and "m \<noteq> n \<Longrightarrow> steps_left plan m (sy_pc s' m) = steps_left plan m (sy_pc s m)"
proof -
  note ok = dev_inv_at [OF inv, of n]
  have dist: "distinct (plan n)" using f by (simp add: forest_def)
  have "steps_left plan n (sy_pc s n) = Suc (steps_left plan n (sy_pc s' n)) \<and>
    (m \<noteq> n \<longrightarrow> steps_left plan m (sy_pc s' m) = steps_left plan m (sy_pc s m))"
    using step
  proof cases
    case (appendAndLoad c cs h)
    with ok have "c \<in> set (plan n)" "sy_pc s c = NotStarted" by (auto simp: dev_ok_def)
    with appendAndLoad forest_self [OF f] show ?thesis by (auto simp: steps_left_def)
  next
    case (load_returns d)
    with ok have "child_chain (sy_heap s) (dn_firstChild d) (plan n)" by (auto simp: dev_ok_def children_def)
    with load_returns show ?thesis by (cases "plan n") (auto simp: steps_left_def)
  next
    case (await_child c d q)
  then have q: "q = dn_next d" by (simp add: dev_next_Some)
    from await_child ok obtain ds cs where ds: "plan n = ds @ cs" "child_chain (sy_heap s) (Some c) cs" by (auto simp: dev_ok_def)
    then obtain cs' where cs: "cs = c # cs'" "child_chain (sy_heap s) (dn_next d) cs'" using await_child by (cases cs) auto
    have "length (dropWhile (\<lambda>x. x \<noteq> c') (plan n)) = length cs'" if "dn_next d = Some c'" for c'
      using await_drop [OF dist, of "ds @ [c]" cs'] ds(1) cs that by auto
    moreover have "dn_next d = None \<Longrightarrow> cs' = []" using cs(2) by (cases cs') auto
    ultimately show ?thesis using await_child await_drop [OF dist ds] cs(1)
      by (auto simp: q steps_left_def split: option.split)
  next
    case (signal d)
    then show ?thesis by (auto simp: steps_left_def)
  qed
  then show "steps_left plan n (sy_pc s n) = Suc (steps_left plan n (sy_pc s' n))"
    and "m \<noteq> n \<Longrightarrow> steps_left plan m (sy_pc s' m) = steps_left plan m (sy_pc s m)" by blast+
qed

definition closed_devices :: "(nat \<Rightarrow> nat list) \<Rightarrow> nat \<Rightarrow> nat set \<Rightarrow> bool" where
  "closed_devices plan root N \<longleftrightarrow> finite N \<and> root \<in> N \<and> (\<forall>n\<in>N. set (plan n) \<subseteq> N)"

lemma dev_reach_work:
  assumes "dev_reach plan kind root k s" "forest plan kind root" "closed_devices plan root N"
  shows "{n. sy_pc s n \<noteq> NotStarted} \<subseteq> N \<and> k + (\<Sum>n\<in>N. steps_left plan n (sy_pc s n)) = (\<Sum>n\<in>N. 2 * length (plan n) + 2)"
  using assms
proof (induction rule: dev_reach.induct)
  case start
  then show ?case
    by (auto simp: loadRootDevice_def steps_left_def closed_devices_def intro!: sum.cong)
next
  case (step k s s' n)
  note inv = dev_reach_inv [OF step.hyps(1) step.prems(1)]
  from step have N: "{n. sy_pc s n \<noteq> NotStarted} \<subseteq> N" "finite N"
    and sum: "k + (\<Sum>n\<in>N. steps_left plan n (sy_pc s n)) = (\<Sum>n\<in>N. 2 * length (plan n) + 2)"
    by (auto simp: closed_devices_def)
  note st = step_starts [OF step.hyps(2) inv]
  have n: "n \<in> N" using st(1) N(1) by blast
  have "{n. sy_pc s' n \<noteq> NotStarted} \<subseteq> N" using st(2) N(1) n step.prems(2) by (auto simp: closed_devices_def)
  moreover note w = step_work [OF step.prems(1) inv step.hyps(2)]
  have "(\<Sum>m\<in>N - {n}. steps_left plan m (sy_pc s' m)) = (\<Sum>m\<in>N - {n}. steps_left plan m (sy_pc s m))"
    using w(2) by (intro sum.cong) auto
  then have "(\<Sum>n\<in>N. steps_left plan n (sy_pc s n)) = Suc (\<Sum>n\<in>N. steps_left plan n (sy_pc s' n))"
    using w(1) N(2) n by (simp add: sum.remove)
  ultimately show ?case using sum by simp
qed

section \<open>Properties\<close>

lemma root_started: "dev_reach plan kind root k s \<Longrightarrow> sy_pc s root \<noteq> NotStarted"
proof (induction rule: dev_reach.induct)
  case (step k s s' n)
  from step.hyps(2) step.IH show ?case by cases auto
qed (simp add: loadRootDevice_def)

text \<open>
  (C35) Loading the device tree: however the threads of the devices interleave, loading makes at most as many steps as
  there are appends, waits, returns and signals to make, so it ends; as long as the root's completion is not signalled some device can make a step, so
  it does not end before; and when it is signalled, every device below the root has been loaded and has signalled, and the list
  of children of each is what its \<^verbatim>\<open>load\<close> appended, in that order.
\<close>

theorem device_tree_loads:
  assumes "dev_reach plan kind root k s" "forest plan kind root" "closed_devices plan root N"
  shows "k \<le> (\<Sum>n\<in>N. 2 * length (plan n) + 2) \<and> (\<not> completed s root \<longrightarrow> (\<exists>m s'. dev_step plan kind s s' m)) \<and>
    (completed s root \<longrightarrow> (\<forall>m. below plan root m \<longrightarrow> sy_pc s m = Finished \<and> completed s m \<and> children (sy_heap s) m (plan m)))"
proof (intro conjI impI allI)
  note inv = dev_reach_inv [OF assms(1,2)]
  show "k \<le> (\<Sum>n\<in>N. 2 * length (plan n) + 2)" using dev_reach_work [OF assms] by linarith
  show "\<exists>m s'. dev_step plan kind s s' m" if "\<not> completed s root"
    using that dev_progress [OF assms(2) inv, of root] root_started [OF assms(1)] completed_finished [OF dev_inv_at [OF inv]] by auto
  fix m assume "completed s root" "below plan root m"
  with completed_below inv show "completed s m" by blast
  with completed_finished [OF dev_inv_at [OF inv]] show pc: "sy_pc s m = Finished" by simp
  with dev_inv_at [OF inv, of m] show "children (sy_heap s) m (plan m)" by (simp add: dev_ok_def)
qed

definition sample_plan :: "nat \<Rightarrow> nat list" where
  "sample_plan n = (if n = 0 then [1] else if n = 1 then [2, 3] else [])"

definition sample_kind :: "nat \<Rightarrow> DeviceType" where
  "sample_kind n = (if n = 0 then ACPI else if n = 1 then PCIE else XHCI)"

theorem device_tree_loads_witness:
  "dev_reach sample_plan sample_kind 0 1 \<lparr>sy_heap = [0 \<mapsto> (DeviceTree ACPI)\<lparr>dn_firstChild := Some 1, dn_lastChild := Some 1\<rparr>, 1 \<mapsto> DeviceTree PCIE],
       sy_pc = (\<lambda>_. NotStarted)(0 := Loading [], 1 := Loading [2, 3])\<rparr> \<and>
   (\<exists>m s'. dev_step sample_plan sample_kind \<lparr>sy_heap = [0 \<mapsto> (DeviceTree ACPI)\<lparr>dn_firstChild := Some 1, dn_lastChild := Some 1\<rparr>, 1 \<mapsto> DeviceTree PCIE],
       sy_pc = (\<lambda>_. NotStarted)(0 := Loading [], 1 := Loading [2, 3])\<rparr> s' m)"
proof -
  let ?s = "\<lparr>sy_heap = [0 \<mapsto> (DeviceTree ACPI)\<lparr>dn_firstChild := Some 1, dn_lastChild := Some 1\<rparr>, 1 \<mapsto> DeviceTree PCIE],
       sy_pc = (\<lambda>_. NotStarted)(0 := Loading [], 1 := Loading [2, 3])\<rparr>"
  have "dev_step sample_plan sample_kind (loadRootDevice sample_plan sample_kind 0) ?s 0"
    using dev_step.appendAndLoad [of "loadRootDevice sample_plan sample_kind 0" 0 1 "[]" sample_kind "sy_heap ?s" sample_plan]
    by (simp add: loadRootDevice_def sample_plan_def sample_kind_def append_child_def deref_def DeviceTree_def fun_upd_twist)
  from dev_reach.step [OF dev_reach.start this] have r: "dev_reach sample_plan sample_kind 0 1 ?s" by simp
  have "forest sample_plan sample_kind 0" "closed_devices sample_plan 0 {0, 1, 2, 3}"
    by (auto simp: forest_def closed_devices_def sample_plan_def sample_kind_def)
  from device_tree_loads [OF r this] r show ?thesis by (simp add: completed_def DeviceTree_def)
qed

text \<open>
  The destructor of a device that has a child never returns normally: after deleting the first child it reads the pointer to the
  next one from the deleted object.
\<close>

lemma destroy_frees: "destroy fuel self h = Inr h' \<Longrightarrow> h' self = None"
  by (cases fuel) auto

lemma destroy_use_after_free:
  assumes "h self = Some n" "dn_firstChild n \<noteq> None"
  shows "destroy fuel self h \<noteq> Inr h'"
    and "h child = Some c \<Longrightarrow> dn_firstChild c = None \<Longrightarrow> dn_firstChild n = Some child \<Longrightarrow> destroy (fuel + 3) self h = Inl UseAfterFree"
proof -
  have "destroy_children f (Some c) h \<noteq> Inr h1" for f c h1
    by (cases f) (auto simp: deref_def dev_next_def deref_pointer_def dest!: destroy_frees)
  with assms show "destroy fuel self h \<noteq> Inr h'" by (cases fuel) (auto simp: deref_def)
  assume "h child = Some c" "dn_firstChild c = None" "dn_firstChild n = Some child"
  with assms(1) show "destroy (fuel + 3) self h = Inl UseAfterFree" by (simp add: numeral_3_eq_3 deref_def dev_next_def deref_pointer_def)
qed

end
