(* ===== verification/Pcie.thy ===== *)
theory Pcie
  imports Device_Tree Acpi Kmalloc
begin

text \<open>
  The drivers of the device tree: the scan of the ACPI tables (\<^verbatim>\<open>drivers/acpiTree.cpp\<close>), the scan of the PCI Express configuration space
  (\<^verbatim>\<open>drivers/pcieTree.cpp\<close>, \<^verbatim>\<open>drivers/pcie/\<close>) and the XHCI driver (\<^verbatim>\<open>drivers/usb/xhci/\<close>). Configuration space is a byte memory; which bits of a 32-bit
  register can be written is a matter of the device, and is the argument \<open>wr\<close>. Output is the list of the calls of \<^verbatim>\<open>printf\<close>. The devices
  that \<^verbatim>\<open>load\<close> appends are collected in order; their linking and their threads are in \<open>Device_Tree\<close>.
\<close>

section \<open>State\<close>

datatype device =
    AcpiDevice "TableManager option list"
  | PcieDevice "McfgEntry list"
  | XhciDevice ptr

fun device_type :: "device \<Rightarrow> DeviceType" where
  "device_type (AcpiDevice _) = ACPI"
| "device_type (PcieDevice _) = PCIE"
| "device_type (XhciDevice _) = XHCI"

record driver_state =
  dr_config :: byte_mem
  dr_memory :: memory
  dr_output :: "(string \<times> u64 list) list"
  dr_children :: "device list"
  dr_unknown :: u32

definition say :: "string \<Rightarrow> u64 list \<Rightarrow> driver_state \<Rightarrow> driver_state" where
  "say format args s = s\<lparr>dr_output := dr_output s @ [(format, args)]\<rparr>"

section \<open>Access to a function\<close>

record PcieDeviceHeader =
  ph_vendorId :: u16
  ph_deviceId :: u16
  ph_command :: u16
  ph_status :: u16
  ph_revision :: u8
  ph_registerInterface :: u8
  ph_subclass :: u8
  ph_classId :: u8
  ph_headerType :: u8

definition read_PcieDeviceHeader :: "byte_mem \<Rightarrow> u64 \<Rightarrow> PcieDeviceHeader" where
  "read_PcieDeviceHeader m p =
     \<lparr>ph_vendorId = read16 m p, ph_deviceId = read16 m (p + 2), ph_command = read16 m (p + 4), ph_status = read16 m (p + 6),
      ph_revision = m (p + 8), ph_registerInterface = m (p + 9), ph_subclass = m (p + 10), ph_classId = m (p + 11),
      ph_headerType = m (p + 14)\<rparr>"

definition getVendorId :: "byte_mem \<Rightarrow> u64 \<Rightarrow> u16" where "getVendorId m p = ph_vendorId (read_PcieDeviceHeader m p)"

definition getDeviceId :: "byte_mem \<Rightarrow> u64 \<Rightarrow> u16" where "getDeviceId m p = ph_deviceId (read_PcieDeviceHeader m p)"

definition getCommand :: "byte_mem \<Rightarrow> u64 \<Rightarrow> u16" where "getCommand m p = ph_command (read_PcieDeviceHeader m p)"

definition getStatus :: "byte_mem \<Rightarrow> u64 \<Rightarrow> u16" where "getStatus m p = ph_status (read_PcieDeviceHeader m p)"

definition getRevision :: "byte_mem \<Rightarrow> u64 \<Rightarrow> u8" where "getRevision m p = ph_revision (read_PcieDeviceHeader m p)"

definition getRegisterInterface :: "byte_mem \<Rightarrow> u64 \<Rightarrow> u8" where
  "getRegisterInterface m p = ph_registerInterface (read_PcieDeviceHeader m p)"

definition getSubclass :: "byte_mem \<Rightarrow> u64 \<Rightarrow> u8" where "getSubclass m p = ph_subclass (read_PcieDeviceHeader m p)"

definition getClass :: "byte_mem \<Rightarrow> u64 \<Rightarrow> u8" where "getClass m p = ph_classId (read_PcieDeviceHeader m p)"

definition getHeaderType :: "byte_mem \<Rightarrow> u64 \<Rightarrow> u8" where "getHeaderType m p = ph_headerType (read_PcieDeviceHeader m p)"

definition store32 :: "u64 \<Rightarrow> u32 \<Rightarrow> byte_mem \<Rightarrow> byte_mem" where
  "store32 a v m = (\<lambda>x. if unat (x - a) < 4 then le_bytes 4 (unat v) ! unat (x - a) else m x)"

definition bar_address :: "u64 \<Rightarrow> u32 \<Rightarrow> u64" where
  "bar_address p number = p + 16 + 4 * ucast number"

definition readBar :: "u64 \<Rightarrow> u32 \<Rightarrow> driver_state \<Rightarrow> u32" where
  "readBar p number s = read32 (dr_config s) (bar_address p number)"

text \<open>A register keeps the bits that cannot be written.\<close>

definition writeBar :: "(u64 \<Rightarrow> u32) \<Rightarrow> u64 \<Rightarrow> u32 \<Rightarrow> u32 \<Rightarrow> driver_state \<Rightarrow> driver_state" where
  "writeBar wr p number v s =
     (let a = bar_address p number
      in s\<lparr>dr_config := store32 a ((v AND wr a) OR (readBar p number s AND NOT (wr a))) (dr_config s)\<rparr>)"

definition PCIE_BAR_MEMORY :: u64 where "PCIE_BAR_MEMORY = 1"

definition PCIE_BAR_TYPE :: "u64 \<Rightarrow> u64" where "PCIE_BAR_TYPE bar = drop_bit 1 (bar AND 6)"

definition PCIE_BAR_64 :: u64 where "PCIE_BAR_64 = 2"

definition mapBar :: "(u64 \<Rightarrow> u32) \<Rightarrow> u64 \<Rightarrow> u32 \<Rightarrow> driver_state \<Rightarrow> (ptr \<times> driver_state) result" where
  "mapBar wr p number s =
     (if number > 5 then Inr (nullptr, say ''Invalid BAR number %d\<newline>'' [ucast number] s)
      else let bar0 = ucast (readBar p number s)
      in if bar0 AND PCIE_BAR_MEMORY \<noteq> 0 then Inr (nullptr, say ''BAR not function_present in memory\<newline>'' [] s)
      else let bar1 = (if number < 5 \<and> PCIE_BAR_TYPE bar0 = PCIE_BAR_64
                       then bar0 OR push_bit 32 (ucast (readBar p (number + 1) s)) else bar0);
               bar = bar1 AND NOT 0xf;
               s1 = writeBar wr p number 0xffffffff s;
               mappedSize = ucast (NOT (readBar p number s1 AND 0xfffffff0) + 1 :: u32);
               s2 = writeBar wr p number (ucast (bar AND 0xffffffff)) s1
           in rbind (mapAddress bar mappedSize False (dr_memory s2)) (\<lambda>(q, m). Inr (q, s2\<lparr>dr_memory := m\<rparr>)))"

section \<open>Drivers\<close>

record PcieDriver =
  pd_vendorId :: u16
  pd_deviceId :: u16
  pd_classId :: u8
  pd_subclass :: u8
  pd_registerInterface :: u8
  pd_get :: "(u64 \<Rightarrow> u32) \<Rightarrow> u64 \<Rightarrow> driver_state \<Rightarrow> (device \<times> driver_state) result"

definition loadXhciDriver :: "(u64 \<Rightarrow> u32) \<Rightarrow> u64 \<Rightarrow> driver_state \<Rightarrow> (device \<times> driver_state) result" where
  "loadXhciDriver wr access s = rbind (mapBar wr access 0 s) (\<lambda>(registers, s1). Inr (XhciDevice registers, s1))"

definition pcieDrivers :: "PcieDriver list" where
  "pcieDrivers = [\<lparr>pd_vendorId = 0xffff, pd_deviceId = 0xffff, pd_classId = 0x0c, pd_subclass = 0x03,
                   pd_registerInterface = 0x30, pd_get = loadXhciDriver\<rparr>]"

definition driver_matches :: "byte_mem \<Rightarrow> u64 \<Rightarrow> PcieDriver \<Rightarrow> bool" where
  "driver_matches m access driver =
     (if pd_vendorId driver \<noteq> 0xffff
      then pd_vendorId driver = getVendorId m access \<and> pd_deviceId driver = getDeviceId m access
      else pd_classId driver = getClass m access \<and> pd_subclass driver = getSubclass m access \<and>
        (pd_registerInterface driver = 0xff \<or> pd_registerInterface driver = getRegisterInterface m access))"

text \<open>The loop over the drivers stops at the first that matches.\<close>

fun try_drivers :: "(u64 \<Rightarrow> u32) \<Rightarrow> u64 \<Rightarrow> PcieDriver list \<Rightarrow> driver_state \<Rightarrow> (bool \<times> driver_state) result" where
  "try_drivers wr access [] s = Inr (False, s)"
| "try_drivers wr access (driver # ds) s =
     (if driver_matches (dr_config s) access driver
      then rbind (pd_get driver wr access s) (\<lambda>(d, s1). Inr (True, s1\<lparr>dr_children := dr_children s1 @ [d]\<rparr>))
      else try_drivers wr access ds s)"

section \<open>The scan\<close>

definition PCIE_DEVICE :: "u64 \<Rightarrow> nat \<Rightarrow> nat \<Rightarrow> nat \<Rightarrow> u64" where
  "PCIE_DEVICE base bus device0 function = base + push_bit 20 (of_nat bus) + push_bit 15 (of_nat device0) + push_bit 12 (of_nat function)"

definition probe :: "(u64 \<Rightarrow> u32) \<Rightarrow> u64 \<Rightarrow> u8 \<Rightarrow> driver_state \<Rightarrow> driver_state result" where
  "probe wr access headerType s =
     (let m = dr_config s
      in if headerType AND 0x7f = 0 \<and> getVendorId m access \<noteq> 0xffff
         then rbind (try_drivers wr access pcieDrivers
                (say ''Vendor: %x, device: %x, class: %x, subclass: %x\<newline>''
                  [ucast (getVendorId m access), ucast (getDeviceId m access), ucast (getClass m access), ucast (getSubclass m access)] s))
              (\<lambda>(matched, s1). Inr (if matched then s1 else s1\<lparr>dr_unknown := dr_unknown s1 + 1\<rparr>))
         else Inr s)"

fun scan_functions :: "(u64 \<Rightarrow> u32) \<Rightarrow> u64 \<Rightarrow> nat \<Rightarrow> nat \<Rightarrow> nat list \<Rightarrow> driver_state \<Rightarrow> driver_state result" where
  "scan_functions wr base bus dev [] s = Inr s"
| "scan_functions wr base bus dev (function # fs) s =
     (let access = PCIE_DEVICE base bus dev function;
          headerType = getHeaderType (dr_config s) access
      in rbind (probe wr access headerType s) (\<lambda>s1.
           if function = 0 \<and> headerType AND 0x80 = 0 then Inr s1 else scan_functions wr base bus dev fs s1))"

definition scan_bus :: "(u64 \<Rightarrow> u32) \<Rightarrow> u64 \<Rightarrow> nat \<Rightarrow> driver_state \<Rightarrow> driver_state result" where
  "scan_bus wr base bus = for_each (\<lambda>dev. scan_functions wr base bus dev [0..<8]) [0..<32]"

definition getEntry :: "McfgEntry list \<Rightarrow> nat \<Rightarrow> McfgEntry" where
  "getEntry es i = (if i < length es then es ! i
     else \<lparr>mc_address = nullptr, mc_segmentGroup = 0, mc_firstBusNumber = 0, mc_lastBusNumber = 0\<rparr>)"

definition scan_entry :: "(u64 \<Rightarrow> u32) \<Rightarrow> McfgEntry \<Rightarrow> driver_state \<Rightarrow> driver_state result" where
  "scan_entry wr e = for_each (scan_bus wr (mc_address e)) [mc_firstBusNumber e..<Suc (mc_lastBusNumber e)]"

definition pcie_load :: "(u64 \<Rightarrow> u32) \<Rightarrow> McfgEntry list \<Rightarrow> driver_state \<Rightarrow> driver_state result" where
  "pcie_load wr mcfg s =
     rbind (for_each (\<lambda>i. scan_entry wr (getEntry mcfg i)) [0..<length mcfg]
       ((say ''Scanning PCIE configuration\<newline>'' [] s)\<lparr>dr_unknown := 0\<rparr>)) (\<lambda>s1.
       Inr (say ''%d unknown PCIE devices\<newline>'' [ucast (dr_unknown s1)] s1))"

section \<open>The other devices\<close>

text \<open>\<^verbatim>\<open>XhciDriver::load\<close>; the registers of the controller, as a 16-bit read sees them, are an argument.\<close>

definition xhci_getVersion :: "(u64 \<Rightarrow> u16) \<Rightarrow> ptr \<Rightarrow> u16 result" where
  "xhci_getVersion mmio registers = (if registers = nullptr then Inl NullDereference else Inr (mmio (registers + 2)))"

definition xhci_load :: "(u64 \<Rightarrow> u16) \<Rightarrow> ptr \<Rightarrow> driver_state \<Rightarrow> driver_state result" where
  "xhci_load mmio registers s =
     rbind (xhci_getVersion mmio registers) (\<lambda>version. Inr (say ''XHCI version %x\<newline>'' [ucast version] s))"

definition loadPcieDriver :: "TableManager \<Rightarrow> device" where
  "loadPcieDriver table = PcieDevice (case table of McfgTable es \<Rightarrow> es | _ \<Rightarrow> [])"

definition tableDrivers :: "(TableType \<times> (TableManager \<Rightarrow> device)) list" where
  "tableDrivers = [(MCFG, loadPcieDriver)]"

definition acpi_load_table :: "TableManager option \<Rightarrow> driver_state \<Rightarrow> driver_state" where
  "acpi_load_table t s =
     (case t of None \<Rightarrow> s
      | Some table \<Rightarrow> (case map_of tableDrivers (tm_type table) of
            Some get \<Rightarrow> s\<lparr>dr_children := dr_children s @ [get table]\<rparr>
          | None \<Rightarrow> s\<lparr>dr_unknown := dr_unknown s + 1\<rparr>))"

definition acpi_load :: "TableManager option list \<Rightarrow> driver_state \<Rightarrow> driver_state" where
  "acpi_load tables s =
     (let s1 = fold (\<lambda>i. acpi_load_table (rsdt_at tables i)) [0..<length tables]
            ((say ''Scanning ACPI tables\<newline>'' [] s)\<lparr>dr_unknown := 0\<rparr>)
      in say ''%d unused ACPI tables\<newline>'' [ucast (dr_unknown s1)] s1)"

definition device_load :: "(u64 \<Rightarrow> u32) \<Rightarrow> (u64 \<Rightarrow> u16) \<Rightarrow> device \<Rightarrow> driver_state \<Rightarrow> driver_state result" where
  "device_load wr mmio d s = (case d of
     AcpiDevice tables \<Rightarrow> Inr (acpi_load tables s)
   | PcieDevice mcfg \<Rightarrow> pcie_load wr mcfg s
   | XhciDevice registers \<Rightarrow> xhci_load mmio registers s)"

section \<open>What mapping a BAR leaves of configuration space\<close>

lemma le_bytes_read: "length bs = n \<Longrightarrow> (\<And>k. k < n \<Longrightarrow> m (a + of_nat k) = bs ! k) \<Longrightarrow> read_bytes m a n = bs"
  by (simp add: list_eq_iff_nth_eq)

lemma read_store32 [simp]: "read32 (store32 a v m) a = v"
proof -
  have "read_bytes (store32 a v m) a 4 = le_bytes 4 (unat v)"
    by (rule le_bytes_read) (simp_all add: store32_def unat_of_nat_small)
  then show ?thesis using unsigned_less [of v, where 'a = nat] by (simp add: read32_def le_value_le_bytes)
qed

lemma store32_twice [simp]: "store32 a v (store32 a w m) = store32 a v m"
  by (simp add: store32_def fun_eq_iff)

lemma offset_in_page: "unat p mod 4096 = 0 \<Longrightarrow> k < 4096 \<Longrightarrow> unat (p + of_nat k :: u64) mod 4096 = k"
proof -
  assume a: "unat p mod 4096 = 0" "k < 4096"
  then obtain q where q: "unat p = 4096 * q" by (auto elim!: dvdE simp: mod_eq_0_iff_dvd)
  have "unat (p + of_nat k) mod 4096 = (unat p + k) mod 4096"
    using a(2) by (simp add: unat_word_ariths mod_mod_cancel unat_of_nat_small)
  with a(2) q show ?thesis by simp
qed

text \<open>The bytes that identify a function: the first sixteen of its page.\<close>

definition header_same :: "byte_mem \<Rightarrow> driver_state \<Rightarrow> bool" where
  "header_same m s \<longleftrightarrow> (\<forall>a. unat a mod 4096 < 16 \<longrightarrow> dr_config s a = m a)"

lemma bar_outside_header:
  assumes "unat p mod 4096 = 0" "number \<le> 5" "unat (a - bar_address p number) < 4"
  shows "\<not> unat a mod 4096 < 16"
proof -
  let ?j = "unat (a - bar_address p number)"
  have n: "unat number \<le> 5" using assms(2) by (simp add: word_le_nat_alt)
  have u: "(ucast number :: u64) = of_nat (unat number)" by (rule ucast_eq_of_nat)
  have "a = bar_address p number + of_nat ?j" by simp
  also have "\<dots> = p + of_nat (16 + 4 * unat number + ?j)" by (simp only: bar_address_def u of_nat_add of_nat_mult of_nat_numeral add.assoc)
  finally have a: "a = p + of_nat (16 + 4 * unat number + ?j)" .
  have "16 + 4 * unat number + ?j < 4096" using n assms(3) by linarith
  from offset_in_page [OF assms(1) this] have "unat a mod 4096 = 16 + 4 * unat number + ?j" unfolding a [symmetric] .
  then show ?thesis by simp
qed

lemma writeBar_simps [simp]:
  "dr_memory (writeBar wr p n v s) = dr_memory s" "dr_children (writeBar wr p n v s) = dr_children s"
  "dr_unknown (writeBar wr p n v s) = dr_unknown s" "dr_output (writeBar wr p n v s) = dr_output s"
  by (simp_all add: writeBar_def Let_def)

lemma say_simps [simp]:
  "dr_config (say f xs s) = dr_config s" "dr_memory (say f xs s) = dr_memory s" "dr_children (say f xs s) = dr_children s"
  "dr_unknown (say f xs s) = dr_unknown s" "dr_output (say f xs s) = dr_output s @ [(f, xs)]"
  by (simp_all add: say_def)

lemma writeBar_header: "unat p mod 4096 = 0 \<Longrightarrow> n \<le> 5 \<Longrightarrow> header_same m (writeBar wr p n v s) \<longleftrightarrow> header_same m s"
  using bar_outside_header [of p n] by (auto simp: header_same_def writeBar_def Let_def store32_def)

lemma mapBar_header:
  assumes "mapBar wr p n s = Inr (q, s')" "unat p mod 4096 = 0" "header_same m s"
  shows "header_same m s'"
proof (cases "n > 5")
  case False
  then have "n \<le> 5" by simp
  note w = writeBar_header [OF assms(2) this, of m]
  have "header_same m (t\<lparr>dr_memory := x\<rparr>) \<longleftrightarrow> header_same m t" for t x by (simp add: header_same_def)
  with assms(1,3) False w show ?thesis
    by (auto simp: mapBar_def Let_def header_same_def [of m "say _ _ _"] split: if_splits)
      (simp_all add: header_same_def)
qed (use assms in \<open>auto simp: mapBar_def header_same_def\<close>)

section \<open>The scan as one pass\<close>

text \<open>The functions that the scan visits, from the configuration space as it is before the scan.\<close>

definition function_numbers :: "byte_mem \<Rightarrow> u64 \<Rightarrow> nat \<Rightarrow> nat \<Rightarrow> nat list" where
  "function_numbers m base bus dev = (if bit (getHeaderType m (PCIE_DEVICE base bus dev 0)) 7 then [0..<8] else [0])"

definition bus_functions :: "byte_mem \<Rightarrow> u64 \<Rightarrow> nat \<Rightarrow> u64 list" where
  "bus_functions m base bus =
     concat (map (\<lambda>dev. map (PCIE_DEVICE base bus dev) (function_numbers m base bus dev)) [0..<32])"

definition all_functions :: "byte_mem \<Rightarrow> McfgEntry list \<Rightarrow> u64 list" where
  "all_functions m es =
     concat (map (\<lambda>e. concat (map (bus_functions m (mc_address e)) [mc_firstBusNumber e..<Suc (mc_lastBusNumber e)])) es)"

definition function_present :: "byte_mem \<Rightarrow> u64 \<Rightarrow> bool" where
  "function_present m p \<longleftrightarrow> getHeaderType m p AND 0x7f = 0 \<and> getVendorId m p \<noteq> 0xffff"

definition is_xhci :: "byte_mem \<Rightarrow> u64 \<Rightarrow> bool" where
  "is_xhci m p \<longleftrightarrow> getClass m p = 0x0c \<and> getSubclass m p = 0x03 \<and> getRegisterInterface m p = 0x30"

definition attach :: "(u64 \<Rightarrow> u32) \<Rightarrow> byte_mem \<Rightarrow> u64 \<Rightarrow> driver_state \<Rightarrow> driver_state result" where
  "attach wr m p s =
     (let s1 = say ''Vendor: %x, device: %x, class: %x, subclass: %x\<newline>''
           [ucast (getVendorId m p), ucast (getDeviceId m p), ucast (getClass m p), ucast (getSubclass m p)] s
      in if is_xhci m p
         then rbind (mapBar wr p 0 s1) (\<lambda>(q, s2). Inr (s2\<lparr>dr_children := dr_children s2 @ [XhciDevice q]\<rparr>))
         else Inr (s1\<lparr>dr_unknown := dr_unknown s1 + 1\<rparr>))"

lemma aligned_push: "12 \<le> k \<Longrightarrow> unat (push_bit k x :: u64) mod 4096 = 0"
proof -
  assume "12 \<le> k"
  then have "push_bit k x = push_bit 12 (push_bit (k - 12) x)" by (simp add: push_bit_push_bit)
  then have "push_bit k x = push_bit (k - 12) x * 4096" by (simp add: push_bit_eq_mult)
  then show ?thesis by (simp add: unat_word_ariths mod_mod_cancel)
qed

lemma PCIE_DEVICE_aligned: "unat base mod 4096 = 0 \<Longrightarrow> unat (PCIE_DEVICE base bus dev f) mod 4096 = 0"
  by (simp add: PCIE_DEVICE_def aligned_add aligned_push)

lemma header_fields:
  assumes "header_same m s" "unat p mod 4096 = 0"
  shows "getVendorId (dr_config s) p = getVendorId m p" "getDeviceId (dr_config s) p = getDeviceId m p"
    "getClass (dr_config s) p = getClass m p" "getSubclass (dr_config s) p = getSubclass m p"
    "getRegisterInterface (dr_config s) p = getRegisterInterface m p" "getHeaderType (dr_config s) p = getHeaderType m p"
proof -
  have at: "dr_config s (p + of_nat k) = m (p + of_nat k)" if "k < 16" for k
    using assms that offset_in_page [OF assms(2), of k] by (simp add: header_same_def)
  have bytes: "read_bytes (dr_config s) (p + of_nat i) n = read_bytes m (p + of_nat i) n" if "i + n \<le> 16" for i n
    using that at [of "i + _"] by (simp add: list_eq_iff_nth_eq add.assoc)
  show "getVendorId (dr_config s) p = getVendorId m p" "getDeviceId (dr_config s) p = getDeviceId m p"
    using bytes [of 0 2] bytes [of 2 2] by (simp_all add: getVendorId_def getDeviceId_def read_PcieDeviceHeader_def read16_def)
  show "getClass (dr_config s) p = getClass m p" "getSubclass (dr_config s) p = getSubclass m p"
    "getRegisterInterface (dr_config s) p = getRegisterInterface m p" "getHeaderType (dr_config s) p = getHeaderType m p"
    using at [of 11] at [of 10] at [of 9] at [of 14]
    by (simp_all add: getClass_def getSubclass_def getRegisterInterface_def getHeaderType_def read_PcieDeviceHeader_def)
qed

lemma probe_attach:
  assumes "header_same m s" "unat p mod 4096 = 0"
  shows "probe wr p (getHeaderType m p) s = (if function_present m p then attach wr m p s else Inr s)"
proof -
  note h = header_fields [OF assms]
  have x: "driver_matches (dr_config s) p (hd pcieDrivers) \<longleftrightarrow> is_xhci m p"
    using h by (auto simp: driver_matches_def pcieDrivers_def is_xhci_def)
  show ?thesis
    using x h by (auto simp: probe_def function_present_def attach_def Let_def pcieDrivers_def loadXhciDriver_def rbind_def split: sum.split)
qed

lemma attach_header:
  assumes "attach wr m p s = Inr s'" "header_same m s" "unat p mod 4096 = 0"
  shows "header_same m s'"
  using assms mapBar_header [of wr p 0 _ _ _ m]
  by (auto simp: attach_def Let_def split: if_splits) (fastforce simp: header_same_def)+

definition visit :: "(u64 \<Rightarrow> u32) \<Rightarrow> byte_mem \<Rightarrow> u64 \<Rightarrow> driver_state \<Rightarrow> driver_state result" where
  "visit wr m p s = (if function_present m p then attach wr m p s else Inr s)"

lemma visit_header: "visit wr m p s = Inr s' \<Longrightarrow> header_same m s \<Longrightarrow> unat p mod 4096 = 0 \<Longrightarrow> header_same m s'"
  by (auto simp: visit_def split: if_splits elim: attach_header)

lemma scan_rest:
  assumes "unat base mod 4096 = 0" "header_same m s" "0 \<notin> set fs"
  shows "scan_functions wr base bus dev fs s = for_each (visit wr m) (map (PCIE_DEVICE base bus dev) fs) s"
  using assms(2,3)
proof (induction fs arbitrary: s)
  case (Cons f fs)
  let ?p = "PCIE_DEVICE base bus dev f"
  note al = PCIE_DEVICE_aligned [OF assms(1), of bus dev f]
  have "probe wr ?p (getHeaderType (dr_config s) ?p) s = visit wr m ?p s"
    unfolding header_fields(6) [OF Cons.prems(1) al] visit_def by (rule probe_attach [OF Cons.prems(1) al])
  moreover have "visit wr m ?p s = Inr s1 \<Longrightarrow> scan_functions wr base bus dev fs s1 = for_each (visit wr m) (map (PCIE_DEVICE base bus dev) fs) s1" for s1
    using Cons.IH visit_header [OF _ Cons.prems(1) al] Cons.prems(2) by auto
  ultimately show ?case using Cons.prems(2) by (cases "visit wr m ?p s") (simp_all add: Let_def)
qed simp

lemma scan_device:
  assumes "unat base mod 4096 = 0" "header_same m s"
  shows "scan_functions wr base bus dev [0..<8] s =
    for_each (visit wr m) (map (PCIE_DEVICE base bus dev) (function_numbers m base bus dev)) s"
proof -
  let ?p = "PCIE_DEVICE base bus dev 0"
  note al = PCIE_DEVICE_aligned [OF assms(1), of bus dev 0]
  have up: "[0..<8] = 0 # [1..<8::nat]" by (simp add: upt_conv_Cons)
  have probe: "probe wr ?p (getHeaderType (dr_config s) ?p) s = visit wr m ?p s"
    unfolding header_fields(6) [OF assms(2) al] visit_def by (rule probe_attach [OF assms(2) al])
  have bit: "getHeaderType m ?p AND 0x80 = 0 \<longleftrightarrow> \<not> bit (getHeaderType m ?p) 7"
    using and_push_bit_zero [of "getHeaderType m ?p" 7] by simp
  have rest: "visit wr m ?p s = Inr s1 \<Longrightarrow>
      scan_functions wr base bus dev [1..<8] s1 = for_each (visit wr m) (map (PCIE_DEVICE base bus dev) [1..<8]) s1" for s1
    using scan_rest [OF assms(1) visit_header [OF _ assms(2) al]] by simp
  show ?thesis
    unfolding up function_numbers_def
    using probe rest bit header_fields(6) [OF assms(2) al]
    by (cases "visit wr m ?p s") (auto simp: Let_def rbind_def simp del: upt_rec_numeral)
qed

definition mcfg_aligned :: "McfgEntry list \<Rightarrow> bool" where
  "mcfg_aligned es \<longleftrightarrow> (\<forall>e\<in>set es. unat (mc_address e) mod 4096 = 0)"

lemma visits_header:
  assumes "for_each (visit wr m) ps s = Inr s'" "header_same m s" "\<forall>p\<in>set ps. unat p mod 4096 = 0"
  shows "header_same m s'"
proof (rule for_each_inv [OF assms(1), where I = "header_same m", OF assms(2)])
  fix p t t' assume p: "p \<in> set ps" and t: "header_same m t" "visit wr m p t = Inr t'"
  show "header_same m t'" by (rule visit_header [OF t(2,1)]) (use assms(3) p in simp)
qed

lemma scan_bus_eq:
  assumes "unat base mod 4096 = 0" "header_same m s"
  shows "scan_bus wr base bus s = for_each (visit wr m) (bus_functions m base bus) s"
  unfolding scan_bus_def bus_functions_def for_each_concat for_each_map [of "for_each (visit wr m)"]
proof (rule for_each_cong_inv [where I = "header_same m", OF assms(2)])
  fix dev t assume "header_same m t"
  then show "scan_functions wr base bus dev [0..<8] t =
      for_each (visit wr m) (map (PCIE_DEVICE base bus dev) (function_numbers m base bus dev)) t"
    by (rule scan_device [OF assms(1)])
next
  fix dev t t'
  assume "for_each (visit wr m) (map (PCIE_DEVICE base bus dev) (function_numbers m base bus dev)) t = Inr t'" "header_same m t"
  then show "header_same m t'" by (rule visits_header) (simp add: PCIE_DEVICE_aligned [OF assms(1)])
qed

lemma bus_functions_aligned: "unat base mod 4096 = 0 \<Longrightarrow> p \<in> set (bus_functions m base bus) \<Longrightarrow> unat p mod 4096 = 0"
  by (auto simp: bus_functions_def PCIE_DEVICE_aligned)

lemma scan_entry_eq:
  assumes "unat (mc_address e) mod 4096 = 0" "header_same m s"
  shows "scan_entry wr e s =
    for_each (visit wr m) (concat (map (bus_functions m (mc_address e)) [mc_firstBusNumber e..<Suc (mc_lastBusNumber e)])) s"
  unfolding scan_entry_def for_each_concat for_each_map
proof (rule for_each_cong_inv [where I = "header_same m", OF assms(2)])
  fix bus t assume "header_same m t"
  then show "scan_bus wr (mc_address e) bus t = for_each (visit wr m) (bus_functions m (mc_address e) bus) t"
    by (rule scan_bus_eq [OF assms(1)])
next
  fix bus t t' assume "for_each (visit wr m) (bus_functions m (mc_address e) bus) t = Inr t'" "header_same m t"
  then show "header_same m t'" by (rule visits_header) (use bus_functions_aligned [OF assms(1)] in blast)
qed

lemma scan_eq:
  assumes "mcfg_aligned es" "header_same m s"
  shows "for_each (\<lambda>i. scan_entry wr (getEntry es i)) [0..<length es] s = for_each (visit wr m) (all_functions m es) s"
proof -
  have "for_each (\<lambda>i. scan_entry wr (getEntry es i)) [0..<length es] s = for_each (scan_entry wr) (map (getEntry es) [0..<length es]) s"
    by (rule for_each_map [symmetric])
  also have "map (getEntry es) [0..<length es] = es" by (rule nth_equalityI) (simp_all add: getEntry_def)
  also have "for_each (scan_entry wr) es s = for_each (visit wr m) (all_functions m es) s"
    unfolding all_functions_def for_each_concat [of _ "map _ es"] for_each_map [of "for_each (visit wr m)" _ es]
  proof (rule for_each_cong_inv [where I = "header_same m", OF assms(2)])
    fix e t assume "e \<in> set es" "header_same m t"
    with assms(1) show "scan_entry wr e t = for_each (visit wr m)
        (concat (map (bus_functions m (mc_address e)) [mc_firstBusNumber e..<Suc (mc_lastBusNumber e)])) t"
      by (intro scan_entry_eq) (simp_all add: mcfg_aligned_def)
  next
    fix e t t' assume e: "e \<in> set es" and t: "header_same m t" "for_each (visit wr m)
        (concat (map (bus_functions m (mc_address e)) [mc_firstBusNumber e..<Suc (mc_lastBusNumber e)])) t = Inr t'"
    have "unat (mc_address e) mod 4096 = 0" using assms(1) e by (simp add: mcfg_aligned_def)
    from bus_functions_aligned [OF this] show "header_same m t'" by (intro visits_header [OF t(2,1)]) (simp add: ball_Un)
  qed
  finally show ?thesis .
qed

text \<open>The address of a function determines its bus, device and function numbers.\<close>

lemma PCIE_DEVICE_offset:
  assumes "bus < 256" "dev < 32" "f < 8"
  shows "PCIE_DEVICE base bus dev f = base + of_nat ((bus * 32 + dev) * 8 + f) * 4096"
  by (simp add: PCIE_DEVICE_def push_bit_eq_mult algebra_simps)

lemma digits_inj:
  assumes "a * k + b = a' * k + b'" "b < k" "b' < (k :: nat)"
  shows "a = a' \<and> b = b'"
proof -
  have "(a * k + b) div k = a" "(a' * k + b') div k = a'" using assms(2,3) by simp_all
  with assms(1) show ?thesis by simp
qed

lemma PCIE_DEVICE_inj:
  assumes "bus < 256" "dev < 32" "f < 8" "bus' < 256" "dev' < 32" "f' < 8" "PCIE_DEVICE base bus dev f = PCIE_DEVICE base bus' dev' f'"
  shows "bus = bus' \<and> dev = dev' \<and> f = f'"
proof -
  let ?n = "(bus * 32 + dev) * 8 + f" and ?n' = "(bus' * 32 + dev') * 8 + f'"
  have b: "?n < 65536" "?n' < 65536" using assms(1-6) by auto
  have "unat (of_nat n * 4096 :: u64) = n * 4096" if "n < 65536" for n
    using that by (simp add: unat_word_ariths unat_of_nat_small)
  note u = this [OF b(1)] this [OF b(2)]
  from assms(7) have "of_nat ?n * 4096 = (of_nat ?n' * 4096 :: u64)"
    using PCIE_DEVICE_offset assms(1-6) by (metis add_left_cancel)
  with u have "?n = ?n'" by (metis mult_right_cancel zero_neq_numeral)
  from digits_inj [OF this assms(3,6)] digits_inj [of bus 32 dev bus' dev'] assms(2,5) show ?thesis by blast
qed

section \<open>Finding the size of a BAR\<close>

lemma le_bytes_le_value: "length bs = n \<Longrightarrow> le_bytes n (le_value bs) = bs"
proof (induction bs arbitrary: n)
  case (Cons b bs)
  have "(unat b + 256 * le_value bs) div 256 = le_value bs" using unsigned_less [of b, where 'a = nat] by simp
  moreover have "of_nat (unat b + 256 * le_value bs) = b"
    using unsigned_less [of b, where 'a = nat] by (subst word_unat_eq_iff) (simp add: unsigned_of_nat take_bit_eq_mod del: of_nat_add)
  ultimately show ?case using Cons by (cases n) (simp_all del: of_nat_add)
qed simp

lemma le_value_bound: "le_value bs < 256 ^ length bs"
proof (induction bs)
  case (Cons b bs)
  have "unat b < 256" using unsigned_less [of b, where 'a = nat] by simp
  then have "unat b + 256 * le_value bs < 256 * Suc (le_value bs)" by simp
  also have "\<dots> \<le> 256 * 256 ^ length bs" using Cons by (intro mult_le_mono) simp_all
  finally show ?case by simp
qed simp

lemma store32_same [simp]: "store32 a (read32 m a) m = m"
proof -
  have "unat (read32 m a) = le_value (read_bytes m a 4)"
    using le_value_bound [of "read_bytes m a 4"] by (simp add: read32_def unat_of_nat_small)
  then have "le_bytes 4 (unat (read32 m a)) = read_bytes m a 4" by (simp add: le_bytes_le_value)
  then show ?thesis by (auto simp: store32_def fun_eq_iff)
qed

lemma masks: "(0xf :: u64) = mask 4" "(0xfffffff0 :: u32) = NOT (mask 4)" "(0xffffffff :: u32) = mask 32" "(0xffffffff :: u64) = mask 32"
  by (simp_all add: mask_eq_exp_minus_1)

lemma probe_bits:
  fixes r w :: u32
  shows "w AND mask 4 = 0 \<Longrightarrow> ((r AND NOT (mask 4)) AND w) OR (((mask 32 AND w) OR (r AND NOT w)) AND NOT w) = r"
    and "4 \<le> k \<Longrightarrow> r AND mask k AND NOT (mask 4) = 0 \<Longrightarrow> ((mask 32 AND NOT (mask k)) OR (r AND NOT (NOT (mask k)))) AND NOT (mask 4) = NOT (mask k)"
proof -
  assume w: "w AND mask 4 = 0"
  have "bit w n \<Longrightarrow> 4 \<le> n" for n
    using arg_cong [OF w, of "\<lambda>x. bit x n"] by (auto simp: bit_simps dest: bit_imp_le_length)
  then show "((r AND NOT (mask 4)) AND w) OR (((mask 32 AND w) OR (r AND NOT w)) AND NOT w) = r"
    by (intro bit_word_eqI) (auto simp: bit_simps not_less)
next
  assume k: "4 \<le> k" and r: "r AND mask k AND NOT (mask 4) = 0"
  have "n < k \<Longrightarrow> 4 \<le> n \<Longrightarrow> n < 32 \<Longrightarrow> \<not> bit r n" for n using arg_cong [OF r, of "\<lambda>x. bit x n"] by (simp add: bit_simps not_less)
  then show "((mask 32 AND NOT (mask k)) OR (r AND NOT (NOT (mask k)))) AND NOT (mask 4) = NOT (mask k)"
    using k by (intro bit_word_eqI) (auto simp: bit_simps not_less)
qed

lemma bar_value:
  fixes r h :: u32
  shows "(ucast r :: u64) AND NOT (mask 4) = ucast (r AND NOT (mask 4))"
    and "((ucast r :: u64) OR push_bit 32 (ucast h)) AND NOT (mask 4) = ucast (r AND NOT (mask 4)) + push_bit 32 (ucast h)"
    and "ucast ((ucast r AND NOT (mask 4)) AND mask 32 :: u64) = r AND NOT (mask 4)"
    and "ucast ((((ucast r :: u64) OR push_bit 32 (ucast h)) AND NOT (mask 4)) AND mask 32) = r AND NOT (mask 4)"
proof -
  show "(ucast r :: u64) AND NOT (mask 4) = ucast (r AND NOT (mask 4))" by (intro bit_word_eqI) (auto simp: bit_simps dest: bit_imp_le_length)
  have "(ucast (r AND NOT (mask 4)) :: u64) + push_bit 32 (ucast h) = ucast (r AND NOT (mask 4)) OR push_bit 32 (ucast h)"
    by (rule disjunctive_add) (auto simp: bit_simps)
  moreover have "((ucast r :: u64) OR push_bit 32 (ucast h)) AND NOT (mask 4) = ucast (r AND NOT (mask 4)) OR push_bit 32 (ucast h)"
    by (intro bit_word_eqI) (auto simp: bit_simps dest: bit_imp_le_length)
  ultimately show "((ucast r :: u64) OR push_bit 32 (ucast h)) AND NOT (mask 4) = ucast (r AND NOT (mask 4)) + push_bit 32 (ucast h)" by simp
  show "ucast ((ucast r AND NOT (mask 4)) AND mask 32 :: u64) = r AND NOT (mask 4)" by (intro bit_word_eqI) (auto simp: bit_simps)
  show "ucast ((((ucast r :: u64) OR push_bit 32 (ucast h)) AND NOT (mask 4)) AND mask 32) = r AND NOT (mask 4)"
    by (intro bit_word_eqI) (auto simp: bit_simps)
qed

text \<open>The address in a BAR: 32 bits, or 64 with the next register, without the flags.\<close>

definition bar_base :: "u64 \<Rightarrow> u32 \<Rightarrow> driver_state \<Rightarrow> u64" where
  "bar_base p number s = ucast (readBar p number s AND NOT 0xf) +
     (if number < 5 \<and> PCIE_BAR_TYPE (ucast (readBar p number s)) = PCIE_BAR_64 then push_bit 32 (ucast (readBar p (number + 1) s)) else 0)"

lemma write_read_bar: "readBar p n (writeBar wr p n v s) = (v AND wr (bar_address p n)) OR (readBar p n s AND NOT (wr (bar_address p n)))"
  by (simp add: readBar_def writeBar_def Let_def)

lemma write_write_bar:
  "dr_config (writeBar wr p n v (writeBar wr p n u s)) =
     store32 (bar_address p n) ((v AND wr (bar_address p n)) OR (readBar p n (writeBar wr p n u s) AND NOT (wr (bar_address p n)))) (dr_config s)"
  by (simp add: writeBar_def [of wr p n v] Let_def) (simp add: writeBar_def Let_def)

lemma mapBar_run:
  assumes "number \<le> 5" "\<not> bit (readBar p number s) 0" "wr (bar_address p number) = NOT (mask k)" "4 \<le> k" "k < 32"
    and "readBar p number s AND mask k AND NOT 0xf = 0"
  shows "mapBar wr p number s = rbind (mapAddress (bar_base p number s) (2 ^ k) False (dr_memory s)) (\<lambda>(q, m). Inr (q, s\<lparr>dr_memory := m\<rparr>))"
proof -
  let ?a = "bar_address p number" and ?r = "readBar p number s" and ?h = "readBar p (number + 1) s"
  have f: "(0xf :: u32) = mask 4" by (simp add: mask_eq_exp_minus_1)
  have mem: "(ucast ?r :: u64) AND PCIE_BAR_MEMORY = 0"
    using assms(2) and_push_bit_zero [of "ucast ?r :: u64" 0] by (simp add: PCIE_BAR_MEMORY_def bit_simps)
  let ?s1 = "writeBar wr p number 0xffffffff s"
  have r1: "readBar p number ?s1 = (mask 32 AND NOT (mask k)) OR (?r AND NOT (NOT (mask k)))"
    by (simp add: write_read_bar assms(3) masks)
  have "readBar p number ?s1 AND 0xfffffff0 = NOT (mask k)"
    unfolding r1 masks(2) by (rule probe_bits(2) [OF assms(4,6) [unfolded f]])
  then have "NOT (readBar p number ?s1 AND 0xfffffff0) + 1 = (mask k + 1 :: u32)" by simp
  also have "\<dots> = 2 ^ k" by (simp add: mask_eq_exp_minus_1)
  finally have size32: "NOT (readBar p number ?s1 AND 0xfffffff0) + 1 = (2 ^ k :: u32)" .
  have "unat (2 ^ k :: u32) = 2 ^ k"
    using unat_of_nat_small [of "2 ^ k", where 'a = 32] assms(5) power_strict_increasing [of k 32 "2 :: nat"] by simp
  then have size: "(ucast (NOT (readBar p number ?s1 AND 0xfffffff0) + 1) :: u64) = 2 ^ k"
    unfolding size32 ucast_eq_of_nat by simp
  have w: "wr ?a AND mask 4 = 0"
    unfolding assms(3) using assms(4) by (intro bit_word_eqI) (auto simp: bit_simps)
  have restored: "dr_config (writeBar wr p number (?r AND NOT (mask 4)) ?s1) = dr_config s"
    unfolding write_write_bar write_read_bar masks(3) using probe_bits(1) [OF w, of ?r] by (simp add: readBar_def)
  then have same: "writeBar wr p number (?r AND NOT (mask 4)) ?s1 = s" by (intro driver_state.equality) simp_all
  define bar where "bar = (if number < 5 \<and> PCIE_BAR_TYPE (ucast ?r) = PCIE_BAR_64
      then ucast ?r OR push_bit 32 (ucast ?h) else ucast ?r) AND NOT (0xf :: u64)"
  have base: "bar = bar_base p number s" by (simp add: bar_def bar_base_def masks(1) f bar_value(1,2))
  have low: "ucast (bar AND 0xffffffff) = ?r AND NOT (mask 4)" by (simp add: bar_def masks(1,4) bar_value(3,4))
  have n: "\<not> number > 5" using assms(1) by simp
  show ?thesis
    unfolding mapBar_def Let_def bar_def [symmetric] if_not_P [OF n] mem base low [unfolded base] size same by simp
qed

section \<open>Properties\<close>

text \<open>
  (C36) Mapping a BAR: for a memory BAR whose register has the bits from \<open>k\<close> on writable, as the hardware of a window of
  \<open>2 ^ k\<close> bytes has it, aligned to its size, \<^verbatim>\<open>mapBar\<close> finds the size by writing ones, restores the configuration space
  exactly and maps the whole window, 32-bit or 64-bit: byte \<open>a\<close> at the pointer it returns is byte \<open>a\<close> of the window.
\<close>

theorem mapBar_correct:
  assumes "number \<le> 5" "\<not> bit (readBar p number s) 0" "wr (bar_address p number) = NOT (mask k)" "4 \<le> k" "k < 32"
    and "readBar p number s AND mask k AND NOT 0xf = 0" and "heap_ok (dr_memory s)"
    and "unat (bar_base p number s) + 2 ^ k + 4095 < 2 ^ 52"
    and "can_satisfy (PAGE_ALIGN_UP (bar_base p number s + 2 ^ k) - PAGE_ALIGN_DOWN (bar_base p number s)) (mem_virt (dr_memory s))"
    and "3 * 4096 * mapped_pages (bar_base p number s) (2 ^ k) \<le> card (free_set (mem_phys (dr_memory s)))"
  shows "\<exists>q m. mapBar wr p number s = Inr (q, s\<lparr>dr_memory := m\<rparr>) \<and> heap_ok m \<and>
    (\<forall>a < 2 ^ k. page_of m (q + of_nat a) = Some (drop_bit 12 (bar_base p number s + of_nat a)) \<and>
       unat (q + of_nat a) mod 4096 = unat (bar_base p number s + of_nat a) mod 4096)"
proof -
  have "(2 :: nat) ^ k < 2 ^ 64" using assms(5) by (intro power_strict_increasing) simp_all
  then have u: "unat (2 ^ k :: u64) = 2 ^ k" using unat_of_nat_small [of "2 ^ k", where 'a = 64] by simp
  then have "0 < (2 ^ k :: u64)" by (simp add: word_less_nat_alt)
  from mapAddress_bytes [OF assms(7) _ this assms(9,10), of False] assms(8) u obtain q m where
    "mapAddress (bar_base p number s) (2 ^ k) False (dr_memory s) = Inr (q, m)" "heap_ok m"
    "\<forall>a < 2 ^ k. page_of m (q + of_nat a) = Some (drop_bit 12 (bar_base p number s + of_nat a)) \<and>
       unat (q + of_nat a) mod 4096 = unat (bar_base p number s + of_nat a) mod 4096" by auto
  with mapBar_run [of number p s wr k, OF assms(1-6)] show ?thesis by auto
qed

text \<open>A function whose BAR 0 is a 64-bit window of 64 KiB at 0x123450000, hex, of which the lower half is in BAR 0.\<close>

definition sample_config :: byte_mem where
  "sample_config = store32 20 0x1 (store32 16 0x23450004 (\<lambda>_. 0))"

definition sample_driver_state :: driver_state where
  "sample_driver_state = \<lparr>dr_config = sample_config, dr_memory = example_heap, dr_output = [], dr_children = [], dr_unknown = 0\<rparr>"

lemma sample_bars: "readBar 0 0 sample_driver_state = 0x23450004" "readBar 0 1 sample_driver_state = 1"
  by (simp_all add: readBar_def bar_address_def sample_driver_state_def sample_config_def)
    (simp add: read32_def store32_def le_bytes_numeral read_bytes_def upt_rec unsigned_minus_1_eq_mask mask_eq_exp_minus_1)

theorem mapBar_correct_witness:
  "\<exists>q m. mapBar (\<lambda>_. NOT (mask 16)) 0 0 sample_driver_state = Inr (q, sample_driver_state\<lparr>dr_memory := m\<rparr>) \<and>
     page_of m q = Some 0x123450 \<and> page_of m (q + 0xFFFF) = Some 0x12345F"
proof -
  let ?s = sample_driver_state
  have b: "bar_base 0 0 ?s = 0x123450000"
    using sample_bars by (simp add: bar_base_def PCIE_BAR_TYPE_def PCIE_BAR_64_def push_bit_eq_mult drop_bit_eq_div)
  have h: "dr_memory ?s = example_heap" by (simp add: sample_driver_state_def)
  have "mapped_pages 0x123450000 (2 ^ 16) = 16" by (simp add: mapped_pages_def)
  moreover have "can_satisfy (PAGE_ALIGN_UP (0x123450000 + 2 ^ 16) - PAGE_ALIGN_DOWN 0x123450000) example_virt"
    by (rule example_satisfies) (simp add: PAGE_ALIGN_UP_def PAGE_ALIGN_DOWN_def)
  moreover have "0x23450004 AND mask 16 AND NOT 0xf = (0 :: u32)" by (simp add: mask_eq_exp_minus_1)
  moreover note mapBar_correct [of 0 0 ?s "\<lambda>_. NOT (mask 16)" 16]
  ultimately obtain q m where r: "mapBar (\<lambda>_. NOT (mask 16)) 0 0 ?s = Inr (q, ?s\<lparr>dr_memory := m\<rparr>)"
    and a: "\<forall>a < 2 ^ 16. page_of m (q + of_nat a) = Some (drop_bit 12 (0x123450000 + of_nat a))"
    using sample_bars example_heap_ok example_phys_ok by (auto simp: b h bit_numeral_rec)
  have "page_of m q = Some (drop_bit 12 0x123450000)" "page_of m (q + 0xFFFF) = Some (drop_bit 12 0x12345FFFF)"
    using a [rule_format, of 0] a [rule_format, of "0xFFFF"] by simp_all
  moreover have "drop_bit 12 (0x123450000 :: u64) = 0x123450" "drop_bit 12 (0x12345FFFF :: u64) = 0x12345F"
    by (simp_all add: drop_bit_eq_div)
  ultimately show ?thesis using r by (intro exI conjI) simp_all
qed

text \<open>
  (C37) The scan of PCI Express: with the configuration spaces on page boundaries, the nested loops, which read configuration space
  while mapping BARs writes to it, do exactly one pass over the functions that exist, in the order of entries, buses, devices and
  functions: function 0 of every device and the other seven of a device whose function 0 is marked multifunction, without those
  whose header is not of type 0 or whose vendor is 0xffff. Each is printed; an XHCI controller is attached with BAR 0 mapped, any other counted as unknown. No two
  buses, devices and functions have the same address.
\<close>

theorem pcie_scan_equivalence:
  assumes "mcfg_aligned es"
  shows "pcie_load wr es s =
      rbind (for_each (attach wr (dr_config s)) (filter (function_present (dr_config s)) (all_functions (dr_config s) es))
          ((say ''Scanning PCIE configuration\<newline>'' [] s)\<lparr>dr_unknown := 0\<rparr>))
        (\<lambda>s1. Inr (say ''%d unknown PCIE devices\<newline>'' [ucast (dr_unknown s1)] s1)) \<and>
    inj_on (\<lambda>(bus, dev, f). PCIE_DEVICE base bus dev f) ({..<256} \<times> {..<32} \<times> {..<8})"
proof
  let ?m = "dr_config s" and ?s = "(say ''Scanning PCIE configuration\<newline>'' [] s)\<lparr>dr_unknown := 0\<rparr>"
  have "header_same ?m ?s" by (simp add: header_same_def)
  note scan = scan_eq [OF assms(1) this, of wr]
  have "for_each (attach wr ?m) (filter (function_present ?m) ps) t = for_each (visit wr ?m) (filter (function_present ?m) ps) t" for ps t
    by (rule for_each_cong_inv [where I = "\<lambda>_. True"]) (simp_all add: visit_def)
  also have "for_each (visit wr ?m) (filter (function_present ?m) ps) t = for_each (visit wr ?m) ps t" for ps t
    by (rule for_each_filter) (simp add: visit_def)
  finally show "pcie_load wr es s = rbind (for_each (attach wr ?m) (filter (function_present ?m) (all_functions ?m es)) ?s)
        (\<lambda>s1. Inr (say ''%d unknown PCIE devices\<newline>'' [ucast (dr_unknown s1)] s1))"
    unfolding pcie_load_def scan by simp
  show "inj_on (\<lambda>(bus, dev, f). PCIE_DEVICE base bus dev f) ({..<256} \<times> {..<32} \<times> {..<8})"
    by (auto simp: inj_on_def dest: PCIE_DEVICE_inj)
qed

lemma attach_unknown:
  assumes "\<forall>p\<in>set ps. \<not> is_xhci m p"
  shows "\<exists>s'. for_each (attach wr m) ps s = Inr s' \<and> dr_unknown s' = dr_unknown s + of_nat (length ps) \<and>
    dr_children s' = dr_children s \<and> length (dr_output s') = length (dr_output s) + length ps"
  using assms
proof (induction ps arbitrary: s)
  case (Cons p ps)
  obtain s1 where s1: "attach wr m p s = Inr s1" "dr_unknown s1 = dr_unknown s + 1" "dr_children s1 = dr_children s"
    "length (dr_output s1) = Suc (length (dr_output s))" using Cons.prems by (simp add: attach_def Let_def)
  from Cons.IH [of s1] Cons.prems s1 show ?case by (auto simp: algebra_simps)
qed simp

text \<open>A bus whose configuration space reads as 0: 32 devices with one function each, none of them known.\<close>

theorem pcie_scan_equivalence_witness:
  "\<exists>s'. pcie_load (\<lambda>_. 0) [\<lparr>mc_address = 0x40000000, mc_segmentGroup = 0, mc_firstBusNumber = 0, mc_lastBusNumber = 0\<rparr>]
      (sample_driver_state\<lparr>dr_config := (\<lambda>_. 0)\<rparr>) = Inr s' \<and> dr_unknown s' = 32 \<and> dr_children s' = [] \<and> length (dr_output s') = 34"
proof -
  let ?e = "\<lparr>mc_address = 0x40000000, mc_segmentGroup = 0, mc_firstBusNumber = 0, mc_lastBusNumber = 0\<rparr>"
  let ?m = "\<lambda>_. 0 :: u8" and ?s = "sample_driver_state\<lparr>dr_config := (\<lambda>_. 0)\<rparr>"
  have "mcfg_aligned [?e]" by (simp add: mcfg_aligned_def)
  note eq = conjunct1 [OF pcie_scan_equivalence [OF this, of "\<lambda>_. 0" ?s]]
  have hd: "getHeaderType ?m p = 0" "getVendorId ?m p = 0" "\<not> is_xhci ?m p" for p
    by (simp_all add: getHeaderType_def getVendorId_def is_xhci_def getClass_def read_PcieDeviceHeader_def read16_def read_bytes_def upt_rec)
  have "filter (function_present ?m) (all_functions ?m [?e]) = map (\<lambda>dev. PCIE_DEVICE 0x40000000 0 dev 0) [0..<32]"
    by (simp add: all_functions_def bus_functions_def function_numbers_def hd function_present_def concat_map_singleton)
  with attach_unknown [of "map (\<lambda>dev. PCIE_DEVICE 0x40000000 0 dev 0) [0..<32]" ?m "\<lambda>_. 0"
      "(say ''Scanning PCIE configuration\<newline>'' [] ?s)\<lparr>dr_unknown := 0\<rparr>"] hd(3)
  show ?thesis unfolding eq by (auto simp: sample_driver_state_def)
qed

text \<open>
  A device whose BAR is not a memory window, or for which there is no room, is attached all the same, with a null pointer to its
  registers, and loading it then reads through that pointer.
\<close>

lemma xhci_without_registers:
  assumes "bit (readBar p 0 s) 0"
  shows "\<exists>s'. loadXhciDriver wr p s = Inr (XhciDevice nullptr, s') \<and> device_load wr mmio (XhciDevice nullptr) s' = Inl NullDereference"
proof -
  have "(ucast (readBar p 0 s) :: u64) AND PCIE_BAR_MEMORY \<noteq> 0"
    using assms and_push_bit_zero [of "ucast (readBar p 0 s) :: u64" 0] by (simp add: PCIE_BAR_MEMORY_def bit_simps)
  then show ?thesis by (simp add: loadXhciDriver_def mapBar_def Let_def device_load_def xhci_load_def xhci_getVersion_def)
qed

text \<open>A window of 4 GiB, none of whose lower address bits is writable, is taken to be empty.\<close>

lemma huge_bar_size: "wr (bar_address p n) = 0 \<Longrightarrow> readBar p n s AND 0xfffffff0 = 0 \<Longrightarrow>
    NOT (readBar p n (writeBar wr p n 0xffffffff s) AND 0xfffffff0) + 1 = 0"
  by (simp add: write_read_bar)

text \<open>The scan of the ACPI tables: one device for every MCFG table, in order; the other tables are counted.\<close>

lemma acpi_load_children:
  "dr_children (acpi_load tables s) = dr_children s @ [PcieDevice es. Some (McfgTable es) \<leftarrow> tables]"
  "dr_output (acpi_load tables s) = dr_output s @ [(''Scanning ACPI tables\<newline>'', []),
     (''%d unused ACPI tables\<newline>'', [ucast (of_nat (length [t. Some t \<leftarrow> tables, tm_type t \<noteq> MCFG]) :: u32)])]"
proof -
  have "fold (\<lambda>i. acpi_load_table (rsdt_at tables i)) [0..<length tables] t = fold acpi_load_table tables t" for t
  proof -
    have "fold acpi_load_table (map (rsdt_at tables) [0..<length tables]) t = fold (\<lambda>i. acpi_load_table (rsdt_at tables i)) [0..<length tables] t"
      by (simp add: fold_map comp_def)
    moreover have "map (rsdt_at tables) [0..<length tables] = tables" by (rule nth_equalityI) (simp_all add: rsdt_at_def)
    ultimately show ?thesis by simp
  qed
  note fold_eq = this
  have "fold acpi_load_table ts t = t\<lparr>dr_children := dr_children t @ [PcieDevice es. Some (McfgTable es) \<leftarrow> ts],
      dr_unknown := dr_unknown t + of_nat (length [x. Some x \<leftarrow> ts, tm_type x \<noteq> MCFG])\<rparr>" for ts t
  proof (induction ts arbitrary: t)
    case (Cons x ts)
    show ?case
    proof (cases x)
      case (Some y)
      with Cons show ?thesis by (cases y) (simp_all add: acpi_load_table_def tableDrivers_def loadPcieDriver_def)
    next
      case None
      have "acpi_load_table None t = t" by (simp add: acpi_load_table_def)
      with None Cons show ?thesis by simp
    qed
  qed simp
  then show "dr_children (acpi_load tables s) = dr_children s @ [PcieDevice es. Some (McfgTable es) \<leftarrow> tables]"
    "dr_output (acpi_load tables s) = dr_output s @ [(''Scanning ACPI tables\<newline>'', []),
     (''%d unused ACPI tables\<newline>'', [ucast (of_nat (length [t. Some t \<leftarrow> tables, tm_type t \<noteq> MCFG]) :: u32)])]"
    by (simp_all add: acpi_load_def fold_eq Let_def)
qed

end
