(* ===== verification/Boot_Paging.thy ===== *)
theory Boot_Paging
  imports Multiboot Kmalloc
begin

text \<open>
  The first page tables (\<^verbatim>\<open>arch/x86_64/kernel/pageTableInit.cpp\<close>) and the memory the kernel starts with: the four tables are static arrays
  of the kernel, which replace the mapping of the bootstrap code. Together with the parsed boot information and the constructor of the virtual
  memory map they establish the invariant that paging and the heap keep from then on.
\<close>

section \<open>The first page tables\<close>

text \<open>Where the linker puts the four arrays, at virtual addresses, and the distance of virtual from physical addresses.\<close>

record table_symbols =
  ts_kernelVirtualOffset :: u64
  ts_pml1 :: u64
  ts_pml2 :: u64
  ts_pml3 :: u64
  ts_pml4 :: u64

definition PHYSICAL_ADDRESS :: "table_symbols \<Rightarrow> u64 \<Rightarrow> u64" where
  "PHYSICAL_ADDRESS ts p = p - ts_kernelVirtualOffset ts"

definition static_frame :: "table_symbols \<Rightarrow> u64 \<Rightarrow> u64" where
  "static_frame ts p = drop_bit 12 (PHYSICAL_ADDRESS ts p)"

definition boot_entry :: "u64 \<Rightarrow> u64" where
  "boot_entry address = flags_or (flags_or address PRESENT) WRITABLE"

definition pml1_address :: "nat \<Rightarrow> u64" where
  "pml1_address i = of_nat (i * 4096 + 0x200000)"

definition initPageTables :: "table_symbols \<Rightarrow> memory \<Rightarrow> memory" where
  "initPageTables ts m =
     (let pml = static_frame ts;
          m1 = put_entry (pml (ts_pml4 ts)) 256 (boot_entry (PHYSICAL_ADDRESS ts (ts_pml3 ts))) m;
          m2 = put_entry (pml (ts_pml3 ts)) 0 (boot_entry (PHYSICAL_ADDRESS ts (ts_pml2 ts))) m1;
          m3 = put_entry (pml (ts_pml2 ts)) 1 (boot_entry (PHYSICAL_ADDRESS ts (ts_pml1 ts))) m2;
          m4 = fold (\<lambda>i. put_entry (pml (ts_pml1 ts)) i (boot_entry (pml1_address i))) [0..<512] m3;
          m5 = put_entry (pml (ts_pml4 ts)) 511 (boot_entry (PHYSICAL_ADDRESS ts (ts_pml4 ts))) m4
      in m5\<lparr>mem_cr3 := hw_frame (mem_tables m5 (pml (ts_pml4 ts)) 511)\<rparr>)"

section \<open>What they translate\<close>

lemma boot_entry_frame:
  assumes "unat p mod 4096 = 0" "unat p < 2 ^ 52"
  shows "present (boot_entry p)" "hw_frame (boot_entry p) = drop_bit 12 p"
proof -
  have u: "unat (boot_entry p) = unat p + 3"
    using assms(2) by (simp add: boot_entry_def flags_or_def PRESENT_def WRITABLE_def unat_word_ariths)
  obtain q where q: "unat p = 4096 * q" using assms(1) by (auto elim!: dvdE simp: mod_eq_0_iff_dvd)
  show "present (boot_entry p)" by (simp add: present_iff u q)
  have "unat (hw_frame (boot_entry p)) = q" using assms(2) by (simp add: unat_hw_frame u q)
  then show "hw_frame (boot_entry p) = drop_bit 12 p"
    by (simp add: word_unat_eq_iff drop_bit_eq_div unat_div q)
qed

definition symbols_ok :: "table_symbols \<Rightarrow> bool" where
  "symbols_ok ts \<longleftrightarrow> (\<forall>p\<in>{ts_pml1 ts, ts_pml2 ts, ts_pml3 ts, ts_pml4 ts}.
       unat (PHYSICAL_ADDRESS ts p) mod 4096 = 0 \<and> unat (PHYSICAL_ADDRESS ts p) < 2 ^ 52) \<and>
     distinct (map (static_frame ts) [ts_pml1 ts, ts_pml2 ts, ts_pml3 ts, ts_pml4 ts])"

lemma put_entries:
  "mem_tables (fold (\<lambda>i. put_entry f i (e i)) xs m) = (\<lambda>g j. if g = f \<and> j \<in> set xs then e j else mem_tables m g j)"
  "mem_cr3 (fold (\<lambda>i. put_entry f i (e i)) xs m) = mem_cr3 m" "mem_phys (fold (\<lambda>i. put_entry f i (e i)) xs m) = mem_phys m"
  "mem_virt (fold (\<lambda>i. put_entry f i (e i)) xs m) = mem_virt m"
  by (induction xs arbitrary: m) (auto simp: put_entry_def fun_eq_iff)

lemma pml1_entry:
  assumes "i < 512"
  shows "present (boot_entry (pml1_address i))" "hw_frame (boot_entry (pml1_address i)) = of_nat (512 + i)"
proof -
  have u: "unat (pml1_address i) = (512 + i) * 4096"
    unfolding pml1_address_def using assms by (subst unat_of_nat_small) simp_all
  have "unat (pml1_address i) mod 4096 = 0" "unat (pml1_address i) < 2 ^ 52" using assms by (simp_all only: u) simp_all
  note b = boot_entry_frame [OF this]
  show "present (boot_entry (pml1_address i))" by (rule b(1))
  have "unat (drop_bit 12 (pml1_address i)) = 512 + i" by (simp only: drop_bit_eq_div unat_div u) simp
  moreover have "unat (of_nat (512 + i) :: u64) = 512 + i" using assms by (intro unat_of_nat_small) simp
  ultimately show "hw_frame (boot_entry (pml1_address i)) = of_nat (512 + i)" by (simp only: b(2) word_unat_eq_iff)
qed

lemma initPageTables_tables:
  fixes ts m
  assumes "symbols_ok ts" "\<forall>p\<in>{ts_pml1 ts, ts_pml2 ts, ts_pml3 ts, ts_pml4 ts}. mem_tables m (static_frame ts p) = (\<lambda>_. 0)"
  defines "m' \<equiv> initPageTables ts m"
  shows "mem_cr3 m' = static_frame ts (ts_pml4 ts)"
    "mem_tables m' (static_frame ts (ts_pml4 ts)) =
       (\<lambda>_. 0)(256 := boot_entry (PHYSICAL_ADDRESS ts (ts_pml3 ts)), 511 := boot_entry (PHYSICAL_ADDRESS ts (ts_pml4 ts)))"
    "mem_tables m' (static_frame ts (ts_pml3 ts)) = (\<lambda>_. 0)(0 := boot_entry (PHYSICAL_ADDRESS ts (ts_pml2 ts)))"
    "mem_tables m' (static_frame ts (ts_pml2 ts)) = (\<lambda>_. 0)(1 := boot_entry (PHYSICAL_ADDRESS ts (ts_pml1 ts)))"
    "mem_tables m' (static_frame ts (ts_pml1 ts)) = (\<lambda>i. if i < 512 then boot_entry (pml1_address i) else 0)"
    "mem_phys m' = mem_phys m" "mem_virt m' = mem_virt m"
  using assms(1,2) boot_entry_frame(2) [of "PHYSICAL_ADDRESS ts (ts_pml4 ts)"]
  by (auto simp: m'_def initPageTables_def Let_def put_entries symbols_ok_def put_entry_def fun_eq_iff static_frame_def)

lemma not_present_0 [simp]: "\<not> present 0"
  by (simp add: present_def)

text \<open>The four tables and the pages behind them.\<close>

definition boot_table :: "table_symbols \<Rightarrow> nat list \<Rightarrow> u64 option" where
  "boot_table ts p = map_option (static_frame ts)
     (map_of [([], ts_pml4 ts), ([256], ts_pml3 ts), ([256, 0], ts_pml2 ts), ([256, 0, 1], ts_pml1 ts)] p)"

lemma initPageTables_walk:
  fixes ts m
  assumes "symbols_ok ts" "\<forall>p\<in>{ts_pml1 ts, ts_pml2 ts, ts_pml3 ts, ts_pml4 ts}. mem_tables m (static_frame ts p) = (\<lambda>_. 0)"
  defines "m' \<equiv> initPageTables ts m"
  shows "self_mapped m'" and "plain p \<Longrightarrow> length p \<le> 3 \<Longrightarrow> table_at m' p = boot_table ts p"
    and "plain (p @ [d]) \<Longrightarrow> length p = 3 \<Longrightarrow> table_at m' (p @ [d]) = (if p = [256, 0, 1] then Some (of_nat (512 + d)) else None)"
proof -
  note t = initPageTables_tables [OF assms(1,2), folded m'_def]
  have e: "present (boot_entry (PHYSICAL_ADDRESS ts p))" "hw_frame (boot_entry (PHYSICAL_ADDRESS ts p)) = static_frame ts p"
    if "p \<in> {ts_pml1 ts, ts_pml2 ts, ts_pml3 ts, ts_pml4 ts}" for p
    using boot_entry_frame [of "PHYSICAL_ADDRESS ts p"] assms(1) that by (auto simp: symbols_ok_def static_frame_def)
  show "self_mapped m'" by (simp add: self_mapped_def t e)
  have walk: "table_at m' p = boot_table ts p" if "plain p" "length p \<le> 3" for p
  proof -
    note len = that(2)
    consider "p = []" | i where "p = [i]" | i j where "p = [i, j]" | i j k where "p = [i, j, k]"
    proof (cases p rule: remdups_adj.cases)
      case (3 i j q)
      with len show ?thesis using that by (cases q) auto
    qed auto
    then show ?thesis using that(1) by cases (auto simp: boot_table_def t e plain_def)
  qed
  then show "plain p \<Longrightarrow> length p \<le> 3 \<Longrightarrow> table_at m' p = boot_table ts p" .
  assume p: "plain (p @ [d])" "length p = 3"
  from walk [of p] plain_butlast [OF p(1)] p(2) have "table_at m' p = boot_table ts p" by simp
  with p show "table_at m' (p @ [d]) = (if p = [256, 0, 1] then Some (of_nat (512 + d)) else None)"
    by (auto simp: walk_snoc boot_table_def t pml1_entry plain_def)
qed

lemma initPageTables_ok:
  fixes ts m
  assumes "symbols_ok ts" "\<forall>p\<in>{ts_pml1 ts, ts_pml2 ts, ts_pml3 ts, ts_pml4 ts}. mem_tables m (static_frame ts p) = (\<lambda>_. 0)"
    and "frames_ok (mem_phys m)"
    and "\<forall>p\<in>{ts_pml1 ts, ts_pml2 ts, ts_pml3 ts, ts_pml4 ts}. page_bytes (static_frame ts p) \<inter> free_set (mem_phys m) = {}"
  defines "m' \<equiv> initPageTables ts m"
  shows "pt_ok m'"
proof -
  note w = initPageTables_walk [OF assms(1,2), folded m'_def]
  have phys: "mem_phys m' = mem_phys m" unfolding m'_def by (rule initPageTables_tables(6) [OF assms(1,2)])
  have t: "boot_table ts p = Some f" if "is_table m' p f" for p f
    using that w(2) [of p] by (simp add: is_table_def)
  have "p = q" if "boot_table ts p = Some f" "boot_table ts q = Some f" for p q f
    using that assms(1) by (auto simp: boot_table_def symbols_ok_def split: if_splits)
  moreover have "page_bytes f \<inter> free_set (mem_phys m) = {}" if "boot_table ts p = Some f" for p f
    using that assms(4) by (auto simp: boot_table_def split: if_splits)
  ultimately show ?thesis unfolding pt_ok_def phys using w(1) assms(3) t by blast
qed

text \<open>The two megabytes from \<^verbatim>\<open>0xFFFF800000200000\<close>, where the linker puts the kernel, and nothing else besides the window of the tables.\<close>

definition kernel_window :: u64 where
  "kernel_window = 0xFFFF800000200000"

lemma kernel_window_path:
  assumes "a < 0x200000"
  shows "va_path (kernel_window + of_nat a) = [256, 0, 1, a div 4096]" "unat (kernel_window + of_nat a) \<in> heap_range"
    "unat (kernel_window + of_nat a) = 0xFFFF800000200000 + a"
proof -
  have "unat (of_nat a :: u64) = a" using assms by (intro unat_of_nat_small) simp
  then show u: "unat (kernel_window + of_nat a) = 0xFFFF800000200000 + a"
    using assms unat_add_u64 [of kernel_window "of_nat a"] by (simp add: kernel_window_def)
  have d: "a div 4096 < 512" using assms by (simp add: div_less_iff_less_mult)
  have "(0xFFFF800000200000 + a) div 4096 = 0xFFFF800000200 + a div 4096"
    using div_mult_self3 [of 4096 "0xFFFF800000200" a] by simp
  then have p: "page_number (kernel_window + of_nat a) = 0xFFFF800000200 + a div 4096" by (simp only: page_number_def u)
  have q: "(0xFFFF800000200 + x) mod 512 = x" "(0xFFFF800000200 + x) div 2 ^ 9 = 0x7FFFC000001" "(0xFFFF800000200 + x) div 2 ^ 18 = 0x3FFFE0000"
    "(0xFFFF800000200 + x) div 2 ^ 27 = 0x1FFFF00" if "x < 512" for x :: nat
  proof -
    have "(x + 512 * 0x7FFFC000001) mod 512 = x mod 512" by (rule mod_mult_self2)
    then show "(0xFFFF800000200 + x) mod 512 = x" using that by (simp add: add.commute)
  qed (use that in \<open>intro div_nat_eqI; simp\<close>)+
  show "va_path (kernel_window + of_nat a) = [256, 0, 1, a div 4096]"
    by (simp only: va_path_def va_index_page p q [OF d]) simp
  show "unat (kernel_window + of_nat a) \<in> heap_range" using assms by (simp add: u heap_range_def)
qed

lemma initPageTables_page:
  assumes "symbols_ok ts" "\<forall>p\<in>{ts_pml1 ts, ts_pml2 ts, ts_pml3 ts, ts_pml4 ts}. mem_tables m (static_frame ts p) = (\<lambda>_. 0)"
    and "va_index 39 va \<noteq> 511"
  shows "page_of (initPageTables ts m) va =
    (if [va_index 39 va, va_index 30 va, va_index 21 va] = [256, 0, 1] then Some (of_nat (512 + va_index 12 va)) else None)"
  using initPageTables_walk(3) [OF assms(1,2), of "[va_index 39 va, va_index 30 va, va_index 21 va]" "va_index 12 va"] assms(3)
  by (simp add: page_of_def va_path_def plain_def del: walk.simps)

section \<open>The memory the kernel starts with\<close>

text \<open>
  The first part of \<^verbatim>\<open>kstart\<close>: the constructor of the virtual memory map, the boot information, the page tables and the mapping of the
  RAM disk. From the parser on, the physical memory map is that of the memory state.
\<close>

definition kstart_memory ::
    "nat \<Rightarrow> table_symbols \<Rightarrow> kernel_image \<Rightarrow> ptr \<Rightarrow> ptr \<Rightarrow> u64 \<Rightarrow> boot_state \<Rightarrow> memory \<Rightarrow> (boot_state \<times> memory) result" where
  "kstart_memory fuel ts ki kernelHeapStart kernelHeapEnd mbiPointer s m =
     rbind (initVirtualMemory kernelHeapStart kernelHeapEnd m) (\<lambda>(_, m1).
     rbind (parseMbi fuel ki mbiPointer s) (\<lambda>s1.
       (let m2 = initPageTables ts (m1\<lparr>mem_phys := bt_physicalMemory s1\<rparr>); ir = bt_initramfs s1
        in if ir_size ir > 0 then
             rbind (mapAddress (ir_pointer ir) (ir_size ir) True m2) (\<lambda>(p, m3). Inr (s1\<lparr>bt_initramfs := ir\<lparr>ir_pointer := p\<rparr>\<rparr>, m3))
           else Inr (s1, m2))))"

lemma one_block_satisfies:
  assumes "boot_map 1 {x..<y} bm" "unat n \<le> y - x" "0 < n"
  shows "can_satisfy n bm"
proof -
  have "0 < unat n" using assms(3) by (simp add: word_less_nat_alt)
  then have xy: "x < y" using assms(2) by simp
  have l: "length (live bm) \<le> 1" "(\<Union>b \<in> set (live bm). bytes b) = {x..<y}"
    using assms(1) by (auto simp: boot_map_def live_def free_set_alt)
  then obtain b where b: "live bm = [b]" using xy by (cases "live bm") auto
  then have "{unat (b_start b)..<unat (b_end b)} = {x..<y}" using l(2) by (simp add: bytes_def)
  then have "unat (b_start b) = x" "unat (b_end b) = y" using xy by (metis atLeastLessThan_eq_iff atLeastLessThan_empty_iff)+
  then show ?thesis using xy assms(2) by (simp add: can_satisfy_def b capacity_def word_le_nat_alt unat_sub)
qed

lemma initVirtualMemory_ok:
  assumes "mem_virt m = blockmap_init" "page_aligned hs" "page_aligned he" "hs \<le> he"
  shows "\<exists>bm. initVirtualMemory hs he m = Inr ((), m\<lparr>mem_virt := bm\<rparr>) \<and> boot_map 1 {unat hs..<unat he} bm"
proof -
  have b: "wf_block (Block hs he)" "aligned_block (Block hs he)" "bytes (Block hs he) = {unat hs..<unat he}"
    using assms(2-4) by (simp_all add: wf_block_def aligned_block_def page_aligned_def bytes_def Block_def)
  from boot_map_add [OF boot_map_init _ b(1,2), of "mem_irq m"] obtain bm where
    "addBlock (Block hs he) (mem_irq m, blockmap_init) = Inr ((), mem_irq m, bm)" "boot_map 1 {unat hs..<unat he} bm"
    by (auto simp: b(3) BLOCKMAP_SIZE_def)
  then show ?thesis using assms(1) by (auto simp: initVirtualMemory_def on_virt_def)
qed

lemma initPageTables_heap:
  fixes ts m
  assumes "symbols_ok ts" "\<forall>p\<in>{ts_pml1 ts, ts_pml2 ts, ts_pml3 ts, ts_pml4 ts}. mem_tables m (static_frame ts p) = (\<lambda>_. 0)"
    and "frames_ok (mem_phys m)"
    and "\<forall>p\<in>{ts_pml1 ts, ts_pml2 ts, ts_pml3 ts, ts_pml4 ts}. page_bytes (static_frame ts p) \<inter> free_set (mem_phys m) = {}"
    and "boot_map 1 {unat hs..<unat he} (mem_virt m)" "0xFFFF800000400000 \<le> unat hs" "unat he \<le> 0xFFFFFF8000000000"
  defines "m' \<equiv> initPageTables ts m"
  shows "heap_ok m'" "mem_phys m' = mem_phys m" "mem_virt m' = mem_virt m"
    "a < 0x200000 \<Longrightarrow> page_of m' (kernel_window + of_nat a) = Some (of_nat (512 + a div 4096))"
proof -
  show t: "mem_phys m' = mem_phys m" "mem_virt m' = mem_virt m"
    unfolding m'_def by (rule initPageTables_tables(6,7) [OF assms(1,2)])+
  have "pt_ok m'" unfolding m'_def by (rule initPageTables_ok [OF assms(1-4)])
  moreover have "{unat hs..<unat he} \<subseteq> heap_range" using assms(6,7) by (auto simp: heap_range_def)
  ultimately show "heap_ok m'" using assms(5) by (simp add: heap_ok_def t boot_map_def)
  show "page_of m' (kernel_window + of_nat a) = Some (of_nat (512 + a div 4096))" if "a < 0x200000"
    unfolding m'_def using initPageTables_page [OF assms(1,2), of "kernel_window + of_nat a"] kernel_window_path(1) [OF that]
    by (simp add: va_path_def)
qed

section \<open>Properties\<close>

text \<open>
  (C38) The start of the memory: on boot information as the parser expects it, with the static tables cleared and inside the
  kernel's pages, a heap of whole pages above the kernel's two megabytes, and room for the RAM disk, the first part of \<^verbatim>\<open>kstart\<close>
  returns, and what it leaves satisfies the invariant that the heap and the page tables keep from then on; the kernel's own two
  megabytes stay translated as the linker placed them, and the global of the RAM disk points to its bytes.
\<close>

theorem kstart_memory_correct:
  fixes ki "is" s
  defines "ir \<equiv> bi_initramfs (summary ki is s)"
  assumes "boot_info_ok fuel ki mbi is s" and "symbols_ok ts" and "mem_virt m = blockmap_init"
    and "\<forall>p\<in>{ts_pml1 ts, ts_pml2 ts, ts_pml3 ts, ts_pml4 ts}.
           mem_tables m (static_frame ts p) = (\<lambda>_. 0) \<and> page_bytes (static_frame ts p) \<subseteq> bytes (kernel_block ki)"
    and "page_aligned hs" "page_aligned he" "hs \<le> he" "0xFFFF800000400000 \<le> unat hs" "unat he \<le> 0xFFFFFF8000000000"
    and "mapped_pages (ir_pointer ir) (ir_size ir) * 4096 \<le> unat he - unat hs"
    and "3 * 4096 * mapped_pages (ir_pointer ir) (ir_size ir) \<le>
           card (\<Union> (entry_pages ` set (usable is)) - bytes (kernel_block ki) - {0..<0x100000} - bytes (initramfs_block ir))"
  shows "\<exists>s' m'. kstart_memory fuel ts ki hs he mbi s m = Inr (s', m') \<and> heap_ok m' \<and>
    (\<forall>a < 0x200000. page_of m' (0xFFFF800000200000 + of_nat a) = Some (of_nat (512 + a div 4096))) \<and>
    ir_size (bt_initramfs s') = ir_size ir \<and>
    (\<forall>a < unat (ir_size ir). page_of m' (ir_pointer (bt_initramfs s') + of_nat a) = Some (drop_bit 12 (ir_pointer ir + of_nat a)) \<and>
       unat (ir_pointer (bt_initramfs s') + of_nat a) mod 4096 = unat (ir_pointer ir + of_nat a) mod 4096)"
proof -
  from initVirtualMemory_ok [OF assms(4,6-8)] obtain bm where
    v: "initVirtualMemory hs he m = Inr ((), m\<lparr>mem_virt := bm\<rparr>)" "boot_map 1 {unat hs..<unat he} bm" by blast
  from parseMbi_ok [OF assms(2), folded ir_def] obtain s1 where
    s1: "parseMbi fuel ki mbi s = Inr s1" "bt_initramfs s1 = ir" "frames_ok (bt_physicalMemory s1)"
      "free_set (bt_physicalMemory s1) = \<Union> (entry_pages ` set (usable is)) - bytes (kernel_block ki) - {0..<0x100000} -
        (if ir_size ir = 0 then {} else bytes (initramfs_block ir))" by blast
  let ?m1 = "m\<lparr>mem_virt := bm, mem_phys := bt_physicalMemory s1\<rparr>" let ?m2 = "initPageTables ts ?m1"
  have cleared: "\<forall>p\<in>{ts_pml1 ts, ts_pml2 ts, ts_pml3 ts, ts_pml4 ts}. mem_tables ?m1 (static_frame ts p) = (\<lambda>_. 0)"
    using assms(5) by simp
  have apart: "\<forall>p\<in>{ts_pml1 ts, ts_pml2 ts, ts_pml3 ts, ts_pml4 ts}. page_bytes (static_frame ts p) \<inter> free_set (mem_phys ?m1) = {}"
    using s1(4) assms(5) by auto
  have "boot_map 1 {unat hs..<unat he} (mem_virt ?m1)" "frames_ok (mem_phys ?m1)" using v(2) s1(3) by simp_all
  note start = initPageTables_heap [OF assms(3) cleared this(2) apart this(1) assms(9,10)]
  note ok = start(1) and t = start(2,3) and kernel = start(4)
  show ?thesis
  proof (cases "ir_size ir = 0")
    case True
    with v s1 ok kernel show ?thesis by (simp add: kstart_memory_def kernel_window_def)
  next
    case False
    then have pos: "0 < ir_size ir" by (simp add: word_neq_0_conv [symmetric])
    have lim: "unat (ir_pointer ir) < 2 ^ 32" "unat (ir_size ir) < 2 ^ 32"
      using fold_absorb_initramfs [of _ ki "is"] assms(2) by (simp_all add: ir_def summary_def boot_info_ok_def)
    then have b: "unat (ir_pointer ir) + unat (ir_size ir) + 4095 < 2 ^ 52" by simp
    let ?l = "PAGE_ALIGN_UP (ir_pointer ir + ir_size ir) - PAGE_ALIGN_DOWN (ir_pointer ir)"
    note sz = mapAddress_size [OF b, folded mapped_pages_def]
    have "0 < unat ?l" using sz(1,2) pos by (simp add: word_less_nat_alt)
    then have "0 < ?l" by (simp add: word_less_nat_alt)
    then have "can_satisfy ?l (mem_virt ?m2)"
      using one_block_satisfies [OF v(2)] sz(1) assms(11) by (simp add: t)
    moreover have "3 * 4096 * mapped_pages (ir_pointer ir) (ir_size ir) \<le> card (free_set (mem_phys ?m2))"
      using assms(12) False by (simp add: t s1(4))
    ultimately obtain p m' where m': "mapAddress (ir_pointer ir) (ir_size ir) True ?m2 = Inr (p, m')" "heap_ok m'"
      "\<forall>a < unat (ir_size ir). page_of m' (p + of_nat a) = Some (drop_bit 12 (ir_pointer ir + of_nat a)) \<and>
         unat (p + of_nat a) mod 4096 = unat (ir_pointer ir + of_nat a) mod 4096"
      "\<forall>va. unat va \<in> heap_range - free_set (mem_virt ?m2) \<longrightarrow> page_of m' va = page_of ?m2 va"
      using mapAddress_bytes [OF ok b pos, of True] by blast
    have "page_of m' (kernel_window + of_nat a) = Some (of_nat (512 + a div 4096))" if "a < 0x200000" for a
    proof -
      have "unat (kernel_window + of_nat a) \<in> heap_range - free_set (mem_virt ?m2)"
        using kernel_window_path(2,3) [OF that] that v(2) assms(9) by (simp add: t boot_map_def)
      then show ?thesis using m'(4) kernel [OF that] by simp
    qed
    with v s1 pos m' show ?thesis by (simp add: kstart_memory_def Let_def kernel_window_def)
  qed
qed

text \<open>The tables of a small kernel, and a memory with nothing in it.\<close>

definition sample_symbols :: table_symbols where
  "sample_symbols = \<lparr>ts_kernelVirtualOffset = 0xFFFF800000000000, ts_pml1 = 0xFFFF800000210000, ts_pml2 = 0xFFFF800000211000,
     ts_pml3 = 0xFFFF800000212000, ts_pml4 = 0xFFFF800000213000\<rparr>"

definition sample_memory :: memory where
  "sample_memory = \<lparr>mem_tables = (\<lambda>_ _. 0), mem_cr3 = 0, mem_phys = blockmap_init, mem_virt = blockmap_init, mem_irq = False,
     mem_word = (\<lambda>_. 0)\<rparr>"

theorem kstart_memory_correct_witness:
  "\<exists>s' m'. kstart_memory 6 sample_symbols sample_image 0xFFFF800000C00000 0xFFFF800020C00000 0x1000 sample_boot sample_memory = Inr (s', m') \<and>
     heap_ok m' \<and> page_of m' 0xFFFF800000213000 = Some 0x213 \<and> page_of m' (ir_pointer (bt_initramfs s') + 0x17FF) = Some 0x401"
proof -
  let ?ir = "bi_initramfs (summary sample_image sample_tags sample_boot)"
  have ir: "?ir = \<lparr>ir_pointer = 0x400000, ir_size = 0x1800\<rparr>" by (simp add: summary_def sample_tags_summary)
  have frames: "static_frame sample_symbols (ts_pml1 sample_symbols) = 0x210" "static_frame sample_symbols (ts_pml2 sample_symbols) = 0x211"
    "static_frame sample_symbols (ts_pml3 sample_symbols) = 0x212" "static_frame sample_symbols (ts_pml4 sample_symbols) = 0x213"
    by (simp_all add: static_frame_def PHYSICAL_ADDRESS_def sample_symbols_def drop_bit_eq_div)
  have "symbols_ok sample_symbols"
    by (simp add: symbols_ok_def frames) (simp add: PHYSICAL_ADDRESS_def sample_symbols_def)
  moreover have "mem_virt sample_memory = blockmap_init" by (simp add: sample_memory_def)
  moreover have "\<forall>p\<in>{ts_pml1 sample_symbols, ts_pml2 sample_symbols, ts_pml3 sample_symbols, ts_pml4 sample_symbols}.
      mem_tables sample_memory (static_frame sample_symbols p) = (\<lambda>_. 0) \<and> page_bytes (static_frame sample_symbols p) \<subseteq> bytes (kernel_block sample_image)"
    by (simp add: frames sample_memory_def page_bytes_def sample_blocks)
  moreover have n: "mapped_pages (ir_pointer ?ir) (ir_size ?ir) = 2" by (simp add: mapped_pages_def ir)
  let ?A = "\<Union> (entry_pages ` set (usable sample_tags)) - bytes (kernel_block sample_image) - {0..<0x100000} - bytes (initramfs_block ?ir)"
  have "{0x500000..<0x600000} \<subseteq> ?A" "finite ?A" by (auto simp: sample_tags_usable entry_pages_def sample_blocks ir)
  then have "card {0x500000..<0x600000::nat} \<le> card ?A" by (rule card_mono [rotated])
  then have "3 * 4096 * mapped_pages (ir_pointer ?ir) (ir_size ?ir) \<le> card ?A" by (simp add: n)
  ultimately obtain s' m' where r: "kstart_memory 6 sample_symbols sample_image 0xFFFF800000C00000 0xFFFF800020C00000 0x1000 sample_boot sample_memory = Inr (s', m')"
    "heap_ok m'" and a: "\<forall>a < 0x200000. page_of m' (0xFFFF800000200000 + of_nat a) = Some (of_nat (512 + a div 4096))"
    and b: "\<forall>a < unat (ir_size ?ir). page_of m' (ir_pointer (bt_initramfs s') + of_nat a) = Some (drop_bit 12 (ir_pointer ?ir + of_nat a))"
    using kstart_memory_correct [OF sample_info_ok, of sample_symbols sample_memory "0xFFFF800000C00000" "0xFFFF800020C00000"]
    by (auto simp: page_aligned_def n)
  show ?thesis
    using r a [rule_format, of "0x13000"] b [rule_format, of "0x17FF"] by (intro exI conjI) (simp_all add: ir drop_bit_eq_div)
qed

end
