(* ===== verification/Smp.thy ===== *)
theory Smp
  imports Interrupts Kmalloc
begin

text \<open>
  Starting the other CPUs: \<^verbatim>\<open>arch/x86_64/kernel/smp/smp.cpp\<close>, the loop of \<^verbatim>\<open>kstart\<close> that starts one CPU after the other, and what a
  started CPU does first (the end of the trampoline in \<^verbatim>\<open>bootstrap.S\<close> and the start of \<^verbatim>\<open>kstartApCpu\<close>): it takes the next CPU number, its
  stack and a place for its APIC id. What the hardware shows while a CPU is being started (delivery status, values of the counter of the
  HPET, readings of the volatile \<^verbatim>\<open>runningCpus\<close>) is an argument.
\<close>

section \<open>One CPU\<close>

definition APIC_INIT_IPI :: u8 where "APIC_INIT_IPI = 5"

definition APIC_STARTUP_IPI :: u8 where "APIC_STARTUP_IPI = 6"

definition SMP_TRAMPOLINE_PAGE :: u8 where "SMP_TRAMPOLINE_PAGE = 8"

record attempt =
  at_initDelivery :: "bool list"
  at_initWait :: "u64 list"
  at_startupDelivery :: "bool list"
  at_startupWait :: "u64 list"
  at_firstCheck :: u8
  at_againDelivery :: "bool list"
  at_pollStart :: u64
  at_polls :: "(u8 \<times> u64) list"
  at_lastCheck :: u8

text \<open>The polling loop: each round reads \<^verbatim>\<open>runningCpus\<close> and the time.\<close>

fun startCpu_poll :: "Hpet \<Rightarrow> u8 \<Rightarrow> u64 \<Rightarrow> (u8 \<times> u64) list \<Rightarrow> unit result" where
  "startCpu_poll h previous limit [] = Inl Diverges"
| "startCpu_poll h previous limit ((running, counter) # polls) =
     (if running = previous \<and> nanoTime counter h < limit then startCpu_poll h previous limit polls else Inr ())"

definition startCpu :: "u8 \<Rightarrow> Hpet \<Rightarrow> attempt \<Rightarrow> u8 \<Rightarrow> LocalApic \<Rightarrow> (bool \<times> LocalApic) result" where
  "startCpu apicId hpet e runningCpus a =
     (let previousRunningCpus = runningCpus
      in rbind (clearErrors a) (\<lambda>a1.
         rbind (sendIpi 0 APIC_INIT_IPI False True False apicId (at_initDelivery e) a1) (\<lambda>a2.
         rbind (hpet_wait 10000000 (at_initWait e) hpet) (\<lambda>_.
         rbind (clearErrors a2) (\<lambda>a3.
         rbind (sendIpi SMP_TRAMPOLINE_PAGE APIC_STARTUP_IPI False True False apicId (at_startupDelivery e) a3) (\<lambda>a4.
         rbind (hpet_wait 1000000 (at_startupWait e) hpet) (\<lambda>_.
           if at_firstCheck e > previousRunningCpus then Inr (True, a4)
           else
             rbind (clearErrors a4) (\<lambda>a5.
             rbind (sendIpi SMP_TRAMPOLINE_PAGE APIC_STARTUP_IPI False True False apicId (at_againDelivery e) a5) (\<lambda>a6.
               (let pollStart = nanoTime (at_pollStart e) hpet
                in rbind (startCpu_poll hpet previousRunningCpus (pollStart + 1000000000) (at_polls e)) (\<lambda>_.
                     Inr (previousRunningCpus < at_lastCheck e, a6))))))))))))"

section \<open>Stacks and numbers\<close>

text \<open>
  The state of the processors while they start: the counter and the table of \<^verbatim>\<open>smp.cpp\<close>, the table of APIC ids, the kernel with its
  schedulers and tasks, and the stack each started CPU runs on.
\<close>

record smp =
  sm_runningCpus :: u8
  sm_initialStackPointers :: "ptr list"
  sm_localApicIds :: "u8 list"
  sm_apic :: LocalApic
  sm_kernel :: kernel
  sm_rsp :: "nat \<Rightarrow> ptr option"

definition processorCount :: "smp \<Rightarrow> nat" where
  "processorCount s = unat (sm_runningCpus s)"

definition allocate_one :: "nat \<Rightarrow> ptr list \<times> memory \<Rightarrow> (ptr list \<times> memory) result" where
  "allocate_one i = (\<lambda>(table, m).
     if i < length table then rbind (allocateStack m) (\<lambda>(p, m1). Inr (table[i := p], m1)) else Inl OutOfBounds)"

definition allocateStacks :: "nat \<Rightarrow> ptr list \<times> memory \<Rightarrow> (ptr list \<times> memory) result" where
  "allocateStacks numLocalApics = for_each allocate_one [1..<numLocalApics]"

definition getInitialStackPointer :: "nat \<Rightarrow> smp \<Rightarrow> ptr result" where
  "getInitialStackPointer cpuNumber s =
     (if cpuNumber < length (sm_initialStackPointers s) then Inr (sm_initialStackPointers s ! cpuNumber) else Inl OutOfBounds)"

text \<open>A CPU that arrives: \<^verbatim>\<open>lock xadd\<close> on the counter, its stack from the table, its APIC id into the other table.\<close>

definition ap_arrives :: "u8 \<Rightarrow> smp \<Rightarrow> smp result" where
  "ap_arrives apicId s =
     (let cpuNumber = unat (sm_runningCpus s)
      in if cpuNumber < length (sm_initialStackPointers s) \<and> cpuNumber < length (sm_localApicIds s) then
           Inr (s\<lparr>sm_runningCpus := sm_runningCpus s + 1,
                  sm_rsp := (sm_rsp s)(cpuNumber := Some (sm_initialStackPointers s ! cpuNumber)),
                  sm_localApicIds := (sm_localApicIds s)[cpuNumber := apicId]\<rparr>)
         else Inl OutOfBounds)"

section \<open>All CPUs\<close>

definition PRIORITY_NORMAL :: u32 where "PRIORITY_NORMAL = 2"

text \<open>
  One round of the loop in \<^verbatim>\<open>kstart\<close>. \<open>task\<close> is what \<^verbatim>\<open>new task::ControlBlock()\<close> returns, \<open>arrives\<close> says whether the
  CPU ever comes up, and \<open>e\<close> is what is seen meanwhile.
\<close>

definition start_one :: "u8 \<Rightarrow> Hpet \<Rightarrow> (nat \<times> u8 \<times> ptr \<times> bool \<times> attempt) \<Rightarrow> smp \<Rightarrow> smp result" where
  "start_one myApicId hpet = (\<lambda>(i, apicId, task, arrives, e) s.
     if apicId \<noteq> myApicId then
       rbind (getInitialStackPointer i s) (\<lambda>stack.
       rbind (sched_init 0 (processorCount s) task ((sm_kernel s)\<lparr>k_tcb := (k_tcb (sm_kernel s))(task :=
                new_control_block\<lparr>cb_priority := PRIORITY_NORMAL, cb_originalStackPointer := stack\<rparr>)\<rparr>)) (\<lambda>k1.
       rbind (startCpu apicId hpet e (sm_runningCpus s) (sm_apic s)) (\<lambda>(started, a1).
       rbind (if arrives then ap_arrives apicId (s\<lparr>sm_kernel := k1, sm_apic := a1\<rparr>) else Inr (s\<lparr>sm_kernel := k1, sm_apic := a1\<rparr>)) (\<lambda>s1.
         if started then Inr s1 else Inl (Panic ''Error starting CPUs'')))))
     else if sm_localApicIds s = [] then Inl OutOfBounds
     else Inr (s\<lparr>sm_localApicIds := (sm_localApicIds s)[0 := apicId]\<rparr>))"

definition start_cpus :: "u8 \<Rightarrow> Hpet \<Rightarrow> (u8 \<times> ptr \<times> bool \<times> attempt) list \<Rightarrow> smp \<Rightarrow> smp result" where
  "start_cpus myApicId hpet apics = for_each (start_one myApicId hpet) (zip [0..<length apics] apics)"

section \<open>What is sent\<close>

lemma ipi_wait_delivered: "False \<in> set polls \<Longrightarrow> ipi_wait polls a = Inr a"
  by (induction polls) auto

text \<open>The register writes of one interprocessor interrupt with the errors cleared first, the latest first.\<close>

definition ipi_writes :: "u8 \<Rightarrow> u8 \<Rightarrow> u8 \<Rightarrow> (nat \<times> u32) list" where
  "ipi_writes vector messageType apicId =
     [(0x300, ipi_command vector messageType False True False), (0x310, push_bit 24 (ucast apicId)), (0x280, 0)]"

lemma send_after_clear:
  assumes "la_registers a \<noteq> nullptr" "False \<in> set polls"
  shows "\<exists>a'. rbind (clearErrors a) (\<lambda>a1. sendIpi v t False True False apicId polls a1) = Inr a' \<and> la_registers a' = la_registers a \<and>
    la_writes a' = ipi_writes v t apicId @ la_writes a"
  using assms by (simp add: clearErrors_def sendIpi_def la_writeRegister_def ipi_wait_delivered ipi_writes_def local_apic_registers)

text \<open>
  What can be seen while a CPU is started that comes up (by the last check) or does not: everything is delivered, the counter of the HPET moves on,
  the polling ends by the CPU or by the time, and the counter of CPUs is the old one or, once the CPU is up, one more.
\<close>

definition attempt_ok :: "Hpet \<Rightarrow> u8 \<Rightarrow> bool \<Rightarrow> attempt \<Rightarrow> bool" where
  "attempt_ok h previous arrives e \<longleftrightarrow>
     False \<in> set (at_initDelivery e) \<and> False \<in> set (at_startupDelivery e) \<and> False \<in> set (at_againDelivery e) \<and>
     hpet_wait 10000000 (at_initWait e) h \<noteq> Inl Diverges \<and> hpet_wait 1000000 (at_startupWait e) h \<noteq> Inl Diverges \<and>
     list_ex (\<lambda>(r, c). r \<noteq> previous \<or> nanoTime (at_pollStart e) h + 1000000000 \<le> nanoTime c h) (at_polls e) \<and>
     at_firstCheck e \<in> {previous, if arrives then previous + 1 else previous} \<and>
     at_lastCheck e = (if arrives then previous + 1 else previous)"

lemma hpet_wait_cases: "hpet_wait n cs h = Inl Diverges \<or> (\<exists>rest. hpet_wait n cs h = Inr rest)"
proof -
  have "wait_loop h e cs = Inl Diverges \<or> (\<exists>rest. wait_loop h e cs = Inr rest)" for e cs
    by (induction cs) auto
  then show ?thesis by (cases cs) auto
qed

lemma startCpu_poll_ends:
  "startCpu_poll h previous limit polls =
     (if list_ex (\<lambda>(r, c). r \<noteq> previous \<or> limit \<le> nanoTime c h) polls then Inr () else Inl Diverges)"
  by (induction polls) (auto simp: not_less split: if_splits)

definition startCpu_writes :: "u8 \<Rightarrow> bool \<Rightarrow> (nat \<times> u32) list" where
  "startCpu_writes apicId again =
     (if again then ipi_writes 8 6 apicId else []) @ ipi_writes 8 6 apicId @ ipi_writes 0 5 apicId"

lemma startCpu_ok:
  assumes "attempt_ok h previous arrives e" "la_registers a \<noteq> nullptr" "unat previous < 255"
  shows "\<exists>a'. startCpu apicId h e previous a = Inr (arrives, a') \<and> la_registers a' = la_registers a \<and>
    la_writes a' = startCpu_writes apicId (at_firstCheck e = previous) @ la_writes a"
proof -
  note ok = assms(1)[unfolded attempt_ok_def]
  have up: "previous < previous + 1"
    using assms(3) by (simp add: word_less_nat_alt unat_word_ariths)
  from send_after_clear [OF assms(2), of "at_initDelivery e" 0 APIC_INIT_IPI apicId] ok obtain b1 a1 where
    1: "clearErrors a = Inr b1" "sendIpi 0 APIC_INIT_IPI False True False apicId (at_initDelivery e) b1 = Inr a1"
       "la_registers a1 = la_registers a" "la_writes a1 = ipi_writes 0 APIC_INIT_IPI apicId @ la_writes a" by auto
  have "la_registers a1 \<noteq> nullptr" using 1(3) assms(2) by simp
  from send_after_clear [OF this, of "at_startupDelivery e" SMP_TRAMPOLINE_PAGE APIC_STARTUP_IPI apicId] ok obtain b2 a2 where
    2: "clearErrors a1 = Inr b2" "sendIpi SMP_TRAMPOLINE_PAGE APIC_STARTUP_IPI False True False apicId (at_startupDelivery e) b2 = Inr a2"
       "la_registers a2 = la_registers a1" "la_writes a2 = ipi_writes SMP_TRAMPOLINE_PAGE APIC_STARTUP_IPI apicId @ la_writes a1" by auto
  have "la_registers a2 \<noteq> nullptr" using 1(3) 2(3) assms(2) by simp
  from send_after_clear [OF this, of "at_againDelivery e" SMP_TRAMPOLINE_PAGE APIC_STARTUP_IPI apicId] ok obtain b3 a3 where
    3: "clearErrors a2 = Inr b3" "sendIpi SMP_TRAMPOLINE_PAGE APIC_STARTUP_IPI False True False apicId (at_againDelivery e) b3 = Inr a3"
       "la_registers a3 = la_registers a2" "la_writes a3 = ipi_writes SMP_TRAMPOLINE_PAGE APIC_STARTUP_IPI apicId @ la_writes a2" by auto
  obtain r1 r2 where w: "hpet_wait 10000000 (at_initWait e) h = Inr r1" "hpet_wait 1000000 (at_startupWait e) h = Inr r2"
    using ok hpet_wait_cases by metis
  have "at_firstCheck e > previous \<longleftrightarrow> at_firstCheck e \<noteq> previous" "at_firstCheck e > previous \<Longrightarrow> arrives"
    "previous < at_lastCheck e \<longleftrightarrow> arrives" using ok up by (auto split: if_splits)
  then show ?thesis
    using 1 2 3 w ok
    by (auto simp: startCpu_def Let_def startCpu_poll_ends startCpu_writes_def SMP_TRAMPOLINE_PAGE_def APIC_STARTUP_IPI_def APIC_INIT_IPI_def)
qed

section \<open>All CPUs\<close>

text \<open>The number that the CPU with index \<open>i\<close> in the list of APICs gets when CPU 0 is at index \<open>k\<close>.\<close>

definition cpu_number :: "nat \<Rightarrow> nat \<Rightarrow> nat" where
  "cpu_number k i = (if i = k then 0 else if i < k then i + 1 else i)"

lemma cpu_number_inj: "cpu_number k i = cpu_number k j \<Longrightarrow> i = j"
  by (auto simp: cpu_number_def split: if_splits)

lemma sched_init_fresh:
  assumes "\<not> locked (cb_runLock (k_tcb k task))"
  shows "\<exists>k'. sched_init 0 n task k = Inr k' \<and> (\<forall>t. cb_originalStackPointer (k_tcb k' t) = cb_originalStackPointer (k_tcb k t)) \<and>
    (\<forall>t. t \<noteq> task \<longrightarrow> k_tcb k' t = k_tcb k t) \<and>
    (\<forall>c. sc_currentTask (k_sched k' c) = (if c = n then task else sc_currentTask (k_sched k c)))"
  using assms by (simp add: sched_init_def lockTask_def acquire_def upd_sched_def upd_task_def set_irq_def)

text \<open>
  What holds when the first \<open>j\<close> indices have been visited: as many CPUs run as were visited, and each has the stack of its number, its APIC id
  under its number, and a task that is current on its scheduler.
\<close>

definition started :: "nat \<Rightarrow> (u8 \<times> ptr \<times> bool \<times> attempt) list \<Rightarrow> nat \<Rightarrow> smp \<Rightarrow> bool" where
  "started k apics j s \<longleftrightarrow>
     length (sm_initialStackPointers s) = 64 \<and> length (sm_localApicIds s) = 64 \<and> la_registers (sm_apic s) \<noteq> nullptr \<and>
     unat (sm_runningCpus s) = (if j \<le> k then j + 1 else j) \<and>
     (\<forall>i<j. sm_localApicIds s ! cpu_number k i = fst (apics ! i) \<and>
        (i \<noteq> k \<longrightarrow>
           sm_rsp s (cpu_number k i) = Some (sm_initialStackPointers s ! cpu_number k i) \<and>
           sc_currentTask (k_sched (sm_kernel s) (cpu_number k i)) = fst (snd (apics ! i)) \<and>
           cb_originalStackPointer (k_tcb (sm_kernel s) (fst (snd (apics ! i)))) = sm_initialStackPointers s ! i))"

lemma start_one_step:
  assumes "started k apics j s" "j < length apics" "length apics \<le> 64" "k < length apics"
    "apics ! j = (apicId, task, arrives, e)" "fst (apics ! k) = myApicId" "distinct (map fst apics)" "distinct (map (fst \<circ> snd) apics)"
    "j \<noteq> k \<Longrightarrow> arrives \<and> attempt_ok h (sm_runningCpus s) True e"
  shows "\<exists>s'. start_one myApicId h (j, apicId, task, arrives, e) s = Inr s' \<and> started k apics (Suc j) s' \<and>
    sm_initialStackPointers s' = sm_initialStackPointers s"
proof (cases "j = k")
  case True
  have id: "apicId = myApicId" using assms(5,6) True by simp
  show ?thesis
    using assms(1,5) True id by (auto simp: start_one_def started_def cpu_number_def nth_list_update less_Suc_eq)
next
  case False
  have "map fst apics ! j \<noteq> map fst apics ! k"
    using assms(2,4,7) False nth_eq_iff_index_eq [of "map fst apics" j k] by simp
  then have id: "apicId \<noteq> myApicId" using assms(2,4,5,6) by simp
  have l: "length (sm_initialStackPointers s) = 64" "length (sm_localApicIds s) = 64" "la_registers (sm_apic s) \<noteq> nullptr"
    "unat (sm_runningCpus s) = cpu_number k j" "cpu_number k j < 64"
    using assms(1-4) False by (auto simp: started_def cpu_number_def)
  have other: "fst (snd (apics ! i)) \<noteq> task" if "i < j" for i
    using nth_eq_iff_index_eq [OF assms(8), of i j] that assms(2,5) by simp
  let ?k = "(sm_kernel s)\<lparr>k_tcb := (k_tcb (sm_kernel s))(task :=
    new_control_block\<lparr>cb_priority := PRIORITY_NORMAL, cb_originalStackPointer := sm_initialStackPointers s ! j\<rparr>)\<rparr>"
  from sched_init_fresh [of ?k task "cpu_number k j"] obtain k' where
    k': "sched_init 0 (cpu_number k j) task ?k = Inr k'" "\<forall>t. cb_originalStackPointer (k_tcb k' t) = cb_originalStackPointer (k_tcb ?k t)"
      "\<forall>c. sc_currentTask (k_sched k' c) = (if c = cpu_number k j then task else sc_currentTask (k_sched (sm_kernel s) c))"
    by (auto simp: new_control_block_def spinlock_init_def locked_def)
  have up: "arrives" "attempt_ok h (sm_runningCpus s) True e" using assms(9) [OF False] by simp_all
  from startCpu_ok [OF up(2) l(3)] l(4,5) obtain a' where
    a': "startCpu apicId h e (sm_runningCpus s) (sm_apic s) = Inr (True, a')" "la_registers a' = la_registers (sm_apic s)" by auto
  have step: "unat (sm_runningCpus s + 1) = unat (sm_runningCpus s) + 1" using l(4,5) by (simp add: unat_word_ariths)
  have num: "cpu_number k i \<noteq> cpu_number k j" if "i < j" for i using that cpu_number_inj by blast
  let ?s = "s\<lparr>sm_kernel := k', sm_apic := a', sm_runningCpus := sm_runningCpus s + 1,
     sm_rsp := (sm_rsp s)(cpu_number k j := Some (sm_initialStackPointers s ! cpu_number k j)),
     sm_localApicIds := (sm_localApicIds s)[cpu_number k j := apicId]\<rparr>"
  have "start_one myApicId h (j, apicId, task, arrives, e) s = Inr ?s"
    using id l k'(1) a'(1) up(1) assms(2,3)
    by (simp add: start_one_def getInitialStackPointer_def processorCount_def ap_arrives_def Let_def)
  moreover have "started k apics (Suc j) ?s"
    using assms(1,5) l a'(2) k'(2,3) num other False step
    by (auto simp: started_def less_Suc_eq nth_list_update cpu_number_def)
  ultimately show ?thesis by simp
qed

definition apic_id :: "u8 \<times> ptr \<times> bool \<times> attempt \<Rightarrow> u8" where
  "apic_id = fst"

definition initial_task :: "u8 \<times> ptr \<times> bool \<times> attempt \<Rightarrow> ptr" where
  "initial_task = fst \<circ> snd"

definition comes_up :: "Hpet \<Rightarrow> u8 \<Rightarrow> u8 \<times> ptr \<times> bool \<times> attempt \<Rightarrow> bool" where
  "comes_up h n = (\<lambda>(_, _, arrives, e). arrives \<and> attempt_ok h n True e)"

lemma start_cpus_prefix:
  assumes "started k apics 0 s" "length apics \<le> 64" "k < length apics" "apic_id (apics ! k) = myApicId"
    "distinct (map apic_id apics)" "distinct (map initial_task apics)"
    "\<forall>i<length apics. i \<noteq> k \<longrightarrow> comes_up h (of_nat (cpu_number k i)) (apics ! i)" "j \<le> length apics"
  shows "\<exists>s'. for_each (start_one myApicId h) (zip [0..<j] (take j apics)) s = Inr s' \<and> started k apics j s' \<and>
    sm_initialStackPointers s' = sm_initialStackPointers s"
  using assms(8)
proof (induction j)
  case (Suc j)
  then obtain s1 where s1: "for_each (start_one myApicId h) (zip [0..<j] (take j apics)) s = Inr s1" "started k apics j s1"
    "sm_initialStackPointers s1 = sm_initialStackPointers s" by auto
  obtain apicId task arrives e where j: "apics ! j = (apicId, task, arrives, e)" by (cases "apics ! j")
  have "arrives \<and> attempt_ok h (sm_runningCpus s1) True e" if "j \<noteq> k"
  proof -
    have "sm_runningCpus s1 = of_nat (unat (sm_runningCpus s1))" by simp
    also have "unat (sm_runningCpus s1) = cpu_number k j" using s1(2) that by (auto simp: started_def cpu_number_def)
    finally show ?thesis using assms(7) [rule_format, of j] that Suc.prems j by (simp add: comes_up_def)
  qed
  from start_one_step [OF s1(2) _ assms(2,3) j _ _ _ this] assms(4-6) Suc.prems obtain s2 where
    "start_one myApicId h (j, apicId, task, arrives, e) s1 = Inr s2" "started k apics (Suc j) s2"
    "sm_initialStackPointers s2 = sm_initialStackPointers s1" by (auto simp: apic_id_def initial_task_def)
  moreover have "zip [0..<Suc j] (take (Suc j) apics) = zip [0..<j] (take j apics) @ [(j, apicId, task, arrives, e)]"
    using Suc.prems j by (simp add: take_Suc_conv_app_nth)
  ultimately show ?case using s1 by (simp add: for_each_append)
qed (use assms(1) in \<open>simp add: started_def\<close>)

section \<open>Properties\<close>

text \<open>
  (C39) Starting the CPUs: for a list of up to 64 APICs with different ids, CPU 0 at any index \<open>k\<close> of it, and CPUs that all come up, the
  loop ends without a panic, every CPU of the list gets a number of its own, and under that number it has the initial stack of that number,
  its APIC id and its initial task on its scheduler. But the stack recorded in that task, which is freed when the task ends, is
  the one at the index in the list; these are the stacks the CPUs run on if and only if CPU 0 is first in the list.
\<close>

theorem start_cpus_correct:
  assumes "sm_runningCpus s = 1" "length (sm_initialStackPointers s) = 64" "length (sm_localApicIds s) = 64"
    "la_registers (sm_apic s) \<noteq> nullptr" "length apics \<le> 64" "k < length apics" "apic_id (apics ! k) = myApicId"
    "distinct (map apic_id apics)" "distinct (map initial_task apics)"
    "distinct (take (length apics) (sm_initialStackPointers s))" "\<forall>i<length apics. i \<noteq> k \<longrightarrow> comes_up h (of_nat (cpu_number k i)) (apics ! i)"
  shows "\<exists>s'. start_cpus myApicId h apics s = Inr s' \<and> processorCount s' = length apics \<and>
    bij_betw (cpu_number k) {..<length apics} {..<length apics} \<and>
    (\<forall>i<length apics. let c = cpu_number k i in sm_localApicIds s' ! c = apic_id (apics ! i) \<and>
       (i \<noteq> k \<longrightarrow> sm_rsp s' c = Some (sm_initialStackPointers s ! c) \<and>
          sc_currentTask (k_sched (sm_kernel s') c) = initial_task (apics ! i) \<and>
          cb_originalStackPointer (k_tcb (sm_kernel s') (initial_task (apics ! i))) = sm_initialStackPointers s ! i)) \<and>
    ((\<forall>i<length apics. i \<noteq> k \<longrightarrow>
        sm_rsp s' (cpu_number k i) = Some (cb_originalStackPointer (k_tcb (sm_kernel s') (initial_task (apics ! i)))))
     \<longleftrightarrow> k = 0)"
proof -
  have "started k apics 0 s" using assms(1-4) by (simp add: started_def)
  from start_cpus_prefix [OF this assms(5-9,11) order_refl] obtain s' where
    s': "start_cpus myApicId h apics s = Inr s'" "started k apics (length apics) s'" "sm_initialStackPointers s' = sm_initialStackPointers s"
    by (auto simp: start_cpus_def)
  have "inj_on (cpu_number k) {..<length apics}" using cpu_number_inj by (auto intro: inj_onI)
  moreover have "cpu_number k ` {..<length apics} \<subseteq> {..<length apics}" using assms(6) by (auto simp: cpu_number_def)
  ultimately have bij: "bij_betw (cpu_number k) {..<length apics} {..<length apics}" by (simp add: bij_betw_def endo_inj_surj)
  have each: "sm_localApicIds s' ! cpu_number k i = apic_id (apics ! i) \<and>
       (i \<noteq> k \<longrightarrow> sm_rsp s' (cpu_number k i) = Some (sm_initialStackPointers s ! cpu_number k i) \<and>
          sc_currentTask (k_sched (sm_kernel s') (cpu_number k i)) = initial_task (apics ! i) \<and>
          cb_originalStackPointer (k_tcb (sm_kernel s') (initial_task (apics ! i))) = sm_initialStackPointers s ! i)"
    if "i < length apics" for i using s'(2,3) that by (simp add: started_def apic_id_def initial_task_def)
  have "(\<forall>i<length apics. i \<noteq> k \<longrightarrow>
        sm_rsp s' (cpu_number k i) = Some (cb_originalStackPointer (k_tcb (sm_kernel s') (initial_task (apics ! i)))))
     \<longleftrightarrow> (\<forall>i<length apics. i \<noteq> k \<longrightarrow> sm_initialStackPointers s ! cpu_number k i = sm_initialStackPointers s ! i)"
    using each by auto
  also have "\<dots> \<longleftrightarrow> k = 0"
  proof (cases k)
    case (Suc k')
    then have two: "1 < length apics" "0 < length apics" using assms(6) by linarith+
    then have "sm_initialStackPointers s ! 1 \<noteq> sm_initialStackPointers s ! 0"
      using assms(2,5) nth_eq_iff_index_eq [OF assms(10), of 1 0] by (simp del: length_greater_0_conv)
    with two Suc show ?thesis by (auto simp: cpu_number_def intro!: exI [of _ 0])
  qed (simp add: cpu_number_def)
  finally show ?thesis
    using s'(1,2) bij each assms(6) by (auto simp: processorCount_def started_def Let_def)
qed

text \<open>Three CPUs, the second of them the one that starts the others; the last needs the second startup interrupt.\<close>

definition three_cpu_hpet :: Hpet where
  "three_cpu_hpet = \<lparr>hp_registerPointer = 0xFED00000, hp_frequencyFemtos = 10000000, hp_file = (\<lambda>_. 0)\<rparr>"

definition sample_attempt :: "u8 \<Rightarrow> bool \<Rightarrow> attempt" where
  "sample_attempt n late = \<lparr>at_initDelivery = [True, False], at_initWait = [0, 500000, 1000000], at_startupDelivery = [False],
     at_startupWait = [1000000, 1100000], at_firstCheck = (if late then n else n + 1), at_againDelivery = [False], at_pollStart = 1100000,
     at_polls = [(n, 1100001), (n + 1, 1200000)], at_lastCheck = n + 1\<rparr>"

definition sample_apics :: "(u8 \<times> ptr \<times> bool \<times> attempt) list" where
  "sample_apics = [(2, 0x1000, True, sample_attempt 1 False), (0, 0x2000, False, sample_attempt 0 False), (4, 0x3000, True, sample_attempt 2 True)]"

definition sample_kernel :: kernel where
  "sample_kernel = \<lparr>k_tcb = (\<lambda>_. new_control_block), k_sched = (\<lambda>_. scheduler_init), k_cpuCount = 1,
     k_mail = (\<lambda>_. \<lparr>mb_lock = spinlock_init, mb_callback = False, mb_callerCanReturn = False\<rparr>), k_regs = (\<lambda>_. zero_registers),
     k_halted = (\<lambda>_. False), k_stacks = []\<rparr>"

definition sample_smp :: smp where
  "sample_smp = \<lparr>sm_runningCpus = 1, sm_initialStackPointers = [0, 0x10000, 0x20000] @ replicate 61 0, sm_localApicIds = replicate 64 0,
     sm_apic = \<lparr>la_registers = 0xFEE00000, la_file = (\<lambda>_. 0), la_writes = []\<rparr>, sm_kernel = sample_kernel, sm_rsp = (\<lambda>_. None)\<rparr>"

lemma sample_attempt_ok: "attempt_ok three_cpu_hpet n True (sample_attempt n late)"
  by (cases late) (simp_all add: attempt_ok_def sample_attempt_def three_cpu_hpet_def nanoTime_def)

theorem start_cpus_correct_witness:
  "\<exists>s'. start_cpus 0 three_cpu_hpet sample_apics sample_smp = Inr s' \<and> processorCount s' = 3 \<and> sm_localApicIds s' ! 2 = 4 \<and>
     sm_rsp s' 1 = Some 0x10000 \<and> cb_originalStackPointer (k_tcb (sm_kernel s') 0x1000) = 0"
proof -
  have len: "length sample_apics = 3" by (simp add: sample_apics_def)
  have three: "(\<forall>i<3. P i) \<longleftrightarrow> P 0 \<and> P 1 \<and> P 2" for P :: "nat \<Rightarrow> bool" by (auto simp: less_Suc_eq numeral_eq_Suc)
  have "\<forall>i<length sample_apics. i \<noteq> 1 \<longrightarrow> comes_up three_cpu_hpet (of_nat (cpu_number 1 i)) (sample_apics ! i)"
    unfolding len three using sample_attempt_ok by (simp add: sample_apics_def comes_up_def cpu_number_def)
  moreover have "length (sm_initialStackPointers sample_smp) = 64" "length (sm_localApicIds sample_smp) = 64"
    "la_registers (sm_apic sample_smp) \<noteq> nullptr" "sm_runningCpus sample_smp = 1"
    "distinct (take (length sample_apics) (sm_initialStackPointers sample_smp))"
    "distinct (map apic_id sample_apics)" "distinct (map initial_task sample_apics)" "apic_id (sample_apics ! 1) = 0"
    by (simp_all add: sample_smp_def sample_apics_def apic_id_def initial_task_def)
  ultimately obtain s' where s': "start_cpus 0 three_cpu_hpet sample_apics sample_smp = Inr s'" "processorCount s' = 3"
    and all: "\<forall>i<3. let c = cpu_number 1 i in sm_localApicIds s' ! c = apic_id (sample_apics ! i) \<and>
       (i \<noteq> 1 \<longrightarrow> sm_rsp s' c = Some (sm_initialStackPointers sample_smp ! c) \<and>
          sc_currentTask (k_sched (sm_kernel s') c) = initial_task (sample_apics ! i) \<and>
          cb_originalStackPointer (k_tcb (sm_kernel s') (initial_task (sample_apics ! i))) = sm_initialStackPointers sample_smp ! i)"
    using start_cpus_correct [of sample_smp sample_apics 1 0 three_cpu_hpet] len by auto
  from all have "sm_localApicIds s' ! 2 = 4" "sm_rsp s' 1 = Some 0x10000" "cb_originalStackPointer (k_tcb (sm_kernel s') 0x1000) = 0"
    by (simp_all add: three cpu_number_def sample_apics_def apic_id_def initial_task_def sample_smp_def)
  with s' show ?thesis by blast
qed

text \<open>A CPU that does not come up: two startup interrupts, and a panic.\<close>

lemma start_one_fails:
  assumes "attempt_ok h (sm_runningCpus s) False e" "la_registers (sm_apic s) \<noteq> nullptr" "unat (sm_runningCpus s) < 255"
    "i < length (sm_initialStackPointers s)" "apicId \<noteq> myApicId"
  shows "start_one myApicId h (i, apicId, task, False, e) s = Inl (Panic ''Error starting CPUs'')"
proof -
  let ?k = "(sm_kernel s)\<lparr>k_tcb := (k_tcb (sm_kernel s))(task :=
    new_control_block\<lparr>cb_priority := PRIORITY_NORMAL, cb_originalStackPointer := sm_initialStackPointers s ! i\<rparr>)\<rparr>"
  obtain k' where "sched_init 0 (processorCount s) task ?k = Inr k'"
    using sched_init_fresh [of ?k task "processorCount s"] by (auto simp: new_control_block_def spinlock_init_def locked_def)
  with startCpu_ok [OF assms(1-3), of apicId] assms(4,5) show ?thesis by (auto simp: start_one_def getInitialStackPointer_def)
qed

text \<open>The table of stacks: entry 0 stays what it was, null, and each of the others is the result of an allocation.\<close>

lemma allocateStacks_table:
  assumes "allocateStacks n (table, m) = Inr (table', m')"
  shows "length table' = length table \<and> n \<le> max 1 (length table) \<and> (\<forall>i. i = 0 \<or> n \<le> i \<longrightarrow> table' ! i = table ! i) \<and>
    (\<forall>i. 0 < i \<longrightarrow> i < n \<longrightarrow> (\<exists>m1 m2. allocateStack m1 = Inr (table' ! i, m2)))"
  using assms
proof (induction n arbitrary: table' m')
  case (Suc n)
  show ?case
  proof (cases n)
    case 0
    with Suc.prems show ?thesis by (simp add: allocateStacks_def)
  next
    case (Suc n')
    then have "[1..<Suc n] = [1..<n] @ [n]" by simp
    with Suc.prems obtain t1 m1 where 1: "allocateStacks n (table, m) = Inr (t1, m1)" "allocate_one n (t1, m1) = Inr (table', m')"
      by (auto simp: allocateStacks_def for_each_append)
    from 1(2) obtain p where p: "n < length t1" "allocateStack m1 = Inr (p, m')" "table' = t1[n := p]"
      by (auto simp: allocate_one_def split: if_splits)
    with Suc.IH [OF 1(1)] Suc show ?thesis by (auto simp: nth_list_update less_Suc_eq)
  qed
qed (simp add: allocateStacks_def)

end
