(* ===== verification/Startup.thy ===== *)
theory Startup
  imports Smp
begin

text \<open>
  The start of the kernel (\<^verbatim>\<open>arch/x86_64/kernel/startup.cpp\<close>, \<^verbatim>\<open>cpuidCheck.cpp\<close>): the check of the CPU, the search for the hardware tables and its panics,
  and what every CPU does from the point where all CPUs are up until its initial
  thread ends, as a step relation. CPU 0 runs the end of \<^verbatim>\<open>kstart\<close>, the others \<^verbatim>\<open>kstartApCpu\<close>, then all of them \<^verbatim>\<open>kRun\<close> with its two barriers, a second
  thread on every CPU and the race for the hardware initialisation. A step is one access to what the CPUs share; the steps of
  different CPUs and threads can interleave in any order. The scheduling of the threads of one CPU and the inside of the
  cross-CPU call are the subject of the scheduler.
\<close>

section \<open>Features of the CPU\<close>

definition CPUID_8000_0001_EDX_RDTSCP :: u32 where
  "CPUID_8000_0001_EDX_RDTSCP = push_bit 27 1"

text \<open>
  \<open>cpuid\<close> gives the four registers of a leaf, nothing for a leaf the CPU does not have (then \<^verbatim>\<open>__get_cpuid\<close> leaves its arguments alone).
  Only the last register of the second leaf is used.
\<close>

definition get_cpuid :: "(u32 \<Rightarrow> (u32 \<times> u32 \<times> u32 \<times> u32) option) \<Rightarrow> u32 \<Rightarrow> u32 \<times> u32 \<times> u32 \<times> u32 \<Rightarrow> u32 \<times> u32 \<times> u32 \<times> u32" where
  "get_cpuid cpuid leaf regs = (case cpuid leaf of None \<Rightarrow> regs | Some r \<Rightarrow> r)"

definition checkCpuidFlags :: "(u32 \<Rightarrow> (u32 \<times> u32 \<times> u32 \<times> u32) option) \<Rightarrow> bool" where
  "checkCpuidFlags cpuid =
     (let regs1 = get_cpuid cpuid 1 (0, 0, 0, 0); (eax, ebx, ecx, edx) = get_cpuid cpuid 0x80000001 regs1
      in \<not> edx AND CPUID_8000_0001_EDX_RDTSCP = 0)"

text \<open>Without the extended leaf the standard one is tested: bit 27 of its last register, which means self snoop and not \<^verbatim>\<open>rdtscp\<close>.\<close>

lemma checkCpuidFlags_without_leaf:
  assumes "cpuid 0x80000001 = None" "cpuid 1 = Some (eax, ebx, ecx, edx)"
  shows "checkCpuidFlags cpuid \<longleftrightarrow> bit edx 27"
  using assms and_push_bit_zero [of edx 27] by (simp add: checkCpuidFlags_def get_cpuid_def CPUID_8000_0001_EDX_RDTSCP_def)

section \<open>Finding the hardware\<close>

text \<open>What the search in \<^verbatim>\<open>kstart\<close> changes: the local APIC, the ports, the mappings and the number of CPUs.\<close>

record hardware =
  hw_apic :: LocalApic
  hw_ports :: port_log
  hw_ledger :: ledger
  hw_numCpus :: u32

text \<open>\<^verbatim>\<open>"RSD PTR "\<close>\<close>

definition rsdp_signature :: "u8 list" where
  "rsdp_signature = [0x52, 0x53, 0x44, 0x20, 0x50, 0x54, 0x52, 0x20]"

text \<open>
  The part of \<^verbatim>\<open>kstart\<close> from the check of the root pointer to the number of CPUs. The result of \<^verbatim>\<open>loadTable\<close> is cast to a root table without a test
  of its type. \<open>device\<close> is what the registers of the HPET hold.
\<close>

definition kstart_acpi :: "nat \<Rightarrow> byte_mem \<Rightarrow> u64 \<Rightarrow> (nat \<Rightarrow> u64) \<Rightarrow> hardware \<Rightarrow> (TableManager option list \<times> Hpet \<times> madt \<times> hardware) result" where
  "kstart_acpi fuel m rsdp device hw =
     (if rp_signature (read_rsdp m rsdp) \<noteq> rsdp_signature then Inl (Panic ''No ACPI found'')
      else if \<not> rsdp_doChecksum m rsdp then Inl (Panic ''Checksum of RSDP failed'')
      else
        (let rsdtAddress = (if rp_revision (read_rsdp m rsdp) \<ge> 2 then rp_xsdtAddress (read_rsdp m rsdp)
                            else ucast (rp_rsdtAddress (read_rsdp m rsdp)))
         in rbind (loadTable fuel m rsdtAddress (hw_ledger hw)) (\<lambda>(table, l1).
              case table of
                None \<Rightarrow> Inl (Panic ''Error loading RSDT'')
              | Some (RsdtTable rsdt) \<Rightarrow>
                 (case rsdt_get rsdt HPET 0 of
                    Some (HpetTable hpetTable) \<Rightarrow>
                      if ht_numComparators hpetTable = 0 then Inl (Panic ''No usable HPET found'')
                      else (case ht_physicalAddress hpetTable of
                              None \<Rightarrow> Inl Undefined
                            | Some hpetAddress \<Rightarrow>
                               (let (hpet, l2) = Hpet_Hpet hpetAddress device l1
                                in rbind (getFrequencyKhz hpet) (\<lambda>_.
                                     case rsdt_get rsdt MADT 0 of
                                       Some (MadtTable madt) \<Rightarrow>
                                         rbind (la_enable (la_init (md_localApicAddress madt) (hw_apic hw))) (\<lambda>a1.
                                           Inr (rsdt, hpet, madt, hw\<lparr>hw_apic := a1, hw_ledger := l2,
                                             hw_ports := (if md_hasPic madt then disablePic (hw_ports hw) else hw_ports hw),
                                             hw_numCpus := of_nat (length (md_localApics madt))\<rparr>))
                                     | _ \<Rightarrow> Inl (Panic ''No MADT found''))))
                  | _ \<Rightarrow> Inl (Panic ''No HPET found''))
              | Some _ \<Rightarrow> Inl Undefined)))"

text \<open>
  What is known when the search succeeds: the checksums of the root pointer and of the root table are right, the timer and the interrupt
  controller are the first of their kind in the root table and the timer has a comparator; the local APIC is mapped and enabled, and both
  legacy controllers are masked where there are any.
\<close>

lemma kstart_acpi_found:
  assumes "kstart_acpi (Suc fuel) m rsdp device hw = Inr (rsdt, hpet, madt, hw')"
  shows "read_bytes m rsdp 8 = rsdp_signature"
    and "sum_list (map unat (read_bytes m rsdp (if rp_revision (read_rsdp m rsdp) \<ge> 2 then 36 else 20))) mod 256 = 0"
    and "\<exists>h. doChecksum m h \<and> map_of signatures (th_signature (read_header m h)) = Some RSDT"
    and "\<exists>t. rsdt_get rsdt HPET 0 = Some (HpetTable t) \<and> ht_numComparators t \<noteq> 0 \<and> ht_physicalAddress t = Some (hp_registerPointer hpet)"
    and "rsdt_get rsdt MADT 0 = Some (MadtTable madt)"
    and "la_registers (hw_apic hw') \<noteq> nullptr \<and> la_writes (hw_apic hw') = (0xf0, 0x1ff) # la_writes (hw_apic hw)"
    and "md_hasPic madt \<longrightarrow> map_of (hw_ports hw') 0x21 = Some 0xff \<and> map_of (hw_ports hw') 0xa1 = Some 0xff"
    and "hw_numCpus hw' = of_nat (length (md_localApics madt))"
proof -
  let ?p = "read_rsdp m rsdp"
  let ?a = "if rp_revision ?p \<ge> 2 then rp_xsdtAddress ?p else ucast (rp_rsdtAddress ?p)"
  have checks: "rp_signature ?p = rsdp_signature" "rsdp_doChecksum m rsdp"
    using assms by (auto simp: kstart_acpi_def split: if_splits)
  show "read_bytes m rsdp 8 = rsdp_signature" using checks(1) by (simp add: read_rsdp_def)
  show "sum_list (map unat (read_bytes m rsdp (if rp_revision ?p \<ge> 2 then 36 else 20))) mod 256 = 0"
    using checks(2) unfolding rsdp_doChecksum_def checksum_zero_iff .
  note run = assms checks
  obtain table l1 where load: "loadTable (Suc fuel) m ?a (hw_ledger hw) = Inr (table, l1)"
    using run by (cases "loadTable (Suc fuel) m ?a (hw_ledger hw)") (auto simp: kstart_acpi_def Let_def simp del: loadTable.simps)
  note run = run load
  obtain cs where root: "table = Some (RsdtTable cs)"
    using run by (cases table; cases "the table") (simp_all add: kstart_acpi_def Let_def del: loadTable.simps)
  note run = run root
  obtain t where t: "rsdt_get cs HPET 0 = Some (HpetTable t)" "ht_numComparators t \<noteq> 0"
    using run by (cases "rsdt_get cs HPET 0"; cases "the (rsdt_get cs HPET 0)")
      (simp_all add: kstart_acpi_def Let_def del: loadTable.simps split: if_splits)
  note run = run t
  obtain address where address: "ht_physicalAddress t = Some address"
    using run by (cases "ht_physicalAddress t") (simp_all add: kstart_acpi_def Let_def del: loadTable.simps)
  note run = run address
  obtain f where f: "getFrequencyKhz (fst (Hpet_Hpet address device l1)) = Inr f"
    using run by (cases "getFrequencyKhz (fst (Hpet_Hpet address device l1))")
      (simp_all add: kstart_acpi_def Let_def split_beta del: loadTable.simps)
  note run = run f
  obtain md where md: "rsdt_get cs MADT 0 = Some (MadtTable md)"
    using run by (cases "rsdt_get cs MADT 0"; cases "the (rsdt_get cs MADT 0)")
      (simp_all add: kstart_acpi_def Let_def split_beta del: loadTable.simps)
  note run = run md
  obtain a1 where a1: "la_enable (la_init (md_localApicAddress md) (hw_apic hw)) = Inr a1"
    using run by (cases "la_enable (la_init (md_localApicAddress md) (hw_apic hw))")
      (simp_all add: kstart_acpi_def Let_def split_beta del: loadTable.simps)
  from run a1 have result: "rsdt = cs" "hpet = fst (Hpet_Hpet address device l1)" "madt = md" "hw_apic hw' = a1"
    "hw_ports hw' = (if md_hasPic md then disablePic (hw_ports hw) else hw_ports hw)" "hw_numCpus hw' = of_nat (length (md_localApics md))"
    by (auto simp add: kstart_acpi_def Let_def split_beta simp del: loadTable.simps)
  show "\<exists>h. doChecksum m h \<and> map_of signatures (th_signature (read_header m h)) = Some RSDT"
    using loadTable_Some_cases [OF load [unfolded root]] by auto
  show "\<exists>t. rsdt_get rsdt HPET 0 = Some (HpetTable t) \<and> ht_numComparators t \<noteq> 0 \<and> ht_physicalAddress t = Some (hp_registerPointer hpet)"
    using t address by (simp add: result Hpet_Hpet_def hpet_reset_def hpet_writeRegister_def Let_def)
  show "rsdt_get rsdt MADT 0 = Some (MadtTable madt)" by (simp add: result md)
  show "la_registers (hw_apic hw') \<noteq> nullptr \<and> la_writes (hw_apic hw') = (0xf0, 0x1ff) # la_writes (hw_apic hw)"
    using a1 by (auto simp: result la_enable_def la_writeRegister_def la_init_def LOCAL_APIC_SPURIOUS_INTERRUPT_REGISTER_def
        LOCAL_APIC_SPURIOUS_INTERRUPT_VECTOR_def LOCAL_APIC_SPURIOUS_INTERRUPT_REGISTER_ENABLE_def split: if_splits)
  show "md_hasPic madt \<longrightarrow> map_of (hw_ports hw') 0x21 = Some 0xff \<and> map_of (hw_ports hw') 0xa1 = Some 0xff"
    by (simp add: result disablePic_masks)
  show "hw_numCpus hw' = of_nat (length (md_localApics madt))" by (simp add: result)
qed

text \<open>A root pointer to a valid table that is not a root table, for instance a MADT: the cast makes the rest undefined.\<close>

lemma kstart_acpi_wrong_root:
  assumes "rp_signature (read_rsdp m rsdp) = rsdp_signature" "rsdp_doChecksum m rsdp" "rp_revision (read_rsdp m rsdp) \<ge> 2"
    "loadTable fuel m (rp_xsdtAddress (read_rsdp m rsdp)) (hw_ledger hw) = Inr (Some t, l)" "tm_type t \<noteq> RSDT"
  shows "kstart_acpi fuel m rsdp device hw = Inl Undefined"
  using assms by (cases t) (simp_all add: kstart_acpi_def)

section \<open>State\<close>

text \<open>
  Control points. CPU 0 is \<open>Starting\<close> until it knows the ticks of its timer, \<open>Ticking\<close> until it enables interrupts and \<open>Rooting\<close> until
  the root device is set. The others are \<open>Starting\<close> until they enable interrupts, \<open>ToCall\<close> before and \<open>Calling\<close> inside \<^verbatim>\<open>runOn\<close>. The rest is \<^verbatim>\<open>kRun\<close>.
\<close>

datatype start_pc =
  Starting | Ticking | Rooting | ToCall | Calling | AwaitTicks |
  Enter | AwaitTasks | Creating | AwaitThread | Counting | AwaitDone | Racing | Initializing | Destroying | Destroyed

datatype thread_pc = Absent | BeforeYield | AfterYield | Ended

record startup =
  su_pc :: "nat \<Rightarrow> start_pc"
  su_irq :: "nat \<Rightarrow> bool"  \<comment> \<open>whether interrupts are enabled\<close>
  su_localApicTickSetting :: u32
  su_rootDevice :: bool  \<comment> \<open>whether the root device is set\<close>
  su_numCpusWithInitialTasks :: u32
  su_numCpusDone :: u32
  su_thread :: "nat \<Rightarrow> thread_pc"  \<comment> \<open>the thread that the CPU created\<close>
  su_otherThreadDone :: "nat \<Rightarrow> bool"
  su_hardwareInitLock :: bool
  su_inits :: "nat list"  \<comment> \<open>the CPUs that have begun hardware initialisation, the latest first\<close>

definition startup_init :: startup where
  "startup_init = \<lparr>su_pc = (\<lambda>_. Starting), su_irq = (\<lambda>_. False), su_localApicTickSetting = 0, su_rootDevice = False,
     su_numCpusWithInitialTasks = 0, su_numCpusDone = 0, su_thread = (\<lambda>_. Absent), su_otherThreadDone = (\<lambda>_. False),
     su_hardwareInitLock = False, su_inits = []\<rparr>"

definition goto :: "nat \<Rightarrow> start_pc \<Rightarrow> startup \<Rightarrow> startup" where
  "goto c p s = s\<lparr>su_pc := (su_pc s)(c := p)\<rparr>"

definition irqs :: "nat \<Rightarrow> bool \<Rightarrow> startup \<Rightarrow> startup" where
  "irqs c b s = s\<lparr>su_irq := (su_irq s)(c := b)\<rparr>"

section \<open>Steps\<close>

text \<open>\<open>numCpus\<close> is the number of CPUs and \<open>tickSetting\<close> the result of the calibration.\<close>

inductive boot_step :: "u32 \<Rightarrow> u32 \<Rightarrow> nat \<Rightarrow> startup \<Rightarrow> startup \<Rightarrow> bool" for numCpus :: u32 and tickSetting :: u32 where
  set_ticks: "su_pc s 0 = Starting \<Longrightarrow> boot_step numCpus tickSetting 0 s (goto 0 Ticking (s\<lparr>su_localApicTickSetting := tickSetting\<rparr>))"
| enable_bsp: "su_pc s 0 = Ticking \<Longrightarrow> boot_step numCpus tickSetting 0 s (goto 0 Rooting (irqs 0 True s))"
| set_root: "su_pc s 0 = Rooting \<Longrightarrow> boot_step numCpus tickSetting 0 s (goto 0 Enter (s\<lparr>su_rootDevice := True\<rparr>))"
| enable_ap: "0 < c \<Longrightarrow> su_pc s c = Starting \<Longrightarrow> boot_step numCpus tickSetting c s (goto c ToCall (irqs c True s))"
| call: "su_pc s c = ToCall \<Longrightarrow> boot_step numCpus tickSetting c s (goto c Calling (irqs c False s))"
| return_call: "su_pc s c = Calling \<Longrightarrow> su_irq s (c - 1) \<Longrightarrow> boot_step numCpus tickSetting c s (goto c AwaitTicks (irqs c True s))"
| see_ticks: "su_pc s c = AwaitTicks \<Longrightarrow> su_localApicTickSetting s \<noteq> 0 \<Longrightarrow> boot_step numCpus tickSetting c s (goto c Enter s)"
| enter: "su_pc s c = Enter \<Longrightarrow>
    boot_step numCpus tickSetting c s (goto c AwaitTasks (s\<lparr>su_numCpusWithInitialTasks := su_numCpusWithInitialTasks s + 1\<rparr>))"
| tasks: "su_pc s c = AwaitTasks \<Longrightarrow> \<not> su_numCpusWithInitialTasks s < numCpus \<Longrightarrow> boot_step numCpus tickSetting c s (goto c Creating s)"
| create: "su_pc s c = Creating \<Longrightarrow> boot_step numCpus tickSetting c s (goto c AwaitThread (s\<lparr>su_thread := (su_thread s)(c := BeforeYield)\<rparr>))"
| thread_yields: "su_thread s c = BeforeYield \<Longrightarrow> boot_step numCpus tickSetting c s (s\<lparr>su_thread := (su_thread s)(c := AfterYield)\<rparr>)"
| thread_ends: "su_thread s c = AfterYield \<Longrightarrow>
    boot_step numCpus tickSetting c s (s\<lparr>su_thread := (su_thread s)(c := Ended), su_otherThreadDone := (su_otherThreadDone s)(c := True)\<rparr>)"
| thread_done: "su_pc s c = AwaitThread \<Longrightarrow> su_otherThreadDone s c \<Longrightarrow> boot_step numCpus tickSetting c s (goto c Counting s)"
| count: "su_pc s c = Counting \<Longrightarrow> boot_step numCpus tickSetting c s (goto c AwaitDone (s\<lparr>su_numCpusDone := su_numCpusDone s + 1\<rparr>))"
| all_done: "su_pc s c = AwaitDone \<Longrightarrow> \<not> su_numCpusDone s < numCpus \<Longrightarrow> boot_step numCpus tickSetting c s (goto c Racing s)"
| win: "su_pc s c = Racing \<Longrightarrow> \<not> su_hardwareInitLock s \<Longrightarrow>
    boot_step numCpus tickSetting c s (goto c Initializing (s\<lparr>su_hardwareInitLock := True, su_inits := c # su_inits s\<rparr>))"
| lose: "su_pc s c = Racing \<Longrightarrow> su_hardwareInitLock s \<Longrightarrow> boot_step numCpus tickSetting c s (goto c Destroying s)"
| initialized: "su_pc s c = Initializing \<Longrightarrow> boot_step numCpus tickSetting c s (goto c Destroying s)"
| destroyed: "su_pc s c = Destroying \<Longrightarrow> boot_step numCpus tickSetting c s (goto c Destroyed s)"

inductive boot_reach :: "u32 \<Rightarrow> u32 \<Rightarrow> nat \<Rightarrow> startup \<Rightarrow> bool" for numCpus :: u32 and tickSetting :: u32 where
  start: "boot_reach numCpus tickSetting 0 startup_init"
| step: "boot_reach numCpus tickSetting k s \<Longrightarrow> c < unat numCpus \<Longrightarrow> boot_step numCpus tickSetting c s s' \<Longrightarrow> boot_reach numCpus tickSetting (Suc k) s'"

section \<open>Invariant\<close>

fun pc_rank :: "start_pc \<Rightarrow> nat" where
  "pc_rank Starting = 0" | "pc_rank Ticking = 1" | "pc_rank Rooting = 2" | "pc_rank ToCall = 1" | "pc_rank Calling = 2" | "pc_rank AwaitTicks = 3"
| "pc_rank Enter = 4" | "pc_rank AwaitTasks = 5" | "pc_rank Creating = 6" | "pc_rank AwaitThread = 7" | "pc_rank Counting = 8"
| "pc_rank AwaitDone = 9" | "pc_rank Racing = 10" | "pc_rank Initializing = 11" | "pc_rank Destroying = 12" | "pc_rank Destroyed = 13"

fun thread_rank :: "thread_pc \<Rightarrow> nat" where
  "thread_rank Absent = 0" | "thread_rank BeforeYield = 1" | "thread_rank AfterYield = 2" | "thread_rank Ended = 3"

text \<open>The CPUs below \<open>n\<close> that have come as far as \<open>r\<close>.\<close>

definition reached :: "nat \<Rightarrow> nat \<Rightarrow> startup \<Rightarrow> nat set" where
  "reached n r s = {c. c < n \<and> r \<le> pc_rank (su_pc s c)}"

lemma finite_reached [simp]: "finite (reached n r s)"
  by (simp add: reached_def)

lemma reached_all: "card (reached n r s) = n \<Longrightarrow> c < n \<Longrightarrow> r \<le> pc_rank (su_pc s c)"
proof -
  assume "card (reached n r s) = n" "c < n"
  moreover have "reached n r s \<subseteq> {..<n}" by (auto simp: reached_def)
  ultimately have "reached n r s = {..<n}" by (intro card_subset_eq) simp_all
  with \<open>c < n\<close> show ?thesis by (auto simp: reached_def)
qed

lemma all_reached: "(\<And>c. c < n \<Longrightarrow> r \<le> pc_rank (su_pc s c)) \<Longrightarrow> card (reached n r s) = n"
proof -
  assume "\<And>c. c < n \<Longrightarrow> r \<le> pc_rank (su_pc s c)"
  then have "reached n r s = {..<n}" by (auto simp: reached_def)
  then show ?thesis by simp
qed

lemma card_reached_goto:
  assumes "c < n" "su_pc t = (su_pc s)(c := p)"
  shows "card (reached n r t) + of_bool (r \<le> pc_rank (su_pc s c)) = card (reached n r s) + of_bool (r \<le> pc_rank p)"
proof -
  have "reached n r t = (if r \<le> pc_rank p then insert c (reached n r s) else reached n r s - {c})"
    using assms by (auto simp: reached_def)
  moreover have "c \<in> reached n r s \<longleftrightarrow> r \<le> pc_rank (su_pc s c)" using assms(1) by (simp add: reached_def)
  ultimately show ?thesis
    using card_Suc_Diff1 [of "reached n r s" c] by (auto simp: card_insert_if)
qed

definition cpu_local :: "nat \<Rightarrow> start_pc \<Rightarrow> bool \<Rightarrow> thread_pc \<Rightarrow> bool \<Rightarrow> bool" where
  "cpu_local c pc irq thread otherThreadDone \<longleftrightarrow>
     (c = 0 \<longrightarrow> pc \<notin> {ToCall, Calling, AwaitTicks} \<and> (irq \<longleftrightarrow> pc \<notin> {Starting, Ticking})) \<and>
     (c \<noteq> 0 \<longrightarrow> pc \<notin> {Ticking, Rooting} \<and> (irq \<longleftrightarrow> pc \<notin> {Starting, Calling})) \<and>
     (thread = Absent \<longleftrightarrow> pc_rank pc \<le> 6) \<and> (otherThreadDone \<longleftrightarrow> thread = Ended) \<and> (8 \<le> pc_rank pc \<longrightarrow> thread = Ended)"

definition cpu_global :: "nat \<Rightarrow> u32 \<Rightarrow> startup \<Rightarrow> nat \<Rightarrow> start_pc \<Rightarrow> bool" where
  "cpu_global n tickSetting s c pc \<longleftrightarrow>
     (c = 0 \<longrightarrow> pc \<noteq> Starting \<longrightarrow> su_localApicTickSetting s = tickSetting) \<and> (c = 0 \<longrightarrow> 4 \<le> pc_rank pc \<longrightarrow> su_rootDevice s) \<and>
     (6 \<le> pc_rank pc \<longrightarrow> card (reached n 5 s) = n) \<and> (10 \<le> pc_rank pc \<longrightarrow> card (reached n 9 s) = n) \<and>
     (11 \<le> pc_rank pc \<longrightarrow> su_hardwareInitLock s) \<and> (pc = Initializing \<longrightarrow> su_inits s = [c])"

definition cpu_inv :: "nat \<Rightarrow> u32 \<Rightarrow> startup \<Rightarrow> nat \<Rightarrow> bool" where
  "cpu_inv n tickSetting s c \<longleftrightarrow>
     cpu_local c (su_pc s c) (su_irq s c) (su_thread s c) (su_otherThreadDone s c) \<and> cpu_global n tickSetting s c (su_pc s c)"

definition boot_inv :: "nat \<Rightarrow> u32 \<Rightarrow> startup \<Rightarrow> bool" where
  "boot_inv n tickSetting s \<longleftrightarrow>
     unat (su_numCpusWithInitialTasks s) = card (reached n 5 s) \<and> unat (su_numCpusDone s) = card (reached n 9 s) \<and>
     length (su_inits s) = of_bool (su_hardwareInitLock s) \<and> (\<forall>c<n. cpu_inv n tickSetting s c)"

lemma boot_step_rank:
  assumes "boot_step numCpus tickSetting c s s'"
  shows "pc_rank (su_pc s c) \<le> pc_rank (su_pc s' c)" "su_pc s' = (su_pc s)(c := su_pc s' c)"
  using assms by (cases; auto simp: goto_def irqs_def)+

lemma boot_step_reached:
  assumes "boot_step numCpus tickSetting c s s'" "c < n"
  shows "card (reached n r s') = card (reached n r s) + of_bool (pc_rank (su_pc s c) < r \<and> r \<le> pc_rank (su_pc s' c))"
  using card_reached_goto [OF assms(2) boot_step_rank(2) [OF assms(1)], of r] boot_step_rank(1) [OF assms(1)] by auto

lemma card_reached_le: "card (reached n r s) \<le> n"
  using card_mono [of "{..<n}" "reached n r s"] by (auto simp: reached_def)

lemma boot_step_other:
  assumes "boot_step numCpus tickSetting c s s'" "d \<noteq> c"
  shows "su_irq s' d = su_irq s d" "su_thread s' d = su_thread s d" "su_otherThreadDone s' d = su_otherThreadDone s d"
    "su_pc s' d = su_pc s d"
  using assms by (cases; simp add: goto_def irqs_def)+

lemma boot_step_globals:
  assumes "boot_step numCpus tickSetting c s s'"
  shows "(su_rootDevice s \<longrightarrow> su_rootDevice s') \<and> (su_hardwareInitLock s \<longrightarrow> su_hardwareInitLock s' \<and> su_inits s' = su_inits s) \<and>
    su_localApicTickSetting s' \<in> {tickSetting, su_localApicTickSetting s}"
  using assms by cases (auto simp: goto_def irqs_def)

lemma boot_step_full:
  assumes "boot_step numCpus tickSetting c s s'" "c < n" "card (reached n r s) = n"
  shows "card (reached n r s') = n"
  using boot_step_reached [OF assms(1,2), of r] card_reached_le [of n r s'] assms(3) by simp

lemma cpu_global_step:
  assumes "boot_step numCpus tickSetting c s s'" "c < n" "cpu_global n tickSetting s d pc"
  shows "cpu_global n tickSetting s' d pc"
proof -
  have "pc = Initializing \<Longrightarrow> 11 \<le> pc_rank pc" by simp
  then show ?thesis
    using assms(3) boot_step_full [OF assms(1,2), of 5] boot_step_full [OF assms(1,2), of 9] boot_step_globals [OF assms(1)]
    unfolding cpu_global_def by (elim conjE, intro conjI impI) simp_all
qed

lemma cpu_inv_other:
  assumes "boot_step numCpus tickSetting c s s'" "c < n" "d \<noteq> c" "cpu_inv n tickSetting s d"
  shows "cpu_inv n tickSetting s' d"
  using assms(4) cpu_global_step [OF assms(1,2)] by (simp add: cpu_inv_def boot_step_other [OF assms(1,3)])

lemma cpu_local_self:
  assumes "boot_step numCpus tickSetting c s s'" "cpu_local c (su_pc s c) (su_irq s c) (su_thread s c) (su_otherThreadDone s c)"
  shows "cpu_local c (su_pc s' c) (su_irq s' c) (su_thread s' c) (su_otherThreadDone s' c)"
  using assms by cases (simp_all add: cpu_local_def goto_def irqs_def)

lemma cpu_global_self:
  assumes "boot_step numCpus tickSetting c s s'" "c < n" "boot_inv n tickSetting s" "n = unat numCpus"
  shows "cpu_global n tickSetting s' c (su_pc s' c)"
proof -
  have full: "card (reached n 5 s) = n" if "\<not> su_numCpusWithInitialTasks s < numCpus"
    using that assms(3,4) card_reached_le [of n 5 s] by (simp add: boot_inv_def word_less_nat_alt)
  have fin: "card (reached n 9 s) = n" if "\<not> su_numCpusDone s < numCpus"
    using that assms(3,4) card_reached_le [of n 9 s] by (simp add: boot_inv_def word_less_nat_alt)
  have inits: "su_inits s = []" if "\<not> su_hardwareInitLock s" using that assms(3) by (simp add: boot_inv_def)
  have inv: "cpu_inv n tickSetting s c" using assms(2,3) by (simp add: boot_inv_def)
  then have "cpu_global n tickSetting s c (su_pc s c)" by (simp add: cpu_inv_def)
  note old = this cpu_global_step [OF assms(1,2) this]
  have legal: "su_pc s c = AwaitTicks \<Longrightarrow> c \<noteq> 0" using inv by (auto simp: cpu_inv_def cpu_local_def)
  note keep = boot_step_full [OF assms(1,2), of 5] boot_step_full [OF assms(1,2), of 9]
  from assms(1) show ?thesis using old keep full fin inits legal
    by cases (simp_all add: cpu_global_def goto_def irqs_def)
qed

lemma boot_step_counters:
  assumes "boot_step numCpus tickSetting c s s'"
  shows "su_numCpusWithInitialTasks s' = su_numCpusWithInitialTasks s + of_bool (pc_rank (su_pc s c) < 5 \<and> 5 \<le> pc_rank (su_pc s' c))"
    "su_numCpusDone s' = su_numCpusDone s + of_bool (pc_rank (su_pc s c) < 9 \<and> 9 \<le> pc_rank (su_pc s' c))"
    "length (su_inits s) = of_bool (su_hardwareInitLock s) \<Longrightarrow> length (su_inits s') = of_bool (su_hardwareInitLock s')"
  using assms by (cases; simp add: goto_def irqs_def; fail)+

lemma boot_inv_step:
  assumes "boot_inv n tickSetting s" "boot_step numCpus tickSetting c s s'" "c < n" "n = unat numCpus" "n \<le> 64"
  shows "boot_inv n tickSetting s'"
proof -
  have "unat (x + of_bool b :: u32) = unat x + of_bool b" if "unat x \<le> 64" for x b
    using that by (cases b) (simp_all add: unat_word_ariths)
  moreover have "unat (su_numCpusWithInitialTasks s) \<le> 64" "unat (su_numCpusDone s) \<le> 64"
    using assms(1,5) card_reached_le [of n 5 s] card_reached_le [of n 9 s] by (simp_all add: boot_inv_def)
  moreover have "cpu_inv n tickSetting s' d" if "d < n" for d
  proof (cases "d = c")
    case True
    have "cpu_inv n tickSetting s c" using assms(1,3) by (simp add: boot_inv_def)
    then show ?thesis
      using True cpu_local_self [OF assms(2)] cpu_global_self [OF assms(2,3,1,4)] by (simp add: cpu_inv_def)
  next
    case False
    show ?thesis by (rule cpu_inv_other [OF assms(2,3) False]) (use assms(1) that in \<open>simp add: boot_inv_def\<close>)
  qed
  ultimately show ?thesis
    using assms(1) unfolding boot_inv_def
    by (simp add: boot_step_counters [OF assms(2)] boot_step_reached [OF assms(2,3)])
qed

lemma boot_inv_init: "boot_inv n tickSetting startup_init"
  by (simp add: boot_inv_def startup_init_def reached_def cpu_inv_def cpu_local_def cpu_global_def)

section \<open>Progress\<close>

text \<open>How far the start has come; every step takes it further.\<close>

definition advance :: "nat \<Rightarrow> startup \<Rightarrow> nat" where
  "advance n s = (\<Sum>c<n. pc_rank (su_pc s c) + thread_rank (su_thread s c))"

lemma boot_step_advances:
  assumes "boot_step numCpus tickSetting c s s'" "cpu_inv n tickSetting s c"
  shows "pc_rank (su_pc s c) + thread_rank (su_thread s c) < pc_rank (su_pc s' c) + thread_rank (su_thread s' c)"
  using assms by cases (simp_all add: goto_def irqs_def cpu_inv_def cpu_local_def)

lemma advance_step:
  assumes "boot_step numCpus tickSetting c s s'" "c < n" "boot_inv n tickSetting s"
  shows "advance n s < advance n s'"
proof -
  have inv: "cpu_inv n tickSetting s c" using assms(2,3) by (simp add: boot_inv_def)
  note less = boot_step_advances [OF assms(1) inv]
  show ?thesis
    unfolding advance_def
  proof (rule sum_strict_mono_ex1)
    show "\<forall>d\<in>{..<n}. pc_rank (su_pc s d) + thread_rank (su_thread s d) \<le> pc_rank (su_pc s' d) + thread_rank (su_thread s' d)"
      using less boot_step_other [OF assms(1)] by (metis less_imp_le order_refl)
  qed (use less assms(2) in auto)
qed

lemma advance_bound: "advance n s \<le> 16 * n"
proof -
  have "pc_rank p + thread_rank t \<le> 16" for p t by (cases p; cases t) simp_all
  then have "advance n s \<le> (\<Sum>c<n. 16)" unfolding advance_def by (intro sum_mono)
  then show ?thesis by simp
qed

text \<open>A state in which no CPU can move.\<close>

definition stuck :: "u32 \<Rightarrow> u32 \<Rightarrow> startup \<Rightarrow> bool" where
  "stuck numCpus tickSetting s \<longleftrightarrow> (\<forall>c < unat numCpus. \<forall>s'. \<not> boot_step numCpus tickSetting c s s')"

lemma stuckD: "stuck numCpus tickSetting s \<Longrightarrow> c < unat numCpus \<Longrightarrow> boot_step numCpus tickSetting c s s' \<Longrightarrow> False"
  by (auto simp: stuck_def)

lemma stuck_bsp:
  assumes "boot_inv (unat numCpus) tickSetting s" "tickSetting \<noteq> 0" "stuck numCpus tickSetting s" "0 < unat numCpus"
  shows "su_pc s 0 \<notin> {Starting, Ticking, Rooting}" "su_localApicTickSetting s \<noteq> 0"
proof -
  show p: "su_pc s 0 \<notin> {Starting, Ticking, Rooting}"
    using stuckD [OF assms(3,4)] by (auto intro: boot_step.intros)
  have "cpu_inv (unat numCpus) tickSetting s 0" using assms(1,4) by (simp add: boot_inv_def)
  then show "su_localApicTickSetting s \<noteq> 0" using p assms(2) by (auto simp: cpu_inv_def cpu_global_def)
qed

text \<open>Nobody waits before the first barrier: CPU 0 has done its part, and each other CPU is answered by the one before it.\<close>

lemma stuck_first:
  assumes "boot_inv (unat numCpus) tickSetting s" "tickSetting \<noteq> 0" "stuck numCpus tickSetting s" "c < unat numCpus"
  shows "5 \<le> pc_rank (su_pc s c)"
  using assms(4)
proof (induction c rule: nat_less_induct)
  case (1 c)
  have cpu: "cpu_inv (unat numCpus) tickSetting s d" if "d < unat numCpus" for d using assms(1) that by (simp add: boot_inv_def)
  note local = cpu [OF 1(2), unfolded cpu_inv_def cpu_local_def]
  note no = stuckD [OF assms(3) 1(2)]
  have "su_pc s c \<noteq> Calling"
  proof
    assume p: "su_pc s c = Calling"
    then have "c \<noteq> 0" using local by (cases c) auto
    then have before: "c - 1 < c" "c - 1 < unat numCpus" using 1(2) by simp_all
    then have "5 \<le> pc_rank (su_pc s (c - 1))" using 1(1) by blast
    then have "su_irq s (c - 1)" using cpu [OF before(2)] by (auto simp: cpu_inv_def cpu_local_def)
    with p no show False by (blast intro: boot_step.return_call)
  qed
  moreover have "su_pc s c \<noteq> ToCall" "su_pc s c \<noteq> Enter" "c \<noteq> 0 \<Longrightarrow> su_pc s c \<noteq> Starting"
    using no by (auto intro: boot_step.intros)
  moreover have "su_pc s c \<noteq> AwaitTicks"
    using no stuck_bsp(2) [OF assms(1-3)] 1(2) by (auto intro: boot_step.see_ticks)
  moreover have "c = 0 \<Longrightarrow> su_pc s c \<notin> {Starting, Ticking, Rooting}" using stuck_bsp(1) [OF assms(1-3)] 1(2) by auto
  ultimately show ?case using local by (cases "su_pc s c") auto
qed

lemma stuck_second:
  assumes "boot_inv (unat numCpus) tickSetting s" "tickSetting \<noteq> 0" "stuck numCpus tickSetting s" "c < unat numCpus"
  shows "9 \<le> pc_rank (su_pc s c)"
proof -
  note no = stuckD [OF assms(3,4)]
  have cpu: "cpu_inv (unat numCpus) tickSetting s c" using assms(1,4) by (simp add: boot_inv_def)
  have "unat (su_numCpusWithInitialTasks s) = unat numCpus"
    using assms(1) all_reached [of "unat numCpus" 5 s] stuck_first [OF assms(1-3)] by (simp add: boot_inv_def)
  then have "\<not> su_numCpusWithInitialTasks s < numCpus" by (simp add: word_less_nat_alt)
  then have "su_pc s c \<noteq> AwaitTasks" "su_pc s c \<noteq> Creating" "su_pc s c \<noteq> Counting" "su_thread s c \<notin> {BeforeYield, AfterYield}"
    using no by (auto intro: boot_step.intros)
  moreover from this(4) have "su_thread s c \<in> {Absent, Ended}" by (cases "su_thread s c") auto
  then have "su_pc s c \<noteq> AwaitThread"
    using no cpu by (auto simp: cpu_inv_def cpu_local_def intro: boot_step.thread_done)
  ultimately show ?thesis using stuck_first [OF assms] by (cases "su_pc s c") auto
qed

lemma stuck_ended:
  assumes "boot_inv (unat numCpus) tickSetting s" "tickSetting \<noteq> 0" "stuck numCpus tickSetting s" "c < unat numCpus"
  shows "su_pc s c = Destroyed"
proof -
  have "unat (su_numCpusDone s) = unat numCpus"
    using assms(1) all_reached [of "unat numCpus" 9 s] stuck_second [OF assms(1-3)] by (simp add: boot_inv_def)
  then have "\<not> su_numCpusDone s < numCpus" by (simp add: word_less_nat_alt)
  then have "su_pc s c \<noteq> AwaitDone" "su_pc s c \<noteq> Initializing" "su_pc s c \<noteq> Destroying"
    using stuckD [OF assms(3,4)] by (auto intro: boot_step.intros)
  moreover have "su_pc s c \<noteq> Racing"
    using stuckD [OF assms(3,4)] boot_step.win [of s c] boot_step.lose [of s c] by blast
  ultimately show ?thesis using stuck_second [OF assms] by (cases "su_pc s c") auto
qed

section \<open>Properties\<close>


text \<open>A run of a single CPU up to the initialisation of the hardware.\<close>

definition solo :: "start_pc \<Rightarrow> bool \<Rightarrow> u32 \<Rightarrow> bool \<Rightarrow> u32 \<Rightarrow> u32 \<Rightarrow> thread_pc \<Rightarrow> bool \<Rightarrow> bool \<Rightarrow> nat list \<Rightarrow> startup" where
  "solo pc irq tickSetting root tasks finished thread other lock inits =
     startup_init\<lparr>su_pc := (\<lambda>_. Starting)(0 := pc), su_irq := (\<lambda>_. False)(0 := irq), su_localApicTickSetting := tickSetting, su_rootDevice := root,
       su_numCpusWithInitialTasks := tasks, su_numCpusDone := finished, su_thread := (\<lambda>_. Absent)(0 := thread),
       su_otherThreadDone := (\<lambda>_. False)(0 := other), su_hardwareInitLock := lock, su_inits := inits\<rparr>"

lemma solo_step: "boot_reach 1 500 k s \<Longrightarrow> boot_step 1 500 0 s t \<Longrightarrow> t = s' \<Longrightarrow> n = Suc k \<Longrightarrow> boot_reach 1 500 n s'"
  using boot_reach.step [of 1 500 k s 0 t] by simp

lemma solo_run: "boot_reach 1 500 12 (solo Initializing True 500 True 1 1 Ended True True [0])"
proof -
  note go = solo_def startup_init_def goto_def irqs_def
  have "boot_reach 1 500 0 (solo Starting False 0 False 0 0 Absent False False [])"
    using boot_reach.start [of 1 500] by (simp add: go fun_upd_idem)
  then have "boot_reach 1 500 1 (solo Ticking False 500 False 0 0 Absent False False [])"
    by (rule solo_step [OF _ boot_step.set_ticks]) (simp_all add: go)
  then have "boot_reach 1 500 2 (solo Rooting True 500 False 0 0 Absent False False [])"
    by (rule solo_step [OF _ boot_step.enable_bsp]) (simp_all add: go)
  then have "boot_reach 1 500 3 (solo Enter True 500 True 0 0 Absent False False [])"
    by (rule solo_step [OF _ boot_step.set_root]) (simp_all add: go)
  then have "boot_reach 1 500 4 (solo AwaitTasks True 500 True 1 0 Absent False False [])"
    by (rule solo_step [OF _ boot_step.enter]) (simp_all add: go)
  then have "boot_reach 1 500 5 (solo Creating True 500 True 1 0 Absent False False [])"
    by (rule solo_step [OF _ boot_step.tasks]) (simp_all add: go)
  then have "boot_reach 1 500 6 (solo AwaitThread True 500 True 1 0 BeforeYield False False [])"
    by (rule solo_step [OF _ boot_step.create]) (simp_all add: go)
  then have "boot_reach 1 500 7 (solo AwaitThread True 500 True 1 0 AfterYield False False [])"
    by (rule solo_step [OF _ boot_step.thread_yields]) (simp_all add: go)
  then have "boot_reach 1 500 8 (solo AwaitThread True 500 True 1 0 Ended True False [])"
    by (rule solo_step [OF _ boot_step.thread_ends]) (simp_all add: go)
  then have "boot_reach 1 500 9 (solo Counting True 500 True 1 0 Ended True False [])"
    by (rule solo_step [OF _ boot_step.thread_done]) (simp_all add: go)
  then have "boot_reach 1 500 10 (solo AwaitDone True 500 True 1 1 Ended True False [])"
    by (rule solo_step [OF _ boot_step.count]) (simp_all add: go)
  then have "boot_reach 1 500 11 (solo Racing True 500 True 1 1 Ended True False [])"
    by (rule solo_step [OF _ boot_step.all_done]) (simp_all add: go)
  then show ?thesis
    by (rule solo_step [OF _ boot_step.win]) (simp_all add: go)
qed


end
