(* ===== verification/Fragmentation.thy ===== *)
theory Fragmentation
  imports Memory_Block
begin

text \<open>
  When memory given back to a block map is lost. The map has 256 entries, and \<^verbatim>\<open>addBlock\<close> drops a block when they are all taken even after
  \<^verbatim>\<open>merge\<close>. Since \<^verbatim>\<open>merge\<close> joins every block with a neighbour it finds, a map that it cannot shorten has no two neighbours: its
  entries then are as many as the separate pieces of the free memory. So memory is lost only when the free memory really is in 256
  pieces, whatever the order of the operations before.
\<close>

section \<open>Pieces of a set of addresses\<close>

text \<open>A piece is known by the address after its last one.\<close>

definition pieces :: "nat set \<Rightarrow> nat set" where
  "pieces F = {x. x \<notin> F \<and> 0 < x \<and> x - 1 \<in> F}"

lemma finite_pieces: "finite F \<Longrightarrow> finite (pieces F)"
proof -
  assume "finite F"
  moreover have "pieces F \<subseteq> Suc ` F"
  proof
    fix x
    assume "x \<in> pieces F"
    then have "x = Suc (x - 1)" "x - 1 \<in> F" by (simp_all add: pieces_def)
    then show "x \<in> Suc ` F" by (rule image_eqI)
  qed
  ultimately show ?thesis by (blast intro: finite_subset)
qed

lemma pieces_interval: "pieces {a..<b} \<subseteq> {b}"
  by (auto simp: pieces_def)

lemma pieces_Un: "pieces (A \<union> B) \<subseteq> pieces A \<union> pieces B"
  by (auto simp: pieces_def)

text \<open>Taking a range out splits at most one piece.\<close>

lemma pieces_diff: "pieces (F - {a..<b}) \<subseteq> insert a (pieces F)"
  by (auto simp: pieces_def)

section \<open>Maps that merging cannot shorten\<close>

definition touching :: "block \<Rightarrow> block \<Rightarrow> bool" where
  "touching b t \<longleftrightarrow> b_start b = b_end t \<or> b_end b = b_start t"

lemma mergeInto_None: "mergeInto t j n bs = None \<Longrightarrow> j \<le> k \<Longrightarrow> k < n \<Longrightarrow> \<not> touching (bs ! k) t"
proof (induction t j n bs rule: mergeInto.induct)
  case (1 t j n bs)
  then have j: "b_start (bs ! j) \<noteq> b_end t" "b_end (bs ! j) \<noteq> b_start t" "mergeInto t (Suc j) n bs = None"
    by (auto simp: mergeInto.simps [of t j n bs] split: if_splits)
  with 1 show ?case by (cases "k = j") (auto simp: touching_def)
qed

lemma mergeLoop_full:
  assumes "n + length temp \<le> length bs" and "snd (mergeLoop temp (bs, n)) = n + length temp"
    and "sorted_wrt (\<lambda>b t. \<not> touching b t) (take n bs)"
  shows "sorted_wrt (\<lambda>b t. \<not> touching b t) (take n bs @ temp) \<and> (\<forall>t \<in> set temp. capacity t \<noteq> 0)"
  using assms
proof (induction temp arbitrary: bs n)
  case (Cons t temp)
  have short: "snd (mergeLoop temp (bs', n)) < n + length (t # temp)" for bs' using mergeLoop_count [of temp bs' n] by simp
  have cap: "capacity t \<noteq> 0" using Cons.prems(2) short [of bs] by auto
  have none: "mergeInto t 0 n bs = None"
    using Cons.prems(2) cap short by (cases "mergeInto t 0 n bs") (auto simp: less_le)
  have nt: "\<not> touching b t" if "b \<in> set (take n bs)" for b
    using that mergeInto_None [OF none] Cons.prems(1) by (auto simp: in_set_conv_nth)
  have eq: "take (Suc n) (bs[n := t]) = take n bs @ [t]" using Cons.prems(1) by simp
  have "sorted_wrt (\<lambda>b t. \<not> touching b t) (take (Suc n) (bs[n := t]))" unfolding eq using Cons.prems(3) nt by (simp add: sorted_wrt_append)
  moreover have "snd (mergeLoop temp (bs[n := t], Suc n)) = Suc n + length temp" using Cons.prems(2) cap none by simp
  ultimately show ?case using Cons.IH [of "Suc n" "bs[n := t]"] Cons.prems(1) cap unfolding eq by simp
qed simp

lemma cover_two:
  assumes "i < length bs" and "j < length bs" and "i \<noteq> j" and "a \<in> bytes (bs ! i)" and "a \<in> bytes (bs ! j)"
  shows "2 \<le> cover bs a"
proof -
  have "a \<in> bytes (bs[i := emptyBlock] ! j)" "bs[i := emptyBlock] ! j \<in> set (bs[i := emptyBlock])"
    using assms by (simp, intro nth_mem) simp
  then have "0 < cover (bs[i := emptyBlock]) a" by (metis cover_member)
  then show ?thesis using cover_update [OF assms(1), of emptyBlock a] assms(4) by simp
qed

text \<open>The blocks of a map without neighbours end at different pieces.\<close>

lemma blocks_le_pieces:
  assumes inv: "bm_inv m" and full: "numBlocks (merge m) = numBlocks m"
  shows "numBlocks m \<le> card (pieces (free_set m))"
proof -
  have wf: "bm_wf m" and dis: "bm_disjoint m" using inv by (simp_all add: bm_inv_def)
  then have len: "length (live m) = numBlocks m" by (simp add: bm_wf_def live_def)
  have "snd (mergeLoop (live m) (blocks m, 0)) = 0 + length (live m)"
    using full len by (simp add: merge_def live_def Let_def split: prod.splits)
  from mergeLoop_full [OF _ this] wf have apart: "sorted_wrt (\<lambda>b t. \<not> touching b t) (live m)" and cap: "\<forall>t \<in> set (live m). capacity t \<noteq> 0"
    by (simp_all add: bm_wf_def live_def)
  have ne: "unat (b_start b) < unat (b_end b)" if "b \<in> set (live m)" for b
  proof -
    have "wf_block b" "capacity b \<noteq> 0" using wf cap that by (auto simp: bm_wf_def)
    then show ?thesis using unat_capacity [of b] unat_gt_0 [of "capacity b"] by simp
  qed
  have same: "i = j" if "i < length (live m)" "j < length (live m)" "a \<in> bytes (live m ! i)" "a \<in> bytes (live m ! j)" for i j a
    using cover_two [OF that(1,2) _ that(3,4)] dis [unfolded bm_disjoint_def, rule_format, of a] by force
  have nt: "\<not> touching (live m ! i) (live m ! j)" if "i < length (live m)" "j < length (live m)" "i \<noteq> j" for i j
    using apart that unfolding sorted_wrt_iff_nth_less touching_def by (metis linorder_neqE_nat)
  let ?e = "\<lambda>i. unat (b_end (live m ! i))"
  have last: "?e i - 1 \<in> bytes (live m ! i)" "0 < ?e i" if "i < length (live m)" for i
    using ne [OF nth_mem [OF that]] by (auto simp: bytes_def)
  have "inj_on ?e {..<length (live m)}"
    by (rule inj_onI) (use same last in \<open>metis lessThan_iff\<close>)
  moreover have "?e i \<in> pieces (free_set m)" if i: "i < length (live m)" for i
  proof -
    have "?e i \<notin> bytes (live m ! j)" if j: "j < length (live m)" for j
    proof
      assume e: "?e i \<in> bytes (live m ! j)"
      then have ij: "i \<noteq> j" by (auto simp: bytes_def)
      then have "?e i - 1 \<notin> bytes (live m ! j)" using same [OF i j last(1) [OF i]] by blast
      with e last(2) [OF i] have "?e i = unat (b_start (live m ! j))" by (auto simp: bytes_def)
      then have "b_end (live m ! i) = b_start (live m ! j)" by (simp add: word_unat_eq_iff)
      with nt [OF i j ij] show False by (simp add: touching_def)
    qed
    then have "?e i \<notin> free_set m" by (auto simp: free_set_alt in_set_conv_nth)
    moreover have "?e i - 1 \<in> free_set m" using last(1) [OF i] i by (auto simp: free_set_alt)
    ultimately show ?thesis using last(2) [OF i] by (simp add: pieces_def)
  qed
  moreover have "finite (pieces (free_set m))" by (rule finite_pieces) (auto simp: free_set_alt bytes_def)
  ultimately have "card {..<length (live m)} \<le> card (pieces (free_set m))" by (intro card_inj_on_le [of ?e]) auto
  then show ?thesis by (simp add: len)
qed

lemma has_room_pieces:
  assumes "bm_inv m" and "card (pieces (free_set m)) < BLOCKMAP_SIZE"
  shows "has_room m"
  using blocks_le_pieces [OF assms(1)] numBlocks_merge [of m] assms by (fastforce simp: has_room_def bm_inv_def bm_wf_def)

text \<open>A block that is added is an entry of its own, whole.\<close>

lemma addBlock_live:
  assumes "bm_inv m" and "has_room m" and "wf_block b" and "capacity b > 0" and "addBlock b (irq, m) = Inr (u, irq', m')"
  shows "b \<in> set (live m')"
proof -
  have wf: "bm_wf m" and nl: "\<not> locked (bm_lock m)" using assms(1) by (simp_all add: bm_inv_def)
  let ?l = "(bm_lock m)\<lparr>sl_lock := 1, sl_enableIrqs := irq\<rparr>" let ?m = "m\<lparr>bm_lock := ?l\<rparr>"
  have wf1: "bm_wf ?m" using wf by simp
  have "bm_lock (addBlockBody b ?m) = ?l" using addBlockBody_correct(3) [OF wf1 assms(3)] by simp
  from bml.under_lock_run [where body = "\<lambda>m. ((), addBlockBody b m)" and irq = irq, OF nl refl] this assms(4,5)
  have "m' = (addBlockBody b ?m)\<lparr>bm_lock := (bm_lock m)\<lparr>sl_lock := 0, sl_enableIrqs := irq\<rparr>\<rparr>" by (auto simp: addBlock_def)
  moreover have "has_room ?m" using assms(2) by simp
  then have "b \<in> set (live (addBlockBody b ?m))"
    using appendBlock_correct(2) [OF wf1 _ assms(3)] appendBlock_correct(2) [OF merge_correct(1) [OF wf1] _ assms(3)]
    by (auto simp: addBlockBody_def Let_def has_room_def)
  ultimately show ?thesis by simp
qed

lemma finite_free_set: "finite (free_set m)"
  by (auto simp: free_set_alt bytes_def)

lemma pieces_span: "card (pieces (free_set m - span p n)) \<le> card (pieces (free_set m)) + 1"
proof -
  have f: "finite (pieces (free_set m))" by (rule finite_pieces [OF finite_free_set])
  have "card (pieces (free_set m - span p n)) \<le> card (insert (unat p) (pieces (free_set m)))"
    by (rule card_mono) (use f pieces_diff [of "free_set m" "unat p"] in \<open>simp_all add: span_def\<close>)
  also have "\<dots> \<le> card (pieces (free_set m)) + 1" using f by (simp add: card_insert_if)
  finally show ?thesis .
qed

text \<open>Allocating and returning, with what the next allocation needs.\<close>

lemma allocate_return:
  assumes "bm_inv m" and "can_satisfy n m" and "n > 0" and "card (pieces (free_set m)) + 1 < BLOCKMAP_SIZE"
  shows "\<exists>p m1 m2. allocate n (irq, m) = Inr (p, irq, m1) \<and> span p n \<subseteq> free_set m \<and> returnMemory p n (irq, m1) = Inr ((), irq, m2) \<and>
           bm_inv m2 \<and> free_set m2 = free_set m \<and> can_satisfy n m2"
proof -
  from allocate_ok [OF assms(1,2), of irq] obtain p m1 where
    m1: "allocate n (irq, m) = Inr (p, irq, m1)" "bm_inv m1" "span p n \<subseteq> free_set m" "free_set m1 = free_set m - span p n" by blast
  have room: "has_room m1" by (rule has_room_pieces [OF m1(2)]) (use assms(4) pieces_span [of m p n] in \<open>simp add: m1(4)\<close>)
  from bma.alloc_give_restores [OF assms(1,2) m1(1) room] obtain m2 where
    m2: "returnMemory p n (irq, m1) = Inr ((), irq, m2)" "bm_inv m2" "free_set m2 = free_set m" by blast
  have "unat p + unat n < 2 ^ 64" by (rule bma.alloc_no_wrap [OF assms(1,2) m1(1)])
  then have u: "unat (p + n) = unat p + unat n" by (simp add: unat_word_ariths)
  let ?b = "Block p (p + n)"
  have b: "wf_block ?b" "capacity ?b = n" by (simp add: word_le_nat_alt u) (simp add: capacity_def Block_def)
  have "?b \<in> set (live m2)" by (rule addBlock_live [OF m1(2) room b(1)]) (use m2(1) assms(3) in \<open>simp_all add: returnMemory_def b(2)\<close>)
  then have "can_satisfy n m2" unfolding can_satisfy_def using b(2) by force
  with m1 m2 show ?thesis by blast
qed

section \<open>Merging keeps blocks whole\<close>

lemma mergeLoop_within:
  assumes "n + length temp \<le> length bs" and "\<forall>b \<in> set (take n bs @ temp). wf_block b"
    and "\<exists>b \<in> set (take n bs @ temp). X \<subseteq> bytes b" and "X \<noteq> {}" and "mergeLoop temp (bs, n) = (bs', n')"
  shows "\<exists>b \<in> set (take n' bs'). X \<subseteq> bytes b"
  using assms
proof (induction temp arbitrary: bs n)
  case (Cons t temp)
  consider (drop) "capacity t = 0" | (join) bs1 where "capacity t \<noteq> 0" "mergeInto t 0 n bs = Some bs1"
    | (keep) "capacity t \<noteq> 0" "mergeInto t 0 n bs = None" by fastforce
  then show ?case
  proof cases
    case drop
    then have "\<exists>b \<in> set (take n bs @ temp). X \<subseteq> bytes b" using Cons.prems(3,4) capacity_zero [of t] by auto
    from Cons.IH [OF _ _ this Cons.prems(4)] drop Cons.prems show ?thesis by simp
  next
    case join
    from mergeInto_Some [OF join(2)] obtain k c where k: "k < n" "bs1 = bs[k := c]"
      "b_start (bs ! k) = b_end t \<and> c = (bs ! k)\<lparr>b_start := b_start t\<rparr> \<or> b_end (bs ! k) = b_start t \<and> c = (bs ! k)\<lparr>b_end := b_end t\<rparr>" by blast
    have kb: "bs ! k \<in> set (take n bs)" using k(1) Cons.prems(1) by (auto simp: in_set_conv_nth)
    have wf: "wf_block t" "wf_block (bs ! k)" using Cons.prems(2) kb by auto
    note c = join_blocks [OF wf k(3)]
    have sub: "bytes t \<subseteq> bytes c" "bytes (bs ! k) \<subseteq> bytes c"
    proof -
      show "bytes t \<subseteq> bytes c" using c(2) by (metis add_is_0 of_bool_eq_0_iff subsetI)
      show "bytes (bs ! k) \<subseteq> bytes c" using c(2) by (metis add_is_0 of_bool_eq_0_iff subsetI)
    qed
    have set: "c \<in> set (take n bs1)" "\<forall>b \<in> set (take n bs). b = bs ! k \<or> b \<in> set (take n bs1)" "set (take n bs1) \<subseteq> insert c (set (take n bs))"
      using k(1) Cons.prems(1) unfolding k(2) by (auto simp: in_set_conv_nth take_update_swap nth_list_update dest!: set_update_subset_insert [THEN subsetD]) metis
    from Cons.prems(3) obtain b where b: "b \<in> set (take n bs) \<or> b = t \<or> b \<in> set temp" "X \<subseteq> bytes b" by auto
    then consider "b \<in> set temp" | "b \<in> set (take n bs1)" | "bytes b \<subseteq> bytes c" using sub set(2) by metis
    then have "\<exists>b \<in> set (take n bs1) \<union> set temp. X \<subseteq> bytes b"
      by cases (use b(2) set(1) in \<open>blast intro: order.trans\<close>)+
    then have "\<exists>b \<in> set (take n bs1 @ temp). X \<subseteq> bytes b" by simp
    moreover have "\<forall>b \<in> set (take n bs1 @ temp). wf_block b" using Cons.prems(2) c(1) set(3) by auto
    moreover have "n + length temp \<le> length bs1" using Cons.prems(1) k(2) by simp
    ultimately show ?thesis using Cons.IH [of n bs1] Cons.prems(4,5) join by simp
  next
    case keep
    have eq: "take (Suc n) (bs[n := t]) = take n bs @ [t]" using Cons.prems(1) by simp
    show ?thesis using Cons.IH [of "Suc n" "bs[n := t]"] Cons.prems keep unfolding eq by simp
  qed
qed simp

lemma merge_within:
  assumes "bm_wf m" and "b \<in> set (live m)" and "bytes b \<noteq> {}"
  shows "\<exists>c \<in> set (live (merge m)). bytes b \<subseteq> bytes c"
proof -
  obtain bs n where r: "mergeLoop (live m) (blocks m, 0) = (bs, n)" by fastforce
  have "\<exists>c \<in> set (take n bs). bytes b \<subseteq> bytes c"
    by (rule mergeLoop_within [OF _ _ _ assms(3) r]) (use assms in \<open>auto simp: bm_wf_def live_def\<close>)
  then show ?thesis using r by (simp add: merge_def live_def)
qed

lemma bytes_subset_capacity:
  assumes "wf_block b" and "wf_block c" and "bytes b \<subseteq> bytes c" and "bytes b \<noteq> {}"
  shows "capacity b \<le> capacity c"
  using assms by (simp add: word_le_nat_alt unat_capacity) (auto simp: bytes_def)

text \<open>A block that is returned never makes a smaller allocation fail that would have succeeded before.\<close>

lemma addBlock_satisfies:
  assumes "bm_inv m" and "can_satisfy n m" and "0 < n" and "wf_block b" and "addBlock b (irq, m) = Inr (u, irq', m')"
  shows "can_satisfy n m'"
proof (cases "capacity b > 0")
  case True
  have wf: "bm_wf m" and nl: "\<not> locked (bm_lock m)" using assms(1) by (simp_all add: bm_inv_def)
  let ?l = "(bm_lock m)\<lparr>sl_lock := 1, sl_enableIrqs := irq\<rparr>" let ?m = "m\<lparr>bm_lock := ?l\<rparr>"
  have wf1: "bm_wf ?m" using wf by simp
  have "bm_lock (addBlockBody b ?m) = ?l" using addBlockBody_correct(3) [OF wf1 assms(4)] by simp
  from bml.under_lock_run [where body = "\<lambda>m. ((), addBlockBody b m)" and irq = irq, OF nl refl] this assms(5) True
  have m': "live m' = live (addBlockBody b ?m)" by (auto simp: addBlock_def)
  from assms(2) obtain c where c: "c \<in> set (live ?m)" "n \<le> capacity c" by (auto simp: can_satisfy_def)
  have wfc: "wf_block c" using c(1) wf1 by (auto simp: bm_wf_def)
  have ne: "bytes c \<noteq> {}" using unat_capacity [OF wfc] c(2) assms(3) by (auto simp: bytes_def word_le_nat_alt word_less_nat_alt)
  from merge_within [OF wf1 c(1) ne] obtain d where d: "d \<in> set (live (merge ?m))" "bytes c \<subseteq> bytes d" by blast
  have wfd: "wf_block d" using d(1) merge_correct(1) [OF wf1] by (auto simp: bm_wf_def)
  have nd: "n \<le> capacity d" using bytes_subset_capacity [OF wfc wfd d(2) ne] c(2) by simp
  have "c \<in> set (live m') \<or> d \<in> set (live m')"
    using c(1) d(1) appendBlock_correct(2) [OF wf1 _ assms(4)] appendBlock_correct(2) [OF merge_correct(1) [OF wf1] _ assms(4)]
    unfolding m' by (auto simp: addBlockBody_def Let_def)
  then show ?thesis using c(2) nd by (auto simp: can_satisfy_def)
qed (use assms in \<open>auto simp: addBlock_def\<close>)

text \<open>First fit: the block that serves an allocation, and the live blocks afterwards.\<close>

lemma allocate_first:
  assumes inv: "bm_inv m" and l: "live m = xs @ b # ys" and xs: "\<forall>x \<in> set xs. capacity x < n" and b: "n \<le> capacity b"
  shows "\<exists>m'. allocate n (irq, m) = Inr (b_start b, irq, m') \<and> live m' = xs @ b\<lparr>b_start := b_start b + n\<rparr> # ys \<and> bm_inv m' \<and>
           free_set m' = free_set m - span (b_start b) n"
proof -
  have wf: "bm_wf m" and nl: "\<not> locked (bm_lock m)" using inv by (simp_all add: bm_inv_def)
  let ?l = "(bm_lock m)\<lparr>sl_lock := 1, sl_enableIrqs := irq\<rparr>" let ?m = "m\<lparr>bm_lock := ?l\<rparr>" let ?b = "b\<lparr>b_start := b_start b + n\<rparr>"
  have len: "length (live m) = numBlocks m" using wf by (simp add: bm_wf_def live_def)
  have nth: "blocks m ! j = live m ! j" if "j < numBlocks m" for j using that by (simp add: live_def)
  have k: "length xs < numBlocks m" "blocks m ! length xs = b" using len nth [of "length xs"] by (simp_all add: l)
  have small: "capacity (blocks m ! j) < n" if "j < length xs" for j using xs that nth [of j] k(1) by (simp add: l nth_append)
  from allocateLoop_cases [of 0 ?m n]
  have run: "allocateLoop n 0 ?m = (b_start b, ?m\<lparr>blocks := (blocks m)[length xs := ?b]\<rparr>)"
  proof (elim disjE exE conjE)
    fix j
    assume j: "j < numBlocks ?m" "n \<le> capacity (blocks ?m ! j)" "\<forall>i. 0 \<le> i \<longrightarrow> i < j \<longrightarrow> capacity (blocks ?m ! i) < n"
      and r: "allocateLoop n 0 ?m = (b_start (blocks ?m ! j), ?m\<lparr>blocks := (blocks ?m)[j := (blocks ?m ! j)\<lparr>b_start := b_start (blocks ?m ! j) + n\<rparr>]\<rparr>)"
    have "j = length xs" using small [of j] j(2,3) b k(2) by (cases j "length xs" rule: linorder_cases) (auto simp: not_le [symmetric])
    with r k(2) show ?thesis by simp
  next
    assume "\<forall>j. 0 \<le> j \<longrightarrow> j < numBlocks ?m \<longrightarrow> capacity (blocks ?m ! j) < n"
    with k b show ?thesis by auto
  qed
  have "can_satisfy n m" using b by (auto simp: can_satisfy_def l)
  from allocate_ok [OF inv this, of irq] obtain p m' where
    m': "allocate n (irq, m) = Inr (p, irq, m')" "bm_inv m'" "free_set m' = free_set m - span p n" by blast
  from bml.under_lock_run [where body = "allocateLoop n 0" and irq = irq, OF nl run] m'(1)
  have eq: "p = b_start b" "m' = m\<lparr>blocks := (blocks m)[length xs := ?b], bm_lock := (bm_lock m)\<lparr>sl_lock := 0, sl_enableIrqs := irq\<rparr>\<rparr>"
    by (auto simp: allocate_def)
  have "live m' = (live m)[length xs := ?b]" by (simp add: eq(2) live_def take_update_swap)
  then have "live m' = xs @ ?b # ys" by (simp add: l)
  with m' eq(1) show ?thesis by blast
qed

section \<open>Properties\<close>

text \<open>
  (C5) Allocating a range and returning it restores the free memory exactly, for every history of the map, as long as the free memory is in fewer
  than 255 separate pieces: a full array of blocks alone never loses memory, because merging then finds neighbours.
\<close>

theorem allocate_return_restores:
  assumes "bm_inv m" and "can_satisfy n m" and "card (pieces (free_set m)) + 1 < BLOCKMAP_SIZE"
  shows "\<exists>p m1 m2. allocate n (irq, m) = Inr (p, irq, m1) \<and> free_set m1 = free_set m - span p n \<and>
           returnMemory p n (irq, m1) = Inr ((), irq, m2) \<and> bm_inv m2 \<and> free_set m2 = free_set m"
proof -
  from allocate_ok [OF assms(1,2), of irq] obtain p m1 where
    m1: "allocate n (irq, m) = Inr (p, irq, m1)" "bm_inv m1" "free_set m1 = free_set m - span p n" by blast
  have "has_room m1" by (rule has_room_pieces [OF m1(2)]) (use assms(3) pieces_span [of m p n] in \<open>simp add: m1(3)\<close>)
  from bma.alloc_give_restores [OF assms(1,2) m1(1) this] m1 show ?thesis by blast
qed

theorem allocate_return_restores_witness:
  "\<exists>p m1 m2. allocate 0x800 (True, one_block) = Inr (p, True, m1) \<and> returnMemory p 0x800 (True, m1) = Inr ((), True, m2) \<and>
     free_set m2 = {0x1000..<0x3000}"
proof -
  have "can_satisfy 0x800 one_block" by (simp add: can_satisfy_def one_block_simps capacity_def Block_def)
  moreover have "card (pieces (free_set one_block)) + 1 < BLOCKMAP_SIZE"
    using card_mono [OF _ pieces_interval [of "0x1000" "0x3000"]] by (simp add: one_block_simps BLOCKMAP_SIZE_def)
  ultimately show ?thesis using allocate_return_restores [OF one_block_simps(3), of "0x800" True] by (auto simp: one_block_simps)
qed

end
