(* ===== verification/Heap_Life.thy ===== *)
theory Heap_Life
  imports Kmalloc Fragmentation "HOL-Library.Multiset"
begin

text \<open>
  The life of heap memory: which pages are mapped and by whom, through any sequence of allocations, mappings and releases. A ledger
  \<open>L\<close> gives for every page in use the physical page, whether the frame belongs to the allocation, and the caching; \<open>live m L\<close> says that
  the page tables and both block maps agree with the ledger. On top of it \<open>heap_blocks m B\<close> is the state of the heap as users of
  \<^verbatim>\<open>kmalloc\<close> and \<^verbatim>\<open>kfree\<close> see it, a list of blocks, and the locale \<open>block_heap\<close> is what they rely on.
\<close>

section \<open>Pages and frames in use\<close>

type_synonym page_ledger = "u64 \<rightharpoonup> u64 \<times> bool \<times> bool"

definition owned :: "memory \<Rightarrow> u64 \<Rightarrow> bool" where
  "owned m f \<longleftrightarrow> f \<noteq> 0 \<and> page_bytes f \<inter> free_set (mem_phys m) = {} \<and> (\<forall>p. \<not> is_table m p f)"

definition frame_of :: "page_ledger \<Rightarrow> u64 \<Rightarrow> u64 option" where
  "frame_of L va = (case L va of Some (pa, True, ca) \<Rightarrow> Some (drop_bit 12 pa) | _ \<Rightarrow> None)"

definition backed :: "memory \<Rightarrow> page_ledger \<Rightarrow> bool" where
  "backed m L \<longleftrightarrow> pt_ok m \<and> inj_on va_path (dom L) \<and>
     (\<forall>va pa al ca. L va = Some (pa, al, ca) \<longrightarrow> va_index 39 va \<noteq> 511 \<and> unat pa < 2 ^ 52 \<and> mapped m va (page_entry pa al ca)) \<and>
     (\<forall>va f. frame_of L va = Some f \<longrightarrow> owned m f) \<and>
     (\<forall>va va' f. frame_of L va = Some f \<longrightarrow> frame_of L va' = Some f \<longrightarrow> va = va')"

lemma backedD:
  assumes "backed m L"
  shows "pt_ok m" "inj_on va_path (dom L)"
    "L va = Some (pa, al, ca) \<Longrightarrow> va_index 39 va \<noteq> 511 \<and> unat pa < 2 ^ 52 \<and> mapped m va (page_entry pa al ca)"
    "frame_of L va = Some f \<Longrightarrow> owned m f" "frame_of L va = Some f \<Longrightarrow> frame_of L va' = Some f \<Longrightarrow> va = va'"
  using assms unfolding backed_def by blast+

lemma frame_of_simps [simp]:
  "frame_of (L(va \<mapsto> (pa, al, ca))) va' = (if va' = va then if al then Some (drop_bit 12 pa) else None else frame_of L va')"
  "frame_of (L(va := None)) va' = (if va' = va then None else frame_of L va')"
  by (simp_all add: frame_of_def)

lemma mapped_page_of:
  assumes "pt_ok m" and "mapped m va (page_entry pa al ca)" and "unat pa < 2 ^ 52"
  shows "page_of m va = Some (drop_bit 12 pa)"
proof -
  from assms(2) obtain f where "table_at m [va_index 39 va, va_index 30 va, va_index 21 va] = Some f" "mem_tables m f (va_index 12 va) = page_entry pa al ca"
    by (auto simp: mapped_def is_table_def)
  then show ?thesis
    using walk_snoc [of "mem_tables m" "mem_cr3 m" "[va_index 39 va, va_index 30 va, va_index 21 va]" "va_index 12 va"] page_entry_ok [OF assms(3), of al ca]
    by (simp add: page_of_def va_path_def del: walk.simps)
qed

lemma owned_shrink:
  assumes "owned m f" and "free_set (mem_phys m') \<subseteq> free_set (mem_phys m)"
    and "\<forall>r h. is_table m' r h \<longrightarrow> is_table m r h \<or> page_bytes h \<subseteq> free_set (mem_phys m)"
  shows "owned m' f"
proof -
  have "page_bytes f \<noteq> {}" by (simp add: page_bytes_def)
  then have "\<not> page_bytes f \<subseteq> free_set (mem_phys m)" using assms(1) unfolding owned_def by blast
  with assms show ?thesis unfolding owned_def by blast
qed

text \<open>Mapping a page that is not in use adds it to the ledger.\<close>

lemma backed_mapPage_tables:
  assumes b: "backed m L" and va: "va_path va \<notin> va_path ` dom L" "va_index 39 va \<noteq> 511" and free: "table_cost m va * 4096 \<le> card (free_set (mem_phys m))"
    and pa: "unat pa < 2 ^ 52" and own: "al \<Longrightarrow> owned m (drop_bit 12 pa) \<and> (\<forall>va'. frame_of L va' \<noteq> Some (drop_bit 12 pa))"
  shows "\<exists>m'. mapPage va pa WRITABLE al ca m = Inr m' \<and> backed m' (L(va \<mapsto> (pa, al, ca))) \<and> pt_frame m m' \<and>
           free_set (mem_phys m') \<subseteq> free_set (mem_phys m) \<and> card (free_set (mem_phys m)) \<le> card (free_set (mem_phys m')) + table_cost m va * 4096 \<and>
           (\<exists>f. is_table m' [va_index 39 va, va_index 30 va, va_index 21 va] f) \<and> (\<forall>r h. is_table m r h \<longrightarrow> is_table m' r h)"
proof -
  from mapPage_tables [OF backedD(1) [OF b] va(2) free pa, of al ca] obtain m' f where
    r: "mapPage va pa WRITABLE al ca m = Inr m'" "pt_ok m'" "pt_frame m m'" "free_set (mem_phys m') \<subseteq> free_set (mem_phys m)"
      "card (free_set (mem_phys m)) \<le> card (free_set (mem_phys m')) + table_cost m va * 4096"
    and here: "is_table m' [va_index 39 va, va_index 30 va, va_index 21 va] f" "mem_tables m' f (va_index 12 va) = page_entry pa al ca"
    and there: "\<forall>va' e. va_path va' \<noteq> va_path va \<longrightarrow> mapped m va' e \<longrightarrow> mapped m' va' e"
      "\<forall>r h. is_table m' r h \<longrightarrow> is_table m r h \<or> page_bytes h \<subseteq> free_set (mem_phys m)" "\<forall>r h. is_table m r h \<longrightarrow> is_table m' r h" by blast
  let ?L = "L(va \<mapsto> (pa, al, ca))"
  have path: "va_path va' \<noteq> va_path va" if "L va' = Some x" for va' x using va(1) that by (metis domI imageI)
  have "inj_on va_path (dom ?L)" using backedD(2) [OF b] va(1) by auto
  moreover have "va_index 39 va' \<noteq> 511 \<and> unat pa' < 2 ^ 52 \<and> mapped m' va' (page_entry pa' al' ca')" if "?L va' = Some (pa', al', ca')" for va' pa' al' ca'
  proof (cases "va' = va")
    case True
    then show ?thesis using that va(2) pa here by (auto simp: mapped_def)
  next
    case False
    then have "L va' = Some (pa', al', ca')" using that by simp
    with backedD(3) [OF b this] path there(1) show ?thesis by blast
  qed
  moreover have "owned m' g" if "frame_of ?L va' = Some g" for va' g
    using that own backedD(4) [OF b, of va' g] owned_shrink [OF _ r(4) there(2)] by (auto split: if_splits)
  moreover have "va1 = va2" if "frame_of ?L va1 = Some g" "frame_of ?L va2 = Some g" for va1 va2 g
    using that own backedD(5) [OF b, of va1 g va2] by (auto split: if_splits)
  ultimately have "backed m' ?L" using r(2) unfolding backed_def by blast
  with r here(1) there(3) show ?thesis by blast
qed

lemma backed_mapPage:
  assumes "backed m L" and "va_path va \<notin> va_path ` dom L" and "va_index 39 va \<noteq> 511" and free: "3 * 4096 \<le> card (free_set (mem_phys m))"
    and "unat pa < 2 ^ 52" and "al \<Longrightarrow> owned m (drop_bit 12 pa) \<and> (\<forall>va'. frame_of L va' \<noteq> Some (drop_bit 12 pa))"
  shows "\<exists>m'. mapPage va pa WRITABLE al ca m = Inr m' \<and> backed m' (L(va \<mapsto> (pa, al, ca))) \<and> pt_frame m m' \<and>
           free_set (mem_phys m') \<subseteq> free_set (mem_phys m) \<and> card (free_set (mem_phys m)) \<le> card (free_set (mem_phys m')) + 3 * 4096"
proof -
  have c: "table_cost m va * 4096 \<le> 3 * 4096" by (simp add: table_cost_def)
  then have "table_cost m va * 4096 \<le> card (free_set (mem_phys m))" using free by (rule order.trans)
  from backed_mapPage_tables [OF assms(1-3) this assms(5), of al ca] assms(6) show ?thesis
    using c by (meson add_left_mono order.trans)
qed

text \<open>Unmapping a page of the ledger removes it and gives its frame back if it owned one.\<close>

lemma backed_unmapPage:
  assumes b: "backed m L" and va: "L va = Some (pa, al, ca)"
  shows "\<exists>m'. unmapPage va m = Inr m' \<and> backed m' (L(va := None)) \<and> pt_frame m m' \<and> page_of m' va = None \<and>
           free_set (mem_phys m') = (if al \<and> has_room (mem_phys m) then free_set (mem_phys m) \<union> page_bytes (drop_bit 12 pa) else free_set (mem_phys m))"
proof -
  note e = backedD(3) [OF b va]
  then obtain f where f: "is_table m [va_index 39 va, va_index 30 va, va_index 21 va] f" "mem_tables m f (va_index 12 va) = page_entry pa al ca"
    by (auto simp: mapped_def)
  have fr: "al \<Longrightarrow> frame_of L va = Some (drop_bit 12 pa)" by (simp add: frame_of_def va)
  have own: "al \<Longrightarrow> drop_bit 12 pa \<noteq> 0 \<and> page_bytes (drop_bit 12 pa) \<inter> free_set (mem_phys m) = {} \<and> (\<forall>p. \<not> is_table m p (drop_bit 12 pa))"
    using backedD(4) [OF b] fr by (simp add: owned_def)
  from unmapPage_ok [OF backedD(1) [OF b] f _ own] e obtain m' where
    r: "unmapPage va m = Inr m'" "pt_ok m'" "pt_frame m m'" "page_of m' va = None"
      "free_set (mem_phys m') = (if al \<and> has_room (mem_phys m) then free_set (mem_phys m) \<union> page_bytes (drop_bit 12 pa) else free_set (mem_phys m))"
      "\<forall>va' e. va_path va' \<noteq> va_path va \<longrightarrow> mapped m va' e \<longrightarrow> mapped m' va' e" "\<forall>r h. is_table m' r h \<longleftrightarrow> is_table m r h" by blast
  let ?L = "L(va := None)"
  have "inj_on va_path (dom ?L)" by (rule inj_on_subset [OF backedD(2) [OF b]]) auto
  moreover have "va_index 39 va' \<noteq> 511 \<and> unat pa' < 2 ^ 52 \<and> mapped m' va' (page_entry pa' al' ca')" if "?L va' = Some (pa', al', ca')" for va' pa' al' ca'
  proof -
    have l: "va' \<noteq> va" "L va' = Some (pa', al', ca')" using that by (auto split: if_splits)
    have "va_path va' \<noteq> va_path va" using inj_onD [OF backedD(2) [OF b], of va' va] l va by auto
    with backedD(3) [OF b l(2)] r(6) show ?thesis by blast
  qed
  moreover have "owned m' g" if g: "frame_of ?L va' = Some g" for va' g
  proof -
    have g': "va' \<noteq> va" "frame_of L va' = Some g" using g by (auto split: if_splits)
    then have "al \<Longrightarrow> g \<noteq> drop_bit 12 pa" using backedD(5) [OF b, of va' g va] fr by auto
    then have "al \<Longrightarrow> page_bytes g \<inter> page_bytes (drop_bit 12 pa) = {}" by (rule page_bytes_disjoint)
    with backedD(4) [OF b g'(2)] r(5,7) show ?thesis by (auto simp: owned_def)
  qed
  moreover have "va1 = va2" if "frame_of ?L va1 = Some g" "frame_of ?L va2 = Some g" for va1 va2 g
    using that backedD(5) [OF b, of va1 g va2] by (auto split: if_splits)
  ultimately show ?thesis using r unfolding backed_def by blast
qed

section \<open>Ranges of pages\<close>

lemma backed_mapFrames:
  assumes "backed m L" and "distinct (map va_path vas)" and "\<forall>va \<in> set vas. va_index 39 va \<noteq> 511 \<and> va_path va \<notin> va_path ` dom L"
    and "4 * 4096 * length vas \<le> card (free_set (mem_phys m))"
  shows "\<exists>m' g. mapFrames vas m = Inr m' \<and> backed m' (\<lambda>va. if va \<in> set vas then Some (g va * PAGE_SIZE, True, True) else L va) \<and>
           pt_frame m m' \<and> (\<forall>va \<in> set vas. unat (g va) < 2 ^ 40) \<and> free_set (mem_phys m') \<subseteq> free_set (mem_phys m) \<and>
           card (free_set (mem_phys m)) \<le> card (free_set (mem_phys m')) + 4 * 4096 * length vas"
  using assms
proof (induction vas arbitrary: m L)
  case Nil
  then show ?case by (intro exI [of _ m]) (simp add: pt_frame_def)
next
  case (Cons va vas)
  have ok: "pt_ok m" by (rule backedD(1) [OF Cons.prems(1)])
  have "free_set (mem_phys m) \<noteq> {}" using Cons.prems(4) by auto
  from allocateFrame_ok [OF pt_okD(2) [OF ok] this, of "mem_irq m"] obtain f bm where
    al: "allocateFrame (mem_irq m, mem_phys m) = Inr (f, mem_irq m, bm)" and bm: "frames_ok bm" "f \<noteq> 0" "unat f < 2 ^ 40"
      "page_bytes f \<subseteq> free_set (mem_phys m)" "free_set bm = free_set (mem_phys m) - page_bytes f" by blast
  let ?m1 = "m\<lparr>mem_phys := bm\<rparr>"
  have same: "is_table ?m1 p g = is_table m p g" for p g by (simp add: is_table_def)
  have ok1: "pt_ok ?m1" by (rule pt_ok_phys [OF ok bm(1)]) (use pt_okD(4) [OF ok] bm(5) in blast)
  have ne: "page_bytes f \<noteq> {}" by (simp add: page_bytes_def)
  have own: "owned ?m1 f" using bm(2,4,5) ne pt_okD(4) [OF ok, of _ f] unfolding owned_def same by auto
  have b1: "backed ?m1 L"
    using Cons.prems(1) ok1 bm(5) unfolding backed_def owned_def same mapped_def by (auto 0 4)
  have new: "frame_of L va' \<noteq> Some f" for va' using backedD(4) [OF Cons.prems(1), of va' f] bm(4) ne by (auto simp: owned_def)
  have card: "card (free_set (mem_phys m)) = card (free_set bm) + 4096"
    using card_Diff_subset [OF _ bm(4)] card_mono [OF _ bm(4)] pt_okD(2) [OF ok] by (simp add: bm(5) card_page_bytes page_bytes_def)
  have c: "va_path va \<notin> va_path ` dom L" "va_index 39 va \<noteq> 511" "3 * 4096 \<le> card (free_set (mem_phys ?m1))" using Cons.prems(3,4) card by auto
  note fr = unat_frame_address [OF bm(3)]
  from backed_mapPage [OF b1 c fr(1), of True True] own new obtain m2 where
    m2: "mapPage va (f * PAGE_SIZE) WRITABLE True True ?m1 = Inr m2" "backed m2 (L(va \<mapsto> (f * PAGE_SIZE, True, True)))" "pt_frame ?m1 m2"
      "free_set (mem_phys m2) \<subseteq> free_set bm" "card (free_set bm) \<le> card (free_set (mem_phys m2)) + 3 * 4096" by (auto simp: fr(2))
  have "distinct (map va_path vas)" "4 * 4096 * length vas \<le> card (free_set (mem_phys m2))"
    "\<forall>va' \<in> set vas. va_index 39 va' \<noteq> 511 \<and> va_path va' \<notin> va_path ` dom (L(va \<mapsto> (f * PAGE_SIZE, True, True)))"
    using Cons.prems(2-4) m2(5) card by (auto, metis imageI)
  from Cons.IH [OF m2(2) this(1,3,2)] obtain m' g where
    m': "mapFrames vas m2 = Inr m'" "backed m' (\<lambda>va'. if va' \<in> set vas then Some (g va' * PAGE_SIZE, True, True) else (L(va \<mapsto> (f * PAGE_SIZE, True, True))) va')"
      "pt_frame m2 m'" "\<forall>va \<in> set vas. unat (g va) < 2 ^ 40" "free_set (mem_phys m') \<subseteq> free_set (mem_phys m2)"
      "card (free_set (mem_phys m2)) \<le> card (free_set (mem_phys m')) + 4 * 4096 * length vas" by blast
  have "va \<notin> set vas" using Cons.prems(2) by auto
  then have "(\<lambda>va'. if va' \<in> set vas then Some (g va' * PAGE_SIZE, True, True) else (L(va \<mapsto> (f * PAGE_SIZE, True, True))) va') =
      (\<lambda>va'. if va' \<in> set (va # vas) then Some ((g(va := f)) va' * PAGE_SIZE, True, True) else L va')" by (auto simp: fun_eq_iff)
  with m'(2) have "backed m' (\<lambda>va'. if va' \<in> set (va # vas) then Some ((g(va := f)) va' * PAGE_SIZE, True, True) else L va')" by (simp only:)
  moreover have "mapFrames (va # vas) m = Inr m'" using al bm(2) m2(1) m'(1) by (simp add: on_phys_def)
  moreover have "pt_frame m m'" using m2(3) m'(3) by (simp add: pt_frame_def)
  moreover have "free_set (mem_phys m') \<subseteq> free_set (mem_phys m)" using m'(5) m2(4) bm(5) by blast
  moreover have "card (free_set (mem_phys m)) \<le> card (free_set (mem_phys m')) + 4 * 4096 * length (va # vas)" using m'(6) m2(5) card by simp
  moreover have "\<forall>va' \<in> set (va # vas). unat ((g(va := f)) va') < 2 ^ 40" using m'(4) bm(3) by simp
  ultimately show ?case by blast
qed

text \<open>Only the last-level tables that do not exist yet use up frames, three for each at most.\<close>

definition new_tables :: "memory \<Rightarrow> u64 list \<Rightarrow> nat list set" where
  "new_tables m vas = {r \<in> (\<lambda>va. [va_index 39 va, va_index 30 va, va_index 21 va]) ` set vas. \<nexists>f. is_table m r f}"

lemma new_tables_step:
  assumes "\<exists>f. is_table m' [va_index 39 va, va_index 30 va, va_index 21 va] f" and "\<forall>r h. is_table m r h \<longrightarrow> is_table m' r h"
  shows "3 * card (new_tables m' vas) + table_cost m va \<le> 3 * card (new_tables m (va # vas))"
proof -
  let ?r = "[va_index 39 va, va_index 30 va, va_index 21 va]"
  have fin: "finite (new_tables m (va # vas))" by (simp add: new_tables_def)
  have sub: "new_tables m' vas \<subseteq> new_tables m (va # vas) - {?r}" using assms unfolding new_tables_def by auto
  show ?thesis
  proof (cases "\<exists>f. is_table m ?r f")
    case True
    have "card (new_tables m' vas) \<le> card (new_tables m (va # vas))" by (rule card_mono [OF fin]) (use sub in blast)
    with True show ?thesis by (simp add: table_cost_def)
  next
    case False
    then have "?r \<in> new_tables m (va # vas)" by (simp add: new_tables_def)
    then have "Suc (card (new_tables m (va # vas) - {?r})) = card (new_tables m (va # vas))" by (rule card_Suc_Diff1 [OF fin])
    with card_mono [OF _ sub] fin False show ?thesis by (simp add: table_cost_def)
  qed
qed

lemma backed_mapRange:
  assumes "backed m L" and "distinct (map (va_path \<circ> fst) ps)"
    and "\<forall>(va, pa) \<in> set ps. va_index 39 va \<noteq> 511 \<and> unat pa < 2 ^ 52 \<and> va_path va \<notin> va_path ` dom L"
    and "3 * card (new_tables m (map fst ps)) * 4096 \<le> card (free_set (mem_phys m))"
  shows "\<exists>m' L'. mapRange ps ca m = Inr m' \<and> backed m' L' \<and> dom L' = dom L \<union> fst ` set ps \<and> (\<forall>va. va \<notin> fst ` set ps \<longrightarrow> L' va = L va) \<and>
           pt_frame m m' \<and> card (free_set (mem_phys m)) \<le> card (free_set (mem_phys m')) + 3 * card (new_tables m (map fst ps)) * 4096"
  using assms
proof (induction ps arbitrary: m L)
  case Nil
  then show ?case by (intro exI [of _ m] exI [of _ L]) (simp add: pt_frame_def)
next
  case (Cons x ps)
  obtain va pa where x: "x = (va, pa)" by fastforce
  let ?n = "\<lambda>m. 3 * card (new_tables m (map fst ps))"
  have "table_cost m va \<le> 3 * card (new_tables m (map fst (x # ps)))"
    by (cases "\<exists>f. is_table m [va_index 39 va, va_index 30 va, va_index 21 va] f") (auto simp: table_cost_def new_tables_def x Suc_le_eq card_gt_0_iff)
  then have c: "va_path va \<notin> va_path ` dom L" "va_index 39 va \<noteq> 511" "table_cost m va * 4096 \<le> card (free_set (mem_phys m))" "unat pa < 2 ^ 52"
    using Cons.prems(3,4) by (auto simp: x)
  from backed_mapPage_tables [OF Cons.prems(1) c, of False ca] obtain m1 where
    m1: "mapPage va pa WRITABLE False ca m = Inr m1" "backed m1 (L(va \<mapsto> (pa, False, ca)))" "pt_frame m m1"
      "card (free_set (mem_phys m)) \<le> card (free_set (mem_phys m1)) + table_cost m va * 4096"
    and t: "\<exists>f. is_table m1 [va_index 39 va, va_index 30 va, va_index 21 va] f" "\<forall>r h. is_table m r h \<longrightarrow> is_table m1 r h" by auto
  note cost = new_tables_step [OF t, of "map fst ps"]
  then have cost': "?n m1 * 4096 + table_cost m va * 4096 \<le> 3 * card (new_tables m (map fst (x # ps))) * 4096" by (simp add: x)
  have "va_path va' \<noteq> va_path va" if "(va', pa') \<in> set ps" for va' pa'
    using Cons.prems(2) imageI [OF that, of "va_path \<circ> fst"] by (simp add: x comp_def) metis
  then have "\<forall>(va', pa') \<in> set ps. va_index 39 va' \<noteq> 511 \<and> unat pa' < 2 ^ 52 \<and> va_path va' \<notin> va_path ` dom (L(va \<mapsto> (pa, False, ca)))"
    using Cons.prems(3) unfolding x dom_fun_upd by (auto simp del: dom_fun_upd) blast+
  moreover have "distinct (map (va_path \<circ> fst) ps)" "?n m1 * 4096 \<le> card (free_set (mem_phys m1))" using Cons.prems(2,4) m1(4) cost' by (simp_all add: comp_def)
  ultimately obtain m' L' where
    m': "mapRange ps ca m1 = Inr m'" "backed m' L'" "dom L' = dom (L(va \<mapsto> (pa, False, ca))) \<union> fst ` set ps"
      "\<forall>va'. va' \<notin> fst ` set ps \<longrightarrow> L' va' = (L(va \<mapsto> (pa, False, ca))) va'" "pt_frame m1 m'"
      "card (free_set (mem_phys m1)) \<le> card (free_set (mem_phys m')) + ?n m1 * 4096" using Cons.IH [OF m1(2)] by blast
  have "pt_frame m m'" using m1(3) m'(5) by (simp add: pt_frame_def)
  moreover have "dom L' = dom L \<union> fst ` set (x # ps)" "\<forall>va'. va' \<notin> fst ` set (x # ps) \<longrightarrow> L' va' = L va'" using m'(3,4) by (auto simp: x)
  moreover have "card (free_set (mem_phys m)) \<le> card (free_set (mem_phys m')) + 3 * card (new_tables m (map fst (x # ps))) * 4096"
    using m1(4) m'(6) cost' by linarith
  ultimately show ?case using m1(1) m'(1,2) by (intro exI [of _ m'] exI [of _ L']) (simp add: x)
qed

text \<open>The pages of a range lie in few tables.\<close>

lemma new_tables_pages:
  assumes "in_heap p n"
  shows "card (new_tables m (pages p n)) \<le> (n + 1022) div 512"
proof (cases "n = 0")
  case False
  let ?r = "\<lambda>k. [k div 2 ^ 18 mod 512, k div 2 ^ 9 mod 512, k mod 512]" let ?x = "page_number p div 512"
  have "[va_index 39 va, va_index 30 va, va_index 21 va] \<in> ?r ` {?x..<?x + (n + 1022) div 512}" if va: "va \<in> set (pages p n)" for va
  proof -
    obtain k where k: "k < n" "va = p + of_nat k * PAGE_SIZE" using va by (auto simp: pages_def)
    have pn: "page_number va = page_number p + k" using assms unat_page(1) [OF assms k(1)] by (auto simp: page_number_def k(2) in_heap_def elim!: dvdE)
    have "page_number va div 512 < ?x + (n + 1022) div 512"
    proof -
      have "page_number p + k \<le> 512 * ?x + 511 + (n - 1)" using k(1) div_mult_mod_eq [of "page_number p" 512] mod_less_divisor [of 512 "page_number p"] by linarith
      then have "(page_number p + k) div 512 \<le> (512 * ?x + 511 + (n - 1)) div 512" by (rule div_le_mono)
      also have "\<dots> = ?x + (510 + n) div 512" using False by (simp add: add.assoc)
      also have "\<dots> < ?x + (n + 1022) div 512" by simp
      finally show ?thesis by (simp only: pn)
    qed
    moreover have "?x \<le> page_number va div 512" by (simp add: pn div_le_mono)
    moreover have "[va_index 39 va, va_index 30 va, va_index 21 va] = ?r (page_number va div 512)" by (simp add: va_index_page div_mult2_eq [symmetric])
    ultimately show ?thesis by (intro image_eqI [of _ _ "page_number va div 512"]) simp_all
  qed
  then have "new_tables m (pages p n) \<subseteq> ?r ` {?x..<?x + (n + 1022) div 512}" by (auto simp: new_tables_def)
  from card_mono [OF _ this] card_image_le [of "{?x..<?x + (n + 1022) div 512}" ?r] show ?thesis by simp
qed (simp add: new_tables_def pages_def)

lemma backed_unmapPages:
  assumes "backed (mc_mem s) L" and "distinct vas" and "set vas \<subseteq> dom L"
  shows "\<exists>s'. unmapPages vas s = Inr s' \<and> backed (mc_mem s') (L |` (- set vas)) \<and> pt_frame (mc_mem s) (mc_mem s') \<and>
           free_set (mem_phys (mc_mem s)) \<subseteq> free_set (mem_phys (mc_mem s')) \<and> mc_processorCount s' = mc_processorCount s \<and> mc_cpu s' = mc_cpu s"
  using assms
proof (induction vas arbitrary: s L)
  case Nil
  then show ?case by (simp add: pt_frame_def)
next
  case (Cons va vas)
  obtain pa al ca where va: "L va = Some (pa, al, ca)" using Cons.prems(3) by auto
  from backed_unmapPage [OF Cons.prems(1) va] obtain m1 where
    m1: "unmapPage va (mc_mem s) = Inr m1" "backed m1 (L(va := None))" "pt_frame (mc_mem s) m1" "free_set (mem_phys (mc_mem s)) \<subseteq> free_set (mem_phys m1)"
    by (auto split: if_splits)
  from backedD(3) [OF Cons.prems(1) va] obtain f where "is_table (mc_mem s) [va_index 39 va, va_index 30 va, va_index 21 va] f" by (auto simp: mapped_def)
  from getPageTableEntry_found [OF backedD(1) [OF Cons.prems(1)] this] obtain s1 where
    s1: "unmapPageTlb va s = Inr s1" "mc_mem s1 = m1" "mc_processorCount s1 = mc_processorCount s" "mc_cpu s1 = mc_cpu s"
    using m1(1) by (auto simp: unmapPageTlb_def Let_def invalidateTlb_def)
  have "set vas \<subseteq> dom (L(va := None))" "backed (mc_mem s1) (L(va := None))" "distinct vas" using Cons.prems(2,3) m1(2) s1(2) by auto
  from Cons.IH [OF this(2,3,1)] obtain s' where
    s': "unmapPages vas s1 = Inr s'" "backed (mc_mem s') (L(va := None) |` (- set vas))" "pt_frame m1 (mc_mem s')"
      "free_set (mem_phys m1) \<subseteq> free_set (mem_phys (mc_mem s'))" "mc_processorCount s' = mc_processorCount s" "mc_cpu s' = mc_cpu s" unfolding s1(2-4) by blast
  have "L(va := None) |` (- set vas) = L |` (- set (va # vas))" by (auto simp: restrict_map_def fun_eq_iff)
  with s1(1) s' m1(3,4) show ?case by (auto simp: pt_frame_def)
qed

section \<open>The heap and its ledger\<close>

definition page_span :: "u64 \<Rightarrow> nat set" where
  "page_span va = {unat va..<unat va + 4096}"

definition live_heap :: "memory \<Rightarrow> page_ledger \<Rightarrow> bool" where
  "live_heap m L \<longleftrightarrow> heap_ok m \<and> backed m L \<and>
     (\<forall>va \<in> dom L. unat va mod 4096 = 0 \<and> unat va \<in> heap_range \<and> page_span va \<inter> free_set (mem_virt m) = {})"

lemma in_pages:
  assumes "in_heap p n" and "va \<in> set (pages p n)"
  shows "unat va mod 4096 = 0" "unat va \<in> heap_range" "unat len = n * 4096 \<Longrightarrow> page_span va \<subseteq> span p len" "unat va \<in> page_span va"
proof -
  obtain k where k: "k < n" "va = p + of_nat k * PAGE_SIZE" using assms(2) by (auto simp: pages_def)
  note u = unat_page [OF assms(1) k(1), folded k(2)]
  show "unat va mod 4096 = 0" "unat va \<in> heap_range" "unat va \<in> page_span va"
    using assms(1) u(2) by (simp_all add: u(1) in_heap_def page_span_def)
  have "k * 4096 + 4096 \<le> n * 4096" using k(1) by simp
  then show "page_span va \<subseteq> span p len" if "unat len = n * 4096" using that by (auto simp: page_span_def span_def u(1))
qed

lemma fresh_pages:
  assumes "live_heap m L" and "in_heap p n" and "span p len \<subseteq> free_set (mem_virt m)" and "unat len = n * 4096" and "va \<in> set (pages p n)"
  shows "va_path va \<notin> va_path ` dom L"
proof
  assume "va_path va \<in> va_path ` dom L"
  then obtain va' where va': "va' \<in> dom L" "va_path va = va_path va'" by blast
  from assms(1) va'(1) have l: "unat va' mod 4096 = 0" "unat va' \<in> heap_range" "page_span va' \<inter> free_set (mem_virt m) = {}" by (auto simp: live_heap_def)
  note pg = in_pages [OF assms(2,5)]
  have "page_number va = page_number va'" by (rule va_path_inj [OF pg(2) l(2) va'(2)])
  then have "unat va = unat va'" using pg(1) l(1) unfolding page_number_def by (metis div_mult_mod_eq add.right_neutral)
  then have "unat va \<in> page_span va'" by (simp add: page_span_def)
  moreover have "unat va \<in> free_set (mem_virt m)" using pg(3) [OF assms(4)] pg(4) assms(3) by blast
  ultimately show False using l(3) by blast
qed

text \<open>Taking a range out of the free addresses and putting its pages into the ledger.\<close>

lemma live_heapI:
  assumes "live_heap m L" and "heap_ok (m\<lparr>mem_virt := bm\<rparr>)" and "in_heap p n" and "unat len = n * 4096"
    and "free_set bm = free_set (mem_virt m) - span p len" and "backed m' L'" and "pt_frame (m\<lparr>mem_virt := bm\<rparr>) m'"
    and "dom L' = dom L \<union> set (pages p n)"
  shows "live_heap m' L'"
proof -
  have v: "mem_virt m' = bm" using assms(7) by (simp add: pt_frame_def)
  have "heap_ok m'" using assms(2) backedD(1) [OF assms(6)] by (simp add: heap_ok_def v)
  moreover have "unat va mod 4096 = 0 \<and> unat va \<in> heap_range \<and> page_span va \<inter> free_set bm = {}" if "va \<in> dom L'" for va
  proof (cases "va \<in> set (pages p n)")
    case True
    with in_pages [OF assms(3)] assms(4,5) show ?thesis by blast
  next
    case False
    with that assms(8) have "va \<in> dom L" by blast
    with assms(1,5) show ?thesis unfolding live_heap_def by blast
  qed
  ultimately show ?thesis using assms(6) by (simp add: live_heap_def v)
qed

lemma allocateMemory_live:
  assumes l: "live_heap m L" and len: "unat len + 8 + 4095 < 2 ^ 64" and sat: "can_satisfy (PAGE_ALIGN_UP (len + header_size)) (mem_virt m)"
    and free: "4 * 4096 * heap_pages len \<le> card (free_set (mem_phys m))"
  shows "\<exists>p m' L'. allocateMemory len m = Inr (p, m') \<and> p \<noteq> nullptr \<and> in_heap p (heap_pages len) \<and> live_heap m' L' \<and>
           set (pages p (heap_pages len)) \<subseteq> dom (frame_of L') \<and> set (pages p (heap_pages len)) \<inter> dom L = {} \<and> L \<subseteq>\<^sub>m L' \<and>
           span p (PAGE_ALIGN_UP (len + header_size)) \<subseteq> free_set (mem_virt m) \<and>
           free_set (mem_virt m') = free_set (mem_virt m) - span p (PAGE_ALIGN_UP (len + header_size)) \<and> mem_word m' = mem_word m \<and>
           card (free_set (mem_phys m)) \<le> card (free_set (mem_phys m')) + 4 * 4096 * heap_pages len \<and>
           on_virt (allocate (PAGE_ALIGN_UP (len + header_size))) m = Inr (p, m\<lparr>mem_virt := mem_virt m'\<rparr>)"
proof -
  let ?n = "heap_pages len" let ?len = "PAGE_ALIGN_UP (len + header_size)"
  note eq = allocated_pages_eq [OF len]
  have h: "heap_ok m" "backed m L" using l by (simp_all add: live_heap_def)
  have "0 < ?n" by (simp add: heap_pages_def)
  from take_range [OF h(1) sat eq(2) this] obtain p bm where
    r: "on_virt (allocate ?len) m = Inr (p, m\<lparr>mem_virt := bm\<rparr>)" "heap_ok (m\<lparr>mem_virt := bm\<rparr>)" "in_heap p ?n" "p \<noteq> nullptr"
      "span p ?len \<subseteq> free_set (mem_virt m)" "free_set bm = free_set (mem_virt m) - span p ?len" by blast
  let ?m1 = "m\<lparr>mem_virt := bm\<rparr>"
  have b1: "backed ?m1 L" using h(2) by (simp add: backed_def owned_def mapped_def is_table_def)
  note fresh = fresh_pages [OF l r(3,5) eq(2)]
  note pd = pages_distinct [OF r(3)]
  have ln: "length (pages p ?n) = ?n" by (simp add: pages_def)
  have "\<forall>va \<in> set (pages p ?n). va_index 39 va \<noteq> 511 \<and> va_path va \<notin> va_path ` dom L" using pd(2) fresh by blast
  from backed_mapFrames [OF b1 pd(1) this, unfolded ln] free obtain m' g where
    m': "mapFrames (pages p ?n) ?m1 = Inr m'" "backed m' (\<lambda>va. if va \<in> set (pages p ?n) then Some (g va * PAGE_SIZE, True, True) else L va)"
      "pt_frame ?m1 m'" "card (free_set (mem_phys m)) \<le> card (free_set (mem_phys m')) + 4 * 4096 * ?n" by auto
  let ?L = "\<lambda>va. if va \<in> set (pages p ?n) then Some (g va * PAGE_SIZE, True, True) else L va"
  have dom: "dom ?L = dom L \<union> set (pages p ?n)" by (auto split: if_splits)
  have "live_heap m' ?L" by (rule live_heapI [OF l r(2,3) eq(2) r(6) m'(2,3) dom])
  moreover have disj: "set (pages p ?n) \<inter> dom L = {}" using fresh by blast
  moreover have "set (pages p ?n) \<subseteq> dom (frame_of ?L)" by (auto simp: frame_of_def)
  moreover have "L \<subseteq>\<^sub>m ?L" using disj by (auto simp: map_le_def)
  moreover have "allocateMemory len m = Inr (p, m')" using r(1,4) m'(1) by (simp add: allocateMemory_def Let_def eq(1))
  moreover have "mem_virt m' = bm" "mem_word m' = mem_word m" using m'(3) by (simp_all add: pt_frame_def)
  ultimately show ?thesis using r m'(4) by (intro exI conjI) (assumption | simp)+
qed

lemma shootdown_mem: "mc_mem (shootdown vas s) = mc_mem s"
proof -
  have "mc_mem (fold (\<lambda>i s. if i \<noteq> mc_cpu s then invalidatePages i vs s else s) is t) = mc_mem t" for vs "is" t
    by (induction "is" arbitrary: t) (simp_all add: invalidatePages_tlb)
  then show ?thesis by (simp add: shootdown_def)
qed

text \<open>The bytes of a range are the bytes of its pages, and a page outside the range has none of them.\<close>

lemma range_pages: "in_heap p n \<Longrightarrow> {unat p..<unat p + n * 4096} = (\<Union>va \<in> set (pages p n). page_span va)"
proof (intro equalityI subsetI)
  fix a
  assume p: "in_heap p n" and a: "a \<in> {unat p..<unat p + n * 4096}"
  let ?k = "(a - unat p) div 4096"
  have k: "?k < n" using a by (auto simp: div_less_iff_less_mult)
  then have "p + of_nat ?k * PAGE_SIZE \<in> set (pages p n)" by (auto simp: pages_def)
  moreover have "unat p + ?k * 4096 \<le> a" "a < unat p + ?k * 4096 + 4096"
    using a div_mult_mod_eq [of "a - unat p" 4096] mod_less_divisor [of 4096 "a - unat p"] by auto
  then have "a \<in> page_span (p + of_nat ?k * PAGE_SIZE)" by (simp add: page_span_def unat_page(1) [OF p k])
  ultimately show "a \<in> (\<Union>va \<in> set (pages p n). page_span va)" by blast
next
  fix a
  assume p: "in_heap p n" and "a \<in> (\<Union>va \<in> set (pages p n). page_span va)"
  then obtain k where k: "k < n" "a \<in> page_span (p + of_nat k * PAGE_SIZE)" by (auto simp: pages_def)
  have "k * 4096 + 4096 \<le> n * 4096" using k(1) by simp
  then show "a \<in> {unat p..<unat p + n * 4096}" using k by (simp add: page_span_def unat_page(1) [OF p])
qed

lemma aligned_pages_apart:
  assumes "unat va mod 4096 = 0" and "unat va' mod 4096 = 0" and "va \<noteq> va'"
  shows "page_span va \<inter> page_span va' = {}"
proof -
  obtain x y where x: "unat va = 4096 * x" "unat va' = 4096 * y" using assms(1,2) by (auto elim!: dvdE)
  have "x \<noteq> y" using assms(3) x by (auto simp: word_unat_eq_iff)
  then have "x < y \<or> y < x" by linarith
  then show ?thesis unfolding page_span_def x by auto
qed

lemma unmapMemory_live:
  assumes l: "live_heap (mc_mem s) L" and p: "in_heap p n" "p \<noteq> nullptr" and n: "n = (unat len + 4095) div 4096" and d: "set (pages p n) \<subseteq> dom L"
  shows "\<exists>s'. unmapMemory p len s = Inr s' \<and> live_heap (mc_mem s') (L |` (- set (pages p n))) \<and>
           mem_word (mc_mem s') = mem_word (mc_mem s) \<and> free_set (mem_phys (mc_mem s)) \<subseteq> free_set (mem_phys (mc_mem s')) \<and>
           free_set (mem_virt (mc_mem s')) = (if has_room (mem_virt (mc_mem s))
              then free_set (mem_virt (mc_mem s)) \<union> {unat p..<unat p + n * 4096} else free_set (mem_virt (mc_mem s))) \<and>
           (has_room (mem_virt (mc_mem s)) \<longrightarrow> 0 < n \<longrightarrow> can_satisfy (of_nat (n * 4096)) (mem_virt (mc_mem s'))) \<and>
           (\<forall>k > 0. can_satisfy k (mem_virt (mc_mem s)) \<longrightarrow> can_satisfy k (mem_virt (mc_mem s')))"
proof -
  let ?m = "mc_mem s" let ?e = "PAGE_ALIGN_UP (p + len)"
  have h: "heap_ok ?m" "backed ?m L" using l by (simp_all add: live_heap_def)
  have le: "unat len \<le> n * 4096" using n div_mult_mod_eq [of "unat len + 4095" 4096] mod_less_divisor [of 4096 "unat len + 4095"] by linarith
  have hi: "unat p + n * 4096 \<le> 0xFFFFFF8000000000" using p(1) by (simp add: in_heap_def)
  then have hi': "n * 4096 < 2 ^ 64" by simp
  from hi have b: "unat p + unat len + 4095 < 2 ^ 64" using le by simp
  have vas: "unmapped_pages p len = pages p n" using unmapped_pages_eq [OF p(1) b] by (simp add: n)
  obtain x where x: "unat p = 4096 * x" using p(1) by (auto simp: in_heap_def elim!: dvdE)
  have down: "PAGE_ALIGN_DOWN p = p" by (simp add: word_unat_eq_iff unat_PAGE_ALIGN_DOWN x)
  have u: "unat (p + len) = unat p + unat len" by (rule unat_add_u64) (use b in simp)
  have up: "unat ?e = unat p + n * 4096" using unat_PAGE_ALIGN_UP [of "p + len"] b unfolding u x n by (simp add: add.assoc)
  have "distinct (pages p n)" using pages_distinct(1) [OF p(1)] by (simp add: distinct_map)
  from backed_unmapPages [OF h(2) this d] obtain s1 where
    s1: "unmapPages (pages p n) s = Inr s1" "backed (mc_mem s1) (L |` (- set (pages p n)))" "pt_frame ?m (mc_mem s1)"
      "free_set (mem_phys ?m) \<subseteq> free_set (mem_phys (mc_mem s1))" by blast
  let ?s2 = "shootdown (pages p n) s1" let ?b = "Block p ?e"
  have s2: "mc_mem ?s2 = mc_mem s1" by (rule shootdown_mem)
  have v: "mem_virt (mc_mem s1) = mem_virt ?m" "mem_word (mc_mem s1) = mem_word ?m" "mem_irq (mc_mem s1) = mem_irq ?m" using s1(3) by (simp_all add: pt_frame_def)
  have bb: "wf_block ?b" "bytes ?b = {unat p..<unat p + n * 4096}" "aligned_block ?b" "p + (?e - p) = ?e"
    by (simp_all add: word_le_nat_alt up bytes_def wf_block_def aligned_block_def Block_def x)
  have "bytes ?b \<inter> free_set (mem_virt ?m) = {}"
    using l d unfolding bb(2) range_pages [OF p(1)] live_heap_def by blast
  from addBlock_ok [OF _ bb(1) this, of "mem_irq ?m"] h(1) obtain bm where
    r: "addBlock ?b (mem_irq ?m, mem_virt ?m) = Inr ((), mem_irq ?m, bm)" "bm_inv bm"
      "free_set bm = (if has_room (mem_virt ?m) then free_set (mem_virt ?m) \<union> bytes ?b else free_set (mem_virt ?m))" by (auto simp: heap_ok_def)
  have al: "bm_aligned bm" using addBlock_aligned [OF _ _ bb(1,3) r(1)] h(1) by (simp add: heap_ok_def)
  have u2: "unat (of_nat (n * 4096) :: u64) = n * 4096" by (rule unat_of_nat_small) (use hi' in simp)
  then have "capacity ?b = of_nat (n * 4096)" by (simp add: capacity_def Block_def word_unat_eq_iff unat_sub word_le_nat_alt up del: of_nat_mult)
  with addBlock_live [OF _ _ bb(1) _ r(1)] h(1) u2 have sat: "has_room (mem_virt ?m) \<longrightarrow> 0 < n \<longrightarrow> can_satisfy (of_nat (n * 4096)) bm"
    by (auto simp: can_satisfy_def heap_ok_def word_less_nat_alt simp del: of_nat_mult intro!: bexI [of _ ?b])
  have keep: "can_satisfy k bm" if "0 < k" "can_satisfy k (mem_virt ?m)" for k
    using addBlock_satisfies [OF _ that(2,1) bb(1) r(1)] h(1) by (simp add: heap_ok_def)
  let ?s' = "?s2\<lparr>mc_mem := (mc_mem s1)\<lparr>mem_virt := bm\<rparr>\<rparr>" let ?L = "L |` (- set (pages p n))"
  have "unmapMemory p len s = Inr ?s'"
    using p(2) s1(1) r(1) by (simp add: unmapMemory_def Let_def vas down s2 on_virt_def returnMemory_def bb(4) v)
  moreover have "live_heap (mc_mem ?s') ?L"
  proof -
    have "bytes ?b \<subseteq> heap_range" using p(1) unfolding bb(2) by (auto simp: in_heap_def heap_range_def)
    then have "heap_ok (mc_mem ?s')" using backedD(1) [OF s1(2)] r(2,3) al h(1) by (auto simp: heap_ok_def)
    moreover have "backed (mc_mem ?s') ?L" using s1(2) by (simp add: backed_def owned_def mapped_def is_table_def)
    moreover have "unat va mod 4096 = 0 \<and> unat va \<in> heap_range \<and> page_span va \<inter> free_set bm = {}" if "va \<in> dom ?L" for va
    proof -
      have va: "va \<in> dom L" "va \<notin> set (pages p n)" using that by (auto simp: restrict_map_def split: if_splits)
      then have a: "unat va mod 4096 = 0" "unat va \<in> heap_range" "page_span va \<inter> free_set (mem_virt ?m) = {}" using l unfolding live_heap_def by blast+
      have "page_span va \<inter> page_span va' = {}" if "va' \<in> set (pages p n)" for va'
        by (rule aligned_pages_apart [OF a(1) in_pages(1) [OF p(1) that]]) (use va(2) that in blast)
      with a r(3) show ?thesis unfolding bb(2) range_pages [OF p(1)] by auto
    qed
    ultimately show ?thesis by (simp add: live_heap_def)
  qed
  ultimately show ?thesis using v(2) s1(4) r(3) sat keep unfolding bb(2) by (intro exI [of _ ?s']) simp
qed

text \<open>Mapping given physical addresses, page aligned, and unmapping them again.\<close>

lemma mapAddress_live:
  assumes l: "live_heap m L" and b: "unat pa + unat len + 4095 < 2 ^ 52" and "0 < len"
    and sat: "can_satisfy (PAGE_ALIGN_UP (pa + len) - PAGE_ALIGN_DOWN pa) (mem_virt m)"
    and free: "3 * ((mapped_pages pa len + 1022) div 512) * 4096 \<le> card (free_set (mem_phys m))"
  shows "\<exists>p m' L'. mapAddress pa len ca m = Inr (p + pa mod PAGE_SIZE, m') \<and> p \<noteq> nullptr \<and> in_heap p (mapped_pages pa len) \<and> live_heap m' L' \<and>
           dom L' = dom L \<union> set (pages p (mapped_pages pa len)) \<and> L' |` (- set (pages p (mapped_pages pa len))) = L \<and>
           {unat p..<unat p + mapped_pages pa len * 4096} \<subseteq> free_set (mem_virt m) \<and>
           free_set (mem_virt m') = free_set (mem_virt m) - {unat p..<unat p + mapped_pages pa len * 4096} \<and> mem_word m' = mem_word m \<and>
           card (free_set (mem_phys m)) \<le> card (free_set (mem_phys m')) + 3 * ((mapped_pages pa len + 1022) div 512) * 4096"
proof -
  let ?n = "mapped_pages pa len" let ?d = "PAGE_ALIGN_DOWN pa" let ?len = "PAGE_ALIGN_UP (pa + len) - ?d"
  note sz = mapAddress_size [OF b, folded mapped_pages_def]
  have h: "heap_ok m" "backed m L" using l by (simp_all add: live_heap_def)
  have "0 < unat len" using assms(3) by (simp add: word_less_nat_alt)
  then have "0 < ?n" using sz(2) by (cases ?n) auto
  from take_range [OF h(1) sat sz(1) this] obtain p bm where
    r: "on_virt (allocate ?len) m = Inr (p, m\<lparr>mem_virt := bm\<rparr>)" "heap_ok (m\<lparr>mem_virt := bm\<rparr>)" "in_heap p ?n" "p \<noteq> nullptr"
      "span p ?len \<subseteq> free_set (mem_virt m)" "free_set bm = free_set (mem_virt m) - span p ?len" by blast
  let ?m1 = "m\<lparr>mem_virt := bm\<rparr>"
  let ?ps = "map (\<lambda>k. (p + of_nat k * PAGE_SIZE, ?d + of_nat k * PAGE_SIZE)) [0..<?n]"
  have fst: "map fst ?ps = pages p ?n" by (simp add: pages_def comp_def)
  have path: "map (va_path \<circ> fst) ?ps = map va_path (pages p ?n)" by (simp add: pages_def comp_def)
  have set: "fst ` set ?ps = set (pages p ?n)" using arg_cong [OF fst, of set] by (simp only: set_map)
  have b1: "backed ?m1 L" using h(2) by (simp add: backed_def owned_def mapped_def is_table_def)
  note fresh = fresh_pages [OF l r(3,5) sz(1)]
  have ok: "\<forall>(va, pa) \<in> set ?ps. va_index 39 va \<noteq> 511 \<and> unat pa < 2 ^ 52 \<and> va_path va \<notin> va_path ` dom L"
  proof (clarsimp, intro conjI)
    fix k
    assume k: "k < ?n"
    then have "p + of_nat k * PAGE_SIZE \<in> set (pages p ?n)" by (auto simp: pages_def)
    with pages_distinct(2) [OF r(3)] mapAddress_phys(1) [OF b k] fresh
    show "va_index 39 (p + of_nat k * PAGE_SIZE) \<noteq> 511" "unat (?d + of_nat k * PAGE_SIZE) < 4503599627370496"
      "va_path (p + of_nat k * PAGE_SIZE) \<notin> va_path ` dom L" by (blast, simp, blast)
  qed
  have cost: "3 * card (new_tables ?m1 (pages p ?n)) * 4096 \<le> 3 * ((?n + 1022) div 512) * 4096"
    using new_tables_pages [OF r(3), of ?m1] by simp
  with free have "3 * card (new_tables ?m1 (pages p ?n)) * 4096 \<le> card (free_set (mem_phys ?m1))" by simp
  from backed_mapRange [OF b1 _ ok, unfolded path fst, OF pages_distinct(1) [OF r(3)] this, of ca] obtain m' L' where
    m': "mapRange ?ps ca ?m1 = Inr m'" "backed m' L'" "dom L' = dom L \<union> set (pages p ?n)" "\<forall>va. va \<notin> set (pages p ?n) \<longrightarrow> L' va = L va"
      "pt_frame ?m1 m'" "card (free_set (mem_phys m)) \<le> card (free_set (mem_phys m')) + 3 * card (new_tables ?m1 (pages p ?n)) * 4096"
    unfolding set by auto
  have "live_heap m' L'" by (rule live_heapI [OF l r(2,3) sz(1) r(6) m'(2,5,3)])
  moreover have "L' |` (- set (pages p ?n)) = L" 
  proof
    fix va
    have "va \<in> set (pages p ?n) \<Longrightarrow> va \<notin> dom L" using fresh by blast
    then show "(L' |` (- set (pages p ?n))) va = L va" using m'(4) by (cases "L va") (auto simp: restrict_map_def)
  qed
  moreover have "mapAddress pa len ca m = Inr (p + pa mod PAGE_SIZE, m')"
    using r(1,4) m'(1) by (simp add: mapAddress_def Let_def mapAddress_phys(2) [OF b])
  moreover have "mem_virt m' = bm" "mem_word m' = mem_word m" using m'(5) by (simp_all add: pt_frame_def)
  moreover have "span p ?len = {unat p..<unat p + ?n * 4096}" by (simp add: span_def sz(1))
  ultimately show ?thesis using r m'(3,6) cost by (intro exI [of _ p] exI [of _ m'] exI [of _ L']) auto
qed

lemma map_unmap_live:
  assumes l: "live_heap (mc_mem s) L" and b: "unat pa + unat len + 4095 < 2 ^ 52" and len: "0 < len" and al: "unat pa mod 4096 = 0"
    and sat: "can_satisfy (PAGE_ALIGN_UP (pa + len) - PAGE_ALIGN_DOWN pa) (mem_virt (mc_mem s))"
    and free: "3 * ((mapped_pages pa len + 1022) div 512) * 4096 \<le> card (free_set (mem_phys (mc_mem s)))"
    and room: "card (pieces (free_set (mem_virt (mc_mem s)))) + 1 < BLOCKMAP_SIZE"
  shows "\<exists>p m s'. mapAddress pa len ca (mc_mem s) = Inr (p, m) \<and> p \<noteq> nullptr \<and> unmapMemory p len (s\<lparr>mc_mem := m\<rparr>) = Inr s' \<and>
           live_heap (mc_mem s') L \<and> free_set (mem_virt (mc_mem s')) = free_set (mem_virt (mc_mem s)) \<and>
           can_satisfy (PAGE_ALIGN_UP (pa + len) - PAGE_ALIGN_DOWN pa) (mem_virt (mc_mem s')) \<and> mem_word (mc_mem s') = mem_word (mc_mem s) \<and>
           card (free_set (mem_phys (mc_mem s))) \<le> card (free_set (mem_phys (mc_mem s'))) + 3 * ((mapped_pages pa len + 1022) div 512) * 4096"
proof -
  let ?n = "mapped_pages pa len" let ?F = "free_set (mem_virt (mc_mem s))" let ?len = "PAGE_ALIGN_UP (pa + len) - PAGE_ALIGN_DOWN pa"
  from mapAddress_live [OF l b len sat free, of ca] obtain p m L' where
    r: "mapAddress pa len ca (mc_mem s) = Inr (p + pa mod PAGE_SIZE, m)" "p \<noteq> nullptr" "in_heap p ?n" "live_heap m L'"
      "dom L' = dom L \<union> set (pages p ?n)" "L' |` (- set (pages p ?n)) = L" "{unat p..<unat p + ?n * 4096} \<subseteq> ?F"
      "free_set (mem_virt m) = ?F - {unat p..<unat p + ?n * 4096}" "mem_word m = mem_word (mc_mem s)"
      "card (free_set (mem_phys (mc_mem s))) \<le> card (free_set (mem_phys m)) + 3 * ((?n + 1022) div 512) * 4096" by blast
  have z: "pa mod PAGE_SIZE = 0" using al by (simp add: word_unat_eq_iff unat_mod)
  note sz = mapAddress_size [OF b, folded mapped_pages_def]
  have n: "?n = (unat len + 4095) div 4096" using al by (auto simp: mapped_pages_def add.assoc elim!: dvdE)
  have "0 < unat len" using len by (simp add: word_less_nat_alt)
  then have "0 < ?n" using sz(2) by (cases ?n) auto
  have len': "?len = of_nat (?n * 4096)" unfolding sz(1) [symmetric] by simp
  have "card (pieces (free_set (mem_virt m))) \<le> card (pieces ?F) + 1"
    using pieces_span [of "mem_virt (mc_mem s)" p ?len] unfolding r(8) by (simp add: span_def sz(1))
  then have room: "has_room (mem_virt m)" using has_room_pieces [of "mem_virt m"] room r(4) by (simp add: live_heap_def heap_ok_def)
  have d: "set (pages p ?n) \<subseteq> dom L'" using r(5) by blast
  have l': "live_heap (mc_mem (s\<lparr>mc_mem := m\<rparr>)) L'" using r(4) by simp
  from unmapMemory_live [OF l' r(3,2) n d] room obtain s' where
    s': "unmapMemory p len (s\<lparr>mc_mem := m\<rparr>) = Inr s'" "live_heap (mc_mem s') L" "mem_word (mc_mem s') = mem_word m"
      "free_set (mem_phys m) \<subseteq> free_set (mem_phys (mc_mem s'))" "free_set (mem_virt (mc_mem s')) = free_set (mem_virt m) \<union> {unat p..<unat p + ?n * 4096}"
      "can_satisfy (of_nat (?n * 4096)) (mem_virt (mc_mem s'))" using \<open>0 < ?n\<close> by (auto simp: r(6) simp del: of_nat_mult)
  have "card (free_set (mem_phys m)) \<le> card (free_set (mem_phys (mc_mem s')))"
    by (rule card_mono [OF finite_free_set s'(4)])
  moreover have "free_set (mem_virt (mc_mem s')) = ?F" using s'(5) r(7,8) by blast
  ultimately show ?thesis using r(1,2,9,10) s'(1-3,6) unfolding z len' by (intro exI [of _ p] exI [of _ m] exI [of _ s']) auto
qed

section \<open>Blocks\<close>

text \<open>
  The heap as its users see it: the blocks in use, each with the address of its header and the size that was asked for. Every page of a
  block has a frame of its own, the header holds the size, and no page belongs to two blocks.
\<close>

definition block_pages :: "u64 \<times> u64 \<Rightarrow> u64 list" where
  "block_pages b = pages (fst b) (heap_pages (snd b))"

definition block_ok :: "memory \<Rightarrow> page_ledger \<Rightarrow> u64 \<times> u64 \<Rightarrow> bool" where
  "block_ok m L b \<longleftrightarrow> in_heap (fst b) (heap_pages (snd b)) \<and> mem_word m (fst b) = snd b \<and> set (block_pages b) \<subseteq> dom (frame_of L)"

definition heap_blocks :: "memory \<Rightarrow> (u64 \<times> u64) list \<Rightarrow> bool" where
  "heap_blocks m B \<longleftrightarrow> distinct (concat (map block_pages B)) \<and>
     (\<exists>L. live_heap m L \<and> (\<forall>b \<in> set B. block_ok m L b))"

lemma first_page: "p \<in> set (block_pages (p, len))"
  by (auto simp: block_pages_def pages_def heap_pages_def image_iff intro!: bexI [of _ 0])

lemma frame_of_mono: "L \<subseteq>\<^sub>m L' \<Longrightarrow> dom (frame_of L) \<subseteq> dom (frame_of L')"
proof
  fix va
  assume le: "L \<subseteq>\<^sub>m L'" and "va \<in> dom (frame_of L)"
  then have "L va \<noteq> None" "frame_of L va \<noteq> None" by (auto simp: frame_of_def split: option.splits)
  moreover from this(1) le have "L' va = L va" by (metis domIff map_le_def)
  ultimately show "va \<in> dom (frame_of L')" by (auto simp: frame_of_def)
qed

lemma frame_of_dom: "dom (frame_of L) \<subseteq> dom L"
  by (auto simp: frame_of_def split: option.splits)

lemma kmalloc_blocks:
  assumes b: "heap_blocks m B" and len: "unat len + 8 + 4095 < 2 ^ 64" and sat: "can_satisfy (PAGE_ALIGN_UP (len + header_size)) (mem_virt m)"
    and free: "4 * 4096 * heap_pages len \<le> card (free_set (mem_phys m))"
  shows "\<exists>p m'. kmalloc len m = Inr (p + header_size, m') \<and> heap_blocks m' ((p, len) # B) \<and>
           span p (PAGE_ALIGN_UP (len + header_size)) \<subseteq> free_set (mem_virt m) \<and>
           free_set (mem_virt m') = free_set (mem_virt m) - span p (PAGE_ALIGN_UP (len + header_size)) \<and>
           card (free_set (mem_phys m)) \<le> card (free_set (mem_phys m')) + 4 * 4096 * heap_pages len \<and>
           on_virt (allocate (PAGE_ALIGN_UP (len + header_size))) m = Inr (p, m\<lparr>mem_virt := mem_virt m'\<rparr>)"
proof -
  from b obtain L where L: "distinct (concat (map block_pages B))" "live_heap m L"
    "\<forall>b \<in> set B. block_ok m L b" by (auto simp: heap_blocks_def)
  from allocateMemory_live [OF L(2) len sat free] obtain p m1 L' where
    r: "allocateMemory len m = Inr (p, m1)" "p \<noteq> nullptr" "in_heap p (heap_pages len)" "live_heap m1 L'"
      "set (pages p (heap_pages len)) \<subseteq> dom (frame_of L')" "set (pages p (heap_pages len)) \<inter> dom L = {}" "L \<subseteq>\<^sub>m L'"
      "span p (PAGE_ALIGN_UP (len + header_size)) \<subseteq> free_set (mem_virt m)"
      "free_set (mem_virt m1) = free_set (mem_virt m) - span p (PAGE_ALIGN_UP (len + header_size))" "mem_word m1 = mem_word m"
      "card (free_set (mem_phys m)) \<le> card (free_set (mem_phys m1)) + 4 * 4096 * heap_pages len"
      "on_virt (allocate (PAGE_ALIGN_UP (len + header_size))) m = Inr (p, m\<lparr>mem_virt := mem_virt m1\<rparr>)" by blast
  let ?m = "m1\<lparr>mem_word := (mem_word m1)(p := len)\<rparr>"
  have old: "set (block_pages x) \<subseteq> dom L" if "x \<in> set B" for x using L(3) that frame_of_dom [of L] unfolding block_ok_def by blast
  have "p \<noteq> fst x" if "x \<in> set B" for x
    using old [OF that] first_page [of "fst x" "snd x"] first_page [of p len] r(6) by (auto simp: block_pages_def)
  then have "block_ok ?m L' x" if "x \<in> set B" for x
    using L(3) that frame_of_mono [OF r(7)] r(10) by (fastforce simp: block_ok_def)
  then have "\<forall>b \<in> set ((p, len) # B). block_ok ?m L' b" using r(3,5) by (simp add: block_ok_def block_pages_def)
  moreover have "live_heap ?m L'"
    using r(4) by (simp add: live_heap_def heap_ok_def backed_def pt_ok_def self_mapped_def owned_def mapped_def is_table_def)
  moreover have "distinct (concat (map block_pages ((p, len) # B)))"
  proof -
    have "distinct (pages p (heap_pages len))" using pages_distinct(1) [OF r(3)] by (simp add: distinct_map)
    moreover have "set (pages p (heap_pages len)) \<inter> set (concat (map block_pages B)) = {}" using old r(6) by auto blast
    ultimately show ?thesis using L(1) by (simp add: block_pages_def)
  qed
  ultimately have "heap_blocks ?m ((p, len) # B)" unfolding heap_blocks_def by blast
  moreover have "kmalloc len m = Inr (p + header_size, ?m)" using r(1,2) by (simp add: kmalloc_def)
  ultimately show ?thesis using r(8,9,11,12) by (intro exI [of _ p] exI [of _ ?m]) simp
qed

lemma kfree_blocks:
  assumes b: "heap_blocks (mc_mem s) B" and x: "(p, len) \<in> set B"
  shows "\<exists>s'. kfree (p + header_size) s = Inr s' \<and> heap_blocks (mc_mem s') (remove1 (p, len) B) \<and>
           free_set (mem_virt (mc_mem s)) \<subseteq> free_set (mem_virt (mc_mem s')) \<and> free_set (mem_phys (mc_mem s)) \<subseteq> free_set (mem_phys (mc_mem s')) \<and>
           (has_room (mem_virt (mc_mem s)) \<longrightarrow>
              free_set (mem_virt (mc_mem s')) = free_set (mem_virt (mc_mem s)) \<union> {unat p..<unat p + (unat len + 4095) div 4096 * 4096}) \<and>
           (\<forall>k > 0. can_satisfy k (mem_virt (mc_mem s)) \<longrightarrow> can_satisfy k (mem_virt (mc_mem s')))"
proof -
  let ?n = "(unat len + 4095) div 4096"
  from b obtain L where L: "distinct (concat (map block_pages B))" "live_heap (mc_mem s) L"
    "\<forall>b \<in> set B. block_ok (mc_mem s) L b" by (auto simp: heap_blocks_def)
  have p: "in_heap p (heap_pages len)" "mem_word (mc_mem s) p = len" "set (block_pages (p, len)) \<subseteq> dom (frame_of L)" using L(3) x by (auto simp: block_ok_def)
  have n: "?n \<le> heap_pages len" by (simp add: heap_pages_def div_le_mono)
  have ip: "in_heap p ?n" using p(1) n mult_le_mono1 [OF n, of 4096] by (simp add: in_heap_def)
  have sub: "set (pages p ?n) \<subseteq> set (block_pages (p, len))" using pages_take [OF n, of p] set_take_subset by (simp add: block_pages_def)
  have nn: "p \<noteq> nullptr" "p + header_size \<noteq> nullptr"
  proof -
    have "unat (p + 8) = unat p + 8" using unat_add_u64 [of p 8] p(1) by (simp add: in_heap_def)
    then show "p \<noteq> nullptr" "p + header_size \<noteq> nullptr" using p(1) by (auto simp: in_heap_def header_size_def)
  qed
  have "set (pages p ?n) \<subseteq> dom L" using sub p(3) frame_of_dom [of L] by blast
  from unmapMemory_live [OF L(2) ip nn(1) refl this] obtain s' where
    s': "unmapMemory p len s = Inr s'" "live_heap (mc_mem s') (L |` (- set (pages p ?n)))" "mem_word (mc_mem s') = mem_word (mc_mem s)"
      "free_set (mem_phys (mc_mem s)) \<subseteq> free_set (mem_phys (mc_mem s'))"
      "free_set (mem_virt (mc_mem s')) = (if has_room (mem_virt (mc_mem s))
         then free_set (mem_virt (mc_mem s)) \<union> {unat p..<unat p + ?n * 4096} else free_set (mem_virt (mc_mem s)))"
      "\<forall>k > 0. can_satisfy k (mem_virt (mc_mem s)) \<longrightarrow> can_satisfy k (mem_virt (mc_mem s'))" by blast
  obtain B1 B2 where B: "B = B1 @ (p, len) # B2" "remove1 (p, len) B = B1 @ B2"
    using split_list_first [OF x] by (auto simp: remove1_append)
  have dis: "distinct (concat (map block_pages (remove1 (p, len) B)))" using L(1) unfolding B(2) by (auto simp: B(1))
  have "block_ok (mc_mem s') (L |` (- set (pages p ?n))) y" if y: "y \<in> set (remove1 (p, len) B)" for y
  proof -
    have "set (block_pages y) \<inter> set (block_pages (p, len)) = {}" using L(1) y unfolding B(2) by (auto simp: B(1))
    then have "set (block_pages y) \<inter> set (pages p ?n) = {}" using sub by blast
    moreover have "block_ok (mc_mem s) L y" using L(3) set_mp [OF set_remove1_subset y] by blast
    ultimately show ?thesis using s'(3) by (fastforce simp: block_ok_def frame_of_def restrict_map_def)
  qed
  then have "heap_blocks (mc_mem s') (remove1 (p, len) B)" using dis s'(2) unfolding heap_blocks_def by blast
  moreover have "kfree (p + header_size) s = Inr s'" using s'(1) nn p(2) by (simp add: kfree_def)
  ultimately show ?thesis using s'(4-6) by (intro exI [of _ s']) auto
qed

lemma block_byte:
  assumes "live_heap m L" and "block_ok m L (p, len)" and "i < unat len + 8"
  shows "\<exists>va f. va \<in> set (block_pages (p, len)) \<and> frame_of L va = Some f \<and> page_of m (p + of_nat i) = Some f"
proof -
  have ip: "in_heap p (heap_pages len)" and sub: "set (block_pages (p, len)) \<subseteq> dom (frame_of L)" using assms(2) by (simp_all add: block_ok_def)
  have "unat len + 8 \<le> heap_pages len * 4096"
    unfolding heap_pages_def using div_mult_mod_eq [of "unat len + 8 + 4095" 4096] mod_less_divisor [of 4096 "unat len + 8 + 4095"] by linarith
  then have "i < heap_pages len * 4096" using assms(3) by simp
  note b = in_heap_byte [OF ip this]
  let ?va = "p + of_nat (i div 4096) * PAGE_SIZE"
  have va: "?va \<in> set (block_pages (p, len))" using b(3) by (auto simp: block_pages_def pages_def)
  with sub obtain pa ca where l: "L ?va = Some (pa, True, ca)" "frame_of L ?va = Some (drop_bit 12 pa)"
    by (fastforce simp: frame_of_def split: option.splits bool.splits prod.splits)
  from assms(1) have bk: "backed m L" by (simp add: live_heap_def)
  from backedD(3) [OF bk l(1)] have "page_of m ?va = Some (drop_bit 12 pa)" using mapped_page_of [OF backedD(1) [OF bk]] by blast
  with page_of_page [OF b(2), of m] va l(2) show ?thesis by auto
qed

section \<open>Properties\<close>

text \<open>
  (C15) The heap stays well formed whatever is allocated and freed in whatever order: with blocks \<open>B\<close> in use, \<^verbatim>\<open>kmalloc\<close> adds a block of free
  addresses, and \<^verbatim>\<open>kfree\<close> of any block in use returns, without a panic and without touching the others, and takes exactly that block out; no
  address and no frame that was free is lost, and the pages of the block become free when the map of addresses has room.
\<close>

theorem heap_stays_well_formed:
  assumes "heap_blocks (mc_mem s) B"
  shows "(unat len + 8 + 4095 < 2 ^ 64 \<and> can_satisfy (PAGE_ALIGN_UP (len + header_size)) (mem_virt (mc_mem s)) \<and>
            4 * 4096 * heap_pages len \<le> card (free_set (mem_phys (mc_mem s))) \<longrightarrow>
          (\<exists>p m'. kmalloc len (mc_mem s) = Inr (p + header_size, m') \<and> heap_blocks m' ((p, len) # B) \<and>
             span p (PAGE_ALIGN_UP (len + header_size)) \<subseteq> free_set (mem_virt (mc_mem s)))) \<and>
         (\<forall>(p, k) \<in> set B. \<exists>s'. kfree (p + header_size) s = Inr s' \<and> heap_blocks (mc_mem s') (remove1 (p, k) B) \<and>
             free_set (mem_virt (mc_mem s)) \<subseteq> free_set (mem_virt (mc_mem s')) \<and> free_set (mem_phys (mc_mem s)) \<subseteq> free_set (mem_phys (mc_mem s')) \<and>
             (has_room (mem_virt (mc_mem s)) \<longrightarrow>
                free_set (mem_virt (mc_mem s')) = free_set (mem_virt (mc_mem s)) \<union> {unat p..<unat p + (unat k + 4095) div 4096 * 4096}))"
  using kmalloc_blocks [OF assms, of len] kfree_blocks [OF assms] by blast

lemma example_heap_blocks: "heap_blocks example_heap []"
proof -
  have "backed example_heap (\<lambda>_. None)" using example_heap_ok(1) by (simp add: backed_def heap_ok_def frame_of_def)
  then show ?thesis using example_heap_ok(1) by (auto simp: heap_blocks_def live_heap_def intro!: exI [of _ "\<lambda>_. None"])
qed

lemma example_kmalloc:
  "\<exists>p m. kmalloc 100 example_heap = Inr (p + header_size, m) \<and> heap_blocks m [(p, 100)] \<and>
     free_set (mem_virt m) = {0xFFFF800000000000..<0xFFFF800010000000} - span p 4096 \<and> 0xE0000 \<le> card (free_set (mem_phys m))"
proof -
  have n: "heap_pages 100 = 1" "PAGE_ALIGN_UP (100 + header_size) = 4096" by (simp_all add: heap_pages_def PAGE_ALIGN_UP_def header_size_def)
  have v: "free_set example_virt = {0xFFFF800000000000..<0xFFFF800010000000}" by (simp add: free_set_alt example_virt_live)
  have "can_satisfy 4096 example_virt" by (rule example_satisfies) simp
  with kmalloc_blocks [OF example_heap_blocks, of 100] obtain p m where
    "kmalloc 100 example_heap = Inr (p + header_size, m)" "heap_blocks m [(p, 100)]" "free_set (mem_virt m) = free_set example_virt - span p 4096"
    "0xF0000 \<le> card (free_set (mem_phys m)) + 16384" by (auto simp: n example_heap_ok example_phys_ok)
  then show ?thesis unfolding v by (intro exI [of _ p] exI [of _ m]) simp
qed

theorem heap_stays_well_formed_witness:
  "\<exists>p m s'. kmalloc 100 example_heap = Inr (p + header_size, m) \<and>
     kfree (p + header_size) \<lparr>mc_mem = m, mc_tlb = (\<lambda>_. {}), mc_cpu = 0, mc_processorCount = 1\<rparr> = Inr s' \<and> heap_blocks (mc_mem s') []"
proof -
  from example_kmalloc obtain p m where m: "kmalloc 100 example_heap = Inr (p + header_size, m)" "heap_blocks m [(p, 100)]" by blast
  let ?s = "\<lparr>mc_mem = m, mc_tlb = (\<lambda>_. {}), mc_cpu = 0, mc_processorCount = 1\<rparr>"
  have "heap_blocks (mc_mem ?s) [(p, 100)]" using m(2) by simp
  from conjunct2 [OF heap_stays_well_formed [OF this]] obtain s' where "kfree (p + header_size) ?s = Inr s'" "heap_blocks (mc_mem s') []" by auto
  with m(1) show ?thesis by blast
qed


section \<open>What users of the heap rely on\<close>

text \<open>Small blocks take one page, which an aligned map with any free address can give.\<close>

lemma small_block:
  assumes "unat len \<le> 4088"
  shows "unat len + 8 + 4095 < 2 ^ 64" and "heap_pages len = 1" and "PAGE_ALIGN_UP (len + header_size) = PAGE_SIZE"
proof -
  show b: "unat len + 8 + 4095 < 2 ^ 64" using assms by simp
  show n: "heap_pages len = 1" unfolding heap_pages_def by (rule div_nat_eqI) (use assms in simp_all)
  show "PAGE_ALIGN_UP (len + header_size) = PAGE_SIZE" using allocated_pages_eq(2) [OF b] by (simp add: n word_unat_eq_iff)
qed

lemma kmalloc_small:
  assumes b: "heap_blocks m B" and len: "unat len \<le> 4088" and v: "free_set (mem_virt m) \<noteq> {}" and f: "4 * 4096 \<le> card (free_set (mem_phys m))"
  shows "\<exists>p m'. kmalloc len m = Inr (p + header_size, m') \<and> heap_blocks m' ((p, len) # B) \<and>
           card (free_set (mem_virt m)) \<le> card (free_set (mem_virt m')) + 4096 \<and> card (free_set (mem_phys m)) \<le> card (free_set (mem_phys m')) + 4 * 4096"
proof -
  note small = small_block [OF len]
  have "bm_inv (mem_virt m)" "bm_aligned (mem_virt m)" using b by (auto simp: heap_blocks_def live_heap_def heap_ok_def)
  from kmalloc_blocks [OF b small(1), unfolded small(2,3)] aligned_can_satisfy [OF this v] f obtain p m' where
    r: "kmalloc len m = Inr (p + header_size, m')" "heap_blocks m' ((p, len) # B)" "free_set (mem_virt m') = free_set (mem_virt m) - span p PAGE_SIZE"
      "card (free_set (mem_phys m)) \<le> card (free_set (mem_phys m')) + 4 * 4096" by auto
  have "card (free_set (mem_virt m)) \<le> card (free_set (mem_virt m')) + card (span p PAGE_SIZE)"
    unfolding r(3) using diff_card_le_card_Diff [of "span p PAGE_SIZE" "free_set (mem_virt m)"] by (simp add: span_def)
  then show ?thesis using r by (intro exI [of _ p] exI [of _ m']) (simp add: span_def)
qed

text \<open>The loop of a stress test: allocate \<open>n\<close> times, stop at the first null pointer, which is recorded like the others.\<close>

fun allocate_loop :: "('s \<Rightarrow> (ptr \<times> 's) result) \<Rightarrow> nat \<Rightarrow> 's \<Rightarrow> (ptr list \<times> bool \<times> 's) result" where
  "allocate_loop alloc 0 s = Inr ([], True, s)"
| "allocate_loop alloc (Suc n) s =
     rbind (alloc s) (\<lambda>(p, s1).
       if p = nullptr then Inr ([p], False, s1)
       else rbind (allocate_loop alloc n s1) (\<lambda>(ps, passed, s2). Inr (p # ps, passed, s2)))"

definition kmalloc_on :: "u64 \<Rightarrow> machine \<Rightarrow> (ptr \<times> machine) result" where
  "kmalloc_on len s = rbind (kmalloc len (mc_mem s)) (\<lambda>(p, m). Inr (p, s\<lparr>mc_mem := m\<rparr>))"

text \<open>
  The contract for blocks of one size: while there is \<open>budget\<close>, an allocation succeeds and uses at most one unit of it; every block in
  use can be freed, in any order. The client below is the pattern of a stress test.
\<close>

locale block_heap =
  fixes alloc :: "'s \<Rightarrow> (ptr \<times> 's) result"
    and free :: "ptr \<Rightarrow> 's \<Rightarrow> 's result"
    and in_use :: "'s \<Rightarrow> ptr list \<Rightarrow> bool"
    and budget :: "'s \<Rightarrow> nat"
  assumes alloc_succeeds: "in_use s B \<Longrightarrow> 0 < budget s \<Longrightarrow>
            \<exists>p s'. alloc s = Inr (p, s') \<and> p \<noteq> nullptr \<and> in_use s' (p # B) \<and> budget s \<le> Suc (budget s')"
    and free_succeeds: "in_use s B \<Longrightarrow> p \<in> set B \<Longrightarrow> \<exists>s'. free p s = Inr s' \<and> in_use s' (remove1 p B)"
begin

lemma alloc_many:
  assumes "in_use s B" and "n \<le> budget s"
  shows "\<exists>ps s'. allocate_loop alloc n s = Inr (ps, True, s') \<and> length ps = n \<and> in_use s' (rev ps @ B)"
  using assms
proof (induction n arbitrary: s B)
  case (Suc n)
  then have "0 < budget s" by simp
  from alloc_succeeds [OF Suc.prems(1) this] obtain p s1 where
    s1: "alloc s = Inr (p, s1)" "p \<noteq> nullptr" "in_use s1 (p # B)" "budget s \<le> Suc (budget s1)" by blast
  from Suc.IH [OF s1(3)] Suc.prems(2) s1(4) obtain ps s' where
    "allocate_loop alloc n s1 = Inr (ps, True, s')" "length ps = n" "in_use s' (rev ps @ p # B)" by auto
  with s1(1,2) show ?case by (intro exI [of _ "p # ps"] exI [of _ s']) simp
qed simp

lemma free_many:
  assumes "in_use s B" and "mset ps \<subseteq># mset B"
  shows "\<exists>s' B'. for_each free ps s = Inr s' \<and> in_use s' B' \<and> mset B' = mset B - mset ps"
  using assms
proof (induction ps arbitrary: s B)
  case (Cons p ps)
  have "p \<in> set B" using Cons.prems(2) by (metis list.set_intros(1) mset_subset_eqD set_mset_mset)
  from free_succeeds [OF Cons.prems(1) this] obtain s1 where s1: "free p s = Inr s1" "in_use s1 (remove1 p B)" by blast
  have "mset ps \<subseteq># mset (remove1 p B)" using Cons.prems(2) by (simp add: insert_subset_eq_iff)
  from Cons.IH [OF s1(2) this] s1(1) show ?case by (auto simp: diff_add_mset_swap)
qed auto

lemma stress_test:
  assumes "in_use s B" and "n \<le> budget s"
  shows "\<exists>ps s1 s2 B'. allocate_loop alloc n s = Inr (ps, True, s1) \<and> for_each free ps s1 = Inr s2 \<and> in_use s2 B' \<and> mset B' = mset B"
proof -
  from alloc_many [OF assms] obtain ps s1 where s1: "allocate_loop alloc n s = Inr (ps, True, s1)" "in_use s1 (rev ps @ B)" by blast
  from free_many [OF s1(2), of ps] obtain s2 B' where "for_each free ps s1 = Inr s2" "in_use s2 B'" "mset B' = mset B" by auto
  with s1(1) show ?thesis by blast
qed

end

text \<open>Blocks of a fixed small size on the kernel's heap, by the pointers their users have.\<close>

definition blocks_in_use :: "u64 \<Rightarrow> machine \<Rightarrow> ptr list \<Rightarrow> bool" where
  "blocks_in_use len s ps \<longleftrightarrow> heap_blocks (mc_mem s) (map (\<lambda>p. (p - header_size, len)) ps)"

definition page_budget :: "machine \<Rightarrow> nat" where
  "page_budget s = min (card (free_set (mem_virt (mc_mem s))) div 4096) (card (free_set (mem_phys (mc_mem s))) div (4 * 4096))"

interpretation kh: block_heap "kmalloc_on len" kfree "\<lambda>s ps. unat len \<le> 4088 \<and> blocks_in_use len s ps" page_budget
  for len :: u64
proof
  fix s B
  assume u: "unat len \<le> 4088 \<and> blocks_in_use len s B" and b: "0 < page_budget s"
  then have "4096 \<le> card (free_set (mem_virt (mc_mem s)))" "4 * 4096 \<le> card (free_set (mem_phys (mc_mem s)))"
    by (auto simp: page_budget_def div_greater_zero_iff)
  moreover from this(1) have "free_set (mem_virt (mc_mem s)) \<noteq> {}" by auto
  ultimately obtain p m where
    r: "kmalloc len (mc_mem s) = Inr (p + header_size, m)" "heap_blocks m ((p, len) # map (\<lambda>p. (p - header_size, len)) B)"
      "card (free_set (mem_virt (mc_mem s))) \<le> card (free_set (mem_virt m)) + 4096" "card (free_set (mem_phys (mc_mem s))) \<le> card (free_set (mem_phys m)) + 4 * 4096"
    using kmalloc_small [of "mc_mem s" "map (\<lambda>p. (p - header_size, len)) B" len] u by (auto simp: blocks_in_use_def)
  have "in_heap p (heap_pages len)" using r(2) by (auto simp: heap_blocks_def block_ok_def)
  then have "unat (p + header_size) = unat p + 8" "unat p \<noteq> 0" using unat_add_u64 [of p header_size] by (auto simp: in_heap_def header_size_def)
  then have "p + header_size \<noteq> nullptr" by auto
  moreover have "page_budget s \<le> Suc (page_budget (s\<lparr>mc_mem := m\<rparr>))"
    using div_le_mono [OF r(3), of 4096] div_le_mono [OF r(4), of "4 * 4096"]
      div_add_self2 [of 4096 "card (free_set (mem_virt m))"] div_add_self2 [of "4 * 4096" "card (free_set (mem_phys m))"]
    by (simp add: page_budget_def min_le_iff_disj flip: min_Suc_Suc)
  ultimately show "\<exists>p s'. kmalloc_on len s = Inr (p, s') \<and> p \<noteq> nullptr \<and> (unat len \<le> 4088 \<and> blocks_in_use len s' (p # B)) \<and> page_budget s \<le> Suc (page_budget s')"
    using r(1,2) u by (intro exI [of _ "p + header_size"] exI [of _ "s\<lparr>mc_mem := m\<rparr>"]) (simp add: kmalloc_on_def blocks_in_use_def)
next
  fix s B p
  assume u: "unat len \<le> 4088 \<and> blocks_in_use len s B" and p: "p \<in> set B"
  let ?f = "\<lambda>p :: ptr. (p - header_size, len)"
  have "heap_blocks (mc_mem s) (map ?f B)" "?f p \<in> set (map ?f B)" using u p by (auto simp: blocks_in_use_def)
  from kfree_blocks [OF this] obtain s' where "kfree p s = Inr s'" "heap_blocks (mc_mem s') (remove1 (?f p) (map ?f B))" by auto
  moreover have "remove1 (?f p) (map ?f B) = map ?f (remove1 p B)" by (induction B) auto
  ultimately show "\<exists>s'. kfree p s = Inr s' \<and> (unat len \<le> 4088 \<and> blocks_in_use len s' (remove1 p B))" using u by (simp add: blocks_in_use_def)
qed


end
