(* ===== verification/Kernel_Tests.thy ===== *)
theory Kernel_Tests
  imports Heap_Life Vector Byte_Strings Task_Queue
begin

text \<open>
  The test runner (\<^verbatim>\<open>test/test.cpp\<close>) and the unit tests it runs at every start of a debug build: \<^verbatim>\<open>memoryBlock_test.cpp\<close>, \<^verbatim>\<open>vector_test.cpp\<close>,
  \<^verbatim>\<open>copying_test.cpp\<close>, \<^verbatim>\<open>kmalloc_test.cpp\<close> and \<^verbatim>\<open>taskQueue_test.cpp\<close>. A test takes the state that the tests share, logs and says whether it
  passed, or ends in a fault. The local objects of a test are created in it; for those whose addresses matter the addresses are
  arguments. The theorems at the end say that every test passes on a kernel that has the memory the test needs.
\<close>

section \<open>The test runner\<close>

record test_state =
  ts_log :: "string list"
  ts_machine :: machine
  ts_bytes :: byte_mem
  ts_arrays :: "int heap"
  ts_tasks :: task_heap

type_synonym 's test = "'s \<Rightarrow> (bool \<times> 's) result"

text \<open>All messages end with a newline.\<close>

definition logger :: "string \<Rightarrow> test_state \<Rightarrow> test_state" where
  "logger message s = s\<lparr>ts_log := ts_log s @ [message @ [CHR 0x0A]]\<rparr>"

text \<open>The loop over the array of tests; the counters have 32 bits.\<close>

fun run_tests :: "test_state test list \<Rightarrow> u32 \<times> u32 \<Rightarrow> test_state \<Rightarrow> ((u32 \<times> u32) \<times> test_state) result" where
  "run_tests [] counts s = Inr (counts, s)"
| "run_tests (testFunction # rest) (passed, failed) s =
     rbind (testFunction s) (\<lambda>(ok, s1). run_tests rest (if ok then (passed + 1, failed) else (passed, failed + 1)) s1)"

definition runTests :: "bool \<Rightarrow> test_state test list \<Rightarrow> test_state test" where
  "runTests debug tests s =
     (if debug then
        rbind (run_tests tests (0, 0) (logger ''Running tests...'' s)) (\<lambda>((passed, failed), s1).
          if failed = 0 then Inr (True, logger ''All tests passed'' s1) else Inr (False, logger ''There were test failures'' s1))
      else Inr (True, logger ''Skipping tests: not a debug build'' s))"

text \<open>The interrupt flag that the locks of a test save and restore.\<close>

definition test_irq :: "test_state \<Rightarrow> bool" where
  "test_irq s = mem_irq (mc_mem (ts_machine s))"

definition set_test_irq :: "bool \<Rightarrow> test_state \<Rightarrow> test_state" where
  "set_test_irq irq s = s\<lparr>ts_machine := (ts_machine s)\<lparr>mc_mem := (mc_mem (ts_machine s))\<lparr>mem_irq := irq\<rparr>\<rparr>\<rparr>"

text \<open>The end of a test with a message.\<close>

definition fail :: "string \<Rightarrow> 'm \<Rightarrow> test_state \<Rightarrow> (bool \<times> 'm \<times> test_state) result" where
  "fail message m s = Inr (False, m, logger message s)"

section \<open>The test of the block map\<close>

fun map_stress :: "nat list \<Rightarrow> bool \<times> blockmap \<Rightarrow> (bool \<times> bool \<times> blockmap) result" where
  "map_stress [] m = Inr (True, m)"
| "map_stress (i # is) m =
     rbind (allocate (0x2000 div (of_nat i + 1)) m) (\<lambda>(allocatedMemory, m1).
       if allocatedMemory = nullptr then Inr (False, m1)
       else rbind (returnMemory allocatedMemory (0x2000 div (of_nat i + 1)) m1) (\<lambda>(u, m2). map_stress is m2))"

text \<open>The second half of the test, after \<^verbatim>\<open>map.clear()\<close>.\<close>

definition reserveTest :: "bool \<times> blockmap \<Rightarrow> test_state \<Rightarrow> (bool \<times> (bool \<times> blockmap) \<times> test_state) result" where
  "reserveTest m s =
     rbind (reserve (Block 0x1000 0x3000) m) (\<lambda>(_, m).
     rbind (allocate 1 m) (\<lambda>(p, m).
     if p \<noteq> nullptr then fail ''blockMapTest failed: reserving memory failed'' m s
     else rbind (addBlock (Block 0x1000 0x3000) m) (\<lambda>(_, m).
     rbind (reserve (Block 0x1000 0x2000) m) (\<lambda>(_, m).
     rbind (allocate 0x1000 m) (\<lambda>(p, m).
     if p \<noteq> 0x2000 then fail ''blockMapTest failed: Reserving from the start of a block failed'' m s
     else rbind (addBlock (Block 0x1000 0x3000) m) (\<lambda>(_, m).
     rbind (reserve (Block 0x1800 0x2800) m) (\<lambda>(_, m).
     rbind (allocate 0x1000 m) (\<lambda>(p, m).
     if p \<noteq> nullptr then fail ''blockMapTest failed: Reserving the middle of a block failed'' m s
     else rbind (allocate 0x800 m) (\<lambda>(p, m).
     if p \<noteq> 0x1000 then fail ''blockMapTest failed: Reserving in the middle of the block failed'' m s
     else rbind (allocate 0x800 m) (\<lambda>(p, m).
     if p \<noteq> 0x2800 then fail ''blockMapTest failed: Reserving in the middle of a block failed'' m s
     else rbind (allocate 1 m) (\<lambda>(p, m).
     if p \<noteq> nullptr then fail ''blockMapTest failed: Excess memory in the block after reserving in the middle'' m s
     else Inr (True, m, logger ''blockMapTest: Succeeded'' (logger ''blockMapTest: Passed reserve test'' s)))))))))))))"

definition blockMapBody :: "bool \<times> blockmap \<Rightarrow> test_state \<Rightarrow> (bool \<times> (bool \<times> blockmap) \<times> test_state) result" where
  "blockMapBody m s =
     rbind (addBlock (Block 0x1000 0x3000) m) (\<lambda>(_, m).
     rbind (allocate 0x2000 m) (\<lambda>(p, m).
     if p = nullptr then fail ''blockMapTest failed: Allocator not working properly'' m s
     else let s = logger ''blockMapTest: simple allocation test passed'' s in
     rbind (returnMemory p 0x2000 m) (\<lambda>(_, m).
     rbind (allocate 0x2000 m) (\<lambda>(p, m).
     if p = nullptr then fail ''blockMapTest failed: Allocate/free does not work properly'' m s
     else rbind (returnMemory p 0x2000 m) (\<lambda>(_, m).
     let s = logger ''blockMapTest: Allocate/free test passed'' s in
     rbind (map_stress [0..<1000] m) (\<lambda>(ok, m).
     if \<not> ok then fail ''blockMapTest failed: merge function does not work properly'' m s
     else let s = logger ''blockMapTest: Passed stress tester'' s in
     rbind (clear m) (\<lambda>(_, m). reserveTest m s)))))))"

definition blockMapTest :: "test_state test" where
  "blockMapTest s =
     rbind (blockMapBody (test_irq s, blockmap_init) (logger ''blockMapTest:'' s)) (\<lambda>(ok, m, s1). Inr (ok, set_test_irq (fst m) s1))"

section \<open>The test of the vector\<close>

definition vec_get :: "vec \<times> int heap \<Rightarrow> u64 \<Rightarrow> int result" where
  "vec_get v i = Accessor_get 0 (Vector_at (fst v) i) (snd v)"

definition vec_set :: "u64 \<Rightarrow> int \<Rightarrow> vec \<times> int heap \<Rightarrow> (vec \<times> int heap) result" where
  "vec_set i x v = rbind (Accessor_set (Vector_at (fst v) i) x (snd v)) (\<lambda>h. Inr (fst v, h))"

definition vec_pop :: "vec \<times> int heap \<Rightarrow> (int \<times> vec \<times> int heap) result" where
  "vec_pop v = pop_back 0 (fst v) (snd v)"

fun vector_stress :: "nat list \<Rightarrow> vec \<times> int heap \<Rightarrow> bool result" where
  "vector_stress [] v = Inr True"
| "vector_stress (i # is) v = rbind (vec_get v (of_nat i)) (\<lambda>x. if x \<noteq> int i then Inr False else vector_stress is v)"

definition vectorBody :: "vec \<times> int heap \<Rightarrow> test_state \<Rightarrow> (bool \<times> (vec \<times> int heap) \<times> test_state) result" where
  "vectorBody v s =
     rbind (vec_push 0 17 v) (\<lambda>v.
     rbind (vec_push 0 23 v) (\<lambda>v.
     rbind (vec_pop v) (\<lambda>(x, v).
     if x \<noteq> 23 then fail ''VectorTest: Failed on popping 23'' v s
     else rbind (vec_pop v) (\<lambda>(x, v).
     if x \<noteq> 17 then fail ''VectorTest: Failed on popping 17'' v s
     else rbind (vec_push 0 27 v) (\<lambda>v.
     rbind (vec_push 0 144 v) (\<lambda>v.
     rbind (vec_push 0 123 v) (\<lambda>v.
     rbind (vec_get v 0) (\<lambda>x.
     if x \<noteq> 27 then fail ''VectorTest: Random access failed on 0'' v s
     else rbind (vec_get v 1) (\<lambda>x.
     if x \<noteq> 144 then fail ''VectorTest: Random access failed on 1'' v s
     else rbind (vec_get v 2) (\<lambda>x.
     if x \<noteq> 123 then fail ''VectorTest: Random access failed on 2'' v s
     else rbind (vec_set 1 1700 v) (\<lambda>v.
     rbind (vec_get v 1) (\<lambda>x.
     if x \<noteq> 1700 then fail ''VectorTest: Random access assignment failed'' v s
     else rbind (vec_pop v) (\<lambda>(_, v).
     rbind (vec_pop v) (\<lambda>(_, v).
     rbind (vec_pop v) (\<lambda>(_, v).
     rbind (for_each (vec_push 0) (map int [0..<1000]) v) (\<lambda>v.
     rbind (vector_stress [0..<1000] v) (\<lambda>ok.
     if \<not> ok then fail ''VectorTest: Random access failed during stress testing'' v s
     else Inr (True, v, logger ''VectorTest: Succeeded'' s))))))))))))))))))"

text \<open>The destructor of the vector runs on every way out.\<close>

definition vectorTest :: "test_state test" where
  "vectorTest s =
     rbind (vectorBody (Vector_empty, ts_arrays s) (logger ''VectorTest:'' s)) (\<lambda>(ok, v, s1).
     rbind (Vector_destroy (fst v) (snd v)) (\<lambda>h. Inr (ok, s1\<lparr>ts_arrays := h\<rparr>)))"

section \<open>The test of \<open>memcmp\<close>\<close>

text \<open>The initialisation of an array of characters from a literal, with its terminating zero.\<close>

fun init_array :: "u64 \<Rightarrow> u8 list \<Rightarrow> byte_mem \<Rightarrow> byte_mem" where
  "init_array p [] m = m"
| "init_array p (x # xs) m = init_array (p + 1) xs (m(p := x))"

definition char_array :: "string \<Rightarrow> u8 list" where
  "char_array literal = map of_char literal @ [0]"

text \<open>A comparison of the test: whether it is equal, or a fault of \<^verbatim>\<open>strlen\<close>.\<close>

definition compare_sized :: "u64 \<Rightarrow> u64 \<Rightarrow> nat \<Rightarrow> byte_mem \<Rightarrow> bool" where
  "compare_sized a b n m \<longleftrightarrow> memcmp a b (of_nat n) m = 0"

definition compare_strlen :: "u64 \<Rightarrow> u64 \<Rightarrow> byte_mem \<Rightarrow> bool result" where
  "compare_strlen a b m = rbind (strlen a m) (\<lambda>n. Inr (memcmp a b (of_nat n) m = 0))"

text \<open>The last comparison has its closing parenthesis after \<^verbatim>\<open>== 0\<close>: the number of bytes to compare is the truth value of \<^verbatim>\<open>strlen(buffer4) == 0\<close>.\<close>

definition compare_last :: "u64 \<Rightarrow> u64 \<Rightarrow> byte_mem \<Rightarrow> bool result" where
  "compare_last a b m = rbind (strlen a m) (\<lambda>n. Inr (memcmp a b (of_bool (n = 0)) m \<noteq> 0))"

definition memcmpBody :: "u64 \<Rightarrow> u64 \<Rightarrow> u64 \<Rightarrow> u64 \<Rightarrow> byte_mem \<Rightarrow> test_state \<Rightarrow> (bool \<times> unit \<times> test_state) result" where
  "memcmpBody buffer1 buffer2 buffer3 buffer4 m s =
     (if \<not> compare_sized buffer1 buffer1 14 m then fail ''memcmpTest: equality test failed'' () s
      else if \<not> compare_sized buffer2 buffer2 14 m then fail ''memcmpTest: equality test failed'' () s
      else rbind (compare_strlen buffer3 buffer3 m) (\<lambda>eq.
      if \<not> eq then fail ''memcmpTest: Equality test failed on small array'' () s
      else rbind (compare_strlen buffer4 buffer4 m) (\<lambda>eq.
      if \<not> eq then fail ''memcmpTest: Equality test failed on small array'' () s
      else let s = logger ''memcmpTest: Passed equality test'' s in
      if compare_sized buffer1 buffer2 14 m then fail ''memcmpTest: Failed inequality test'' () s
      else if compare_sized buffer2 buffer1 14 m then fail ''memcmpTest: Failed inequality test'' () s
      else rbind (compare_strlen buffer3 buffer4 m) (\<lambda>eq.
      if eq then fail ''memcmpTest: Inequality test failed on small array'' () s
      else rbind (compare_last buffer4 buffer3 m) (\<lambda>differ.
      if differ then fail ''memcmpTest: Inequality test failed on small array'' () s
      else Inr (True, (), logger ''memcmpTest: Succeeded'' (logger ''memcmpTest: Passed inequality test'' s)))))))"

definition memcmp_buffers :: "u64 \<Rightarrow> u64 \<Rightarrow> u64 \<Rightarrow> u64 \<Rightarrow> byte_mem \<Rightarrow> byte_mem" where
  "memcmp_buffers buffer1 buffer2 buffer3 buffer4 m =
     init_array buffer4 (char_array ''Best'') (init_array buffer3 (char_array ''Test'')
       (init_array buffer2 (char_array ''Hello, There!'') (init_array buffer1 (char_array ''Hello, World!'') m)))"

definition memcmpTest :: "u64 \<Rightarrow> u64 \<Rightarrow> u64 \<Rightarrow> u64 \<Rightarrow> test_state test" where
  "memcmpTest buffer1 buffer2 buffer3 buffer4 s =
     (let m = memcmp_buffers buffer1 buffer2 buffer3 buffer4 (ts_bytes s)
      in rbind (memcmpBody buffer1 buffer2 buffer3 buffer4 m (logger ''memcmpTest:'' s)) (\<lambda>(ok, _, s1). Inr (ok, s1\<lparr>ts_bytes := m\<rparr>)))"

section \<open>The tests of the heap\<close>

definition on_machine :: "(machine \<Rightarrow> ('r \<times> machine) result) \<Rightarrow> test_state \<Rightarrow> ('r \<times> test_state) result" where
  "on_machine f s = rbind (f (ts_machine s)) (\<lambda>(r, mc). Inr (r, s\<lparr>ts_machine := mc\<rparr>))"

text \<open>Every pointer that the first loop stored is freed, the null pointer of a failed allocation too.\<close>

definition kmalloc_stress :: "nat \<Rightarrow> machine \<Rightarrow> (bool \<times> machine) result" where
  "kmalloc_stress n s =
     rbind (allocate_loop (kmalloc_on 2) n s) (\<lambda>(allocatedMemory, passed, s1).
     rbind (for_each kfree allocatedMemory s1) (\<lambda>s2. Inr (passed, s2)))"

definition kmallocTest :: "test_state test" where
  "kmallocTest s =
     rbind (on_machine (kmalloc_stress 2048) (logger ''kmallocTest:'' s)) (\<lambda>(passed, s1).
       if \<not> passed then Inr (False, logger ''kmallocTest: Failed stress test'' s1)
       else Inr (True, logger ''kmallocTest: Succeeded'' (logger ''kmallocTest: Passed stress test'' s1)))"

fun map_memory_stress :: "nat \<Rightarrow> machine \<Rightarrow> (bool \<times> machine) result" where
  "map_memory_stress 0 s = Inr (True, s)"
| "map_memory_stress (Suc n) s =
     rbind (mapAddress nullptr 1048576 True (mc_mem s)) (\<lambda>(p, m).
       if p = nullptr then Inr (False, s\<lparr>mc_mem := m\<rparr>)
       else rbind (unmapMemory p 1048576 (s\<lparr>mc_mem := m\<rparr>)) (map_memory_stress n))"

definition mapMemoryTest :: "test_state test" where
  "mapMemoryTest s =
     rbind (on_machine (map_memory_stress 4096) (logger ''mapMemoryTest:'' s)) (\<lambda>(passed, s1).
       if \<not> passed then Inr (False, logger ''mapMemoryTest: Stress test failed'' s1)
       else Inr (True, logger ''mapMemoryTest: Succeeded'' (logger ''mapMemoryTest: Passed stress test'' s1)))"

section \<open>The test of the task queue\<close>

definition taskQueueBody :: "ptr \<Rightarrow> ptr \<Rightarrow> ptr \<Rightarrow> bool \<times> task_queue \<times> task_heap \<Rightarrow> test_state \<Rightarrow>
    (bool \<times> (bool \<times> task_queue \<times> task_heap) \<times> test_state) result" where
  "taskQueueBody a b c q s =
     rbind (tq_push a q) (\<lambda>(_, q).
     rbind (tq_push b q) (\<lambda>(_, q).
     rbind (tq_push c q) (\<lambda>(_, q).
     rbind (tq_pop q) (\<lambda>(t, q).
     if t \<noteq> a then fail ''taskQueueTest failed: Popping failed on first element'' q s
     else rbind (tq_pop q) (\<lambda>(t, q).
     if t \<noteq> b then fail ''taskQueueTest failed: Popping failed on second element'' q s
     else rbind (tq_pop q) (\<lambda>(t, q).
     if t \<noteq> c then fail ''taskQueueTest failed: Popping failed on third element'' q s
     else rbind (tq_pop q) (\<lambda>(t, q).
     if t \<noteq> nullptr then fail ''taskQueueTest failed: Popping non-existant element not null'' q s
     else Inr (True, q, logger ''taskQueueTest: Succeeded'' s))))))))"

text \<open>The three control blocks are local variables, here at the addresses \<open>a\<close>, \<open>b\<close> and \<open>c\<close>.\<close>

definition taskQueueTest :: "ptr \<Rightarrow> ptr \<Rightarrow> ptr \<Rightarrow> test_state test" where
  "taskQueueTest a b c s =
     rbind (taskQueueBody a b c (test_irq s, task_queue_init,
              (ts_tasks s)(a := new_control_block, b := new_control_block, c := new_control_block)) (logger ''taskQueueTest:'' s)) (\<lambda>(ok, (irq, q, h), s1).
       Inr (ok, set_test_irq irq (s1\<lparr>ts_tasks := h\<rparr>)))"

section \<open>What the runner says\<close>

text \<open>The tests one after the other, with their verdicts.\<close>

fun verdicts :: "test_state test list \<Rightarrow> test_state \<Rightarrow> (bool list \<times> test_state) result" where
  "verdicts [] s = Inr ([], s)"
| "verdicts (t # ts) s = rbind (t s) (\<lambda>(ok, s1). rbind (verdicts ts s1) (\<lambda>(oks, s2). Inr (ok # oks, s2)))"

lemma length_verdicts: "verdicts ts s = Inr (oks, s') \<Longrightarrow> length oks = length ts"
  by (induction ts arbitrary: s oks) auto

lemma run_tests_counts:
  "verdicts ts s = Inr (oks, s') \<Longrightarrow>
     run_tests ts (p, f) s = Inr ((p + of_nat (length (filter id oks)), f + of_nat (length (filter Not oks))), s')"
  by (induction ts arbitrary: p f s oks) (fastforce simp: algebra_simps)+

lemma runTests_verdict:
  assumes "length tests < 2 ^ 32" and "verdicts tests (logger ''Running tests...'' s) = Inr (oks, s')"
  shows "runTests True tests s =
           Inr (list_all id oks, logger (if list_all id oks then ''All tests passed'' else ''There were test failures'') s')"
proof -
  have "length (filter Not oks) < 2 ^ 32" using assms length_filter_le [of Not oks] length_verdicts [OF assms(2)] by simp
  then have "unat (of_nat (length (filter Not oks)) :: u32) = length (filter Not oks)"
    by (intro unat_of_nat_small) simp
  then have "(of_nat (length (filter Not oks)) :: u32) = 0 \<longleftrightarrow> filter Not oks = []" by (metis length_0_conv unsigned_0 unsigned_eq_0_iff)
  then show ?thesis
    using run_tests_counts [OF assms(2), of 0 0] by (auto simp: runTests_def filter_empty_conv list_all_iff)
qed

lemma runTests_fault:
  assumes "verdicts tests (logger ''Running tests...'' s) = Inl e"
  shows "runTests True tests s = Inl e"
proof -
  have "run_tests ts (p, f) t = Inl e" if "verdicts ts t = Inl e" for ts p f t
    using that by (induction ts arbitrary: p f t) (auto simp: rbind_def split: sum.splits prod.splits)
  with assms show ?thesis by (simp add: runTests_def)
qed

section \<open>The tests pass\<close>

text \<open>The task queue.\<close>

text \<open>What a test leaves alone that does not use the heap.\<close>

definition keeps :: "test_state \<Rightarrow> test_state \<Rightarrow> bool" where
  "keeps s s' \<longleftrightarrow> ts_machine s' = ts_machine s \<and> (arrays_ok (ts_arrays s) \<longrightarrow> arrays_ok (ts_arrays s'))"

lemma keeps_simps [simp]:
  "keeps s s" "keeps s (logger message t) = keeps s t" "keeps s (s1\<lparr>ts_tasks := h\<rparr>) = keeps s s1" "keeps s (s1\<lparr>ts_bytes := m\<rparr>) = keeps s s1"
  by (simp_all add: keeps_def logger_def)

lemma keeps_irq: "keeps s s1 \<Longrightarrow> keeps s (set_test_irq (test_irq s) s1)"
  by (simp add: keeps_def set_test_irq_def test_irq_def)

lemma taskQueueTest_passes:
  assumes "distinct [a, b, c]" and "nullptr \<notin> {a, b, c}"
  shows "\<exists>s'. taskQueueTest a b c s = Inr (True, s') \<and> keeps s s'"
proof -
  let ?h = "(ts_tasks s)(a := new_control_block, b := new_control_block, c := new_control_block)"
  have "tq_ok task_queue_init ?h []" by (simp add: tq_ok_def) (simp add: task_queue_init_def spinlock_init_def locked_def)
  from tq_push_ok [OF this, of a "test_irq s"] assms obtain q1 h1 where
    1: "tq_push a (test_irq s, task_queue_init, ?h) = Inr ((), test_irq s, q1, h1)" "tq_ok q1 h1 [a]" by auto
  from tq_push_ok [OF 1(2), of b "test_irq s"] assms obtain q2 h2 where
    2: "tq_push b (test_irq s, q1, h1) = Inr ((), test_irq s, q2, h2)" "tq_ok q2 h2 [a, b]" by auto
  from tq_push_ok [OF 2(2), of c "test_irq s"] assms obtain q3 h3 where
    3: "tq_push c (test_irq s, q2, h2) = Inr ((), test_irq s, q3, h3)" "tq_ok q3 h3 [a, b, c]" by auto
  from tq_pop_ok [OF 3(2), of "test_irq s"] obtain q4 where 4: "tq_pop (test_irq s, q3, h3) = Inr (a, test_irq s, q4, h3)" "tq_ok q4 h3 [b, c]" by auto
  from tq_pop_ok [OF 4(2), of "test_irq s"] obtain q5 where 5: "tq_pop (test_irq s, q4, h3) = Inr (b, test_irq s, q5, h3)" "tq_ok q5 h3 [c]" by auto
  from tq_pop_ok [OF 5(2), of "test_irq s"] obtain q6 where 6: "tq_pop (test_irq s, q5, h3) = Inr (c, test_irq s, q6, h3)" "tq_ok q6 h3 []" by auto
  from tq_pop_ok [OF 6(2), of "test_irq s"] obtain q7 where "tq_pop (test_irq s, q6, h3) = Inr (nullptr, test_irq s, q7, h3)" by auto
  with 1(1) 2(1) 3(1) 4(1) 5(1) 6(1) show ?thesis by (simp add: taskQueueTest_def taskQueueBody_def keeps_irq)
qed

text \<open>The vector: a value that is in the vector is found at its index.\<close>

definition vec_is :: "vec \<times> int heap \<Rightarrow> int list \<Rightarrow> bool" where
  "vec_is v xs \<longleftrightarrow> vec_ok (fst v) (snd v) \<and> elems (fst v) (snd v) = xs"

lemma vec_push_is: "vec_is v xs \<Longrightarrow> length xs < VECTOR_LIMIT \<Longrightarrow> \<exists>v'. vec_push 0 x v = Inr v' \<and> vec_is v' (xs @ [x])"
  using push_back_ok [of "fst v" "snd v" 0 x] by (fastforce simp: vec_is_def vec_push_def case_prod_unfold)

lemma vec_pop_is: "vec_is v (xs @ [x]) \<Longrightarrow> \<exists>v'. vec_pop v = Inr (x, v') \<and> vec_is v' xs"
  using pop_back_ok [of "fst v" "snd v" 0] by (fastforce simp: vec_is_def vec_pop_def)

lemma vec_at:
  assumes "vec_is v xs" and "unat i < length xs"
  obtains b ys where "Vector_at (fst v) i = Some (b, unat i)" and "hp_blocks (snd v) b = Some ys" and "xs = take (length xs) ys"
    and "length xs \<le> length ys" and "v_data (fst v) = Some b" and "length ys = unat (v_capacity (fst v))" and "length xs = unat (v_size (fst v))"
proof -
  have ok: "vec_ok (fst v) (snd v)" and el: "elems (fst v) (snd v) = xs" using assms(1) by (simp_all add: vec_is_def)
  have len: "length xs = unat (v_size (fst v))" using vec_okD(4) [OF ok] el by simp
  with assms(2) have "i < v_size (fst v)" by (simp add: word_less_nat_alt)
  moreover obtain b where b: "v_data (fst v) = Some b" using el assms(2) by (fastforce simp: elems_def split: option.splits)
  ultimately have at: "Vector_at (fst v) i = Some (b, unat i)" using Vector_at_iff [OF ok] by simp
  obtain ys where "hp_blocks (snd v) b = Some ys" "length ys = unat (v_capacity (fst v))" "elems (fst v) (snd v) = take (unat (v_size (fst v))) ys"
    by (rule vec_array [OF ok b])
  with that [OF at] vec_okD(2) [OF ok] len el b show thesis by simp
qed

lemma vec_get_is:
  assumes "vec_is v xs" and "unat i < length xs"
  shows "vec_get v i = Inr (xs ! unat i)"
proof -
  obtain b ys where a: "Vector_at (fst v) i = Some (b, unat i)" "hp_blocks (snd v) b = Some ys" "xs = take (length xs) ys" "length xs \<le> length ys"
    by (rule vec_at [OF assms])
  have "ys ! unat i = xs ! unat i" using a(3) assms(2) by (metis nth_take)
  with a assms(2) show ?thesis by (simp add: vec_get_def Accessor_get_def load_def)
qed

lemma vec_set_is:
  assumes "vec_is v xs" and "unat i < length xs"
  shows "\<exists>v'. vec_set i x v = Inr v' \<and> vec_is v' (xs[unat i := x])"
proof -
  obtain b ys where a: "Vector_at (fst v) i = Some (b, unat i)" "hp_blocks (snd v) b = Some ys" "xs = take (length xs) ys" "length xs \<le> length ys"
    "v_data (fst v) = Some b" "length ys = unat (v_capacity (fst v))" "length xs = unat (v_size (fst v))" by (rule vec_at [OF assms])
  let ?v = "(fst v, (snd v)\<lparr>hp_blocks := (hp_blocks (snd v))(b := Some (ys[unat i := x]))\<rparr>)"
  have "vec_set i x v = Inr ?v" using a(1,2,4) assms(2) by (simp add: vec_set_def Accessor_set_def store_def)
  moreover have "take (length xs) (ys[unat i := x]) = xs[unat i := x]" using a(3) by (metis take_update_swap)
  then have "vec_is ?v (xs[unat i := x])" using assms(1) a(2,5-7) by (auto simp: vec_is_def vec_ok_def elems_def arrays_ok_def)
  ultimately show ?thesis by blast
qed

lemma vector_stress_passes:
  assumes "vec_is v (map int [0..<1000])"
  shows "set is \<subseteq> {..<1000} \<Longrightarrow> vector_stress is v = Inr True"
proof (induction "is")
  case (Cons i "is")
  then have i: "i < 1000" by simp
  then have "unat (of_nat i :: u64) = i" by (intro unat_of_nat_small) simp
  with vec_get_is [OF assms, of "of_nat i"] i Cons show ?case by simp
qed simp

lemma vectorTest_passes:
  assumes "arrays_ok (ts_arrays s)"
  shows "\<exists>s'. vectorTest s = Inr (True, s') \<and> keeps s s'"
proof -
  have lim: "n < 2000 \<Longrightarrow> n < VECTOR_LIMIT" for n by (simp add: VECTOR_LIMIT_def)
  have "vec_is (Vector_empty, ts_arrays s) []" using assms by (simp add: vec_is_def vec_ok_def Vector_empty_def elems_def)
  from vec_push_is [OF this, of 17] lim obtain v1 where 1: "vec_push 0 17 (Vector_empty, ts_arrays s) = Inr v1" "vec_is v1 [17]" by auto
  from vec_push_is [OF 1(2), of 23] lim obtain v2 where 2: "vec_push 0 23 v1 = Inr v2" "vec_is v2 [17, 23]" by auto
  from vec_pop_is [of v2 "[17]" 23] 2(2) obtain v3 where 3: "vec_pop v2 = Inr (23, v3)" "vec_is v3 [17]" by auto
  from vec_pop_is [of v3 "[]" 17] 3(2) obtain v4 where 4: "vec_pop v3 = Inr (17, v4)" "vec_is v4 []" by auto
  from vec_push_is [OF 4(2), of 27] lim obtain v5 where 5: "vec_push 0 27 v4 = Inr v5" "vec_is v5 [27]" by auto
  from vec_push_is [OF 5(2), of 144] lim obtain v6 where 6: "vec_push 0 144 v5 = Inr v6" "vec_is v6 [27, 144]" by auto
  from vec_push_is [OF 6(2), of 123] lim obtain v7 where 7: "vec_push 0 123 v6 = Inr v7" "vec_is v7 [27, 144, 123]" by auto
  from vec_get_is [OF 7(2), of 0] vec_get_is [OF 7(2), of 1] vec_get_is [OF 7(2), of 2]
  have get: "vec_get v7 0 = Inr 27" "vec_get v7 1 = Inr 144" "vec_get v7 2 = Inr 123" by simp_all
  from vec_set_is [OF 7(2), of 1 1700] obtain v8 where 8: "vec_set 1 1700 v7 = Inr v8" "vec_is v8 [27, 1700, 123]" by auto
  from vec_get_is [OF 8(2), of 1] have get8: "vec_get v8 1 = Inr 1700" by simp
  from vec_pop_is [of v8 "[27, 1700]" 123] 8(2) obtain v9 where 9: "vec_pop v8 = Inr (123, v9)" "vec_is v9 [27, 1700]" by auto
  from vec_pop_is [of v9 "[27]" 1700] 9(2) obtain v10 where 10: "vec_pop v9 = Inr (1700, v10)" "vec_is v10 [27]" by auto
  from vec_pop_is [of v10 "[]" 27] 10(2) obtain v11 where 11: "vec_pop v10 = Inr (27, v11)" "vec_is v11 []" by auto
  from vs.push_all [of v11 "map int [0..<1000]" 0] 11(2) obtain v where
    v: "for_each (vec_push 0) (map int [0..<1000]) v11 = Inr v" "vec_is v (map int [0..<1000])"
    by (auto simp: vec_is_def VECTOR_LIMIT_def case_prod_unfold)
  have stress: "vector_stress [0..<1000] v = Inr True" by (rule vector_stress_passes [OF v(2)]) auto
  from v(2) have "\<exists>h. Vector_destroy (fst v) (snd v) = Inr h \<and> arrays_ok h"
    by (auto simp: vec_is_def vec_ok_def Vector_destroy_def delete_data_def delete_array_def arrays_ok_def split: option.splits)
  then show ?thesis
    using 1(1) 2(1) 3(1) 4(1) 5(1) 6(1) 7(1) get 8(1) get8 9(1) 10(1) 11(1) v(1) stress
    by (auto simp: vectorTest_def vectorBody_def keeps_def logger_def simp del: upt_rec_numeral)
qed

text \<open>The buffers of the test of \<^verbatim>\<open>memcmp\<close> do not overlap.\<close>

definition buffers_apart :: "u64 \<times> nat \<Rightarrow> u64 \<times> nat \<Rightarrow> bool" where
  "buffers_apart x y \<longleftrightarrow> (\<forall>i < snd x. \<forall>j < snd y. fst x + of_nat i \<noteq> fst y + of_nat j)"

lemma init_array_other: "(\<And>i. i < length xs \<Longrightarrow> p + of_nat i \<noteq> a) \<Longrightarrow> init_array p xs m a = m a"
proof (induction xs arbitrary: p m)
  case (Cons x xs)
  have "p \<noteq> a" using Cons.prems [of 0] by simp
  moreover have "p + 1 + of_nat i \<noteq> a" if "i < length xs" for i using Cons.prems [of "Suc i"] that by (simp add: add.assoc)
  ultimately show ?case using Cons.IH [of "p + 1" "m(p := x)"] by (simp add: fun_upd_def)
qed simp

lemma init_array_read: "length xs < 2 ^ 64 \<Longrightarrow> read_bytes (init_array p xs m) p (length xs) = xs"
proof (induction xs arbitrary: p m)
  case (Cons x xs)
  have "p + 1 + of_nat i \<noteq> p" if "i < length xs" for i
  proof
    assume "p + 1 + of_nat i = p"
    then have "of_nat (Suc i) = (0 :: u64)" by (simp add: add.assoc)
    then have "2 ^ 64 dvd Suc i" by (simp add: word_of_nat_eq_0_iff del: of_nat_Suc)
    with dvd_imp_le [OF this] that Cons.prems show False by simp
  qed
  then have "init_array (p + 1) xs (m(p := x)) p = x" using init_array_other [of xs "p + 1" p] by simp
  then show ?case using Cons.IH [of "p + 1" "m(p := x)"] Cons.prems by (simp add: fun_upd_def)
qed simp

lemma init_array_apart:
  assumes "buffers_apart (p, length xs) (q, n)"
  shows "read_bytes (init_array p xs m) q n = read_bytes m q n"
  by (rule nth_equalityI) (use assms in \<open>auto simp: buffers_apart_def intro!: init_array_other\<close>)

lemma memcmpTest_passes:
  assumes "sorted_wrt buffers_apart [(buffer4, 5), (buffer3, 5), (buffer2, 14), (buffer1, 14)]"
  shows "\<exists>s'. memcmpTest buffer1 buffer2 buffer3 buffer4 s = Inr (True, s') \<and> keeps s s'"
proof -
  let ?m = "memcmp_buffers buffer1 buffer2 buffer3 buffer4 (ts_bytes s)"
  have len: "length (char_array ''Best'') = 5" "length (char_array ''Test'') = 5" "length (char_array ''Hello, There!'') = 14" "length (char_array ''Hello, World!'') = 14"
    by (simp_all add: char_array_def)
  note read = init_array_read [of "char_array ''Best''", unfolded len] init_array_read [of "char_array ''Test''", unfolded len]
    init_array_read [of "char_array ''Hello, There!''", unfolded len] init_array_read [of "char_array ''Hello, World!''", unfolded len]
  note other = init_array_apart [of _ "char_array ''Best''", unfolded len] init_array_apart [of _ "char_array ''Test''", unfolded len]
    init_array_apart [of _ "char_array ''Hello, There!''", unfolded len]
  have b1: "read_bytes ?m buffer1 14 = char_array ''Hello, World!''" and b2: "read_bytes ?m buffer2 14 = char_array ''Hello, There!''"
    and b3: "read_bytes ?m buffer3 5 = char_array ''Test''" and b4: "read_bytes ?m buffer4 5 = char_array ''Best''"
    using assms by (simp_all add: memcmp_buffers_def read other)
  have 4: "read_bytes ?m p 4 = take 4 (read_bytes ?m p 5) \<and> ?m (p + 4) = read_bytes ?m p 5 ! 4" for p
    using read_bytes_drop_take [of 4 0 ?m p 5] by simp
  have l: "length (map of_char ''Test'') = 4" "length (map of_char ''Best'') = 4" by simp_all
  have str: "c_string ?m buffer3 (map of_char ''Test'')" "c_string ?m buffer4 (map of_char ''Best'')"
    using 4 [of buffer3] 4 [of buffer4] unfolding c_string_def l by (simp_all add: b3 b4 char_array_def del: read_bytes_simps(2))
  have eq: "read_bytes ?m buffer3 4 \<noteq> read_bytes ?m buffer4 4" using 4 [of buffer3] 4 [of buffer4] by (simp add: b3 b4 char_array_def del: read_bytes_simps(2))
  have "memcmpBody buffer1 buffer2 buffer3 buffer4 ?m t = Inr (True, (), logger ''memcmpTest: Succeeded'' (logger ''memcmpTest: Passed inequality test''
      (logger ''memcmpTest: Passed equality test'' t)))" for t
    using b1 b2 eq strlen_ok [OF str(1)] strlen_ok [OF str(2)]
    by (simp add: memcmpBody_def compare_sized_def compare_strlen_def compare_last_def memcmp_def memcmp_loop_zero char_array_def Let_def del: read_bytes_simps(2) memcmp_loop.simps)
  then show ?thesis by (simp add: memcmpTest_def Let_def)
qed

text \<open>The heap.\<close>

lemma kmallocTest_passes:
  assumes "heap_blocks (mc_mem (ts_machine s)) []" and "2048 \<le> page_budget (ts_machine s)"
  shows "\<exists>s'. kmallocTest s = Inr (True, s') \<and> heap_blocks (mc_mem (ts_machine s')) []"
proof -
  have "unat (2 :: u64) \<le> 4088 \<and> blocks_in_use 2 (ts_machine s) []" using assms(1) by (simp add: blocks_in_use_def)
  from kh.stress_test [OF this assms(2)] obtain ps s1 s2 where
    "allocate_loop (kmalloc_on 2) 2048 (ts_machine s) = Inr (ps, True, s1)" "for_each kfree ps s1 = Inr s2" "blocks_in_use 2 s2 []" by auto
  then show ?thesis by (auto simp: kmallocTest_def on_machine_def kmalloc_stress_def logger_def blocks_in_use_def simp del: allocate_loop.simps)
qed

definition map_ready :: "nat \<Rightarrow> machine \<Rightarrow> bool" where
  "map_ready n s \<longleftrightarrow> heap_blocks (mc_mem s) [] \<and> can_satisfy 0x100000 (mem_virt (mc_mem s)) \<and>
     card (pieces (free_set (mem_virt (mc_mem s)))) + 1 < BLOCKMAP_SIZE \<and> n * (6 * 4096) \<le> card (free_set (mem_phys (mc_mem s)))"

lemma map_memory_stress_passes:
  "map_ready n s \<Longrightarrow> \<exists>s'. map_memory_stress n s = Inr (True, s') \<and> map_ready 0 s'"
proof (induction n arbitrary: s)
  case 0
  then show ?case by simp
next
  case (Suc n)
  from Suc.prems obtain L where r: "live_heap (mc_mem s) L" "can_satisfy 0x100000 (mem_virt (mc_mem s))"
    "card (pieces (free_set (mem_virt (mc_mem s)))) + 1 < BLOCKMAP_SIZE" "Suc n * (6 * 4096) \<le> card (free_set (mem_phys (mc_mem s)))"
    by (auto simp: map_ready_def heap_blocks_def)
  have sz: "PAGE_ALIGN_UP (nullptr + 0x100000) - PAGE_ALIGN_DOWN nullptr = (0x100000 :: u64)" "mapped_pages nullptr 0x100000 = 256"
    by (simp_all add: PAGE_ALIGN_UP_def PAGE_ALIGN_DOWN_def mapped_pages_def)
  from map_unmap_live [OF r(1), of nullptr "0x100000" True, unfolded sz] r(2-4) obtain p m s1 where
    s1: "mapAddress nullptr 0x100000 True (mc_mem s) = Inr (p, m)" "p \<noteq> nullptr" "unmapMemory p 0x100000 (s\<lparr>mc_mem := m\<rparr>) = Inr s1"
      "live_heap (mc_mem s1) L" "free_set (mem_virt (mc_mem s1)) = free_set (mem_virt (mc_mem s))" "can_satisfy 0x100000 (mem_virt (mc_mem s1))"
      "card (free_set (mem_phys (mc_mem s))) \<le> card (free_set (mem_phys (mc_mem s1))) + 6 * 4096" by auto
  have "map_ready n s1" using r s1(4-7) by (auto simp: map_ready_def heap_blocks_def)
  from Suc.IH [OF this] s1(1-3) show ?case by auto
qed

lemma mapMemoryTest_passes:
  assumes "map_ready 4096 (ts_machine s)"
  shows "\<exists>s'. mapMemoryTest s = Inr (True, s') \<and> map_ready 0 (ts_machine s') \<and> ts_arrays s' = ts_arrays s"
  using map_memory_stress_passes [OF assms] by (auto simp: mapMemoryTest_def on_machine_def logger_def simp del: rbind_eq_Inr)

text \<open>The block map: allocating and returning on the map with the one block of the test.\<close>

definition test_map :: "u64 \<Rightarrow> blockmap \<Rightarrow> bool" where
  "test_map n m \<longleftrightarrow> bm_inv m \<and> free_set m = {0x1000..<0x3000} \<and> can_satisfy n m"

lemma test_map_cycle:
  assumes "test_map n m" and "0 < n"
  shows "\<exists>p m1 m2. allocate n (irq, m) = Inr (p, irq, m1) \<and> p \<noteq> nullptr \<and> returnMemory p n (irq, m1) = Inr ((), irq, m2) \<and> test_map n m2"
proof -
  have "card (pieces {0x1000..<0x3000}) \<le> 1" using card_mono [OF _ pieces_interval [of "0x1000" "0x3000"]] by simp
  then have "card (pieces (free_set m)) + 1 < BLOCKMAP_SIZE" using assms(1) by (simp add: test_map_def BLOCKMAP_SIZE_def)
  with allocate_return [of m n irq] assms obtain p m1 m2 where
    r: "allocate n (irq, m) = Inr (p, irq, m1)" "span p n \<subseteq> free_set m" "returnMemory p n (irq, m1) = Inr ((), irq, m2)" "test_map n m2"
    by (auto simp: test_map_def)
  have "unat p \<in> span p n" using assms(2) by (simp add: span_def word_less_nat_alt)
  with r(2) assms(1) have "0x1000 \<le> unat p" by (auto simp: test_map_def)
  then have "p \<noteq> nullptr" by auto
  with r show ?thesis by blast
qed

lemma test_map_mono: "test_map n m \<Longrightarrow> k \<le> n \<Longrightarrow> test_map k m"
  by (auto simp: test_map_def can_satisfy_def intro: order.trans)

lemma map_stress_passes:
  assumes "sorted_wrt (<) is" and "set is \<subseteq> {..<1000}" and "test_map n m" and "\<forall>i \<in> set is. 0x2000 div (of_nat i + 1) \<le> n"
  shows "\<exists>m'. map_stress is (irq, m) = Inr (True, irq, m') \<and> bm_inv m'"
  using assms
proof (induction "is" arbitrary: n m)
  case (Cons i "is")
  let ?f = "\<lambda>i. 0x2000 div (of_nat i + 1 :: u64)"
  have f: "unat (?f i) = 0x2000 div (i + 1)" if "i < 1000" for i
  proof -
    have "unat (of_nat (i + 1) :: u64) = i + 1" by (rule unat_of_nat_small) (use that in simp)
    then have "unat (of_nat i + 1 :: u64) = i + 1" by (simp add: add.commute)
    then show ?thesis unfolding unat_div by simp
  qed
  have "0 < 0x2000 div (i + 1)" using Cons.prems(2) by (simp add: div_greater_zero_iff)
  then have "0 < ?f i" using f [of i] Cons.prems(2) by (simp add: word_less_nat_alt)
  with test_map_cycle [of "?f i" m irq] test_map_mono [OF Cons.prems(3), of "?f i"] Cons.prems(4) obtain p m1 m2 where
    r: "allocate (?f i) (irq, m) = Inr (p, irq, m1)" "p \<noteq> nullptr" "returnMemory p (?f i) (irq, m1) = Inr ((), irq, m2)" "test_map (?f i) m2" by auto
  have "?f j \<le> ?f i" if "j \<in> set is" for j
  proof -
    have "i < j" "i < 1000" "j < 1000" using Cons.prems(1,2) that by auto
    then show ?thesis using div_le_mono2 [of "i + 1" "j + 1" "0x2000"] f [of i] f [of j] by (simp add: word_le_nat_alt)
  qed
  with Cons.IH [OF _ _ r(4)] Cons.prems(1,2) r(1-3) show ?case by auto
qed (simp add: test_map_def)

lemmas map_eval = addBlock_def allocate_def reserve_def under_lock_def acquire_def release_def locked_def allocateLoop.simps reserveLoop.simps merge_def mergeInto.simps
  addBlockBody_def addBlockLocked_def appendBlock_def reserveStep_def capacity_def Block_def Block_reserve_def emptyBlock_def BLOCKMAP_SIZE_def Let_def

lemma reserveTest_passes:
  assumes "\<not> locked (bm_lock m)" and "length (blocks m) = BLOCKMAP_SIZE" and "numBlocks m = 0"
  shows "\<exists>m'. reserveTest (irq, m) s =
           Inr (True, (irq, m'), logger ''blockMapTest: Succeeded'' (logger ''blockMapTest: Passed reserve test'' s))"
proof -
  let ?R = "\<lambda>bs n. \<lparr>blocks = bs, numBlocks = n, bm_lock = \<lparr>sl_lock = 0, sl_enableIrqs = irq\<rparr>\<rparr>"
  let ?B = "\<lambda>a b. \<lparr>b_start = a, b_end = b\<rparr>"
  obtain bs l where m: "m = \<lparr>blocks = bs, numBlocks = 0, bm_lock = l\<rparr>" using assms(3) by (cases m) auto
  have l: "sl_lock l = 0" using assms by (auto simp: m locked_def)
  have "length bs = Suc (Suc (Suc 253))" using assms by (simp add: m BLOCKMAP_SIZE_def)
  then obtain x y z r where bs: "bs = x # y # z # r" by (auto simp only: length_Suc_conv)
  have 1: "reserve (Block 0x1000 0x3000) (irq, m) = Inr ((), irq, ?R (x # y # z # r) 0)" using l by (cases l) (simp add: m bs map_eval)
  have 2: "allocate 1 (irq, ?R (x # y # z # r) 0) = Inr (nullptr, irq, ?R (x # y # z # r) 0)" by (simp add: map_eval)
  have 3: "addBlock (Block 0x1000 0x3000) (irq, ?R (x # y # z # r) 0) = Inr ((), irq, ?R (?B 0x1000 0x3000 # y # z # r) 1)" by (simp add: map_eval)
  have 4: "reserve (Block 0x1000 0x2000) (irq, ?R (?B 0x1000 0x3000 # y # z # r) 1) = Inr ((), irq, ?R (?B 0x2000 0x3000 # y # z # r) 1)"
    by (simp add: map_eval)
  have 5: "allocate 0x1000 (irq, ?R (?B 0x2000 0x3000 # y # z # r) 1) = Inr (0x2000, irq, ?R (?B 0x3000 0x3000 # y # z # r) 1)" by (simp add: map_eval)
  have 6: "addBlock (Block 0x1000 0x3000) (irq, ?R (?B 0x3000 0x3000 # y # z # r) 1) =
      Inr ((), irq, ?R (?B 0x3000 0x3000 # ?B 0x1000 0x3000 # z # r) 2)" by (simp add: map_eval)
  let ?d = "\<lambda>b c. ?B nullptr nullptr # b # c # r"
  have upd: "(a # b # c # r)[2 := v] = a # b # v # r" for a b c v :: block by (simp add: numeral_2_eq_2)
  have 7: "reserve (Block 0x1800 0x2800) (irq, ?R (?B 0x3000 0x3000 # ?B 0x1000 0x3000 # z # r) 2) =
      Inr ((), irq, ?R (?d (?B 0x1000 0x1800) (?B 0x2800 0x3000)) 3)" by (simp add: map_eval upd)
  have 8: "allocate 0x1000 (irq, ?R (?d (?B 0x1000 0x1800) (?B 0x2800 0x3000)) 3) = Inr (nullptr, irq, ?R (?d (?B 0x1000 0x1800) (?B 0x2800 0x3000)) 3)"
    by (simp add: map_eval)
  have 9: "allocate 0x800 (irq, ?R (?d (?B 0x1000 0x1800) (?B 0x2800 0x3000)) 3) = Inr (0x1000, irq, ?R (?d (?B 0x1800 0x1800) (?B 0x2800 0x3000)) 3)"
    by (simp add: map_eval)
  have 10: "allocate 0x800 (irq, ?R (?d (?B 0x1800 0x1800) (?B 0x2800 0x3000)) 3) = Inr (0x2800, irq, ?R (?d (?B 0x1800 0x1800) (?B 0x3000 0x3000)) 3)"
    by (simp add: map_eval)
  have 11: "allocate 1 (irq, ?R (?d (?B 0x1800 0x1800) (?B 0x3000 0x3000)) 3) = Inr (nullptr, irq, ?R (?d (?B 0x1800 0x1800) (?B 0x3000 0x3000)) 3)"
    by (simp add: map_eval)
  show ?thesis unfolding reserveTest_def 1 rbind_simps case_prod_conv 2 3 4 5 6 7 8 9 10 11 by simp
qed

lemma blockMapTest_passes: "\<exists>s'. blockMapTest s = Inr (True, s') \<and> keeps s s'"
proof -
  let ?b = "Block 0x1000 0x3000" let ?q = "test_irq s"
  have init: "bm_inv blockmap_init" "has_room blockmap_init" "free_set blockmap_init = {}"
    by (simp_all add: bm_inv_def bm_wf_def bm_disjoint_def has_room_def free_set_def live_def blockmap_init_def BLOCKMAP_SIZE_def)
  have b: "wf_block ?b" "bytes ?b = {0x1000..<0x3000}" "capacity ?b = 0x2000" by (simp_all add: wf_block_def bytes_def capacity_def Block_def)
  from addBlock_ok [OF init(1) b(1), of ?q] init b(2) obtain m1 where
    m1: "addBlock ?b (?q, blockmap_init) = Inr ((), ?q, m1)" "bm_inv m1" "free_set m1 = {0x1000..<0x3000}" by auto
  have "?b \<in> set (live m1)" by (rule addBlock_live [OF init(1,2) b(1) _ m1(1)]) (simp add: b(3))
  then have "test_map 0x2000 m1" using m1(2,3) b(3) unfolding test_map_def can_satisfy_def by (metis order.refl)
  from test_map_cycle [OF this, of ?q] obtain p m2 m3 where
    m3: "allocate 0x2000 (?q, m1) = Inr (p, ?q, m2)" "p \<noteq> nullptr" "returnMemory p 0x2000 (?q, m2) = Inr ((), ?q, m3)" "test_map 0x2000 m3" by auto
  from test_map_cycle [OF m3(4), of ?q] obtain p' m4 m5 where
    m5: "allocate 0x2000 (?q, m3) = Inr (p', ?q, m4)" "p' \<noteq> nullptr" "returnMemory p' 0x2000 (?q, m4) = Inr ((), ?q, m5)" "test_map 0x2000 m5" by auto
  have "sorted_wrt (<) [0..<1000]" "set [0..<1000] \<subseteq> {..<1000}" by auto
  moreover have "\<forall>i \<in> set [0..<1000]. 0x2000 div (of_nat i + 1) \<le> (0x2000 :: u64)" by (simp add: word_le_nat_alt unat_div)
  ultimately obtain m6 where m6: "map_stress [0..<1000] (?q, m5) = Inr (True, ?q, m6)" "bm_inv m6"
    using map_stress_passes [OF _ _ m5(4)] by blast
  obtain m7 where m7: "clear (?q, m6) = Inr ((), ?q, m7)" "\<not> locked (bm_lock m7)" "length (blocks m7) = BLOCKMAP_SIZE" "numBlocks m7 = 0"
    using m6(2) by (auto simp: clear_def under_lock_def bm_inv_def bm_wf_def simp del: rbind_eq_Inr)
  let ?t = "logger ''blockMapTest: Passed stress tester'' (logger ''blockMapTest: Allocate/free test passed''
      (logger ''blockMapTest: simple allocation test passed'' (logger ''blockMapTest:'' s)))"
  from reserveTest_passes [OF m7(2-4), of ?q ?t] obtain m8 where
    m8: "reserveTest (?q, m7) ?t = Inr (True, (?q, m8), logger ''blockMapTest: Succeeded'' (logger ''blockMapTest: Passed reserve test'' ?t))" ..
  show ?thesis
    using m1(1) m3(1-3) m5(1-3) m6(1) m7(1) m8 by (simp add: blockMapTest_def blockMapBody_def Let_def keeps_irq del: upt_rec_numeral rbind_eq_Inr)
qed

section \<open>The stress test of the heap, block by block\<close>

text \<open>The first block of the address space that fits serves all the allocations of the test, one page after the other.\<close>

lemma kmalloc_first:
  assumes b: "heap_blocks m B" and l: "live (mem_virt m) = xs @ v # ys" "\<forall>x \<in> set xs. capacity x < PAGE_SIZE" "PAGE_SIZE \<le> capacity v"
    and f: "4 * 4096 \<le> card (free_set (mem_phys m))"
  shows "\<exists>m'. kmalloc 2 m = Inr (b_start v + header_size, m') \<and> heap_blocks m' ((b_start v, 2) # B) \<and>
           live (mem_virt m') = xs @ v\<lparr>b_start := b_start v + PAGE_SIZE\<rparr> # ys \<and>
           free_set (mem_virt m') = free_set (mem_virt m) - {unat (b_start v)..<unat (b_start v) + 4096} \<and>
           card (free_set (mem_phys m)) \<le> card (free_set (mem_phys m')) + 4 * 4096"
proof -
  have "unat (2 :: u64) \<le> 4088" by simp
  note small = small_block [OF this]
  have inv: "bm_inv (mem_virt m)" using b by (auto simp: heap_blocks_def live_heap_def heap_ok_def)
  from allocate_first [OF inv l, of "mem_irq m"] obtain bm where
    bm: "allocate PAGE_SIZE (mem_irq m, mem_virt m) = Inr (b_start v, mem_irq m, bm)" "live bm = xs @ v\<lparr>b_start := b_start v + PAGE_SIZE\<rparr> # ys"
      "free_set bm = free_set (mem_virt m) - span (b_start v) PAGE_SIZE" by blast
  have "can_satisfy PAGE_SIZE (mem_virt m)" using l by (auto simp: can_satisfy_def)
  from kmalloc_blocks [OF b small(1), unfolded small(2,3), OF this] f obtain p m' where
    r: "kmalloc 2 m = Inr (p + header_size, m')" "heap_blocks m' ((p, 2) # B)" "card (free_set (mem_phys m)) \<le> card (free_set (mem_phys m')) + 4 * 4096"
      "on_virt (allocate PAGE_SIZE) m = Inr (p, m\<lparr>mem_virt := mem_virt m'\<rparr>)" by auto
  from r(4) bm(1) have "p = b_start v" "mem_virt m' = bm" by (auto simp: on_virt_def dest: arg_cong [of _ _ mem_virt])
  with r(1-3) bm(2,3) show ?thesis by (auto simp: span_def)
qed

abbreviation run_block :: "u64 \<Rightarrow> nat \<Rightarrow> u64 \<times> u64" where
  "run_block p k \<equiv> (p + of_nat k * PAGE_SIZE, 2)"

abbreviation run_pointer :: "u64 \<Rightarrow> nat \<Rightarrow> ptr" where
  "run_pointer p k \<equiv> p + of_nat k * PAGE_SIZE + header_size"

lemma kmalloc_run:
  assumes "heap_blocks (mc_mem s) B" and "live (mem_virt (mc_mem s)) = xs @ v # ys" and "\<forall>x \<in> set xs. capacity x < PAGE_SIZE" and "wf_block v"
    and "n * 4096 \<le> unat (capacity v)" and "n * (4 * 4096) \<le> card (free_set (mem_phys (mc_mem s)))"
  shows "\<exists>s'. allocate_loop (kmalloc_on 2) n s = Inr (map (run_pointer (b_start v)) [0..<n], True, s') \<and>
           heap_blocks (mc_mem s') (rev (map (run_block (b_start v)) [0..<n]) @ B) \<and>
           live (mem_virt (mc_mem s')) = xs @ v\<lparr>b_start := b_start v + of_nat n * PAGE_SIZE\<rparr> # ys \<and>
           free_set (mem_virt (mc_mem s')) = free_set (mem_virt (mc_mem s)) - {unat (b_start v)..<unat (b_start v) + n * 4096} \<and>
           card (free_set (mem_phys (mc_mem s))) \<le> card (free_set (mem_phys (mc_mem s'))) + n * (4 * 4096)"
  using assms
proof (induction n arbitrary: s B v)
  case (Suc n)
  let ?v = "v\<lparr>b_start := b_start v + PAGE_SIZE\<rparr>"
  have fit: "PAGE_SIZE \<le> capacity v" using Suc.prems(5) by (simp add: word_le_nat_alt)
  note front = reserve_front [OF Suc.prems(4) fit]
  have "unat (capacity ?v) = unat (capacity v) - 4096" using unat_capacity [OF front(2)] unat_capacity [OF Suc.prems(4)] front(1) by simp
  then have cap: "n * 4096 \<le> unat (capacity ?v)" using Suc.prems(5) by simp
  from kmalloc_first [OF Suc.prems(1-3) fit] Suc.prems(6) obtain m where
    m: "kmalloc 2 (mc_mem s) = Inr (b_start v + header_size, m)" "heap_blocks m ((b_start v, 2) # B)" "live (mem_virt m) = xs @ ?v # ys"
      "free_set (mem_virt m) = free_set (mem_virt (mc_mem s)) - {unat (b_start v)..<unat (b_start v) + 4096}"
      "card (free_set (mem_phys (mc_mem s))) \<le> card (free_set (mem_phys m)) + 4 * 4096" by auto
  let ?s = "s\<lparr>mc_mem := m\<rparr>"
  have nn: "b_start v + header_size \<noteq> nullptr"
  proof -
    have "in_heap (b_start v) (heap_pages 2)" using m(2) by (auto simp: heap_blocks_def block_ok_def)
    then have "unat (b_start v + header_size) = unat (b_start v) + 8" using unat_add_u64 [of "b_start v" header_size] by (simp add: in_heap_def header_size_def)
    then show ?thesis by auto
  qed
  have "heap_blocks (mc_mem ?s) ((b_start v, 2) # B)" "live (mem_virt (mc_mem ?s)) = xs @ ?v # ys" "n * (4 * 4096) \<le> card (free_set (mem_phys (mc_mem ?s)))"
    using m Suc.prems(6) by simp_all
  from Suc.IH [OF this(1,2) Suc.prems(3) front(2) cap this(3)] obtain s' where
    s': "allocate_loop (kmalloc_on 2) n ?s = Inr (map (run_pointer (b_start ?v)) [0..<n], True, s')"
      "heap_blocks (mc_mem s') (rev (map (run_block (b_start ?v)) [0..<n]) @ (b_start v, 2) # B)"
      "live (mem_virt (mc_mem s')) = xs @ ?v\<lparr>b_start := b_start ?v + of_nat n * PAGE_SIZE\<rparr> # ys"
      "free_set (mem_virt (mc_mem s')) = free_set (mem_virt m) - {unat (b_start ?v)..<unat (b_start ?v) + n * 4096}"
      "card (free_set (mem_phys m)) \<le> card (free_set (mem_phys (mc_mem s'))) + n * (4 * 4096)" by auto
  have sh: "b_start v + PAGE_SIZE + of_nat k * PAGE_SIZE = b_start v + of_nat (Suc k) * PAGE_SIZE" for k by (simp add: algebra_simps)
  have upt: "map f [0..<Suc n] = f 0 # map (\<lambda>k. f (Suc k)) [0..<n]" for f :: "nat \<Rightarrow> 'a" by (simp add: upt_conv_Cons map_Suc_upt [symmetric] del: upt_Suc)
  have "allocate_loop (kmalloc_on 2) (Suc n) s = Inr (map (run_pointer (b_start v)) [0..<Suc n], True, s')"
    using m(1) nn s'(1) unfolding upt by (simp add: kmalloc_on_def sh del: of_nat_Suc)
  moreover have "heap_blocks (mc_mem s') (rev (map (run_block (b_start v)) [0..<Suc n]) @ B)" using s'(2) unfolding upt by (simp add: sh del: of_nat_Suc)
  moreover have "free_set (mem_virt (mc_mem s')) = free_set (mem_virt (mc_mem s)) - {unat (b_start v)..<unat (b_start v) + Suc n * 4096}"
    unfolding s'(4) m(4) using front(1) by (auto simp: PAGE_SIZE_def)
  ultimately show ?case using s'(3,5) m(5) sh [of n] by (intro exI [of _ s']) (simp add: sh del: of_nat_Suc upt_Suc)
qed simp

text \<open>Freeing the pages in the order of their allocation never splits the free memory into more than one further piece, so nothing is lost.\<close>

lemma kfree_run:
  assumes "heap_blocks (mc_mem s) B" and "mset B = mset (map (run_block p) [i..<n])" and "i \<le> n" and "unat p + n * 4096 < 2 ^ 64"
    and "free_set (mem_virt (mc_mem s)) = F - {unat p + i * 4096..<unat p + n * 4096}" and "{unat p + i * 4096..<unat p + n * 4096} \<subseteq> F"
    and "finite F" and "card (pieces F) + 1 < BLOCKMAP_SIZE" and "0 < k" and "can_satisfy k (mem_virt (mc_mem s))"
  shows "\<exists>s'. for_each kfree (map (run_pointer p) [i..<n]) s = Inr s' \<and> heap_blocks (mc_mem s') [] \<and> free_set (mem_virt (mc_mem s')) = F \<and>
           free_set (mem_phys (mc_mem s)) \<subseteq> free_set (mem_phys (mc_mem s')) \<and> can_satisfy k (mem_virt (mc_mem s'))"
  using assms
proof (induction "n - i" arbitrary: i s B)
  case 0
  then have "i = n" by simp
  with 0 show ?case by auto
next
  case (Suc d)
  then have i: "i < n" "d = n - Suc i" by simp_all
  have upt: "[i..<n] = i # [Suc i..<n]" using i(1) by (rule upt_conv_Cons)
  have k: "i < 2 ^ 52" using i(1) Suc.prems(4) by simp
  have "unat (of_nat i :: u64) = i" by (rule unat_of_nat_small) (use k in simp)
  then have "unat (of_nat i * PAGE_SIZE) = i * 4096" using k by (simp add: unat_word_ariths)
  then have u: "unat (p + of_nat i * PAGE_SIZE) = unat p + i * 4096"
    using unat_add_u64 [of p "of_nat i * PAGE_SIZE"] i(1) Suc.prems(4) by simp
  let ?F = "free_set (mem_virt (mc_mem s))"
  have room: "has_room (mem_virt (mc_mem s))"
  proof (rule has_room_pieces)
    show "bm_inv (mem_virt (mc_mem s))" using Suc.prems(1) by (auto simp: heap_blocks_def live_heap_def heap_ok_def)
    have "card (pieces ?F) \<le> card (insert (unat p + i * 4096) (pieces F))"
      unfolding Suc.prems(5) by (rule card_mono [OF _ pieces_diff]) (simp add: finite_pieces [OF Suc.prems(7)])
    also have "\<dots> \<le> card (pieces F) + 1" using finite_pieces [OF Suc.prems(7)] by (simp add: card_insert_if)
    finally show "card (pieces ?F) < BLOCKMAP_SIZE" using Suc.prems(8) by simp
  qed
  have mem: "run_block p i \<in> set B" using mset_eq_setD [OF Suc.prems(2)] by (simp add: upt)
  from kfree_blocks [OF Suc.prems(1) mem] room Suc.prems(9,10) obtain s1 where
    s1: "kfree (run_pointer p i) s = Inr s1" "heap_blocks (mc_mem s1) (remove1 (run_block p i) B)" "free_set (mem_phys (mc_mem s)) \<subseteq> free_set (mem_phys (mc_mem s1))"
      "free_set (mem_virt (mc_mem s1)) = ?F \<union> {unat p + i * 4096..<unat p + i * 4096 + 4096}" "can_satisfy k (mem_virt (mc_mem s1))"
    by (auto simp: u)
  have ms: "mset (remove1 (run_block p i) B) = mset (map (run_block p) [Suc i..<n])" using Suc.prems(2) unfolding upt by simp
  have le: "unat p + i * 4096 + 4096 \<le> unat p + n * 4096" using i(1) by simp
  have F1: "free_set (mem_virt (mc_mem s1)) = F - {unat p + Suc i * 4096..<unat p + n * 4096}" "{unat p + Suc i * 4096..<unat p + n * 4096} \<subseteq> F"
    using Suc.prems(6) le unfolding s1(4) Suc.prems(5) by auto
  from Suc.hyps(1) [OF i(2) s1(2) ms _ Suc.prems(4) F1 Suc.prems(7-9) s1(5)] i(1) obtain s' where
    "for_each kfree (map (run_pointer p) [Suc i..<n]) s1 = Inr s'" "heap_blocks (mc_mem s') []" "free_set (mem_virt (mc_mem s')) = F"
    "free_set (mem_phys (mc_mem s1)) \<subseteq> free_set (mem_phys (mc_mem s'))" "can_satisfy k (mem_virt (mc_mem s'))" by auto
  with s1(1,3) show ?case unfolding upt by auto
qed

text \<open>
  What the tests of the heap need: the first free block of the address space with a page left has 9 MiB, the free addresses are in fewer than
  255 pieces, and 128 MiB of physical memory are free.
\<close>

definition suite_ready :: "machine \<Rightarrow> bool" where
  "suite_ready s \<longleftrightarrow> heap_blocks (mc_mem s) [] \<and> card (pieces (free_set (mem_virt (mc_mem s)))) + 1 < BLOCKMAP_SIZE \<and>
     (case find (\<lambda>b. PAGE_SIZE \<le> capacity b) (live (mem_virt (mc_mem s))) of None \<Rightarrow> False | Some b \<Rightarrow> 0x900000 \<le> capacity b) \<and>
     0x8000000 \<le> card (free_set (mem_phys (mc_mem s)))"

lemma kmallocTest_then_ready:
  assumes "suite_ready (ts_machine s)"
  shows "\<exists>s'. kmallocTest s = Inr (True, s') \<and> map_ready 4096 (ts_machine s') \<and> ts_arrays s' = ts_arrays s"
proof -
  let ?s = "ts_machine s" let ?V = "mem_virt (mc_mem ?s)" let ?F = "free_set ?V"
  from assms have r: "heap_blocks (mc_mem ?s) []" "card (pieces ?F) + 1 < BLOCKMAP_SIZE" "0x8000000 \<le> card (free_set (mem_phys (mc_mem ?s)))"
    by (simp_all add: suite_ready_def)
  from assms obtain v where v: "find (\<lambda>b. PAGE_SIZE \<le> capacity b) (live ?V) = Some v" "0x900000 \<le> capacity v"
    by (auto simp: suite_ready_def split: option.splits)
  then obtain i where i: "i < length (live ?V)" "v = live ?V ! i" "\<forall>j < i. \<not> PAGE_SIZE \<le> capacity (live ?V ! j)" by (auto simp: find_Some_iff)
  define xs ys where xy: "xs = take i (live ?V)" "ys = drop (Suc i) (live ?V)"
  have l: "live ?V = xs @ v # ys" using id_take_nth_drop [OF i(1)] i(2) by (simp add: xy)
  have small: "\<forall>x \<in> set xs. capacity x < PAGE_SIZE" using i(1,3) by (auto simp: xy in_set_conv_nth not_le)
  have inv: "bm_inv ?V" using r(1) by (auto simp: heap_blocks_def live_heap_def heap_ok_def)
  then have wf: "wf_block v" by (auto simp: bm_inv_def bm_wf_def l)
  have cap: "2048 * 4096 + 0x100000 \<le> unat (capacity v)" using v(2) by (simp add: word_le_nat_alt)
  from kmalloc_run [OF r(1) l small wf, of 2048] cap r(3) obtain s1 where
    s1: "allocate_loop (kmalloc_on 2) 2048 ?s = Inr (map (run_pointer (b_start v)) [0..<2048], True, s1)"
      "heap_blocks (mc_mem s1) (rev (map (run_block (b_start v)) [0..<2048]))" "live (mem_virt (mc_mem s1)) = xs @ v\<lparr>b_start := b_start v + of_nat 2048 * PAGE_SIZE\<rparr> # ys"
      "free_set (mem_virt (mc_mem s1)) = ?F - {unat (b_start v)..<unat (b_start v) + 2048 * 4096}"
      "card (free_set (mem_phys (mc_mem ?s))) \<le> card (free_set (mem_phys (mc_mem s1))) + 2048 * (4 * 4096)" by (auto simp del: upt_rec_numeral)
  have end_: "unat (b_start v) + unat (capacity v) \<le> unat (b_end v)" using unat_capacity [OF wf] wf by (simp add: wf_block_unat)
  then have "unat (b_start v) + 2048 * 4096 < 18446744073709551616" using cap unat_u64_bound [of "b_end v"] by linarith
  then have hi: "unat (b_start v) + 2048 * 4096 < 2 ^ 64" by simp
  have sub: "{unat (b_start v) + 0 * 4096..<unat (b_start v) + 2048 * 4096} \<subseteq> ?F"
    using end_ cap by (auto simp: free_set_alt l bytes_def)
  have "can_satisfy 0x100000 (mem_virt (mc_mem s1))"
  proof -
    have fit: "of_nat 2048 * PAGE_SIZE \<le> capacity v" using cap by (simp add: word_le_nat_alt PAGE_SIZE_def)
    note front = reserve_front [OF wf fit]
    have "unat (capacity (v\<lparr>b_start := b_start v + of_nat 2048 * PAGE_SIZE\<rparr>)) = unat (capacity v) - 2048 * 4096"
      using unat_capacity [OF front(2)] unat_capacity [OF wf] front(1) by (simp add: PAGE_SIZE_def)
    then have "(0x100000 :: u64) \<le> capacity (v\<lparr>b_start := b_start v + of_nat 2048 * PAGE_SIZE\<rparr>)" using cap by (simp add: word_le_nat_alt)
    then show ?thesis by (simp add: can_satisfy_def s1(3))
  qed
  from kfree_run [OF s1(2) _ _ hi _ sub finite_free_set r(2) _ this] s1(4) obtain s2 where
    s2: "for_each kfree (map (run_pointer (b_start v)) [0..<2048]) s1 = Inr s2" "heap_blocks (mc_mem s2) []" "free_set (mem_virt (mc_mem s2)) = ?F"
      "free_set (mem_phys (mc_mem s1)) \<subseteq> free_set (mem_phys (mc_mem s2))" "can_satisfy 0x100000 (mem_virt (mc_mem s2))" by (auto simp del: upt_rec_numeral)
  have "card (free_set (mem_phys (mc_mem s1))) \<le> card (free_set (mem_phys (mc_mem s2)))" by (rule card_mono [OF finite_free_set s2(4)])
  then have "map_ready 4096 s2" using s2(2,3,5) r(2,3) s1(5) by (simp add: map_ready_def)
  then show ?thesis using s1(1) s2(1)
    by (simp add: kmallocTest_def on_machine_def kmalloc_stress_def logger_def del: upt_rec_numeral allocate_loop.simps rbind_eq_Inr)
qed

section \<open>The whole suite\<close>

lemma verdicts_append:
  "verdicts ts s = Inr (oks, s1) \<Longrightarrow> verdicts ts' s1 = Inr (oks', s2) \<Longrightarrow> verdicts (ts @ ts') s = Inr (oks @ oks', s2)"
  by (induction ts arbitrary: s oks) fastforce+

text \<open>The tests that do not use the heap, with the addresses of their local objects.\<close>

definition quiet_tests :: "ptr \<times> ptr \<times> ptr \<Rightarrow> u64 \<times> u64 \<times> u64 \<times> u64 \<Rightarrow> test_state test list" where
  "quiet_tests = (\<lambda>(a, b, c) (buffer1, buffer2, buffer3, buffer4).
     [blockMapTest, vectorTest, memcmpTest buffer1 buffer2 buffer3 buffer4, taskQueueTest a b c])"

definition locals_ok :: "ptr \<times> ptr \<times> ptr \<Rightarrow> u64 \<times> u64 \<times> u64 \<times> u64 \<Rightarrow> bool" where
  "locals_ok = (\<lambda>(a, b, c) (buffer1, buffer2, buffer3, buffer4).
     distinct [a, b, c] \<and> nullptr \<notin> {a, b, c} \<and> sorted_wrt buffers_apart [(buffer4, 5), (buffer3, 5), (buffer2, 14), (buffer1, 14)])"

lemma quiet_test_passes:
  assumes "locals_ok cbs buffers" and "t \<in> set (quiet_tests cbs buffers)" and "arrays_ok (ts_arrays s)"
  shows "\<exists>s'. t s = Inr (True, s') \<and> keeps s s'"
proof -
  obtain a b c where bl: "cbs = (a, b, c)" by (cases cbs)
  obtain b1 b2 b3 b4 where bu: "buffers = (b1, b2, b3, b4)" by (cases buffers)
  have l: "distinct [a, b, c]" "nullptr \<notin> {a, b, c}" "sorted_wrt buffers_apart [(b4, 5), (b3, 5), (b2, 14), (b1, 14)]"
    using assms(1) by (simp_all add: locals_ok_def bl bu)
  from assms(2) consider "t = blockMapTest" | "t = vectorTest" | "t = memcmpTest b1 b2 b3 b4" | "t = taskQueueTest a b c"
    by (auto simp: quiet_tests_def bl bu)
  then show ?thesis
    by cases (simp_all only: blockMapTest_passes vectorTest_passes [OF assms(3)] memcmpTest_passes [OF l(3)] taskQueueTest_passes [OF l(1,2)])
qed

lemma quiet_verdicts:
  assumes "locals_ok cbs buffers" and "set ts \<subseteq> set (quiet_tests cbs buffers)" and "arrays_ok (ts_arrays s)"
  shows "\<exists>s'. verdicts ts s = Inr (replicate (length ts) True, s') \<and> keeps s s'"
  using assms(2,3)
proof (induction ts arbitrary: s)
  case (Cons t ts)
  from quiet_test_passes [OF assms(1) _ Cons.prems(2), of t] Cons.prems(1) obtain s1 where s1: "t s = Inr (True, s1)" "keeps s s1" by auto
  then have "arrays_ok (ts_arrays s1)" using Cons.prems(2) by (simp add: keeps_def)
  with Cons.IH [of s1] Cons.prems(1) obtain s' where "verdicts ts s1 = Inr (replicate (length ts) True, s')" "keeps s1 s'" by auto
  with s1 show ?case by (auto simp: keeps_def)
qed simp

text \<open>The linker puts the two tests of \<^verbatim>\<open>kmalloc_test.cpp\<close> next to each other and the others around them.\<close>

lemma suite_verdicts:
  assumes "suite_ready (ts_machine s)" and "arrays_ok (ts_arrays s)" and "locals_ok cbs buffers"
    and "set (before @ after) \<subseteq> set (quiet_tests cbs buffers)"
  shows "\<exists>oks s'. verdicts (before @ [kmallocTest, mapMemoryTest] @ after) s = Inr (oks, s') \<and> list_all id oks"
proof -
  from quiet_verdicts [OF assms(3), of before s] assms(2,4) obtain s1 where
    s1: "verdicts before s = Inr (replicate (length before) True, s1)" "keeps s s1" by auto
  then have r1: "suite_ready (ts_machine s1)" "arrays_ok (ts_arrays s1)" using assms(1,2) by (simp_all add: keeps_def)
  from kmallocTest_then_ready [OF r1(1)] obtain s2 where
    s2: "kmallocTest s1 = Inr (True, s2)" "map_ready 4096 (ts_machine s2)" "ts_arrays s2 = ts_arrays s1" by blast
  from mapMemoryTest_passes [OF s2(2)] obtain s3 where s3: "mapMemoryTest s2 = Inr (True, s3)" "ts_arrays s3 = ts_arrays s1" using s2(3) by auto
  from quiet_verdicts [OF assms(3), of after s3] assms(4) r1(2) s3(2) obtain s4 where
    s4: "verdicts after s3 = Inr (replicate (length after) True, s4)" by auto
  have "verdicts ([kmallocTest, mapMemoryTest] @ after) s1 = Inr (True # True # replicate (length after) True, s4)" using s2(1) s3(1) s4 by simp
  note run = verdicts_append [OF s1(1) this]
  have "list_all id (replicate (length before) True @ True # True # replicate (length after) True)" by (simp add: list_all_length nth_append nth_Cons split: nat.splits)
  with run show ?thesis by blast
qed

section \<open>Properties\<close>

text \<open>
  (C17) The kernel passes its own self-test: when the heap has the memory that the stress tests need, \<^verbatim>\<open>runTests\<close> of a debug build returns true
  with \<^verbatim>\<open>All tests passed\<close> as its last message. The linker puts the two tests of \<^verbatim>\<open>kmalloc_test.cpp\<close> next to each other and the other
  four anywhere around them: the theorem is for all of these orders. In particular the 2048 blocks of the first heap test all come back
  and leave the address space as it was, and the 4096 mappings of the second never run out of it.
\<close>

theorem kernel_tests_pass:
  assumes "suite_ready (ts_machine s)" and "arrays_ok (ts_arrays s)" and "locals_ok cbs buffers"
    and "set (before @ after) \<subseteq> set (quiet_tests cbs buffers)" and "length (before @ after) \<le> 1000"
  shows "\<exists>s'. runTests True (before @ [kmallocTest, mapMemoryTest] @ after) s = Inr (True, s') \<and>
           last (ts_log s') = ''All tests passed'' @ [CHR 0x0A]"
proof -
  let ?s = "logger ''Running tests...'' s"
  from suite_verdicts [of ?s, OF _ _ assms(3,4)] assms(1,2) obtain oks s' where
    s': "verdicts (before @ [kmallocTest, mapMemoryTest] @ after) ?s = Inr (oks, s')" "list_all id oks" by (auto simp: logger_def)
  with runTests_verdict [OF _ s'(1)] assms(5) show ?thesis by (simp add: logger_def)
qed

text \<open>A kernel after its start: the heap of 256 MiB unused and 256 MiB of physical memory.\<close>

definition start_phys :: blockmap where
  "start_phys = blockmap_init\<lparr>blocks := (blocks blockmap_init)[0 := Block 0x100000 0x10100000], numBlocks := 1\<rparr>"

definition start_machine :: machine where
  "start_machine = \<lparr>mc_mem = example_heap\<lparr>mem_phys := start_phys\<rparr>, mc_tlb = (\<lambda>_. {}), mc_cpu = 0, mc_processorCount = 1\<rparr>"

lemma start_phys_ok: "frames_ok start_phys" "free_set start_phys = {0x100000..<0x10100000}"
proof -
  have l: "live start_phys = [Block 0x100000 0x10100000]" by (simp add: live_def start_phys_def blockmap_init_def BLOCKMAP_SIZE_def)
  then show fs: "free_set start_phys = {0x100000..<0x10100000}" by (simp add: free_set_alt)
  show "frames_ok start_phys"
    using fs l by (simp add: frames_ok_def bm_inv_def bm_wf_def bm_disjoint_def bm_aligned_def aligned_block_def Block_def wf_block_def bytes_def)
      (simp add: start_phys_def blockmap_init_def BLOCKMAP_SIZE_def spinlock_init_def locked_def)
qed

lemma start_machine_ready: "suite_ready start_machine"
proof -
  let ?m = "example_heap\<lparr>mem_phys := start_phys\<rparr>"
  have t: "is_table ?m p f \<longleftrightarrow> p = [] \<and> f = 1" for p f using example_tables [of p f] by (simp add: is_table_def example_heap_def)
  have "pt_ok example_heap" using example_heap_ok(1) by (simp add: heap_ok_def)
  then have "pt_ok ?m" using start_phys_ok t by (auto simp: pt_ok_def self_mapped_def page_bytes_def)
  then have h: "heap_ok ?m" using example_heap_ok(1) by (simp add: heap_ok_def)
  then have "live_heap ?m (\<lambda>_. None)" by (simp add: live_heap_def heap_ok_def backed_def frame_of_def)
  then have "heap_blocks ?m []" by (auto simp: heap_blocks_def)
  moreover have "card (pieces (free_set example_virt)) + 1 < BLOCKMAP_SIZE"
    using card_mono [OF _ pieces_interval [of "0xFFFF800000000000" "0xFFFF800010000000"]] by (simp add: free_set_alt example_virt_live BLOCKMAP_SIZE_def)
  ultimately show ?thesis
    by (simp add: suite_ready_def start_machine_def example_heap_ok example_virt_live start_phys_ok capacity_def Block_def PAGE_SIZE_def)
qed

theorem kernel_tests_pass_witness:
  "\<exists>s'. runTests True [vectorTest, kmallocTest, mapMemoryTest, memcmpTest 0x1000 0x1010 0x1020 0x1030, blockMapTest, taskQueueTest 0x2000 0x3000 0x4000]
      \<lparr>ts_log = [], ts_machine = start_machine, ts_bytes = (\<lambda>_. 0), ts_arrays = \<lparr>hp_blocks = (\<lambda>_. None), hp_next = 0\<rparr>, ts_tasks = (\<lambda>_. new_control_block)\<rparr>
      = Inr (True, s')"
proof -
  let ?s = "\<lparr>ts_log = [], ts_machine = start_machine, ts_bytes = (\<lambda>_. 0), ts_arrays = \<lparr>hp_blocks = (\<lambda>_. None), hp_next = 0\<rparr>, ts_tasks = (\<lambda>_. new_control_block)\<rparr>"
  have "buffers_apart (p, n) (q, k)" if b: "unat q + k \<le> unat p" "unat p + n < 2 ^ 64" for p q n k
  proof (unfold buffers_apart_def fst_conv snd_conv, intro allI impI)
    fix i j
    assume i: "i < n" and j: "j < k"
    have u: "unat (x + of_nat y) = unat x + y" if "unat x + y < 2 ^ 64" for x :: u64 and y
      using unat_add_u64 [of x "of_nat y"] unat_of_nat_small [of y, where 'a = 64] that by simp
    have "unat (p + of_nat i) = unat p + i" by (rule u) (use b(2) i in linarith)
    moreover have "unat (q + of_nat j) = unat q + j" by (rule u) (use b j in linarith)
    ultimately have "unat (q + of_nat j) < unat (p + of_nat i)" using b(1) j by linarith
    then show "p + of_nat i \<noteq> q + of_nat j" by auto
  qed
  then have "locals_ok (0x2000, 0x3000, 0x4000) (0x1000, 0x1010, 0x1020, 0x1030)" by (simp add: locals_ok_def)
  from kernel_tests_pass [OF _ _ this, of ?s "[vectorTest]" "[memcmpTest 0x1000 0x1010 0x1020 0x1030, blockMapTest, taskQueueTest 0x2000 0x3000 0x4000]"]
  show ?thesis using start_machine_ready by (auto simp: quiet_tests_def arrays_ok_def)
qed

end
