(* ===== verification/Kstart.thy ===== *)
theory Kstart
  imports Startup Kernel_Tests Blocking_Queue
begin

text \<open>
  Further parts of \<^verbatim>\<open>kstart\<close> that put components together: the model specific registers with the number of the CPU (\<^verbatim>\<open>cpu.h\<close>), the register of the
  interrupt descriptor table (\<^verbatim>\<open>interrupts.cpp\<close>), the way from the check of the CPU over the first task and the cleaner thread to the self-test,
  and the start of the other CPUs with their trampoline in low memory, which is put there and taken away again.
\<close>

section \<open>The number of the CPU\<close>

type_synonym msrs = "u32 \<Rightarrow> u64"

text \<open>The instructions move the two halves of a register through \<^verbatim>\<open>edx\<close> and \<^verbatim>\<open>eax\<close>.\<close>

definition rdmsr :: "u32 \<Rightarrow> msrs \<Rightarrow> u64" where
  "rdmsr address r =
     (let msrLow = (ucast (r address) :: u32); msrHigh = (ucast (drop_bit 32 (r address)) :: u32)
      in ucast msrLow OR push_bit 32 (ucast msrHigh))"

definition wrmsr :: "u64 \<Rightarrow> u32 \<Rightarrow> msrs \<Rightarrow> msrs" where
  "wrmsr value address r =
     (let eax = (ucast value :: u32); edx = (ucast (drop_bit 32 value) :: u32)
      in r(address := ucast eax OR push_bit 32 (ucast edx)))"

definition IA32_TSC_AUX :: u32 where
  "IA32_TSC_AUX = 0xc0000103"

text \<open>\<^verbatim>\<open>rdtscp\<close> puts the low half of the auxiliary register into \<^verbatim>\<open>ecx\<close>.\<close>

definition getCpuNumber :: "msrs \<Rightarrow> u32" where
  "getCpuNumber r = ucast (r IA32_TSC_AUX)"

definition setCpuNumber :: "u32 \<Rightarrow> msrs \<Rightarrow> msrs" where
  "setCpuNumber cpuNumber = wrmsr (ucast cpuNumber) IA32_TSC_AUX"

lemma halves: "ucast (ucast v :: u32) OR push_bit 32 (ucast (ucast (drop_bit 32 v) :: u32)) = (v :: u64)"
  by (rule bit_eqI) (auto simp: bit_simps)

lemma wrmsr_eq: "wrmsr v address r = r(address := v)"
  by (simp add: wrmsr_def Let_def halves)

lemma rdmsr_wrmsr: "rdmsr address (wrmsr v address' r) = (if address = address' then v else rdmsr address r)"
  by (simp add: rdmsr_def Let_def halves wrmsr_eq)

lemma getCpuNumber_set: "getCpuNumber (setCpuNumber n r) = n"
proof -
  have "ucast (ucast n :: u64) = n" by (rule bit_eqI) (auto simp: bit_simps)
  then show ?thesis by (simp add: getCpuNumber_def setCpuNumber_def wrmsr_eq)
qed

lemma setCpuNumber_others: "address \<noteq> IA32_TSC_AUX \<Longrightarrow> rdmsr address (setCpuNumber n r) = rdmsr address r"
  by (simp add: setCpuNumber_def rdmsr_wrmsr)

section \<open>The register of the descriptor table\<close>

record IdtPointer =
  ip_limit :: u16
  ip_pointer :: ptr

definition sizeof_IdtEntry :: nat where
  "sizeof_IdtEntry = 16"

text \<open>The end of \<^verbatim>\<open>interrupts::init\<close>, with the address of the table; \<^verbatim>\<open>install\<close> loads the register of the CPU with it.\<close>

definition idtPointer_init :: "ptr \<Rightarrow> IdtPointer" where
  "idtPointer_init idt = \<lparr>ip_limit = of_nat (256 * sizeof_IdtEntry) - 1, ip_pointer = idt\<rparr>"

definition install :: "IdtPointer \<Rightarrow> nat \<Rightarrow> (nat \<Rightarrow> IdtPointer option) \<Rightarrow> nat \<Rightarrow> IdtPointer option" where
  "install idtPointer c idtr = idtr(c := Some idtPointer)"

text \<open>The processor uses entry \<open>v\<close> of the table when the limit allows its last byte, and faults otherwise.\<close>

definition gate_address :: "IdtPointer \<Rightarrow> nat \<Rightarrow> ptr option" where
  "gate_address p v =
     (if v * sizeof_IdtEntry + sizeof_IdtEntry - 1 \<le> unat (ip_limit p) then Some (ip_pointer p + of_nat (v * sizeof_IdtEntry)) else None)"

lemma installed_gates:
  "gate_address (idtPointer_init idt) v = (if v < length (interrupts_init f) then Some (idt + of_nat (v * 16)) else None)"
  by (simp add: gate_address_def idtPointer_init_def sizeof_IdtEntry_def interrupts_init_def)

section \<open>From the check of the CPU to the self-test\<close>

text \<open>
  \<open>initialTask\<close> and \<open>cleanerTask\<close> are what the two calls of \<^verbatim>\<open>new task::ControlBlock()\<close> return. The code after \<^verbatim>\<open>cleaner::init\<close> goes on at once
  when that returns without a switch.
\<close>

definition kstart_self_test ::
  "(u32 \<Rightarrow> (u32 \<times> u32 \<times> u32 \<times> u32) option) \<Rightarrow> bool \<Rightarrow> test_state test list \<Rightarrow> ptr \<Rightarrow> ptr \<Rightarrow> ptr \<Rightarrow> kernel \<times> test_state \<Rightarrow>
   (control \<times> kernel \<times> test_state) result" where
  "kstart_self_test cpuid debug tests initialTask cleanerThread cleanerTask = (\<lambda>(k, s).
     if \<not> checkCpuidFlags cpuid then Inl (Panic ''Your CPU is not good enough'')
     else if initialTask = nullptr then Inl NullDereference
     else rbind (sched_init 0 0 initialTask (k\<lparr>k_tcb := (k_tcb k)(initialTask :=
                   new_control_block\<lparr>cb_priority := PRIORITY_NORMAL, cb_originalStackPointer := nullptr\<rparr>)\<rparr>)) (\<lambda>k1.
          rbind (cleaner_init 0 cleanerThread cleanerTask k1) (\<lambda>(ctl, k2).
            if ctl \<noteq> Returned then Inr (ctl, k2, s)
            else rbind (runTests debug tests s) (\<lambda>(ok, s1).
                   if ok then Inr (Returned, k2, s1) else Inl (Panic ''The tests failed!'')))))"

text \<open>The kernel before it has any task.\<close>

definition no_tasks :: "kernel \<Rightarrow> bool" where
  "no_tasks k \<longleftrightarrow> k_sched k 0 = scheduler_init \<and> k_cpuCount k = 0 \<and> k_stacks k \<noteq> []"

lemma first_task:
  assumes "no_tasks k" and "t \<noteq> nullptr"
  shows "\<exists>k'. sched_init 0 0 t (k\<lparr>k_tcb := (k_tcb k)(t := new_control_block\<lparr>cb_priority := PRIORITY_NORMAL, cb_originalStackPointer := nullptr\<rparr>)\<rparr>) = Inr k' \<and>
           cpu_ready 0 k' [] \<and> k_cpuCount k' = 1 \<and> k_stacks k' = k_stacks k \<and> currentTask 0 k' = t \<and> cb_priority (k_tcb k' t) = PRIORITY_NORMAL"
proof -
  have l: "\<not> locked spinlock_init" "tq_lock task_queue_init = spinlock_init" "locked (l\<lparr>sl_lock := 1\<rparr>)" for l
    by (simp_all add: locked_def spinlock_init_def task_queue_init_def)
  show ?thesis
    using assms
    by (auto simp: l no_tasks_def sched_init_def lockTask_def acquire_def upd_sched_def upd_task_def set_irq_def localIrqState_def cpu_ready_def cpu_ok_def tq_ok_def
        cpu_running_def currentTask_def stack_available_def scheduler_init_def new_control_block_def)
qed

text \<open>The way from the first task to the self-test, on a CPU that is good enough.\<close>

lemma kstart_runs_tests:
  assumes "checkCpuidFlags cpuid" and "no_tasks k" and "t \<noteq> nullptr" and "cleanerTask \<noteq> nullptr" and "cleanerTask \<noteq> t"
  obtains k' where "kstart_self_test cpuid debug tests t cleanerThread cleanerTask (k, s) =
      rbind (runTests debug tests s) (\<lambda>(ok, s1). if ok then Inr (Returned, k', s1) else Inl (Panic ''The tests failed!''))"
    and "currentTask 0 k' = t" and "cpu_ok 0 k' [cleanerTask]" and "rip (cb_registers (k_tcb k' cleanerTask)) = cleanerThread"
proof -
  from first_task [OF assms(2,3)] obtain k1 where
    k1: "sched_init 0 0 t (k\<lparr>k_tcb := (k_tcb k)(t := new_control_block\<lparr>cb_priority := PRIORITY_NORMAL, cb_originalStackPointer := nullptr\<rparr>)\<rparr>) = Inr k1"
      "cpu_ready 0 k1 []" "k_cpuCount k1 = 1" "k_stacks k1 = k_stacks k" "currentTask 0 k1 = t" "cb_priority (k_tcb k1 t) = PRIORITY_NORMAL" by blast
  from assms(2) obtain stack ss where st: "k_stacks k1 = stack # ss" unfolding k1(4) no_tasks_def by (meson neq_Nil_conv)
  have "\<not> cb_priority (k_tcb k1 (currentTask 0 k1)) < 1" by (simp add: k1(5,6) PRIORITY_NORMAL_def)
  with thread_create_correct [OF k1(2) _ st assms(4), of cleanerThread nullptr 1] k1(3,5) assms(5) obtain k2 where
    k2: "cleaner_init 0 cleanerThread cleanerTask k1 = Inr (Returned, k2)" "currentTask 0 k2 = t" "cpu_ok 0 k2 [cleanerTask]"
      "rip (cb_registers (k_tcb k2 cleanerTask)) = cleanerThread"
    by (auto simp: cleaner_init_def Let_def)
  show thesis by (rule that [OF _ k2(2-4)]) (use assms(1,3) k1(1) k2(1) in \<open>simp add: kstart_self_test_def\<close>)
qed

text \<open>
  On a CPU that is good enough and with the memory for the tests, \<^verbatim>\<open>kstart\<close> reaches the code behind the self-test as the first task, with the
  cleaner thread ready to run and no other.
\<close>

theorem kstart_self_test_passes:
  assumes "checkCpuidFlags cpuid" and "no_tasks k" and "t \<noteq> nullptr" and "cleanerTask \<noteq> nullptr" and "cleanerTask \<noteq> t"
    and "suite_ready (ts_machine s)" and "arrays_ok (ts_arrays s)" and "locals_ok cbs buffers"
    and "set (before @ after) \<subseteq> set (quiet_tests cbs buffers)" and "length (before @ after) \<le> 1000"
  shows "\<exists>k' s'. kstart_self_test cpuid True (before @ [kmallocTest, mapMemoryTest] @ after) t cleanerThread cleanerTask (k, s) = Inr (Returned, k', s') \<and>
           currentTask 0 k' = t \<and> cpu_ok 0 k' [cleanerTask] \<and> rip (cb_registers (k_tcb k' cleanerTask)) = cleanerThread"
proof -
  let ?s = "logger ''Running tests...'' s" let ?ts = "before @ [kmallocTest, mapMemoryTest] @ after"
  from suite_verdicts [of ?s, OF _ _ assms(8,9)] assms(6,7) obtain oks s' where
    s': "verdicts ?ts ?s = Inr (oks, s')" "list_all id oks" by (auto simp: logger_def)
  with runTests_verdict [OF _ s'(1)] assms(10) have run: "runTests True ?ts s = Inr (True, logger ''All tests passed'' s')" by simp
  from kstart_runs_tests [OF assms(1-5), of True ?ts cleanerThread s] run show ?thesis by fastforce
qed

text \<open>A CPU without the features is refused before anything else happens, and a kernel that fails one of its tests does not go on.\<close>

lemma kstart_bad_cpu:
  "\<not> checkCpuidFlags cpuid \<Longrightarrow> kstart_self_test cpuid debug tests t cleanerThread cleanerTask (k, s) = Inl (Panic ''Your CPU is not good enough'')"
  by (simp add: kstart_self_test_def)

lemma kstart_test_failure:
  assumes "checkCpuidFlags cpuid" and "no_tasks k" and "t \<noteq> nullptr" and "cleanerTask \<noteq> nullptr" and "cleanerTask \<noteq> t"
    and "length tests < 2 ^ 32" and "verdicts tests (logger ''Running tests...'' s) = Inr (oks, s')" and "False \<in> set oks"
  shows "kstart_self_test cpuid True tests t cleanerThread cleanerTask (k, s) = Inl (Panic ''The tests failed!'')"
proof -
  from assms(8) have "\<not> list_all id oks" by (auto simp: list_all_iff)
  with runTests_verdict [OF assms(6,7)] have "runTests True tests s = Inr (False, logger ''There were test failures'' s')" by simp
  then show ?thesis using kstart_runs_tests [OF assms(1-5), of True tests cleanerThread s] by fastforce
qed

section \<open>The trampoline in low memory\<close>

text \<open>
  The other CPUs begin in real mode at a page below 1 MiB. \<^verbatim>\<open>kstart\<close> saves what is there in an array on its stack, puts the code of
  \<^verbatim>\<open>smp_trampoline.S\<close> in its place, and puts the old bytes back once the CPUs run. \<open>dest\<close> is the mapped page, \<open>start\<close> the code in the kernel image.
\<close>

definition place_trampoline :: "u64 \<Rightarrow> u64 \<Rightarrow> u64 \<Rightarrow> u64 \<Rightarrow> byte_mem \<Rightarrow> byte_mem" where
  "place_trampoline dest previous start codeSize m =
     (let m1 = snd (memcpy previous dest codeSize m) in snd (memcpy dest start codeSize m1))"

definition remove_trampoline :: "u64 \<Rightarrow> u64 \<Rightarrow> u64 \<Rightarrow> byte_mem \<Rightarrow> byte_mem" where
  "remove_trampoline dest previous codeSize m = snd (memcpy dest previous codeSize m)"

definition regions_apart :: "u64 \<Rightarrow> u64 \<Rightarrow> u64 \<Rightarrow> bool" where
  "regions_apart p q n \<longleftrightarrow> (\<forall>a. within p (unat n) a \<longrightarrow> \<not> within q (unat n) a)"

lemma regions_apart_sym: "regions_apart p q n \<Longrightarrow> regions_apart q p n"
  by (auto simp: regions_apart_def)

lemma memcpy_apart: "regions_apart dst src n \<Longrightarrow> snd (memcpy dst src n m) a = (if within dst (unat n) a then m (src + (a - dst)) else m a)"
  by (simp add: regions_apart_def memcpy_eq)

lemma within_shift: "within p n a \<Longrightarrow> within q n (q + (a - p))"
  by (simp add: within_def)

lemma trampoline_placed:
  assumes "regions_apart dest previous codeSize" and "regions_apart dest start codeSize" and "regions_apart start previous codeSize" and "within dest (unat codeSize) a"
  shows "place_trampoline dest previous start codeSize m a = m (start + (a - dest))"
    and "place_trampoline dest previous start codeSize m (previous + (a - dest)) = m a"
proof -
  have "within start (unat codeSize) (start + (a - dest))" "within previous (unat codeSize) (previous + (a - dest))"
    using assms(4) by (rule within_shift)+
  moreover from this assms(1,3) have "\<not> within previous (unat codeSize) (start + (a - dest))" "\<not> within dest (unat codeSize) (previous + (a - dest))"
    by (auto simp: regions_apart_def)
  ultimately show "place_trampoline dest previous start codeSize m a = m (start + (a - dest))"
    and "place_trampoline dest previous start codeSize m (previous + (a - dest)) = m a"
    using assms(2,4) regions_apart_sym [OF assms(1)] by (simp_all add: place_trampoline_def Let_def memcpy_apart)
qed

text \<open>Whatever the other CPUs write meanwhile, the page gets its old bytes back as long as the saved copy is left alone.\<close>

theorem trampoline_restored:
  assumes "regions_apart dest previous codeSize" and "regions_apart dest start codeSize" and "regions_apart start previous codeSize"
    and "\<forall>a. within previous (unat codeSize) a \<longrightarrow> m1 a = place_trampoline dest previous start codeSize m a"
  shows "remove_trampoline dest previous codeSize m1 a = (if within dest (unat codeSize) a then m a else m1 a)"
  using trampoline_placed [OF assms(1-3)] assms(4) within_shift [of dest "unat codeSize" a previous]
  by (simp add: remove_trampoline_def memcpy_apart [OF assms(1)])

end
