(* ===== verification/Spec2Isabelle.thy ===== *)
theory Spec2Isabelle
  imports Blocking_Queue Boot_Files Interrupts Exceptions Multiboot Pcie Boot_Paging Kstart
begin

text \<open>
  \<^bold>\<open>The Mykonos kernel\<close>, a small x86-64 operating system kernel in C++ (\<^verbatim>\<open>src/kernel\<close>). This development models
  its memory management, its scheduler and blocking primitives, its file system, its ACPI, interrupt and timer
  code, its device tree and its console, and proves what makes each of them correct.

  \<^bold>\<open>How the kernel is put together.\<close> The boot loader hands over a multiboot information block from which the free
  physical memory, the RAM disk, the frame buffer and the ACPI root pointer are taken. Physical frames and virtual ranges both
  come from a \<^verbatim>\<open>BlockMap\<close>; the page tables map one to the other; \<^verbatim>\<open>kmalloc\<close> and the thread stacks
  sit on top. ACPI tables name the CPUs, the I/O APICs, the HPET and the PCIe configuration space. The scheduler keeps three queues
  of tasks per CPU; mutexes, completions, blocking queues and threads are built on its blocking and unblocking. Interrupts
  enter through one dispatcher, which runs registered handlers and the scheduler's tick. A device tree loads
  drivers in threads of their own; a virtual file system resolves paths over providers, of which the RAM disk is one.

  \<^bold>\<open>Conventions.\<close> Every machine integer is a word of its width and wraps as in C++; a signed operation whose overflow C++
  leaves undefined is the fault \<^const>\<open>Undefined\<close>. An operation is a function on an explicit state and returns
  \<^typ>\<open>'a result\<close>, a fault or a value: \<^const>\<open>Panic\<close>, \<^const>\<open>Deadlock\<close> (a spinlock held by the CPU that
  waits for it), \<^const>\<open>NullDereference\<close>, \<^const>\<open>OutOfBounds\<close>, \<^const>\<open>UseAfterFree\<close> and
  \<^const>\<open>Diverges\<close> are values of the type \<^typ>\<open>fault\<close>. Definitions carry the names of the source.

  \<^bold>\<open>Theories and sources.\<close> (Paths under \<^verbatim>\<open>src/kernel\<close>; \<^verbatim>\<open>arch\<close> stands for \<^verbatim>\<open>arch/x86_64\<close>.)
    \<^item> \<^verbatim>\<open>Kernel_Prelude\<close>: word types, faults and their sequencing, page arithmetic (\<^verbatim>\<open>pageConstants.h\<close>), shared lemmas.
    \<^item> \<^verbatim>\<open>Spin_Lock\<close> (\<^verbatim>\<open>spinlock.h\<close>, the interrupt flag of \<^verbatim>\<open>cpu.h\<close>): a step relation of CPUs over the lock word, with
      mutual exclusion, absence of deadlock and the restoring of interrupts, and a critical section as a function on the owner of the
      lock; the locale \<^verbatim>\<open>lock_owner\<close> is the interface to a structure that embeds a lock.
    \<^item> \<^verbatim>\<open>Memory_Block\<close> (\<^verbatim>\<open>memoryBlock.h/.cpp\<close>): the map of free blocks, against the set of free bytes; the locale
      \<^verbatim>\<open>allocator\<close> is its contract. \<^verbatim>\<open>Physical_Memory\<close> (\<^verbatim>\<open>physicalMemory.h\<close>): frames.
    \<^item> \<^verbatim>\<open>Paging\<close> (\<^verbatim>\<open>pageTables.h\<close>, \<^verbatim>\<open>paging.cpp\<close>): page tables in physical memory, the recursive window through which
      the code reaches them against the walk of the hardware. \<^verbatim>\<open>Kmalloc\<close> (\<^verbatim>\<open>kmalloc.h/.cpp\<close>, \<^verbatim>\<open>virtualMemory.cpp\<close>,
      \<^verbatim>\<open>stacks.h\<close>): heap, mapping of device memory, unmapping with TLB shootdown.
    \<^item> \<^verbatim>\<open>Task_Queue\<close> (\<^verbatim>\<open>task/\<close>), \<^verbatim>\<open>Scheduler\<close> (\<^verbatim>\<open>scheduler.cpp\<close>, \<^verbatim>\<open>registers.S\<close>, \<^verbatim>\<open>processors.cpp\<close>), \<^verbatim>\<open>Blocking\<close>
      (\<^verbatim>\<open>mutex.cpp\<close>, \<^verbatim>\<open>completion.cpp\<close>), \<^verbatim>\<open>Blocking_Queue\<close> (\<^verbatim>\<open>queue.h\<close>, \<^verbatim>\<open>cleaner.cpp\<close>, \<^verbatim>\<open>threadCreator.cpp\<close>,
      \<^verbatim>\<open>threadDestroyer.cpp\<close>): intrusive lists in a heap of control blocks refine lists of tasks; yielding refines a
      round-robin choice among the highest nonempty priority; blocking operations switch tasks in the middle, so each is modelled
      by what it does before and after the switch.
    \<^item> \<^verbatim>\<open>Byte_Strings\<close> (\<^verbatim>\<open>copying.cpp\<close>, \<^verbatim>\<open>string.h/.cpp\<close>), \<^verbatim>\<open>Vector\<close> (\<^verbatim>\<open>vector.h\<close>, \<^verbatim>\<open>iterator.h\<close>, \<^verbatim>\<open>util.h\<close>; the locale
      \<^verbatim>\<open>growing_sequence\<close>), \<^verbatim>\<open>Vfs\<close> (\<^verbatim>\<open>fs.h\<close>, \<^verbatim>\<open>fsProvider.h\<close>, \<^verbatim>\<open>vfs.cpp\<close>; the locale \<^verbatim>\<open>directory_provider\<close>),
      \<^verbatim>\<open>Initramfs\<close> (\<^verbatim>\<open>initramfs.h/.cpp\<close>): memory operations, arrays that grow, path resolution, the tar archive.
    \<^item> \<^verbatim>\<open>Acpi\<close> (\<^verbatim>\<open>acpi/\<close>), \<^verbatim>\<open>Apic\<close> (\<^verbatim>\<open>apic.h/.cpp\<close>), \<^verbatim>\<open>Timers\<close> (\<^verbatim>\<open>hpet.h/.cpp\<close>, \<^verbatim>\<open>apicTimer.cpp\<close>),
      \<^verbatim>\<open>Interrupts\<close> (\<^verbatim>\<open>idt.h\<close>, \<^verbatim>\<open>interrupts.cpp\<close>, \<^verbatim>\<open>interruptHandlers.cpp\<close>, \<^verbatim>\<open>irq.h\<close>, \<^verbatim>\<open>pic.cpp\<close>), \<^verbatim>\<open>Exceptions\<close>
      (\<^verbatim>\<open>exceptionHandlers.cpp\<close>, \<^verbatim>\<open>kpanic.cpp\<close>): tables are parsed from bytes; a device register is a component of an explicit device.
    \<^item> \<^verbatim>\<open>Display\<close> (\<^verbatim>\<open>frameBuffer.cpp\<close>, \<^verbatim>\<open>psfRenderer.cpp\<close>, \<^verbatim>\<open>stringWriter.cpp\<close>), \<^verbatim>\<open>Console\<close> (\<^verbatim>\<open>console.cpp\<close>,
      \<^verbatim>\<open>printf.cpp\<close>): the frame buffer as bytes, the console as a refinement of a terminal of character lines.
    \<^item> \<^verbatim>\<open>Multiboot\<close> (\<^verbatim>\<open>arch/kernel/mbi.cpp\<close>, \<^verbatim>\<open>mbi.h\<close>): the parser of the information block of the boot loader, against a fold over the
      block's tags, and the physical memory it leaves. \<^verbatim>\<open>Boot_Paging\<close> (\<^verbatim>\<open>pageTableInit.cpp\<close>, the first part of \<^verbatim>\<open>kstart\<close>): the static page tables;
      parser, tables and heap constructor together establish the invariant that \<^verbatim>\<open>Kmalloc\<close> keeps.
    \<^item> \<^verbatim>\<open>Smp\<close> (\<^verbatim>\<open>smp.cpp\<close>, the loop of \<^verbatim>\<open>kstart\<close>): starting the other CPUs, their numbers, stacks and tasks. \<^verbatim>\<open>Startup\<close>
      (\<^verbatim>\<open>startup.cpp\<close>, \<^verbatim>\<open>cpuidCheck.cpp\<close>): the search for the hardware tables with its panics, and the end of the
      start of all CPUs (cross-CPU call, barriers, race) as a step relation, with an invariant, a measure and freedom from deadlock.
    \<^item> \<^verbatim>\<open>Device_Tree\<close> (\<^verbatim>\<open>drivers/tree.h/.cpp\<close>): objects linked in a heap, loaded by a thread each; a step relation with an
      invariant and a measure. \<^verbatim>\<open>Pcie\<close> (\<^verbatim>\<open>acpiTree.cpp\<close>, \<^verbatim>\<open>pcieTree.cpp\<close>, \<^verbatim>\<open>pcie.h\<close>, \<^verbatim>\<open>pcieBars.cpp\<close>, \<^verbatim>\<open>xhci/\<close>): the scans of the
      tables and of configuration space, and the mapping of the registers of a device.
    \<^item> \<^verbatim>\<open>Fragmentation\<close>: when memory given back to a \<^verbatim>\<open>BlockMap\<close> is lost, in terms of the separate pieces of the free memory.
      \<^verbatim>\<open>Heap_Life\<close>: the heap through any sequence of \<^verbatim>\<open>kmalloc\<close>, \<^verbatim>\<open>kfree\<close>, \<^verbatim>\<open>mapAddress\<close> and \<^verbatim>\<open>unmapMemory\<close>; a ledger of the pages in use ties the
      page tables to both block maps, and the locale \<^verbatim>\<open>block_heap\<close> is the contract of the heap for blocks of one size.
      \<^verbatim>\<open>Boot_Files\<close> (the end of \<^verbatim>\<open>kRun\<close>): mounting the RAM disk and reading a file of it through the virtual file system.
      \<^verbatim>\<open>Kernel_Tests\<close> (\<^verbatim>\<open>test.cpp\<close>, \<^verbatim>\<open>*_test.cpp\<close>): the test runner and the unit tests as programs on the models, and that they pass.
      \<^verbatim>\<open>Kstart\<close> (\<^verbatim>\<open>startup.cpp\<close>, \<^verbatim>\<open>cpu.h\<close>, \<^verbatim>\<open>interrupts.cpp\<close>): the number of the CPU, the register of the descriptor table, the way from the check of
      the CPU over the first task and the cleaner thread to the self-test, and the trampoline that is put into low memory and taken away.
  \<^bold>\<open>Interfaces.\<close> Each locale is interpreted on the model's own definitions: \<^verbatim>\<open>bml\<close> and \<^verbatim>\<open>tql\<close> for the locks of block maps and task queues,
  \<^verbatim>\<open>bma\<close> for the allocator, \<^verbatim>\<open>tqf\<close> for the task queue as a FIFO, \<^verbatim>\<open>vs\<close> and \<^verbatim>\<open>ch\<close> for vectors and for the children of a directory,
  \<^verbatim>\<open>rd\<close> for the RAM disk as a provider of directories, \<^verbatim>\<open>kh\<close> for the heap as a source of small blocks.

  \<^bold>\<open>Bounds and fuel.\<close> Loops are structural or have a measure, so the models are total. The nesting of ACPI tables, which the source
  does not bound, is fuel, and running out of it is the fault \<^const>\<open>Diverges\<close>. A loop that polls the hardware takes the values it will read as a
  list; a list that ends first is \<^const>\<open>Diverges\<close>, and the theorems say what the list must contain for the loop to return.
  Numbers of CPUs, I/O APICs, handlers and blocks are those of the source.

  \<^bold>\<open>Not modelled.\<close>
  The boot assembly, the linker script and the segment descriptors (\<^verbatim>\<open>bootstrap/\<close>, \<^verbatim>\<open>linker.ld\<close>, \<^verbatim>\<open>gdtbits.h\<close>): the addresses and counters
  they provide are arguments. The assembly stubs of interrupts and stack switching: the models start at the functions they call.
  Of \<^verbatim>\<open>startup.cpp\<close>, the choice of the font and the messages. The template wrapper
  \<^verbatim>\<open>callback.h\<close> and the unused macros of \<^verbatim>\<open>assert.h\<close>. The build files.
  The compiler, the CPU's memory ordering and the hardware itself are not modelled beyond what is said above: the model
  is sequentially consistent, and where CPUs interleave (spinlock, cross-CPU calls) the steps are those of the source's atomic operations.
\<close>

section \<open>Device interrupts, from the controller to the handler\<close>


definition booted_machine :: interrupt_machine where
  "booted_machine = (example_machine 0)\<lparr>mc_apics := projr (initIoApics example_descriptors example_apics)\<rparr>"


end
